(* ===== verification/Prelude.thy ===== *)
theory Prelude
  imports Main "HOL-Library.Word"
begin

text \<open>
  Shared vocabulary of the development.  It holds the names of the C integer types the
  kernel is written with, the collections of simplification rules the component proofs
  share, the bounded search \<open>find_from\<close> to which the nested scanning loops of the
  allocators are reduced, and the interface \<open>bit_allocator\<close> of an allocator that hands
  out the lowest free item of a range.
\<close>

unbundle bit_operations_syntax

section \<open>C integer types\<close>

type_synonym u8 = "8 word"
type_synonym u16 = "16 word"
type_synonym u32 = "32 word"
type_synonym u64 = "64 word"

text \<open>A byte array is read and written by offset; a bitmap is such an array.\<close>

type_synonym bytes = "nat \<Rightarrow> u8"

named_theorems bit_test \<open>C bit tests and updates, as facts about single bits\<close>
named_theorems scan_simps \<open>scanning loops as bounded searches\<close>

section \<open>Single bits\<close>

text \<open>The C idioms \<open>b & (1 << n)\<close>, \<open>(b >> n) & 1\<close>, \<open>b |= 1 << n\<close> and
  \<open>b &= ~(1 << n)\<close> on a byte.  The simplifier writes \<open>push_bit n 1\<close> as \<open>2 ^ n\<close>,
  so the rules are stated for that form.\<close>

lemma test_bit_and [bit_test]: "(b AND 2 ^ n = 0) \<longleftrightarrow> \<not> bit (b :: 'a::len word) n"
  using bit_iff_and_push_bit_not_eq_0 [of b n] by simp

lemma test_bit_shift [bit_test]: "(drop_bit n b AND 1 = 0) \<longleftrightarrow> \<not> bit (b :: 'a::len word) n"
  by (simp add: and_one_eq bit_iff_odd_drop_bit odd_iff_mod_2_eq_one)

lemma set_bit_or [bit_test]:
  "bit ((b :: 'a::len word) OR 2 ^ n) m \<longleftrightarrow> bit b m \<or> (m = n \<and> n < LENGTH('a))"
  by (auto simp: bit_simps)

lemma clear_bit_and [bit_test]:
  "bit ((b :: 'a::len word) AND NOT (2 ^ n)) m \<longleftrightarrow> bit b m \<and> m \<noteq> n"
  by (auto simp: bit_simps dest: bit_imp_le_length)

lemma and_exp_if: "(x :: 'a::len word) AND 2 ^ n = (if bit x n then 2 ^ n else 0)"
  by (rule bit_word_eqI) (auto simp: bit_simps)

text \<open>Two words agree when they agree on every bit below their width.\<close>

lemma word_eq_bits: "(\<And>n. n < LENGTH('a) \<Longrightarrow> bit (x :: 'a::len word) n = bit y n) \<Longrightarrow> x = y"
  by (rule bit_word_eqI) auto

text \<open>Bounds of the C types, and conversions that do not truncate.\<close>

lemma unat_u8: "unat (x :: u8) < 256" using unsigned_less [where 'a = nat and w = x] by simp

lemma unat_u16: "unat (x :: u16) < 65536" using unsigned_less [where 'a = nat and w = x] by simp

lemma unat_u32: "unat (x :: u32) < 4294967296" using unsigned_less [where 'a = nat and w = x] by simp

lemma unat_of_nat_small: "n < 2 ^ LENGTH('a) \<Longrightarrow> unat (of_nat n :: 'a::len word) = n"
  by (simp add: unat_of_nat take_bit_nat_eq_self)

lemma unat_ucast_small:
  "unat x < 2 ^ LENGTH('b) \<Longrightarrow> unat (ucast (x :: 'a::len word) :: 'b::len word) = unat x"
  by (simp add: unsigned_ucast_eq unsigned_take_bit_eq take_bit_nat_eq_self)

lemma ucast_of_nat_small:
  "n < 2 ^ LENGTH('a) \<Longrightarrow> ucast (of_nat n :: 'a::len word) = (of_nat n :: 'b::len word)"
  by (simp add: unsigned_of_nat take_bit_nat_eq_self)

lemma unat_add_small: "unat (a :: u64) + n < 2 ^ 64 \<Longrightarrow> unat (a + of_nat n) = unat a + n"
  by (simp add: unat_word_ariths unat_of_nat)

lemma unat_sub_small: "unat (a :: u64) \<le> unat x \<Longrightarrow> unat (x - a) = unat x - unat a"
  by (simp add: unat_sub word_le_nat_alt)

lemma sint_small:
  assumes "unat (x :: 'a::len word) < 2 ^ (LENGTH('a) - 1)"
  shows "sint x = int (unat x)"
proof -
  have "int (unat x) < 2 ^ (LENGTH('a) - 1)" using assms by (metis of_nat_less_iff of_nat_numeral of_nat_power)
  moreover have "(- 1 :: int) * 2 ^ (LENGTH('a) - 1) \<le> int (unat x)"
    by (metis (no_types) mult_minus_left mult_1 neg_le_0_iff_le of_nat_0_le_iff order_trans zero_le_numeral zero_le_power)
  ultimately have "signed_take_bit (LENGTH('a) - 1) (int (unat x)) = int (unat x)"
    by (simp add: signed_take_bit_int_eq_self)
  then show ?thesis by (simp add: sint_uint)
qed

text \<open>Item \<open>k\<close> of a bitmap with one bit per item.\<close>

definition bmp_bit :: "bytes \<Rightarrow> nat \<Rightarrow> bool" where
  "bmp_bit m k = bit (m (k div 8)) (k mod 8)"

lemma bmp_bit_set:
  assumes "t < 8"
  shows "bmp_bit (m(i := m i OR push_bit t 1)) = (bmp_bit m)(8 * i + t := True)"
proof
  fix k
  have "k div 8 = i \<and> k mod 8 = t \<longleftrightarrow> k = 8 * i + t"
    using assms by auto
  then show "bmp_bit (m(i := m i OR push_bit t 1)) k = ((bmp_bit m)(8 * i + t := True)) k"
    using assms by (auto simp: bmp_bit_def set_bit_or)
qed

lemma bmp_bit_clear:
  assumes "t < 8"
  shows "bmp_bit (m(i := m i AND NOT (push_bit t 1))) = (bmp_bit m)(8 * i + t := False)"
proof
  fix k
  have "k div 8 = i \<and> k mod 8 = t \<longleftrightarrow> k = 8 * i + t"
    using assms by auto
  then show "bmp_bit (m(i := m i AND NOT (push_bit t 1))) k = ((bmp_bit m)(8 * i + t := False)) k"
    using assms by (auto simp: bmp_bit_def clear_bit_and)
qed

lemma bmp_ext:
  assumes "bmp_bit m = bmp_bit m'"
  shows "m = m'"
proof
  fix i
  show "m i = m' i"
  proof (rule word_eq_bits)
    fix n assume "n < LENGTH(8)"
    then have "n < 8" by simp
    with fun_cong [OF assms, of "8 * i + n"] show "bit (m i) n = bit (m' i) n"
      by (simp add: bmp_bit_def)
  qed
qed

section \<open>Bounded search\<close>

function find_from :: "(nat \<Rightarrow> bool) \<Rightarrow> nat \<Rightarrow> nat \<Rightarrow> nat option" where
  "find_from P k n = (if k < n then if P k then Some k else find_from P (Suc k) n else None)"
  by pat_completeness auto
termination
  by (relation "measure (\<lambda>(P, k, n). n - k)") auto

declare find_from.simps [simp del]

lemma find_from_Some:
  "find_from P k n = Some j \<longleftrightarrow> k \<le> j \<and> j < n \<and> P j \<and> (\<forall>i. k \<le> i \<and> i < j \<longrightarrow> \<not> P i)"
proof (induction P k n rule: find_from.induct)
  case (1 P k n)
  show ?case
  proof (cases "k < n \<and> \<not> P k")
    case True
    then have "find_from P k n = find_from P (Suc k) n" by (simp add: find_from.simps [of P k n])
    with True 1 show ?thesis
      by (auto simp: Suc_le_eq) (metis nat_less_le)+
  next
    case False
    then show ?thesis
      by (auto simp: find_from.simps [of P k n] intro: leI le_antisym)
  qed
qed

lemma find_from_None: "find_from P k n = None \<longleftrightarrow> (\<forall>i. k \<le> i \<and> i < n \<longrightarrow> \<not> P i)"
proof
  assume none: "find_from P k n = None"
  show "\<forall>i. k \<le> i \<and> i < n \<longrightarrow> \<not> P i"
  proof (rule ccontr)
    assume "\<not> ?thesis"
    then have ex: "\<exists>i. k \<le> i \<and> i < n \<and> P i" by blast
    define j where "j = (LEAST i. k \<le> i \<and> i < n \<and> P i)"
    have "k \<le> j \<and> j < n \<and> P j" unfolding j_def by (rule LeastI_ex [OF ex])
    moreover have "\<forall>i. k \<le> i \<and> i < j \<longrightarrow> \<not> P i"
      using not_less_Least calculation unfolding j_def by fastforce
    ultimately have "find_from P k n = Some j" by (simp add: find_from_Some)
    with none show False by simp
  qed
next
  assume "\<forall>i. k \<le> i \<and> i < n \<longrightarrow> \<not> P i"
  then show "find_from P k n = None"
    by (cases "find_from P k n") (auto simp: find_from_Some)
qed

lemma find_from_split:
  assumes "k \<le> m" and "m \<le> n"
  shows "find_from P k n = (case find_from P k m of Some j \<Rightarrow> Some j | None \<Rightarrow> find_from P m n)"
proof (cases "find_from P k m")
  case None
  then have low: "\<forall>i. k \<le> i \<and> i < m \<longrightarrow> \<not> P i" by (simp add: find_from_None)
  show ?thesis
  proof (cases "find_from P m n")
    case None
    with low assms have "find_from P k n = None"
      by (auto simp: find_from_None) (metis not_le_imp_less)
    with None \<open>find_from P k m = None\<close> show ?thesis by simp
  next
    case (Some j)
    with low assms have "find_from P k n = Some j"
      by (auto simp: find_from_Some) (metis not_le_imp_less)
    with Some None show ?thesis by simp
  qed
next
  case (Some j)
  with assms have "find_from P k n = Some j" by (auto simp: find_from_Some)
  with Some show ?thesis by simp
qed

lemma find_from_cong:
  "(\<And>i. k \<le> i \<Longrightarrow> i < n \<Longrightarrow> P i = Q i) \<Longrightarrow> find_from P k n = find_from Q k n"
proof (cases "find_from Q k n")
  case None
  moreover assume "\<And>i. k \<le> i \<Longrightarrow> i < n \<Longrightarrow> P i = Q i"
  ultimately show ?thesis by (metis find_from_None)
next
  case (Some j)
  moreover assume "\<And>i. k \<le> i \<Longrightarrow> i < n \<Longrightarrow> P i = Q i"
  ultimately have "find_from P k n = Some j" by (simp add: find_from_Some)
  with Some show ?thesis by simp
qed

text \<open>The search for a clear bit of a bitmap, one byte at a time.\<close>

lemma byte_find:
  "find_from (\<lambda>k. \<not> bmp_bit bm k) (8 * i) (8 * i + 8) =
     map_option (\<lambda>t. 8 * i + t) (find_from (\<lambda>t. \<not> bit (bm i) t) 0 8)"
proof (cases "find_from (\<lambda>t. \<not> bit (bm i) t) 0 8")
  case None
  then have "\<forall>t<8. bit (bm i) t" by (simp add: find_from_None)
  moreover have "k div 8 = i \<and> k mod 8 < 8" if "8 * i \<le> k" "k < 8 * i + 8" for k
    using that by auto
  ultimately have "find_from (\<lambda>k. \<not> bmp_bit bm k) (8 * i) (8 * i + 8) = None"
    unfolding find_from_None bmp_bit_def by metis
  with None show ?thesis by simp
next
  case (Some t)
  then have t: "t < 8" "\<not> bit (bm i) t" "\<forall>j<t. bit (bm i) j" by (auto simp: find_from_Some)
  have "bmp_bit bm k" if "8 * i \<le> k" "k < 8 * i + t" for k
  proof -
    define j where "j = k - 8 * i"
    with that t(1) have "k = 8 * i + j" "j < t" "j < 8" by auto
    then have "k div 8 = i" "k mod 8 < t" by auto
    with t(3) show ?thesis by (simp add: bmp_bit_def)
  qed
  with t have "find_from (\<lambda>k. \<not> bmp_bit bm k) (8 * i) (8 * i + 8) = Some (8 * i + t)"
    by (auto simp: find_from_Some) (simp add: bmp_bit_def)
  with Some show ?thesis by simp
qed

section \<open>Allocators that hand out the lowest free item\<close>

text \<open>
  The frame allocator of \<^verbatim>\<open>kernel/mm.c\<close> and the port allocator of
  \<^verbatim>\<open>kernel/driver/net/port.c\<close> keep one bit per item.  Their contract: \<open>alloc\<close> returns
  the lowest unmarked item of the range \<open>[lo, hi)\<close> and marks it, or fails when the range
  is exhausted and changes nothing; \<open>release\<close> unmarks one item.
\<close>

locale bit_allocator =
  fixes ok :: "'s \<Rightarrow> bool"
    and used :: "'s \<Rightarrow> nat \<Rightarrow> bool"
    and alloc :: "'s \<Rightarrow> (nat \<times> 's) option"
    and release :: "nat \<Rightarrow> 's \<Rightarrow> 's"
    and lo :: nat
    and hi :: nat
  assumes alloc_Some: "ok s \<Longrightarrow> alloc s = Some (k, s') \<Longrightarrow>
      lo \<le> k \<and> k < hi \<and> \<not> used s k \<and> (\<forall>j. lo \<le> j \<and> j < k \<longrightarrow> used s j)
      \<and> used s' = (used s)(k := True)"
    and alloc_ok: "ok s \<Longrightarrow> alloc s = Some (k, s') \<Longrightarrow> ok s'"
    and alloc_None: "ok s \<Longrightarrow> alloc s = None \<Longrightarrow> (\<forall>k. lo \<le> k \<and> k < hi \<longrightarrow> used s k)"
    and release_used: "ok s \<Longrightarrow> lo \<le> k \<Longrightarrow> k < hi \<Longrightarrow> used (release k s) = (used s)(k := False)"
    and release_ok: "ok s \<Longrightarrow> lo \<le> k \<Longrightarrow> k < hi \<Longrightarrow> ok (release k s)"
begin

lemma alloc_release: "ok s \<Longrightarrow> alloc s = Some (k, s') \<Longrightarrow> used (release k s') = used s"
  using alloc_Some [of s k s'] alloc_ok [of s k s'] release_used [of s' k]
  by (auto simp: fun_eq_iff)

lemma alloc_twice_distinct:
  assumes "ok s" and "alloc s = Some (k, s')" and "alloc s' = Some (k', s'')"
  shows "k < k'"
proof (rule ccontr)
  assume "\<not> k < k'"
  note ok' = alloc_ok [OF assms(1,2)]
  with \<open>\<not> k < k'\<close> alloc_Some [OF assms(1,2)] alloc_Some [OF ok' assms(3)] have "used s' k'"
    by (cases "k' = k") auto
  with alloc_Some [OF ok' assms(3)] show False by simp
qed

text \<open>A released item is handed out again, unless a lower one is free.\<close>

lemma release_alloc:
  assumes "ok s" and "lo \<le> k" and "k < hi"
  shows "\<exists>j s'. alloc (release k s) = Some (j, s') \<and> j \<le> k"
proof (cases "alloc (release k s)")
  case None
  then have "used (release k s) k" using alloc_None [OF release_ok [OF assms]] assms by blast
  with assms show ?thesis by (simp add: release_used)
next
  case (Some p)
  obtain j s' where p: "p = (j, s')" by force
  have "\<not> k < j"
    using alloc_Some [OF release_ok [OF assms] Some [unfolded p]] assms by (auto simp: release_used)
  with Some p show ?thesis by auto
qed

fun alloc_n :: "nat \<Rightarrow> 's \<Rightarrow> (nat list \<times> 's) option" where
  "alloc_n 0 s = Some ([], s)"
| "alloc_n (Suc n) s = (case alloc s of None \<Rightarrow> None
     | Some (k, s1) \<Rightarrow> (case alloc_n n s1 of None \<Rightarrow> None | Some (ks, s2) \<Rightarrow> Some (k # ks, s2)))"

text \<open>A run of allocations hands out pairwise different, previously unmarked items.\<close>

lemma alloc_n_fresh:
  "ok s \<Longrightarrow> alloc_n n s = Some (ks, s') \<Longrightarrow> length ks = n \<and> distinct ks
     \<and> (\<forall>k \<in> set ks. lo \<le> k \<and> k < hi \<and> \<not> used s k)
     \<and> (\<forall>k. used s' k \<longleftrightarrow> used s k \<or> k \<in> set ks)"
proof (induction n arbitrary: s ks)
  case 0
  then show ?case by simp
next
  case (Suc n)
  then obtain k s1 ks' where a: "alloc s = Some (k, s1)"
    and b: "alloc_n n s1 = Some (ks', s')" and ks: "ks = k # ks'"
    by (auto split: option.splits)
  from alloc_Some [OF Suc.prems(1) a] have k: "lo \<le> k" "k < hi" "\<not> used s k" and
    u: "used s1 = (used s)(k := True)" by auto
  from Suc.IH [OF alloc_ok [OF Suc.prems(1) a] b] have ks': "length ks' = n" "distinct ks'"
    "\<forall>j \<in> set ks'. lo \<le> j \<and> j < hi \<and> j \<noteq> k \<and> \<not> used s j"
    "\<forall>j. used s' j \<longleftrightarrow> (j = k \<or> used s j) \<or> j \<in> set ks'"
    by (auto simp: u split: if_splits)
  with k show ?case by (auto simp: ks)
qed

end

end
