(* ===== verification/Mm.thy ===== *)
theory Mm
  imports Prelude
begin

text \<open>
  The memory manager, \<^verbatim>\<open>kernel/mm.c\<close>: the physical frame bitmap, the two-bits-per-page
  bitmap of the kernel heap, the page tables behind them, the device mapping window and the
  software page walk.

  Page table entries live at physical byte addresses; the model keeps one typed memory per
  kind of entry (\<open>pte_mem\<close>, \<open>pde_mem\<close>) indexed by that address, so that a walk follows
  the addresses stored in the entries exactly as \<^verbatim>\<open>get_phy_addr\<close> does.  The two bitmaps are
  byte arrays indexed by the offset from \<^verbatim>\<open>RAM_BITMAP\<close> (0x2000000) and \<^verbatim>\<open>PAGE_BITMAP\<close>
  (0x3000000).  An operation that spins for ever in the code (a held spin lock, an exhausted
  bitmap) has the result \<open>None\<close>.  Bit-fields of 40 bits are \<open>40 word\<close>: gcc, the compiler of
  the Makefile, computes \<open>frames << 12\<close> in the width of the bit-field.
\<close>

section \<open>Page table entries\<close>

record pae_page_table =
  pt_p :: bool
  pt_rw :: bool
  pt_us :: bool
  pt_pwt :: bool
  pt_pcd :: bool
  pt_a :: bool
  pt_d :: bool
  pt_pat :: bool
  pt_g :: bool
  pt_ign :: "3 word"
  frames :: "40 word"
  pt_rs2 :: "12 word"

record pae_page_directory =
  pd_p :: bool
  pd_rw :: bool
  pd_us :: bool
  pd_pwt :: bool
  pd_pcd :: bool
  pd_a :: bool
  pd_ign1 :: bool
  pd_ps :: bool
  pd_ign2 :: "4 word"
  phy_addr_pt :: "40 word"
  pd_rs2 :: "12 word"

record pae_page_directory_pointer_table =
  pdp_p :: bool
  pdp_rw :: bool
  pdp_us :: bool
  pdp_pwt :: bool
  pdp_pcd :: bool
  pdp_rs1 :: "4 word"
  pdp_ign :: "3 word"
  phy_addr_pd :: "40 word"
  pdp_rs2 :: "12 word"

text \<open>The entries \<^verbatim>\<open>memset(..., 0, ...)\<close> leaves behind.\<close>

definition pte_zero :: pae_page_table where
  "pte_zero = \<lparr>pt_p = False, pt_rw = False, pt_us = False, pt_pwt = False, pt_pcd = False,
     pt_a = False, pt_d = False, pt_pat = False, pt_g = False, pt_ign = 0, frames = 0, pt_rs2 = 0\<rparr>"

definition pde_zero :: pae_page_directory where
  "pde_zero = \<lparr>pd_p = False, pd_rw = False, pd_us = False, pd_pwt = False, pd_pcd = False,
     pd_a = False, pd_ign1 = False, pd_ps = False, pd_ign2 = 0, phy_addr_pt = 0, pd_rs2 = 0\<rparr>"

section \<open>State\<close>

record mm_state =
  RAM_BITMAP :: bytes
  PAGE_BITMAP :: bytes
  pte_mem :: "nat \<Rightarrow> pae_page_table"
  pde_mem :: "nat \<Rightarrow> pae_page_directory"
  pdpte :: "nat \<Rightarrow> pae_page_directory_pointer_table"
  pml4e_us :: bool
  device_pde :: nat
  alloc_pde :: nat
  alloc_pte :: nat
  g_mm_mp_index :: u64
  alloc_spin_lock :: u32

abbreviation (input) DEVICE_PAGE_DIR :: nat where "DEVICE_PAGE_DIR \<equiv> 0x180000"
abbreviation (input) DEVICE_PAGE_TABLE :: nat where "DEVICE_PAGE_TABLE \<equiv> 0x181000"
abbreviation (input) DEVICE_PDPTE_ENTRY :: nat where "DEVICE_PDPTE_ENTRY \<equiv> 3"
abbreviation (input) DEVICE_MEMORY_MAP :: u32 where "DEVICE_MEMORY_MAP \<equiv> 0xC0000000"
abbreviation (input) ALLOC_PAGE_MEMORY :: u64 where "ALLOC_PAGE_MEMORY \<equiv> 0x100000000"
abbreviation (input) ALLOC_PDPTE_ENTRY :: nat where "ALLOC_PDPTE_ENTRY \<equiv> 4"

text \<open>\<^verbatim>\<open>memset\<close> of \<open>n\<close> eight-byte entries starting at byte address \<open>base\<close>, and an array
  store \<open>base[k] = v\<close> of such entries.\<close>

definition fill_entries :: "nat \<Rightarrow> nat \<Rightarrow> 'e \<Rightarrow> (nat \<Rightarrow> 'e) \<Rightarrow> nat \<Rightarrow> 'e" where
  "fill_entries base n v m = (\<lambda>a. if base \<le> a \<and> a < base + 8 * n then v else m a)"

section \<open>Device mapping\<close>

definition initialize_mm_mp :: "'a mm_state_scheme \<Rightarrow> 'a mm_state_scheme" where
  "initialize_mm_mp s =
     s\<lparr>device_pde := DEVICE_PAGE_DIR,
       pde_mem := fill_entries DEVICE_PAGE_DIR 512 pde_zero (pde_mem s),
       pdpte := (pdpte s)(DEVICE_PDPTE_ENTRY := (pdpte s DEVICE_PDPTE_ENTRY)
         \<lparr>pdp_p := True, pdp_rw := True, pdp_pcd := True,
          phy_addr_pd := ucast (drop_bit 12 (of_nat DEVICE_PAGE_DIR :: u64) AND 0xffffffffffff)\<rparr>),
       g_mm_mp_index := 0\<rparr>"

text \<open>The first loop of \<^verbatim>\<open>mm_mp\<close> fills \<open>n\<close> page table entries from \<open>p\<close> on; the second
  fills \<open>n\<close> directory entries from index \<open>i\<close> on and advances \<^verbatim>\<open>g_mm_mp_index\<close>.\<close>

fun mm_mp_ptes :: "nat \<Rightarrow> bool \<Rightarrow> nat \<Rightarrow> u64 \<Rightarrow> (nat \<Rightarrow> pae_page_table) \<Rightarrow> nat \<Rightarrow> pae_page_table" where
  "mm_mp_ptes 0 user p addr m = m"
| "mm_mp_ptes (Suc n) user p addr m =
     mm_mp_ptes n user (p + 8) (addr + 0x1000)
       (m(p := (let e = (m p)\<lparr>pt_p := True, pt_rw := True, pt_pcd := True\<rparr>;
                    e = (if user then e\<lparr>pt_us := True\<rparr> else e)
                in e\<lparr>frames := ucast (drop_bit 12 addr AND 0xffffffffffff)\<rparr>)))"

fun mm_mp_pdes :: "nat \<Rightarrow> bool \<Rightarrow> nat \<Rightarrow> u64 \<Rightarrow> (nat \<Rightarrow> pae_page_directory) \<Rightarrow> nat \<Rightarrow> pae_page_directory" where
  "mm_mp_pdes 0 user d addr m = m"
| "mm_mp_pdes (Suc n) user d addr m =
     mm_mp_pdes n user (d + 8) (addr + 0x1000)
       (m(d := (let e = (m d)\<lparr>pd_p := True, pd_rw := True\<rparr>;
                    e = (if user then e\<lparr>pd_us := True\<rparr> else e)
                in e\<lparr>pd_pcd := True, phy_addr_pt := ucast (drop_bit 12 addr AND 0xffffffffffff)\<rparr>)))"

text \<open>\<open>ceil_div n d\<close> is the \<^verbatim>\<open>n/d; if(n%d) count++\<close> idiom.\<close>

definition ceil_div :: "nat \<Rightarrow> nat \<Rightarrow> nat" where
  "ceil_div n d = (let c = n div d in if n mod d \<noteq> 0 then c + 1 else c)"

text \<open>\<^verbatim>\<open>mm_mp\<close> returns its status, the value it stores through \<^verbatim>\<open>virt_addr\<close> and the new
  state.  \<^verbatim>\<open>index\<close> is an \<^verbatim>\<open>int\<close>; the remaining-space test compares the unsigned size with
  an \<^verbatim>\<open>int\<close> difference, so both sides are 32-bit words.\<close>

definition mm_mp :: "u64 \<Rightarrow> u32 \<Rightarrow> u32 \<Rightarrow> 'a mm_state_scheme \<Rightarrow> int \<times> u64 \<times> 'a mm_state_scheme" where
  "mm_mp phy_addr sz flag s =
    (let pte = of_nat DEVICE_PAGE_TABLE + 0x1000 * g_mm_mp_index s :: u64;
         index = ucast (g_mm_mp_index s) :: u32
     in if sz > 0x40000000 then (1, 0, s)
        else if sz > 0x40000000 - index * 0x200000 then (2, 0, s)
        else
         let count = ceil_div (unat sz) 4096;
             count2 = ceil_div count 512;
             user = (flag AND 1 \<noteq> 0);
             ptes = mm_mp_ptes count user (unat pte) phy_addr
                      (fill_entries (unat pte) (512 * count2) pte_zero (pte_mem s));
             pdes = mm_mp_pdes count2 user (device_pde s + 8 * unat index) pte (pde_mem s)
         in (0, ucast (DEVICE_MEMORY_MAP + index * 0x200000),
             s\<lparr>pte_mem := ptes, pde_mem := pdes,
               g_mm_mp_index := g_mm_mp_index s + of_nat count2\<rparr>))"

section \<open>Physical frames\<close>

text \<open>\<^verbatim>\<open>memset(base + off, v, n)\<close> on a byte array.\<close>

definition fill_bytes :: "nat \<Rightarrow> nat \<Rightarrow> u8 \<Rightarrow> bytes \<Rightarrow> bytes" where
  "fill_bytes off n v m = (\<lambda>i. if off \<le> i \<and> i < off + n then v else m i)"

definition ram_setup :: "'a mm_state_scheme \<Rightarrow> 'a mm_state_scheme" where
  "ram_setup s =
    (let len = ((128 * 1024) div 4) div 8;
         bm = fill_bytes 0 len (- 1) (RAM_BITMAP s);
         offset = len;
         len = (((512 - 128) * 1024) div 4) div 8
     in s\<lparr>RAM_BITMAP := fill_bytes offset len 0 bm\<rparr>)"

text \<open>The inner loop over the bits of one byte and the outer loop over the bytes.  The outer
  limit is the number of frames of 512 MiB, used as a number of bytes.\<close>

function frame_scan_bits :: "u8 \<Rightarrow> nat \<Rightarrow> nat option" where
  "frame_scan_bits b t =
     (if t < 8 then if drop_bit t b AND 1 = 0 then Some t else frame_scan_bits b (t + 1) else None)"
  by pat_completeness auto
termination
  by (relation "measure (\<lambda>(b, t). 8 - t)") auto

function frame_scan :: "bytes \<Rightarrow> nat \<Rightarrow> (nat \<times> nat) option" where
  "frame_scan bm i =
     (if i < (512 * 1024) div 4 then
        (case frame_scan_bits (bm i) 0 of Some t \<Rightarrow> Some (i, t) | None \<Rightarrow> frame_scan bm (i + 1))
      else None)"
  by pat_completeness auto
termination
  by (relation "measure (\<lambda>(bm, i). 131072 - i)") auto

declare frame_scan_bits.simps [simp del] frame_scan.simps [simp del]

definition alloc_frame :: "'a mm_state_scheme \<Rightarrow> u64 \<times> 'a mm_state_scheme" where
  "alloc_frame s =
     (case frame_scan (RAM_BITMAP s) 4096 of
        None \<Rightarrow> (0, s)
      | Some (i, t) \<Rightarrow>
         (ucast ((of_nat i * 8 + of_nat t) * 0x1000 :: u32),
          s\<lparr>RAM_BITMAP := (RAM_BITMAP s)(i := RAM_BITMAP s i OR push_bit t 1)\<rparr>))"

text \<open>\<^verbatim>\<open>block\<close> is an \<^verbatim>\<open>unsigned int\<close>, so only the low 32 bits of the frame number count.\<close>

definition free_frame :: "u64 \<Rightarrow> 'a mm_state_scheme \<Rightarrow> u32 \<times> 'a mm_state_scheme" where
  "free_frame addr s =
    (if addr = 0 \<or> addr < 0x8000000 then (0, s)
     else let block = ucast (addr div 0x1000) :: u32;
              byte = block div 8;
              bt = block mod 8;
              bm = RAM_BITMAP s;
              i = unat byte
          in (byte OR push_bit 24 bt,
              s\<lparr>RAM_BITMAP := bm(i := bm i AND NOT (push_bit (unat bt) 1))\<rparr>))"

section \<open>Kernel heap pages\<close>

definition alloc_pages_setup :: "'a mm_state_scheme \<Rightarrow> 'a mm_state_scheme" where
  "alloc_pages_setup s =
    (let ptes = fill_entries 0x5001000 (512 * 512) pte_zero (pte_mem s);
         ptes = (\<lambda>a. if 0x5001000 \<le> a \<and> a < 0x5001000 + 8 * (512 * 512)
                     then (ptes a)\<lparr>pt_p := False, pt_rw := True,
                            frames := ucast (drop_bit 12 (0::u64) AND 0xffffffffffff)\<rparr>
                     else ptes a);
         pdes = fill_entries 0x5000000 512 pde_zero (pde_mem s);
         pdes = (\<lambda>a. if 0x5000000 \<le> a \<and> a < 0x5000000 + 8 * 512
                     then (pdes a)\<lparr>pd_p := True, pd_rw := True, pd_us := True,
                            phy_addr_pt := ucast (drop_bit 12
                              (0x5001000 + 0x1000 * of_nat ((a - 0x5000000) div 8) :: u64)
                              AND 0xffffffffffff)\<rparr>
                     else pdes a)
     in s\<lparr>alloc_spin_lock := 0,
          PAGE_BITMAP := fill_bytes 0 0x2000000 0 (PAGE_BITMAP s),
          alloc_pde := 0x5000000, alloc_pte := 0x5001000,
          pte_mem := ptes, pde_mem := pdes,
          pdpte := (pdpte s)(ALLOC_PDPTE_ENTRY := (pdpte s ALLOC_PDPTE_ENTRY)
            \<lparr>pdp_p := True, pdp_rw := True, pdp_us := True,
             phy_addr_pd := ucast (drop_bit 12 (0x5000000 :: u64) AND 0xffffffffffff)\<rparr>),
          pml4e_us := True\<rparr>)"

fun v_pool_loop :: "nat \<Rightarrow> (nat \<Rightarrow> pae_page_table) \<Rightarrow> nat \<Rightarrow> int" where
  "v_pool_loop 0 m p = 0"
| "v_pool_loop (Suc n) m p = (if pt_p (m p) then -1 else v_pool_loop n m (p + 8))"

definition v_pool :: "nat \<Rightarrow> u32 \<Rightarrow> 'a mm_state_scheme \<Rightarrow> int" where
  "v_pool pte len s =
     (if pt_p (pte_mem s pte) then 1 else v_pool_loop (unat len) (pte_mem s) pte)"

text \<open>
  The three helpers on the page bitmap walk pairs of bits: byte \<open>b\<close>, bit position \<open>x\<close> (0, 2,
  4 or 6), count \<open>i\<close> of pages seen.  Each is a \<open>for\<close> loop over \<open>i\<close> whose body is a \<open>for\<close>
  loop over \<open>x\<close> that breaks when \<open>i\<close> reaches \<open>len\<close>; both loops stop exactly when
  \<open>i \<ge> len\<close>, so the recursion tests that first, then advances within the byte, then moves to
  the next byte.
\<close>

function linear_loop :: "bytes \<Rightarrow> int \<Rightarrow> nat \<Rightarrow> nat \<Rightarrow> int \<Rightarrow> int \<Rightarrow> int" where
  "linear_loop bm len b x i a =
     (if i < len then
        (if x < 8 then
           (if bm b AND push_bit x 1 = 0 then linear_loop bm len b (x + 2) (i + 1) (a + 1) else 0)
         else linear_loop bm len (b + 1) 0 i a)
      else a)"
  by pat_completeness auto
termination
  by (relation "measures [\<lambda>(bm, len, b, x, i, a). nat (len - i), \<lambda>(bm, len, b, x, i, a). x]") auto

definition linear :: "bytes \<Rightarrow> nat \<Rightarrow> int \<Rightarrow> nat \<Rightarrow> int" where
  "linear bm p len off = linear_loop bm len p off 0 0"

function masked_loop :: "int \<Rightarrow> nat \<Rightarrow> nat \<Rightarrow> int \<Rightarrow> bool \<Rightarrow> bytes \<Rightarrow> bytes" where
  "masked_loop len b x i a bm =
     (if i < len then
        (if x < 8 then
           masked_loop len b (x + 2) (i + 1) True
             (bm(b := bm b OR (if \<not> a then push_bit x 1 else push_bit x 3)))
         else masked_loop len (b + 1) 0 i a bm)
      else bm)"
  by pat_completeness auto
termination
  by (relation "measures [\<lambda>(len, b, x, i, a, bm). nat (len - i), \<lambda>(len, b, x, i, a, bm). x]") auto

definition masked :: "bytes \<Rightarrow> nat \<Rightarrow> int \<Rightarrow> nat \<Rightarrow> bytes" where
  "masked bm p len off = masked_loop len p off 0 False bm"

function umasked_loop :: "int \<Rightarrow> nat \<Rightarrow> nat \<Rightarrow> int \<Rightarrow> bytes \<Rightarrow> bytes" where
  "umasked_loop len b x i bm =
     (if i < len then
        (if x < 8 then
           umasked_loop len b (x + 2) (i + 1) (bm(b := bm b AND NOT (push_bit x 3)))
         else umasked_loop len (b + 1) 0 i bm)
      else bm)"
  by pat_completeness auto
termination
  by (relation "measures [\<lambda>(len, b, x, i, bm). nat (len - i), \<lambda>(len, b, x, i, bm). x]") auto

definition umasked :: "bytes \<Rightarrow> nat \<Rightarrow> int \<Rightarrow> nat \<Rightarrow> bytes" where
  "umasked bm p len off = umasked_loop len p off 0 bm"

text \<open>\<^verbatim>\<open>get_free_page\<close>: the inner loop over the four pages of byte \<open>b\<close> stops with the bit
  position and page number of a fit (\<open>Inl\<close>) or goes on with the next page number (\<open>Inr\<close>).
  A bitmap without a fit ends in the panic loop.\<close>

function get_free_page_bits :: "bytes \<Rightarrow> u32 \<Rightarrow> nat \<Rightarrow> nat \<Rightarrow> nat \<Rightarrow> nat \<times> nat + nat" where
  "get_free_page_bits bm len b x a =
     (if x < 8 then
        (if bm b AND push_bit x 1 = 0 \<and> len = of_int (linear bm b (sint len) x) then Inl (x, a)
         else get_free_page_bits bm len b (x + 2) (a + 1))
      else Inr a)"
  by pat_completeness auto
termination
  by (relation "measure (\<lambda>(bm, len, b, x, a). 8 - x)") auto

function get_free_page_loop :: "bytes \<Rightarrow> u32 \<Rightarrow> nat \<Rightarrow> nat \<Rightarrow> (nat \<times> nat \<times> nat) option" where
  "get_free_page_loop bm len i a =
     (if i < 268435456 div 8 then
        (case get_free_page_bits bm len i 0 a of
           Inl (x, a') \<Rightarrow> Some (i, x, a')
         | Inr a' \<Rightarrow> get_free_page_loop bm len (i + 1) a')
      else None)"
  by pat_completeness auto
termination
  by (relation "measure (\<lambda>(bm, len, i, a). 33554432 - i)") auto

declare linear_loop.simps [simp del] masked_loop.simps [simp del] umasked_loop.simps [simp del]
  get_free_page_bits.simps [simp del] get_free_page_loop.simps [simp del]

definition get_free_page :: "u32 \<Rightarrow> 'a mm_state_scheme \<Rightarrow> (nat \<times> 'a mm_state_scheme) option" where
  "get_free_page len s =
     (case get_free_page_loop (PAGE_BITMAP s) len 0 0 of
        None \<Rightarrow> None
      | Some (i, x, a) \<Rightarrow> Some (a, s\<lparr>PAGE_BITMAP := masked (PAGE_BITMAP s) i (sint len) x\<rparr>))"

text \<open>\<^verbatim>\<open>get_busy_page_size\<close>: the endless loop counts pages until it meets a second page that
  starts an allocation (01) or is free (00).\<close>

partial_function (option) busy_loop :: "bytes \<Rightarrow> nat \<Rightarrow> nat \<Rightarrow> bool \<Rightarrow> nat \<Rightarrow> nat option" where
  "busy_loop bm b i sim a =
     (if i < 8 then
        (if bm b AND push_bit i 3 = push_bit i 1 \<or> bm b AND push_bit i 3 = 0 then
           (if sim then Some a else busy_loop bm b (i + 2) True (a + 1))
         else busy_loop bm b (i + 2) sim (a + 1))
      else busy_loop bm (b + 1) 0 sim a)"

definition get_busy_page_size :: "nat \<Rightarrow> 'a mm_state_scheme \<Rightarrow> nat option" where
  "get_busy_page_size index s = busy_loop (PAGE_BITMAP s) (index div 4) (index mod 4 * 2) False 0"

text \<open>The loop of \<^verbatim>\<open>alloc_pages\<close> that backs \<open>n\<close> pages with frames; it spins when the frames
  run out.\<close>

fun back_pages :: "nat \<Rightarrow> bool \<Rightarrow> nat \<Rightarrow> 'a mm_state_scheme \<Rightarrow> 'a mm_state_scheme option" where
  "back_pages 0 user p s = Some s"
| "back_pages (Suc n) user p s =
     (let (frame, s) = alloc_frame s in
      if frame = 0 then None
      else
        let e = (pte_mem s p)\<lparr>pt_p := True\<rparr>;
            e = (if user then e\<lparr>pt_us := True\<rparr> else e);
            e = e\<lparr>frames := ucast (drop_bit 12 frame AND 0xffffffffffff)\<rparr>
        in back_pages n user (p + 8) (s\<lparr>pte_mem := (pte_mem s)(p := e)\<rparr>))"

text \<open>\<^verbatim>\<open>alloc_pages\<close> returns its result, the value stored through \<^verbatim>\<open>addr\<close> (\<open>None\<close> when it
  stores nothing) and the new state.  \<^verbatim>\<open>index * 0x1000\<close> is an \<^verbatim>\<open>int\<close> product.\<close>

definition alloc_pages ::
  "int \<Rightarrow> u32 \<Rightarrow> 'a mm_state_scheme \<Rightarrow> (u64 \<times> u64 option \<times> 'a mm_state_scheme) option" where
  "alloc_pages type len s =
    (if len = 0 then Some (0, None, s)
     else if alloc_spin_lock s \<noteq> 0 then None
     else
       let s = s\<lparr>alloc_spin_lock := alloc_spin_lock s + 1\<rparr> in
       case get_free_page len s of
         None \<Rightarrow> None
       | Some (index, s) \<Rightarrow>
          (case back_pages (unat len) (type \<noteq> 0) (alloc_pte s + 8 * index) s of
             None \<Rightarrow> None
           | Some s \<Rightarrow>
              Some (ucast len, Some (ALLOC_PAGE_MEMORY + scast (of_nat index * 0x1000 :: u32)),
                    s\<lparr>alloc_spin_lock := 0\<rparr>)))"

fun release_pages :: "nat \<Rightarrow> nat \<Rightarrow> 'a mm_state_scheme \<Rightarrow> 'a mm_state_scheme" where
  "release_pages 0 p s = s"
| "release_pages (Suc n) p s =
     (let phy = ucast (push_bit 12 (frames (pte_mem s p))) :: u64;
          (_, s) = free_frame phy s
      in release_pages n (p + 8)
           (s\<lparr>pte_mem := (pte_mem s)(p := (pte_mem s p)\<lparr>pt_p := False, pt_us := False, frames := 0\<rparr>)\<rparr>))"

text \<open>\<^verbatim>\<open>free_pages\<close>; \<^verbatim>\<open>(int)a\<close> truncates the page number to a signed 32-bit index.  A negative
  index reads memory below the bitmap: the model has no result there.\<close>

definition free_pages :: "u64 \<Rightarrow> 'a mm_state_scheme \<Rightarrow> 'a mm_state_scheme option" where
  "free_pages addr s =
    (if addr = 0 then Some s
     else
       let a = (addr - ALLOC_PAGE_MEMORY) div 0x1000;
           index = unat (ucast a :: u32);
           p = alloc_pte s + 8 * index
       in if sint (ucast a :: u32) < 0 then None
          else case get_busy_page_size index s of
            None \<Rightarrow> None
          | Some len \<Rightarrow>
             Some (release_pages len p
               (s\<lparr>PAGE_BITMAP := umasked (PAGE_BITMAP s) (index div 4) (int len) (index mod 4 * 2)\<rparr>)))"

section \<open>Page walk\<close>

definition get_phy_addr :: "u64 \<Rightarrow> 'a mm_state_scheme \<Rightarrow> u64" where
  "get_phy_addr v s =
    (let table = unat (drop_bit 12 v AND 0x1FF);
         directory = unat (drop_bit 21 v AND 0x1FF);
         directory_ptr = unat (drop_bit 30 v AND 0x1FF);
         pde = unat (ucast (push_bit 12 (phy_addr_pd (pdpte s directory_ptr))) AND 0xffffffffffff :: u64);
         pte = unat (ucast (push_bit 12 (phy_addr_pt (pde_mem s (pde + 8 * directory)))) AND 0xffffffffffff :: u64)
     in ucast (push_bit 12 (frames (pte_mem s (pte + 8 * table)))) AND 0xffffffffffff)"

section \<open>The frame allocator hands out the lowest free frame\<close>

lemma frame_scan_bits_find: "frame_scan_bits b t = find_from (\<lambda>t. \<not> bit b t) t 8"
proof (induction b t rule: frame_scan_bits.induct)
  case (1 b t)
  then show ?case
    by (simp add: frame_scan_bits.simps [of b t] find_from.simps [of _ t] test_bit_shift)
qed

lemma frame_scan_find:
  "i \<le> 131072 \<Longrightarrow> frame_scan bm i = map_option (\<lambda>k. (k div 8, k mod 8))
     (find_from (\<lambda>k. \<not> bmp_bit bm k) (8 * i) 1048576)"
proof (induction bm i rule: frame_scan.induct)
  case (1 bm i)
  show ?case
  proof (cases "i < 131072")
    case False
    with "1.prems" show ?thesis by (simp add: frame_scan.simps [of bm] find_from.simps)
  next
    case True
    have split: "find_from (\<lambda>k. \<not> bmp_bit bm k) (8 * i) 1048576 =
      (case map_option (\<lambda>t. 8 * i + t) (frame_scan_bits (bm i) 0) of Some j \<Rightarrow> Some j
       | None \<Rightarrow> find_from (\<lambda>k. \<not> bmp_bit bm k) (8 * (i + 1)) 1048576)"
      unfolding frame_scan_bits_find byte_find [symmetric] distrib_left mult_1_right
      by (rule find_from_split) (use True in simp_all)
    show ?thesis
    proof (cases "frame_scan_bits (bm i) 0")
      case None
      with True "1.IH" split show ?thesis by (simp add: frame_scan.simps [of bm i])
    next
      case (Some t)
      then have "t < 8" by (simp add: frame_scan_bits_find find_from_Some)
      with True Some split show ?thesis by (simp add: frame_scan.simps [of bm i])
    qed
  qed
qed

text \<open>The address of frame \<open>k\<close>, and the abstract view of the frame allocator.\<close>

definition frame_addr :: "nat \<Rightarrow> u64" where
  "frame_addr k = of_nat (k * 4096)"

lemma frame_word:
  assumes "k < 1048576"
  shows "ucast ((of_nat (k div 8) * 8 + of_nat (k mod 8)) * 0x1000 :: u32) = frame_addr k"
proof -
  have "(of_nat (k div 8) * 8 + of_nat (k mod 8)) * 0x1000 = (of_nat (k * 4096) :: u32)"
    by (metis (no_types, lifting) div_mult_mod_eq of_nat_add of_nat_mult of_nat_numeral)
  moreover have "k * 4096 < 2 ^ 32" using assms by simp
  ultimately show ?thesis
    using ucast_of_nat_small [of "k * 4096", where 'a = 32 and 'b = 64]
    by (simp only: frame_addr_def) simp
qed

definition frame_alloc :: "'a mm_state_scheme \<Rightarrow> (nat \<times> 'a mm_state_scheme) option" where
  "frame_alloc s = (let (a, s') = alloc_frame s in if a = 0 then None else Some (unat a div 4096, s'))"

definition frame_release :: "nat \<Rightarrow> 'a mm_state_scheme \<Rightarrow> 'a mm_state_scheme" where
  "frame_release k s = snd (free_frame (frame_addr k) s)"

abbreviation frame_used :: "'a mm_state_scheme \<Rightarrow> nat \<Rightarrow> bool" where
  "frame_used s \<equiv> bmp_bit (RAM_BITMAP s)"

lemma unat_frame_addr: "k < 1048576 \<Longrightarrow> unat (frame_addr k) = k * 4096"
  unfolding frame_addr_def by (rule unat_of_nat_small) simp

lemma alloc_frame_find:
  "alloc_frame s = (case find_from (\<lambda>k. \<not> frame_used s k) 32768 1048576 of
      None \<Rightarrow> (0, s)
    | Some k \<Rightarrow> (frame_addr k,
        s\<lparr>RAM_BITMAP := (RAM_BITMAP s)(k div 8 := RAM_BITMAP s (k div 8) OR push_bit (k mod 8) 1)\<rparr>))"
proof (cases "find_from (\<lambda>k. \<not> frame_used s k) 32768 1048576")
  case None
  then show ?thesis by (simp add: alloc_frame_def frame_scan_find)
next
  case (Some k)
  then have "k < 1048576" by (simp add: find_from_Some)
  with Some show ?thesis
    by (simp add: alloc_frame_def frame_scan_find frame_word [simplified])
qed

lemma frame_release_used:
  assumes "32768 \<le> k" and "k < 1048576"
  shows "RAM_BITMAP (frame_release k s) =
    (RAM_BITMAP s)(k div 8 := RAM_BITMAP s (k div 8) AND NOT (push_bit (k mod 8) 1))"
proof -
  have u: "unat (frame_addr k) = k * 4096" by (rule unat_frame_addr [OF assms(2)])
  have nz: "frame_addr k \<noteq> 0" "\<not> frame_addr k < 0x8000000"
    using u assms by (auto simp: word_less_nat_alt unat_eq_zero [symmetric] simp del: unat_eq_zero)
  have "unat (frame_addr k div 0x1000) = k" by (simp add: unat_div u)
  then have "unat (ucast (frame_addr k div 0x1000) :: u32) = k"
    using assms by (simp add: unat_ucast_small)
  with nz show ?thesis
    by (simp add: frame_release_def free_frame_def Let_def unat_div unat_mod)
qed

interpretation frame: bit_allocator "\<lambda>_. True" frame_used frame_alloc frame_release 32768 1048576
proof
  fix s s' :: "'a mm_state_scheme" and k
  show "32768 \<le> k \<Longrightarrow> k < 1048576 \<Longrightarrow> frame_used (frame_release k s) = (frame_used s)(k := False)"
    by (simp only: frame_release_used bmp_bit_clear mod_less_divisor) simp
  assume "frame_alloc s = None"
  then have "find_from (\<lambda>k. \<not> frame_used s k) 32768 1048576 = None"
    by (auto simp: frame_alloc_def alloc_frame_find find_from_Some split: option.splits if_splits)
       (metis unat_frame_addr mult_eq_0_iff unat_0 not_numeral_le_zero zero_neq_numeral)
  then show "\<forall>k. 32768 \<le> k \<and> k < 1048576 \<longrightarrow> frame_used s k" by (simp add: find_from_None)
next
  fix s s' :: "'a mm_state_scheme" and k
  assume "frame_alloc s = Some (k, s')"
  then obtain j where f: "find_from (\<lambda>k. \<not> frame_used s k) 32768 1048576 = Some j"
    and k: "k = unat (frame_addr j) div 4096"
    and s': "s' = s\<lparr>RAM_BITMAP := (RAM_BITMAP s)(j div 8 := RAM_BITMAP s (j div 8) OR push_bit (j mod 8) 1)\<rparr>"
    by (auto simp: frame_alloc_def alloc_frame_find split: option.splits if_splits)
  from f have "j < 1048576" by (simp add: find_from_Some)
  with k have "k = j" by (simp add: unat_frame_addr)
  with f s' show "32768 \<le> k \<and> k < 1048576 \<and> \<not> frame_used s k
      \<and> (\<forall>j. 32768 \<le> j \<and> j < k \<longrightarrow> frame_used s j) \<and> frame_used s' = (frame_used s)(k := True)"
    using bmp_bit_set [of "j mod 8" "RAM_BITMAP s" "j div 8"]
    by (simp add: find_from_Some)
qed simp_all

end
