(* ===== verification/Pages.thy ===== *)
theory Pages
  imports Mm
begin

text \<open>
  The kernel heap of \<^verbatim>\<open>kernel/mm.c\<close> at the level of pages.  The bit-pair loops are read one
  page at a time, then as operations on ranges of pages; \<^verbatim>\<open>get_free_page\<close> is first fit;
  \<^verbatim>\<open>alloc_pages\<close> and \<^verbatim>\<open>free_pages\<close> refine an abstract page allocator, keep the invariant
  \<open>mm_inv\<close> that ties the bitmap, the page tables and the frame bitmap together, and undo each
  other.
\<close>

section \<open>The page bitmap as a sequence of page states\<close>

definition page_lo :: "bytes \<Rightarrow> nat \<Rightarrow> bool" where
  "page_lo bm k = bit (bm (k div 4)) (2 * (k mod 4))"

definition page_hi :: "bytes \<Rightarrow> nat \<Rightarrow> bool" where
  "page_hi bm k = bit (bm (k div 4)) (2 * (k mod 4) + 1)"

lemma page_at [simp]: "y < 4 \<Longrightarrow> page_lo bm (4 * b + y) = bit (bm b) (2 * y)"
  "y < 4 \<Longrightarrow> page_hi bm (4 * b + y) = bit (bm b) (2 * y + 1)"
  by (simp_all add: page_lo_def page_hi_def)

lemma bit_three: "bit (3 :: u8) i \<longleftrightarrow> i < 2" 
proof -
  have "(3 :: u8) = mask 2" by (simp add: mask_eq_exp_minus_1)
  then have "bit (3 :: u8) i \<longleftrightarrow> bit (mask 2 :: u8) i" by (rule arg_cong)
  also have "\<dots> \<longleftrightarrow> i < 2" by (simp only: bit_mask_iff) (auto simp: possible_bit_def)
  finally show ?thesis .
qed
lemma bit_pair: "bit (push_bit n 3 :: u8) m \<longleftrightarrow> (m = n \<or> m = n + 1) \<and> m < 8"
proof -
  have "bit (push_bit n 3 :: u8) m \<longleftrightarrow> n \<le> m \<and> m < 8 \<and> m - n < 2"
    by (simp only: bit_push_bit_iff bit_three possible_bit_word) simp
  then show ?thesis by (simp only:) arith
qed

text \<open>The pair of bits of page \<open>k\<close> set by \<^verbatim>\<open>masked\<close> and cleared by \<^verbatim>\<open>umasked\<close>.\<close>

definition set_page :: "bool \<Rightarrow> nat \<Rightarrow> bytes \<Rightarrow> bytes" where
  "set_page a k bm = bm(k div 4 := bm (k div 4) OR
     (if \<not> a then push_bit (2 * (k mod 4)) 1 else push_bit (2 * (k mod 4)) 3))"

definition clear_page :: "nat \<Rightarrow> bytes \<Rightarrow> bytes" where
  "clear_page k bm = bm(k div 4 := bm (k div 4) AND NOT (push_bit (2 * (k mod 4)) 3))"

lemma page_pos_eq:
  "(j::nat) div 4 = k div 4 \<Longrightarrow> (2 * (j mod 4) = 2 * (k mod 4)) \<longleftrightarrow> j = k"
  by (metis div_mult_mod_eq mult_left_cancel zero_neq_numeral)

lemma page_pos_less: "2 * ((k::nat) mod 4) < 8" "2 * (k mod 4) + 1 < 8"
  by linarith+

lemma pos_parity: "2 * (j::nat) \<noteq> 2 * k + 1" "2 * j + 1 \<noteq> 2 * k"
  by presburger+

lemma set_page_lo: "page_lo (set_page a k bm) j \<longleftrightarrow> page_lo bm j \<or> j = k"
proof (cases "j div 4 = k div 4")
  case True
  then show ?thesis
    using page_pos_less(1) [of k] page_pos_less(1) [of j] page_pos_eq [OF True] pos_parity(1) [of "j mod 4" "k mod 4"]
    by (auto simp: page_lo_def set_page_def bit_pair bit_or_iff bit_exp_iff simp del: One_nat_def)
next
  case False
  then show ?thesis by (auto simp: page_lo_def set_page_def)
qed

lemma set_page_hi: "page_hi (set_page a k bm) j \<longleftrightarrow> page_hi bm j \<or> (j = k \<and> a)"
proof (cases "j div 4 = k div 4")
  case True
  then show ?thesis
    using page_pos_less(2) [of k] page_pos_less(2) [of j] page_pos_eq [OF True] pos_parity(2) [of "j mod 4" "k mod 4"]
    by (auto simp: page_hi_def set_page_def bit_pair bit_or_iff bit_exp_iff simp del: One_nat_def)
next
  case False
  then show ?thesis by (auto simp: page_hi_def set_page_def)
qed

lemma clear_page_lo: "page_lo (clear_page k bm) j \<longleftrightarrow> page_lo bm j \<and> j \<noteq> k"
proof (cases "j div 4 = k div 4")
  case True
  then show ?thesis
    using page_pos_less(1) [of k] page_pos_less(1) [of j] page_pos_eq [OF True] pos_parity(1) [of "j mod 4" "k mod 4"]
    by (auto simp: page_lo_def clear_page_def bit_pair bit_and_iff bit_not_iff simp del: One_nat_def)
next
  case False
  then show ?thesis by (auto simp: page_lo_def clear_page_def)
qed

lemma clear_page_hi: "page_hi (clear_page k bm) j \<longleftrightarrow> page_hi bm j \<and> j \<noteq> k"
proof (cases "j div 4 = k div 4")
  case True
  then show ?thesis
    using page_pos_less(2) [of k] page_pos_less(2) [of j] page_pos_eq [OF True] pos_parity(2) [of "j mod 4" "k mod 4"]
    by (auto simp: page_hi_def clear_page_def bit_pair bit_and_iff bit_not_iff simp del: One_nat_def)
next
  case False
  then show ?thesis by (auto simp: page_hi_def clear_page_def)
qed

lemma pages_ext:
  assumes "\<And>k. page_lo bm k = page_lo bm' k" and "\<And>k. page_hi bm k = page_hi bm' k"
  shows "bm = bm'"
proof
  fix b
  show "bm b = bm' b"
  proof (rule word_eq_bits)
    fix n assume "n < LENGTH(8)"
    then have n: "n div 2 < 4" by simp
    show "bit (bm b) n = bit (bm' b) n"
    proof (cases "even n")
      case True
      with assms(1) [of "4 * b + n div 2"] n show ?thesis by simp
    next
      case False
      with assms(2) [of "4 * b + n div 2"] n show ?thesis by simp
    qed
  qed
qed

lemma pair_test:
  "n < 7 \<Longrightarrow> (w :: u8) AND push_bit n 3 = push_bit n 1 \<or> w AND push_bit n 3 = 0 \<longleftrightarrow> \<not> bit w (n + 1)"
proof
  assume n: "n < 7" and *: "w AND push_bit n 3 = push_bit n 1 \<or> w AND push_bit n 3 = 0"
  show "\<not> bit w (n + 1)"
  proof
    assume "bit w (n + 1)"
    with n have "bit (w AND push_bit n 3) (n + 1)" by (simp add: bit_and_iff bit_pair)
    with * show False by (auto simp: bit_exp_iff)
  qed
next
  assume n: "n < 7" and *: "\<not> bit w (n + 1)"
  have "w AND push_bit n 3 = (if bit w n then push_bit n 1 else 0)"
    by (rule word_eq_bits) (use n * in \<open>auto simp: bit_and_iff bit_pair bit_exp_iff\<close>)
  then show "w AND push_bit n 3 = push_bit n 1 \<or> w AND push_bit n 3 = 0" by auto
qed

subsection \<open>The loops, one page at a time\<close>

abbreviation linear_at where "linear_at bm len k \<equiv> linear_loop bm len (k div 4) (2 * (k mod 4))"
abbreviation masked_at where "masked_at len k \<equiv> masked_loop len (k div 4) (2 * (k mod 4))"
abbreviation umasked_at where "umasked_at len k \<equiv> umasked_loop len (k div 4) (2 * (k mod 4))"
abbreviation busy_at where "busy_at bm k \<equiv> busy_loop bm (k div 4) (2 * (k mod 4))"

text \<open>The position after page \<open>k\<close> is page \<open>k + 1\<close>, in the same byte or at the start of the next.\<close>

lemma page_cases:
  obtains (inner) b y where "k div 4 = b" "k mod 4 = y" "y < 3" "Suc k div 4 = b" "Suc k mod 4 = Suc y"
  | (last) b where "k div 4 = b" "k mod 4 = 3" "Suc k div 4 = b + 1" "Suc k mod 4 = 0"
proof (cases "k mod 4 = 3")
  case True
  with last show ?thesis by (simp add: mod_Suc div_Suc)
next
  case False
  then have "k mod 4 < 3" by linarith
  with inner show ?thesis by (simp add: mod_Suc div_Suc)
qed

lemma linear_at_step: "linear_at bm len k i a =
  (if i < len then if page_lo bm k then 0 else linear_at bm len (Suc k) (i + 1) (a + 1) else a)"
proof (cases k rule: page_cases)
  case (inner b y)
  then show ?thesis by (simp add: linear_loop.simps [of bm len b "2 * y" i a] test_bit_and page_lo_def)
next
  case (last b)
  then have "linear_at bm len (Suc k) (i + 1) (a + 1) = linear_loop bm len b 8 (i + 1) (a + 1)"
    by (simp add: linear_loop.simps [of bm len b 8] linear_loop.simps [of bm len "Suc b" 0])
  with last test_bit_and [of "bm b" 6] show ?thesis
    by (simp add: linear_loop.simps [of bm len b 6 i a] page_lo_def)
qed

lemma masked_at_step: "masked_at len k i a bm =
  (if i < len then masked_at len (Suc k) (i + 1) True (set_page a k bm) else bm)"
proof (cases k rule: page_cases)
  case (inner b y)
  then show ?thesis by (simp add: masked_loop.simps [of len b "2 * y" i a bm] set_page_def)
next
  case (last b)
  then have "masked_at len (Suc k) (i + 1) True m = masked_loop len b 8 (i + 1) True m" for m
    by (simp add: masked_loop.simps [of len b 8] masked_loop.simps [of len "Suc b" 0])
  with last show ?thesis by (simp add: masked_loop.simps [of len b 6 i a bm] set_page_def)
qed

lemma umasked_at_step: "umasked_at len k i bm =
  (if i < len then umasked_at len (Suc k) (i + 1) (clear_page k bm) else bm)"
proof (cases k rule: page_cases)
  case (inner b y)
  then show ?thesis by (simp add: umasked_loop.simps [of len b "2 * y" i bm] clear_page_def)
next
  case (last b)
  then have "umasked_at len (Suc k) (i + 1) m = umasked_loop len b 8 (i + 1) m" for m
    by (simp add: umasked_loop.simps [of len b 8] umasked_loop.simps [of len "Suc b" 0])
  with last show ?thesis by (simp add: umasked_loop.simps [of len b 6 i bm] clear_page_def)
qed

lemma busy_at_step: "busy_at bm k sim a =
  (if \<not> page_hi bm k \<and> sim then Some a
   else busy_at bm (Suc k) (sim \<or> \<not> page_hi bm k) (a + 1))"
proof (cases k rule: page_cases)
  case (inner b y)
  with pair_test [of "2 * y" "bm b"] show ?thesis
    by (simp add: busy_loop.simps [of bm b "2 * y" sim a] page_hi_def)
next
  case (last b)
  then have "busy_at bm (Suc k) t (a + 1) = busy_loop bm b 8 t (a + 1)" for t
    by (simp add: busy_loop.simps [of bm b 8])
  with last pair_test [of 6 "bm b"] show ?thesis
    by (simp add: busy_loop.simps [of bm b 6 sim a] page_hi_def)
qed

subsection \<open>The loops as operations on ranges of pages\<close>

lemma linear_at_all:
  "nat (len - i) = n \<Longrightarrow> linear_at bm len k i a =
     (if \<forall>j<n. \<not> page_lo bm (k + j) then a + int n else 0)"
proof (induction n arbitrary: k i a)
  case 0
  then show ?case by (subst linear_at_step) simp
next
  case (Suc n)
  then have "nat (len - (i + 1)) = n" "i < len" by auto
  with Suc.IH [of "i + 1" "Suc k" "a + 1"] show ?case
    by (subst linear_at_step) (auto simp: All_less_Suc2)
qed

lemma linear_all:
  "linear bm (k div 4) len (2 * (k mod 4)) =
     (if \<forall>j<nat len. \<not> page_lo bm (k + j) then int (nat len) else 0)"
  unfolding linear_def using linear_at_all [of len 0 "nat len" bm k 0] by (simp only: diff_0_right add_0)

lemma range_Suc: "(k \<le> j \<and> j < k + Suc n) \<longleftrightarrow> (j = k \<or> (Suc k \<le> j \<and> j < Suc k + n))"
  by auto

lemma masked_at_all:
  "nat (len - i) = n \<Longrightarrow>
     page_lo (masked_at len k i a bm) j = (page_lo bm j \<or> (k \<le> j \<and> j < k + n)) \<and>
     page_hi (masked_at len k i a bm) j = (page_hi bm j \<or> ((k \<le> j \<and> j < k + n) \<and> (a \<or> k < j)))"
proof (induction n arbitrary: k i a bm)
  case 0
  with masked_at_step [of len k i a bm] show ?case by auto
next
  case (Suc n)
  then have "nat (len - (i + 1)) = n" "i < len" by auto
  with masked_at_step [of len k i a bm]
  have step: "masked_at len k i a bm = masked_at len (Suc k) (i + 1) True (set_page a k bm)" by simp
  show ?case
    using Suc.IH [OF \<open>nat (len - (i + 1)) = n\<close>, of "Suc k" True "set_page a k bm"]
    unfolding step set_page_lo set_page_hi range_Suc [of k j] by auto
qed

lemma masked_all:
  "page_lo (masked bm (k div 4) len (2 * (k mod 4))) j = (page_lo bm j \<or> (k \<le> j \<and> j < k + nat len))"
  "page_hi (masked bm (k div 4) len (2 * (k mod 4))) j = (page_hi bm j \<or> (k < j \<and> j < k + nat len))"
  using masked_at_all [of len 0 "nat len" k False bm j] by (auto simp: masked_def)

lemma umasked_at_all:
  "nat (len - i) = n \<Longrightarrow>
     page_lo (umasked_at len k i bm) j = (page_lo bm j \<and> \<not> (k \<le> j \<and> j < k + n)) \<and>
     page_hi (umasked_at len k i bm) j = (page_hi bm j \<and> \<not> (k \<le> j \<and> j < k + n))"
proof (induction n arbitrary: k i bm)
  case 0
  with umasked_at_step [of len k i bm] show ?case by auto
next
  case (Suc n)
  then have "nat (len - (i + 1)) = n" "i < len" by auto
  with umasked_at_step [of len k i bm]
  have step: "umasked_at len k i bm = umasked_at len (Suc k) (i + 1) (clear_page k bm)" by simp
  show ?case
    using Suc.IH [OF \<open>nat (len - (i + 1)) = n\<close>, of "Suc k" "clear_page k bm"]
    unfolding step clear_page_lo clear_page_hi range_Suc [of k j] by auto
qed

lemma umasked_all:
  "page_lo (umasked bm (k div 4) len (k mod 4 * 2)) j = (page_lo bm j \<and> \<not> (k \<le> j \<and> j < k + nat len))"
  "page_hi (umasked bm (k div 4) len (k mod 4 * 2)) j = (page_hi bm j \<and> \<not> (k \<le> j \<and> j < k + nat len))"
  using umasked_at_all [of len 0 "nat len" k bm j] by (simp_all add: umasked_def mult.commute)

lemma busy_at_run:
  "\<forall>j<n. page_hi bm (k + j) \<Longrightarrow> \<not> page_hi bm (k + n) \<Longrightarrow> busy_at bm k True a = Some (a + n)"
proof (induction n arbitrary: k a)
  case 0
  then show ?case by (subst busy_at_step) simp
next
  case (Suc n)
  then have "busy_at bm (Suc k) True (Suc a) = Some (Suc a + n)"
    by (intro Suc.IH) (auto dest: spec [of _ "Suc _"])
  with Suc.prems show ?case by (subst busy_at_step) (auto dest: spec [of _ 0])
qed

lemma get_busy_page_size_run:
  assumes "\<not> page_hi (PAGE_BITMAP s) k" and "0 < n"
    and "\<And>j. 0 < j \<Longrightarrow> j < n \<Longrightarrow> page_hi (PAGE_BITMAP s) (k + j)"
    and "\<not> page_hi (PAGE_BITMAP s) (k + n)"
  shows "get_busy_page_size k s = Some n"
proof -
  obtain m where n: "n = Suc m" using assms(2) by (cases n) auto
  have "busy_at (PAGE_BITMAP s) (Suc k) True 1 = Some (1 + m)"
    by (rule busy_at_run) (use assms(3) [of "Suc _"] assms(4) n in auto)
  with assms(1) n show ?thesis
    by (simp add: get_busy_page_size_def mult.commute) (subst busy_at_step, simp)
qed

subsection \<open>The first fit\<close>

definition fits :: "bytes \<Rightarrow> nat \<Rightarrow> nat \<Rightarrow> bool" where
  "fits bm n k = (\<forall>j<n. \<not> page_lo bm (k + j))"

definition fit_test :: "bytes \<Rightarrow> u32 \<Rightarrow> nat \<Rightarrow> bool" where
  "fit_test bm len k = (\<not> page_lo bm k \<and> len = of_int (linear bm (k div 4) (sint len) (2 * (k mod 4))))"

lemma fit_test_fits:
  assumes "len \<noteq> 0" and "unat len < 2 ^ 31"
  shows "fit_test bm len k \<longleftrightarrow> fits bm (unat len) k"
proof -
  have s: "sint len = int (unat len)"
    using assms(2) by (simp add: sint_small)
  have pos: "0 < unat len" using assms(1) by (simp add: unat_gt_0)
  show ?thesis
    using assms(1) pos by (auto simp: fit_test_def fits_def linear_all s)
qed

lemma get_free_page_bits_find:
  "y \<le> 4 \<Longrightarrow> get_free_page_bits bm len b (2 * y) (4 * b + y) =
     (case find_from (fit_test bm len) (4 * b + y) (4 * b + 4) of
        Some k \<Rightarrow> Inl (2 * (k mod 4), k) | None \<Rightarrow> Inr (4 * b + 4))"
proof (induction "4 - y" arbitrary: y)
  case 0
  then have "y = 4" by simp
  then show ?case by (simp add: get_free_page_bits.simps [of bm len b 8] find_from.simps)
next
  case (Suc n)
  then have y: "y < 4" by simp
  have "get_free_page_bits bm len b (2 * Suc y) (4 * b + Suc y) =
     (case find_from (fit_test bm len) (4 * b + Suc y) (4 * b + 4) of
        Some k \<Rightarrow> Inl (2 * (k mod 4), k) | None \<Rightarrow> Inr (4 * b + 4))"
    using Suc.hyps y by (intro Suc.hyps(1)) auto
  with y show ?case
    by (simp add: get_free_page_bits.simps [of bm len b "2 * y"] find_from.simps [of _ "4 * b + y"]
        fit_test_def test_bit_and)
qed

lemma get_free_page_loop_find:
  "i \<le> 33554432 \<Longrightarrow> get_free_page_loop bm len i (4 * i) =
     map_option (\<lambda>k. (k div 4, 2 * (k mod 4), k)) (find_from (fit_test bm len) (4 * i) 134217728)"
proof (induction "33554432 - i" arbitrary: i)
  case 0
  then show ?case by (simp add: get_free_page_loop.simps [of bm] find_from.simps)
next
  case (Suc n)
  then have i: "i < 33554432" by simp
  have split: "find_from (fit_test bm len) (4 * i) 134217728 =
     (case find_from (fit_test bm len) (4 * i) (4 * i + 4) of Some j \<Rightarrow> Some j
      | None \<Rightarrow> find_from (fit_test bm len) (4 * i + 4) 134217728)"
    by (rule find_from_split) (use i in simp_all)
  have IH: "get_free_page_loop bm len (i + 1) (4 * i + 4) = map_option (\<lambda>k. (k div 4, 2 * (k mod 4), k))
      (find_from (fit_test bm len) (4 * i + 4) 134217728)"
    using Suc.hyps(1) [of "i + 1"] Suc.hyps(2) i by (simp add: add.commute)
  show ?case
  proof (cases "find_from (fit_test bm len) (4 * i) (4 * i + 4)")
    case None
    with get_free_page_bits_find [of 0 bm len i] IH split i show ?thesis
      by (simp add: get_free_page_loop.simps [of bm len i])
  next
    case (Some k)
    then have "k div 4 = i" by (auto simp: find_from_Some)
    with Some get_free_page_bits_find [of 0 bm len i] split i show ?thesis
      by (simp add: get_free_page_loop.simps [of bm len i])
  qed
qed

lemma get_free_page_first_fit:
  assumes "len \<noteq> 0" and "unat len < 2 ^ 31"
  shows "get_free_page len s = map_option
     (\<lambda>k. (k, s\<lparr>PAGE_BITMAP := masked (PAGE_BITMAP s) (k div 4) (int (unat len)) (2 * (k mod 4))\<rparr>))
     (find_from (fits (PAGE_BITMAP s) (unat len)) 0 134217728)"
proof -
  have s: "sint len = int (unat len)"
    using assms(2) by (simp add: sint_small)
  have "find_from (fit_test (PAGE_BITMAP s) len) 0 134217728 =
        find_from (fits (PAGE_BITMAP s) (unat len)) 0 134217728"
    by (rule find_from_cong) (simp add: fit_test_fits [OF assms])
  with get_free_page_loop_find [of 0 "PAGE_BITMAP s" len] show ?thesis
    by (simp add: get_free_page_def s split: option.split)
qed

section \<open>The abstract page allocator\<close>

datatype page_state = Free | First | Next

definition page_of :: "bytes \<Rightarrow> nat \<Rightarrow> page_state" where
  "page_of bm k = (if \<not> page_lo bm k then Free else if page_hi bm k then Next else First)"

lemma page_of_iff [simp]:
  "page_of bm k = Free \<longleftrightarrow> \<not> page_lo bm k"
  "page_of bm k = First \<longleftrightarrow> page_lo bm k \<and> \<not> page_hi bm k"
  "page_of bm k = Next \<longleftrightarrow> page_lo bm k \<and> page_hi bm k"
  by (auto simp: page_of_def)

text \<open>Allocation takes the first run of \<open>n\<close> free pages; the first page of an allocation is
  marked \<open>First\<close>, the others \<open>Next\<close>.  Release frees a page and the \<open>Next\<close> pages after it.\<close>

definition spec_mark :: "nat \<Rightarrow> nat \<Rightarrow> (nat \<Rightarrow> page_state) \<Rightarrow> nat \<Rightarrow> page_state" where
  "spec_mark k n f = (\<lambda>j. if j = k then First else if k < j \<and> j < k + n then Next else f j)"

definition spec_alloc :: "nat \<Rightarrow> (nat \<Rightarrow> page_state) \<Rightarrow> (nat \<times> (nat \<Rightarrow> page_state)) option" where
  "spec_alloc n f = map_option (\<lambda>k. (k, spec_mark k n f))
     (find_from (\<lambda>k. \<forall>j<n. f (k + j) = Free) 0 134217728)"

definition in_run :: "(nat \<Rightarrow> page_state) \<Rightarrow> nat \<Rightarrow> nat \<Rightarrow> bool" where
  "in_run f k j = (k \<le> j \<and> (\<forall>i. k < i \<and> i \<le> j \<longrightarrow> f i = Next))"

definition spec_free :: "nat \<Rightarrow> (nat \<Rightarrow> page_state) \<Rightarrow> nat \<Rightarrow> page_state" where
  "spec_free k f = (\<lambda>j. if in_run f k j then Free else f j)"

text \<open>
  The bitmap covers 134217728 pages, the page tables only the first 262144 of them (1 GiB).  A
  well-formed bitmap has no busy page beyond the tables, no pair 10, and every continuation
  page follows a busy page.
\<close>

abbreviation (input) BITMAP_PAGES :: nat where "BITMAP_PAGES \<equiv> 134217728"
abbreviation (input) HEAP_PAGES :: nat where "HEAP_PAGES \<equiv> 262144"

definition wf_pages :: "bytes \<Rightarrow> bool" where
  "wf_pages bm \<longleftrightarrow>
     (\<forall>k<BITMAP_PAGES. page_hi bm k \<longrightarrow> page_lo bm k \<and> 0 < k \<and> page_lo bm (k - 1)) \<and>
     (\<forall>k. HEAP_PAGES \<le> k \<and> k < BITMAP_PAGES \<longrightarrow> \<not> page_lo bm k)"

lemma wf_pages_D:
  assumes "wf_pages bm" and "page_hi bm k" and "k \<le> HEAP_PAGES"
  shows "page_lo bm k" and "0 < k" and "page_lo bm (k - 1)"
  using assms by (auto simp: wf_pages_def)

text \<open>Marking a fit at \<open>k\<close>.\<close>

abbreviation mark_pages :: "bytes \<Rightarrow> nat \<Rightarrow> nat \<Rightarrow> bytes" where
  "mark_pages bm k n \<equiv> masked bm (k div 4) (int n) (2 * (k mod 4))"

abbreviation unmark_pages :: "bytes \<Rightarrow> nat \<Rightarrow> nat \<Rightarrow> bytes" where
  "unmark_pages bm k n \<equiv> umasked bm (k div 4) (int n) (k mod 4 * 2)"

text \<open>A run of \<open>n\<close> free pages of the heap window starting at \<open>k\<close>.\<close>

definition free_run :: "bytes \<Rightarrow> nat \<Rightarrow> nat \<Rightarrow> bool" where
  "free_run bm n k \<longleftrightarrow> wf_pages bm \<and> fits bm n k \<and> 0 < n \<and> k + n \<le> HEAP_PAGES"

lemma free_run_hi:
  assumes "free_run bm n k" and "k \<le> j" and "j \<le> k + n"
  shows "\<not> page_hi bm j"
proof
  assume hi: "page_hi bm j"
  from assms have wf: "wf_pages bm" and fit: "fits bm n k" and n: "0 < n" and le: "j \<le> HEAP_PAGES"
    by (auto simp: free_run_def)
  from wf_pages_D [OF wf hi le] have "page_lo bm j" "0 < j" "page_lo bm (j - 1)" by auto
  moreover have "\<not> page_lo bm j" if "j < k + n"
    using fit that assms(2) by (auto simp: fits_def dest: spec [of _ "j - k"])
  moreover have "\<not> page_lo bm (j - 1)" if "j = k + n"
    using fit that n by (auto simp: fits_def dest: spec [of _ "n - 1"])
  ultimately show False using assms(3) by (cases "j < k + n") auto
qed

lemma free_run_lo: "free_run bm n k \<Longrightarrow> k \<le> j \<Longrightarrow> j < k + n \<Longrightarrow> \<not> page_lo bm j"
  by (auto simp: free_run_def fits_def dest: spec [of _ "j - k"])

lemma mark_wf:
  assumes "free_run bm n k"
  shows "wf_pages (mark_pages bm k n)"
  using assms free_run_hi [OF assms, of k]
  by (auto simp: free_run_def wf_pages_def masked_all)

lemma mark_page_of:
  assumes "free_run bm n k"
  shows "page_of (mark_pages bm k n) = spec_mark k n (page_of bm)"
proof
  fix j
  have "0 < n" using assms by (simp add: free_run_def)
  then show "page_of (mark_pages bm k n) j = spec_mark k n (page_of bm) j"
    using free_run_hi [OF assms, of j] by (auto simp: page_of_def spec_mark_def masked_all)
qed

lemma unmark_mark:
  assumes "free_run bm n k"
  shows "unmark_pages (mark_pages bm k n) k n = bm"
proof (rule pages_ext)
  fix j
  show "page_lo (unmark_pages (mark_pages bm k n) k n) j = page_lo bm j"
    using free_run_lo [OF assms, of j] by (auto simp: umasked_all masked_all)
  show "page_hi (unmark_pages (mark_pages bm k n) k n) j = page_hi bm j"
    using free_run_hi [OF assms, of j] by (auto simp: umasked_all masked_all)
qed

text \<open>The run of the allocation at \<open>k\<close>.\<close>

definition run_length :: "bytes \<Rightarrow> nat \<Rightarrow> nat \<Rightarrow> bool" where
  "run_length bm k n \<longleftrightarrow> 0 < n \<and> k + n \<le> HEAP_PAGES \<and> page_of bm k = First \<and>
     (\<forall>j. k < j \<and> j < k + n \<longrightarrow> page_of bm j = Next) \<and> page_of bm (k + n) \<noteq> Next"

lemma mark_run_length:
  assumes "free_run bm n k"
  shows "run_length (mark_pages bm k n) k n"
  using assms free_run_hi [OF assms, of k] free_run_hi [OF assms, of "k + n"]
  by (auto simp: run_length_def masked_all free_run_def)

lemma run_length_exists:
  assumes wf: "wf_pages bm" and k: "k < HEAP_PAGES" and "page_of bm k = First"
  shows "\<exists>n. run_length bm k n"
proof -
  define P where "P m \<longleftrightarrow> 0 < m \<and> page_of bm (k + m) \<noteq> Next" for m
  define n where "n = (LEAST m. P m)"
  have "P (HEAP_PAGES - k)"
    using wf k by (auto simp: P_def wf_pages_def)
  then have "P n" and "n \<le> HEAP_PAGES - k"
    unfolding n_def by (auto intro: LeastI Least_le)
  moreover have "page_of bm j = Next" if "k < j" "j < k + n" for j
    using not_less_Least [of "j - k" P] that by (auto simp: n_def P_def)
  ultimately have "run_length bm k n" using assms by (auto simp: run_length_def P_def)
  then show ?thesis ..
qed

lemma run_busy:
  assumes "wf_pages (PAGE_BITMAP s)" and "run_length (PAGE_BITMAP s) k n"
  shows "get_busy_page_size k s = Some n"
proof (rule get_busy_page_size_run)
  have "k + n \<le> HEAP_PAGES" using assms(2) by (simp add: run_length_def)
  with assms show "\<not> page_hi (PAGE_BITMAP s) (k + n)"
    using wf_pages_D [OF assms(1), of "k + n"] by (auto simp: run_length_def)
qed (use assms(2) in \<open>auto simp: run_length_def\<close>)

lemma run_in_run:
  assumes "run_length bm k n"
  shows "in_run (page_of bm) k j \<longleftrightarrow> k \<le> j \<and> j < k + n"
proof
  assume run: "in_run (page_of bm) k j"
  show "k \<le> j \<and> j < k + n"
  proof (rule ccontr)
    assume "\<not> ?thesis"
    with run have "k + n \<le> j" by (auto simp: in_run_def)
    with run assms have "page_of bm (k + n) = Next" by (simp add: in_run_def run_length_def)
    with assms show False by (simp add: run_length_def)
  qed
next
  assume "k \<le> j \<and> j < k + n"
  with assms show "in_run (page_of bm) k j" by (simp add: in_run_def run_length_def)
qed

lemma unmark_page_of:
  assumes "run_length bm k n"
  shows "page_of (unmark_pages bm k n) = spec_free k (page_of bm)"
proof
  fix j
  show "page_of (unmark_pages bm k n) j = spec_free k (page_of bm) j"
    by (auto simp: page_of_def spec_free_def run_in_run [OF assms] umasked_all)
qed

lemma unmark_wf:
  assumes "wf_pages bm" and "run_length bm k n"
  shows "wf_pages (unmark_pages bm k n)"
  unfolding wf_pages_def umasked_all
proof (intro conjI allI impI)
  fix j
  assume j: "j < BITMAP_PAGES" and hi: "page_hi bm j \<and> \<not> (k \<le> j \<and> j < k + nat (int n))"
  from assms(1) j hi have lo: "page_lo bm j" "0 < j" "page_lo bm (j - 1)" by (auto simp: wf_pages_def)
  have "j \<noteq> k + n" using hi lo assms(2) by (auto simp: run_length_def)
  with hi lo show "page_lo bm j" "\<not> (k \<le> j \<and> j < k + nat (int n))" "0 < j"
      "page_lo bm (j - 1)" "\<not> (k \<le> j - 1 \<and> j - 1 < k + nat (int n))"
    by auto
qed (use assms(1) in \<open>auto simp: wf_pages_def\<close>)

section \<open>Backing pages with frames\<close>

lemma frame_pte_roundtrip:
  assumes "k < 1048576"
  shows "ucast (drop_bit 12 (frame_addr k) AND 0xffffffffffff) = (of_nat k :: 40 word)"
    and "ucast (push_bit 12 (of_nat k :: 40 word)) = frame_addr k"
proof -
  have "drop_bit 12 (frame_addr k) = of_nat k"
  proof (rule word_unat_eq_iff [THEN iffD2])
    show "unat (drop_bit 12 (frame_addr k)) = unat (of_nat k :: u64)"
      using assms by (simp add: drop_bit_eq_div unat_div unat_frame_addr unat_of_nat_small)
  qed
  moreover have "(of_nat k :: u64) AND 0xffffffffffff = of_nat k"
  proof -
    have "(of_nat k :: u64) AND mask 48 = of_nat k"
      by (rule word_unat_eq_iff [THEN iffD2])
         (use assms in \<open>simp add: take_bit_eq_mask [symmetric] unsigned_take_bit_eq unat_of_nat_small take_bit_nat_eq_self\<close>)
    then show ?thesis by (simp add: mask_eq_exp_minus_1)
  qed
  ultimately show "ucast (drop_bit 12 (frame_addr k) AND 0xffffffffffff) = (of_nat k :: 40 word)"
    using assms by (simp add: ucast_of_nat_small)
  have "push_bit 12 (of_nat k :: 40 word) = of_nat (k * 4096)" by (simp add: push_bit_eq_mult)
  then show "ucast (push_bit 12 (of_nat k :: 40 word)) = frame_addr k"
    using assms unfolding frame_addr_def by (simp only: ucast_of_nat_small) (rule ucast_of_nat_small, simp)
qed


lemma alloc_frame_fresh:
  assumes "alloc_frame s = (a, s')" and "a \<noteq> 0"
  obtains k where "a = frame_addr k" "32768 \<le> k" "k < 1048576" "\<not> frame_used s k"
    "frame_used s' = (frame_used s)(k := True)" "s' = s\<lparr>RAM_BITMAP := RAM_BITMAP s'\<rparr>"
proof -
  from assms obtain k where f: "find_from (\<lambda>k. \<not> frame_used s k) 32768 1048576 = Some k"
    and a: "a = frame_addr k"
    and s': "s' = s\<lparr>RAM_BITMAP := (RAM_BITMAP s)(k div 8 := RAM_BITMAP s (k div 8) OR push_bit (k mod 8) 1)\<rparr>"
    by (auto simp: alloc_frame_find split: option.splits)
  have "frame_used s' = (frame_used s)(k := True)"
    using s' bmp_bit_set [of "k mod 8" "RAM_BITMAP s" "k div 8"] by simp
  with f a s' that [of k] show ?thesis by (simp add: find_from_Some)
qed

definition backed :: "nat \<Rightarrow> bool \<Rightarrow> nat \<Rightarrow> nat list \<Rightarrow> 'a mm_state_scheme \<Rightarrow> 'a mm_state_scheme \<Rightarrow> bool" where
  "backed n user p ks s s' \<longleftrightarrow>
     length ks = n \<and> distinct ks \<and>
     (\<forall>k \<in> set ks. 32768 \<le> k \<and> k < 1048576 \<and> \<not> frame_used s k) \<and>
     (\<forall>k. frame_used s' k \<longleftrightarrow> frame_used s k \<or> k \<in> set ks) \<and>
     (\<forall>j<n. pte_mem s' (p + 8 * j) = (pte_mem s (p + 8 * j))
        \<lparr>pt_p := True, pt_us := user \<or> pt_us (pte_mem s (p + 8 * j)), frames := of_nat (ks ! j)\<rparr>) \<and>
     (\<forall>a. (\<forall>j<n. a \<noteq> p + 8 * j) \<longrightarrow> pte_mem s' a = pte_mem s a) \<and>
     s' = s\<lparr>RAM_BITMAP := RAM_BITMAP s', pte_mem := pte_mem s'\<rparr>"

lemma back_pages_backed: "back_pages n user p s = Some s' \<Longrightarrow> \<exists>ks. backed n user p ks s s'"
proof (induction n arbitrary: p s)
  case 0
  then show ?case by (simp add: backed_def)
next
  case (Suc n)
  obtain a s1 where al: "alloc_frame s = (a, s1)" by force
  define e where "e = (pte_mem s p)\<lparr>pt_p := True, pt_us := user \<or> pt_us (pte_mem s p),
      frames := ucast (drop_bit 12 a AND 0xffffffffffff)\<rparr>"
  from Suc.prems al have nz: "a \<noteq> 0" by (auto split: if_splits)
  obtain k where k: "a = frame_addr k" "32768 \<le> k" "k < 1048576" "\<not> frame_used s k"
    "frame_used s1 = (frame_used s)(k := True)" "s1 = s\<lparr>RAM_BITMAP := RAM_BITMAP s1\<rparr>"
    by (rule alloc_frame_fresh [OF al nz])
  have e: "e = (pte_mem s p)\<lparr>pt_p := True, pt_us := user \<or> pt_us (pte_mem s p), frames := of_nat k\<rparr>"
    using frame_pte_roundtrip(1) [OF k(3)] by (simp add: e_def k(1))
  have m1: "pte_mem s1 = pte_mem s" by (subst k(6)) simp
  have rest: "back_pages n user (p + 8) (s1\<lparr>pte_mem := (pte_mem s)(p := e)\<rparr>) = Some s'"
    using Suc.prems al nz m1 by (simp add: e_def Let_def split: if_splits)
  from Suc.IH [OF rest] obtain ks where
    ks: "backed n user (p + 8) ks (s1\<lparr>pte_mem := (pte_mem s)(p := e)\<rparr>) s'" ..
  have "backed (Suc n) user p (k # ks) s s'"
    unfolding backed_def
  proof (intro conjI)
    show "length (k # ks) = Suc n" and "distinct (k # ks)"
      using ks k(5) by (auto simp: backed_def)
    show "\<forall>i \<in> set (k # ks). 32768 \<le> i \<and> i < 1048576 \<and> \<not> frame_used s i"
      using ks k by (auto simp: backed_def split: if_splits)
    show "\<forall>i. frame_used s' i \<longleftrightarrow> frame_used s i \<or> i \<in> set (k # ks)"
      using ks k(5) by (auto simp: backed_def)
    show "\<forall>j<Suc n. pte_mem s' (p + 8 * j) = (pte_mem s (p + 8 * j))
        \<lparr>pt_p := True, pt_us := user \<or> pt_us (pte_mem s (p + 8 * j)), frames := of_nat ((k # ks) ! j)\<rparr>"
    proof (intro allI impI)
      fix j assume j: "j < Suc n"
      show "pte_mem s' (p + 8 * j) = (pte_mem s (p + 8 * j))
        \<lparr>pt_p := True, pt_us := user \<or> pt_us (pte_mem s (p + 8 * j)), frames := of_nat ((k # ks) ! j)\<rparr>"
      proof (cases j)
        case 0
        with ks e show ?thesis by (simp add: backed_def)
      next
        case (Suc i)
        with ks j have "pte_mem s' (p + 8 + 8 * i) = (pte_mem s (p + 8 + 8 * i))
          \<lparr>pt_p := True, pt_us := user \<or> pt_us (pte_mem s (p + 8 + 8 * i)), frames := of_nat (ks ! i)\<rparr>"
          by (simp add: backed_def)
        with Suc show ?thesis by (simp add: algebra_simps)
      qed
    qed
    show "\<forall>a. (\<forall>j<Suc n. a \<noteq> p + 8 * j) \<longrightarrow> pte_mem s' a = pte_mem s a"
    proof (intro allI impI)
      fix a assume a: "\<forall>j<Suc n. a \<noteq> p + 8 * j"
      then have "a \<noteq> p" "\<forall>j<n. a \<noteq> p + 8 + 8 * j" by (auto dest: spec [of _ "Suc _"] spec [of _ 0])
      with ks show "pte_mem s' a = pte_mem s a" by (simp add: backed_def)
    qed
    show "s' = s\<lparr>RAM_BITMAP := RAM_BITMAP s', pte_mem := pte_mem s'\<rparr>"
      using ks k(6) unfolding backed_def by (metis (no_types, lifting) mm_state.surjective mm_state.update_convs(1,3))
  qed
  then show ?case by blast
qed

text \<open>Enough free frames make the loop finish.\<close>

definition free_frames :: "'a mm_state_scheme \<Rightarrow> nat set" where
  "free_frames s = {k. 32768 \<le> k \<and> k < 1048576 \<and> \<not> frame_used s k}"

lemma alloc_frame_succeeds:
  assumes "free_frames s \<noteq> {}"
  shows "fst (alloc_frame s) \<noteq> 0"
proof (cases "find_from (\<lambda>k. \<not> frame_used s k) 32768 1048576")
  case None
  with assms show ?thesis by (auto simp: free_frames_def find_from_None)
next
  case (Some k)
  then have "32768 \<le> k" "k < 1048576" by (simp_all add: find_from_Some)
  then have "unat (frame_addr k) \<noteq> 0" by (simp add: unat_frame_addr)
  then have "frame_addr k \<noteq> 0" by auto
  with Some show ?thesis by (simp add: alloc_frame_find)
qed

lemma back_pages_succeeds: "n \<le> card (free_frames s) \<Longrightarrow> \<exists>s'. back_pages n user p s = Some s'"
proof (induction n arbitrary: p s)
  case 0
  then show ?case by simp
next
  case (Suc n)
  obtain a s1 where al: "alloc_frame s = (a, s1)" by force
  have "free_frames s \<noteq> {}" using Suc.prems by auto
  with alloc_frame_succeeds al have nz: "a \<noteq> 0" by (metis fst_conv)
  obtain k where k: "32768 \<le> k" "k < 1048576" "\<not> frame_used s k"
    "frame_used s1 = (frame_used s)(k := True)"
    by (rule alloc_frame_fresh [OF al nz])
  have "free_frames (s1\<lparr>pte_mem := m\<rparr>) = free_frames s - {k}" for m
    using k by (auto simp: free_frames_def)
  moreover have "finite (free_frames s)"
    by (rule finite_subset [of _ "{..<1048576}"]) (auto simp: free_frames_def)
  moreover have "k \<in> free_frames s" using k by (simp add: free_frames_def)
  ultimately have "n \<le> card (free_frames (s1\<lparr>pte_mem := m\<rparr>))" for m
    using Suc.prems by (simp add: card_Diff_singleton)
  with Suc.IH nz al show ?case by (simp add: Let_def)
qed

section \<open>Releasing pages\<close>

lemma free_frame_frame:
  assumes "32768 \<le> k" and "k < 1048576"
  shows "snd (free_frame (frame_addr k) s) = s\<lparr>RAM_BITMAP := (RAM_BITMAP s)
    (k div 8 := RAM_BITMAP s (k div 8) AND NOT (push_bit (k mod 8) 1))\<rparr>"
proof -
  have "snd (free_frame (frame_addr k) s) = s\<lparr>RAM_BITMAP := RAM_BITMAP (frame_release k s)\<rparr>"
    by (simp add: frame_release_def free_frame_def Let_def)
  then show ?thesis by (simp only: frame_release_used [OF assms])
qed

lemma mm_frame_trans:
  "t = s'\<lparr>RAM_BITMAP := A, pte_mem := B\<rparr> \<Longrightarrow> s' = s\<lparr>RAM_BITMAP := C, pte_mem := D\<rparr>
     \<Longrightarrow> t = s\<lparr>RAM_BITMAP := A, pte_mem := B\<rparr>"
  by simp

abbreviation pte_frame :: "'a mm_state_scheme \<Rightarrow> nat \<Rightarrow> nat" where
  "pte_frame s a \<equiv> unat (frames (pte_mem s a))"

definition released :: "nat \<Rightarrow> nat \<Rightarrow> 'a mm_state_scheme \<Rightarrow> 'a mm_state_scheme \<Rightarrow> bool" where
  "released n p s s' \<longleftrightarrow>
     (\<forall>k. frame_used s' k \<longleftrightarrow> frame_used s k \<and> (\<forall>j<n. k \<noteq> pte_frame s (p + 8 * j))) \<and>
     (\<forall>j<n. pte_mem s' (p + 8 * j) = (pte_mem s (p + 8 * j))\<lparr>pt_p := False, pt_us := False, frames := 0\<rparr>) \<and>
     (\<forall>a. (\<forall>j<n. a \<noteq> p + 8 * j) \<longrightarrow> pte_mem s' a = pte_mem s a) \<and>
     s' = s\<lparr>RAM_BITMAP := RAM_BITMAP s', pte_mem := pte_mem s'\<rparr>"

lemma release_pages_released:
  "(\<forall>j<n. 32768 \<le> pte_frame s (p + 8 * j) \<and> pte_frame s (p + 8 * j) < 1048576)
     \<Longrightarrow> released n p s (release_pages n p s)"
proof (induction n arbitrary: p s)
  case 0
  then show ?case by (simp add: released_def)
next
  case (Suc n)
  define k where "k = pte_frame s p"
  from Suc.prems have k: "32768 \<le> k" "k < 1048576" by (auto simp: k_def dest: spec [of _ 0])
  define s1 where "s1 = snd (free_frame (frame_addr k) s)"
  have s1: "s1 = s\<lparr>RAM_BITMAP := RAM_BITMAP s1\<rparr>" and u1: "frame_used s1 = (frame_used s)(k := False)"
    using bmp_bit_clear [of "k mod 8" "RAM_BITMAP s" "k div 8"]
    by (simp_all add: s1_def free_frame_frame [OF k])
  have m1: "pte_mem s1 = pte_mem s" by (subst s1) simp
  define s2 where "s2 = s1\<lparr>pte_mem := (pte_mem s)(p := (pte_mem s p)\<lparr>pt_p := False, pt_us := False, frames := 0\<rparr>)\<rparr>"
  have "ucast (push_bit 12 (frames (pte_mem s p))) = frame_addr k"
    using frame_pte_roundtrip(2) [OF k(2)] by (simp add: k_def)
  then have unfold: "release_pages (Suc n) p s = release_pages n (p + 8) s2"
    using m1 by (simp add: s2_def s1_def Let_def split_beta)
  have far: "pte_mem s2 (p + 8 + 8 * j) = pte_mem s (p + 8 * Suc j)" for j
    by (simp add: s2_def algebra_simps)
  have IH: "released n (p + 8) s2 (release_pages n (p + 8) s2)"
    by (rule Suc.IH) (use Suc.prems far in auto)
  let ?t = "release_pages n (p + 8) s2"
  have all: "(\<forall>j<Suc n. P j) \<longleftrightarrow> P 0 \<and> (\<forall>j<n. P (Suc j))" for P by (auto simp: less_Suc_eq_0_disj)
  show ?case
    unfolding unfold released_def all
  proof (intro conjI)
    show "\<forall>i. frame_used ?t i \<longleftrightarrow> frame_used s i \<and> i \<noteq> pte_frame s (p + 8 * 0)
        \<and> (\<forall>j<n. i \<noteq> pte_frame s (p + 8 * Suc j))"
    proof
      fix i
      have "frame_used ?t i \<longleftrightarrow> frame_used s2 i \<and> (\<forall>j<n. i \<noteq> pte_frame s (p + 8 * Suc j))"
        using IH unfolding released_def far by blast
      moreover have "frame_used s2 i \<longleftrightarrow> frame_used s i \<and> i \<noteq> k" by (simp add: s2_def u1)
      ultimately show "frame_used ?t i \<longleftrightarrow> frame_used s i \<and> i \<noteq> pte_frame s (p + 8 * 0)
        \<and> (\<forall>j<n. i \<noteq> pte_frame s (p + 8 * Suc j))" by (auto simp: k_def)
    qed
    show "pte_mem ?t (p + 8 * 0) = (pte_mem s (p + 8 * 0))\<lparr>pt_p := False, pt_us := False, frames := 0\<rparr>"
      using IH by (simp add: released_def s2_def)
    show "\<forall>j<n. pte_mem ?t (p + 8 * Suc j) = (pte_mem s (p + 8 * Suc j))
        \<lparr>pt_p := False, pt_us := False, frames := 0\<rparr>"
      using IH far by (simp add: released_def algebra_simps)
    show "\<forall>a. a \<noteq> p + 8 * 0 \<and> (\<forall>j<n. a \<noteq> p + 8 * Suc j) \<longrightarrow> pte_mem ?t a = pte_mem s a"
      using IH by (simp add: released_def s2_def algebra_simps)
    have "?t = s2\<lparr>RAM_BITMAP := RAM_BITMAP ?t, pte_mem := pte_mem ?t\<rparr>"
      using IH by (simp add: released_def)
    moreover have "s2 = s\<lparr>RAM_BITMAP := RAM_BITMAP s1, pte_mem := pte_mem s2\<rparr>"
      by (subst s2_def, subst s1) (simp add: s2_def)
    ultimately show "?t = s\<lparr>RAM_BITMAP := RAM_BITMAP ?t, pte_mem := pte_mem ?t\<rparr>"
      by (rule mm_frame_trans)
  qed
qed

section \<open>The invariant of the memory manager\<close>

text \<open>
  Every busy page has a present page table entry whose frame lies in the managed range and is
  marked busy, and no frame backs two pages.
\<close>

definition page_pte :: "'a mm_state_scheme \<Rightarrow> nat \<Rightarrow> nat" where
  "page_pte s k = alloc_pte s + 8 * k"

lemma page_pte_add: "page_pte s k + 8 * j = page_pte s (k + j)"
  by (simp add: page_pte_def)

lemma page_pte_inj [simp]: "page_pte s j = page_pte s k \<longleftrightarrow> j = k"
  by (simp add: page_pte_def)

definition busy_pages :: "'a mm_state_scheme \<Rightarrow> nat set" where
  "busy_pages s = {k. k < HEAP_PAGES \<and> page_lo (PAGE_BITMAP s) k}"

definition mm_inv :: "'a mm_state_scheme \<Rightarrow> bool" where
  "mm_inv s \<longleftrightarrow> wf_pages (PAGE_BITMAP s) \<and> alloc_spin_lock s = 0 \<and>
     (\<forall>k \<in> busy_pages s. pt_p (pte_mem s (page_pte s k)) \<and> 32768 \<le> pte_frame s (page_pte s k) \<and>
        pte_frame s (page_pte s k) < 1048576 \<and> frame_used s (pte_frame s (page_pte s k))) \<and>
     inj_on (\<lambda>k. pte_frame s (page_pte s k)) (busy_pages s)"

definition page_addr :: "nat \<Rightarrow> u64" where
  "page_addr k = ALLOC_PAGE_MEMORY + of_nat (k * 4096)"

lemma page_addr_int:
  assumes "k < 524288"
  shows "ALLOC_PAGE_MEMORY + scast (of_nat k * 0x1000 :: u32) = page_addr k"
proof -
  have "unat (of_nat (k * 4096) :: u32) = k * 4096" by (rule unat_of_nat_small) (use assms in simp)
  moreover have "k * 4096 < 2 ^ 31" using assms by simp
  ultimately have "sint (of_nat (k * 4096) :: u32) = int (k * 4096)" by (simp add: sint_small)
  then have "scast (of_nat (k * 4096) :: u32) = (of_nat (k * 4096) :: u64)"
    by (metis of_int_of_nat_eq scast_eq)
  then show ?thesis by (simp add: page_addr_def)
qed

lemma page_addr_index:
  assumes "k < 524288"
  shows "unat (ucast ((page_addr k - ALLOC_PAGE_MEMORY) div 0x1000) :: u32) = k"
    and "0 \<le> sint (ucast ((page_addr k - ALLOC_PAGE_MEMORY) div 0x1000) :: u32)"
    and "page_addr k \<noteq> 0"
proof -
  have u: "unat (page_addr k - ALLOC_PAGE_MEMORY) = k * 4096"
    unfolding page_addr_def add_diff_cancel_left' by (rule unat_of_nat_small) (use assms in simp)
  have "unat ((page_addr k - ALLOC_PAGE_MEMORY) div 0x1000) = k" by (simp add: unat_div u)
  then show i: "unat (ucast ((page_addr k - ALLOC_PAGE_MEMORY) div 0x1000) :: u32) = k"
    using assms by (simp add: unat_ucast_small)
  then show "0 \<le> sint (ucast ((page_addr k - ALLOC_PAGE_MEMORY) div 0x1000) :: u32)"
    using assms by (simp add: sint_small)
  show "page_addr k \<noteq> 0"
  proof
    assume "page_addr k = 0"
    then have "unat (page_addr k) = 0" by simp
    moreover have "page_addr k = of_nat (0x100000000 + k * 4096)" by (simp add: page_addr_def)
    then have "unat (page_addr k) = 0x100000000 + k * 4096"
      using assms by (simp only:) (rule unat_of_nat_small, simp)
    ultimately show False by simp
  qed
qed

end
