(* ===== verification/Kheap.thy ===== *)
theory Kheap
  imports Pages
begin

text \<open>
  \<^verbatim>\<open>alloc_pages\<close> and \<^verbatim>\<open>free_pages\<close> of \<^verbatim>\<open>kernel/mm.c\<close> as a whole: they keep the invariant
  \<open>mm_inv\<close>, refine the abstract page allocator, undo each other, and the page walk finds the
  frames they installed.
\<close>

section \<open>Allocation and release of pages\<close>

text \<open>\<open>alloc_at len s k\<close>: the first fit of \<open>len\<close> pages is at \<open>k\<close> and lies in the heap window.\<close>

definition alloc_at :: "u32 \<Rightarrow> 'a mm_state_scheme \<Rightarrow> nat \<Rightarrow> bool" where
  "alloc_at len s k \<longleftrightarrow> len \<noteq> 0 \<and> find_from (fits (PAGE_BITMAP s) (unat len)) 0 BITMAP_PAGES = Some k \<and>
     k + unat len \<le> HEAP_PAGES"

lemma alloc_at_free_run:
  "mm_inv s \<Longrightarrow> alloc_at len s k \<Longrightarrow> free_run (PAGE_BITMAP s) (unat len) k"
  by (simp add: alloc_at_def mm_inv_def free_run_def find_from_Some unat_gt_0)

definition marked :: "u32 \<Rightarrow> nat \<Rightarrow> 'a mm_state_scheme \<Rightarrow> 'a mm_state_scheme" where
  "marked len k s = s\<lparr>PAGE_BITMAP := mark_pages (PAGE_BITMAP s) k (unat len), alloc_spin_lock := 1\<rparr>"

lemma alloc_pages_eq:
  assumes "mm_inv s" and "alloc_at len s k"
  shows "alloc_pages type len s =
    (case back_pages (unat len) (type \<noteq> 0) (page_pte s k) (marked len k s) of
       None \<Rightarrow> None
     | Some s' \<Rightarrow> Some (ucast len, Some (page_addr k), s'\<lparr>alloc_spin_lock := 0\<rparr>))"
proof -
  have len: "len \<noteq> 0" "unat len < 2 ^ 31" and lock: "alloc_spin_lock s = 0"
    and fit: "find_from (fits (PAGE_BITMAP s) (unat len)) 0 134217728 = Some k"
    and k: "k + unat len \<le> 262144"
    using assms by (auto simp: alloc_at_def mm_inv_def)
  have "get_free_page len (s\<lparr>alloc_spin_lock := 1\<rparr>) = Some (k, marked len k s)"
    using get_free_page_first_fit [OF len, of "s\<lparr>alloc_spin_lock := 1\<rparr>"] fit
    by (simp add: marked_def)
  moreover have "ALLOC_PAGE_MEMORY + scast (of_nat k * 0x1000 :: u32) = page_addr k"
    by (rule page_addr_int) (use k in simp)
  ultimately show ?thesis
    using len(1) lock by (simp add: alloc_pages_def marked_def page_pte_def split: option.split)
qed

text \<open>What a successful \<^verbatim>\<open>alloc_pages\<close> has done: the run is marked, each page is backed by a fresh
  frame, and nothing else has changed.\<close>

definition allocated :: "bool \<Rightarrow> nat \<Rightarrow> nat \<Rightarrow> nat list \<Rightarrow> 'a mm_state_scheme \<Rightarrow> 'a mm_state_scheme \<Rightarrow> bool" where
  "allocated user n k ks s s' \<longleftrightarrow>
     PAGE_BITMAP s' = mark_pages (PAGE_BITMAP s) k n \<and>
     s' = s\<lparr>RAM_BITMAP := RAM_BITMAP s', PAGE_BITMAP := PAGE_BITMAP s', pte_mem := pte_mem s'\<rparr> \<and>
     length ks = n \<and> distinct ks \<and>
     (\<forall>f \<in> set ks. 32768 \<le> f \<and> f < 1048576 \<and> \<not> frame_used s f) \<and>
     (\<forall>f. frame_used s' f \<longleftrightarrow> frame_used s f \<or> f \<in> set ks) \<and>
     (\<forall>j<n. pte_mem s' (page_pte s (k + j)) = (pte_mem s (page_pte s (k + j)))
        \<lparr>pt_p := True, pt_us := user \<or> pt_us (pte_mem s (page_pte s (k + j))), frames := of_nat (ks ! j)\<rparr>) \<and>
     (\<forall>x. (\<forall>j<n. x \<noteq> page_pte s (k + j)) \<longrightarrow> pte_mem s' x = pte_mem s x)"

lemma alloc_pages_allocated:
  assumes "mm_inv s" and "alloc_at len s k" and "alloc_pages type len s = Some (r, a, s')"
  shows "r = ucast len \<and> a = Some (page_addr k) \<and> (\<exists>ks. allocated (type \<noteq> 0) (unat len) k ks s s')"
proof -
  from assms obtain s2 where b: "back_pages (unat len) (type \<noteq> 0) (page_pte s k) (marked len k s) = Some s2"
    and r: "r = ucast len" "a = Some (page_addr k)" "s' = s2\<lparr>alloc_spin_lock := 0\<rparr>"
    by (auto simp: alloc_pages_eq split: option.splits)
  from back_pages_backed [OF b] obtain ks
    where ks: "backed (unat len) (type \<noteq> 0) (page_pte s k) ks (marked len k s) s2" ..
  then have s2: "s2 = (marked len k s)\<lparr>RAM_BITMAP := RAM_BITMAP s2, pte_mem := pte_mem s2\<rparr>"
    by (simp add: backed_def)
  have lock: "alloc_spin_lock s = 0" using assms(1) by (simp add: mm_inv_def)
  have s': "s' = s\<lparr>RAM_BITMAP := RAM_BITMAP s', PAGE_BITMAP := mark_pages (PAGE_BITMAP s) k (unat len), pte_mem := pte_mem s'\<rparr>"
    unfolding r(3) by (subst s2) (simp add: marked_def lock)
  have pb: "PAGE_BITMAP s' = mark_pages (PAGE_BITMAP s) k (unat len)" by (subst s') simp
  have "allocated (type \<noteq> 0) (unat len) k ks s s'"
    unfolding allocated_def pb
    using ks s' by (simp add: backed_def marked_def r(3) page_pte_add)
  with r show ?thesis by blast
qed

lemma busy_pages_mark:
  assumes "free_run (PAGE_BITMAP s) n k" and "PAGE_BITMAP s' = mark_pages (PAGE_BITMAP s) k n"
  shows "busy_pages s' = busy_pages s \<union> {k..<k + n}"
  using assms by (auto simp: busy_pages_def masked_all free_run_def)

lemma allocated_frame:
  assumes "allocated user n k ks s s'" and "j \<in> {k..<k + n}"
  shows "pte_frame s' (page_pte s j) = ks ! (j - k)" and "pt_p (pte_mem s' (page_pte s j))"
    and "ks ! (j - k) \<in> set ks"
proof -
  from assms have len: "j - k < length ks" by (auto simp: allocated_def)
  then show ks: "ks ! (j - k) \<in> set ks" by (rule nth_mem)
  with assms(1) have "ks ! (j - k) < 1048576" by (auto simp: allocated_def)
  moreover have "pte_mem s' (page_pte s (k + (j - k))) = (pte_mem s (page_pte s (k + (j - k))))
        \<lparr>pt_p := True, pt_us := user \<or> pt_us (pte_mem s (page_pte s (k + (j - k)))), frames := of_nat (ks ! (j - k))\<rparr>"
    using assms(1) len unfolding allocated_def by blast
  ultimately show "pte_frame s' (page_pte s j) = ks ! (j - k)" and "pt_p (pte_mem s' (page_pte s j))"
    using assms(2) by (simp_all add: unat_of_nat_small)
qed

lemma allocated_other:
  "allocated user n k ks s s' \<Longrightarrow> j \<notin> {k..<k + n} \<Longrightarrow> pte_mem s' (page_pte s j) = pte_mem s (page_pte s j)"
  by (auto simp: allocated_def)

lemma allocated_fields:
  assumes "allocated user n k ks s s'"
  shows "alloc_pte s' = alloc_pte s" and "alloc_spin_lock s' = alloc_spin_lock s"
    and "page_pte s' = page_pte s"
proof -
  have s': "s' = s\<lparr>RAM_BITMAP := RAM_BITMAP s', PAGE_BITMAP := PAGE_BITMAP s', pte_mem := pte_mem s'\<rparr>"
    using assms unfolding allocated_def by blast
  show a: "alloc_pte s' = alloc_pte s" by (subst s') simp
  show "alloc_spin_lock s' = alloc_spin_lock s" by (subst s') simp
  show "page_pte s' = page_pte s" by (simp add: page_pte_def a fun_eq_iff)
qed

text \<open>The frames of the new pages differ from each other and from all frames in use.\<close>

lemma allocated_inj:
  assumes inv: "mm_inv s" and al: "allocated user n k ks s s'"
    and disj: "busy_pages s \<inter> {k..<k + n} = {}"
  shows "inj_on (\<lambda>j. pte_frame s' (page_pte s j)) (busy_pages s \<union> {k..<k + n})"
proof -
  have ks: "length ks = n" "distinct ks" and fresh: "\<And>f. f \<in> set ks \<Longrightarrow> \<not> frame_used s f"
    using al by (auto simp: allocated_def)
  have old: "pte_frame s' (page_pte s j) = pte_frame s (page_pte s j)" if "j \<in> busy_pages s" for j
    using that disj by (subst allocated_other [OF al]) auto
  have "inj_on (\<lambda>j. pte_frame s' (page_pte s j)) (busy_pages s)"
    using inv by (simp add: mm_inv_def old cong: inj_on_cong)
  moreover have "inj_on (\<lambda>j. pte_frame s' (page_pte s j)) {k..<k + n}"
  proof (rule inj_onI)
    fix i j
    assume ij: "i \<in> {k..<k + n}" "j \<in> {k..<k + n}"
      and "pte_frame s' (page_pte s i) = pte_frame s' (page_pte s j)"
    then have "ks ! (i - k) = ks ! (j - k)" by (simp add: allocated_frame(1) [OF al])
    moreover have "i - k < length ks" "j - k < length ks" using ij ks(1) by auto
    ultimately have "i - k = j - k" using ks(2) by (simp add: nth_eq_iff_index_eq)
    with ij show "i = j" by auto
  qed
  moreover have "pte_frame s' (page_pte s i) \<noteq> pte_frame s' (page_pte s j)"
    if "i \<in> busy_pages s" "j \<in> {k..<k + n}" for i j
  proof -
    have "frame_used s (pte_frame s (page_pte s i))" using inv that(1) by (simp add: mm_inv_def)
    moreover have "\<not> frame_used s (ks ! (j - k))" by (rule fresh [OF allocated_frame(3) [OF al that(2)]])
    ultimately show ?thesis by (auto simp: old that(1) allocated_frame(1) [OF al that(2)])
  qed
  ultimately show ?thesis by (auto simp: inj_on_Un)
qed

lemma alloc_pages_inv:
  assumes inv: "mm_inv s" and at: "alloc_at len s k" and ok: "alloc_pages type len s = Some (r, a, s')"
  shows "mm_inv s'"
proof -
  from alloc_pages_allocated [OF inv at ok] obtain ks
    where al: "allocated (type \<noteq> 0) (unat len) k ks s s'" by blast
  then have pb: "PAGE_BITMAP s' = mark_pages (PAGE_BITMAP s) k (unat len)"
    and ks: "\<And>f. f \<in> set ks \<Longrightarrow> 32768 \<le> f \<and> f < 1048576"
    and fu: "\<And>f. frame_used s' f \<longleftrightarrow> frame_used s f \<or> f \<in> set ks" by (auto simp: allocated_def)
  note run = alloc_at_free_run [OF inv at]
  note bp = busy_pages_mark [OF run pb]
  have disj: "busy_pages s \<inter> {k..<k + unat len} = {}"
    using free_run_lo [OF run] by (auto simp: busy_pages_def)
  have "pt_p (pte_mem s' (page_pte s j)) \<and> 32768 \<le> pte_frame s' (page_pte s j) \<and>
      pte_frame s' (page_pte s j) < 1048576 \<and> frame_used s' (pte_frame s' (page_pte s j))"
    if "j \<in> busy_pages s \<union> {k..<k + unat len}" for j
  proof (cases "j \<in> {k..<k + unat len}")
    case True
    with allocated_frame [OF al True] ks fu show ?thesis by auto
  next
    case False
    with that have "j \<in> busy_pages s" by blast
    with inv allocated_other [OF al False] fu show ?thesis by (simp add: mm_inv_def)
  qed
  with allocated_inj [OF inv al disj] mark_wf [OF run] show ?thesis
    using inv by (simp add: mm_inv_def allocated_fields [OF al] bp pb)
qed

lemma run_length_busy:
  assumes "run_length (PAGE_BITMAP s) k n" and "j < n"
  shows "k + j \<in> busy_pages s"
  using assms by (cases "j = 0") (auto simp: busy_pages_def run_length_def)

lemma released_bitmap:
  assumes "released n p s s'"
  shows "PAGE_BITMAP s' = PAGE_BITMAP s" and "alloc_pte s' = alloc_pte s"
    and "alloc_spin_lock s' = alloc_spin_lock s"
proof -
  have s': "s' = s\<lparr>RAM_BITMAP := RAM_BITMAP s', pte_mem := pte_mem s'\<rparr>"
    using assms unfolding released_def by blast
  show "PAGE_BITMAP s' = PAGE_BITMAP s" by (subst s') simp
  show "alloc_pte s' = alloc_pte s" by (subst s') simp
  show "alloc_spin_lock s' = alloc_spin_lock s" by (subst s') simp
qed

lemma free_pages_done:
  assumes inv: "mm_inv s" and run: "run_length (PAGE_BITMAP s) k n"
  obtains s' where "free_pages (page_addr k) s = Some s'"
    "released n (page_pte s k) (s\<lparr>PAGE_BITMAP := unmark_pages (PAGE_BITMAP s) k n\<rparr>) s'"
proof -
  let ?s1 = "s\<lparr>PAGE_BITMAP := unmark_pages (PAGE_BITMAP s) k n\<rparr>"
  have "k < 524288" using run by (auto simp: run_length_def)
  note idx = page_addr_index [OF this]
  have busy: "get_busy_page_size k s = Some n"
    by (rule run_busy [OF _ run]) (use inv in \<open>simp add: mm_inv_def\<close>)
  have "free_pages (page_addr k) s = Some (release_pages n (page_pte s k) ?s1)"
    using idx(2,3) unfolding free_pages_def Let_def idx(1) busy by (simp add: page_pte_def)
  moreover have "released n (page_pte s k) ?s1 (release_pages n (page_pte s k) ?s1)"
  proof (rule release_pages_released, intro allI impI)
    fix j assume "j < n"
    with run_length_busy [OF run] inv
    show "32768 \<le> pte_frame ?s1 (page_pte s k + 8 * j) \<and> pte_frame ?s1 (page_pte s k + 8 * j) < 1048576"
      by (simp add: mm_inv_def page_pte_add)
  qed
  ultimately show ?thesis using that by blast
qed


lemma released_frame_used:
  assumes "released n (page_pte s k) s1 s'" and "pte_mem s1 = pte_mem s" and "frame_used s1 = frame_used s"
  shows "frame_used s' f \<longleftrightarrow> frame_used s f \<and> (\<forall>j<n. f \<noteq> pte_frame s (page_pte s (k + j)))"
  using assms by (simp add: released_def page_pte_add)

lemma released_other:
  assumes "released n (page_pte s k) s1 s'" and "pte_mem s1 = pte_mem s" and "j \<notin> {k..<k + n}"
  shows "pte_mem s' (page_pte s j) = pte_mem s (page_pte s j)"
  using assms by (auto simp: released_def page_pte_add)

lemma busy_pages_unmark:
  assumes "PAGE_BITMAP s' = unmark_pages (PAGE_BITMAP s) k n"
  shows "busy_pages s' = busy_pages s - {k..<k + n}"
  using assms by (auto simp: busy_pages_def umasked_all)

lemma free_pages_inv:
  assumes inv: "mm_inv s" and run: "run_length (PAGE_BITMAP s) k n"
    and free: "free_pages (page_addr k) s = Some s'"
  shows "mm_inv s'" and "PAGE_BITMAP s' = unmark_pages (PAGE_BITMAP s) k n"
    and "frame_used s' f \<longleftrightarrow> frame_used s f \<and> (\<forall>j<n. f \<noteq> pte_frame s (page_pte s (k + j)))"
proof -
  let ?s1 = "s\<lparr>PAGE_BITMAP := unmark_pages (PAGE_BITMAP s) k n\<rparr>"
  from free_pages_done [OF inv run] free have rel: "released n (page_pte s k) ?s1 s'" by auto
  from released_bitmap [OF rel] show pb: "PAGE_BITMAP s' = unmark_pages (PAGE_BITMAP s) k n" by simp
  have fu: "frame_used s' f \<longleftrightarrow> frame_used s f \<and> (\<forall>j<n. f \<noteq> pte_frame s (page_pte s (k + j)))" for f
    by (rule released_frame_used [OF rel]) simp_all
  then show "frame_used s' f \<longleftrightarrow> frame_used s f \<and> (\<forall>j<n. f \<noteq> pte_frame s (page_pte s (k + j)))" .
  have old: "pte_mem s' (page_pte s j) = pte_mem s (page_pte s j)" if "j \<notin> {k..<k + n}" for j
    by (rule released_other [OF rel _ that]) simp
  have pte: "page_pte s' = page_pte s" using released_bitmap [OF rel] by (simp add: page_pte_def fun_eq_iff)
  note bp = busy_pages_unmark [OF pb]
  have inj: "inj_on (\<lambda>j. pte_frame s (page_pte s j)) (busy_pages s)" using inv by (simp add: mm_inv_def)
  have used: "frame_used s' (pte_frame s (page_pte s j))" if j: "j \<in> busy_pages s" "j \<notin> {k..<k + n}" for j
  proof -
    have "pte_frame s (page_pte s j) \<noteq> pte_frame s (page_pte s (k + i))" if "i < n" for i
      using inj_onD [OF inj _ j(1) run_length_busy [OF run that]] j(2) that by auto
    with inv j(1) show ?thesis by (simp add: fu mm_inv_def)
  qed
  have "inj_on (\<lambda>j. pte_frame s' (page_pte s j)) (busy_pages s - {k..<k + n})"
    using inj old by (auto simp: inj_on_def)
  moreover have "wf_pages (PAGE_BITMAP s')" using inv run by (simp add: pb unmark_wf mm_inv_def)
  ultimately show "mm_inv s'"
    using inv used old released_bitmap(3) [OF rel] by (simp add: mm_inv_def pte bp)
qed

text \<open>Freeing what was just allocated restores both bitmaps.\<close>

lemma alloc_free_bitmaps:
  assumes inv: "mm_inv s" and at: "alloc_at len s k" and ok: "alloc_pages type len s = Some (r, Some a, s')"
  obtains s'' where "free_pages a s' = Some s''" "PAGE_BITMAP s'' = PAGE_BITMAP s"
    "RAM_BITMAP s'' = RAM_BITMAP s" "mm_inv s''"
proof -
  from alloc_pages_allocated [OF inv at ok] obtain ks
    where al: "allocated (type \<noteq> 0) (unat len) k ks s s'" and a: "a = page_addr k" by blast
  note inv' = alloc_pages_inv [OF inv at ok]
  note run = alloc_at_free_run [OF inv at]
  have pb: "PAGE_BITMAP s' = mark_pages (PAGE_BITMAP s) k (unat len)" and len: "length ks = unat len"
    and fresh: "\<And>f. f \<in> set ks \<Longrightarrow> \<not> frame_used s f"
    and fu: "\<And>f. frame_used s' f \<longleftrightarrow> frame_used s f \<or> f \<in> set ks"
    using al by (auto simp: allocated_def)
  have rl: "run_length (PAGE_BITMAP s') k (unat len)" unfolding pb by (rule mark_run_length [OF run])
  obtain s'' where free: "free_pages a s' = Some s''" unfolding a by (rule free_pages_done [OF inv' rl])
  note fi = free_pages_inv [OF inv' rl, folded a, OF free]
  have ks: "pte_frame s' (page_pte s' (k + j)) = ks ! j" if "j < unat len" for j
    using allocated_frame(1) [OF al, of "k + j"] that by (simp add: allocated_fields [OF al])
  have "frame_used s'' f = frame_used s f" for f
  proof -
    have "(\<exists>j<unat len. f = ks ! j) \<longleftrightarrow> f \<in> set ks" using len by (auto simp: in_set_conv_nth)
    then show ?thesis unfolding fi(3) fu using ks fresh [of f] by auto
  qed
  then have "RAM_BITMAP s'' = RAM_BITMAP s" by (intro bmp_ext ext)
  moreover have "PAGE_BITMAP s'' = PAGE_BITMAP s" using fi(2) unmark_mark [OF run] pb by simp
  ultimately show ?thesis using that free fi(1) by blast
qed

section \<open>Boot\<close>

definition mm_boot :: "'a mm_state_scheme \<Rightarrow> 'a mm_state_scheme" where
  "mm_boot s = alloc_pages_setup (ram_setup (initialize_mm_mp s))"

lemma mm_boot_pages: "k < BITMAP_PAGES \<Longrightarrow> page_of (PAGE_BITMAP (mm_boot s)) k = Free"
  by (auto simp: mm_boot_def alloc_pages_setup_def Let_def page_lo_def fill_bytes_def)

lemma mm_boot_inv: "mm_inv (mm_boot s)"
proof -
  have z: "\<not> page_lo (PAGE_BITMAP (mm_boot s)) k" "\<not> page_hi (PAGE_BITMAP (mm_boot s)) k"
    if "k < BITMAP_PAGES" for k
    using that by (auto simp: mm_boot_def alloc_pages_setup_def Let_def page_lo_def page_hi_def fill_bytes_def)
  then have "busy_pages (mm_boot s) = {}" by (auto simp: busy_pages_def)
  moreover have "alloc_spin_lock (mm_boot s) = 0" by (simp add: mm_boot_def alloc_pages_setup_def Let_def)
  ultimately show ?thesis using z by (simp add: mm_inv_def wf_pages_def)
qed

lemma mm_boot_ram: "RAM_BITMAP (mm_boot s) = fill_bytes 4096 12288 0 (fill_bytes 0 4096 (- 1) (RAM_BITMAP s))"
  by (simp add: mm_boot_def alloc_pages_setup_def ram_setup_def initialize_mm_mp_def Let_def)

text \<open>At boot the frames of 128 MiB to 512 MiB, and at least those, are free.\<close>

lemma mm_boot_frames:
  "k < 131072 \<Longrightarrow> frame_used (mm_boot s) k \<longleftrightarrow> k < 32768"
proof -
  assume k: "k < 131072"
  then have "k div 8 < 16384" "k mod 8 < 8" by auto
  moreover have "bit (- 1 :: u8) (k mod 8)" by simp
  ultimately show ?thesis by (auto simp: mm_boot_ram bmp_bit_def fill_bytes_def)
qed

lemma mm_boot_free_frames: "98304 \<le> card (free_frames (mm_boot s))"
proof -
  have "{32768..<131072::nat} \<subseteq> free_frames (mm_boot s)" by (auto simp: free_frames_def mm_boot_frames)
  moreover have "finite (free_frames (mm_boot s))"
    by (rule finite_subset [of _ "{..<1048576}"]) (auto simp: free_frames_def)
  ultimately have "card {32768..<131072::nat} \<le> card (free_frames (mm_boot s))" by (rule card_mono [rotated])
  then show ?thesis by simp
qed

lemma alloc_pages_succeeds:
  assumes inv: "mm_inv s" and at: "alloc_at len s k" and enough: "unat len \<le> card (free_frames s)"
  obtains s' where "alloc_pages type len s = Some (ucast len, Some (page_addr k), s')"
proof -
  have "free_frames (marked len k s) = free_frames s" by (simp add: free_frames_def marked_def)
  with enough obtain s2 where "back_pages (unat len) (type \<noteq> 0) (page_pte s k) (marked len k s) = Some s2"
    using back_pages_succeeds [of "unat len" "marked len k s"] by force
  with alloc_pages_eq [OF inv at, of type] show ?thesis using that by simp
qed

lemma mm_boot_alloc_at:
  assumes "len \<noteq> 0" and "unat len \<le> HEAP_PAGES"
  shows "alloc_at len (mm_boot s) 0"
proof -
  have "fits (PAGE_BITMAP (mm_boot s)) (unat len) 0"
    using assms(2) mm_boot_pages [of _ s] by (auto simp: fits_def)
  then show ?thesis using assms by (simp add: alloc_at_def find_from_Some)
qed

section \<open>The page walk\<close>

lemma walk_index: "unat (drop_bit n (v :: u64) AND 0x1FF) = unat v div 2 ^ n mod 512"
proof -
  have "drop_bit n v AND 0x1FF = take_bit 9 (drop_bit n v)" by (simp add: take_bit_eq_mask mask_eq_exp_minus_1)
  then have "unat (drop_bit n v AND 0x1FF) = take_bit 9 (drop_bit n (unat v))"
    by (simp only: unsigned_take_bit_eq unat_drop_bit_eq)
  then show ?thesis by (simp only: take_bit_eq_mod drop_bit_eq_div) simp
qed

lemma entry_addr:
  assumes "unat (f :: 40 word) < 2 ^ 28"
  shows "unat (ucast (push_bit 12 f) AND 0xffffffffffff :: u64) = unat f * 4096"
proof -
  have "unat (push_bit 12 f) = unat f * 4096 mod 2 ^ 40"
    by (simp add: push_bit_eq_mult unat_word_ariths(2) mult.commute)
  also have "\<dots> = unat f * 4096" using assms by simp
  finally have p: "unat (push_bit 12 f) = unat f * 4096" .
  have "ucast (push_bit 12 f) AND (0xffffffffffff :: u64) = take_bit 48 (ucast (push_bit 12 f))"
    by (simp add: take_bit_eq_mask mask_eq_exp_minus_1)
  then have "unat (ucast (push_bit 12 f) AND 0xffffffffffff :: u64) = unat (ucast (push_bit 12 f) :: u64) mod 2 ^ 48"
    by (simp only: unsigned_take_bit_eq) (simp add: take_bit_eq_mod)
  also have "unat (ucast (push_bit 12 f) :: u64) = unat (push_bit 12 f)"
    using assms by (intro unat_ucast_small) (simp add: p)
  finally show ?thesis using assms by (simp add: p)
qed

text \<open>The walk through tables whose entries hold small enough addresses.\<close>

lemma get_phy_addr_walk:
  assumes "unat (phy_addr_pd (pdpte s (unat v div 2 ^ 30 mod 512))) = d" and "d < 2 ^ 28"
    and "unat (phy_addr_pt (pde_mem s (d * 4096 + 8 * (unat v div 2 ^ 21 mod 512)))) = t" and "t < 2 ^ 28"
  shows "get_phy_addr v s =
    ucast (push_bit 12 (frames (pte_mem s (t * 4096 + 8 * (unat v div 2 ^ 12 mod 512))))) AND 0xffffffffffff"
  using assms entry_addr [of "phy_addr_pd (pdpte s (unat v div 2 ^ 30 mod 512))"]
    entry_addr [of "phy_addr_pt (pde_mem s (d * 4096 + 8 * (unat v div 2 ^ 21 mod 512)))"]
  by (simp add: get_phy_addr_def walk_index)

definition heap_tables :: "'a mm_state_scheme \<Rightarrow> bool" where
  "heap_tables s \<longleftrightarrow> alloc_pte s = 0x5001000 \<and> phy_addr_pd (pdpte s 4) = 0x5000 \<and>
     (\<forall>d<512. phy_addr_pt (pde_mem s (0x5000000 + 8 * d)) = of_nat (0x5001 + d))"

text \<open>The value an entry keeps of an address.\<close>

lemma entry_field:
  assumes "unat (a :: u64) < 2 ^ 52"
  shows "unat (ucast (drop_bit 12 a AND 0xffffffffffff) :: 40 word) = unat a div 4096"
proof -
  have d: "unat (drop_bit 12 a) = unat a div 4096" unfolding unat_drop_bit_eq by (simp add: drop_bit_eq_div)
  have "drop_bit 12 a AND 0xffffffffffff = take_bit 48 (drop_bit 12 a)"
    by (simp add: take_bit_eq_mask mask_eq_exp_minus_1)
  then have "unat (drop_bit 12 a AND 0xffffffffffff) = unat a div 4096 mod 2 ^ 48"
    by (simp only: unsigned_take_bit_eq d) (simp only: take_bit_eq_mod)
  also have "\<dots> = unat a div 4096" using assms by simp
  finally show ?thesis using assms by (subst unat_ucast_small) simp_all
qed

lemma mm_boot_heap_tables: "heap_tables (mm_boot s)"
proof -
  have "ucast (drop_bit 12 (0x5001000 + 0x1000 * of_nat d :: u64) AND 0xffffffffffff) = (of_nat (0x5001 + d) :: 40 word)"
    if "d < 512" for d
  proof -
    have u: "unat (0x5001000 + 0x1000 * of_nat d :: u64) = 0x5001000 + 0x1000 * d"
      using unat_of_nat_small [of "0x5001000 + 0x1000 * d", where 'a = 64] that by simp
    have "(0x5001000 + 0x1000 * d) div 4096 = 0x5001 + d" by simp
    moreover have "unat (of_nat (0x5001 + d) :: 40 word) = 0x5001 + d"
      using that by (intro unat_of_nat_small) simp
    ultimately show ?thesis
      using that unfolding word_unat_eq_iff by (subst entry_field) (simp_all only: u, simp)
  qed
  then show ?thesis
    by (auto simp: heap_tables_def mm_boot_def alloc_pages_setup_def Let_def)
qed

lemma unat_page_addr:
  assumes "k < HEAP_PAGES" and "off < 4096"
  shows "unat (page_addr k + of_nat off) = 0x100000000 + k * 4096 + off"
proof -
  have "page_addr k + of_nat off = of_nat (0x100000000 + k * 4096 + off)" by (simp add: page_addr_def)
  then show ?thesis using assms by (simp only:) (rule unat_of_nat_small, simp)
qed

lemma page_walk_indices:
  assumes "k < HEAP_PAGES" and "off < 4096"
  shows "(0x100000000 + k * 4096 + off) div 2 ^ 30 mod 512 = 4"
    and "(0x100000000 + k * 4096 + off) div 2 ^ 21 mod 512 = k div 512"
    and "(0x100000000 + k * 4096 + off) div 2 ^ 12 mod 512 = k mod 512"
proof -
  have q: "(0x100000000 + k * 4096 + off) div 2 ^ 12 = 4 * 262144 + k" using assms(2) by simp
  have split: "x div 2 ^ 21 = x div 2 ^ 12 div 512" "x div 2 ^ 30 = x div 2 ^ 12 div 262144" for x :: nat
    by (simp_all add: div_mult2_eq [symmetric])
  show "(0x100000000 + k * 4096 + off) div 2 ^ 30 mod 512 = 4"
    unfolding split q using assms(1) by simp
  have "(4 * 262144 + k) div 512 = 512 * 4 + k div 512" by simp
  then show "(0x100000000 + k * 4096 + off) div 2 ^ 21 mod 512 = k div 512"
    unfolding split q using assms(1) mod_mult_self3 [of 4 512 "k div 512"] by (simp add: div_less_iff_less_mult)
  show "(0x100000000 + k * 4096 + off) div 2 ^ 12 mod 512 = k mod 512"
    unfolding q using mod_mult_self3 [of 2048 512 k] by simp
qed

lemma get_phy_addr_heap:
  assumes tab: "heap_tables s" and k: "k < HEAP_PAGES" and off: "off < 4096"
    and f: "pte_frame s (page_pte s k) < 2 ^ 28"
  shows "unat (get_phy_addr (page_addr k + of_nat off) s) = pte_frame s (page_pte s k) * 4096"
proof -
  have u: "unat (page_addr k + of_nat off) = 0x100000000 + k * 4096 + off"
    by (rule unat_page_addr [OF k off])
  have i1: "(0x100000000 + k * 4096 + off) div 2 ^ 30 mod 512 = 4"
   and i2: "(0x100000000 + k * 4096 + off) div 2 ^ 21 mod 512 = k div 512"
   and i3: "(0x100000000 + k * 4096 + off) div 2 ^ 12 mod 512 = k mod 512"
    using page_walk_indices [OF k off] by simp_all
  have d: "k div 512 < 512" using k by auto
  have "get_phy_addr (page_addr k + of_nat off) s =
      ucast (push_bit 12 (frames (pte_mem s ((0x5001 + k div 512) * 4096 + 8 * (k mod 512))))) AND 0xffffffffffff"
    unfolding i3 [symmetric] u [symmetric]
    by (rule get_phy_addr_walk [where d = "0x5000"])
       (use tab d in \<open>simp_all add: u i1 i2 i1[simplified] i2[simplified] heap_tables_def unat_of_nat_small del: of_nat_add\<close>)
  moreover have "(0x5001 + k div 512) * 4096 + 8 * (k mod 512) = page_pte s k"
  proof -
    define q r where "q = k div 512" and "r = k mod 512"
    then have "k = q * 512 + r" by (simp only: div_mult_mod_eq)
    then show ?thesis using tab unfolding page_pte_def heap_tables_def q_def [symmetric] r_def [symmetric] by simp
  qed
  ultimately show ?thesis using entry_addr [OF f] by simp
qed

section \<open>Properties of the kernel heap\<close>

text \<open>A machine state before \<^verbatim>\<open>mm\<close> is set up: all memory zero.\<close>

definition mm_zero :: mm_state where
  "mm_zero = \<lparr>RAM_BITMAP = (\<lambda>_. 0), PAGE_BITMAP = (\<lambda>_. 0), pte_mem = (\<lambda>_. pte_zero), pde_mem = (\<lambda>_. pde_zero),
     pdpte = (\<lambda>_. \<lparr>pdp_p = False, pdp_rw = False, pdp_us = False, pdp_pwt = False, pdp_pcd = False,
        pdp_rs1 = 0, pdp_ign = 0, phy_addr_pd = 0, pdp_rs2 = 0\<rparr>),
     pml4e_us = False, device_pde = 0, alloc_pde = 0, alloc_pte = 0, g_mm_mp_index = 0, alloc_spin_lock = 0\<rparr>"

lemma boot_alloc:
  assumes "len \<noteq> 0" and "unat len \<le> 98304"
  obtains s' where "alloc_pages type len (mm_boot s) = Some (ucast len, Some (page_addr 0), s')"
  using assms mm_boot_free_frames [of s] mm_boot_alloc_at [of len s]
  by (auto elim!: alloc_pages_succeeds [OF mm_boot_inv, of len s 0 type])

lemma page_addr_0: "page_addr 0 = 0x100000000"
  by (simp add: page_addr_def)

text \<open>C1: a successful \<^verbatim>\<open>alloc_pages\<close> keeps the invariant of the memory manager and does exactly
  its job: it returns the address of the first fit, marks exactly that run, backs every page by a
  previously free frame (all different), and changes no other page table entry or field.\<close>

theorem alloc_pages_correct:
  assumes "mm_inv s" and "alloc_at len s k" and "alloc_pages type len s = Some (r, a, s')"
  shows "mm_inv s' \<and> r = ucast len \<and> a = Some (page_addr k) \<and>
    (\<exists>ks. allocated (type \<noteq> 0) (unat len) k ks s s')"
  using alloc_pages_allocated [OF assms] alloc_pages_inv [OF assms] by blast

theorem alloc_pages_correct_witness:
  "\<exists>s'. alloc_pages 1 3 (mm_boot mm_zero) = Some (3, Some 0x100000000, s') \<and> mm_inv s' \<and>
     (\<exists>ks. allocated True 3 0 ks (mm_boot mm_zero) s')"
proof -
  obtain s' where ok: "alloc_pages 1 3 (mm_boot mm_zero) = Some (ucast (3 :: u32), Some (page_addr 0), s')"
    by (rule boot_alloc [of 3]) simp_all
  moreover have "alloc_at 3 (mm_boot mm_zero) 0" by (rule mm_boot_alloc_at) simp_all
  ultimately show ?thesis
    using alloc_pages_correct [OF mm_boot_inv _ ok, of 0] by (auto simp: page_addr_0)
qed

text \<open>C2: \<^verbatim>\<open>free_pages\<close> undoes \<^verbatim>\<open>alloc_pages\<close>: it returns, both bitmaps are back to their
  contents before the allocation, and the invariant holds.\<close>

theorem alloc_free_roundtrip:
  assumes "mm_inv s" and "alloc_at len s k" and "alloc_pages type len s = Some (r, Some a, s')"
  shows "\<exists>s''. free_pages a s' = Some s'' \<and> PAGE_BITMAP s'' = PAGE_BITMAP s \<and>
    RAM_BITMAP s'' = RAM_BITMAP s \<and> mm_inv s''"
  by (rule alloc_free_bitmaps [OF assms]) blast

theorem alloc_free_roundtrip_witness:
  "\<exists>s' s''. alloc_pages 0 7 (mm_boot mm_zero) = Some (7, Some 0x100000000, s') \<and>
     free_pages 0x100000000 s' = Some s'' \<and> RAM_BITMAP s'' = RAM_BITMAP (mm_boot mm_zero)"
proof -
  obtain s' where ok: "alloc_pages 0 7 (mm_boot mm_zero) = Some (ucast (7 :: u32), Some (page_addr 0), s')"
    by (rule boot_alloc [of 7]) simp_all
  moreover have "alloc_at 7 (mm_boot mm_zero) 0" by (rule mm_boot_alloc_at) simp_all
  ultimately show ?thesis
    using alloc_free_roundtrip [OF mm_boot_inv _ ok, of 0] by (auto simp: page_addr_0)
qed

lemma alloc_at_spec:
  assumes "len \<noteq> 0" and "spec_alloc (unat len) (page_of (PAGE_BITMAP s)) = Some (k, f)"
    and "k + unat len \<le> 262144"
  shows "alloc_at len s k" and "f = spec_mark k (unat len) (page_of (PAGE_BITMAP s))"
proof -
  have "(\<lambda>k. \<forall>j<unat len. page_of (PAGE_BITMAP s) (k + j) = Free) = fits (PAGE_BITMAP s) (unat len)"
    by (simp add: fits_def fun_eq_iff)
  with assms show "alloc_at len s k" and "f = spec_mark k (unat len) (page_of (PAGE_BITMAP s))"
    by (auto simp: alloc_at_def spec_alloc_def simp del: page_of_iff)
qed

text \<open>C11: \<^verbatim>\<open>alloc_pages\<close> implements the abstract first-fit allocator.  Whenever the abstract
  allocator finds a run inside the 1 GiB covered by the page tables and there are enough free
  frames, the code returns (no spinning) the address of that run, and the bitmap afterwards
  represents the abstract state after the allocation.\<close>

theorem alloc_pages_refines:
  assumes "mm_inv s" and "len \<noteq> 0"
    and "spec_alloc (unat len) (page_of (PAGE_BITMAP s)) = Some (k, f)" and "k + unat len \<le> 262144"
    and "unat len \<le> card (free_frames s)"
  shows "\<exists>s'. alloc_pages type len s = Some (ucast len, Some (page_addr k), s') \<and>
    page_of (PAGE_BITMAP s') = f"
proof -
  note at = alloc_at_spec [OF assms(2,3,4)]
  obtain s' where ok: "alloc_pages type len s = Some (ucast len, Some (page_addr k), s')"
    by (rule alloc_pages_succeeds [OF assms(1) at(1) assms(5)])
  with alloc_pages_allocated [OF assms(1) at(1) ok] mark_page_of [OF alloc_at_free_run [OF assms(1) at(1)]]
  show ?thesis by (auto simp: allocated_def at(2))
qed

theorem alloc_pages_refines_witness:
  "\<exists>s'. alloc_pages 0 2 (mm_boot mm_zero) = Some (2, Some 0x100000000, s') \<and>
     page_of (PAGE_BITMAP s') 0 = First \<and> page_of (PAGE_BITMAP s') 1 = Next \<and> page_of (PAGE_BITMAP s') 2 = Free"
proof -
  let ?f = "page_of (PAGE_BITMAP (mm_boot mm_zero))"
  have fr: "?f j = Free" if "j < 3" for j using that by (intro mm_boot_pages) simp
  have "find_from (\<lambda>k. \<forall>j<2. ?f (k + j) = Free) 0 134217728 = Some 0"
    using fr by (simp add: find_from_Some del: page_of_iff)
  then have "spec_alloc (unat (2 :: u32)) ?f = Some (0, spec_mark 0 2 ?f)" by (simp add: spec_alloc_def)
  from alloc_pages_refines [OF mm_boot_inv _ this, of 0] mm_boot_free_frames [of mm_zero]
  obtain s' where "alloc_pages 0 2 (mm_boot mm_zero) = Some (2, Some (page_addr 0), s')"
    "page_of (PAGE_BITMAP s') = spec_mark 0 2 ?f" by auto
  then show ?thesis using fr [of 2] by (auto simp: page_addr_0 spec_mark_def simp del: page_of_iff)
qed

text \<open>C12: \<^verbatim>\<open>free_pages\<close> of the address of an allocation returns, frees exactly the run of pages that
  starts there and exactly the frames behind them, and keeps the invariant.\<close>

theorem free_pages_refines:
  assumes "mm_inv s" and "k < 262144" and "page_of (PAGE_BITMAP s) k = First"
  shows "\<exists>s'. free_pages (page_addr k) s = Some s' \<and> mm_inv s' \<and>
    page_of (PAGE_BITMAP s') = spec_free k (page_of (PAGE_BITMAP s)) \<and>
    (\<forall>f. frame_used s' f \<longleftrightarrow> frame_used s f \<and>
      (\<forall>j. in_run (page_of (PAGE_BITMAP s)) k j \<longrightarrow> f \<noteq> pte_frame s (page_pte s j)))"
proof -
  have "wf_pages (PAGE_BITMAP s)" using assms(1) by (simp add: mm_inv_def)
  from run_length_exists [OF this assms(2,3)] obtain n where run: "run_length (PAGE_BITMAP s) k n" ..
  obtain s' where free: "free_pages (page_addr k) s = Some s'" by (rule free_pages_done [OF assms(1) run])
  have "(\<forall>j<n. f \<noteq> pte_frame s (page_pte s (k + j))) \<longleftrightarrow>
      (\<forall>j. k \<le> j \<and> j < k + n \<longrightarrow> f \<noteq> pte_frame s (page_pte s j))" for f
    by (metis add_less_cancel_left le_add1 le_iff_add)
  with free_pages_inv [OF assms(1) run free] unmark_page_of [OF run] free show ?thesis
    by (simp add: run_in_run [OF run])
qed

theorem free_pages_refines_witness:
  "\<exists>s s'. alloc_pages 0 1 (mm_boot mm_zero) = Some (1, Some 0x100000000, s) \<and>
     free_pages 0x100000000 s = Some s' \<and> mm_inv s' \<and> page_of (PAGE_BITMAP s') 0 = Free"
proof -
  obtain s where ok: "alloc_pages 0 1 (mm_boot mm_zero) = Some (ucast (1 :: u32), Some (page_addr 0), s)"
    by (rule boot_alloc [of 1]) simp_all
  have at: "alloc_at 1 (mm_boot mm_zero) 0" by (rule mm_boot_alloc_at) simp_all
  have pb: "PAGE_BITMAP s = mark_pages (PAGE_BITMAP (mm_boot mm_zero)) 0 1"
    using alloc_pages_allocated [OF mm_boot_inv at ok] by (auto simp: allocated_def)
  have "page_of (PAGE_BITMAP s) 0 = First"
    using mark_page_of [OF alloc_at_free_run [OF mm_boot_inv at]] by (simp add: pb spec_mark_def del: page_of_iff)
  from free_pages_refines [OF alloc_pages_inv [OF mm_boot_inv at ok] _ this] ok show ?thesis
    by (auto simp: page_addr_0 spec_free_def in_run_def simp del: page_of_iff)
qed

lemma allocated_heap_tables:
  assumes "allocated user n k ks s s'" and "heap_tables s"
  shows "heap_tables s'"
proof -
  have s': "s' = s\<lparr>RAM_BITMAP := RAM_BITMAP s', PAGE_BITMAP := PAGE_BITMAP s', pte_mem := pte_mem s'\<rparr>"
    using assms(1) unfolding allocated_def by blast
  have "pdpte s' = pdpte s" "pde_mem s' = pde_mem s" by (subst s', simp)+
  with assms(2) allocated_fields(1) [OF assms(1)] show ?thesis by (simp add: heap_tables_def)
qed

text \<open>C13: after \<^verbatim>\<open>alloc_pages\<close> the page walk \<^verbatim>\<open>get_phy_addr\<close> takes every address of the new pages to
  the base of a frame at or above 128 MiB that was free before, and different pages to different
  frames.\<close>

theorem alloc_pages_walk:
  assumes "mm_inv s" and "heap_tables s" and "alloc_at len s k"
    and "alloc_pages type len s = Some (r, a, s')"
  shows "\<exists>ks. length ks = unat len \<and> distinct ks \<and> (\<forall>f \<in> set ks. 32768 \<le> f \<and> \<not> frame_used s f) \<and>
    (\<forall>j off. j < unat len \<longrightarrow> off < 4096 \<longrightarrow>
       unat (get_phy_addr (page_addr (k + j) + of_nat off) s') = ks ! j * 4096)"
proof -
  from alloc_pages_allocated [OF assms(1,3,4)] obtain ks
    where al: "allocated (type \<noteq> 0) (unat len) k ks s s'" by blast
  then have ks: "length ks = unat len" "distinct ks" "\<forall>f \<in> set ks. 32768 \<le> f \<and> f < 1048576 \<and> \<not> frame_used s f"
    by (auto simp: allocated_def)
  have "unat (get_phy_addr (page_addr (k + j) + of_nat off) s') = ks ! j * 4096"
    if j: "j < unat len" and off: "off < 4096" for j off
  proof -
    have f: "pte_frame s' (page_pte s' (k + j)) = ks ! j"
      using allocated_frame(1) [OF al, of "k + j"] j by (simp add: allocated_fields [OF al])
    have "ks ! j < 1048576" using ks j by (metis nth_mem)
    moreover have "k + j < 262144" using assms(3) j by (simp add: alloc_at_def)
    ultimately show ?thesis
      using get_phy_addr_heap [OF allocated_heap_tables [OF al assms(2)] _ off, of "k + j"] by (simp add: f)
  qed
  with ks show ?thesis by blast
qed

theorem alloc_pages_walk_witness:
  "\<exists>s' f. alloc_pages 0 1 (mm_boot mm_zero) = Some (1, Some 0x100000000, s') \<and> 32768 \<le> f \<and>
     unat (get_phy_addr 0x100000abc s') = f * 4096"
proof -
  obtain s where ok: "alloc_pages 0 1 (mm_boot mm_zero) = Some (ucast (1 :: u32), Some (page_addr 0), s)"
    by (rule boot_alloc [of 1]) simp_all
  have at: "alloc_at 1 (mm_boot mm_zero) 0" by (rule mm_boot_alloc_at) simp_all
  from alloc_pages_walk [OF mm_boot_inv mm_boot_heap_tables at ok] obtain ks
    where ks: "length ks = 1" "\<forall>f \<in> set ks. 32768 \<le> f"
      "\<And>off. off < 4096 \<Longrightarrow> unat (get_phy_addr (page_addr 0 + of_nat off) s) = ks ! 0 * 4096" by auto
  have "32768 \<le> ks ! 0" using ks by simp
  with ks(3) [of "0xabc"] ok show ?thesis by (auto simp: page_addr_0)
qed

text \<open>C39: \<^verbatim>\<open>alloc_frame\<close> returns the lowest free frame and marks only it.  Its loop bound counts the
  frames of 512 MiB but limits a byte index, so the search goes on up to 4 GiB: once the 384 MiB
  that \<^verbatim>\<open>ram_setup\<close> cleared are used up, the frame at 512 MiB is handed out whenever its
  (uninitialised) bit happens to be 0.\<close>

theorem alloc_frame_past_ram:
  assumes "\<forall>k. 32768 \<le> k \<and> k < 131072 \<longrightarrow> frame_used s k" and "\<not> frame_used s 131072"
  shows "fst (alloc_frame s) = 0x20000000 \<and> frame_used (snd (alloc_frame s)) = (frame_used s)(131072 := True)"
proof -
  have f: "find_from (\<lambda>k. \<not> frame_used s k) 32768 1048576 = Some 131072"
    using assms by (simp add: find_from_Some)
  then have a: "alloc_frame s = (frame_addr 131072, snd (alloc_frame s))" by (simp add: alloc_frame_find)
  have "frame_addr 131072 \<noteq> 0" by (simp add: frame_addr_def)
  then have "frame_alloc s = Some (131072, snd (alloc_frame s))"
    by (subst (1) frame_alloc_def, subst a) (auto simp: unat_frame_addr)
  from frame.alloc_Some [OF TrueI this] a show ?thesis by (simp add: frame_addr_def) (metis fst_conv)
qed

theorem alloc_frame_past_ram_witness:
  "fst (alloc_frame (mm_zero\<lparr>RAM_BITMAP := \<lambda>i. if i < 16384 then 0xff else 0\<rparr>)) = 0x20000000"
proof -
  have "bit (0xff :: u8) t" if "t < 8" for t
    using that bit_mask_iff [where 'a = u8, of 8 t] by (simp add: mask_eq_exp_minus_1 possible_bit_def)
  then show ?thesis
    using alloc_frame_past_ram [of "mm_zero\<lparr>RAM_BITMAP := \<lambda>i. if i < 16384 then 0xff else 0\<rparr>"]
    by (auto simp: bmp_bit_def div_less_iff_less_mult)
qed

end
