(* ===== verification/Device.thy ===== *)
theory Device
  imports Kheap
begin

text \<open>
  The device mapping window of \<^verbatim>\<open>kernel/mm.c\<close>: what \<^verbatim>\<open>mm_mp\<close> maps is what the page walk
  \<^verbatim>\<open>get_phy_addr\<close> finds, earlier mappings stay, and the window of 512 page tables is never
  overrun.
\<close>

lemma ceil_div_le:
  assumes "0 < d"
  shows "ceil_div n d \<le> m \<longleftrightarrow> n \<le> m * d"
proof -
  define q r where "q = n div d" and "r = n mod d"
  then have n: "n = q * d + r" and r: "r < d" using assms by simp_all
  have c: "ceil_div n d = (if r \<noteq> 0 then q + 1 else q)" by (simp add: ceil_div_def q_def r_def Let_def)
  show ?thesis
  proof (cases "q < m")
    case True
    then have "(q + 1) * d \<le> m * d" by (intro mult_le_mono1) simp
    with r have "n \<le> m * d" by (simp add: n)
    with True show ?thesis by (simp add: c)
  next
    case False
    then have "m * d \<le> q * d" by simp
    moreover have "q * d \<le> m * d \<longleftrightarrow> q \<le> m" using assms by simp
    ultimately have "n \<le> m * d \<longleftrightarrow> r = 0 \<and> q \<le> m" unfolding n by linarith
    with False show ?thesis by (auto simp: c)
  qed
qed

lemma mm_mp_ptes_other: "(\<forall>j<n. a \<noteq> p + 8 * j) \<Longrightarrow> mm_mp_ptes n user p addr m a = m a"
proof (induction n arbitrary: p addr m)
  case (Suc n)
  then have "a \<noteq> p" "\<forall>j<n. a \<noteq> p + 8 + 8 * j" by (auto dest: spec [of _ "Suc _"] spec [of _ 0])
  with Suc.IH show ?case by simp
qed simp

lemma mm_mp_pdes_other: "(\<forall>j<n. a \<noteq> p + 8 * j) \<Longrightarrow> mm_mp_pdes n user p addr m a = m a"
proof (induction n arbitrary: p addr m)
  case (Suc n)
  then have "a \<noteq> p" "\<forall>j<n. a \<noteq> p + 8 + 8 * j" by (auto dest: spec [of _ "Suc _"] spec [of _ 0])
  with Suc.IH show ?case by simp
qed simp

lemma mm_mp_ptes_at:
  "j < n \<Longrightarrow> frames (mm_mp_ptes n user p addr m (p + 8 * j)) =
     ucast (drop_bit 12 (addr + of_nat j * 0x1000) AND 0xffffffffffff)"
proof (induction n arbitrary: p addr m j)
  case (Suc n)
  show ?case
  proof (cases j)
    case 0
    then show ?thesis by (simp add: mm_mp_ptes_other Let_def)
  next
    case (Suc i)
    then show ?thesis using Suc.IH [of i "p + 8" "addr + 0x1000"] Suc.prems
      by (simp add: algebra_simps)
  qed
qed simp

lemma mm_mp_pdes_at:
  "j < n \<Longrightarrow> phy_addr_pt (mm_mp_pdes n user p addr m (p + 8 * j)) =
     ucast (drop_bit 12 (addr + of_nat j * 0x1000) AND 0xffffffffffff)"
proof (induction n arbitrary: p addr m j)
  case (Suc n)
  show ?case
  proof (cases j)
    case 0
    then show ?thesis by (simp add: mm_mp_pdes_other Let_def)
  next
    case (Suc i)
    then show ?thesis using Suc.IH [of i "p + 8" "addr + 0x1000"] Suc.prems
      by (simp add: algebra_simps)
  qed
qed simp

text \<open>The directory entries below \<^verbatim>\<open>g_mm_mp_index\<close> point to consecutive page tables.\<close>

definition device_inv :: "'a mm_state_scheme \<Rightarrow> bool" where
  "device_inv s \<longleftrightarrow> device_pde s = 0x180000 \<and> phy_addr_pd (pdpte s 3) = 0x180 \<and>
     unat (g_mm_mp_index s) \<le> 512 \<and>
     (\<forall>d<unat (g_mm_mp_index s). unat (phy_addr_pt (pde_mem s (0x180000 + 8 * d))) = 0x181 + d)"

lemma device_inv_init: "device_inv (initialize_mm_mp s)"
  by (simp add: device_inv_def initialize_mm_mp_def)

lemma device_inv_boot: "device_inv (mm_boot s)"
  by (simp add: device_inv_def mm_boot_def initialize_mm_mp_def ram_setup_def alloc_pages_setup_def Let_def)

abbreviation tables_of :: "u32 \<Rightarrow> nat" where "tables_of sz \<equiv> ceil_div (ceil_div (unat sz) 4096) 512"

lemma mm_mp_guard:
  assumes "unat (g :: u64) \<le> 512" and "\<not> sz > (0x40000000 - ucast g * 0x200000 :: u32)" and "\<not> sz > 0x40000000"
  shows "unat g + tables_of sz \<le> 512" and "unat (ucast g :: u32) = unat g"
proof -
  show g: "unat (ucast g :: u32) = unat g" using assms(1) by (intro unat_ucast_small) simp
  have p: "unat (ucast g * 0x200000 :: u32) = unat g * 0x200000"
    using assms(1) g by (subst unat_mult_lem [THEN iffD1]) simp_all
  have "ucast g * 0x200000 \<le> (0x40000000 :: u32)" using assms(1) p by (simp add: word_le_nat_alt)
  then have "unat (0x40000000 - ucast g * 0x200000 :: u32) = 0x40000000 - unat g * 0x200000"
    by (simp add: unat_sub p)
  with assms(2) have "unat sz \<le> (512 - unat g) * 512 * 4096"
    by (simp add: word_less_nat_alt diff_mult_distrib)
  then have "tables_of sz \<le> 512 - unat g" by (simp add: ceil_div_le)
  with assms(1) show "unat g + tables_of sz \<le> 512" by simp
qed

lemma mm_mp_ok:
  assumes inv: "device_inv s" and ok: "mm_mp phy sz flag s = (0, va, s')"
  defines "g \<equiv> unat (g_mm_mp_index s)" and "user \<equiv> flag AND 1 \<noteq> 0"
  shows "g + tables_of sz \<le> 512"
    and "pte_mem s' = mm_mp_ptes (ceil_div (unat sz) 4096) user (0x181000 + 4096 * g) phy
           (fill_entries (0x181000 + 4096 * g) (512 * tables_of sz) pte_zero (pte_mem s))"
    and "pde_mem s' = mm_mp_pdes (tables_of sz) user (0x180000 + 8 * g) (of_nat (0x181000 + 4096 * g)) (pde_mem s)"
    and "pdpte s' = pdpte s" and "device_pde s' = device_pde s"
    and "unat (g_mm_mp_index s') = g + tables_of sz"
    and "va = ucast (0xC0000000 + ucast (g_mm_mp_index s) * 0x200000 :: u32)"
proof -
  have g: "g \<le> 512" and d: "device_pde s = 0x180000" using inv by (simp_all add: device_inv_def g_def)
  have guards: "\<not> sz > (0x40000000 - ucast (g_mm_mp_index s) * 0x200000 :: u32)" "\<not> sz > 0x40000000"
    using ok by (auto simp: mm_mp_def Let_def split: if_splits)
  note gd = mm_mp_guard [OF g [unfolded g_def] guards]
  have pte: "0x181000 + 0x1000 * g_mm_mp_index s = of_nat (0x181000 + 4096 * g)"
    by (simp add: g_def)
  have upte: "unat (0x181000 + 0x1000 * g_mm_mp_index s) = 0x181000 + 4096 * g"
    unfolding pte using g by (intro unat_of_nat_small) simp
  show "g + tables_of sz \<le> 512" using gd(1) by (simp add: g_def)
  show "pte_mem s' = mm_mp_ptes (ceil_div (unat sz) 4096) user (0x181000 + 4096 * g) phy
           (fill_entries (0x181000 + 4096 * g) (512 * tables_of sz) pte_zero (pte_mem s))"
    using ok guards upte by (auto simp: mm_mp_def Let_def user_def)
  show "pde_mem s' = mm_mp_pdes (tables_of sz) user (0x180000 + 8 * g) (of_nat (0x181000 + 4096 * g)) (pde_mem s)"
  proof -
    have "pde_mem s' = mm_mp_pdes (tables_of sz) user (device_pde s + 8 * unat (ucast (g_mm_mp_index s) :: u32))
        (0x181000 + 0x1000 * g_mm_mp_index s) (pde_mem s)"
      using ok guards by (auto simp: mm_mp_def Let_def user_def)
    then show ?thesis unfolding gd(2) d pte g_def .
  qed
  show "pdpte s' = pdpte s" and "device_pde s' = device_pde s"
    and "va = ucast (0xC0000000 + ucast (g_mm_mp_index s) * 0x200000 :: u32)"
    using ok guards by (auto simp: mm_mp_def Let_def)
  have "g_mm_mp_index s' = g_mm_mp_index s + of_nat (tables_of sz)"
    using ok guards by (auto simp: mm_mp_def Let_def)
  then have "g_mm_mp_index s' = of_nat (g + tables_of sz)" by (simp add: g_def)
  then show "unat (g_mm_mp_index s') = g + tables_of sz"
    using gd(1) by (simp only:) (rule unat_of_nat_small, simp add: g_def)
qed

lemma table_entry:
  assumes "g \<le> 512"
  shows "unat (ucast (drop_bit 12 (of_nat (0x181000 + 4096 * g) :: u64) AND 0xffffffffffff) :: 40 word) = 0x181 + g"
proof -
  have u: "unat (of_nat (0x181000 + 4096 * g) :: u64) = 0x181000 + 4096 * g"
    using assms by (intro unat_of_nat_small) simp
  have "(0x181000 + 4096 * g) div 4096 = 0x181 + g" by simp
  then show ?thesis using assms by (subst entry_field) (simp_all only: u, simp)
qed

lemma mm_mp_inv:
  assumes inv: "device_inv s" and ok: "mm_mp phy sz flag s = (st, va, s')"
  shows "device_inv s'"
proof (cases "st = 0")
  case False
  then show ?thesis using ok inv by (auto simp: mm_mp_def Let_def split: if_splits)
next
  case True
  note m = mm_mp_ok [OF inv ok [unfolded True]]
  let ?g = "unat (g_mm_mp_index s)"
  have "unat (phy_addr_pt (pde_mem s' (0x180000 + 8 * d))) = 0x181 + d" if d: "d < ?g + tables_of sz" for d
  proof (cases "d < ?g")
    case True
    then have "pde_mem s' (0x180000 + 8 * d) = pde_mem s (0x180000 + 8 * d)"
      unfolding m(3) by (intro mm_mp_pdes_other) auto
    with True inv show ?thesis by (simp add: device_inv_def)
  next
    case False
    define j where "j = d - ?g"
    with False d have j: "j < tables_of sz" "d = ?g + j" by auto
    have a: "0x180000 + 8 * d = (0x180000 + 8 * ?g) + 8 * j" by (simp add: j(2))
    have "of_nat (0x181000 + 4096 * ?g) + of_nat j * 0x1000 = (of_nat (0x181000 + 4096 * d) :: u64)"
      by (simp add: j(2) algebra_simps)
    moreover have "d \<le> 512" using d m(1) by simp
    ultimately show ?thesis unfolding m(3) a mm_mp_pdes_at [OF j(1)] by (simp only: table_entry)
  qed
  with inv m show ?thesis by (simp add: device_inv_def)
qed

lemma unat_device_addr:
  assumes "unat (g :: u64) < 512" and "x < 0x40000000 - unat g * 0x200000"
  shows "unat (ucast (0xC0000000 + ucast g * 0x200000 :: u32) + of_nat x :: u64) = 0xC0000000 + unat g * 0x200000 + x"
proof -
  have u: "unat (ucast g :: u32) = unat g" using assms(1) by (intro unat_ucast_small) simp
  then have "0xC0000000 + ucast g * 0x200000 = (of_nat (0xC0000000 + unat g * 0x200000) :: u32)"
    by (simp flip: u)
  moreover have "ucast (of_nat (0xC0000000 + unat g * 0x200000) :: u32) = (of_nat (0xC0000000 + unat g * 0x200000) :: u64)"
    using assms(1) by (intro ucast_of_nat_small) simp
  ultimately have "ucast (0xC0000000 + ucast g * 0x200000 :: u32) + of_nat x = (of_nat (0xC0000000 + unat g * 0x200000 + x) :: u64)"
    by simp
  then show ?thesis using assms by (simp only:) (rule unat_of_nat_small, simp)
qed

lemma device_walk_indices:
  assumes "k < HEAP_PAGES" and "off < 4096"
  shows "(0xC0000000 + k * 4096 + off) div 2 ^ 30 mod 512 = 3"
    and "(0xC0000000 + k * 4096 + off) div 2 ^ 21 mod 512 = k div 512"
    and "(0xC0000000 + k * 4096 + off) div 2 ^ 12 mod 512 = k mod 512"
proof -
  have q: "(0xC0000000 + k * 4096 + off) div 2 ^ 12 = 3 * 262144 + k" using assms(2) by simp
  have split: "x div 2 ^ 21 = x div 2 ^ 12 div 512" "x div 2 ^ 30 = x div 2 ^ 12 div 262144" for x :: nat
    by (simp_all add: div_mult2_eq [symmetric])
  show "(0xC0000000 + k * 4096 + off) div 2 ^ 30 mod 512 = 3"
    unfolding split q using assms(1) by simp
  have "(3 * 262144 + k) div 512 = 512 * 3 + k div 512" by simp
  then show "(0xC0000000 + k * 4096 + off) div 2 ^ 21 mod 512 = k div 512"
    unfolding split q using assms(1) mod_mult_self3 [of 3 512 "k div 512"] by (simp add: div_less_iff_less_mult)
  show "(0xC0000000 + k * 4096 + off) div 2 ^ 12 mod 512 = k mod 512"
    unfolding q using mod_mult_self3 [of 1536 512 k] by simp
qed

text \<open>The walk in the device window: page \<open>k\<close> of the window is entry \<open>k\<close> of the contiguous
  tables.\<close>

lemma get_phy_addr_device:
  assumes inv: "device_inv s" and k: "k div 512 < unat (g_mm_mp_index s)" and off: "off < 4096"
    and v: "unat v = 0xC0000000 + k * 4096 + off"
  shows "get_phy_addr v s = ucast (push_bit 12 (frames (pte_mem s (0x181000 + 8 * k)))) AND 0xffffffffffff"
proof -
  have "k div 512 < 512" using inv k by (simp add: device_inv_def)
  then have k': "k < 262144" by (simp add: div_less_iff_less_mult)
  note i = device_walk_indices [OF k' off, folded v]
  have "get_phy_addr v s =
      ucast (push_bit 12 (frames (pte_mem s ((0x181 + k div 512) * 4096 + 8 * (k mod 512))))) AND 0xffffffffffff"
    unfolding i(3) [symmetric]
  proof (rule get_phy_addr_walk [where d = "0x180"])
    show "unat (phy_addr_pd (pdpte s (unat v div 2 ^ 30 mod 512))) = 0x180"
      unfolding i(1) using inv by (simp add: device_inv_def)
    show "unat (phy_addr_pt (pde_mem s (0x180 * 4096 + 8 * (unat v div 2 ^ 21 mod 512)))) = 0x181 + k div 512"
      unfolding i(2) using inv k by (simp add: device_inv_def)
  qed (use \<open>k div 512 < 512\<close> in simp_all)
  moreover have "(0x181 + k div 512) * 4096 + 8 * (k mod 512) = 0x181000 + 8 * k"
  proof -
    define q r where "q = k div 512" and "r = k mod 512"
    then have "k = q * 512 + r" by (simp only: div_mult_mod_eq)
    then show ?thesis unfolding q_def [symmetric] r_def [symmetric] by simp
  qed
  ultimately show ?thesis by (simp only:)
qed

lemma mm_mp_maps:
  assumes inv: "device_inv s" and ok: "mm_mp phy sz flag s = (0, va, s')"
    and j: "j * 4096 < unat sz" and off: "off < 4096" and phy: "unat phy + unat sz \<le> 2 ^ 40"
  shows "unat (get_phy_addr (va + of_nat (j * 4096 + off)) s') = (unat phy div 4096 + j) * 4096"
proof -
  let ?g = "unat (g_mm_mp_index s)"
  note m = mm_mp_ok [OF inv ok]
  note inv' = mm_mp_inv [OF inv ok]
  have cd: "j < ceil_div (unat sz) 4096"
    using j ceil_div_le [of 4096 "unat sz" j] by linarith
  have jt: "j div 512 < tables_of sz"
  proof (rule ccontr)
    assume "\<not> ?thesis"
    then have "ceil_div (unat sz) 4096 \<le> j div 512 * 512" by (simp add: ceil_div_le [symmetric])
    also have "\<dots> \<le> j" by (rule div_times_less_eq_dividend)
    finally show False using cd by simp
  qed
  have "j < tables_of sz * 512" using jt by (simp add: div_less_iff_less_mult)
  then have "j * 4096 + off < 0x40000000 - ?g * 0x200000"
    using m(1) off by (simp only: less_diff_conv)
  note fit = this
  have g512: "?g < 512" using jt m(1) by linarith
  have v: "unat (va + of_nat (j * 4096 + off)) = 0xC0000000 + (?g * 512 + j) * 4096 + off"
    unfolding m(7) unat_device_addr [OF g512 fit] by simp
  have k: "(?g * 512 + j) div 512 < unat (g_mm_mp_index s')" using jt by (simp add: m(6))
  have "0x181000 + 8 * (?g * 512 + j) = (0x181000 + 4096 * ?g) + 8 * j" by simp
  then have f: "frames (pte_mem s' (0x181000 + 8 * (?g * 512 + j))) =
      ucast (drop_bit 12 (phy + of_nat j * 0x1000) AND 0xffffffffffff)"
    unfolding m(2) by (simp only: mm_mp_ptes_at [OF cd])
  have u: "unat (phy + of_nat j * 0x1000) = unat phy + j * 4096"
  proof -
    have "phy + of_nat j * 0x1000 = of_nat (unat phy + j * 4096)" by simp
    then show ?thesis using phy j by (simp only:) (rule unat_of_nat_small, simp)
  qed
  have e: "unat (frames (pte_mem s' (0x181000 + 8 * (?g * 512 + j)))) = unat phy div 4096 + j"
    unfolding f using phy j u by (subst entry_field) simp_all
  have "unat phy div 4096 + j < 2 ^ 28"
  proof -
    have "unat phy + j * 4096 < 2 ^ 40" using phy j by simp
    then show ?thesis by simp
  qed
  then show ?thesis
    unfolding get_phy_addr_device [OF inv' k off v] using entry_addr e by simp
qed

lemma mm_mp_keeps:
  assumes inv: "device_inv s" and ok: "mm_mp phy sz flag s = (0, va, s')"
    and k: "k < 512 * unat (g_mm_mp_index s)" and off: "off < 4096"
  shows "get_phy_addr (of_nat (0xC0000000 + k * 4096 + off)) s' = get_phy_addr (of_nat (0xC0000000 + k * 4096 + off)) s"
proof -
  let ?g = "unat (g_mm_mp_index s)"
  note m = mm_mp_ok [OF inv ok]
  have kg: "k div 512 < ?g" using k by (simp add: div_less_iff_less_mult mult.commute)
  have "k < 262144" using k m(1) by simp
  then have v: "unat (of_nat (0xC0000000 + k * 4096 + off) :: u64) = 0xC0000000 + k * 4096 + off"
    using off by (intro unat_of_nat_small) simp
  have kg': "k div 512 < unat (g_mm_mp_index s')" using kg by (simp add: m(6))
  have "pte_mem s' (0x181000 + 8 * k) = pte_mem s (0x181000 + 8 * k)"
    unfolding m(2) using k by (subst mm_mp_ptes_other) (auto simp: fill_entries_def)
  then show ?thesis
    by (simp only: get_phy_addr_device [OF inv kg off v] get_phy_addr_device [OF mm_mp_inv [OF inv ok] kg' off v])
qed

section \<open>Properties of the device window\<close>

text \<open>C16: a successful \<^verbatim>\<open>mm_mp\<close> keeps the device window consistent and within its 512 page tables,
  and the page walk takes every address of the returned range to the physical page it was asked to
  map (for physical ranges below 1 TiB, the reach of a 40-bit entry shifted in its own width).\<close>

theorem mm_mp_correct:
  assumes "device_inv s" and "mm_mp phy sz flag s = (0, va, s')" and "unat phy + unat sz \<le> 2 ^ 40"
  shows "device_inv s' \<and> (\<forall>j off. j * 4096 < unat sz \<longrightarrow> off < 4096 \<longrightarrow>
    unat (get_phy_addr (va + of_nat (j * 4096 + off)) s') = (unat phy div 4096 + j) * 4096)"
  using mm_mp_inv [OF assms(1,2)] mm_mp_maps [OF assms(1,2) _ _ assms(3)] by blast

theorem mm_mp_correct_witness:
  "unat (get_phy_addr 0xC0001010 (snd (snd (mm_mp 0xFEC00000 0x3000 0 (mm_boot mm_zero))))) = 0xFEC01000"
proof -
  have g: "g_mm_mp_index (mm_boot mm_zero) = 0"
    by (simp add: mm_boot_def initialize_mm_mp_def ram_setup_def alloc_pages_setup_def Let_def)
  obtain s' where ok: "mm_mp 0xFEC00000 0x3000 0 (mm_boot mm_zero) = (0, 0xC0000000, s')"
    by (auto simp: mm_mp_def Let_def g)
  from mm_mp_correct [OF device_inv_boot ok] have "\<forall>j off. j * 4096 < 0x3000 \<longrightarrow> off < 4096 \<longrightarrow>
      unat (get_phy_addr (0xC0000000 + of_nat (j * 4096 + off)) s') = (0xFEC00 + j) * 4096" by simp
  from this [rule_format, of 1 "0x10"] ok show ?thesis by simp
qed

text \<open>\<^verbatim>\<open>mm_mp\<close> leaves every earlier mapping of the window as it was.\<close>

lemma mm_mp_preserves:
  assumes "device_inv s" and "mm_mp phy sz flag s = (st, va, s')"
    and "k < 512 * unat (g_mm_mp_index s)" and "off < 4096"
  shows "get_phy_addr (of_nat (0xC0000000 + k * 4096 + off)) s' =
    get_phy_addr (of_nat (0xC0000000 + k * 4096 + off)) s"
proof (cases "st = 0")
  case True
  with assms mm_mp_keeps show ?thesis by blast
next
  case False
  with assms(2) show ?thesis by (auto simp: mm_mp_def Let_def split: if_splits)
qed

end
