(* ===== verification/Kmalloc.thy ===== *)
theory Kmalloc
  imports Kheap
begin

text \<open>
  The kernel's \<^verbatim>\<open>malloc\<close> and \<^verbatim>\<open>free\<close> (\<^verbatim>\<open>kernel/lib/stdlib.c\<close>), thin layers over
  \<^verbatim>\<open>alloc_pages\<close> and \<^verbatim>\<open>free_pages\<close>, and the contract \<open>heap\<close> that the clients of the allocator (threads,
  sockets) rely on: a new block is not among the live ones, and releasing a live block removes
  exactly it.
\<close>

text \<open>\<^verbatim>\<open>malloc(0)\<close> leaves the local \<^verbatim>\<open>addr\<close> uninitialised: the pointer is \<open>None\<close>.  The outer \<open>None\<close>
  stands for the spinning of an exhausted \<^verbatim>\<open>alloc_pages\<close>.\<close>

definition malloc :: "u32 \<Rightarrow> 'a mm_state_scheme \<Rightarrow> (u64 option \<times> 'a mm_state_scheme) option" where
  "malloc sz s =
    (let len = sz div 0x1000; len = (if sz mod 0x1000 \<noteq> 0 then len + 1 else len)
     in case alloc_pages 1 len s of None \<Rightarrow> None | Some (_, addr, s) \<Rightarrow> Some (addr, s))"

definition free :: "u64 \<Rightarrow> 'a mm_state_scheme \<Rightarrow> 'a mm_state_scheme option" where
  "free ptr s = free_pages ptr s"

section \<open>The contract of the heap\<close>

locale heap =
  fixes inv :: "'s \<Rightarrow> bool"
    and live :: "'s \<Rightarrow> u64 set"
    and room :: "u32 \<Rightarrow> 's \<Rightarrow> bool"
    and new :: "u32 \<Rightarrow> 's \<Rightarrow> (u64 option \<times> 's) option"
    and dispose :: "u64 \<Rightarrow> 's \<Rightarrow> 's option"
  assumes new_fresh: "inv s \<Longrightarrow> room sz s \<Longrightarrow> new sz s = Some (p, s') \<Longrightarrow>
      \<exists>a. p = Some a \<and> a \<noteq> 0 \<and> a \<notin> live s \<and> live s' = insert a (live s) \<and> inv s'"
    and dispose_live: "inv s \<Longrightarrow> a \<in> live s \<Longrightarrow> \<exists>s'. dispose a s = Some s' \<and> live s' = live s - {a} \<and> inv s'"
begin

lemma new_dispose:
  assumes "inv s" and "room sz s" and "new sz s = Some (Some a, s')"
  shows "\<exists>s''. dispose a s' = Some s'' \<and> live s'' = live s \<and> inv s''"
  using new_fresh [OF assms] dispose_live [of s' a] by fastforce

text \<open>Blocks allocated one after the other are different, also when others are released in between.\<close>

lemma new_twice:
  assumes "inv s" and "room sz s" and "new sz s = Some (Some a, s1)"
    and "room sz' s1" and "new sz' s1 = Some (Some b, s2)"
  shows "a \<noteq> b \<and> live s2 = {a, b} \<union> live s \<and> inv s2 \<and> b \<notin> live s"
  using new_fresh [OF assms(1,2,3)] new_fresh [OF _ assms(4,5)] by auto

lemma dispose_keeps:
  assumes "inv s" and "a \<in> live s" and "b \<in> live s" and "a \<noteq> b" and "dispose a s = Some s'"
  shows "b \<in> live s' \<and> a \<notin> live s'"
  using dispose_live [OF assms(1,2)] assms by auto

end

section \<open>The kernel heap meets the contract\<close>

definition live_blocks :: "'a mm_state_scheme \<Rightarrow> u64 set" where
  "live_blocks s = page_addr ` {k. k < HEAP_PAGES \<and> page_of (PAGE_BITMAP s) k = First}"

definition pages_of :: "u32 \<Rightarrow> u32" where
  "pages_of sz = (let len = sz div 0x1000 in if sz mod 0x1000 \<noteq> 0 then len + 1 else len)"

definition has_room :: "u32 \<Rightarrow> 'a mm_state_scheme \<Rightarrow> bool" where
  "has_room sz s \<longleftrightarrow> (\<exists>k. alloc_at (pages_of sz) s k)"

lemma malloc_alloc: "malloc sz s = (case alloc_pages 1 (pages_of sz) s of None \<Rightarrow> None | Some (_, addr, s) \<Rightarrow> Some (addr, s))"
  by (simp add: malloc_def pages_of_def Let_def)

lemma page_addr_inj:
  assumes "j < HEAP_PAGES" and "k < HEAP_PAGES"
  shows "page_addr j = page_addr k \<longleftrightarrow> j = k"
proof
  assume eq: "page_addr j = page_addr k"
  have "unat (ucast ((page_addr j - ALLOC_PAGE_MEMORY) div 0x1000) :: u32) = j" by (rule page_addr_index(1)) (use assms in simp)
  moreover have "unat (ucast ((page_addr k - ALLOC_PAGE_MEMORY) div 0x1000) :: u32) = k" by (rule page_addr_index(1)) (use assms in simp)
  ultimately show "j = k" unfolding eq by (rule trans [OF sym])
qed simp

lemma live_blocks_iff: "k < HEAP_PAGES \<Longrightarrow> page_addr k \<in> live_blocks s \<longleftrightarrow> page_of (PAGE_BITMAP s) k = First"
  unfolding live_blocks_def by (auto simp: page_addr_inj simp del: page_of_iff)

lemma alloc_fresh:
  assumes inv: "mm_inv s" and at: "alloc_at len s k" and al: "alloc_pages type len s = Some (r, p, s')"
  shows "p = Some (page_addr k) \<and> page_addr k \<noteq> 0 \<and> page_addr k \<notin> live_blocks s \<and>
    live_blocks s' = insert (page_addr k) (live_blocks s) \<and> mm_inv s'"
proof -
  note run = alloc_at_free_run [OF inv at]
  have p: "p = Some (page_addr k)" and pb: "PAGE_BITMAP s' = mark_pages (PAGE_BITMAP s) k (unat len)"
    using alloc_pages_allocated [OF inv at al] by (auto simp: allocated_def)
  have k: "k < HEAP_PAGES" and n: "0 < unat len" "k + unat len \<le> HEAP_PAGES"
    using run by (auto simp: free_run_def)
  have free: "page_of (PAGE_BITMAP s) j = Free" if "k \<le> j" "j < k + unat len" for j
    using free_run_lo [OF run that] by simp
  have "{j. j < HEAP_PAGES \<and> page_of (PAGE_BITMAP s') j = First} =
      insert k {j. j < HEAP_PAGES \<and> page_of (PAGE_BITMAP s) j = First}"
    using k free unfolding pb mark_page_of [OF run] spec_mark_def
    by (auto simp del: page_of_iff)
  then have "live_blocks s' = insert (page_addr k) (live_blocks s)" by (simp add: live_blocks_def del: page_of_iff)
  moreover have "page_addr k \<notin> live_blocks s" using free [of k] k n by (simp add: live_blocks_iff del: page_of_iff)
  moreover have "page_addr k \<noteq> 0" using k by (intro page_addr_index(3)) simp
  ultimately show ?thesis using p alloc_pages_inv [OF inv at al] by blast
qed

lemma malloc_fresh:
  assumes inv: "mm_inv s" and room: "has_room sz s" and ok: "malloc sz s = Some (p, s')"
  shows "\<exists>a. p = Some a \<and> a \<noteq> 0 \<and> a \<notin> live_blocks s \<and> live_blocks s' = insert a (live_blocks s) \<and> mm_inv s'"
proof -
  from room obtain k where at: "alloc_at (pages_of sz) s k" by (auto simp: has_room_def)
  from ok obtain r where "alloc_pages 1 (pages_of sz) s = Some (r, p, s')"
    by (auto simp: malloc_alloc split: option.splits)
  from alloc_fresh [OF inv at this] show ?thesis by blast
qed

lemma free_live:
  assumes inv: "mm_inv s" and a: "a \<in> live_blocks s"
  shows "\<exists>s'. free a s = Some s' \<and> live_blocks s' = live_blocks s - {a} \<and> mm_inv s'"
proof -
  from a obtain k where k: "k < HEAP_PAGES" "page_of (PAGE_BITMAP s) k = First" and ak: "a = page_addr k"
    by (auto simp: live_blocks_def simp del: page_of_iff)
  have "wf_pages (PAGE_BITMAP s)" using inv by (simp add: mm_inv_def)
  from run_length_exists [OF this k] obtain n where run: "run_length (PAGE_BITMAP s) k n" ..
  obtain s' where free: "free_pages (page_addr k) s = Some s'" by (rule free_pages_done [OF inv run])
  note fi = free_pages_inv [OF inv run free]
  have pg: "page_of (PAGE_BITMAP s') j = (if k \<le> j \<and> j < k + n then Free else page_of (PAGE_BITMAP s) j)" for j
    unfolding fi(2) unmark_page_of [OF run] spec_free_def run_in_run [OF run] ..
  let ?F = "{j. j < HEAP_PAGES \<and> page_of (PAGE_BITMAP s) j = First}"
  have F: "{j. j < HEAP_PAGES \<and> page_of (PAGE_BITMAP s') j = First} = ?F - {k}"
    using run unfolding pg run_length_def by (auto simp del: page_of_iff)
  have "inj_on page_addr {j. j < HEAP_PAGES}" by (auto simp: inj_on_def page_addr_inj)
  then have "page_addr ` (?F - {k}) = page_addr ` ?F - page_addr ` {k}"
    by (rule inj_on_image_set_diff) (use k(1) in auto)
  then have "live_blocks s' = live_blocks s - {a}"
    unfolding live_blocks_def ak F by (simp only: image_insert image_empty)
  with free fi(1) show ?thesis by (auto simp: ak free_def)
qed

interpretation kheap: heap mm_inv live_blocks has_room malloc free
  by unfold_locales (rule malloc_fresh, assumption+, rule free_live)

end
