(* ===== verification/Kroom.thy ===== *)
theory Kroom
  imports Kmalloc
begin

text \<open>
  When the kernel heap has room.  \<open>tail_free K\<close>: every page from \<open>K\<close> on is free.  \<open>heap_room n\<close>: \<open>n\<close> more
  pages can be allocated, in any split, whatever is released in between; it is what the clients that
  allocate several blocks in one operation assume.
\<close>

section \<open>Room in the heap\<close>

definition tail_free :: "nat \<Rightarrow> 'a mm_state_scheme \<Rightarrow> bool" where
  "tail_free K s \<longleftrightarrow> (\<forall>j. K \<le> j \<longrightarrow> j < BITMAP_PAGES \<longrightarrow> page_of (PAGE_BITMAP s) j = Free)"

lemma tail_free_alloc_at:
  assumes "tail_free K s" and "len \<noteq> 0" and "K + unat len \<le> HEAP_PAGES"
  obtains k where "alloc_at len s k" "k \<le> K"
proof -
  have fit: "fits (PAGE_BITMAP s) (unat len) K"
    using assms by (auto simp: fits_def tail_free_def)
  have "find_from (fits (PAGE_BITMAP s) (unat len)) 0 BITMAP_PAGES \<noteq> None"
    using fit assms by (auto simp: find_from_None intro!: exI [of _ K])
  then obtain k where k: "find_from (fits (PAGE_BITMAP s) (unat len)) 0 BITMAP_PAGES = Some k" by blast
  then have "k \<le> K" using fit by (auto simp: find_from_Some intro: leI)
  with k assms that show ?thesis by (simp add: alloc_at_def)
qed

lemma allocated_free_frames:
  assumes "allocated user n k ks s s'"
  shows "card (free_frames s') = card (free_frames s) - n"
proof -
  from assms have ks: "length ks = n" "distinct ks" "set ks \<subseteq> free_frames s"
    and fu: "\<And>f. frame_used s' f \<longleftrightarrow> frame_used s f \<or> f \<in> set ks"
    by (auto simp: allocated_def free_frames_def)
  have "free_frames s' = free_frames s - set ks" by (auto simp: free_frames_def fu)
  moreover have "finite (set ks)" by simp
  ultimately show ?thesis using ks by (simp add: card_Diff_subset distinct_card)
qed

lemma alloc_tail:
  assumes inv: "mm_inv s" and tail: "tail_free K s" and n: "unat len = n" "0 < n" "L = K + n" "L \<le> HEAP_PAGES"
    and fr: "n \<le> card (free_frames s)" "c = card (free_frames s) - n"
  obtains k s' where "alloc_pages type len s = Some (ucast len, Some (page_addr k), s')" "alloc_at len s k"
    "mm_inv s'" "tail_free L s'" "card (free_frames s') = c"
proof -
  have nz: "len \<noteq> 0" using n(1,2) by auto
  obtain k where at: "alloc_at len s k" and k: "k \<le> K"
    by (rule tail_free_alloc_at [OF tail nz]) (use n in simp)
  obtain s' where al: "alloc_pages type len s = Some (ucast len, Some (page_addr k), s')"
    by (rule alloc_pages_succeeds [OF inv at]) (use fr n(1) in simp)
  obtain ks where ks: "allocated (type \<noteq> 0) n k ks s s'" using alloc_pages_allocated [OF inv at al] n(1) by auto
  have "page_of (PAGE_BITMAP s') = spec_mark k n (page_of (PAGE_BITMAP s))"
    using ks mark_page_of [OF alloc_at_free_run [OF inv at]] unfolding n(1) allocated_def by simp
  then have "tail_free L s'"
    using tail k n(2,3) by (auto simp: tail_free_def spec_mark_def simp del: page_of_iff)
  then show ?thesis
    using that al at alloc_pages_inv [OF inv at al] allocated_free_frames [OF ks] fr(2) by blast
qed

lemma malloc_tail:
  assumes "mm_inv s" and "tail_free K s" and "unat (pages_of sz) = n" "0 < n" "L = K + n" "L \<le> HEAP_PAGES"
    and "n \<le> card (free_frames s)" "c = card (free_frames s) - n"
  obtains a s' where "malloc sz s = Some (Some a, s')" "has_room sz s" "mm_inv s'" "tail_free L s'"
    "card (free_frames s') = c"
proof -
  obtain k s' where "alloc_pages 1 (pages_of sz) s = Some (ucast (pages_of sz), Some (page_addr k), s')"
    "alloc_at (pages_of sz) s k" "mm_inv s'" "tail_free L s'" "card (free_frames s') = c"
    by (rule alloc_tail [OF assms])
  then show ?thesis using that [of "page_addr k" s'] by (auto simp: malloc_alloc has_room_def)
qed

lemma mm_boot_tail: "tail_free 0 (mm_boot s)"
  unfolding tail_free_def using mm_boot_pages by blast

section \<open>Room for several blocks\<close>

definition heap_room :: "nat \<Rightarrow> 'a mm_state_scheme \<Rightarrow> bool" where
  "heap_room n s \<longleftrightarrow> mm_inv s \<and> (\<exists>K. tail_free K s \<and> K + n \<le> HEAP_PAGES) \<and> n \<le> card (free_frames s)"

lemma heap_room_mono: "heap_room n s \<Longrightarrow> k \<le> n \<Longrightarrow> heap_room k s"
  by (auto simp: heap_room_def intro: le_trans)

lemma heap_room_inv: "heap_room n s \<Longrightarrow> mm_inv s"
  by (simp add: heap_room_def)

lemma mm_boot_room: "heap_room 98304 (mm_boot s)"
  unfolding heap_room_def using mm_boot_inv mm_boot_tail [of s] mm_boot_free_frames [of s] by (auto intro!: exI [of _ 0])

lemma room_malloc:
  assumes "heap_room (n + k) s" and "unat (pages_of sz) = n" "0 < n"
  obtains a s' where "malloc sz s = Some (Some a, s')" "a \<noteq> 0" "a \<notin> live_blocks s" "live_blocks s' = insert a (live_blocks s)"
    "heap_room k s'"
proof -
  from assms(1) obtain K where K: "mm_inv s" "tail_free K s" "K + (n + k) \<le> HEAP_PAGES" "n + k \<le> card (free_frames s)"
    by (auto simp: heap_room_def)
  obtain a s' where a: "malloc sz s = Some (Some a, s')" "has_room sz s" "mm_inv s'" "tail_free (K + n) s'"
    "card (free_frames s') = card (free_frames s) - n"
    by (rule malloc_tail [OF K(1,2) assms(2,3) refl _ _ refl]) (use K in simp_all)
  moreover have "a \<noteq> 0 \<and> a \<notin> live_blocks s \<and> live_blocks s' = insert a (live_blocks s)"
    using malloc_fresh [OF K(1) a(2,1)] by simp
  moreover have "heap_room k s'" unfolding heap_room_def using a(3-5) K(3,4) by (auto intro!: exI [of _ "K + n"])
  ultimately show ?thesis using that by blast
qed

lemma live_blocks_card: "finite (live_blocks s)" "card (live_blocks s) \<le> HEAP_PAGES"
proof -
  let ?K = "{k. k < HEAP_PAGES \<and> page_of (PAGE_BITMAP s) k = First}"
  have K: "?K \<subseteq> {..<HEAP_PAGES}" by auto
  then have f: "finite ?K" by (rule finite_subset) simp
  then show "finite (live_blocks s)" by (simp add: live_blocks_def)
  have "card (live_blocks s) \<le> card ?K" unfolding live_blocks_def by (rule card_image_le [OF f])
  also have "\<dots> \<le> HEAP_PAGES" using card_mono [OF _ K] by simp
  finally show "card (live_blocks s) \<le> HEAP_PAGES" .
qed

lemma free_frames_finite: "finite (free_frames s)"
  by (rule finite_subset [of _ "{..<1048576}"]) (auto simp: free_frames_def)

lemma room_free:
  assumes "heap_room k s" and "a \<in> live_blocks s"
  obtains s' where "free a s = Some s'" "live_blocks s' = live_blocks s - {a}" "heap_room k s'"
proof -
  from assms(1) obtain K where K: "mm_inv s" "tail_free K s" "K + k \<le> HEAP_PAGES" "k \<le> card (free_frames s)"
    by (auto simp: heap_room_def)
  obtain s' where s': "free a s = Some s'" "live_blocks s' = live_blocks s - {a}" "mm_inv s'"
    using free_live [OF K(1) assms(2)] by blast
  from assms(2) obtain j where j: "j < HEAP_PAGES" "page_of (PAGE_BITMAP s) j = First" "a = page_addr j"
    by (auto simp: live_blocks_def simp del: page_of_iff)
  have "wf_pages (PAGE_BITMAP s)" using K(1) by (simp add: mm_inv_def)
  from run_length_exists [OF this j(1,2)] obtain n where run: "run_length (PAGE_BITMAP s) j n" ..
  have fp: "free_pages (page_addr j) s = Some s'" using s'(1) by (simp add: free_def j(3))
  note fi = free_pages_inv [OF K(1) run fp]
  have "page_of (PAGE_BITMAP s') i = (if j \<le> i \<and> i < j + n then Free else page_of (PAGE_BITMAP s) i)" for i
    unfolding fi(2) unmark_page_of [OF run] spec_free_def run_in_run [OF run] ..
  then have "tail_free K s'" using K(2) by (simp add: tail_free_def del: page_of_iff)
  moreover have "free_frames s \<subseteq> free_frames s'" by (auto simp: free_frames_def fi(3))
  then have "card (free_frames s) \<le> card (free_frames s')" by (rule card_mono [OF free_frames_finite])
  ultimately have "heap_room k s'" unfolding heap_room_def using s'(3) K by auto
  with s' that show ?thesis by blast
qed

lemma room_alloc_pages:
  assumes "heap_room (n + k) s" and "unat len = n" "0 < n"
  obtains a s' where "alloc_pages type len s = Some (ucast len, Some a, s')" "a \<noteq> 0" "a \<notin> live_blocks s"
    "live_blocks s' = insert a (live_blocks s)" "heap_room k s'"
proof -
  from assms(1) obtain K where K: "mm_inv s" "tail_free K s" "K + (n + k) \<le> HEAP_PAGES" "n + k \<le> card (free_frames s)"
    by (auto simp: heap_room_def)
  obtain i s' where a: "alloc_pages type len s = Some (ucast len, Some (page_addr i), s')" "alloc_at len s i" "mm_inv s'" "tail_free (K + n) s'"
    "card (free_frames s') = card (free_frames s) - n"
    by (rule alloc_tail [OF K(1,2) assms(2,3) refl _ _ refl]) (use K in simp_all)
  moreover have "page_addr i \<noteq> 0 \<and> page_addr i \<notin> live_blocks s \<and> live_blocks s' = insert (page_addr i) (live_blocks s)"
    using alloc_fresh [OF K(1) a(2,1)] by simp
  moreover have "heap_room k s'" unfolding heap_room_def using a(3-5) K(3,4) by (auto intro!: exI [of _ "K + n"])
  ultimately show ?thesis using that by blast
qed

end
