(* ===== verification/Links.thy ===== *)
theory Links
  imports Prelude
begin

text \<open>
  Singly linked lists of heap nodes.  The thread queue and the socket queue are null-terminated lists
  walked by \<^verbatim>\<open>while (tmp)\<close> and \<^verbatim>\<open>while (tmp->next)\<close> loops.  \<open>find_node\<close> and \<open>last_node\<close> are those loops;
  a walk that follows a dangling pointer or goes round for ever has no result.  \<open>chain\<close> relates a head
  pointer to the list of nodes, and the locale \<open>linked\<close> holds what the queues need: the walks compute
  the obvious list functions and appending, updating and unlinking nodes act as on lists.
\<close>

partial_function (option) find_node :: "('n \<Rightarrow> u64) \<Rightarrow> ('n \<Rightarrow> bool) \<Rightarrow> (u64 \<rightharpoonup> 'n) \<Rightarrow> u64 \<Rightarrow> u64 option" where
  "find_node nx P h p =
     (if p = 0 then Some 0
      else case h p of None \<Rightarrow> None | Some n \<Rightarrow> if P n then Some p else find_node nx P h (nx n))"

partial_function (option) last_node :: "('n \<Rightarrow> u64) \<Rightarrow> (u64 \<rightharpoonup> 'n) \<Rightarrow> u64 \<Rightarrow> u64 option" where
  "last_node nx h p =
     (case h p of None \<Rightarrow> None | Some n \<Rightarrow> if nx n = 0 then Some p else last_node nx h (nx n))"

fun chain :: "('n \<Rightarrow> u64) \<Rightarrow> (u64 \<rightharpoonup> 'n) \<Rightarrow> u64 \<Rightarrow> u64 list \<Rightarrow> bool" where
  "chain nx h p [] \<longleftrightarrow> p = 0"
| "chain nx h p (a # as) \<longleftrightarrow> p = a \<and> a \<noteq> 0 \<and> (\<exists>n. h a = Some n \<and> chain nx h (nx n) as)"

text \<open>A segment of a list, up to the pointer \<open>q\<close>.\<close>

fun seg :: "('n \<Rightarrow> u64) \<Rightarrow> (u64 \<rightharpoonup> 'n) \<Rightarrow> u64 \<Rightarrow> u64 list \<Rightarrow> u64 \<Rightarrow> bool" where
  "seg nx h p [] q \<longleftrightarrow> p = q"
| "seg nx h p (a # as) q \<longleftrightarrow> p = a \<and> a \<noteq> 0 \<and> (\<exists>n. h a = Some n \<and> seg nx h (nx n) as q)"

lemma chain_seg: "chain nx h p as \<longleftrightarrow> seg nx h p as 0"
  by (induction as arbitrary: p) auto

lemma seg_append: "seg nx h p (as @ bs) q \<longleftrightarrow> (\<exists>r. seg nx h p as r \<and> seg nx h r bs q)"
  by (induction as arbitrary: p) auto

lemma chain_append: "chain nx h p (as @ bs) \<longleftrightarrow> (\<exists>r. seg nx h p as r \<and> chain nx h r bs)"
  by (simp add: chain_seg seg_append)

lemma seg_cong: "(\<And>a. a \<in> set as \<Longrightarrow> map_option nx (h a) = map_option nx (h' a)) \<Longrightarrow> seg nx h p as q = seg nx h' p as q"
proof (induction as arbitrary: p)
  case (Cons a as)
  have "map_option nx (h a) = map_option nx (h' a)" by (rule Cons.prems) simp
  moreover have "seg nx h p as q = seg nx h' p as q" for p by (rule Cons.IH) (simp add: Cons.prems)
  ultimately show ?case by (cases "h a"; cases "h' a") auto
qed simp

lemma chain_cong: "(\<And>a. a \<in> set as \<Longrightarrow> map_option nx (h a) = map_option nx (h' a)) \<Longrightarrow> chain nx h p as = chain nx h' p as"
  unfolding chain_seg by (rule seg_cong)

lemma chain_unique: "chain nx h p as \<Longrightarrow> chain nx h p bs \<Longrightarrow> as = bs"
proof (induction as arbitrary: p bs)
  case Nil
  then show ?case by (cases bs) auto
next
  case (Cons a as)
  then show ?case by (cases bs) auto
qed

lemma chain_nodes: "chain nx h p as \<Longrightarrow> a \<in> set as \<Longrightarrow> a \<noteq> 0 \<and> (\<exists>n. h a = Some n)"
  by (induction as arbitrary: p) auto

lemma chain_Nil_iff: "chain nx h p as \<Longrightarrow> as = [] \<longleftrightarrow> p = 0"
  by (cases as) auto

text \<open>A null-terminated list cannot meet a node twice.\<close>

lemma chain_distinct: "chain nx h p as \<Longrightarrow> distinct as"
proof (induction as arbitrary: p)
  case (Cons a as)
  from Cons.prems obtain n where n: "h a = Some n" "chain nx h (nx n) as" "p = a" "a \<noteq> 0" by auto
  have "a \<notin> set as"
  proof
    assume "a \<in> set as"
    then obtain us vs where "as = us @ a # vs" by (auto simp: in_set_conv_decomp)
    with n(2) have "chain nx h a (a # vs)" by (auto simp: chain_append)
    moreover have "chain nx h a (a # as)" using n by auto
    ultimately have "a # vs = a # as" by (rule chain_unique)
    with \<open>as = us @ a # vs\<close> show False by (metis append_Cons length_append length_Cons list.inject not_add_less2 less_Suc_eq)
  qed
  with Cons.IH [OF n(2)] show ?case by simp
qed simp

section \<open>Walks\<close>

lemma find_node_chain:
  "chain nx h p as \<Longrightarrow> find_node nx P h p =
     Some (case find (\<lambda>a. P (the (h a))) as of None \<Rightarrow> 0 | Some a \<Rightarrow> a)"
proof (induction as arbitrary: p)
  case Nil
  then show ?case by (simp add: find_node.simps)
next
  case (Cons a as)
  then obtain n where n: "h a = Some n" "chain nx h (nx n) as" "p = a" "a \<noteq> 0" by auto
  with Cons.IH [OF n(2)] show ?case by (simp add: find_node.simps [of nx P h a])
qed

lemma last_node_chain: "chain nx h p as \<Longrightarrow> as \<noteq> [] \<Longrightarrow> last_node nx h p = Some (last as)"
proof (induction as arbitrary: p)
  case (Cons a as)
  then obtain n where n: "h a = Some n" "chain nx h (nx n) as" "p = a" by auto
  show ?case
  proof (cases as)
    case Nil
    with n show ?thesis by (simp add: last_node.simps [of nx h a])
  next
    case (Cons b bs)
    with n have "nx n = b" "b \<noteq> 0" by auto
    with Cons.IH [OF n(2)] n Cons show ?thesis by (simp add: last_node.simps [of nx h a])
  qed
qed simp

lemma chain_last: "chain nx h p as \<Longrightarrow> as \<noteq> [] \<Longrightarrow> \<exists>n. h (last as) = Some n \<and> nx n = 0"
proof (induction as arbitrary: p)
  case (Cons a as)
  then show ?case by (cases as) auto
qed simp

section \<open>Updates\<close>

locale linked =
  fixes get_next :: "'n \<Rightarrow> u64" and set_next :: "u64 \<Rightarrow> 'n \<Rightarrow> 'n"
  assumes get_set: "get_next (set_next q n) = q"
begin

text \<open>A write to a node that keeps its link keeps every list.\<close>

lemma chain_update:
  assumes "h a = Some n" and "get_next n' = get_next n"
  shows "chain get_next (h(a \<mapsto> n')) p as = chain get_next h p as"
  by (rule chain_cong) (use assms in auto)

lemma chain_fresh: "a \<notin> set as \<Longrightarrow> chain get_next (h(a := v)) p as = chain get_next h p as"
  by (rule chain_cong) auto

lemma chain_snoc:
  assumes "chain get_next h p as" and "as \<noteq> []" and "b \<noteq> 0" and "b \<notin> set as"
    and "h (last as) = Some n" and "get_next nb = 0"
  shows "chain get_next (h(b \<mapsto> nb, last as \<mapsto> set_next b n)) p (as @ [b])"
proof -
  obtain bs where as: "as = bs @ [last as]" using assms(2) by (metis append_butlast_last_id)
  define l where "l = last as"
  have d: "l \<notin> set bs" "b \<noteq> l" "b \<notin> set bs"
    using chain_distinct [OF assms(1)] assms(4) as by (metis distinct.simps(2) distinct1_rotate rotate1.simps(2) l_def append_Nil2 distinct_append in_set_conv_decomp, metis assms(2) l_def last_in_set, metis UnI1 set_append)
  from assms(1) have "seg get_next h p bs l" "l \<noteq> 0" by (subst (asm) as, auto simp: chain_append l_def)+
  then have "seg get_next (h(b \<mapsto> nb, l \<mapsto> set_next b n)) p bs l"
    by (subst seg_cong [of bs get_next _ h]) (use d in auto)
  then have "chain get_next (h(b \<mapsto> nb, l \<mapsto> set_next b n)) p (bs @ [l, b])"
    using assms d \<open>l \<noteq> 0\<close> by (auto simp: chain_append get_set)
  then show ?thesis by (subst as) (simp add: l_def)
qed

text \<open>Unlinking a node after another one, and unlinking the head.\<close>

lemma chain_unlink:
  assumes "chain get_next h p (as @ a # b # bs)" and "h a = Some na" and "h b = Some nb"
  shows "chain get_next (h(a \<mapsto> set_next (get_next nb) na)) p (as @ a # bs)"
proof -
  have d: "distinct (as @ a # b # bs)" by (rule chain_distinct [OF assms(1)])
  from assms have s: "seg get_next h p as a" "chain get_next h (get_next nb) bs" "a \<noteq> 0"
    by (auto simp: chain_append)
  have "seg get_next (h(a \<mapsto> set_next (get_next nb) na)) p as a"
    using s(1) by (subst seg_cong [of as get_next _ h]) (use d in auto)
  moreover have "chain get_next (h(a \<mapsto> set_next (get_next nb) na)) (get_next nb) bs"
    using s(2) d by (subst chain_fresh) auto
  ultimately show ?thesis using s(3) by (auto simp: chain_append get_set)
qed

lemma chain_tl: "chain get_next h p (a # as) \<Longrightarrow> h a = Some n \<Longrightarrow> chain get_next h (get_next n) as"
  by auto

end

end
