(* ===== verification/Inet.thy ===== *)
theory Inet
  imports Prelude
begin

text \<open>
  Byte order and checksum: \<^verbatim>\<open>kernel/include/inet.h\<close>, \<^verbatim>\<open>kernel/driver/net/checksum.c\<close> and
  \<^verbatim>\<open>kernel/file/inet.c\<close>.  A buffer is the list of its bytes; the machine is little-endian, so a
  16-bit or 32-bit field of a packed header occupies the bytes \<open>le16\<close> or \<open>le32\<close> of its value.
\<close>

section \<open>Byte order\<close>

definition htons :: "u16 \<Rightarrow> u16" where
  "htons nb = drop_bit 8 nb OR push_bit 8 nb"

definition htonl :: "u32 \<Rightarrow> u32" where
  "htonl nb = (drop_bit 24 nb AND 0xff) OR (push_bit 8 nb AND 0xff0000)
     OR (drop_bit 8 nb AND 0xff00) OR (push_bit 24 nb AND 0xff000000)"

text \<open>\<^verbatim>\<open>ntohs\<close> and \<^verbatim>\<open>ntohl\<close> have the same bodies.\<close>

definition ntohs :: "u16 \<Rightarrow> u16" where
  "ntohs nb = drop_bit 8 nb OR push_bit 8 nb"

definition ntohl :: "u32 \<Rightarrow> u32" where
  "ntohl nb = (drop_bit 24 nb AND 0xff) OR (push_bit 8 nb AND 0xff0000)
     OR (drop_bit 8 nb AND 0xff00) OR (push_bit 24 nb AND 0xff000000)"

definition le16 :: "u16 \<Rightarrow> u8 list" where
  "le16 w = [ucast w, ucast (drop_bit 8 w)]"

definition le32 :: "u32 \<Rightarrow> u8 list" where
  "le32 w = [ucast w, ucast (drop_bit 8 w), ucast (drop_bit 16 w), ucast (drop_bit 24 w)]"

text \<open>Reading a little-endian field at an offset of a buffer.\<close>

definition get16 :: "bytes \<Rightarrow> nat \<Rightarrow> u16" where
  "get16 m i = ucast (m i) OR push_bit 8 (ucast (m (i + 1)))"

definition get32 :: "bytes \<Rightarrow> nat \<Rightarrow> u32" where
  "get32 m i = ucast (m i) OR push_bit 8 (ucast (m (i + 1)))
     OR push_bit 16 (ucast (m (i + 2))) OR push_bit 24 (ucast (m (i + 3)))"

lemma ff_mask: "(0xff :: u32) = mask 8" "(0xff0000 :: u32) = push_bit 16 (mask 8)"
  "(0xff00 :: u32) = push_bit 8 (mask 8)" "(0xff000000 :: u32) = push_bit 24 (mask 8)"
  by (simp_all add: mask_eq_exp_minus_1)

lemma htons_bit: "bit (htons w) n \<longleftrightarrow> n < 16 \<and> bit w (if n < 8 then n + 8 else n - 8)"
  by (auto simp: htons_def bit_simps add.commute dest: bit_imp_le_length)

lemma htonl_bit: "bit (htonl w) n \<longleftrightarrow> n < 32 \<and>
    bit w (if n < 8 then n + 24 else if n < 16 then n + 8 else if n < 24 then n - 8 else n - 24)"
  unfolding htonl_def ff_mask by (auto simp: bit_simps add.commute dest: bit_imp_le_length)

lemma htons_htons [simp]: "htons (htons w) = w"
  by (rule word_eq_bits) (auto simp: htons_bit)

lemma htonl_htonl [simp]: "htonl (htonl w) = w"
  by (rule word_eq_bits) (auto simp: htonl_bit)

lemma get16_le16:
  "get16 (\<lambda>i. (le16 w) ! i) 0 = w"
  by (rule word_eq_bits) (auto simp: get16_def le16_def bit_simps)

lemma le_get16: "m i = le16 w ! 0 \<Longrightarrow> m (i + 1) = le16 w ! 1 \<Longrightarrow> get16 m i = w"
  by (rule word_eq_bits) (auto simp: get16_def le16_def bit_simps)

lemma le_get32:
  "m i = le32 w ! 0 \<Longrightarrow> m (i + 1) = le32 w ! 1 \<Longrightarrow> m (i + 2) = le32 w ! 2 \<Longrightarrow> m (i + 3) = le32 w ! 3
     \<Longrightarrow> get32 m i = w"
  apply (rule word_eq_bits)
  subgoal for n by (cases "n < 24"; cases "n < 16") (auto simp: get32_def le32_def bit_simps)
  done

lemma length_le [simp]: "length (le16 w) = 2" "length (le32 v) = 4"
  by (simp_all add: le16_def le32_def)


section \<open>The Internet checksum\<close>

text \<open>The accumulation loop of \<^verbatim>\<open>net_checksum\<close> consumes two bytes at a time; what is left is the
  odd last byte, if any.  The sum is an \<^verbatim>\<open>unsigned int\<close>.\<close>

fun acc_words :: "u8 list \<Rightarrow> u32 \<Rightarrow> u32 \<times> u8 list" where
  "acc_words (a # b # r) c = acc_words r (c + (ucast a + push_bit 8 (ucast b)))"
| "acc_words r c = (c, r)"

text \<open>The pseudo header is \<open>None\<close> for a null pointer; an odd last byte of it is ignored.\<close>

definition net_checksum :: "u8 list option \<Rightarrow> u8 list \<Rightarrow> u16" where
  "net_checksum phdr buf =
    (let c = (case phdr of None \<Rightarrow> 0 | Some p \<Rightarrow> fst (acc_words p 0));
         (c, rest) = acc_words buf c;
         c = (case rest of [] \<Rightarrow> c | b # _ \<Rightarrow> c + ucast b);
         c = (c AND 0xffff) + drop_bit 16 c;
         c = c + drop_bit 16 c;
         final = ucast (NOT c) :: u16
     in htons final)"

text \<open>The reference: the sum of the little-endian 16-bit words as a number.\<close>

fun wsum :: "u8 list \<Rightarrow> nat" where
  "wsum (a # b # r) = unat a + 256 * unat b + wsum r"
| "wsum [a] = unat a"
| "wsum [] = 0"

lemma word_of_pair: "unat (ucast (a :: u8) + push_bit 8 (ucast (b :: u8)) :: u32) = unat a + 256 * unat b"
proof -
  have a: "unat a < 256" and b: "unat b < 256" by (rule unat_u8)+
  have ua: "unat (ucast a :: u32) = unat a" and ub: "unat (ucast b :: u32) = unat b"
    using a b by (simp_all add: unat_ucast_small)
  have "unat (push_bit 8 (ucast b) :: u32) = 256 * unat b"
    using b by (simp add: push_bit_eq_mult unat_word_ariths(2) ub mult.commute)
  with ua show ?thesis using a b by (simp add: unat_word_ariths(1))
qed

lemma wsum_bound: "wsum xs \<le> 65535 * ((length xs + 1) div 2)"
proof (induction xs rule: wsum.induct)
  case (1 a b r)
  have "unat a < 256" "unat b < 256" by (rule unat_u8)+
  with 1 show ?case by simp
next
  case (2 a)
  have "unat a < 256" by (rule unat_u8)
  then show ?case by simp
qed simp

lemma wsum_append: "even (length a) \<Longrightarrow> wsum (a @ b) = wsum a + wsum b"
  by (induction a rule: wsum.induct) auto

lemma acc_words_sum:
  "unat c + wsum xs < 2 ^ 32 \<Longrightarrow>
     (case acc_words xs c of (d, r) \<Rightarrow> unat (case r of [] \<Rightarrow> d | b # _ \<Rightarrow> d + ucast b)) = unat c + wsum xs"
proof (induction xs arbitrary: c rule: wsum.induct)
  case (1 a b r)
  have "unat (c + (ucast a + push_bit 8 (ucast b))) = unat c + (unat a + 256 * unat b)"
    using "1.prems" by (subst unat_word_ariths(1)) (simp add: word_of_pair)
  with 1 show ?case by (simp add: algebra_simps)
next
  case (2 a)
  then show ?case by (simp add: unat_word_ariths(1) unat_ucast_small)
qed simp

lemma acc_words_even: "even (length xs) \<Longrightarrow> snd (acc_words xs c) = []"
  by (induction xs arbitrary: c rule: wsum.induct) auto

lemma acc_words_even_sum:
  "even (length xs) \<Longrightarrow> unat c + wsum xs < 2 ^ 32 \<Longrightarrow> unat (fst (acc_words xs c)) = unat c + wsum xs"
  using acc_words_sum [of c xs] acc_words_even [of xs c] by (auto split: prod.splits list.splits)

text \<open>Folding the carries back gives the residue modulo 65535, as a 16-bit number.\<close>

definition fold16 :: "nat \<Rightarrow> nat" where
  "fold16 n = (let c = n mod 65536 + n div 65536; c = c + c div 65536 in c mod 65536)"

lemma fold16_less: "fold16 n < 65536"
  by (simp add: fold16_def Let_def)

lemma fold16_split:
  assumes "n < 2 ^ 32"
  obtains q where "n = fold16 n + 65535 * q" "fold16 n = 0 \<longrightarrow> n = 0"
proof -
  define h l where "h = n div 65536" and "l = n mod 65536"
  have n: "n = 65536 * h + l" and l: "l < 65536" and h: "h < 65536"
    using assms by (simp_all add: h_def l_def)
  show ?thesis
  proof (cases "l + h < 65536")
    case True
    then have f: "fold16 n = l + h" by (simp add: fold16_def h_def l_def Let_def)
    show ?thesis by (rule that [of h]) (use n f in simp_all)
  next
    case False
    then have "(l + h) div 65536 = 1" using l h by simp
    then have "fold16 n = (l + h + 1) mod 65536" by (simp add: fold16_def h_def l_def Let_def)
    also have "\<dots> = l + h + 1 - 65536" using False l h by (simp add: mod_if)
    finally have f: "fold16 n = l + h + 1 - 65536" .
    show ?thesis by (rule that [of "h + 1"]) (use False n f in simp_all)
  qed
qed

lemma unat_not_u16: "unat (NOT (x :: u16)) = 65535 - unat x"
proof -
  have "NOT x = - 1 - x" by (simp add: not_eq_complement)
  moreover have "x \<le> - 1" by simp
  moreover have "unat (- 1 :: u16) = 65535" by (simp add: unsigned_minus_1_eq_mask mask_eq_exp_minus_1)
  ultimately show ?thesis by (simp add: unat_sub)
qed

lemma fold16_word:
  fixes c :: u32
  defines "d \<equiv> (c AND 0xffff) + drop_bit 16 c"
  shows "unat (ucast (NOT (d + drop_bit 16 d)) :: u16) = 65535 - fold16 (unat c)"
proof -
  have "c AND 0xffff = take_bit 16 c" by (simp add: take_bit_eq_mask mask_eq_exp_minus_1)
  then have lo: "unat (c AND 0xffff) = unat c mod 65536"
    by (simp only: unsigned_take_bit_eq) (simp add: take_bit_eq_mod)
  have hi: "unat (drop_bit 16 v) = unat v div 65536" for v :: u32
    unfolding unat_drop_bit_eq by (simp add: drop_bit_eq_div)
  have "unat c < 2 ^ 32" using unat_u32 [of c] by simp
  then have d: "unat d = unat c mod 65536 + unat c div 65536"
    unfolding d_def by (subst unat_word_ariths(1)) (simp add: lo hi)
  moreover have "unat d < 2 ^ 17" unfolding d using \<open>unat c < 2 ^ 32\<close> by simp
  ultimately have e: "unat (d + drop_bit 16 d) = unat d + unat d div 65536"
    by (subst unat_word_ariths(1)) (simp add: hi)
  let ?e = "d + drop_bit 16 d"
  have "(ucast (NOT ?e) :: u16) = NOT (ucast ?e)" by (rule word_eq_bits) (simp add: bit_simps)
  then have "unat (ucast (NOT ?e) :: u16) = 65535 - unat (ucast ?e :: u16)"
    by (simp add: unat_not_u16)
  also have "unat (ucast ?e :: u16) = unat ?e mod 65536"
    by (simp add: unsigned_ucast_eq unsigned_take_bit_eq take_bit_eq_mod)
  finally show ?thesis by (simp add: e d fold16_def Let_def)
qed

text \<open>\<^verbatim>\<open>net_checksum\<close> computes the complement of the folded sum, in network byte order.\<close>

definition psum :: "u8 list option \<Rightarrow> nat" where
  "psum ph = (case ph of None \<Rightarrow> 0 | Some p \<Rightarrow> wsum p)"

lemma net_checksum_sum:
  assumes "\<forall>p. ph = Some p \<longrightarrow> even (length p)" and "psum ph + wsum buf < 2 ^ 32"
  shows "unat (htons (net_checksum ph buf)) = 65535 - fold16 (psum ph + wsum buf)"
proof -
  define c where "c = (case ph of None \<Rightarrow> 0 | Some p \<Rightarrow> fst (acc_words p 0))"
  have c: "unat c = psum ph"
    using assms by (auto simp: c_def psum_def acc_words_even_sum split: option.splits)
  define d where "d = (case acc_words buf c of (d, r) \<Rightarrow> case r of [] \<Rightarrow> d | b # _ \<Rightarrow> d + ucast b)"
  have d: "unat d = psum ph + wsum buf"
    using acc_words_sum [of c buf] assms(2) c by (auto simp: d_def split: prod.splits)
  have "htons (net_checksum ph buf) =
      ucast (NOT ((d AND 0xffff) + drop_bit 16 d + drop_bit 16 ((d AND 0xffff) + drop_bit 16 d)))"
    by (simp add: net_checksum_def Let_def c_def [symmetric] d_def split: prod.split)
  then show ?thesis by (simp only: fold16_word d)
qed

lemma wsum_le16: "wsum (le16 w) = unat w"
proof -
  have "unat (ucast w :: u8) = unat w mod 256"
    by (simp add: unsigned_ucast_eq unsigned_take_bit_eq take_bit_eq_mod)
  moreover have "unat (drop_bit 8 w) = unat w div 256"
    unfolding unat_drop_bit_eq by (simp add: drop_bit_eq_div)
  then have "unat (ucast (drop_bit 8 w) :: u8) = unat w div 256"
    using unat_u16 [of w] by (subst unat_ucast_small) simp_all
  ultimately show ?thesis by (simp add: le16_def)
qed

text \<open>Storing the checksum in a zeroed field makes the sum of all words a multiple of 65535, zero in one's complement
  arithmetic: what a receiver checks.  The order of the bytes in the words does not matter for that.\<close>

lemma checksum_field:
  assumes ph: "\<forall>p. ph = Some p \<longrightarrow> even (length p)" and a: "even (length a)"
    and small: "psum ph + wsum (a @ [0, 0] @ b) + 65535 < 2 ^ 32"
  shows "(psum ph + wsum (a @ le16 (htons (net_checksum ph (a @ [0, 0] @ b))) @ b)) mod 65535 = 0 \<and>
    0 < psum ph + wsum (a @ le16 (htons (net_checksum ph (a @ [0, 0] @ b))) @ b)"
proof -
  let ?S = "psum ph + wsum (a @ [0, 0] @ b)" and ?w = "htons (net_checksum ph (a @ [0, 0] @ b))"
  have w: "unat ?w = 65535 - fold16 ?S" by (rule net_checksum_sum [OF ph]) (use small in simp)
  obtain q where q: "?S = fold16 ?S + 65535 * q" "fold16 ?S = 0 \<longrightarrow> ?S = 0"
    by (rule fold16_split [of ?S]) (use small in auto)
  have "wsum (le16 ?w @ b) = unat ?w + wsum b" by (subst wsum_append) (simp_all add: wsum_le16)
  then have s: "psum ph + wsum (a @ le16 ?w @ b) = ?S + unat ?w"
    using a by (simp add: wsum_append)
  then have "psum ph + wsum (a @ le16 ?w @ b) = 65535 * (q + 1)"
    using q w fold16_less [of ?S] by simp
  then show ?thesis by simp
qed

section \<open>Dotted addresses\<close>

text \<open>\<^verbatim>\<open>inet_addr\<close> ignores its argument: the parser is commented out and the result is 127.0.0.1.\<close>

definition inet_addr :: "string \<Rightarrow> u32" where
  "inet_addr cp = get32 ((\<lambda>_. 0)(0 := 127, 1 := 0, 2 := 0, 3 := 1)) 0"

end
