(* ===== verification/Net.thy ===== *)
theory Net
  imports Inet "HOL-Library.Monad_Syntax"
begin

text \<open>
  The network stack below the sockets: \<^verbatim>\<open>kernel/driver/net/\<close> \<^verbatim>\<open>port.c\<close>, \<^verbatim>\<open>arp.c\<close>, \<^verbatim>\<open>ipv4.c\<close>,
  \<^verbatim>\<open>udp.c\<close>, \<^verbatim>\<open>tcp.c\<close>, \<^verbatim>\<open>dhcp.c\<close> and the device layer of \<^verbatim>\<open>ethernet.c\<close>.

  The network card is seen through the two function pointers of \<^verbatim>\<open>default_ethernet_device\<close>: what
  \<^verbatim>\<open>send_package\<close> returns for a frame is a function in the state, and every frame handed to it is
  appended to \<open>wire\<close>.  A packet buffer that a function gets from \<^verbatim>\<open>malloc\<close> and releases before it
  returns is a local byte list; a buffer field the code does not write is taken from a parameter for
  the contents of fresh memory.  \<^verbatim>\<open>sleep\<close> lets interrupts in: \<open>env n\<close> is what they do to the state
  during the \<open>n\<close>-th sleep of a call.
\<close>

section \<open>Headers\<close>

record ether_header =
  eh_dst :: "u8 list"
  eh_src :: "u8 list"
  eh_type :: u16

definition ether_bytes :: "ether_header \<Rightarrow> u8 list" where
  "ether_bytes h = eh_dst h @ eh_src h @ le16 (eh_type h)"

record arp_header =
  hardware_type :: u16
  protocol_type :: u16
  hardware_size :: u8
  protocol_size :: u8
  operation :: u16
  source_mac :: "u8 list"
  source_ip :: "u8 list"
  dest_mac :: "u8 list"
  dest_ip :: "u8 list"

definition arp_bytes :: "arp_header \<Rightarrow> u8 list" where
  "arp_bytes a = le16 (hardware_type a) @ le16 (protocol_type a) @ [hardware_size a, protocol_size a]
     @ le16 (operation a) @ source_mac a @ source_ip a @ dest_mac a @ dest_ip a"

record arp_cache_t =
  ac_mac :: "u8 list"
  ac_ip :: "u8 list"

record ipv4_header =
  ihl :: u8
  ver :: u8
  tos :: u8
  ip_len :: u16
  ip_id :: u16
  ip_offset :: u16
  ttl :: u8
  ip_protocol :: u8
  ip_checksum :: u16
  ip_src :: u32
  ip_dst :: u32

text \<open>The two nibbles share a byte, the first declared in the low bits.\<close>

definition ipv4_bytes :: "ipv4_header \<Rightarrow> u8 list" where
  "ipv4_bytes h = [(ihl h AND 15) OR push_bit 4 (ver h AND 15), tos h] @ le16 (ip_len h) @ le16 (ip_id h)
     @ le16 (ip_offset h) @ [ttl h, ip_protocol h] @ le16 (ip_checksum h) @ le32 (ip_src h) @ le32 (ip_dst h)"

record udp_header =
  udp_src_port :: u16
  udp_dst_port :: u16
  udp_length :: u16
  udp_checksum :: u16

definition udp_bytes :: "udp_header \<Rightarrow> u8 list" where
  "udp_bytes h = le16 (udp_src_port h) @ le16 (udp_dst_port h) @ le16 (udp_length h) @ le16 (udp_checksum h)"

record tcp_header =
  tcp_src_port :: u16
  tcp_dst_port :: u16
  tcp_seq :: u32
  tcp_ackn :: u32
  tcp_off :: u8
  tcp_flags :: u8
  window_size :: u16
  tcp_checksum :: u16
  urgent :: u16

definition tcp_bytes :: "tcp_header \<Rightarrow> u8 list" where
  "tcp_bytes h = le16 (tcp_src_port h) @ le16 (tcp_dst_port h) @ le32 (tcp_seq h) @ le32 (tcp_ackn h)
     @ [tcp_off h, tcp_flags h] @ le16 (window_size h) @ le16 (tcp_checksum h) @ le16 (urgent h)"

record checksum_header =
  ch_src :: u32
  ch_dst :: u32
  ch_rsved :: u8
  ch_protocol :: u8
  ch_len :: u16

definition checksum_bytes :: "checksum_header \<Rightarrow> u8 list" where
  "checksum_bytes h = le32 (ch_src h) @ le32 (ch_dst h) @ [ch_rsved h, ch_protocol h] @ le16 (ch_len h)"

record tcp_connect =
  c_src_ip :: u32
  c_dst_ip :: u32
  c_src_port :: u16
  c_dst_port :: u16
  c_seq :: u32
  c_ack :: u32
  c_pack :: u32
  c_flags :: u8
  c_status :: u8
  c_busy :: u8
  c_rsv :: u8

abbreviation (input) TCP_FIN :: u8 where "TCP_FIN \<equiv> 1"
abbreviation (input) TCP_SYN :: u8 where "TCP_SYN \<equiv> 2"
abbreviation (input) TCP_PSH :: u8 where "TCP_PSH \<equiv> 8"
abbreviation (input) TCP_ACK :: u8 where "TCP_ACK \<equiv> 16"
abbreviation (input) ET_IPV4 :: u16 where "ET_IPV4 \<equiv> 0x0800"
abbreviation (input) ET_ARP :: u16 where "ET_ARP \<equiv> 0x0806"
abbreviation (input) IP_PROTOCOL_TCP :: u8 where "IP_PROTOCOL_TCP \<equiv> 6"
abbreviation (input) IP_PROTOCOL_UDP :: u8 where "IP_PROTOCOL_UDP \<equiv> 17"

section \<open>State and device\<close>

text \<open>A received packet: the fields of the descriptor with the memory behind \<^verbatim>\<open>buf\<close> (\<open>None\<close> for a
  null pointer).\<close>

record ethernet_package_descriptor =
  pd_flag :: u32
  pd_count :: u32
  pd_size :: u32
  pd_buf :: "bytes option"

record ethernet_device =
  dev_mac :: "u8 list"
  client_ip :: "u8 list"
  server_ip :: "u8 list"
  is_enabled :: u8
  is_online :: u8
  is_interrupt :: u8
  send_package :: "u8 list \<Rightarrow> int"

record net_state =
  default_ethernet_device :: ethernet_device
  wire :: "u8 list list"
  your_ip :: "u8 list"
  router_ip :: "u8 list"
  dns_ip :: "u8 list"
  dhcp_ip :: "u8 list"
  local_ip :: "u8 list"
  ipv4_count :: u32
  arp_cache :: "arp_cache_t list"
  queue_conn :: "tcp_connect list"
  port_bitmap :: bytes

definition fillMac :: "u8 list \<Rightarrow> u8 list \<Rightarrow> u8 list" where
  "fillMac to from = take 6 from @ drop 6 to"

definition fillIP :: "u8 list \<Rightarrow> u8 list \<Rightarrow> u8 list" where
  "fillIP to from = take 4 from @ drop 4 to"

definition ethernet_set_link_status :: "u64 \<Rightarrow> 'a net_state_scheme \<Rightarrow> 'a net_state_scheme" where
  "ethernet_set_link_status a s =
     s\<lparr>default_ethernet_device := (default_ethernet_device s)\<lparr>is_online := ucast a\<rparr>\<rparr>"

definition ethernet_set_interrupt_status :: "u64 \<Rightarrow> 'a net_state_scheme \<Rightarrow> 'a net_state_scheme" where
  "ethernet_set_interrupt_status a s =
     s\<lparr>default_ethernet_device := (default_ethernet_device s)\<lparr>is_interrupt := ucast a\<rparr>\<rparr>"

definition register_ethernet_device ::
  "(u8 list \<Rightarrow> int) \<Rightarrow> u8 list \<Rightarrow> 'a net_state_scheme \<Rightarrow> 'a net_state_scheme" where
  "register_ethernet_device send m s =
     s\<lparr>default_ethernet_device := (default_ethernet_device s)
        \<lparr>send_package := send, is_enabled := 1, dev_mac := take 6 m @ drop 6 (dev_mac (default_ethernet_device s))\<rparr>\<rparr>"

definition send_ethernet_package :: "u8 list \<Rightarrow> 'a net_state_scheme \<Rightarrow> int \<times> 'a net_state_scheme" where
  "send_ethernet_package b s =
     (if is_enabled (default_ethernet_device s) = 0 then (0, s)
      else (send_package (default_ethernet_device s) b, s\<lparr>wire := wire s @ [b]\<rparr>))"

section \<open>Ports\<close>

function port_scan_bits :: "u8 \<Rightarrow> nat \<Rightarrow> u32 \<Rightarrow> (nat \<times> u32) + u32" where
  "port_scan_bits v b port =
     (if b < 8 then
        if v AND push_bit b 1 = 0 then Inl (b, port) else port_scan_bits v (b + 1) (port + 1)
      else Inr port)"
  by pat_completeness auto
termination by (relation "measure (\<lambda>(v, b, port). 8 - b)") auto

function port_scan :: "bytes \<Rightarrow> nat \<Rightarrow> u32 \<Rightarrow> (nat \<times> nat \<times> u32) + u32" where
  "port_scan bm i port =
     (if i < 65536 div 8 then
        (case port_scan_bits (bm i) 0 port of
           Inl (b, port) \<Rightarrow> Inl (i, b, port) | Inr port \<Rightarrow> port_scan bm (i + 1) port)
      else Inr port)"
  by pat_completeness auto
termination by (relation "measure (\<lambda>(bm, i, port). 8192 - i)") auto

declare port_scan_bits.simps [simp del] port_scan.simps [simp del]

definition get_port :: "'a net_state_scheme \<Rightarrow> u16 \<times> 'a net_state_scheme" where
  "get_port s =
    (let (port, s) =
       (case port_scan (port_bitmap s) 0 0 of
          Inl (i, b, port) \<Rightarrow>
            (port, s\<lparr>port_bitmap := (port_bitmap s)(i := port_bitmap s i OR push_bit b 1)\<rparr>)
        | Inr port \<Rightarrow> (port, s))
     in if port \<ge> 65536 then (0, s) else (ucast port, s))"

definition set_port :: "u16 \<Rightarrow> 'a net_state_scheme \<Rightarrow> u16 \<times> 'a net_state_scheme" where
  "set_port port s =
    (let i = unat (port div 8); b = unat (port mod 8); v = port_bitmap s i
     in if v AND push_bit b 1 \<noteq> 0 then (0, s)
        else (port, s\<lparr>port_bitmap := (port_bitmap s)(i := v OR push_bit b 1)\<rparr>))"

definition clean_port :: "u16 \<Rightarrow> 'a net_state_scheme \<Rightarrow> int \<times> 'a net_state_scheme" where
  "clean_port port s =
    (let i = unat (port div 8); b = unat (port mod 8); v = port_bitmap s i
     in (0, s\<lparr>port_bitmap := (port_bitmap s)(i := v AND NOT (push_bit b 1))\<rparr>))"

text \<open>The bitmap lives in two freshly allocated pages, 8 KiB that are all cleared.\<close>

definition ethernet_port_setup :: "'a net_state_scheme \<Rightarrow> 'a net_state_scheme" where
  "ethernet_port_setup s = snd (set_port 0 (s\<lparr>port_bitmap := \<lambda>_. 0\<rparr>))"

section \<open>ARP\<close>

definition empty_mac :: "u8 list" where "empty_mac = [0, 0, 0, 0, 0, 0]"

definition everyone :: "u8 list" where "everyone = [0xFF, 0xFF, 0xFF, 0xFF, 0xFF, 0xFF]"

definition arp_request :: "u8 list \<Rightarrow> u8 list \<Rightarrow> 'a net_state_scheme \<Rightarrow> 'a net_state_scheme" where
  "arp_request ip m s =
    (let eh = \<lparr>eh_dst = take 6 m, eh_src = take 6 (dev_mac (default_ethernet_device s)), eh_type = htons ET_ARP\<rparr>;
         arp = \<lparr>hardware_type = htons 1, protocol_type = htons ET_IPV4, hardware_size = 6, protocol_size = 4,
           operation = htons 1, source_mac = take 6 (dev_mac (default_ethernet_device s)),
           source_ip = take 4 (your_ip s), dest_mac = empty_mac, dest_ip = take 4 ip\<rparr>
     in snd (send_ethernet_package (ether_bytes eh @ arp_bytes arp) s))"

definition arp_replay :: "u8 list \<Rightarrow> u8 list \<Rightarrow> 'a net_state_scheme \<Rightarrow> 'a net_state_scheme" where
  "arp_replay ip m s =
    (let eh = \<lparr>eh_dst = take 6 m, eh_src = take 6 (dev_mac (default_ethernet_device s)), eh_type = htons ET_ARP\<rparr>;
         arp = \<lparr>hardware_type = htons 1, protocol_type = htons ET_IPV4, hardware_size = 6, protocol_size = 4,
           operation = htons 2, source_mac = take 6 (dev_mac (default_ethernet_device s)),
           source_ip = take 4 (your_ip s), dest_mac = take 6 m, dest_ip = take 4 ip\<rparr>
     in snd (send_ethernet_package (ether_bytes eh @ arp_bytes arp) s))"

definition same_ip :: "u8 list \<Rightarrow> u8 list \<Rightarrow> bool" where
  "same_ip a b \<longleftrightarrow> a ! 0 = b ! 0 \<and> a ! 1 = b ! 1 \<and> a ! 2 = b ! 2 \<and> a ! 3 = b ! 3"

definition same_mac :: "u8 list \<Rightarrow> u8 list \<Rightarrow> bool" where
  "same_mac a b \<longleftrightarrow> a ! 0 = b ! 0 \<and> a ! 1 = b ! 1 \<and> a ! 2 = b ! 2 \<and> a ! 3 = b ! 3 \<and> a ! 4 = b ! 4 \<and> a ! 5 = b ! 5"

text \<open>The sum of the four bytes is an \<^verbatim>\<open>int\<close>.\<close>

definition ip_sum :: "u8 list \<Rightarrow> nat" where
  "ip_sum a = unat (a ! 0) + unat (a ! 1) + unat (a ! 2) + unat (a ! 3)"

definition arp_save_address :: "u8 list \<Rightarrow> u8 list \<Rightarrow> 'a net_state_scheme \<Rightarrow> int \<times> 'a net_state_scheme" where
  "arp_save_address ip m s =
    (let cache = arp_cache s in
     case find_from (\<lambda>i. ac_ip (cache ! i) ! 0 \<noteq> 0 \<and> same_ip ip (ac_ip (cache ! i)) \<and> same_mac m (ac_mac (cache ! i))) 0 1024 of
       Some i \<Rightarrow> (0, s)
     | None \<Rightarrow>
        (case find_from (\<lambda>i. ip_sum (ac_ip (cache ! i)) = 0) 0 1024 of
           None \<Rightarrow> (1, s)
         | Some i \<Rightarrow>
            (1, s\<lparr>arp_cache := cache[i := (cache ! i)\<lparr>ac_mac := fillMac (ac_mac (cache ! i)) m,
                                              ac_ip := fillIP (ac_ip (cache ! i)) ip\<rparr>]\<rparr>)))"

definition arp_cache_get_address :: "u8 list \<Rightarrow> u8 list \<Rightarrow> 'a net_state_scheme \<Rightarrow> u8 list option" where
  "arp_cache_get_address m ip s =
     (case find_from (\<lambda>i. same_ip ip (ac_ip (arp_cache s ! i))) 0 1024 of
        None \<Rightarrow> None
      | Some i \<Rightarrow> Some (fillMac m (ac_mac (arp_cache s ! i))))"

text \<open>\<^verbatim>\<open>get_hardwere_ethernet\<close> loops until the router answers; \<^verbatim>\<open>n\<close> is never decremented.\<close>

partial_function (option) hardwere_loop ::
  "(nat \<Rightarrow> 'a net_state_scheme \<Rightarrow> 'a net_state_scheme) \<Rightarrow> nat \<Rightarrow> int \<Rightarrow> u8 list \<Rightarrow> 'a net_state_scheme
     \<Rightarrow> (int \<times> u8 list \<times> 'a net_state_scheme) option" where
  "hardwere_loop env k n m s =
     (if n > 0 then
        (case arp_cache_get_address m (router_ip s) s of
           None \<Rightarrow> hardwere_loop env (k + 1) n m (env k (arp_request (router_ip s) everyone s))
         | Some m' \<Rightarrow> Some (0, m', s))
      else Some (- 1, m, s))"

definition get_hardwere_ethernet ::
  "(nat \<Rightarrow> 'a net_state_scheme \<Rightarrow> 'a net_state_scheme) \<Rightarrow> u8 list \<Rightarrow> u32 \<Rightarrow> 'a net_state_scheme
     \<Rightarrow> (int \<times> u8 list \<times> 'a net_state_scheme) option" where
  "get_hardwere_ethernet env m ip s = hardwere_loop env 0 2 m s"

definition init_arp :: "(nat \<Rightarrow> 'a net_state_scheme \<Rightarrow> 'a net_state_scheme) \<Rightarrow> 'a net_state_scheme \<Rightarrow> 'a net_state_scheme" where
  "init_arp env s =
     env 0 (arp_request (router_ip s) everyone
       (s\<lparr>arp_cache := replicate 1024 \<lparr>ac_mac = [0, 0, 0, 0, 0, 0], ac_ip = [0, 0, 0, 0]\<rparr>\<rparr>))"

section \<open>IPv4 and UDP\<close>

definition ipv4_send ::
  "(nat \<Rightarrow> 'a net_state_scheme \<Rightarrow> 'a net_state_scheme) \<Rightarrow> u8 list \<Rightarrow> u8 \<Rightarrow> u32 \<Rightarrow> u32 \<Rightarrow> 'a net_state_scheme
     \<Rightarrow> (int \<times> 'a net_state_scheme) option" where
  "ipv4_send env body prot src_address dst_address s =
    do {
      (e, m, s) \<leftarrow> (if dst_address \<noteq> 0xFFFFFFFF then get_hardwere_ethernet env everyone dst_address s
                    else Some (0, everyone, s));
      if e \<noteq> 0 then Some (0, s)
      else
        let eh = \<lparr>eh_dst = take 6 m, eh_src = take 6 (dev_mac (default_ethernet_device s)), eh_type = htons ET_IPV4\<rparr>;
            len = of_nat (length body) + 20 :: u32;
            hdr = \<lparr>ihl = 5, ver = 4, tos = 0, ip_len = htons (ucast len), ip_id = htons (ucast (ipv4_count s)),
              ip_offset = htons 0x4000, ttl = 64, ip_protocol = prot, ip_checksum = 0,
              ip_src = src_address, ip_dst = dst_address\<rparr>;
            s = s\<lparr>ipv4_count := ipv4_count s + 1\<rparr>;
            checksum = net_checksum None (ipv4_bytes hdr);
            hdr = hdr\<lparr>ip_checksum := htons checksum\<rparr>;
            (r, s) = send_ethernet_package (ether_bytes eh @ ipv4_bytes hdr @ body) s
        in Some (if r \<noteq> 0 then 1 else 0, s) }"

definition udp_send ::
  "(nat \<Rightarrow> 'a net_state_scheme \<Rightarrow> 'a net_state_scheme) \<Rightarrow> u32 \<Rightarrow> u32 \<Rightarrow> u16 \<Rightarrow> u16 \<Rightarrow> u8 list \<Rightarrow> 'a net_state_scheme
     \<Rightarrow> (int \<times> 'a net_state_scheme) option" where
  "udp_send env src_address dst_address sport dport data s =
    (let udp = \<lparr>udp_src_port = htons sport, udp_dst_port = htons dport,
                udp_length = htons (of_nat (8 + length data)), udp_checksum = 0\<rparr>
     in do {
       (r, s) \<leftarrow> ipv4_send env (udp_bytes udp @ data) IP_PROTOCOL_UDP src_address dst_address s;
       Some (int (length data), s) })"

section \<open>TCP\<close>

definition tcp_zero :: tcp_connect where
  "tcp_zero = \<lparr>c_src_ip = 0, c_dst_ip = 0, c_src_port = 0, c_dst_port = 0, c_seq = 0, c_ack = 0, c_pack = 0,
     c_flags = 0, c_status = 0, c_busy = 0, c_rsv = 0\<rparr>"

definition init_tcp :: "'a net_state_scheme \<Rightarrow> int \<times> 'a net_state_scheme" where
  "init_tcp s = (0, s\<lparr>queue_conn := replicate 1024 tcp_zero\<rparr>)"

text \<open>The options: maximum segment size and SACK permitted, then zeros up to a multiple of four.\<close>

function pad4 :: "u8 list \<Rightarrow> u8 list" where
  "pad4 b = (if length b mod 4 \<noteq> 0 then pad4 (b @ [0]) else b)"
  by pat_completeness auto
termination by (relation "measure (\<lambda>b. (4 - length b mod 4) mod 4)") (auto simp: mod_Suc)

declare pad4.simps [simp del]

definition tcp_segment :: "u32 \<Rightarrow> u32 \<Rightarrow> u16 \<Rightarrow> u16 \<Rightarrow> u32 \<Rightarrow> u32 \<Rightarrow> u8 \<Rightarrow> u8 list \<Rightarrow> u8 list" where
  "tcp_segment src_address dst_address sport dport sq ak fl data =
    (let tcp = \<lparr>tcp_src_port = htons sport, tcp_dst_port = htons dport, tcp_seq = htonl sq, tcp_ackn = htonl ak,
           tcp_off = 0, tcp_flags = fl, window_size = htons 4096, tcp_checksum = htons 0, urgent = htons 0\<rparr>;
         options = [2, 4] @ le16 (htons 1460) @ [4, 2];
         head = pad4 (tcp_bytes tcp @ options);
         hl = length head;
         tcp = tcp\<lparr>tcp_off := of_nat (4 * hl)\<rparr>;
         body = tcp_bytes tcp @ drop 20 head @ data;
         phdr = \<lparr>ch_src = src_address, ch_dst = dst_address, ch_rsved = 0, ch_protocol = IP_PROTOCOL_TCP,
                 ch_len = htons (of_nat (length body))\<rparr>;
         checksum = net_checksum (Some (checksum_bytes phdr)) body;
         tcp = tcp\<lparr>tcp_checksum := htons checksum\<rparr>
     in tcp_bytes tcp @ drop 20 head @ data)"

definition tcp_send ::
  "(nat \<Rightarrow> 'a net_state_scheme \<Rightarrow> 'a net_state_scheme) \<Rightarrow> u32 \<Rightarrow> u32 \<Rightarrow> u16 \<Rightarrow> u16 \<Rightarrow> u32 \<Rightarrow> u32 \<Rightarrow> u8 \<Rightarrow> u8 list
     \<Rightarrow> 'a net_state_scheme \<Rightarrow> (int \<times> 'a net_state_scheme) option" where
  "tcp_send env src_address dst_address sport dport sq ak fl data s =
    do {
      (r, s) \<leftarrow> ipv4_send env (tcp_segment src_address dst_address sport dport sq ak fl data)
                 IP_PROTOCOL_TCP src_address dst_address s;
      Some (int (length data), s) }"

text \<open>An update of the connection in slot \<open>i\<close>.  The pointer stays valid across \<^verbatim>\<open>tcp_send\<close>, so a
  store after it goes to the slot as it is then.\<close>

definition upd_conn :: "nat \<Rightarrow> (tcp_connect \<Rightarrow> tcp_connect) \<Rightarrow> 'a net_state_scheme \<Rightarrow> 'a net_state_scheme" where
  "upd_conn i f s = s\<lparr>queue_conn := (queue_conn s)[i := f (queue_conn s ! i)]\<rparr>"

text \<open>\<^verbatim>\<open>tcp_send(conn->src_ip, ..., conn->flags, data, len)\<close> with the fields of slot \<open>i\<close>.\<close>

definition send_conn ::
  "(nat \<Rightarrow> 'a net_state_scheme \<Rightarrow> 'a net_state_scheme) \<Rightarrow> nat \<Rightarrow> u8 list \<Rightarrow> 'a net_state_scheme
     \<Rightarrow> (int \<times> 'a net_state_scheme) option" where
  "send_conn env i data s =
     (let c = queue_conn s ! i
      in tcp_send env (c_src_ip c) (c_dst_ip c) (c_src_port c) (c_dst_port c) (c_seq c) (c_ack c) (c_flags c) data s)"

definition tcp_connect_op ::
  "(nat \<Rightarrow> 'a net_state_scheme \<Rightarrow> 'a net_state_scheme) \<Rightarrow> u32 \<Rightarrow> u32 \<Rightarrow> u16 \<Rightarrow> u16 \<Rightarrow> 'a net_state_scheme
     \<Rightarrow> (int \<times> 'a net_state_scheme) option" where
  "tcp_connect_op env src_address dst_address sport dport s =
    (case find_from (\<lambda>i. c_busy (queue_conn s ! i) = 0) 0 1024 of
       None \<Rightarrow> Some (1, s)
     | Some i \<Rightarrow> do {
         (_, s) \<leftarrow> send_conn env i [] (upd_conn i (\<lambda>c. c\<lparr>c_src_ip := src_address, c_dst_ip := dst_address,
            c_src_port := sport, c_dst_port := dport, c_seq := 0, c_ack := 0, c_pack := 0, c_flags := TCP_SYN,
            c_status := 0, c_busy := 1\<rparr>) s);
         Some (0, upd_conn i (\<lambda>c. c\<lparr>c_seq := c_seq c + 1\<rparr>) s) })"

definition seg_len :: "u8 \<Rightarrow> u32 \<Rightarrow> u32" where
  "seg_len fl len = (if fl AND TCP_PSH \<noteq> 0 then len else 1)"

definition tcp_ack ::
  "(nat \<Rightarrow> 'a net_state_scheme \<Rightarrow> 'a net_state_scheme) \<Rightarrow> u32 \<Rightarrow> u32 \<Rightarrow> u16 \<Rightarrow> u16 \<Rightarrow> u32 \<Rightarrow> u32 \<Rightarrow> u8 \<Rightarrow> u32
     \<Rightarrow> 'a net_state_scheme \<Rightarrow> (int \<times> 'a net_state_scheme) option" where
  "tcp_ack env src_address dst_address sport dport sq ak fl len s =
    (case find_from (\<lambda>i. c_src_port (queue_conn s ! i) = dport \<and> c_busy (queue_conn s ! i) = 1
                        \<and> c_status (queue_conn s ! i) = 0) 0 1024 of
       None \<Rightarrow> Some (1, s)
     | Some i \<Rightarrow>
        let conn = queue_conn s ! i in
        if c_seq conn \<noteq> ak then Some (1, s)
        else if c_ack conn \<ge> sq + seg_len fl len then do {
          (_, s) \<leftarrow> send_conn env i [] (upd_conn i (\<lambda>c. c\<lparr>c_flags := TCP_ACK\<rparr>) s);
          Some (1, s) }
        else do {
          (_, s) \<leftarrow> send_conn env i [] (upd_conn i (\<lambda>c. c\<lparr>c_pack := ak, c_ack := sq + seg_len fl len, c_flags := TCP_ACK\<rparr>) s);
          if fl AND TCP_FIN \<noteq> 0 then do {
            (r, s) \<leftarrow> send_conn env i [] (upd_conn i (\<lambda>c. c\<lparr>c_flags := TCP_FIN OR TCP_ACK\<rparr>) s);
            Some (2, upd_conn i (\<lambda>c. c\<lparr>c_flags := of_int r, c_seq := c_seq c + 1, c_status := 1\<rparr>) s) }
          else Some (0, s) })"

definition tcp_send_payload ::
  "(nat \<Rightarrow> 'a net_state_scheme \<Rightarrow> 'a net_state_scheme) \<Rightarrow> u32 \<Rightarrow> u32 \<Rightarrow> u16 \<Rightarrow> u16 \<Rightarrow> u8 \<Rightarrow> u8 list
     \<Rightarrow> 'a net_state_scheme \<Rightarrow> (int \<times> 'a net_state_scheme) option" where
  "tcp_send_payload env src_address dst_address sport dport fl data s =
    (case find_from (\<lambda>i. c_src_port (queue_conn s ! i) = sport \<and> c_busy (queue_conn s ! i) = 1
                        \<and> c_status (queue_conn s ! i) = 0) 0 1024 of
       None \<Rightarrow> Some (1, s)
     | Some i \<Rightarrow> do {
         (_, s) \<leftarrow> send_conn env i data (upd_conn i (\<lambda>c. c\<lparr>c_flags := fl\<rparr>) s);
         let s = upd_conn i (\<lambda>c. c\<lparr>c_seq := c_seq c + of_nat (length data)\<rparr>) s;
             s = (if fl AND TCP_FIN \<noteq> 0 then upd_conn i (\<lambda>c. c\<lparr>c_status := 1\<rparr>) s else s)
         in Some (0, s) })"

definition tcp_finish :: "u32 \<Rightarrow> u32 \<Rightarrow> u16 \<Rightarrow> u16 \<Rightarrow> u32 \<Rightarrow> 'a net_state_scheme \<Rightarrow> 'a net_state_scheme" where
  "tcp_finish src_address dst_address sport dport ak s =
    (case find_from (\<lambda>i. c_src_port (queue_conn s ! i) = dport \<and> c_busy (queue_conn s ! i) = 1
                        \<and> c_status (queue_conn s ! i) = 1) 0 1024 of
       None \<Rightarrow> s
     | Some i \<Rightarrow> if c_seq (queue_conn s ! i) \<noteq> ak then s else upd_conn i (\<lambda>c. c\<lparr>c_busy := 0\<rparr>) s)"

section \<open>DHCP\<close>

record dhcp_header =
  d_op :: u8
  d_htype :: u8
  d_hlen :: u8
  d_hops :: u8
  d_xid :: u32
  d_secs :: u16
  d_flags :: u16
  d_ciaddr :: u32
  d_yiaddr :: u32
  d_siaddr :: u32
  d_giaddr :: u32
  d_chaddr :: "u8 list"
  d_sname :: "u8 list"
  d_file :: "u8 list"
  d_magic_cookie :: u32
  d_options :: "u8 list"

definition dhcp_bytes :: "dhcp_header \<Rightarrow> u8 list" where
  "dhcp_bytes d = [d_op d, d_htype d, d_hlen d, d_hops d] @ le32 (d_xid d) @ le16 (d_secs d) @ le16 (d_flags d)
     @ le32 (d_ciaddr d) @ le32 (d_yiaddr d) @ le32 (d_siaddr d) @ le32 (d_giaddr d) @ d_chaddr d @ d_sname d @ d_file d
     @ le32 (d_magic_cookie d) @ d_options d"

text \<open>The option bytes written for a message type, and how many of them are sent: the array keeps
  what fresh memory held beyond the type, and an unknown type sends none.\<close>

definition dhcp_options :: "u8 list \<Rightarrow> u8 list \<Rightarrow> u8 \<Rightarrow> u8 list \<Rightarrow> u8 list \<times> nat" where
  "dhcp_options yip sip message_type fresh =
    (let written = [53, 1, message_type] @
       (if message_type = 1 then [55, 3, 1, 3, 6, 255]
        else if message_type = 3 then [50, 4, yip ! 0, yip ! 1, yip ! 2, yip ! 3, 54, 4, sip ! 0, sip ! 1, sip ! 2, sip ! 3,
               55, 3, 1, 3, 6, 255]
        else [])
     in (written @ drop (length written) fresh,
         if message_type = 1 then 9 else if message_type = 3 then 21 else 0))"

text \<open>\<^verbatim>\<open>dhcp_send\<close>; \<open>fresh\<close> is the uninitialised memory behind the new header, of which the last ten
  bytes of \<^verbatim>\<open>chaddr\<close> are sent as they are.\<close>

definition dhcp_send ::
  "(nat \<Rightarrow> 'a net_state_scheme \<Rightarrow> 'a net_state_scheme) \<Rightarrow> dhcp_header \<Rightarrow> u8 list \<Rightarrow> u8 list \<Rightarrow> u8 \<Rightarrow> 'a net_state_scheme
     \<Rightarrow> (int \<times> 'a net_state_scheme) option" where
  "dhcp_send env fresh yip sip message_type s =
    (let (opts, opt_size) = dhcp_options yip sip message_type (d_options fresh);
         dhcp = fresh\<lparr>d_op := 1, d_htype := 1, d_hlen := 6, d_hops := 0, d_xid := htonl 0x3903F326, d_secs := htons 0,
           d_flags := htons 0, d_ciaddr := 0, d_yiaddr := 0, d_siaddr := 0, d_giaddr := 0,
           d_chaddr := fillMac (d_chaddr fresh) (dev_mac (default_ethernet_device s)),
           d_sname := replicate 64 0, d_file := replicate 128 0, d_magic_cookie := htonl 0x63825363, d_options := opts\<rparr>
     in udp_send env 0 0xFFFFFFFF 68 67 (take (548 - 308 + opt_size) (dhcp_bytes dhcp)) s)"

text \<open>\<^verbatim>\<open>dhcp_parse_options\<close> on the received header at \<^verbatim>\<open>buf\<close>: \<^verbatim>\<open>yiaddr\<close> is at offset 16, the cookie
  at 236 and the options at 240.  The index is tested against 308 only after a type byte is read, so
  the last read can lie past the array; \<open>m\<close> gives the memory there too.\<close>

definition ip_at :: "bytes \<Rightarrow> nat \<Rightarrow> u8 list" where
  "ip_at m i = [m i, m (i + 1), m (i + 2), m (i + 3)]"

function dhcp_parse_loop :: "bytes \<Rightarrow> nat \<Rightarrow> 'a net_state_scheme \<Rightarrow> 'a net_state_scheme" where
  "dhcp_parse_loop m i s =
    (let opt_type = m (240 + i); i1 = i + 1 in
     if i1 \<ge> 308 then s
     else
       let n = m (240 + i1); j = i1 + 1; ip = ip_at m (240 + j) in
       if opt_type = 3 then
         dhcp_parse_loop m (j + unat n) (if n = 4 then s\<lparr>router_ip := fillIP (router_ip s) ip\<rparr> else s)
       else if opt_type = 6 then
         dhcp_parse_loop m (j + unat n) (if n = 4 then s\<lparr>dns_ip := fillIP (dns_ip s) ip\<rparr> else s)
       else if opt_type = 54 then
         dhcp_parse_loop m (j + unat n) (if n = 4 then s\<lparr>dhcp_ip := fillIP (dhcp_ip s) ip\<rparr> else s)
       else dhcp_parse_loop m i1 s)"
  by pat_completeness auto
termination by (relation "measure (\<lambda>(m, i, s). 308 - i)") auto

declare dhcp_parse_loop.simps [simp del]

definition dhcp_parse_options :: "bytes \<Rightarrow> 'a net_state_scheme \<Rightarrow> int \<times> 'a net_state_scheme" where
  "dhcp_parse_options m s =
    (if htonl (get32 m 236) \<noteq> 0x63825363 then (- 1, s)
     else (0, dhcp_parse_loop m 0 (s\<lparr>your_ip := fillIP (your_ip s) (ip_at m 16)\<rparr>)))"

section \<open>Receiving by polling\<close>

text \<open>\<^verbatim>\<open>udp_receive\<close> polls the card until a UDP packet for the port arrives or the timer runs out.
  \<open>polls n\<close> is the descriptor array the card returns at the \<open>n\<close>-th poll, \<open>waiting n\<close> what \<^verbatim>\<open>swait\<close>
  answers after it.  A packet is matched at the offsets of the packed headers: the type at 12, the
  protocol at 23, the destination port at 36 and the UDP length at 38; the payload starts at 42.  A descriptor without a buffer has no result.\<close>

definition udp_match :: "u16 \<Rightarrow> bytes \<Rightarrow> bool" where
  "udp_match port m \<longleftrightarrow> htons (get16 m 12) = ET_IPV4 \<and> m 23 = IP_PROTOCOL_UDP \<and> htons (get16 m 36) = port"

fun udp_scan :: "u16 \<Rightarrow> nat \<Rightarrow> ethernet_package_descriptor list \<Rightarrow> bytes option option" where
  "udp_scan port 0 ds = Some None"
| "udp_scan port (Suc n) [] = None"
| "udp_scan port (Suc n) (d # ds) = do { m \<leftarrow> pd_buf d; if udp_match port m then Some (Some m) else udp_scan port n ds }"

partial_function (option) udp_poll ::
  "(nat \<Rightarrow> ethernet_package_descriptor list) \<Rightarrow> (nat \<Rightarrow> bool) \<Rightarrow> u16 \<Rightarrow> nat \<Rightarrow> bytes option option" where
  "udp_poll polls waiting port n =
     (if pd_flag (hd (polls n)) \<noteq> 0 then
        (if \<not> waiting n then Some None else udp_poll polls waiting port (n + 1))
      else
        do {
          m \<leftarrow> udp_scan port (nat (sint (pd_count (hd (polls n))))) (polls n);
          if m \<noteq> None then Some m
          else if \<not> waiting n then Some None else udp_poll polls waiting port (n + 1) })"

definition udp_receive ::
  "(nat \<Rightarrow> ethernet_package_descriptor list) \<Rightarrow> (nat \<Rightarrow> bool) \<Rightarrow> nat \<Rightarrow> u16 \<Rightarrow> (int \<times> u8 list) option" where
  "udp_receive polls waiting len port =
    do {
      r \<leftarrow> udp_poll polls waiting port 0;
      case r of
        None \<Rightarrow> Some (0, [])
      | Some m \<Rightarrow>
         let ulen = unat (htons (get16 m 38));
             n = (if ulen > len then len else ulen)
         in Some (int n, map (\<lambda>i. m (42 + i)) [0..<n]) }"

section \<open>Bringing the network up\<close>

text \<open>The 548-byte header after \<^verbatim>\<open>memset\<close> and \<^verbatim>\<open>memcpy\<close> of the received bytes; \<open>beyond\<close> is the memory
  after it.\<close>

definition dhcp_memory :: "bytes \<Rightarrow> u8 list \<Rightarrow> bytes" where
  "dhcp_memory beyond d = (\<lambda>i. if i < length d then d ! i else if i < 548 then 0 else beyond i)"

text \<open>\<^verbatim>\<open>initialise_ethernet\<close>: discover, parse the offer, request, check the answer, then announce with ARP.
  Each \<^verbatim>\<open>goto end\<close> is a branch that returns the state so far; a request that times out goes on.\<close>

definition initialise_ethernet ::
  "(nat \<Rightarrow> 'a net_state_scheme \<Rightarrow> 'a net_state_scheme) \<Rightarrow> dhcp_header \<Rightarrow> bytes \<Rightarrow>
   (nat \<Rightarrow> nat \<Rightarrow> ethernet_package_descriptor list) \<Rightarrow> (nat \<Rightarrow> nat \<Rightarrow> bool) \<Rightarrow> 'a net_state_scheme \<Rightarrow> 'a net_state_scheme option" where
  "initialise_ethernet env fresh beyond polls waiting s =
    (let s = s\<lparr>ipv4_count := 0\<rparr> in
     if is_enabled (default_ethernet_device s) = 0 then Some s
     else do {
       (_, s) \<leftarrow> dhcp_send env fresh (your_ip s) (dhcp_ip s) 1 s;
       (n, d) \<leftarrow> udp_receive (polls 0) (waiting 0) 548 68;
       let m = dhcp_memory beyond d in
       if n = 0 then Some s
       else if htonl (get32 m 236) \<noteq> 0x63825363 then Some s
       else do {
         let s = snd (dhcp_parse_options m s);
         (_, s) \<leftarrow> dhcp_send env fresh (your_ip s) (dhcp_ip s) 3 s;
         (n, d) \<leftarrow> udp_receive (polls 1) (waiting 1) 548 68;
         let m = dhcp_memory beyond d in
         if n \<noteq> 0 \<and> htonl (get32 m 236) \<noteq> 0x63825363 then Some s
         else if n \<noteq> 0 \<and> m (240 + 2) \<noteq> 5 then Some s
         else
           let dev = default_ethernet_device s;
               dev = dev\<lparr>client_ip := fillIP (client_ip dev) (your_ip s), server_ip := fillIP (server_ip dev) (dhcp_ip s)\<rparr>;
               s = ethernet_set_link_status 1 (s\<lparr>default_ethernet_device := dev\<rparr>)
           in Some (init_arp env s) } })"

end
