(* ===== verification/Netprops.thy ===== *)
theory Netprops
  imports Net
begin

text \<open>
  Correctness of the network stack: the port allocator meets the contract of \<open>bit_allocator\<close>, the
  ARP cache returns what was saved in it, every packet that goes out carries valid checksums, the
  TCP connection table follows its life cycle and the DHCP parser finds the offered addresses.
\<close>

section \<open>Ports\<close>

lemma port_scan_bits_find:
  "b \<le> 8 \<Longrightarrow> port_scan_bits v b (of_nat (8 * i + b)) =
     (case find_from (\<lambda>t. \<not> bit v t) b 8 of Some t \<Rightarrow> Inl (t, of_nat (8 * i + t)) | None \<Rightarrow> Inr (of_nat (8 * i + 8)))"
proof (induction "8 - b" arbitrary: b)
  case 0
  then have "b = 8" by simp
  then show ?case by (simp add: port_scan_bits.simps [of v 8] find_from.simps)
next
  case (Suc n)
  then have "b < 8" by simp
  with Suc(1) [of "b + 1"] Suc(2) show ?case
    by (simp add: port_scan_bits.simps [of v b] find_from.simps [of _ b] test_bit_and add.assoc [symmetric]) (simp add: algebra_simps)
qed

lemma port_scan_find:
  "i \<le> 8192 \<Longrightarrow> port_scan bm i (of_nat (8 * i)) =
     (case find_from (\<lambda>k. \<not> bmp_bit bm k) (8 * i) 65536 of
        Some k \<Rightarrow> Inl (k div 8, k mod 8, of_nat k) | None \<Rightarrow> Inr 65536)"
proof (induction "8192 - i" arbitrary: i)
  case 0
  then have "i = 8192" by simp
  then show ?case by (simp add: port_scan.simps [of bm 8192] find_from.simps)
next
  case (Suc n)
  then have i: "i < 8192" by simp
  have split: "find_from (\<lambda>k. \<not> bmp_bit bm k) (8 * i) 65536 =
    (case map_option (\<lambda>t. 8 * i + t) (find_from (\<lambda>t. \<not> bit (bm i) t) 0 8) of Some j \<Rightarrow> Some j
     | None \<Rightarrow> find_from (\<lambda>k. \<not> bmp_bit bm k) (8 * (i + 1)) 65536)"
    unfolding byte_find [symmetric] distrib_left mult_1_right
    by (rule find_from_split) (use i in simp_all)
  have bits: "port_scan_bits (bm i) 0 (of_nat (8 * i)) = (case find_from (\<lambda>t. \<not> bit (bm i) t) 0 8 of
      Some t \<Rightarrow> Inl (t, of_nat (8 * i + t)) | None \<Rightarrow> Inr (of_nat (8 * (i + 1))))"
    using port_scan_bits_find [OF le0, of "bm i" i] by (simp only: add_0_right distrib_left mult_1_right)
  have IH: "port_scan bm (i + 1) (of_nat (8 * (i + 1))) =
     (case find_from (\<lambda>k. \<not> bmp_bit bm k) (8 * (i + 1)) 65536 of
        Some k \<Rightarrow> Inl (k div 8, k mod 8, of_nat k) | None \<Rightarrow> Inr 65536)"
    by (rule Suc(1)) (use Suc(2) in simp_all)
  show ?case
  proof (cases "find_from (\<lambda>t. \<not> bit (bm i) t) 0 8")
    case None
    then show ?thesis using i bits IH split by (simp only: port_scan.simps [of bm i]) simp
  next
    case (Some t)
    then have "t < 8" by (simp add: find_from_Some)
    with Some show ?thesis using i bits split by (simp only: port_scan.simps [of bm i]) simp
  qed
qed

abbreviation port_used :: "'a net_state_scheme \<Rightarrow> nat \<Rightarrow> bool" where
  "port_used s \<equiv> bmp_bit (port_bitmap s)"

lemma get_port_find:
  "get_port s = (case find_from (\<lambda>k. \<not> port_used s k) 0 65536 of
      None \<Rightarrow> (0, s)
    | Some k \<Rightarrow> (of_nat k, s\<lparr>port_bitmap := (port_bitmap s)(k div 8 := port_bitmap s (k div 8) OR push_bit (k mod 8) 1)\<rparr>))"
proof (cases "find_from (\<lambda>k. \<not> port_used s k) 0 65536")
  case None
  with port_scan_find [of 0 "port_bitmap s"] show ?thesis by (simp add: get_port_def)
next
  case (Some k)
  then have k: "k < 65536" by (simp add: find_from_Some)
  then have "\<not> (of_nat k :: u32) \<ge> 65536" by (simp add: word_le_nat_alt unat_of_nat_small)
  moreover have "(ucast (of_nat k :: u32) :: u16) = of_nat k" by (rule ucast_of_nat_small) (use k in simp)
  ultimately show ?thesis using Some port_scan_find [of 0 "port_bitmap s"] by (simp add: get_port_def)
qed

lemma set_port_spec:
  "set_port p s = (if port_used s (unat p) then (0, s)
     else (p, s\<lparr>port_bitmap := (port_bitmap s)(unat p div 8 := port_bitmap s (unat p div 8) OR push_bit (unat p mod 8) 1)\<rparr>))"
  by (simp add: set_port_def Let_def bmp_bit_def unat_div unat_mod test_bit_and)

lemma clean_port_spec:
  "snd (clean_port p s) = s\<lparr>port_bitmap := (port_bitmap s)(unat p div 8 := port_bitmap s (unat p div 8) AND NOT (push_bit (unat p mod 8) 1))\<rparr>"
  by (simp add: clean_port_def Let_def unat_div unat_mod)

lemma set_port_used: "\<not> port_used s (unat p) \<Longrightarrow> port_used (snd (set_port p s)) = (port_used s)(unat p := True)"
  using bmp_bit_set [of "unat p mod 8" "port_bitmap s" "unat p div 8"] by (simp add: set_port_spec)

lemma clean_port_used: "port_used (snd (clean_port p s)) = (port_used s)(unat p := False)"
  using bmp_bit_clear [of "unat p mod 8" "port_bitmap s" "unat p div 8"] by (simp add: clean_port_spec)

text \<open>Port 0 is never handed out: it means failure.  The setup reserves it.\<close>

definition port_alloc :: "'a net_state_scheme \<Rightarrow> (nat \<times> 'a net_state_scheme) option" where
  "port_alloc s = (let (p, s') = get_port s in if p = 0 then None else Some (unat p, s'))"

definition port_release :: "nat \<Rightarrow> 'a net_state_scheme \<Rightarrow> 'a net_state_scheme" where
  "port_release k s = snd (clean_port (of_nat k) s)"

abbreviation port_ok :: "'a net_state_scheme \<Rightarrow> bool" where "port_ok s \<equiv> port_used s 0"

lemma port_find_pos:
  assumes "port_ok s" and "find_from (\<lambda>k. \<not> port_used s k) 0 65536 = Some k"
  shows "1 \<le> k" "k < 65536" "(of_nat k :: u16) \<noteq> 0" "unat (of_nat k :: u16) = k"
proof -
  from assms show k: "1 \<le> k" "k < 65536" by (auto simp: find_from_Some intro: Suc_leI gr0I)
  then show u: "unat (of_nat k :: u16) = k" by (intro unat_of_nat_small) simp
  with k(1) show "(of_nat k :: u16) \<noteq> 0" by auto
qed

lemma port_alloc_Some:
  assumes "port_ok s" and "port_alloc s = Some (k, s')"
  shows "find_from (\<lambda>k. \<not> port_used s k) 0 65536 = Some k" and "port_used s' = (port_used s)(k := True)"
    and "s' = s\<lparr>port_bitmap := port_bitmap s'\<rparr>"
proof -
  from assms obtain j where j: "find_from (\<lambda>k. \<not> port_used s k) 0 65536 = Some j"
    by (auto simp: port_alloc_def get_port_find split: option.splits)
  note pos = port_find_pos [OF assms(1) j]
  from assms(2) j have k: "k = j" and
    s': "s' = s\<lparr>port_bitmap := (port_bitmap s)(j div 8 := port_bitmap s (j div 8) OR push_bit (j mod 8) 1)\<rparr>"
    by (auto simp: port_alloc_def get_port_find pos split: if_splits)
  show "find_from (\<lambda>k. \<not> port_used s k) 0 65536 = Some k" using j k by simp
  show "port_used s' = (port_used s)(k := True)"
    using bmp_bit_set [of "j mod 8" "port_bitmap s" "j div 8"] by (simp add: s' k)
  show "s' = s\<lparr>port_bitmap := port_bitmap s'\<rparr>" by (simp add: s')
qed

lemma port_release_used:
  assumes "k < 65536"
  shows "port_used (port_release k s) = (port_used s)(k := False)"
proof -
  have "unat (of_nat k :: u16) = k" using assms by (intro unat_of_nat_small) simp
  then show ?thesis
    using bmp_bit_clear [of "k mod 8" "port_bitmap s" "k div 8"] by (simp add: port_release_def clean_port_spec)
qed

interpretation port: bit_allocator port_ok port_used port_alloc port_release 1 65536
proof
  fix s s' :: "'a net_state_scheme" and k
  assume ok: "port_ok s"
  show "1 \<le> k \<Longrightarrow> k < 65536 \<Longrightarrow> port_used (port_release k s) = (port_used s)(k := False)"
    by (rule port_release_used)
  then show "1 \<le> k \<Longrightarrow> k < 65536 \<Longrightarrow> port_ok (port_release k s)" using ok by simp
  show "\<forall>k. 1 \<le> k \<and> k < 65536 \<longrightarrow> port_used s k" if "port_alloc s = None"
    using that port_find_pos(3) [OF ok]
    by (auto simp: port_alloc_def get_port_find find_from_None split: option.splits if_splits)
  assume al: "port_alloc s = Some (k, s')"
  note p = port_alloc_Some [OF ok al] port_find_pos [OF ok port_alloc_Some(1) [OF ok al]]
  show "port_ok s'" using p(2) ok by simp
  show "1 \<le> k \<and> k < 65536 \<and> \<not> port_used s k \<and> (\<forall>j. 1 \<le> j \<and> j < k \<longrightarrow> port_used s j) \<and>
      port_used s' = (port_used s)(k := True)"
    using p by (simp add: find_from_Some)
qed

section \<open>The ARP cache\<close>

definition arp_wf :: "'a net_state_scheme \<Rightarrow> bool" where
  "arp_wf s \<longleftrightarrow> length (arp_cache s) = 1024 \<and>
     (\<forall>e \<in> set (arp_cache s). length (ac_ip e) = 4 \<and> length (ac_mac e) = 6)"

lemma same_ip_iff: "length a = 4 \<Longrightarrow> length b = 4 \<Longrightarrow> same_ip a b \<longleftrightarrow> a = b"
  by (auto simp: same_ip_def numeral_eq_Suc length_Suc_conv)

lemma same_mac_iff: "length a = 6 \<Longrightarrow> length b = 6 \<Longrightarrow> same_mac a b \<longleftrightarrow> a = b"
  by (auto simp: same_mac_def numeral_eq_Suc length_Suc_conv)

lemma ip_sum_iff: "length a = 4 \<Longrightarrow> ip_sum a = 0 \<longleftrightarrow> a = [0, 0, 0, 0]"
  by (auto simp: ip_sum_def numeral_eq_Suc length_Suc_conv unat_eq_zero)

lemma fill_simps: "length f = 6 \<Longrightarrow> length t = 6 \<Longrightarrow> fillMac t f = f"
  "length f = 4 \<Longrightarrow> length t = 4 \<Longrightarrow> fillIP t f = f"
  by (simp_all add: fillMac_def fillIP_def)

lemma arp_wf_nth: "arp_wf s \<Longrightarrow> i < 1024 \<Longrightarrow>
    length (ac_ip (arp_cache s ! i)) = 4 \<and> length (ac_mac (arp_cache s ! i)) = 6"
  by (simp add: arp_wf_def)

lemma arp_get_spec:
  assumes "arp_wf s" and "length ip = 4" and "length m = 6"
  shows "arp_cache_get_address m ip s =
    map_option (\<lambda>i. ac_mac (arp_cache s ! i)) (find_from (\<lambda>i. ac_ip (arp_cache s ! i) = ip) 0 1024)"
proof -
  have "find_from (\<lambda>i. same_ip ip (ac_ip (arp_cache s ! i))) 0 1024 = find_from (\<lambda>i. ac_ip (arp_cache s ! i) = ip) 0 1024"
    by (rule find_from_cong) (use assms arp_wf_nth [OF assms(1)] in \<open>auto simp: same_ip_iff\<close>)
  moreover have "i < 1024" if "find_from (\<lambda>i. ac_ip (arp_cache s ! i) = ip) 0 1024 = Some i" for i
    using that by (simp add: find_from_Some)
  ultimately show ?thesis
    using assms arp_wf_nth [OF assms(1)]
    by (cases "find_from (\<lambda>i. ac_ip (arp_cache s ! i) = ip) 0 1024")
       (simp_all add: arp_cache_get_address_def fill_simps)
qed

lemma arp_save_spec:
  assumes "arp_wf s" and "length ip = 4" and "length m = 6" and "ip ! 0 \<noteq> 0"
  shows "arp_save_address ip m s =
    (if \<exists>i<1024. arp_cache s ! i = \<lparr>ac_mac = m, ac_ip = ip\<rparr> then (0, s)
     else case find_from (\<lambda>i. ac_ip (arp_cache s ! i) = [0, 0, 0, 0]) 0 1024 of
       None \<Rightarrow> (1, s)
     | Some i \<Rightarrow> (1, s\<lparr>arp_cache := (arp_cache s)[i := \<lparr>ac_mac = m, ac_ip = ip\<rparr>]\<rparr>))"
proof -
  let ?c = "arp_cache s"
  let ?P = "\<lambda>i. ac_ip (?c ! i) ! 0 \<noteq> 0 \<and> same_ip ip (ac_ip (?c ! i)) \<and> same_mac m (ac_mac (?c ! i))"
  have P: "?P i \<longleftrightarrow> ?c ! i = \<lparr>ac_mac = m, ac_ip = ip\<rparr>" if "i < 1024" for i
    using assms arp_wf_nth [OF assms(1) that]
    by (cases "?c ! i") (auto simp: same_ip_iff same_mac_iff)
  have found: "find_from ?P 0 1024 = None \<longleftrightarrow> \<not> (\<exists>i<1024. ?c ! i = \<lparr>ac_mac = m, ac_ip = ip\<rparr>)"
    unfolding find_from_None using P by blast
  have free: "find_from (\<lambda>i. ip_sum (ac_ip (?c ! i)) = 0) 0 1024 = find_from (\<lambda>i. ac_ip (?c ! i) = [0, 0, 0, 0]) 0 1024"
    by (rule find_from_cong) (use arp_wf_nth [OF assms(1)] in \<open>simp add: ip_sum_iff\<close>)
  have upd: "(?c ! i)\<lparr>ac_mac := fillMac (ac_mac (?c ! i)) m, ac_ip := fillIP (ac_ip (?c ! i)) ip\<rparr> = \<lparr>ac_mac = m, ac_ip = ip\<rparr>"
    if "i < 1024" for i
    using assms(2,3) arp_wf_nth [OF assms(1) that] by (cases "?c ! i") (simp add: fill_simps)
  show ?thesis
  proof (cases "find_from ?P 0 1024")
    case None
    moreover have "i < 1024" if "find_from (\<lambda>i. ac_ip (?c ! i) = [0, 0, 0, 0]) 0 1024 = Some i" for i
      using that by (simp add: find_from_Some)
    ultimately show ?thesis using found free upd
      by (cases "find_from (\<lambda>i. ac_ip (?c ! i) = [0, 0, 0, 0]) 0 1024")
         (simp_all add: arp_save_address_def Let_def)
  next
    case (Some i)
    with found show ?thesis by (auto simp: arp_save_address_def Let_def)
  qed
qed

lemma arp_save_lookup:
  assumes wf: "arp_wf s" and len: "length ip = 4" "length m = 6" "length m0 = 6" and nz: "ip ! 0 \<noteq> 0"
    and new: "\<forall>i<1024. ac_ip (arp_cache s ! i) \<noteq> ip"
    and room: "i < 1024" "ac_ip (arp_cache s ! i) = [0, 0, 0, 0]"
    and save: "arp_save_address ip m s = (r, s')"
  shows "arp_wf s' \<and> r = 1 \<and> arp_cache_get_address m0 ip s' = Some m \<and>
    (\<forall>ip'. length ip' = 4 \<longrightarrow> ip' ! 0 \<noteq> 0 \<longrightarrow> ip' \<noteq> ip \<longrightarrow>
       arp_cache_get_address m0 ip' s' = arp_cache_get_address m0 ip' s)"
proof -
  let ?c = "arp_cache s"
  from room obtain k where k: "find_from (\<lambda>i. ac_ip (?c ! i) = [0, 0, 0, 0]) 0 1024 = Some k"
    using find_from_None [of "\<lambda>i. ac_ip (?c ! i) = [0, 0, 0, 0]" 0 1024] by (cases "find_from (\<lambda>i. ac_ip (?c ! i) = [0, 0, 0, 0]) 0 1024") auto
  have "\<not> (\<exists>i<1024. ?c ! i = \<lparr>ac_mac = m, ac_ip = ip\<rparr>)" using new by force
  with arp_save_spec [OF wf len(1,2) nz] k save
  have r: "r = 1" and s': "s' = s\<lparr>arp_cache := ?c[k := \<lparr>ac_mac = m, ac_ip = ip\<rparr>]\<rparr>" by auto
  have kk: "k < 1024" "ac_ip (?c ! k) = [0, 0, 0, 0]" using k by (auto simp: find_from_Some)
  have lc: "length ?c = 1024" using wf by (simp add: arp_wf_def)
  have wf': "arp_wf s'"
    using wf len kk by (auto simp: s' arp_wf_def dest!: set_update_subset_insert [THEN subsetD])
  have nth': "arp_cache s' ! i = (if i = k then \<lparr>ac_mac = m, ac_ip = ip\<rparr> else ?c ! i)" if "i < 1024" for i
    using that kk lc by (simp add: s' nth_list_update)
  have "find_from (\<lambda>i. ac_ip (arp_cache s' ! i) = ip) 0 1024 = Some k"
    using kk new by (auto simp: find_from_Some nth')
  then have get: "arp_cache_get_address m0 ip s' = Some m"
    using kk by (simp add: arp_get_spec [OF wf' len(1,3)] nth')
  have "arp_cache_get_address m0 ip' s' = arp_cache_get_address m0 ip' s"
    if "length ip' = 4" "ip' ! 0 \<noteq> 0" "ip' \<noteq> ip" for ip'
  proof -
    have "find_from (\<lambda>i. ac_ip (arp_cache s' ! i) = ip') 0 1024 = find_from (\<lambda>i. ac_ip (?c ! i) = ip') 0 1024"
      by (rule find_from_cong) (use kk that in \<open>auto simp: nth'\<close>)
    moreover have "i \<noteq> k" if "find_from (\<lambda>i. ac_ip (?c ! i) = ip') 0 1024 = Some i" for i
      using that kk \<open>ip' ! 0 \<noteq> 0\<close> by (auto simp: find_from_Some)
    ultimately show ?thesis
      by (auto simp: arp_get_spec [OF wf' that(1) len(3)] arp_get_spec [OF wf that(1) len(3)] nth' find_from_Some
          intro!: option.map_cong0)
  qed
  with wf' r get show ?thesis by blast
qed

section \<open>Packets on the wire\<close>

lemma hardwere_loop_0:
  assumes "hardwere_loop env k n m s = Some (e, m', s')" and "0 < n"
  shows "e = 0"
proof -
  have "0 < n \<longrightarrow> fst (e, m', s') = 0"
    by (rule hardwere_loop.raw_induct [where P = "\<lambda>env k n m s r. 0 < n \<longrightarrow> fst r = 0", OF _ assms(1)])
       (auto split: if_splits option.splits)
  with assms(2) show ?thesis by simp
qed

lemma htons_0 [simp]: "htons 0 = 0" "le16 0 = [0, 0]"
  by (simp_all add: htons_def le16_def)

definition ipv4_hdr :: "nat \<Rightarrow> u8 \<Rightarrow> u32 \<Rightarrow> u32 \<Rightarrow> u32 \<Rightarrow> u8 list" where
  "ipv4_hdr n prot src_address dst_address count =
    (let len = of_nat n + 20 :: u32;
         hdr = \<lparr>ihl = 5, ver = 4, tos = 0, ip_len = htons (ucast len), ip_id = htons (ucast count),
              ip_offset = htons 0x4000, ttl = 64, ip_protocol = prot, ip_checksum = 0,
              ip_src = src_address, ip_dst = dst_address\<rparr>
     in ipv4_bytes (hdr\<lparr>ip_checksum := htons (net_checksum None (ipv4_bytes hdr))\<rparr>))"

lemma ipv4_hdr_valid: "wsum (ipv4_hdr n prot a b c) mod 65535 = 0 \<and> 0 < wsum (ipv4_hdr n prot a b c)" and ipv4_hdr_length: "length (ipv4_hdr n prot a b c) = 20"
  and ipv4_hdr_ends: "ipv4_hdr n prot a b c ! 9 = prot" "drop 12 (ipv4_hdr n prot a b c) = le32 a @ le32 b"
proof -
  define h where "h = \<lparr>ihl = 5, ver = 4, tos = 0, ip_len = htons (ucast (of_nat n + 20 :: u32)), ip_id = htons (ucast c),
              ip_offset = htons 0x4000, ttl = 64, ip_protocol = prot, ip_checksum = 0,
              ip_src = a, ip_dst = b\<rparr>"
  define x y where "x = [(ihl h AND 15) OR push_bit 4 (ver h AND 15), tos h] @ le16 (ip_len h) @ le16 (ip_id h)
     @ le16 (ip_offset h) @ [ttl h, ip_protocol h]" and "y = le32 (ip_src h) @ le32 (ip_dst h)"
  have bytes: "ipv4_bytes (h\<lparr>ip_checksum := w\<rparr>) = x @ le16 w @ y" for w
    by (simp add: ipv4_bytes_def x_def y_def)
  have h0: "ipv4_bytes h = x @ [0, 0] @ y" by (simp add: ipv4_bytes_def x_def y_def h_def)
  have len: "length x = 10" "length y = 8" by (simp_all add: x_def y_def)
  have eq: "ipv4_hdr n prot a b c = x @ le16 (htons (net_checksum None (x @ [0, 0] @ y))) @ y"
    unfolding ipv4_hdr_def Let_def h_def [symmetric] bytes h0 ..
  have "wsum (x @ [0, 0] @ y) \<le> 65535 * 10"
    using wsum_bound [of "x @ [0, 0] @ y"] len by simp
  then show "wsum (ipv4_hdr n prot a b c) mod 65535 = 0 \<and> 0 < wsum (ipv4_hdr n prot a b c)"
    unfolding eq using len checksum_field [of None x y] by (simp add: psum_def)
  show "length (ipv4_hdr n prot a b c) = 20" unfolding eq using len by simp
  show "drop 12 (ipv4_hdr n prot a b c) = le32 a @ le32 b" unfolding eq using len by (simp add: y_def h_def)
  have "x ! 9 = prot" by (simp add: x_def h_def le16_def)
  then show "ipv4_hdr n prot a b c ! 9 = prot" unfolding eq using len by (simp add: nth_append)
qed

lemma ipv4_send_frame:
  assumes "ipv4_send env body prot a b s = Some (r, s')"
  obtains m s1 where
    "s' = snd (send_ethernet_package (ether_bytes \<lparr>eh_dst = take 6 m,
        eh_src = take 6 (dev_mac (default_ethernet_device s1)), eh_type = htons 0x0800\<rparr>
        @ ipv4_hdr (length body) prot a b (ipv4_count s1) @ body) (s1\<lparr>ipv4_count := ipv4_count s1 + 1\<rparr>))"
    "if b = 0xFFFFFFFF then m = everyone \<and> s1 = s else get_hardwere_ethernet env everyone b s = Some (0, m, s1)"
proof -
  from assms obtain e m s1 where
    look: "(if b \<noteq> 0xFFFFFFFF then get_hardwere_ethernet env everyone b s else Some (0, everyone, s)) = Some (e, m, s1)"
    by (auto simp: ipv4_send_def split: Option.bind_splits)
  then have e: "e = 0" by (auto simp: get_hardwere_ethernet_def split: if_splits dest: hardwere_loop_0)
  have "s' = snd (send_ethernet_package (ether_bytes \<lparr>eh_dst = take 6 m,
        eh_src = take 6 (dev_mac (default_ethernet_device s1)), eh_type = htons 0x0800\<rparr>
        @ ipv4_hdr (length body) prot a b (ipv4_count s1) @ body) (s1\<lparr>ipv4_count := ipv4_count s1 + 1\<rparr>))"
    using assms unfolding ipv4_send_def look e by (simp add: Let_def ipv4_hdr_def split: prod.splits)
  with look e that show ?thesis by (auto split: if_splits)
qed

lemma pad4_2: "length b mod 4 = 2 \<Longrightarrow> pad4 b = b @ [0, 0]"
  by (simp add: pad4.simps [of b] pad4.simps [of "b @ [0]"] pad4.simps [of "b @ [0, 0]"] mod_Suc)

text \<open>The pseudo header of a segment of \<open>n\<close> bytes: the addresses, a zero, the protocol and the length with its high byte first.\<close>

definition pseudo :: "u32 \<Rightarrow> u32 \<Rightarrow> nat \<Rightarrow> u8 list" where
  "pseudo a b n = checksum_bytes \<lparr>ch_src = a, ch_dst = b, ch_rsved = 0, ch_protocol = 6, ch_len = htons (of_nat n)\<rparr>"

lemma le16_htons: "le16 (htons w) = [ucast (drop_bit 8 w), ucast w]"
  by (simp add: le16_def htons_def) (auto intro!: word_eq_bits simp: bit_simps)

lemma pseudo_bytes: "pseudo a b n = le32 a @ le32 b @ [0, 6, ucast (drop_bit 8 (of_nat n :: u16)), ucast (of_nat n :: u16)]"
  by (simp add: pseudo_def checksum_bytes_def le16_htons)

lemma tcp_segment_valid:
  assumes "length data \<le> 65000"
  shows "length (tcp_segment a b sp dp sq ak fl data) = 28 + length data"
    and "(wsum (pseudo a b (28 + length data)) + wsum (tcp_segment a b sp dp sq ak fl data)) mod 65535 = 0"
    and "0 < wsum (pseudo a b (28 + length data)) + wsum (tcp_segment a b sp dp sq ak fl data)"
proof -
  define opts where "opts = [2, 4] @ le16 (htons 1460) @ [4, 2 :: u8] @ [0, 0]"
  define t where "t = \<lparr>tcp_src_port = htons sp, tcp_dst_port = htons dp, tcp_seq = htonl sq, tcp_ackn = htonl ak,
           tcp_off = 0, tcp_flags = fl, window_size = htons 4096, tcp_checksum = 0, urgent = 0\<rparr>"
  define x where "x = le16 (htons sp) @ le16 (htons dp) @ le32 (htonl sq) @ le32 (htonl ak) @ [112, fl] @ le16 (htons 4096)"
  define y where "y = [0, 0] @ opts @ data"
  have len: "length x = 16" "length y = 10 + length data" by (simp_all add: x_def y_def opts_def)
  have lt: "length (tcp_bytes t) = 20" by (simp add: tcp_bytes_def t_def)
  have head: "pad4 (tcp_bytes t @ [2, 4] @ le16 (htons 1460) @ [4, 2]) = tcp_bytes t @ opts"
    by (subst pad4_2) (simp_all add: lt opts_def)
  have bytes: "tcp_bytes (t\<lparr>tcp_off := 112, tcp_checksum := w\<rparr>) @ opts @ data = x @ le16 w @ y" for w
    by (simp add: tcp_bytes_def t_def x_def y_def)
  have l28: "length (tcp_bytes t @ opts) = 28" by (simp add: lt opts_def)
  have seg: "tcp_segment a b sp dp sq ak fl data =
      x @ le16 (htons (net_checksum (Some (pseudo a b (28 + length data))) (x @ [0, 0] @ y))) @ y"
  proof -
    have z: "x @ [0, 0] @ y = tcp_bytes (t\<lparr>tcp_off := 112\<rparr>) @ opts @ data"
      by (simp add: tcp_bytes_def t_def x_def y_def)
    have lz: "length (tcp_bytes (t\<lparr>tcp_off := 112\<rparr>) @ opts @ data) = 28 + length data"
      unfolding z [symmetric] by (simp add: len)
    have off: "of_nat (4 * 28) = (112 :: u8)" by simp
    have dr: "drop 20 (tcp_bytes t @ opts) = opts" by (simp add: lt)
    show ?thesis
      unfolding tcp_segment_def Let_def htons_0 t_def [symmetric] head l28 off dr lz
      by (simp only: bytes z pseudo_def)
  qed
  show "length (tcp_segment a b sp dp sq ak fl data) = 28 + length data" unfolding seg by (simp add: len)
  have lp: "length (pseudo a b n) = 12" for n by (simp add: pseudo_def checksum_bytes_def)
  have "wsum (pseudo a b (28 + length data)) \<le> 393210" using wsum_bound [of "pseudo a b (28 + length data)"] by (simp only: lp) simp
  moreover have "wsum (x @ [0, 0] @ y) \<le> 2200000000"
    by (rule order_trans [OF wsum_bound]) (use len assms in simp)
  moreover have "(2 :: nat) ^ 32 = 4294967296" by simp
  ultimately have "psum (Some (pseudo a b (28 + length data))) + wsum (x @ [0, 0] @ y) + 65535 < 2 ^ 32"
    unfolding psum_def option.case by linarith
  then have v: "(wsum (pseudo a b (28 + length data)) + wsum (tcp_segment a b sp dp sq ak fl data)) mod 65535 = 0 \<and>
      0 < wsum (pseudo a b (28 + length data)) + wsum (tcp_segment a b sp dp sq ak fl data)"
    unfolding seg using len lp checksum_field [of "Some (pseudo a b (28 + length data))" x y] by (simp add: psum_def)
  show "(wsum (pseudo a b (28 + length data)) + wsum (tcp_segment a b sp dp sq ak fl data)) mod 65535 = 0" by (rule conjunct1 [OF v])
  show "0 < wsum (pseudo a b (28 + length data)) + wsum (tcp_segment a b sp dp sq ak fl data)" by (rule conjunct2 [OF v])
qed

section \<open>TCP connections\<close>

text \<open>With the router in the ARP cache no send has to wait: it puts one frame on the wire and counts it.\<close>

definition resolved :: "'a net_state_scheme \<Rightarrow> bool" where
  "resolved s \<longleftrightarrow> arp_cache_get_address everyone (router_ip s) s \<noteq> None"

lemma resolved_lookup:
  assumes "resolved s"
  obtains m where "\<And>b. get_hardwere_ethernet env everyone b s = Some (0, m, s)"
  using assms hardwere_loop.simps [of env 0 2 everyone s] that
  by (auto simp: resolved_def get_hardwere_ethernet_def)

lemma resolved_mac:
  assumes "resolved s" and "arp_wf s"
  shows "\<exists>m. get_hardwere_ethernet env everyone b s = Some (0, m, s) \<and> 6 \<le> length m"
proof -
  obtain i where i: "find_from (\<lambda>i. same_ip (router_ip s) (ac_ip (arp_cache s ! i))) 0 1024 = Some i"
    using assms(1) by (auto simp: resolved_def arp_cache_get_address_def split: option.splits)
  then have "i < length (arp_cache s)" using assms(2) by (simp add: find_from_Some arp_wf_def)
  then have "length (ac_mac (arp_cache s ! i)) = 6" using assms(2) nth_mem by (fastforce simp: arp_wf_def)
  with i show ?thesis
    by (simp add: get_hardwere_ethernet_def hardwere_loop.simps [of env 0 2 everyone s] arp_cache_get_address_def fillMac_def)
qed

definition sent :: "u8 list list \<Rightarrow> 'a net_state_scheme \<Rightarrow> 'a net_state_scheme" where
  "sent fs s = s\<lparr>wire := wire s @ fs, ipv4_count := ipv4_count s + 1\<rparr>"

lemma ipv4_send_resolved:
  assumes "resolved s"
  obtains r fs where "ipv4_send env body prot a b s = Some (r, sent fs s)"
    "is_enabled (default_ethernet_device s) \<noteq> 0 \<Longrightarrow> \<exists>eh. fs = [eh @ ipv4_hdr (length body) prot a b (ipv4_count s) @ body]"
    "is_enabled (default_ethernet_device s) = 0 \<Longrightarrow> fs = []"
proof -
  obtain m where m: "get_hardwere_ethernet env everyone b s = Some (0, m, s)"
    using resolved_lookup [OF assms, of env] by blast
  have "\<exists>r s'. ipv4_send env body prot a b s = Some (r, s')"
    by (cases "b = 0xFFFFFFFF") (auto simp: ipv4_send_def m Let_def split: prod.split)
  then obtain r s' where ok: "ipv4_send env body prot a b s = Some (r, s')" by blast
  obtain m' s1 where s': "s' = snd (send_ethernet_package (ether_bytes \<lparr>eh_dst = take 6 m',
        eh_src = take 6 (dev_mac (default_ethernet_device s1)), eh_type = htons 0x0800\<rparr>
        @ ipv4_hdr (length body) prot a b (ipv4_count s1) @ body) (s1\<lparr>ipv4_count := ipv4_count s1 + 1\<rparr>))"
    and "if b = 0xFFFFFFFF then m' = everyone \<and> s1 = s else get_hardwere_ethernet env everyone b s = Some (0, m', s1)"
    by (rule ipv4_send_frame [OF ok])
  then have s1: "s1 = s" using m by (auto split: if_splits)
  show ?thesis
    by (rule that [of r "if is_enabled (default_ethernet_device s) = 0 then [] else
        [ether_bytes \<lparr>eh_dst = take 6 m', eh_src = take 6 (dev_mac (default_ethernet_device s1)), eh_type = htons 0x0800\<rparr>
        @ ipv4_hdr (length body) prot a b (ipv4_count s1) @ body]"])
       (auto simp: ok s' s1 sent_def send_ethernet_package_def)
qed

lemma tcp_send_resolved:
  assumes "resolved s"
  obtains fs where "tcp_send env a b sp dp sq ak fl data s = Some (int (length data), sent fs s)"
    "is_enabled (default_ethernet_device s) \<noteq> 0 \<Longrightarrow> \<exists>eh. fs = [eh
       @ ipv4_hdr (length (tcp_segment a b sp dp sq ak fl data)) 6 a b (ipv4_count s) @ tcp_segment a b sp dp sq ak fl data]"
  by (rule ipv4_send_resolved [OF assms, of env "tcp_segment a b sp dp sq ak fl data" 6 a b])
     (auto simp: tcp_send_def intro: that)

lemma resolved_frame [simp]: "resolved (sent fs s) = resolved s" "resolved (upd_conn i f s) = resolved s"
  by (simp_all add: resolved_def sent_def upd_conn_def arp_cache_get_address_def option.case_eq_if)

lemma sent_fields [simp]:
  "queue_conn (sent fs s) = queue_conn s" "default_ethernet_device (sent fs s) = default_ethernet_device s"
  "default_ethernet_device (upd_conn i f s) = default_ethernet_device s" "wire (upd_conn i f s) = wire s"
  "wire (sent fs s) = wire s @ fs"
  by (simp_all add: sent_def upd_conn_def)

lemma upd_conn_queue [simp]:
  "queue_conn (upd_conn i f s) = (queue_conn s)[i := f (queue_conn s ! i)]"
  by (simp add: upd_conn_def)

lemma send_conn_resolved:
  assumes "resolved s"
  obtains fs where "send_conn env i data s = Some (int (length data), sent fs s)"
    "is_enabled (default_ethernet_device s) \<noteq> 0 \<Longrightarrow> length fs = 1"
proof -
  let ?c = "queue_conn s ! i"
  from tcp_send_resolved [OF assms, of env "c_src_ip ?c" "c_dst_ip ?c" "c_src_port ?c" "c_dst_port ?c"
      "c_seq ?c" "c_ack ?c" "c_flags ?c" data]
  obtain fs where "send_conn env i data s = Some (int (length data), sent fs s)"
    and "is_enabled (default_ethernet_device s) \<noteq> 0 \<longrightarrow> length fs = 1"
    by (metis One_nat_def length_Cons list.size(3) send_conn_def)
  then show ?thesis using that by blast
qed

definition conn_match :: "u16 \<Rightarrow> u8 \<Rightarrow> 'a net_state_scheme \<Rightarrow> nat \<Rightarrow> bool" where
  "conn_match p st s i \<longleftrightarrow>
     find_from (\<lambda>i. c_src_port (queue_conn s ! i) = p \<and> c_busy (queue_conn s ! i) = 1 \<and> c_status (queue_conn s ! i) = st) 0 1024 = Some i"

lemma tcp_connect_spec:
  assumes "resolved s" and "length (queue_conn s) = 1024"
    and "find_from (\<lambda>i. c_busy (queue_conn s ! i) = 0) 0 1024 = Some i"
  obtains s' where "tcp_connect_op env a b sp dp s = Some (0, s')"
    "queue_conn s' = (queue_conn s)[i := (queue_conn s ! i)\<lparr>c_src_ip := a, c_dst_ip := b, c_src_port := sp,
       c_dst_port := dp, c_ack := 0, c_pack := 0, c_flags := 2, c_status := 0, c_busy := 1, c_seq := 1\<rparr>]"
    "resolved s'"
proof -
  let ?s1 = "upd_conn i (\<lambda>c. c\<lparr>c_src_ip := a, c_dst_ip := b, c_src_port := sp, c_dst_port := dp, c_seq := 0,
      c_ack := 0, c_pack := 0, c_flags := 2, c_status := 0, c_busy := 1\<rparr>) s"
  have i: "i < 1024" using assms(3) by (simp add: find_from_Some)
  have "resolved ?s1" using assms(1) by simp
  then obtain fs where fs: "send_conn env i [] ?s1 = Some (0, sent fs ?s1)"
    by (rule send_conn_resolved [of _ env i "[]"]) simp
  show ?thesis
    by (rule that [of "upd_conn i (\<lambda>c. c\<lparr>c_seq := c_seq c + 1\<rparr>) (sent fs ?s1)"])
       (use assms i fs in \<open>simp_all add: tcp_connect_op_def\<close>)
qed

lemma tcp_ack_new:
  assumes "resolved s" and "length (queue_conn s) = 1024" and m: "conn_match dp 0 s i"
    and "c_seq (queue_conn s ! i) = ak" and "c_ack (queue_conn s ! i) < sq + seg_len fl len"
  obtains s' where "tcp_ack env a b sp dp sq ak fl len s = Some (if fl AND 1 \<noteq> 0 then 2 else 0, s')" "resolved s'"
    "queue_conn s' = (queue_conn s)[i := if fl AND 1 \<noteq> 0
       then (queue_conn s ! i)\<lparr>c_pack := ak, c_ack := sq + seg_len fl len, c_flags := 0, c_seq := c_seq (queue_conn s ! i) + 1, c_status := 1\<rparr>
       else (queue_conn s ! i)\<lparr>c_pack := ak, c_ack := sq + seg_len fl len, c_flags := 16\<rparr>]"
proof -
  let ?s1 = "upd_conn i (\<lambda>c. c\<lparr>c_pack := ak, c_ack := sq + seg_len fl len, c_flags := 16\<rparr>) s"
  have i: "i < 1024" using m by (simp add: conn_match_def find_from_Some)
  have "resolved ?s1" using assms(1) by simp
  then obtain fs where fs: "send_conn env i [] ?s1 = Some (0, sent fs ?s1)"
    by (rule send_conn_resolved [of _ env i "[]"]) simp
  let ?s2 = "upd_conn i (\<lambda>c. c\<lparr>c_flags := 1 OR 16\<rparr>) (sent fs ?s1)"
  have "resolved ?s2" using assms(1) by simp
  then obtain gs where gs: "send_conn env i [] ?s2 = Some (0, sent gs ?s2)"
    by (rule send_conn_resolved [of _ env i "[]"]) simp
  have nle: "\<not> sq + seg_len fl len \<le> c_ack (queue_conn s ! i)" using assms(5) by simp
  show ?thesis
  proof (cases "fl AND 1 = 0")
    case True
    show ?thesis
      by (rule that [of "sent fs ?s1"])
         (use assms(1,2,4) m i fs nle True in \<open>simp_all add: tcp_ack_def conn_match_def Let_def\<close>)
  next
    case False
    show ?thesis
      by (rule that [of "upd_conn i (\<lambda>c. c\<lparr>c_flags := of_int 0, c_seq := c_seq c + 1, c_status := 1\<rparr>) (sent gs ?s2)"])
         (use assms(1,2,4) m i fs gs nle False in \<open>simp_all add: tcp_ack_def conn_match_def Let_def\<close>)
  qed
qed

lemma tcp_ack_dup:
  assumes "resolved s" and "length (queue_conn s) = 1024" and m: "conn_match dp 0 s i"
    and "c_seq (queue_conn s ! i) = ak" and "sq + seg_len fl len \<le> c_ack (queue_conn s ! i)"
  obtains s' where "tcp_ack env a b sp dp sq ak fl len s = Some (1, s')" "resolved s'"
    "queue_conn s' = (queue_conn s)[i := (queue_conn s ! i)\<lparr>c_flags := 16\<rparr>]"
proof -
  let ?s1 = "upd_conn i (\<lambda>c. c\<lparr>c_flags := 16\<rparr>) s"
  have "resolved ?s1" using assms(1) by simp
  then obtain fs where fs: "send_conn env i [] ?s1 = Some (0, sent fs ?s1)"
    by (rule send_conn_resolved [of _ env i "[]"]) simp
  show ?thesis
    by (rule that [of "sent fs ?s1"])
       (use assms(1,4,5) m fs in \<open>simp_all add: tcp_ack_def conn_match_def Let_def\<close>)
qed

lemma tcp_payload_spec:
  assumes "resolved s" and "length (queue_conn s) = 1024" and m: "conn_match sp 0 s i"
  obtains s' where "tcp_send_payload env a b sp dp fl data s = Some (0, s')" "resolved s'"
    "queue_conn s' = (queue_conn s)[i := (queue_conn s ! i)\<lparr>c_flags := fl,
        c_seq := c_seq (queue_conn s ! i) + of_nat (length data),
        c_status := if fl AND 1 \<noteq> 0 then 1 else c_status (queue_conn s ! i)\<rparr>]"
proof -
  let ?s1 = "upd_conn i (\<lambda>c. c\<lparr>c_flags := fl\<rparr>) s"
  have i: "i < 1024" using m by (simp add: conn_match_def find_from_Some)
  have "resolved ?s1" using assms(1) by simp
  then obtain fs where fs: "send_conn env i data ?s1 = Some (int (length data), sent fs ?s1)"
    by (rule send_conn_resolved)
  let ?s2 = "upd_conn i (\<lambda>c. c\<lparr>c_seq := c_seq c + of_nat (length data)\<rparr>) (sent fs ?s1)"
  show ?thesis
    by (rule that [of "if fl AND 1 \<noteq> 0 then upd_conn i (\<lambda>c. c\<lparr>c_status := 1\<rparr>) ?s2 else ?s2"])
       (use assms(1,2) m i fs in \<open>simp_all add: tcp_send_payload_def conn_match_def Let_def\<close>)
qed

section \<open>Properties of the network stack\<close>

text \<open>A small network: the router 192.168.0.1 is known, every connection slot is free.\<close>

definition net_zero :: net_state where
  "net_zero = \<lparr>default_ethernet_device = \<lparr>dev_mac = [2, 0, 0, 0, 0, 1], client_ip = [0, 0, 0, 0], server_ip = [0, 0, 0, 0],
       is_enabled = 1, is_online = 1, is_interrupt = 0, send_package = \<lambda>_. 0\<rparr>,
     wire = [], your_ip = [192, 168, 0, 2], router_ip = [192, 168, 0, 1], dns_ip = [0, 0, 0, 0], dhcp_ip = [0, 0, 0, 0],
     local_ip = [127, 0, 0, 1], ipv4_count = 0,
     arp_cache = \<lparr>ac_mac = [6, 0, 0, 0, 0, 9], ac_ip = [192, 168, 0, 1]\<rparr> #
       replicate 1023 \<lparr>ac_mac = [0, 0, 0, 0, 0, 0], ac_ip = [0, 0, 0, 0]\<rparr>,
     queue_conn = replicate 1024 tcp_zero, port_bitmap = \<lambda>_. 0\<rparr>"

lemma net_zero_resolved: "resolved net_zero"
  by (simp add: resolved_def arp_cache_get_address_def net_zero_def find_from.simps same_ip_def)

lemma net_zero_queue: "queue_conn net_zero = replicate 1024 tcp_zero"
  by (simp add: net_zero_def)

lemma net_zero_arp: "arp_wf net_zero"
  by (simp add: arp_wf_def net_zero_def)

lemma net_zero_free: "find_from (\<lambda>i. c_busy (queue_conn net_zero ! i) = 0) 0 1024 = Some 0"
  by (simp add: net_zero_queue find_from.simps tcp_zero_def)

text \<open>C27: every segment \<^verbatim>\<open>tcp_send\<close> puts on the wire carries the two addresses and the data and is valid for a receiver that
  adds its 16-bit words: those of the IPv4 header, and those of the segment together with the pseudo header (the addresses,
  the protocol and the length), add up to a positive multiple of 65535.\<close>

theorem tcp_send_checksums:
  assumes "tcp_send env a b sp dp sq ak fl data s = Some (r, s')"
    and "is_enabled (default_ethernet_device s') \<noteq> 0" and "length data \<le> 65000"
  shows "\<exists>w eh ip seg. wire s' = w @ [eh @ ip @ seg] \<and> length ip = 20 \<and> ip ! 9 = 6 \<and> drop 12 ip = le32 a @ le32 b \<and> length seg = 28 + length data \<and> drop 28 seg = data \<and>
    wsum ip mod 65535 = 0 \<and> 0 < wsum ip \<and>
    (let n = of_nat (length seg) :: u16; ph = le32 a @ le32 b @ [0, 6, ucast (drop_bit 8 n), ucast n]
     in (wsum ph + wsum seg) mod 65535 = 0 \<and> 0 < wsum ph + wsum seg)"
proof -
  let ?seg = "tcp_segment a b sp dp sq ak fl data"
  from assms(1) obtain r' where "ipv4_send env ?seg 6 a b s = Some (r', s')"
    by (auto simp: tcp_send_def split: Option.bind_splits)
  then obtain m s1 where s': "s' = snd (send_ethernet_package (ether_bytes \<lparr>eh_dst = take 6 m,
        eh_src = take 6 (dev_mac (default_ethernet_device s1)), eh_type = htons 0x0800\<rparr>
        @ ipv4_hdr (length ?seg) 6 a b (ipv4_count s1) @ ?seg) (s1\<lparr>ipv4_count := ipv4_count s1 + 1\<rparr>))"
    by (rule ipv4_send_frame)
  have en: "is_enabled (default_ethernet_device s1) \<noteq> 0"
    using assms(2) unfolding s' by (auto simp: send_ethernet_package_def split: if_splits)
  have d: "drop 28 ?seg = data"
    by (simp add: tcp_segment_def Let_def tcp_bytes_def pad4_2)
  note v = tcp_segment_valid [OF assms(3), of a b sp dp sq ak fl]
  note h = ipv4_hdr_valid [of "length ?seg" 6 a b "ipv4_count s1"] ipv4_hdr_length [of "length ?seg" 6 a b "ipv4_count s1"] ipv4_hdr_ends [of "length ?seg" 6 a b "ipv4_count s1"]
  have "(let n = of_nat (length ?seg) :: u16; ph = le32 a @ le32 b @ [0, 6, ucast (drop_bit 8 n), ucast n]
     in (wsum ph + wsum ?seg) mod 65535 = 0 \<and> 0 < wsum ph + wsum ?seg)"
    unfolding Let_def pseudo_bytes [symmetric] v(1) using v(2,3) by blast
  moreover have "wire s' = wire s1 @ [ether_bytes \<lparr>eh_dst = take 6 m, eh_src = take 6 (dev_mac (default_ethernet_device s1)), eh_type = htons 0x0800\<rparr>
        @ ipv4_hdr (length ?seg) 6 a b (ipv4_count s1) @ ?seg]" using en by (simp add: s' send_ethernet_package_def)
  ultimately show ?thesis using h v(1) d
    by (intro exI [of _ "wire s1"] exI [of _ "ether_bytes \<lparr>eh_dst = take 6 m, eh_src = take 6 (dev_mac (default_ethernet_device s1)), eh_type = htons 0x0800\<rparr>"]
        exI [of _ "ipv4_hdr (length ?seg) 6 a b (ipv4_count s1)"] exI [of _ ?seg] conjI) (simp_all only: simp_thms)
qed

theorem tcp_send_checksums_witness:
  "\<exists>s' w eh ip seg. tcp_send (\<lambda>_ s. s) 0x0200A8C0 0x08080808 4000 80 7 9 24 [1, 2, 3] net_zero = Some (3, s') \<and>
     wire s' = w @ [eh @ ip @ seg] \<and> length ip = 20 \<and> wsum ip mod 65535 = 0 \<and> drop 28 seg = [1, 2, 3]"
proof -
  obtain fs where ok: "tcp_send (\<lambda>_ s. s) 0x0200A8C0 0x08080808 4000 80 7 9 24 [1, 2, 3] net_zero =
      Some (int (length [1, 2, 3 :: u8]), sent fs net_zero)"
    by (rule tcp_send_resolved [OF net_zero_resolved])
  have "is_enabled (default_ethernet_device (sent fs net_zero)) \<noteq> 0" "length [1, 2, 3 :: u8] \<le> 65000" by (simp_all add: net_zero_def)
  from tcp_send_checksums [OF ok this] obtain w eh ip seg where x: "wire (sent fs net_zero) = w @ [eh @ ip @ seg]" "length ip = 20" "wsum ip mod 65535 = 0"
    "drop 28 seg = [1, 2, 3]" by (elim exE conjE) (rule that)
  have "int (length [1, 2, 3 :: u8]) = 3" by simp
  with ok have "tcp_send (\<lambda>_ s. s) 0x0200A8C0 0x08080808 4000 80 7 9 24 [1, 2, 3] net_zero = Some (3, sent fs net_zero)" by (simp only:)
  with x show ?thesis by - (intro exI conjI, assumption+)
qed

text \<open>C31: \<^verbatim>\<open>tcp_connect\<close> takes the first free slot of the table, fills it for the new connection (its SYN
  counted in the sequence number) and leaves the others alone; with no free slot it returns 1 and
  changes nothing.\<close>

theorem tcp_connect_correct:
  assumes "resolved s" and "length (queue_conn s) = 1024"
  shows "case find_from (\<lambda>i. c_busy (queue_conn s ! i) = 0) 0 1024 of
      None \<Rightarrow> tcp_connect_op env a b sp dp s = Some (1, s)
    | Some i \<Rightarrow> (\<exists>s'. tcp_connect_op env a b sp dp s = Some (0, s') \<and>
        queue_conn s' = (queue_conn s)[i := \<lparr>c_src_ip = a, c_dst_ip = b, c_src_port = sp, c_dst_port = dp,
          c_seq = 1, c_ack = 0, c_pack = 0, c_flags = 2, c_status = 0, c_busy = 1, c_rsv = c_rsv (queue_conn s ! i)\<rparr>])"
proof (cases "find_from (\<lambda>i. c_busy (queue_conn s ! i) = 0) 0 1024")
  case None
  then show ?thesis by (simp add: tcp_connect_op_def)
next
  case (Some i)
  have "c\<lparr>c_src_ip := a, c_dst_ip := b, c_src_port := sp, c_dst_port := dp, c_ack := 0, c_pack := 0, c_flags := 2,
      c_status := 0, c_busy := 1, c_seq := 1\<rparr> = \<lparr>c_src_ip = a, c_dst_ip = b, c_src_port = sp, c_dst_port = dp,
      c_seq = 1, c_ack = 0, c_pack = 0, c_flags = 2, c_status = 0, c_busy = 1, c_rsv = c_rsv c\<rparr>" for c :: tcp_connect
    by simp
  with tcp_connect_spec [OF assms Some, of env a b sp dp] show ?thesis
    unfolding Some option.case by metis
qed

theorem tcp_connect_correct_witness:
  "\<exists>s'. tcp_connect_op (\<lambda>_ s. s) 1 2 4000 80 net_zero = Some (0, s') \<and> c_seq (queue_conn s' ! 0) = 1 \<and>
     c_busy (queue_conn s' ! 0) = 1 \<and> c_busy (queue_conn s' ! 1) = 0"
  using tcp_connect_correct [OF net_zero_resolved, of "\<lambda>_ s. s" 1 2 4000 80] net_zero_free
  by (auto simp: net_zero_queue tcp_zero_def)

text \<open>C24: \<^verbatim>\<open>tcp_ack\<close> on the connection that matches the port: it accepts a segment exactly when the
  acknowledgement number is the connection's next sequence number and the segment ends past what has
  been acknowledged; then the acknowledged position strictly advances to the end of the segment.
  Otherwise it returns 1 and keeps the sequence state.  A FIN closes the connection (status 1) and is
  counted; no other connection changes.\<close>

theorem tcp_ack_progress:
  assumes "resolved s" and "length (queue_conn s) = 1024" and "conn_match dp 0 s i"
  shows "\<exists>r s'. tcp_ack env a b sp dp sq ak fl len s = Some (r, s') \<and>
    (let c = queue_conn s ! i; c' = queue_conn s' ! i; accept = c_seq c = ak \<and> c_ack c < sq + seg_len fl len
     in r = (if accept then if fl AND 1 \<noteq> 0 then 2 else 0 else 1) \<and>
        c_ack c' = (if accept then sq + seg_len fl len else c_ack c) \<and> c_ack c \<le> c_ack c' \<and>
        c_seq c' = (if r = 2 then c_seq c + 1 else c_seq c) \<and> c_status c' = (if r = 2 then 1 else 0) \<and>
        (\<forall>j. j \<noteq> i \<longrightarrow> queue_conn s' ! j = queue_conn s ! j))"
proof -
  let ?c = "queue_conn s ! i"
  have i: "i < 1024" and st: "c_status ?c = 0" using assms(3) by (auto simp: conn_match_def find_from_Some)
  consider (bad) "c_seq ?c \<noteq> ak" | (new) "c_seq ?c = ak" "c_ack ?c < sq + seg_len fl len"
    | (dup) "c_seq ?c = ak" "sq + seg_len fl len \<le> c_ack ?c" by fastforce
  then show ?thesis
  proof cases
    case bad
    then have "tcp_ack env a b sp dp sq ak fl len s = Some (1, s)"
      using assms(3) by (simp add: tcp_ack_def conn_match_def Let_def)
    with bad st show ?thesis by (auto simp: Let_def)
  next
    case new
    obtain s' where "tcp_ack env a b sp dp sq ak fl len s = Some (if fl AND 1 \<noteq> 0 then 2 else 0, s')"
      "queue_conn s' = (queue_conn s)[i := if fl AND 1 \<noteq> 0
         then ?c\<lparr>c_pack := ak, c_ack := sq + seg_len fl len, c_flags := 0, c_seq := c_seq ?c + 1, c_status := 1\<rparr>
         else ?c\<lparr>c_pack := ak, c_ack := sq + seg_len fl len, c_flags := 16\<rparr>]"
      by (rule tcp_ack_new [OF assms new])
    with new st i assms(2) show ?thesis by (auto simp: Let_def)
  next
    case dup
    obtain s' where "tcp_ack env a b sp dp sq ak fl len s = Some (1, s')"
      "queue_conn s' = (queue_conn s)[i := ?c\<lparr>c_flags := 16\<rparr>]" by (rule tcp_ack_dup [OF assms dup])
    with dup st i assms(2) show ?thesis by (auto simp: Let_def)
  qed
qed

theorem tcp_ack_progress_witness:
  "\<exists>s1 s2. tcp_connect_op (\<lambda>_ s. s) 1 2 4000 80 net_zero = Some (0, s1) \<and>
     tcp_ack (\<lambda>_ s. s) 2 1 80 4000 5000 1 18 0 s1 = Some (0, s2) \<and> c_ack (queue_conn s2 ! 0) = 5001"
proof -
  obtain s1 where s1: "tcp_connect_op (\<lambda>_ s. s) 1 2 4000 80 net_zero = Some (0, s1)" "resolved s1"
    "queue_conn s1 = (queue_conn net_zero)[0 := (queue_conn net_zero ! 0)\<lparr>c_src_ip := 1, c_dst_ip := 2, c_src_port := 4000,
       c_dst_port := 80, c_ack := 0, c_pack := 0, c_flags := 2, c_status := 0, c_busy := 1, c_seq := 1\<rparr>]"
    by (rule tcp_connect_spec [OF net_zero_resolved _ net_zero_free]) (simp_all add: net_zero_queue)
  have "conn_match 4000 0 s1 0"
    by (simp add: conn_match_def s1(3) net_zero_queue find_from.simps)
  from tcp_ack_progress [OF s1(2) _ this, of "\<lambda>_ s. s" 2 1 80 5000 1 18 0] s1 show ?thesis
    by (auto simp: net_zero_queue seg_len_def Let_def)
qed

text \<open>C23: the whole life of a connection.  On a free slot \<^verbatim>\<open>tcp_connect\<close>, the peer's SYN-ACK, sending data,
  the peer's FIN and the last ACK take the slot from free through open and closing back to free, with
  the sequence numbers counting SYN, data and FIN.\<close>

theorem tcp_life_cycle:
  assumes "resolved s" and "length (queue_conn s) = 1024"
    and "find_from (\<lambda>i. c_busy (queue_conn s ! i) = 0) 0 1024 = Some i"
    and "\<forall>j<1024. c_busy (queue_conn s ! j) = 1 \<longrightarrow> c_src_port (queue_conn s ! j) \<noteq> sp"
    and "0 < isn + 1" and "isn + 1 < 2 + isn"
  shows "\<exists>s1 s2 s3 s4. tcp_connect_op env a b sp dp s = Some (0, s1) \<and>
    tcp_ack env b a dp sp isn 1 18 0 s1 = Some (0, s2) \<and>
    tcp_send_payload env a b sp dp 24 data s2 = Some (0, s3) \<and>
    tcp_ack env b a dp sp (isn + 1) (1 + of_nat (length data)) 17 0 s3 = Some (2, s4) \<and>
    c_busy (queue_conn s4 ! i) = 1 \<and> c_ack (queue_conn s4 ! i) = 2 + isn \<and>
    c_busy (queue_conn (tcp_finish b a dp sp (2 + of_nat (length data)) s4) ! i) = 0"
proof -
  have i: "i < 1024" using assms(3) by (simp add: find_from_Some)
  have match: "conn_match sp st t i" if "queue_conn t = (queue_conn s)[i := c]" and "c_src_port c = sp" "c_busy c = 1" "c_status c = st" for t c st
    using that i assms(2,4) by (auto simp: conn_match_def find_from_Some)
  have len: "length (queue_conn t) = 1024" if "queue_conn t = (queue_conn s)[i := c]" for t c using that assms(2) by simp
  obtain s1 where s1: "tcp_connect_op env a b sp dp s = Some (0, s1)" "resolved s1"
    and q1: "queue_conn s1 = (queue_conn s)[i := (queue_conn s ! i)\<lparr>c_src_ip := a, c_dst_ip := b, c_src_port := sp,
       c_dst_port := dp, c_ack := 0, c_pack := 0, c_flags := 2, c_status := 0, c_busy := 1, c_seq := 1\<rparr>]"
    by (rule tcp_connect_spec [OF assms(1,2,3)])
  obtain s2 where s2: "tcp_ack env b a dp sp isn 1 18 0 s1 = Some (0, s2)" "resolved s2"
    and q2: "queue_conn s2 = (queue_conn s1)[i := (queue_conn s1 ! i)\<lparr>c_pack := 1, c_ack := isn + 1, c_flags := 16\<rparr>]"
    by (rule tcp_ack_new [OF s1(2) len [OF q1] match [OF q1], where env = env and a = b and b = a and sp = dp and ak = 1 and sq = isn and fl = 18 and len = 0])
       (use assms i in \<open>simp_all add: q1 seg_len_def\<close>)
  note q2 = q2 [unfolded q1 list_update_overwrite nth_list_update_eq [OF i [folded assms(2)]]]
  obtain s3 where s3: "tcp_send_payload env a b sp dp 24 data s2 = Some (0, s3)" "resolved s3"
    and q3: "queue_conn s3 = (queue_conn s2)[i := (queue_conn s2 ! i)\<lparr>c_flags := 24,
        c_seq := c_seq (queue_conn s2 ! i) + of_nat (length data), c_status := c_status (queue_conn s2 ! i)\<rparr>]"
    by (rule tcp_payload_spec [OF s2(2) len [OF q2] match [OF q2], where env = env and a = a and b = b and dp = dp and fl = 24 and data = data]) (use i assms(2) in simp_all)
  note q3 = q3 [unfolded q2 list_update_overwrite nth_list_update_eq [OF i [folded assms(2)]]]
  obtain s4 where s4: "tcp_ack env b a dp sp (isn + 1) (1 + of_nat (length data)) 17 0 s3 = Some (2, s4)"
    and q4: "queue_conn s4 = (queue_conn s3)[i := (queue_conn s3 ! i)\<lparr>c_pack := 1 + of_nat (length data),
       c_ack := 2 + isn, c_flags := 0, c_seq := c_seq (queue_conn s3 ! i) + 1, c_status := 1\<rparr>]"
    by (rule tcp_ack_new [OF s3(2) len [OF q3] match [OF q3], where env = env and a = b and b = a and sp = dp and ak = "1 + of_nat (length data)" and sq = "isn + 1" and fl = 17 and len = 0])
       (use assms i in \<open>simp_all add: q3 seg_len_def\<close>)
  note q4 = q4 [unfolded q3 list_update_overwrite nth_list_update_eq [OF i [folded assms(2)]]]
  have "conn_match sp 1 s4 i" by (rule match [OF q4]) simp_all
  then show ?thesis
    using s1 s2 s3 s4 i assms(2) by (auto simp: tcp_finish_def conn_match_def q4)
qed

theorem tcp_life_cycle_witness:
  "\<exists>s1 s2 s3 s4. tcp_connect_op (\<lambda>_ s. s) 1 2 4000 80 net_zero = Some (0, s1) \<and>
    tcp_ack (\<lambda>_ s. s) 2 1 80 4000 5000 1 18 0 s1 = Some (0, s2) \<and>
    tcp_send_payload (\<lambda>_ s. s) 1 2 4000 80 24 [65, 66] s2 = Some (0, s3) \<and>
    tcp_ack (\<lambda>_ s. s) 2 1 80 4000 5001 3 17 0 s3 = Some (2, s4) \<and>
    c_busy (queue_conn (tcp_finish 2 1 80 4000 4 s4) ! 0) = 0"
proof -
  have "\<forall>j<1024. c_busy (queue_conn net_zero ! j) = 1 \<longrightarrow> c_src_port (queue_conn net_zero ! j) \<noteq> 4000"
    by (simp add: net_zero_queue tcp_zero_def)
  from tcp_life_cycle [OF net_zero_resolved _ net_zero_free this, of 5000 "\<lambda>_ s. s" 1 2 80 "[65, 66]"]
  show ?thesis by (auto simp: net_zero_queue)
qed

text \<open>Saving an address that a well-formed ARP cache with a free entry does not have yet makes \<^verbatim>\<open>arp_cache_get_address\<close>
  find it and does not disturb the other addresses.  A changed hardware address of a known one is not found.\<close>

lemma arp_save_then_get:
  assumes "arp_wf s" and "length ip = 4" and "length m = 6" and "length m0 = 6" and "ip ! 0 \<noteq> 0"
    and "\<forall>i<1024. ac_ip (arp_cache s ! i) \<noteq> ip"
    and "i < 1024" and "ac_ip (arp_cache s ! i) = [0, 0, 0, 0]"
  shows "arp_cache_get_address m0 ip (snd (arp_save_address ip m s)) = Some m \<and> arp_wf (snd (arp_save_address ip m s)) \<and>
    (\<forall>ip'. length ip' = 4 \<longrightarrow> ip' ! 0 \<noteq> 0 \<longrightarrow> ip' \<noteq> ip \<longrightarrow>
       arp_cache_get_address m0 ip' (snd (arp_save_address ip m s)) = arp_cache_get_address m0 ip' s)"
  using arp_save_lookup [OF assms, of "fst (arp_save_address ip m s)" "snd (arp_save_address ip m s)"] by simp

text \<open>The cache is filled from the front and never emptied.\<close>

definition arp_dense :: "'a net_state_scheme \<Rightarrow> bool" where
  "arp_dense s \<longleftrightarrow> (\<forall>i j. i < j \<longrightarrow> j < 1024 \<longrightarrow> ac_ip (arp_cache s ! i) = [0, 0, 0, 0] \<longrightarrow> ac_ip (arp_cache s ! j) = [0, 0, 0, 0])"

text \<open>an ARP answer never replaces an address.  The cache is filled from the front, so while it holds
  a hardware address for an IP address, saving another one leaves the answer of
  \<^verbatim>\<open>arp_cache_get_address\<close> unchanged.\<close>

lemma arp_never_replaced:
  assumes "arp_wf s" and "arp_dense s" and "length ip = 4" and "length m = 6" and "length m0 = 6" and "ip ! 0 \<noteq> 0"
    and "arp_cache_get_address m0 ip s = Some old"
  shows "arp_cache_get_address m0 ip (snd (arp_save_address ip m s)) = Some old \<and> arp_dense (snd (arp_save_address ip m s))"
proof (cases "snd (arp_save_address ip m s) = s")
  case True
  with assms show ?thesis by simp
next
  case False
  let ?c = "arp_cache s" and ?s = "snd (arp_save_address ip m s)"
  obtain k where k: "find_from (\<lambda>i. ac_ip (?c ! i) = [0, 0, 0, 0]) 0 1024 = Some k"
    and s': "?s = s\<lparr>arp_cache := ?c[k := \<lparr>ac_mac = m, ac_ip = ip\<rparr>]\<rparr>"
    using False by (auto simp: arp_save_spec [OF assms(1,3,4,6)] split: if_splits option.splits)
  obtain i where i: "find_from (\<lambda>i. ac_ip (?c ! i) = ip) 0 1024 = Some i" and old: "old = ac_mac (?c ! i)"
    using assms(7) by (auto simp: arp_get_spec [OF assms(1,3,5)])
  have kk: "k < 1024" "ac_ip (?c ! k) = [0, 0, 0, 0]" "\<forall>j<k. ac_ip (?c ! j) \<noteq> [0, 0, 0, 0]" using k by (auto simp: find_from_Some)
  have ii: "i < 1024" "ac_ip (?c ! i) = ip" "\<forall>j<i. ac_ip (?c ! j) \<noteq> ip" using i by (auto simp: find_from_Some)
  have "ip \<noteq> [0, 0, 0, 0]" using assms(6) by auto
  then have "i < k" using kk ii assms(2) by (metis arp_dense_def linorder_neqE_nat)
  have nth': "arp_cache ?s ! j = (if j = k then \<lparr>ac_mac = m, ac_ip = ip\<rparr> else ?c ! j)" for j
    using kk assms(1) by (simp add: s' nth_list_update arp_wf_def)
  have "arp_wf ?s"
    using assms(1,3,4) by (auto simp: s' arp_wf_def dest!: set_update_subset_insert [THEN subsetD])
  moreover have "find_from (\<lambda>i. ac_ip (arp_cache ?s ! i) = ip) 0 1024 = Some i"
    using ii \<open>i < k\<close> by (auto simp: find_from_Some nth')
  moreover have "arp_dense ?s"
    unfolding arp_dense_def nth' using kk assms(2) \<open>ip \<noteq> [0, 0, 0, 0]\<close> by (auto simp: arp_dense_def)
  ultimately show ?thesis using old \<open>i < k\<close> by (simp add: arp_get_spec [OF _ assms(3,5)] nth')
qed

text \<open>C40: \<^verbatim>\<open>get_hardwere_ethernet\<close> never gives up.  Its retry counter is never decremented, so it never returns
  -1, and if nothing that happens while it sleeps brings the router into the cache it does not return.\<close>

theorem get_hardwere_never_fails:
  assumes "\<And>k t. \<not> resolved t \<Longrightarrow> \<not> resolved (env k (arp_request (router_ip t) everyone t))" and "\<not> resolved s"
  shows "get_hardwere_ethernet env everyone ip s = None"
proof (rule ccontr)
  assume "\<not> ?thesis"
  then obtain e m' s' where r: "hardwere_loop env 0 2 everyone s = Some (e, m', s')"
    by (auto simp: get_hardwere_ethernet_def)
  define P where "P env' k n m t r \<longleftrightarrow> \<not> (env' = env \<and> 0 < n \<and> m = everyone \<and> \<not> resolved t)"
    for env' :: "nat \<Rightarrow> 'a net_state_scheme \<Rightarrow> 'a net_state_scheme" and k :: nat and n :: int and m and t :: "'a net_state_scheme" and r :: "int \<times> u8 list \<times> 'a net_state_scheme"
  have "P env 0 2 everyone s (e, m', s')"
  proof (rule hardwere_loop.raw_induct [OF _ r, where P = P])
    fix hl :: "(nat \<Rightarrow> 'a net_state_scheme \<Rightarrow> 'a net_state_scheme) \<Rightarrow> nat \<Rightarrow> int \<Rightarrow> u8 list \<Rightarrow> 'a net_state_scheme \<Rightarrow> (int \<times> u8 list \<times> 'a net_state_scheme) option"
      and env' k n m t y
    assume IH: "\<And>env' k n m t y. hl env' k n m t = Some y \<Longrightarrow> P env' k n m t y"
      and body: "(if n > 0 then case arp_cache_get_address m (router_ip t) t of
          None \<Rightarrow> hl env' (k + 1) n m (env' k (arp_request (router_ip t) everyone t)) | Some m' \<Rightarrow> Some (0, m', t)
        else Some (- 1, m, t)) = Some y"
    show "P env' k n m t y"
      using body IH [of env' "k + 1" n m "env' k (arp_request (router_ip t) everyone t)" y] assms(1) [of t k]
      by (cases "arp_cache_get_address everyone (router_ip t) t") (auto simp: P_def resolved_def)
  qed
  with assms(2) show False by (simp add: P_def)
qed

theorem get_hardwere_never_fails_witness:
  "get_hardwere_ethernet (\<lambda>_ s. s) everyone 0x08080808 (net_zero\<lparr>router_ip := [10, 0, 0, 1]\<rparr>) = None"
proof (rule get_hardwere_never_fails)
  show "\<not> resolved (arp_request (router_ip t) everyone t)" if "\<not> resolved t" for t :: net_state
    using that by (simp add: resolved_def arp_request_def send_ethernet_package_def Let_def arp_cache_get_address_def split: option.splits)
  have "find_from (\<lambda>i. same_ip [10, 0, 0, 1] (ac_ip (arp_cache net_zero ! i))) 0 1024 = None"
    unfolding find_from_None by (auto simp: net_zero_def same_ip_def nth_Cons split: nat.split)
  then show "\<not> resolved (net_zero\<lparr>router_ip := [10, 0, 0, 1]\<rparr>)"
    by (simp add: resolved_def arp_cache_get_address_def)
qed

section \<open>DHCP answers\<close>

lemma dhcp_skip:
  assumes "m (240 + i) \<noteq> 3" and "m (240 + i) \<noteq> 6" and "m (240 + i) \<noteq> 54"
  shows "dhcp_parse_loop m i s = (if i + 1 \<ge> 308 then s else dhcp_parse_loop m (i + 1) s)"
  using assms by (simp add: dhcp_parse_loop.simps [of m i] Let_def)

lemma dhcp_skip_to:
  "\<forall>j. i \<le> j \<and> j < k \<longrightarrow> m (240 + j) \<notin> {3, 6, 54} \<Longrightarrow> i \<le> k \<Longrightarrow> k < 308 \<Longrightarrow>
     dhcp_parse_loop m i s = dhcp_parse_loop m k s"
proof (induction "k - i" arbitrary: i)
  case (Suc n)
  then have "dhcp_parse_loop m i s = (if i + 1 \<ge> 308 then s else dhcp_parse_loop m (i + 1) s)"
    by (intro dhcp_skip) auto
  also have "\<dots> = dhcp_parse_loop m (i + 1) s" using Suc.hyps(2) Suc.prems(3) by simp
  also have "\<dots> = dhcp_parse_loop m k s" by (rule Suc.hyps(1)) (use Suc.hyps(2) Suc.prems in auto)
  finally show ?case .
qed simp

lemma dhcp_skip_all:
  "\<forall>j. i \<le> j \<and> j < 308 \<longrightarrow> m (240 + j) \<notin> {3, 6, 54} \<Longrightarrow> i < 308 \<Longrightarrow> dhcp_parse_loop m i s = s"
proof (induction "308 - i" arbitrary: i)
  case (Suc n)
  then have "dhcp_parse_loop m i s = (if i + 1 \<ge> 308 then s else dhcp_parse_loop m (i + 1) s)"
    by (intro dhcp_skip) auto
  then show ?case using Suc by (cases "i + 1 \<ge> 308") auto
qed simp

text \<open>The options of an answer that carries the server, router and DNS addresses.\<close>

definition dhcp_answer :: "u8 \<Rightarrow> u8 list \<Rightarrow> u8 list \<Rightarrow> u8 list \<Rightarrow> u8 list" where
  "dhcp_answer mt sip rip dip = [53, 1, mt, 54, 4] @ sip @ [3, 4] @ rip @ [6, 4] @ dip @ [255] @ replicate 286 0"

lemma fillIP_4: "length t = 4 \<Longrightarrow> fillIP t [a, b, c, d] = [a, b, c, d]"
  by (simp add: fillIP_def)

text \<open>On an OFFER or ACK with the magic cookie whose options are exactly the message type, the server, the
  router and the DNS address, in this order, \<^verbatim>\<open>dhcp_parse_options\<close> stores exactly those addresses.\<close>

lemma dhcp_parse_answer:
  assumes "htonl (get32 m 236) = 0x63825363" and "\<forall>j<308. m (240 + j) = dhcp_answer mt sip rip dip ! j"
    and "mt \<in> {2, 5}" and "length sip = 4" and "length rip = 4" and "length dip = 4"
    and "length (your_ip s) = 4" and "length (router_ip s) = 4" and "length (dns_ip s) = 4" and "length (dhcp_ip s) = 4"
  shows "dhcp_parse_options m s = (0, s\<lparr>your_ip := ip_at m 16, dhcp_ip := sip, router_ip := rip, dns_ip := dip\<rparr>)"
proof -
  obtain s0 s1 s2 s3 r0 r1 r2 r3 d0 d1 d2 d3 where
    ips: "sip = [s0, s1, s2, s3]" "rip = [r0, r1, r2, r3]" "dip = [d0, d1, d2, d3]"
    using assms(4,5,6) by (auto simp: numeral_eq_Suc length_Suc_conv)
  have at: "m (240 + j) = dhcp_answer mt sip rip dip ! j" if "j < 308" for j using assms(2) that by blast
  note b = at [of 0] at [of 1] at [of 2] at [of 3] at [of 4] at [of 5] at [of 6] at [of 7] at [of 8] at [of 9]
    at [of 10] at [of 11] at [of 12] at [of 13] at [of 14] at [of 15] at [of 16] at [of 17] at [of 18] at [of 19] at [of 20]
  note b = b [unfolded dhcp_answer_def ips, simplified]
  have rest: "dhcp_parse_loop m 21 t = t" for t :: "'a net_state_scheme"
  proof (rule dhcp_skip_all, intro allI impI)
    fix j :: nat assume j: "21 \<le> j \<and> j < 308"
    then have "m (240 + j) = (if j = 21 then 255 else 0)"
      using at [of j] by (auto simp: dhcp_answer_def ips nth_Cons' nth_append)
    then show "m (240 + j) \<notin> {3, 6, 54}" by auto
  qed simp
  let ?t = "s\<lparr>your_ip := ip_at m 16\<rparr>"
  have "dhcp_parse_loop m 0 ?t = dhcp_parse_loop m 3 ?t"
  proof (rule dhcp_skip_to, intro allI impI)
    fix j :: nat assume "0 \<le> j \<and> j < 3"
    then have "j \<in> {0, 1, 2}" by auto
    then show "m (240 + j) \<notin> {3, 6, 54}" using b(1,2,3) assms(3) by auto
  qed simp_all
  also have "\<dots> = dhcp_parse_loop m 9 (?t\<lparr>dhcp_ip := sip\<rparr>)"
    using b assms(10) by (simp add: dhcp_parse_loop.simps [of m 3] Let_def ip_at_def fillIP_4 ips)
  also have "\<dots> = dhcp_parse_loop m 15 (?t\<lparr>dhcp_ip := sip, router_ip := rip\<rparr>)"
    using b assms(8) by (simp add: dhcp_parse_loop.simps [of m 9] Let_def ip_at_def fillIP_4 ips)
  also have "\<dots> = dhcp_parse_loop m 21 (?t\<lparr>dhcp_ip := sip, router_ip := rip, dns_ip := dip\<rparr>)"
    using b assms(9) by (simp add: dhcp_parse_loop.simps [of m 15] Let_def ip_at_def fillIP_4 ips)
  finally have "dhcp_parse_loop m 0 ?t = ?t\<lparr>dhcp_ip := sip, router_ip := rip, dns_ip := dip\<rparr>" by (simp add: rest)
  moreover have "fillIP (your_ip s) (ip_at m 16) = ip_at m 16" using assms(7) by (simp add: ip_at_def fillIP_4)
  ultimately show ?thesis using assms(1) by (simp add: dhcp_parse_options_def)
qed

definition dhcp_packet :: "u8 list \<Rightarrow> bytes" where
  "dhcp_packet opts = (\<lambda>i. if i < 16 then 0 else if i < 20 then [192, 168, 0, 77] ! (i - 16)
     else if i < 236 then 0 else if i < 240 then [0x63, 0x82, 0x53, 0x63] ! (i - 236)
     else if i < 548 then opts ! (i - 240) else 0)"

lemma dhcp_packet_cookie: "htonl (get32 (dhcp_packet opts) 236) = 0x63825363"
  by (simp add: dhcp_packet_def get32_def htonl_def)

text \<open>options the parser does not know are not skipped by their length, so their data is read as
  options: a lease time of 772 seconds (bytes 0, 0, 3, 4) in front of the server identifier turns the
  identifier's type, length and first bytes into the router address.\<close>

lemma dhcp_lease_misread:
  "router_ip (snd (dhcp_parse_options (dhcp_packet ([53, 1, 5, 51, 4, 0, 0, 3, 4, 54, 4, 192, 168, 0, 1, 255] @ replicate 292 0)) net_zero))
     = [54, 4, 192, 168]"
proof -
  let ?o = "[53, 1, 5, 51, 4, 0, 0, 3, 4, 54, 4, 192, 168, 0, 1, 255] @ replicate 292 (0 :: u8)"
  let ?m = "dhcp_packet ?o"
  have at: "?m (240 + j) = ?o ! j" if "j < 308" for j using that by (simp add: dhcp_packet_def)
  note b = at [of 0] at [of 1] at [of 2] at [of 3] at [of 4] at [of 5] at [of 6] at [of 7] at [of 8] at [of 9]
    at [of 10] at [of 11] at [of 12] at [of 13] at [of 14] at [of 15]
  note b = b [simplified]
  have rest: "dhcp_parse_loop ?m 13 t = t" for t :: net_state
  proof (rule dhcp_skip_all, intro allI impI)
    fix j :: nat assume j: "13 \<le> j \<and> j < 308"
    then have "?m (240 + j) \<in> {0, 1, 255}" using at [of j] by (auto simp: nth_Cons' nth_append)
    then show "?m (240 + j) \<notin> {3, 6, 54}" by auto
  qed simp
  have len: "length (router_ip net_zero) = 4" by (simp add: net_zero_def)
  let ?t = "net_zero\<lparr>your_ip := fillIP (your_ip net_zero) (ip_at ?m 16)\<rparr>"
  have "dhcp_parse_loop ?m 0 ?t = dhcp_parse_loop ?m 7 ?t"
  proof (rule dhcp_skip_to, intro allI impI)
    fix j :: nat assume "0 \<le> j \<and> j < 7"
    then have "j \<in> {0, 1, 2, 3, 4, 5, 6}" by auto
    then show "?m (240 + j) \<notin> {3, 6, 54}" using b by auto
  qed simp_all
  also have "\<dots> = dhcp_parse_loop ?m 13 (?t\<lparr>router_ip := [54, 4, 192, 168]\<rparr>)"
    using b len by (subst dhcp_parse_loop.simps) (simp add: Let_def ip_at_def fillIP_4)
  finally have "dhcp_parse_loop ?m 0 ?t = ?t\<lparr>router_ip := [54, 4, 192, 168]\<rparr>" unfolding rest .
  then show ?thesis unfolding dhcp_parse_options_def dhcp_packet_cookie by simp
qed

text \<open>C32: the port allocator: \<^verbatim>\<open>get_port\<close> hands out the lowest free port, never port 0, and marks it, and returns 0 when
  every port is in use; \<^verbatim>\<open>set_port\<close> marks the port it is given and returns it, and refuses a port in use with 0 and no
  change; after \<^verbatim>\<open>clean_port\<close> of a port that either of them marked the table is the old one.\<close>

theorem port_allocator:
  assumes "port_used s 0"
  shows "(case get_port s of (p, s') \<Rightarrow>
      if \<forall>k<65536. port_used s k then p = 0 \<and> s' = s
      else p \<noteq> 0 \<and> \<not> port_used s (unat p) \<and> (\<forall>k<unat p. port_used s k) \<and>
        port_used s' = (port_used s)(unat p := True) \<and> port_used (snd (clean_port p s')) = port_used s) \<and>
    (\<forall>q. case set_port q s of (p, s') \<Rightarrow>
      if port_used s (unat q) then p = 0 \<and> s' = s
      else p = q \<and> port_used s' = (port_used s)(unat q := True) \<and> port_used (snd (clean_port q s')) = port_used s)"
proof
  show "case get_port s of (p, s') \<Rightarrow>
      if \<forall>k<65536. port_used s k then p = 0 \<and> s' = s
      else p \<noteq> 0 \<and> \<not> port_used s (unat p) \<and> (\<forall>k<unat p. port_used s k) \<and>
        port_used s' = (port_used s)(unat p := True) \<and> port_used (snd (clean_port p s')) = port_used s"
  proof (cases "port_alloc s")
    case None
    then have all: "\<forall>k<65536. port_used s k"
      using port.alloc_None [OF assms None] assms by (metis One_nat_def Suc_leI gr0I)
    then have "find_from (\<lambda>k. \<not> port_used s k) 0 65536 = None" by (simp add: find_from_None)
    then show ?thesis using all by (simp add: get_port_find)
  next
    case (Some q)
    obtain k s' where q: "q = (k, s')" by force
    note a = port.alloc_Some [OF assms Some [unfolded q]] port.alloc_release [OF assms Some [unfolded q]]
    obtain p where g: "get_port s = (p, s')" and p: "p \<noteq> 0" "k = unat p"
      using Some q by (auto simp: port_alloc_def split: prod.splits if_splits)
    have low: "\<forall>j<k. port_used s j" using a(1) assms by (metis One_nat_def Suc_leI gr0I)
    have "\<not> (\<forall>k<65536. port_used s k)" using a(1) by blast
    with a low p show ?thesis by (simp add: g port_release_def)
  qed
next
  have "case set_port q s of (p, s') \<Rightarrow>
      if port_used s (unat q) then p = 0 \<and> s' = s
      else p = q \<and> port_used s' = (port_used s)(unat q := True) \<and> port_used (snd (clean_port q s')) = port_used s" for q
  proof (cases "port_used s (unat q)")
    case True
    then show ?thesis by (simp add: set_port_spec)
  next
    case False
    obtain p s' where p: "set_port q s = (p, s')" by fastforce
    then have "p = q" using False by (auto simp: set_port_spec)
    moreover have "port_used s' = (port_used s)(unat q := True)" using set_port_used [OF False] p by simp
    ultimately show ?thesis using False p clean_port_used [of q s'] by (auto simp: fun_eq_iff)
  qed
  then show "\<forall>q. case set_port q s of (p, s') \<Rightarrow>
      if port_used s (unat q) then p = 0 \<and> s' = s
      else p = q \<and> port_used s' = (port_used s)(unat q := True) \<and> port_used (snd (clean_port q s')) = port_used s" ..
qed

theorem port_allocator_witness:
  "fst (get_port (ethernet_port_setup net_zero)) = 1"
proof -
  have s: "port_used (ethernet_port_setup net_zero) = (\<lambda>k. k = 0)"
    using bmp_bit_set [of 0 "\<lambda>_. 0" 0]
    by (auto simp: ethernet_port_setup_def set_port_spec bmp_bit_def fun_eq_iff)
  then have f: "find_from (\<lambda>k. \<not> port_used (ethernet_port_setup net_zero) k) 0 65536 = Some 1"
    by (simp add: find_from_Some)
  from port_allocator [of "ethernet_port_setup net_zero"] f show ?thesis by (simp add: s get_port_find)
qed

end
