(* ===== verification/Kstring.thy ===== *)
theory Kstring
  imports Prelude "HOL-Library.Monad_Syntax"
begin

text \<open>
  The kernel's memory and string functions (\<^verbatim>\<open>kernel/lib/string.c\<close>).

  A pointer is an address of the byte memory \<open>mem\<close>, and each loop of the code is a recursion that
  reads and writes one byte at a time.  \<^verbatim>\<open>memset\<close> and \<^verbatim>\<open>memcpy\<close> count down a \<^verbatim>\<open>size_t\<close>, which is a 32-bit
  unsigned in this kernel.  The loops that look for a terminating zero need not end: they are partial
  functions whose result \<open>None\<close> is a loop that never returns.  \<open>put_mem\<close> and \<open>get_mem\<close> say what a
  block copy does, and \<open>cstr\<close> what a C string is.
\<close>

type_synonym mem = "u64 \<Rightarrow> u8"

section \<open>The functions\<close>

fun memset_n :: "u64 \<Rightarrow> u8 \<Rightarrow> nat \<Rightarrow> mem \<Rightarrow> mem" where
  "memset_n p val 0 m = m"
| "memset_n p val (Suc n) m = memset_n (p + 1) val n (m(p := val))"

definition memset :: "u64 \<Rightarrow> u8 \<Rightarrow> u32 \<Rightarrow> mem \<Rightarrow> mem" where
  "memset s val count m = memset_n s val (unat count) m"

fun memcpy_n :: "u64 \<Rightarrow> u64 \<Rightarrow> nat \<Rightarrow> mem \<Rightarrow> mem" where
  "memcpy_n d s 0 m = m"
| "memcpy_n d s (Suc n) m = memcpy_n (d + 1) (s + 1) n (m(d := m s))"

definition memcpy :: "u64 \<Rightarrow> u64 \<Rightarrow> u32 \<Rightarrow> mem \<Rightarrow> mem" where
  "memcpy s1 s2 n m = memcpy_n s1 s2 (unat n) m"

partial_function (option) strcpy :: "u64 \<Rightarrow> u64 \<Rightarrow> mem \<Rightarrow> mem option" where
  "strcpy d s m = (if m s \<noteq> 0 then strcpy (d + 1) (s + 1) (m(d := m s)) else Some (m(d := 0)))"

partial_function (option) strlen_loop :: "u64 \<Rightarrow> mem \<Rightarrow> u64 option" where
  "strlen_loop tmp m = (if m tmp \<noteq> 0 then strlen_loop (tmp + 1) m else Some tmp)"

definition strlen :: "u64 \<Rightarrow> mem \<Rightarrow> u32 option" where
  "strlen s m = do { tmp \<leftarrow> strlen_loop s m; Some (ucast (tmp - s)) }"

text \<open>The loop of \<^verbatim>\<open>strcmp\<close> advances both pointers before it looks for the end of the strings.  The sum
  of two \<^verbatim>\<open>char\<close>s is an \<^verbatim>\<open>int\<close>.\<close>

partial_function (option) strcmp :: "u64 \<Rightarrow> u64 \<Rightarrow> mem \<Rightarrow> int option" where
  "strcmp s1 s2 m =
     (if m s1 = m s2 then
        if m (s1 + 1) = m (s2 + 1) \<and> sint (m (s1 + 1)) + sint (m (s2 + 1)) = 0 then Some 0
        else strcmp (s1 + 1) (s2 + 1) m
      else Some (- 1))"

fun memcmp_n :: "u64 \<Rightarrow> u64 \<Rightarrow> nat \<Rightarrow> mem \<Rightarrow> int" where
  "memcmp_n s1 s2 0 m = 0"
| "memcmp_n s1 s2 (Suc n) m = (if m s1 \<noteq> m s2 then 1 else memcmp_n (s1 + 1) (s2 + 1) n m)"

definition memcmp :: "u64 \<Rightarrow> u64 \<Rightarrow> int \<Rightarrow> mem \<Rightarrow> int" where
  "memcmp s1 s2 n m = memcmp_n s1 s2 (nat n) m"

section \<open>Blocks of bytes\<close>

definition put_mem :: "u64 \<Rightarrow> u8 list \<Rightarrow> mem \<Rightarrow> mem" where
  "put_mem a bs m = (\<lambda>x. if unat (x - a) < length bs then bs ! unat (x - a) else m x)"

definition get_mem :: "u64 \<Rightarrow> nat \<Rightarrow> mem \<Rightarrow> u8 list" where
  "get_mem a n m = map (\<lambda>i. m (a + of_nat i)) [0..<n]"

lemma length_get_mem [simp]: "length (get_mem a n m) = n"
  by (simp add: get_mem_def)

lemma get_mem_nth [simp]: "i < n \<Longrightarrow> get_mem a n m ! i = m (a + of_nat i)"
  by (simp add: get_mem_def)

lemma get_mem_Suc: "get_mem a (Suc n) m = m a # get_mem (a + 1) n m"
  by (rule nth_equalityI) (auto simp: nth_Cons add.assoc split: nat.split)

lemma put_mem_at: "i < length bs \<Longrightarrow> length bs < 2 ^ 64 \<Longrightarrow> put_mem a bs m (a + of_nat i) = bs ! i"
  by (simp add: put_mem_def unat_of_nat_small)

lemma get_put_mem: "n \<le> length bs \<Longrightarrow> length bs < 2 ^ 64 \<Longrightarrow> get_mem a n (put_mem a bs m) = take n bs"
  by (rule nth_equalityI) (simp_all add: put_mem_at)

lemma put_mem_Nil [simp]: "put_mem a [] m = m"
  by (simp add: put_mem_def)

text \<open>An address is inside a block of at most the whole memory, or outside.\<close>

lemma unat_minus_1: "(x :: u64) \<noteq> a \<Longrightarrow> unat (x - (a + 1)) = unat (x - a) - 1"
proof -
  assume "x \<noteq> a"
  then have "unat (x - a) \<noteq> 0" by (simp add: unat_eq_zero)
  moreover have "x - (a + 1) = (x - a) - 1" by simp
  ultimately show ?thesis by (metis unat_minus_one unat_eq_zero)
qed

lemma unat_diff_bound: "unat ((x :: u64) - a) < 2 ^ 64"
  using unsigned_less [of "x - a"] by simp

lemma unat_m1: "unat (- 1 :: u64) = 2 ^ 64 - 1"
  by (simp only: unsigned_minus_1_eq_mask mask_eq_exp_minus_1) simp

lemma put_mem_Cons:
  assumes "length bs < 2 ^ 64 - 1"
  shows "put_mem a (b # bs) m = put_mem (a + 1) bs (m(a := b))"
proof
  fix x
  have "unat (a - (a + 1)) = 2 ^ 64 - 1" using unat_m1 by simp
  then show "put_mem a (b # bs) m x = put_mem (a + 1) bs (m(a := b)) x"
    using assms by (cases "x = a") (auto simp: put_mem_def unat_minus_1 nth_Cons unat_eq_zero split: nat.split)
qed


lemma memset_put: "n < 2 ^ 64 \<Longrightarrow> memset_n p v n m = put_mem p (replicate n v) m"
  by (induction n arbitrary: p m) (simp_all add: put_mem_Cons)

text \<open>Copying forwards is a block copy unless the destination starts inside the source after its first
  byte.\<close>

lemma memcpy_n_get:
  assumes "n \<le> unat (d - s) \<or> d = s" and "n < 2 ^ 64"
  shows "memcpy_n d s n m = put_mem d (get_mem s n m) m"
  using assms
proof (induction n arbitrary: d s m)
  case 0
  then show ?case by (simp add: get_mem_def)
next
  case (Suc n)
  let ?m = "m(d := m s)"
  have dist: "d + 1 - (s + 1) = d - s" by simp
  have eq: "get_mem (s + 1) n ?m = get_mem (s + 1) n m"
  proof (cases "d = s")
    case False
    have "s + 1 + of_nat i \<noteq> d" if "i < n" for i
    proof
      assume "s + 1 + of_nat i = d"
      then have "d - s = of_nat (Suc i)" by (simp add: algebra_simps)
      moreover have "Suc i < 2 ^ LENGTH(64)" using that Suc.prems(2) by simp
      ultimately have "unat (d - s) = Suc i" by (simp only: unat_of_nat_small)
      with Suc.prems(1) False that show False by simp
    qed
    then show ?thesis by (simp add: get_mem_def)
  qed simp
  have "memcpy_n d s (Suc n) m = memcpy_n (d + 1) (s + 1) n ?m" by simp
  also have "\<dots> = put_mem (d + 1) (get_mem (s + 1) n ?m) ?m"
    by (rule Suc.IH) (use Suc.prems in \<open>auto simp: dist\<close>)
  also have "\<dots> = put_mem d (get_mem s (Suc n) m) m"
    using Suc.prems(2) by (simp add: eq get_mem_Suc put_mem_Cons)
  finally show ?case .
qed

lemma memcpy_put:
  assumes "unat n \<le> unat (d - s) \<or> d = s"
  shows "memcpy d s n m = put_mem d (get_mem s (unat n) m) m"
  using memcpy_n_get [OF assms] unat_u32 [of n] by (simp add: memcpy_def)

lemma memcmp_n_0: "memcmp_n s1 s2 n m = 0 \<longleftrightarrow> get_mem s1 n m = get_mem s2 n m"
  by (induction n arbitrary: s1 s2) (simp_all add: get_mem_Suc, simp add: get_mem_def)

section \<open>C strings\<close>

definition cstr :: "mem \<Rightarrow> u64 \<Rightarrow> u8 list \<Rightarrow> bool" where
  "cstr m a xs \<longleftrightarrow> 0 \<notin> set xs \<and> get_mem a (Suc (length xs)) m = xs @ [0]"

lemma cstr_Nil [simp]: "cstr m a [] \<longleftrightarrow> m a = 0"
  by (simp add: cstr_def get_mem_def)

lemma cstr_Cons [simp]: "cstr m a (x # xs) \<longleftrightarrow> m a = x \<and> x \<noteq> 0 \<and> cstr m (a + 1) xs"
  by (auto simp: cstr_def get_mem_Suc)

lemma strlen_loop_cstr: "cstr m a xs \<Longrightarrow> strlen_loop a m = Some (a + of_nat (length xs))"
proof (induction xs arbitrary: a)
  case (Cons x xs)
  then have "strlen_loop (a + 1) m = Some (a + 1 + of_nat (length xs))" by simp
  with Cons.prems show ?case by (simp add: strlen_loop.simps [of a] add.assoc)
qed (simp add: strlen_loop.simps)

lemma strlen_cstr: "cstr m a xs \<Longrightarrow> length xs < 2 ^ 32 \<Longrightarrow> strlen a m = Some (of_nat (length xs))"
  by (simp add: strlen_def strlen_loop_cstr ucast_of_nat_small)


lemma cstr_frame:
  assumes "cstr m a xs" and "\<forall>i \<le> length xs. a + of_nat i \<noteq> p"
  shows "cstr (m(p := v)) a xs"
  using assms
proof (induction xs arbitrary: a)
  case (Cons x xs)
  have "a \<noteq> p" using Cons.prems(2) [rule_format, of 0] by simp
  moreover have "cstr (m(p := v)) (a + 1) xs"
  proof (rule Cons.IH)
    show "\<forall>i \<le> length xs. a + 1 + of_nat i \<noteq> p"
    proof (intro allI impI)
      fix i assume "i \<le> length xs"
      then show "a + 1 + of_nat i \<noteq> p" using Cons.prems(2) [rule_format, of "Suc i"] by (simp add: add.assoc)
    qed
  qed (use Cons.prems in simp)
  ultimately show ?case using Cons.prems(1) by (metis cstr_Cons fun_upd_other)
qed auto

lemma strcpy_put:
  assumes "cstr m s xs" and "length xs < unat (d - s)"
  shows "strcpy d s m = Some (put_mem d (xs @ [0]) m)"
  using assms
proof (induction xs arbitrary: d s m)
  case Nil
  then show ?case by (auto simp: strcpy.simps [of d s] put_mem_def unat_eq_zero fun_eq_iff)
next
  case (Cons x xs)
  have "s + 1 + of_nat i \<noteq> d" if "i \<le> length xs" for i
  proof
    assume "s + 1 + of_nat i = d"
    then have "d - s = of_nat (Suc i)" by (simp add: algebra_simps)
    moreover have "Suc i < 2 ^ LENGTH(64)" using that Cons.prems(2) unat_diff_bound [of d s] by simp
    ultimately have "unat (d - s) = Suc i" by (simp only: unat_of_nat_small)
    with Cons.prems(2) that show False by simp
  qed
  then have c: "cstr (m(d := x)) (s + 1) xs" using Cons.prems(1) by (intro cstr_frame) auto
  have "d + 1 - (s + 1) = d - s" by simp
  then have "strcpy (d + 1) (s + 1) (m(d := x)) = Some (put_mem (d + 1) (xs @ [0]) (m(d := x)))"
    using Cons.prems(2) by (intro Cons.IH [OF c]) simp
  then show ?case using Cons.prems unat_diff_bound [of d s] by (simp add: strcpy.simps [of d s] put_mem_Cons)
qed

lemma sint_0: "sint (c :: u8) = 0 \<longleftrightarrow> c = 0"
  by (rule signed_eq_0_iff)

lemma strcmp_cstr:
  assumes "cstr m a (x # xs)" and "cstr m b (y # ys)"
  shows "strcmp a b m = Some (if x # xs = y # ys then 0 else - 1)"
  using assms
proof (induction xs arbitrary: a b x y ys)
  case Nil
  then show ?case
    by (cases ys) (auto simp: strcmp.simps [of a b] strcmp.simps [of "a + 1" "b + 1"])
next
  case (Cons x' xs)
  have a: "m a = x" "x \<noteq> 0" "cstr m (a + 1) (x' # xs)" and b: "m b = y" "y \<noteq> 0" "cstr m (b + 1) ys"
    using Cons.prems by simp_all
  show ?case
  proof (cases ys)
    case Nil
    with a b show ?thesis by (auto simp: strcmp.simps [of a b] strcmp.simps [of "a + 1" "b + 1"])
  next
    fix y' zs assume ys: "ys = y' # zs"
    have "strcmp (a + 1) (b + 1) m = Some (if x' # xs = y' # zs then 0 else - 1)"
      by (rule Cons.IH [OF a(3)]) (use b ys in simp)
    with a b show ?thesis by (auto simp: strcmp.simps [of a b] ys sint_0)
  qed
qed

section \<open>Properties\<close>

text \<open>\<^verbatim>\<open>strcpy\<close> of a non-empty string to a destination that does not overlap it returns, writes exactly the
  string and its terminator, and \<^verbatim>\<open>strlen\<close> and \<^verbatim>\<open>strcmp\<close> see the copy as the same string; every other byte
  keeps its value.\<close>

lemma strcpy_correct:
  assumes "cstr m s xs" and "length xs < unat (d - s)" and "length xs < unat (s - d)" and "length xs < 2 ^ 32" and "xs \<noteq> []"
  shows "\<exists>m'. strcpy d s m = Some m' \<and> cstr m' d xs \<and> cstr m' s xs \<and>
    strlen d m' = Some (of_nat (length xs)) \<and> strcmp d s m' = Some 0 \<and>
    (\<forall>p. length xs < unat (p - d) \<longrightarrow> m' p = m p)"
proof -
  let ?m = "put_mem d (xs @ [0]) m"
  have d: "cstr ?m d xs"
    using assms(1,4) by (simp add: cstr_def get_put_mem)
  have "get_mem s (Suc (length xs)) ?m = get_mem s (Suc (length xs)) m"
  proof (rule nth_equalityI)
    fix i assume "i < length (get_mem s (Suc (length xs)) ?m)"
    then have i: "i \<le> length xs" by simp
    have "\<not> unat (s + of_nat i - d) \<le> length xs"
    proof
      assume le: "unat (s + of_nat i - d) \<le> length xs"
      define k where "k = unat (s + of_nat i - d)"
      have "d + of_nat k = s + of_nat i" by (simp add: k_def)
      show False
      proof (cases "k \<le> i")
        case True
        then have "d - s = of_nat (i - k)" using \<open>d + of_nat k = s + of_nat i\<close> by (simp add: algebra_simps of_nat_diff)
        moreover have "i - k < 2 ^ LENGTH(64)" using i assms(4) by simp
        ultimately have "unat (d - s) = i - k" by (simp only: unat_of_nat_small)
        with assms(2) i show False by simp
      next
        case False
        then have "s - d = of_nat (k - i)" using \<open>d + of_nat k = s + of_nat i\<close> by (simp add: algebra_simps of_nat_diff)
        moreover have "k - i < 2 ^ LENGTH(64)" using le assms(4) by (simp add: k_def)
        ultimately have "unat (s - d) = k - i" by (simp only: unat_of_nat_small)
        with assms(3) le show False by (simp add: k_def)
      qed
    qed
    then show "get_mem s (Suc (length xs)) ?m ! i = get_mem s (Suc (length xs)) m ! i"
      using i by (simp add: put_mem_def)
  qed simp
  then have s: "cstr ?m s xs" using assms(1) by (simp add: cstr_def)
  obtain x ys where xs: "xs = x # ys" using assms(5) by (cases xs) auto
  have "strcmp d s ?m = Some 0" using strcmp_cstr [of ?m d x ys s x ys] d s by (simp add: xs)
  moreover have "?m p = m p" if "length xs < unat (p - d)" for p using that by (simp add: put_mem_def)
  ultimately show ?thesis
    using strcpy_put [OF assms(1,2)] d s strlen_cstr [OF d assms(4)] by blast
qed

text \<open>\<^verbatim>\<open>strcmp\<close> of two strings that are not both empty returns 0 exactly when they are equal, and -1
  otherwise.\<close>

lemma strcmp_correct:
  assumes "cstr m a xs" and "cstr m b ys" and "xs \<noteq> [] \<or> ys \<noteq> []"
  shows "strcmp a b m = Some (if xs = ys then 0 else - 1)"
proof (cases xs)
  case Nil
  with assms obtain y zs where "ys = y # zs" by (cases ys) auto
  with Nil assms show ?thesis by (auto simp: strcmp.simps [of a b])
next
  fix x zs assume xs: "xs = x # zs"
  show ?thesis
  proof (cases ys)
    case Nil
    with xs assms show ?thesis by (auto simp: strcmp.simps [of a b])
  next
    fix y us assume "ys = y # us"
    with xs assms strcmp_cstr [of m a x zs b y us] show ?thesis by simp
  qed
qed

text \<open>two empty strings need not compare equal: \<^verbatim>\<open>strcmp\<close> moves past the terminators before it tests
  them and goes on comparing whatever follows.\<close>

lemma strcmp_empty_differ:
  "\<exists>m. cstr m 0x1000 [] \<and> cstr m 0x2000 [] \<and> strcmp 0x1000 0x2000 m = Some (- 1)"
proof -
  let ?m = "put_mem 0x1000 [0, 1] (\<lambda>_. 0)"
  have bytes: "?m 0x1000 = 0" "?m 0x2000 = 0" "?m 0x1001 = 1" "?m 0x2001 = 0" by (simp_all add: put_mem_def)
  have "strcmp 0x1001 0x2001 ?m = Some (- 1)"
    unfolding strcmp.simps [of "0x1001" "0x2001"] bytes by simp
  then have "strcmp 0x1000 0x2000 ?m = Some (- 1)"
    unfolding strcmp.simps [of "0x1000" "0x2000"] by (simp add: bytes)
  moreover have "cstr ?m 0x1000 []" "cstr ?m 0x2000 []" by (simp_all add: put_mem_def)
  ultimately show ?thesis by blast
qed

end
