(* ===== verification/Socket.thy ===== *)
theory Socket
  imports Net Links Kmalloc Kstring
begin

text \<open>
  Sockets: \<^verbatim>\<open>kernel/file/\<close> \<^verbatim>\<open>socket.c\<close>, \<^verbatim>\<open>bind.c\<close>, \<^verbatim>\<open>sendto.c\<close>, \<^verbatim>\<open>recvfrom.c\<close> and the loopback
  device \<^verbatim>\<open>kernel/driver/net/vmnet.c\<close>.

  The sockets are nodes of a null-terminated list in kernel memory.  Node addresses and buffers come
  from the kernel's \<^verbatim>\<open>malloc\<close> on \<open>smm\<close>; the contents of the nodes are in \<open>sockets\<close>, the bytes of the
  buffers in \<open>smem\<close>.  \<^verbatim>\<open>memcpy\<close> into a buffer is \<open>put_mem\<close> (\<open>Kstring.memcpy_put\<close>); the code does not check the length,
  and a copy of more than the 8192 bytes of a socket's or a row's buffer, which overwrites what lies behind it, has the
  result \<open>None\<close>, like a null or dangling dereference, the panic \<^verbatim>\<open>die\<close> and a loop that does not end.
\<close>

section \<open>State\<close>

record socket =
  sk_id :: u32
  sk_domain :: u32
  sk_type :: u32
  sk_protocol :: u32
  sk_src_port :: u16
  sk_src_ip :: u32
  sk_dest_port :: u16
  sk_dest_ip :: u32
  sk_recv_dest_port :: u16
  sk_recv_dest_ip :: u32
  sk_protocol_flags :: u8
  sk_src_win :: u16
  sk_dst_win :: u16
  sk_connect :: u8
  sk_flags :: u8
  sk_length1 :: u32
  sk_length2 :: u32
  sk_buf1 :: u64
  sk_buf2 :: u64
  sk_num_client :: u8
  sk_client :: u64
  sk_next :: u64

record socket_receive_row =
  rw_status :: u8
  rw_protocol :: u8
  rw_src_port :: u16
  rw_src_ip :: u32
  rw_dest_port :: u16
  rw_dest_ip :: u32
  rw_seq :: u32
  rw_ack :: u32
  rw_flags :: u8
  rw_win :: u16
  rw_buffer :: u64
  rw_length :: u32

record RxDesc =
  rx_buffer :: u64
  rx_length :: u16
  rx_status :: u16

record sockaddr_in =
  sin_family :: u8
  sin_port :: u16
  s_addr :: u32

record sock_state = net_state +
  smm :: mm_state
  sockets :: "u64 \<rightharpoonup> socket"
  smem :: "u64 \<Rightarrow> u8"
  saddr_ready_queue :: u64
  current_saddr :: u64
  socket_next_id :: u32
  sockt_receive_row :: "socket_receive_row list"
  row_cur :: nat
  next_port :: u16
  rx_desc :: "RxDesc list"
  rx_cur :: nat
  tx_cur :: nat

abbreviation (input) AF_LOCAL :: u32 where "AF_LOCAL \<equiv> 1"
abbreviation (input) AF_INET :: u32 where "AF_INET \<equiv> 2"
abbreviation (input) SOCK_STREAM :: u32 where "SOCK_STREAM \<equiv> 1"
abbreviation (input) SOCK_DGRAM :: u32 where "SOCK_DGRAM \<equiv> 2"
abbreviation (input) ROW_NUM :: nat where "ROW_NUM \<equiv> 128"

definition socket_zero :: socket where
  "socket_zero = \<lparr>sk_id = 0, sk_domain = 0, sk_type = 0, sk_protocol = 0, sk_src_port = 0, sk_src_ip = 0,
     sk_dest_port = 0, sk_dest_ip = 0, sk_recv_dest_port = 0, sk_recv_dest_ip = 0, sk_protocol_flags = 0,
     sk_src_win = 0, sk_dst_win = 0, sk_connect = 0, sk_flags = 0, sk_length1 = 0, sk_length2 = 0,
     sk_buf1 = 0, sk_buf2 = 0, sk_num_client = 0, sk_client = 0, sk_next = 0\<rparr>"

definition row_zero :: socket_receive_row where
  "row_zero = \<lparr>rw_status = 0, rw_protocol = 0, rw_src_port = 0, rw_src_ip = 0, rw_dest_port = 0, rw_dest_ip = 0,
     rw_seq = 0, rw_ack = 0, rw_flags = 0, rw_win = 0, rw_buffer = 0, rw_length = 0\<rparr>"

section \<open>Creating sockets\<close>

text \<open>The common part of \<^verbatim>\<open>init_socket\<close> and \<^verbatim>\<open>socket\<close>: a zeroed node of 82 bytes, its id, and two buffers
  of \<^verbatim>\<open>SOCKET_BUF_SIZE\<close> bytes.\<close>

definition make_socket :: "u32 \<Rightarrow> u32 \<Rightarrow> u32 \<Rightarrow> 'a sock_state_scheme \<Rightarrow> (u64 \<times> 'a sock_state_scheme) option" where
  "make_socket domain type prot s =
    do {
      (p, mm) \<leftarrow> malloc 82 (smm s);
      saddr \<leftarrow> p;
      (p, mm) \<leftarrow> malloc 8192 mm;
      b1 \<leftarrow> p;
      (p, mm) \<leftarrow> malloc 8192 mm;
      b2 \<leftarrow> p;
      Some (saddr, s\<lparr>smm := mm,
        sockets := (sockets s)(saddr \<mapsto> socket_zero\<lparr>sk_id := socket_next_id s, sk_domain := domain, sk_type := type,
          sk_protocol := prot, sk_buf1 := b1, sk_buf2 := b2, sk_client := 0, sk_next := 0\<rparr>),
        socket_next_id := socket_next_id s + 1\<rparr>) }"

definition bad_socket :: "u32 \<Rightarrow> u32 \<Rightarrow> bool" where
  "bad_socket domain type \<longleftrightarrow> (domain \<noteq> AF_LOCAL \<and> domain \<noteq> AF_INET) \<or> (type \<noteq> SOCK_STREAM \<and> type \<noteq> SOCK_DGRAM)"

definition init_socket :: "u32 \<Rightarrow> u32 \<Rightarrow> u32 \<Rightarrow> 'a sock_state_scheme \<Rightarrow> (u32 \<times> 'a sock_state_scheme) option" where
  "init_socket domain type prot s =
    do {
      (_, m, mm) \<leftarrow> alloc_pages 0 (128 * 2) (smm s);
      let s = s\<lparr>next_port := 2000, current_saddr := 0, saddr_ready_queue := 0, socket_next_id := 1, row_cur := 0, smm := mm,
        sockt_receive_row := map (\<lambda>i. row_zero\<lparr>rw_buffer := (case m of None \<Rightarrow> 0 | Some a \<Rightarrow> a) + 0x2000 * of_nat i\<rparr>) [0..<ROW_NUM]\<rparr> in
      if bad_socket domain type then Some (- 1, s)
      else do {
        (saddr, s') \<leftarrow> make_socket domain type prot s;
        Some (socket_next_id s, s'\<lparr>current_saddr := saddr, saddr_ready_queue := saddr\<rparr>) } }"

definition socket_op :: "u32 \<Rightarrow> u32 \<Rightarrow> u32 \<Rightarrow> 'a sock_state_scheme \<Rightarrow> (u32 \<times> 'a sock_state_scheme) option" where
  "socket_op domain type prot s =
    (if bad_socket domain type then Some (- 1, s)
     else do {
       (saddr, s') \<leftarrow> make_socket domain type prot s;
       tmp \<leftarrow> last_node sk_next (sockets s') (saddr_ready_queue s');
       n \<leftarrow> sockets s' tmp;
       Some (socket_next_id s, s'\<lparr>sockets := (sockets s')(tmp \<mapsto> n\<lparr>sk_next := saddr\<rparr>)\<rparr>) })"

definition socket_address :: "u32 \<Rightarrow> 'a sock_state_scheme \<Rightarrow> u64 option" where
  "socket_address sock s = find_node sk_next (\<lambda>n. sk_id n = sock) (sockets s) (saddr_ready_queue s)"

definition upd_socket :: "u64 \<Rightarrow> (socket \<Rightarrow> socket) \<Rightarrow> 'a sock_state_scheme \<Rightarrow> 'a sock_state_scheme option" where
  "upd_socket p f s = (case sockets s p of None \<Rightarrow> None | Some n \<Rightarrow> Some (s\<lparr>sockets := (sockets s)(p \<mapsto> f n)\<rparr>))"

section \<open>Binding\<close>

definition ip_word :: "u8 list \<Rightarrow> u32" where
  "ip_word ip = get32 (\<lambda>i. ip ! i) 0"

text \<open>\<open>saddr\<close> is the local \<^verbatim>\<open>struct sockaddr_in\<close> after the \<^verbatim>\<open>memcpy\<close> from the caller's address.\<close>

definition bind_op :: "u32 \<Rightarrow> sockaddr_in \<Rightarrow> u32 \<Rightarrow> 'a sock_state_scheme \<Rightarrow> (int \<times> 'a sock_state_scheme) option" where
  "bind_op sock saddr address_len s =
    (if address_len = 0 then Some (- 1, s)
     else do {
       p \<leftarrow> socket_address sock s;
       fd \<leftarrow> sockets s p;
       if ucast (sin_family saddr) \<noteq> sk_domain fd then Some (- 1, s)
       else
         let (r, s) = set_port (htons (sin_port saddr)) s in
         if r = 0 then Some (- 1, s)
         else
           let fd = fd\<lparr>sk_src_port := sin_port saddr, sk_src_ip := s_addr saddr\<rparr>;
               fd = (if sk_src_ip fd = 0 then
                       fd\<lparr>sk_src_ip := if sk_domain fd = AF_LOCAL then ip_word (local_ip s) else ip_word (your_ip s)\<rparr>
                     else fd);
               (q, s) = (if sk_src_port fd = 0 then get_port s else (0, s));
               fd = (if sk_src_port fd = 0 then fd\<lparr>sk_src_port := htons q\<rparr> else fd)
           in if sk_src_port fd = 0 then Some (- 1, s\<lparr>sockets := (sockets s)(p \<mapsto> fd)\<rparr>)
              else Some (0, s\<lparr>sockets := (sockets s)(p \<mapsto> fd\<lparr>sk_flags := sk_flags fd OR 0x80\<rparr>)\<rparr>) })"

section \<open>Delivery to sockets\<close>

text \<open>A received datagram or segment, the arguments of \<^verbatim>\<open>socket_server_receive\<close>.\<close>

record packet =
  pk_protocol :: u8
  pk_src_ip :: u32
  pk_dest_ip :: u32
  pk_src_port :: u16
  pk_dest_port :: u16
  pk_data :: "u8 list"
  pk_seq :: u32
  pk_ack :: u32
  pk_flags :: u8

definition socket_save_row :: "packet \<Rightarrow> 'a sock_state_scheme \<Rightarrow> 'a sock_state_scheme option" where
  "socket_save_row k s =
    (let old_cur = row_cur s;
         s = s\<lparr>row_cur := (row_cur s + 1) mod ROW_NUM\<rparr>;
         r = sockt_receive_row s ! old_cur
     in if rw_status r \<noteq> 0 \<or> length (pk_data k) > 8192 then None
        else
          let r = r\<lparr>rw_protocol := pk_protocol k, rw_src_port := pk_src_port k, rw_src_ip := pk_src_ip k,
                rw_dest_port := pk_dest_port k, rw_dest_ip := pk_dest_ip k, rw_seq := pk_seq k, rw_ack := pk_ack k,
                rw_flags := pk_flags k, rw_win := 0, rw_length := of_nat (length (pk_data k)), rw_status := 1\<rparr>
          in Some (s\<lparr>smem := put_mem (rw_buffer r) (pk_data k) (smem s),
                     sockt_receive_row := (sockt_receive_row s)[old_cur := r]\<rparr>))"

definition accepts :: "packet \<Rightarrow> socket \<Rightarrow> bool" where
  "accepts k n \<longleftrightarrow> sk_flags n AND 0x80 \<noteq> 0 \<and> (sk_domain n = AF_INET \<or> sk_domain n = AF_LOCAL) \<and> sk_src_port n = pk_dest_port k"

definition store_packet :: "packet \<Rightarrow> u64 \<Rightarrow> socket \<Rightarrow> 'a sock_state_scheme \<Rightarrow> 'a sock_state_scheme" where
  "store_packet k p n s =
     s\<lparr>smem := put_mem (sk_buf1 n) (pk_data k) (smem s),
       sockets := (sockets s)(p \<mapsto> n\<lparr>sk_length1 := of_nat (length (pk_data k)), sk_recv_dest_ip := pk_src_ip k,
         sk_recv_dest_port := pk_src_port k,
         sk_protocol_flags := if pk_protocol k = IP_PROTOCOL_TCP then pk_flags k else sk_protocol_flags n,
         sk_flags := sk_flags n OR 2\<rparr>)\<rparr>"

definition deliver :: "packet \<Rightarrow> u64 \<Rightarrow> socket \<Rightarrow> 'a sock_state_scheme \<Rightarrow> 'a sock_state_scheme option" where
  "deliver k p n s = (if length (pk_data k) > 8192 then None else Some (store_packet k p n s))"

text \<open>The loop over the sockets: a full socket saves the packet in the row (unless it comes from there)
  and the search goes on; the first socket with room gets it.\<close>

partial_function (option) receive_loop :: "bool \<Rightarrow> packet \<Rightarrow> u64 \<Rightarrow> 'a sock_state_scheme \<Rightarrow> 'a sock_state_scheme option" where
  "receive_loop origem k p s =
     (if p = 0 then Some s
      else case sockets s p of
        None \<Rightarrow> None
      | Some n \<Rightarrow>
         if accepts k n then
           if sk_flags n AND 2 \<noteq> 0 then
             (case (if \<not> origem then socket_save_row k s else Some s) of
                None \<Rightarrow> None
              | Some s \<Rightarrow> receive_loop origem k (sk_next n) s)
           else deliver k p n s
         else receive_loop origem k (sk_next n) s)"

definition socket_server_receive :: "bool \<Rightarrow> packet \<Rightarrow> 'a sock_state_scheme \<Rightarrow> (int \<times> 'a sock_state_scheme) option" where
  "socket_server_receive origem k s = do { s' \<leftarrow> receive_loop origem k (saddr_ready_queue s) s; Some (0, s') }"

definition socket_server_receive_offline :: "packet \<Rightarrow> 'a sock_state_scheme \<Rightarrow> (int \<times> 'a sock_state_scheme) option" where
  "socket_server_receive_offline k s =
    do {
      p \<leftarrow> find_node sk_next (\<lambda>n. accepts k n \<and> sk_flags n AND 2 = 0) (sockets s) (saddr_ready_queue s);
      if p = 0 then Some (1, s)
      else do { n \<leftarrow> sockets s p; s \<leftarrow> deliver k p n s; Some (0, s) } }"

definition row_packet :: "socket_receive_row \<Rightarrow> (u64 \<Rightarrow> u8) \<Rightarrow> packet" where
  "row_packet r m = \<lparr>pk_protocol = rw_protocol r, pk_src_ip = rw_src_ip r, pk_dest_ip = rw_dest_ip r,
     pk_src_port = rw_src_port r, pk_dest_port = rw_dest_port r, pk_data = get_mem (rw_buffer r) (unat (rw_length r)) m,
     pk_seq = rw_seq r, pk_ack = rw_ack r, pk_flags = rw_flags r\<rparr>"

fun execute_rows :: "nat list \<Rightarrow> 'a sock_state_scheme \<Rightarrow> 'a sock_state_scheme option" where
  "execute_rows [] s = Some s"
| "execute_rows (i # is) s =
     (let r = sockt_receive_row s ! i in
      if rw_status r AND 1 \<noteq> 0 then do {
        (e, s) \<leftarrow> socket_server_receive_offline (row_packet r (smem s)) s;
        execute_rows is (if e = 0 then s\<lparr>sockt_receive_row := (sockt_receive_row s)[i := (sockt_receive_row s ! i)\<lparr>rw_status := 0\<rparr>]\<rparr> else s) }
      else execute_rows is s)"

definition socket_execute_row :: "'a sock_state_scheme \<Rightarrow> 'a sock_state_scheme option" where
  "socket_execute_row s = execute_rows [0..<ROW_NUM] s"

section \<open>The loopback device\<close>

text \<open>514 pages: two for the descriptors, then a buffer of two pages per descriptor.\<close>

definition setup_vmnet :: "'a sock_state_scheme \<Rightarrow> 'a sock_state_scheme option" where
  "setup_vmnet s =
    do {
      (_, p, mm) \<leftarrow> alloc_pages 0 514 (smm s);
      a \<leftarrow> p;
      if a = 0 then None
      else Some (s\<lparr>smm := mm, smem := put_mem a (replicate (514 * 0x1000) 0) (smem s),
        rx_desc := map (\<lambda>i. \<lparr>rx_buffer = a + 8192 + 8192 * of_nat i, rx_length = 0, rx_status = 0x8000\<rparr>) [0..<256],
        rx_cur := 0, tx_cur := 0, local_ip := fillIP (local_ip s) [127, 0, 0, 1]\<rparr>) }"

text \<open>\<^verbatim>\<open>vmnet_recieve_package\<close> collects the filled descriptors.  The descriptor array it returns has 32
  entries; the loop does not check that, and ends because every descriptor it takes is marked empty.\<close>

function vmnet_collect :: "nat \<Rightarrow> RxDesc list \<Rightarrow> nat \<Rightarrow> (u64 \<times> u16) list \<times> RxDesc list \<times> nat" where
  "vmnet_collect fuel ds cur =
     (if 0 < fuel \<and> rx_status (ds ! cur) AND 0x8000 = 0 then
        let d = ds ! cur;
            (r, ds', cur') = vmnet_collect (fuel - 1) (ds[cur := d\<lparr>rx_status := rx_status d OR 0x8000\<rparr>]) ((cur + 1) mod 256)
        in ((rx_buffer d, rx_length d) # r, ds', cur')
      else ([], ds, cur))"
  by pat_completeness auto
termination by (relation "measure (\<lambda>(f, ds, c). f)") auto

declare vmnet_collect.simps [simp del]

definition vmnet_recieve_package :: "'a sock_state_scheme \<Rightarrow> (u64 \<times> u16) list \<times> 'a sock_state_scheme" where
  "vmnet_recieve_package s =
    (let (r, ds, cur) = vmnet_collect 256 (rx_desc s) (rx_cur s) in (r, s\<lparr>rx_desc := ds, rx_cur := cur\<rparr>))"

text \<open>The packet behind a buffer: a 12-byte \<^verbatim>\<open>vm_inet_header\<close>, a UDP header, the data up to the length
  field.  The length is computed as an \<^verbatim>\<open>int\<close> and passed on as an \<^verbatim>\<open>unsigned\<close>.\<close>

definition vm_packet :: "u64 \<Rightarrow> (u64 \<Rightarrow> u8) \<Rightarrow> packet" where
  "vm_packet a m =
    (let b = (\<lambda>i. m (a + of_nat i));
         len = of_int (int (unat (htons (get16 b 8))) - 12 - 8) :: u32
     in \<lparr>pk_protocol = IP_PROTOCOL_UDP, pk_src_ip = get32 b 0, pk_dest_ip = get32 b 4,
          pk_src_port = get16 b 12, pk_dest_port = get16 b 14, pk_data = get_mem (a + 20) (unat len) m,
          pk_seq = 0, pk_ack = 0, pk_flags = 0\<rparr>)"

fun vmnet_dispatch :: "(u64 \<times> u16) list \<Rightarrow> 'a sock_state_scheme \<Rightarrow> 'a sock_state_scheme option" where
  "vmnet_dispatch [] s = Some s"
| "vmnet_dispatch ((a, n) # ds) s =
     (if a = 0 \<or> n = 0 \<or> smem s (a + 10) \<noteq> IP_PROTOCOL_UDP then vmnet_dispatch ds s
      else do {
        (_, s) \<leftarrow> socket_server_receive False (vm_packet a (smem s)) s;
        vmnet_dispatch ds s })"

definition handler_vmnet :: "'a sock_state_scheme \<Rightarrow> 'a sock_state_scheme option" where
  "handler_vmnet s = (let (ds, s) = vmnet_recieve_package s in vmnet_dispatch ds s)"

text \<open>\<^verbatim>\<open>vmnet_send_package\<close> copies the packet into the next buffer and raises the interrupt, whose handler
  runs at once.\<close>

definition vmnet_send_package :: "u8 list \<Rightarrow> 'a sock_state_scheme \<Rightarrow> (int \<times> 'a sock_state_scheme) option" where
  "vmnet_send_package b s =
    (if length b > 8192 then Some (2, s)
     else
       let d = rx_desc s ! tx_cur s;
           s = s\<lparr>smem := put_mem (rx_buffer d) b (smem s),
                 rx_desc := (rx_desc s)[tx_cur s := d\<lparr>rx_length := of_nat (length b), rx_status := 0\<rparr>],
                 tx_cur := (tx_cur s + 1) mod 256\<rparr>
       in do { s \<leftarrow> handler_vmnet s; Some (0, s) })"

definition vmipv4_send :: "u8 list \<Rightarrow> u8 \<Rightarrow> u32 \<Rightarrow> u32 \<Rightarrow> 'a sock_state_scheme \<Rightarrow> (int \<times> 'a sock_state_scheme) option" where
  "vmipv4_send body prot src_address dst_address s =
    (let len = 12 + length body;
         hdr = le32 src_address @ le32 dst_address @ le16 (htons (of_nat len)) @ [prot, 0]
     in do { (r, s) \<leftarrow> vmnet_send_package (hdr @ body) s; Some (if r \<noteq> 0 then 1 else 0, s) })"

definition vmnet_udp_send :: "u32 \<Rightarrow> u32 \<Rightarrow> u16 \<Rightarrow> u16 \<Rightarrow> u8 list \<Rightarrow> 'a sock_state_scheme \<Rightarrow> (int \<times> 'a sock_state_scheme) option" where
  "vmnet_udp_send sip dip sport dport data s =
    (let udp = \<lparr>udp_src_port = htons sport, udp_dst_port = htons dport,
                udp_length = htons (of_nat (8 + length data)), udp_checksum = 0\<rparr>
     in do {
       (_, s) \<leftarrow> vmipv4_send (udp_bytes udp @ data) IP_PROTOCOL_UDP sip dip s;
       Some (int (length data), s) })"

section \<open>Transmission\<close>

type_synonym 'a sock_env = "nat \<Rightarrow> 'a sock_state_scheme \<Rightarrow> 'a sock_state_scheme"

text \<open>The part of \<^verbatim>\<open>socket_server_transmit\<close> that sends for the current socket.  The source address and
  port are filled in first; the temporary port counter restarts at 2000.\<close>

definition transmit_one :: "'a sock_env \<Rightarrow> u64 \<Rightarrow> socket \<Rightarrow> 'a sock_state_scheme \<Rightarrow> 'a sock_state_scheme option" where
  "transmit_one env p n s =
    (let n = (if sk_src_ip n = 0 then n\<lparr>sk_src_ip := ip_word (your_ip s)\<rparr> else n);
         pt = (if next_port s < 2000 then 2000 else next_port s);
         (n, s) = (if htons (sk_src_port n) = 0 then (n\<lparr>sk_src_port := htons pt\<rparr>, s\<lparr>next_port := pt + 1\<rparr>) else (n, s));
         s = s\<lparr>sockets := (sockets s)(p \<mapsto> n)\<rparr>;
         data = get_mem (sk_buf2 n) (unat (sk_length2 n)) (smem s);
         sport = htons (sk_src_port n);
         dport = htons (sk_dest_port n)
     in if sk_type n = SOCK_DGRAM then
          (if sk_domain n = AF_INET \<and> sk_dest_ip n \<noteq> inet_addr ''127.0.0.1''
           then map_option snd (udp_send env (sk_src_ip n) (sk_dest_ip n) sport dport data s)
           else map_option snd (vmnet_udp_send (sk_src_ip n) (sk_dest_ip n) sport dport data s))
        else if sk_type n = SOCK_STREAM then
          (if sk_protocol_flags n = TCP_SYN
           then map_option snd (tcp_connect_op env (sk_src_ip n) (sk_dest_ip n) sport dport s)
           else map_option snd (tcp_send_payload env (sk_src_ip n) (sk_dest_ip n) sport dport (sk_protocol_flags n) data s))
        else Some s)"

definition socket_server_transmit :: "'a sock_env \<Rightarrow> 'a sock_state_scheme \<Rightarrow> 'a sock_state_scheme option" where
  "socket_server_transmit env s =
    do {
      n \<leftarrow> sockets s (current_saddr s);
      s \<leftarrow> (if sk_flags n AND 0x80 \<noteq> 0 \<and> sk_flags n AND 1 \<noteq> 0 then do {
              s \<leftarrow> (if sk_domain n = AF_INET \<or> sk_domain n = AF_LOCAL then transmit_one env (current_saddr s) n s else Some s);
              upd_socket (current_saddr s) (\<lambda>n. n\<lparr>sk_flags := sk_flags n AND NOT 1\<rparr>) s }
            else Some s);
      n \<leftarrow> sockets s (current_saddr s);
      Some (s\<lparr>current_saddr := if sk_next n = 0 then saddr_ready_queue s else sk_next n\<rparr>) }"

section \<open>sendto and recvfrom\<close>

text \<open>A busy wait on the flags of socket \<open>p\<close>; \<open>env k\<close> is what the rest of the kernel does between two
  polls.\<close>

partial_function (option) wait_flags :: "'a sock_env \<Rightarrow> (u8 \<Rightarrow> bool) \<Rightarrow> u64 \<Rightarrow> nat \<Rightarrow> 'a sock_state_scheme \<Rightarrow> 'a sock_state_scheme option" where
  "wait_flags env go p k s =
     (case sockets s p of
        None \<Rightarrow> None
      | Some n \<Rightarrow> if go (sk_flags n) then Some s else wait_flags env go p (k + 1) (env k s))"

definition sendto :: "'a sock_env \<Rightarrow> 'a sock_env \<Rightarrow> u32 \<Rightarrow> u8 list option \<Rightarrow> u32 \<Rightarrow> sockaddr_in \<Rightarrow> 'a sock_state_scheme
    \<Rightarrow> (u32 \<times> 'a sock_state_scheme) option" where
  "sendto env env' sock message len saddr s =
    (if message = None \<and> len \<noteq> 0 then Some (0, s)
     else do {
       p \<leftarrow> socket_address sock s;
       if p = 0 then Some (0, s)
       else do {
         fd \<leftarrow> sockets s p;
         if sk_flags fd AND 0x80 = 0 then Some (0, s)
         else do {
           s \<leftarrow> wait_flags env (\<lambda>f. f AND 1 = 0) p 0 s;
           fd \<leftarrow> sockets s p;
           bytes \<leftarrow> (if len = 0 then Some [] else if unat len > 8192 \<or> unat len > length (the message) then None else Some (take (unat len) (the message)));
           let s = s\<lparr>smem := put_mem (sk_buf2 fd) bytes (smem s),
              sockets := (sockets s)(p \<mapsto> fd\<lparr>sk_dest_port := sin_port saddr, sk_dest_ip := s_addr saddr,
                sk_length2 := len, sk_flags := sk_flags fd OR 1\<rparr>)\<rparr>;
           s \<leftarrow> wait_flags env' (\<lambda>f. f AND 1 = 0) p 0 s;
           Some (len, s) } } })"

text \<open>\<^verbatim>\<open>recvfrom\<close> returns its length, the bytes copied to \<^verbatim>\<open>buffer\<close> and the address it stores.\<close>

definition recvfrom :: "'a sock_env \<Rightarrow> u32 \<Rightarrow> u32 \<Rightarrow> bool \<Rightarrow> 'a sock_state_scheme
    \<Rightarrow> (u32 \<times> u8 list \<times> sockaddr_in option \<times> 'a sock_state_scheme) option" where
  "recvfrom env sock len pointers_ok s =
    (if len = 0 \<or> \<not> pointers_ok then Some (0, [], None, s)
     else do {
       p \<leftarrow> socket_address sock s;
       if p = 0 then Some (0, [], None, s)
       else do {
         fd \<leftarrow> sockets s p;
         if sk_flags fd AND 0x80 = 0 then Some (0, [], None, s)
         else do {
           s \<leftarrow> wait_flags env (\<lambda>f. f AND 2 \<noteq> 0) p 0 s;
           fd \<leftarrow> sockets s p;
           let saddr = \<lparr>sin_family = ucast (sk_domain fd), sin_port = sk_recv_dest_port fd, s_addr = sk_recv_dest_ip fd\<rparr>;
               n = (if sk_length1 fd < len then sk_length1 fd else len);
               data = get_mem (sk_buf1 fd) (unat n) (smem s)
           in Some (n, data, Some saddr, s\<lparr>sockets := (sockets s)(p \<mapsto> fd\<lparr>sk_flags := sk_flags fd AND NOT 2\<rparr>)\<rparr>) } } })"

section \<open>Frames from the network card\<close>

text \<open>The body of the loop of \<^verbatim>\<open>handler_ethernet_package_received\<close> for one frame at \<open>m\<close>.  Offsets: the
  type at 12; the ARP operation at 20, sender MAC at 22 and IP at 28; the IPv4 length at 16, protocol at
  23, addresses at 26 and 30; the TCP and UDP ports at 34 and 36; the TCP sequence numbers at 38 and 42,
  data offset at 46 and flags at 47.\<close>

definition frame_data :: "bytes \<Rightarrow> nat \<Rightarrow> u32 \<Rightarrow> u8 list" where
  "frame_data m off n = map (\<lambda>i. m (off + i)) [0..<unat n]"

definition handle_tcp :: "'a sock_env \<Rightarrow> bytes \<Rightarrow> 'a sock_state_scheme \<Rightarrow> 'a sock_state_scheme option" where
  "handle_tcp env m s =
    (let fl = m 47;
         off = 4 * unat (drop_bit 4 (m 46));
         len = of_int (int (unat (htons (get16 m 16))) - 20 - int off) :: u32
     in if fl = TCP_ACK OR TCP_SYN \<or> fl = TCP_ACK OR TCP_PSH \<or> fl = TCP_ACK OR TCP_FIN then do {
          (r, s) \<leftarrow> tcp_ack env (get32 m 26) (get32 m 30) (htons (get16 m 34)) (htons (get16 m 36))
                     (htonl (get32 m 38)) (htonl (get32 m 42)) fl len s;
          if r \<noteq> 0 then Some s
          else map_option snd (socket_server_receive False
            \<lparr>pk_protocol = IP_PROTOCOL_TCP, pk_src_ip = get32 m 26, pk_dest_ip = get32 m 30, pk_src_port = get16 m 34,
             pk_dest_port = get16 m 36, pk_data = frame_data m (34 + off) len, pk_seq = get32 m 38, pk_ack = get32 m 42,
             pk_flags = fl\<rparr> s) }
        else if fl = TCP_ACK then
          Some (tcp_finish (get32 m 26) (get32 m 30) (htons (get16 m 34)) (htons (get16 m 36)) (htonl (get32 m 42)) s)
        else Some s)"

definition handle_udp :: "bytes \<Rightarrow> 'a sock_state_scheme \<Rightarrow> 'a sock_state_scheme option" where
  "handle_udp m s =
    (let len = of_int (int (unat (htons (get16 m 16))) - 20 - 8) :: u32
     in map_option snd (socket_server_receive False
          \<lparr>pk_protocol = IP_PROTOCOL_UDP, pk_src_ip = get32 m 26, pk_dest_ip = get32 m 30, pk_src_port = get16 m 34,
           pk_dest_port = get16 m 36, pk_data = frame_data m 42 len, pk_seq = 0, pk_ack = 0, pk_flags = 0\<rparr> s))"

definition handle_frame :: "'a sock_env \<Rightarrow> bytes \<Rightarrow> 'a sock_state_scheme \<Rightarrow> 'a sock_state_scheme option" where
  "handle_frame env m s =
    (let type = htons (get16 m 12) in
     if type = ET_ARP then
       let sm = map (\<lambda>i. m (22 + i)) [0..<6]; ip = map (\<lambda>i. m (28 + i)) [0..<4]; opc = htons (get16 m 20)
       in if opc = 1 then Some (arp_replay ip sm (snd (arp_save_address ip sm s)))
          else if opc = 2 then Some (snd (arp_save_address ip sm s))
          else Some s
     else if type = ET_IPV4 then
       if m 23 = IP_PROTOCOL_TCP then handle_tcp env m s
       else if m 23 = IP_PROTOCOL_UDP then handle_udp m s
       else Some s
     else Some s)"

text \<open>The descriptors of one receive call; the loop runs at least once and \<^verbatim>\<open>count\<close> times.\<close>

fun handle_frames :: "'a sock_env \<Rightarrow> ethernet_package_descriptor list \<Rightarrow> 'a sock_state_scheme \<Rightarrow> 'a sock_state_scheme option" where
  "handle_frames env [] s = Some s"
| "handle_frames env (d # ds) s =
     (case (if pd_size d = 0 \<or> pd_flag d \<noteq> 0 then None else pd_buf d) of
        None \<Rightarrow> handle_frames env ds s
      | Some m \<Rightarrow> do { s \<leftarrow> handle_frame env m s; handle_frames env ds s })"

definition handler_ethernet_package_received ::
  "'a sock_env \<Rightarrow> ethernet_package_descriptor list option \<Rightarrow> 'a sock_state_scheme \<Rightarrow> 'a sock_state_scheme option" where
  "handler_ethernet_package_received env prd s =
    (if is_online (default_ethernet_device s) = 0 then Some s
     else case (if is_enabled (default_ethernet_device s) = 0 then None else prd) of
       None \<Rightarrow> Some s
     | Some ds \<Rightarrow> handle_frames env (take (max 1 (nat (sint (pd_count (hd ds))))) ds) s)"

end
