(* ===== verification/Sockprops.thy ===== *)
theory Sockprops
  imports Socket Netprops Kroom
begin

text \<open>
  Correctness of the sockets: the queue stays a well-formed list with unique ids whose nodes are live
  heap blocks, a delivered datagram is what \<^verbatim>\<open>recvfrom\<close> returns, a datagram for a busy socket is kept
  unchanged in the row, and what \<^verbatim>\<open>udp_send\<close> and the loopback device encode is what the receiving side
  decodes.
\<close>

section \<open>The socket queue\<close>

lemma sk_next_set: "sk_next (n\<lparr>sk_next := q\<rparr>) = q" by simp

interpretation sk: linked sk_next "\<lambda>q n. n\<lparr>sk_next := q\<rparr>"
  by unfold_locales simp

definition sock_nodes :: "'a sock_state_scheme \<Rightarrow> u64 list \<Rightarrow> bool" where
  "sock_nodes s as \<longleftrightarrow> chain sk_next (sockets s) (saddr_ready_queue s) as"

abbreviation node :: "'a sock_state_scheme \<Rightarrow> u64 \<Rightarrow> socket" where
  "node s a \<equiv> the (sockets s a)"

definition sock_inv :: "'a sock_state_scheme \<Rightarrow> u64 list \<Rightarrow> bool" where
  "sock_inv s as \<longleftrightarrow> sock_nodes s as \<and> as \<noteq> [] \<and> mm_inv (smm s) \<and> set as \<subseteq> live_blocks (smm s) \<and>
     inj_on (\<lambda>a. sk_id (node s a)) (set as) \<and>
     (\<forall>a \<in> set as. unat (sk_id (node s a)) < unat (socket_next_id s)) \<and> current_saddr s \<in> set as"

lemma socket_address_chain:
  "sock_nodes s as \<Longrightarrow> socket_address i s = Some (case find (\<lambda>a. sk_id (node s a) = i) as of None \<Rightarrow> 0 | Some a \<Rightarrow> a)"
  unfolding sock_nodes_def socket_address_def by (rule find_node_chain)

lemma find_unique:
  assumes "a \<in> set as" and "inj_on f (set as)"
  shows "find (\<lambda>b. f b = f a) as = Some a"
proof (cases "find (\<lambda>b. f b = f a) as")
  case None
  with assms show ?thesis by (auto simp: find_None_iff)
next
  case (Some b)
  then have "f b = f a" "b \<in> set as" by (auto simp: find_Some_iff)
  with assms Some show ?thesis by (auto dest: inj_onD)
qed

lemma socket_address_id:
  assumes "sock_inv s as" and "a \<in> set as"
  shows "socket_address (sk_id (node s a)) s = Some a"
proof -
  have "find (\<lambda>b. sk_id (node s b) = sk_id (node s a)) as = Some a"
    by (rule find_unique [OF assms(2)]) (use assms(1) in \<open>simp add: sock_inv_def\<close>)
  moreover have "sock_nodes s as" using assms(1) by (simp add: sock_inv_def)
  ultimately show ?thesis by (simp add: socket_address_chain)
qed

lemma make_socket_fresh:
  assumes inv: "mm_inv (smm s)" and tail: "tail_free K (smm s)" and room: "K + 5 \<le> 262144" "5 \<le> card (free_frames (smm s))"
  obtains a b1 b2 mm where
    "make_socket domain type prot s = Some (a, s\<lparr>smm := mm,
        sockets := (sockets s)(a \<mapsto> socket_zero\<lparr>sk_id := socket_next_id s, sk_domain := domain, sk_type := type,
          sk_protocol := prot, sk_buf1 := b1, sk_buf2 := b2, sk_client := 0, sk_next := 0\<rparr>),
        socket_next_id := socket_next_id s + 1\<rparr>)"
    "a \<noteq> 0" "a \<notin> live_blocks (smm s)" "insert a (live_blocks (smm s)) \<subseteq> live_blocks mm" "mm_inv mm"
    "distinct [a, b1, b2]" "tail_free (K + 5) mm" "card (free_frames mm) = card (free_frames (smm s)) - 5"
proof -
  obtain a m1 where m1: "malloc 82 (smm s) = Some (Some a, m1)" "has_room 82 (smm s)" "mm_inv m1" "tail_free (K + 1) m1"
      "card (free_frames m1) = card (free_frames (smm s)) - 1"
    by (rule malloc_tail [OF inv tail, where sz = 82 and n = 1 and L = "K + 1" and c = "card (free_frames (smm s)) - 1"])
       (use room in \<open>simp_all add: pages_of_def\<close>)
  obtain b1 m2 where m2: "malloc 8192 m1 = Some (Some b1, m2)" "has_room 8192 m1" "mm_inv m2" "tail_free (K + 3) m2"
      "card (free_frames m2) = card (free_frames (smm s)) - 3"
    by (rule malloc_tail [OF m1(3,4), where sz = 8192 and n = 2 and L = "K + 3" and c = "card (free_frames (smm s)) - 3"])
       (use room m1(5) in \<open>simp_all add: pages_of_def\<close>)
  obtain b2 m3 where m3: "malloc 8192 m2 = Some (Some b2, m3)" "has_room 8192 m2" "mm_inv m3" "tail_free (K + 5) m3"
      "card (free_frames m3) = card (free_frames (smm s)) - 5"
    by (rule malloc_tail [OF m2(3,4), where sz = 8192 and n = 2 and L = "K + 5" and c = "card (free_frames (smm s)) - 5"])
       (use room m2(5) in \<open>simp_all add: pages_of_def\<close>)
  have f: "a \<noteq> 0" "a \<notin> live_blocks (smm s)" "live_blocks m1 = insert a (live_blocks (smm s))"
    "b1 \<notin> live_blocks m1" "live_blocks m2 = insert b1 (live_blocks m1)"
    "b2 \<notin> live_blocks m2" "live_blocks m3 = insert b2 (live_blocks m2)"
    using kheap.new_fresh [OF inv m1(2,1)] kheap.new_fresh [OF m1(3) m2(2,1)] kheap.new_fresh [OF m2(3) m3(2,1)] by auto
  show ?thesis
  proof (rule that [where a = a and ?b1.0 = b1 and ?b2.0 = b2 and mm = m3])
    show "make_socket domain type prot s = Some (a, s\<lparr>smm := m3,
        sockets := (sockets s)(a \<mapsto> socket_zero\<lparr>sk_id := socket_next_id s, sk_domain := domain, sk_type := type,
          sk_protocol := prot, sk_buf1 := b1, sk_buf2 := b2, sk_client := 0, sk_next := 0\<rparr>),
        socket_next_id := socket_next_id s + 1\<rparr>)"
      using m1(1) m2(1) m3(1) by (simp add: make_socket_def)
    show "insert a (live_blocks (smm s)) \<subseteq> live_blocks m3" using f by auto
    show "distinct [a, b1, b2]" using f by auto
  qed (use f(1,2) m3(3,4,5) in simp_all)
qed

lemma socket_op_new:
  assumes inv: "sock_inv s as" and good: "\<not> bad_socket domain type"
    and tail: "tail_free K (smm s)" and room: "K + 5 \<le> 262144" "5 \<le> card (free_frames (smm s))"
    and wrap: "unat (socket_next_id s) < 2 ^ 32 - 1"
  obtains a s' where "socket_op domain type prot s = Some (socket_next_id s, s')" "sock_inv s' (as @ [a])"
    "a \<notin> set as" "sk_id (node s' a) = socket_next_id s" "sk_flags (node s' a) = 0" "sk_domain (node s' a) = domain"
    "\<forall>b \<in> set as. \<exists>q. sockets s' b = Some ((node s b)\<lparr>sk_next := q\<rparr>)"
    "tail_free (K + 5) (smm s')" "card (free_frames (smm s')) = card (free_frames (smm s)) - 5"
proof -
  have mm: "mm_inv (smm s)" and nodes: "chain sk_next (sockets s) (saddr_ready_queue s) as" "as \<noteq> []"
    and live: "set as \<subseteq> live_blocks (smm s)" and inj: "inj_on (\<lambda>a. sk_id (node s a)) (set as)"
    and ids: "\<forall>a \<in> set as. unat (sk_id (node s a)) < unat (socket_next_id s)" and cur: "current_saddr s \<in> set as"
    using inv by (auto simp: sock_inv_def sock_nodes_def)
  obtain a b1 b2 m where mk: "make_socket domain type prot s = Some (a, s\<lparr>smm := m,
        sockets := (sockets s)(a \<mapsto> socket_zero\<lparr>sk_id := socket_next_id s, sk_domain := domain, sk_type := type,
          sk_protocol := prot, sk_buf1 := b1, sk_buf2 := b2, sk_client := 0, sk_next := 0\<rparr>),
        socket_next_id := socket_next_id s + 1\<rparr>)"
    and a: "a \<noteq> 0" "a \<notin> live_blocks (smm s)" "insert a (live_blocks (smm s)) \<subseteq> live_blocks m" "mm_inv m"
    and t: "tail_free (K + 5) m" "card (free_frames m) = card (free_frames (smm s)) - 5"
    by (rule make_socket_fresh [OF mm tail room])
  define na where "na = socket_zero\<lparr>sk_id := socket_next_id s, sk_domain := domain, sk_type := type,
          sk_protocol := prot, sk_buf1 := b1, sk_buf2 := b2, sk_client := 0, sk_next := 0\<rparr>"
  have new: "a \<notin> set as" using a live by blast
  obtain n where n: "sockets s (last as) = Some n" using chain_nodes [OF nodes(1)] nodes(2) by force
  have la: "last as \<noteq> a" using new nodes(2) by auto
  let ?h = "(sockets s)(a \<mapsto> na)"
  have "last_node sk_next ?h (saddr_ready_queue s) = Some (last as)"
    by (rule last_node_chain) (use nodes new in \<open>simp_all add: sk.chain_fresh\<close>)
  define s' where "s' = s\<lparr>smm := m, sockets := ?h(last as \<mapsto> n\<lparr>sk_next := a\<rparr>), socket_next_id := socket_next_id s + 1\<rparr>"
  have f': "smm s' = m" "sockets s' = ?h(last as \<mapsto> n\<lparr>sk_next := a\<rparr>)" "socket_next_id s' = socket_next_id s + 1"
    "saddr_ready_queue s' = saddr_ready_queue s" "current_saddr s' = current_saddr s" by (simp_all add: s'_def)
  have op: "socket_op domain type prot s = Some (socket_next_id s, s')"
    using \<open>last_node sk_next ?h (saddr_ready_queue s) = Some (last as)\<close> good la n
    by (simp add: socket_op_def mk na_def [symmetric] s'_def)
  have chain': "chain sk_next (sockets s') (saddr_ready_queue s') (as @ [a])"
    unfolding f' by (rule sk.chain_snoc [OF nodes a(1) new n]) (simp add: na_def)
  have nb: "sockets s' b = Some ((node s b)\<lparr>sk_next := if b = last as then a else sk_next (node s b)\<rparr>)" if "b \<in> set as" for b
    using that new chain_nodes [OF nodes(1) that] n by (auto simp: f')
  have idb: "sk_id (node s' b) = sk_id (node s b)" if "b \<in> set as" for b
    using nb [OF that] by simp
  have ida: "sockets s' a = Some na" using la by (auto simp: f')
  have up: "unat (socket_next_id s') = unat (socket_next_id s) + 1"
    using wrap by (simp add: unat_word_ariths(1) f')
  have inj': "inj_on (\<lambda>b. sk_id (node s' b)) (set (as @ [a]))"
  proof -
    have "inj_on (\<lambda>b. sk_id (node s' b)) (set as)" using inj idb by (simp add: inj_on_def)
    moreover have "sk_id (node s' a) \<notin> (\<lambda>b. sk_id (node s' b)) ` set as"
      using ids idb ida by (force simp: na_def)
    ultimately show ?thesis using new by (simp add: inj_on_insert)
  qed
  have ids': "\<forall>b \<in> set (as @ [a]). unat (sk_id (node s' b)) < unat (socket_next_id s')"
    using ids idb ida up by (auto simp: na_def less_SucI)
  have inv': "sock_inv s' (as @ [a])"
    using chain' live a(3,4) inj' ids' cur by (auto simp: sock_inv_def sock_nodes_def f')
  show ?thesis
  proof (rule that [OF op inv' new])
    show "sk_id (node s' a) = socket_next_id s" "sk_flags (node s' a) = 0" "sk_domain (node s' a) = domain"
      by (simp_all add: ida na_def socket_zero_def)
    show "\<forall>b \<in> set as. \<exists>q. sockets s' b = Some ((node s b)\<lparr>sk_next := q\<rparr>)" using nb by blast
    show "tail_free (K + 5) (smm s')" "card (free_frames (smm s')) = card (free_frames (smm s)) - 5"
      using t by (simp_all add: f')
  qed
qed

section \<open>Delivery\<close>

lemma receive_loop_first:
  assumes "chain sk_next (sockets s) p (as @ a # bs)" and "\<forall>b \<in> set as. \<not> accepts k (node s b)"
    and "accepts k (node s a)" and "sk_flags (node s a) AND 2 = 0"
  shows "receive_loop origem k p s = deliver k a (node s a) s"
  using assms(1,2)
proof (induction as arbitrary: p)
  case Nil
  then obtain n where "sockets s a = Some n" "p = a" "a \<noteq> 0" by auto
  with assms(3,4) show ?case by (simp add: receive_loop.simps [of origem k a])
next
  case (Cons b as)
  then obtain n where n: "sockets s b = Some n" "p = b" "b \<noteq> 0" "chain sk_next (sockets s) (sk_next n) (as @ a # bs)" by auto
  with Cons show ?case by (simp add: receive_loop.simps [of origem k b])
qed

lemma receive_loop_none:
  assumes "chain sk_next (sockets s) p as" and "\<forall>b \<in> set as. \<not> accepts k (node s b)"
  shows "receive_loop origem k p s = Some s"
  using assms
proof (induction as arbitrary: p)
  case Nil
  then show ?case by (simp add: receive_loop.simps [of origem k 0])
next
  case (Cons b as)
  then obtain n where n: "sockets s b = Some n" "p = b" "b \<noteq> 0" "chain sk_next (sockets s) (sk_next n) as" by auto
  with Cons show ?case by (simp add: receive_loop.simps [of origem k b])
qed

lemma store_chain:
  assumes "sockets s a = Some n"
  shows "chain sk_next (sockets (store_packet k a n s)) p as = chain sk_next (sockets s) p as"
  unfolding store_packet_def by (simp add: sk.chain_update [where h = "sockets s" and a = a, OF assms])

lemma store_inv:
  assumes "sock_inv s as" and "a \<in> set as"
  shows "sock_inv (store_packet k a (node s a) s) as"
proof -
  obtain n where n: "sockets s a = Some n"
    using assms chain_nodes by (force simp: sock_inv_def sock_nodes_def)
  have id: "sk_id (node (store_packet k a n s) b) = sk_id (node s b)" for b using n by (simp add: store_packet_def)
  have "chain sk_next (sockets (store_packet k a n s)) (saddr_ready_queue s) as"
    using assms(1) store_chain [OF n] by (simp add: sock_inv_def sock_nodes_def)
  then show ?thesis
    using assms(1) n id by (simp add: sock_inv_def sock_nodes_def) (simp add: store_packet_def)
qed

lemma flag_or2: "(f :: u8) OR 2 = f OR push_bit 1 1" by simp

lemma or2_and2: "((f :: u8) OR 2) AND 2 \<noteq> 0" and or2_and80: "(f :: u8) AND 0x80 \<noteq> 0 \<Longrightarrow> (f OR 2) AND 0x80 \<noteq> 0"
proof -
  show "((f :: u8) OR 2) AND 2 \<noteq> 0"
    using test_bit_and [of "f OR 2" 1] set_bit_or [of f 1 1] by simp
  assume "f AND 0x80 \<noteq> 0"
  then show "(f OR 2) AND 0x80 \<noteq> 0"
    using test_bit_and [of f 7] test_bit_and [of "f OR 2" 7] set_bit_or [of f 1 7] by simp
qed

lemma recvfrom_ready:
  assumes "socket_address sock s = Some p" "p \<noteq> 0" "sockets s p = Some n" "sk_flags n AND 0x80 \<noteq> 0" "sk_flags n AND 2 \<noteq> 0"
    and "len \<noteq> 0"
  shows "recvfrom env sock len True s = Some (if sk_length1 n < len then sk_length1 n else len,
     get_mem (sk_buf1 n) (unat (if sk_length1 n < len then sk_length1 n else len)) (smem s),
     Some \<lparr>sin_family = ucast (sk_domain n), sin_port = sk_recv_dest_port n, s_addr = sk_recv_dest_ip n\<rparr>,
     s\<lparr>sockets := (sockets s)(p \<mapsto> n\<lparr>sk_flags := sk_flags n AND NOT 2\<rparr>)\<rparr>)"
  using assms by (simp add: recvfrom_def wait_flags.simps [of env _ p 0 s] Let_def)

section \<open>Loopback\<close>

lemma vmnet_collect_one:
  assumes "rx_status (ds ! c) AND 0x8000 = 0" and "rx_status (ds ! ((c + 1) mod 256)) AND 0x8000 \<noteq> 0"
    and "length ds = 256" "c < 256"
  shows "vmnet_collect 256 ds c = ([(rx_buffer (ds ! c), rx_length (ds ! c))],
    ds[c := (ds ! c)\<lparr>rx_status := rx_status (ds ! c) OR 0x8000\<rparr>], (c + 1) mod 256)"
proof -
  let ?ds = "ds[c := (ds ! c)\<lparr>rx_status := rx_status (ds ! c) OR 0x8000\<rparr>]"
  have "(c + 1) mod 256 \<noteq> c" using assms(4) by (cases "c = 255") auto
  then have "rx_status (?ds ! ((c + 1) mod 256)) AND 0x8000 \<noteq> 0" using assms(2) by simp
  then have "vmnet_collect 255 ?ds ((c + 1) mod 256) = ([], ?ds, (c + 1) mod 256)"
    by (simp add: vmnet_collect.simps [of 255])
  then show ?thesis using assms(1) by (subst vmnet_collect.simps) (simp add: Let_def)
qed

lemma init_socket_new:
  assumes inv: "mm_inv (smm s)" and good: "\<not> bad_socket domain type"
    and tail: "tail_free K (smm s)" and room: "K + 261 \<le> 262144" "261 \<le> card (free_frames (smm s))"
  obtains a s' where "init_socket domain type prot s = Some (1, s')" "sock_inv s' [a]" "sk_id (node s' a) = 1"
    "sk_domain (node s' a) = domain" "socket_next_id s' = 2" "tail_free (K + 261) (smm s')"
    "card (free_frames (smm s')) = card (free_frames (smm s)) - 261"
    "port_bitmap s' = port_bitmap s" "sk_flags (node s' a) = 0"
    "rx_desc s' = rx_desc s" "rx_cur s' = rx_cur s" "tx_cur s' = tx_cur s"
proof -
  obtain k m where al: "alloc_pages 0 256 (smm s) = Some (ucast (256 :: u32), Some (page_addr k), m)"
    and m: "mm_inv m" "tail_free (K + 256) m" "card (free_frames m) = card (free_frames (smm s)) - 256"
    by (rule alloc_tail [OF inv tail, where len = 256 and n = 256 and L = "K + 256" and c = "card (free_frames (smm s)) - 256" and type = 0])
       (use room in simp_all)
  define s1 where "s1 = s\<lparr>next_port := 2000, current_saddr := 0, saddr_ready_queue := 0, socket_next_id := 1, row_cur := 0, smm := m,
        sockt_receive_row := map (\<lambda>i. row_zero\<lparr>rw_buffer := page_addr k + 0x2000 * of_nat i\<rparr>) [0..<ROW_NUM]\<rparr>"
  have f1: "smm s1 = m" "socket_next_id s1 = 1" "port_bitmap s1 = port_bitmap s"
    "rx_desc s1 = rx_desc s" "rx_cur s1 = rx_cur s" "tx_cur s1 = tx_cur s"
    by (simp_all add: s1_def)
  have m1: "mm_inv (smm s1)" "tail_free (K + 256) (smm s1)" "K + 256 + 5 \<le> 262144" "5 \<le> card (free_frames (smm s1))"
    using m room by (simp_all add: f1)
  obtain a b1 b2 m' where mk: "make_socket domain type prot s1 = Some (a, s1\<lparr>smm := m',
        sockets := (sockets s1)(a \<mapsto> socket_zero\<lparr>sk_id := socket_next_id s1, sk_domain := domain, sk_type := type,
          sk_protocol := prot, sk_buf1 := b1, sk_buf2 := b2, sk_client := 0, sk_next := 0\<rparr>),
        socket_next_id := socket_next_id s1 + 1\<rparr>)" (is "_ = Some (_, ?s2)")
    and a: "a \<noteq> 0" "insert a (live_blocks (smm s1)) \<subseteq> live_blocks m'" "mm_inv m'" "tail_free (K + 256 + 5) m'"
      "card (free_frames m') = card (free_frames (smm s1)) - 5"
    by (rule make_socket_fresh [OF m1])
  have a4: "tail_free (K + 261) m'" using a(4) by (simp add: add.assoc)
  have "init_socket domain type prot s = Some (1, ?s2\<lparr>current_saddr := a, saddr_ready_queue := a\<rparr>)"
    using al good mk f1 by (simp add: init_socket_def s1_def [symmetric])
  then show ?thesis
    by (rule that) (use a(1,2,3,5) a4 m f1 in \<open>auto simp: sock_inv_def sock_nodes_def socket_zero_def\<close>)
qed

section \<open>Encoding and decoding\<close>

lemma get16_put:
  assumes "\<And>i. i < length bs \<Longrightarrow> m (off + i) = bs ! i" and "bs = xs @ le16 w @ ys"
  shows "get16 m (off + length xs) = w"
proof (rule le_get16)
  show "m (off + length xs) = le16 w ! 0"
    using assms(1) [of "length xs"] by (simp add: assms(2) nth_append)
  show "m (off + length xs + 1) = le16 w ! 1"
    using assms(1) [of "length xs + 1"] by (simp add: assms(2) nth_append add.assoc)
qed

lemma get32_put:
  assumes "\<And>i. i < length bs \<Longrightarrow> m (off + i) = bs ! i" and "bs = xs @ le32 w @ ys"
  shows "get32 m (off + length xs) = w"
proof (rule le_get32)
  show "m (off + length xs) = le32 w ! 0"
    using assms(1) [of "length xs"] by (simp add: assms(2) nth_append)
  show "m (off + length xs + 1) = le32 w ! 1"
    using assms(1) [of "length xs + 1"] by (simp add: assms(2) nth_append add.assoc)
  show "m (off + length xs + 2) = le32 w ! 2"
    using assms(1) [of "length xs + 2"] by (simp add: assms(2) nth_append add.assoc)
  show "m (off + length xs + 3) = le32 w ! 3"
    using assms(1) [of "length xs + 3"] by (simp add: assms(2) nth_append add.assoc)
qed

lemma len_field:
  assumes "n + k < 65536"
  shows "unat (of_int (int (unat (htons (htons (of_nat (n + k))))) - int k) :: u32) = n"
proof -
  have "unat (of_nat (n + k) :: u16) = n + k" using assms by (intro unat_of_nat_small) simp
  then have "of_int (int (unat (htons (htons (of_nat (n + k))))) - int k) = (of_nat n :: u32)" by simp
  then show ?thesis using assms by (simp only:) (rule unat_of_nat_small, simp)
qed

text \<open>The loopback packet as it lies in the ring buffer is decoded to what was sent.\<close>

lemma vm_packet_decodes:
  assumes len: "length data \<le> 8164"
    and m: "\<And>i. i < 20 + length data \<Longrightarrow> m (a + of_nat i) = (le32 sip @ le32 dip @ le16 (htons (of_nat (12 + (8 + length data)))) @ [17, 0]
        @ udp_bytes \<lparr>udp_src_port = htons sport, udp_dst_port = htons dport, udp_length = l, udp_checksum = c\<rparr> @ data) ! i"
  shows "vm_packet a m = \<lparr>pk_protocol = 17, pk_src_ip = sip, pk_dest_ip = dip, pk_src_port = htons sport,
     pk_dest_port = htons dport, pk_data = data, pk_seq = 0, pk_ack = 0, pk_flags = 0\<rparr>"
    and "m (a + 10) = 17"
proof -
  let ?b = "\<lambda>i. m (a + of_nat i)"
  define L where "L = (of_nat (12 + (8 + length data)) :: u16)"
  define bs where "bs = le32 sip @ le32 dip @ le16 (htons L) @ [17, 0] @ le16 (htons sport) @ le16 (htons dport) @ le16 l @ le16 c @ data"
  have lb: "length bs = 20 + length data" by (simp add: bs_def)
  have b: "\<And>i. i < length bs \<Longrightarrow> ?b (0 + i) = bs ! i"
    using m by (simp add: lb bs_def L_def udp_bytes_def)
  have g: "get32 ?b 0 = sip" using get32_put [OF b, of "[]" sip] by (simp add: bs_def)
  have g1: "get32 ?b 4 = dip" using get32_put [OF b, of "le32 sip" dip] by (simp add: bs_def)
  have g2: "get16 ?b 8 = htons L" using get16_put [OF b, of "le32 sip @ le32 dip" "htons L"] by (simp add: bs_def)
  have g3: "get16 ?b 12 = htons sport"
    using get16_put [OF b, of "le32 sip @ le32 dip @ le16 (htons L) @ [17, 0]" "htons sport"] by (simp add: bs_def)
  have g4: "get16 ?b 14 = htons dport"
    using get16_put [OF b, of "le32 sip @ le32 dip @ le16 (htons L) @ [17, 0] @ le16 (htons sport)" "htons dport"] by (simp add: bs_def)
  show "m (a + 10) = 17" using b [of 10] by (simp add: lb) (simp add: bs_def le32_def le16_def)
  have "int (unat (htons (htons L))) - 12 - 8 = int (unat (htons (htons (of_nat (length data + 20))))) - int 20"
    by (simp add: L_def add.commute)
  then have n: "unat (of_int (int (unat (htons (htons L))) - 12 - 8) :: u32) = length data"
    using len len_field [of "length data" 20] by simp
  have "get_mem (a + 20) (length data) m = data"
  proof (rule nth_equalityI)
    fix i assume "i < length (get_mem (a + 20) (length data) m)"
    then have i: "i < length data" by (simp add: get_mem_def)
    have "a + 20 + of_nat i = a + of_nat (20 + i)" by simp
    then show "get_mem (a + 20) (length data) m ! i = data ! i"
      using i b [of "20 + i"] by (simp add: get_mem_def lb) (simp add: bs_def nth_append le32_def le16_def add.assoc)
  qed (simp add: get_mem_def)
  then show "vm_packet a m = \<lparr>pk_protocol = 17, pk_src_ip = sip, pk_dest_ip = dip, pk_src_port = htons sport,
     pk_dest_port = htons dport, pk_data = data, pk_seq = 0, pk_ack = 0, pk_flags = 0\<rparr>"
    unfolding vm_packet_def Let_def g g1 g2 g3 g4 n by simp
qed

text \<open>A frame whose IPv4 and UDP headers were written by \<^verbatim>\<open>udp_send\<close> is decoded to what was sent.\<close>

lemma udp_frame_decodes:
  assumes len: "length data \<le> 60000" and eh: "length e = 12"
    and f: "f = e @ le16 (htons 0x0800) @ ipv4_hdr (8 + length data) 17 a b cnt
      @ udp_bytes \<lparr>udp_src_port = htons sport, udp_dst_port = htons dport, udp_length = l, udp_checksum = c\<rparr> @ data"
  shows "handle_frame env (\<lambda>i. f ! i) s = map_option snd (socket_server_receive False
     \<lparr>pk_protocol = 17, pk_src_ip = a, pk_dest_ip = b, pk_src_port = htons sport, pk_dest_port = htons dport,
      pk_data = data, pk_seq = 0, pk_ack = 0, pk_flags = 0\<rparr> s)"
proof -
  let ?m = "\<lambda>i. f ! i"
  define L where "L = (ucast (of_nat (8 + length data) + 20 :: u32) :: u16)"
  define i1 where "i1 = le16 (htons (ucast cnt)) @ le16 (htons 0x4000)"
  have li: "length i1 = 4" by (simp add: i1_def)
  have "\<exists>ck. ipv4_hdr (8 + length data) 17 a b cnt =
      [0x45, 0] @ le16 (htons L) @ i1 @ [64, 17] @ le16 ck @ le32 a @ le32 b"
    by (simp add: ipv4_hdr_def Let_def ipv4_bytes_def L_def i1_def) (rule exI, rule refl)
  then obtain ck where ih: "ipv4_hdr (8 + length data) 17 a b cnt =
      [0x45, 0] @ le16 (htons L) @ i1 @ [64, 17] @ le16 ck @ le32 a @ le32 b" ..
  have "of_nat (8 + length data) + 20 = (of_nat (28 + length data) :: u32)" by simp
  then have L: "L = of_nat (28 + length data)"
    unfolding L_def by (simp only:) (rule ucast_of_nat_small, use len in simp)
  note fl = f [unfolded ih udp_bytes_def, simplified]
  have m: "\<And>i. i < length f \<Longrightarrow> ?m (0 + i) = f ! i" by simp
  have g1: "get16 ?m 12 = htons 0x0800" using get16_put [OF m, of e "htons 0x0800"] eh by (simp add: fl)
  have g2: "get16 ?m 16 = htons L"
    using get16_put [OF m, of "e @ le16 (htons 0x0800) @ [0x45, 0]" "htons L"] eh by (simp add: fl)
  have g3: "get32 ?m 26 = a"
    using get32_put [OF m, of "e @ le16 (htons 0x0800) @ [0x45, 0] @ le16 (htons L) @ i1 @ [64, 17] @ le16 ck" a] eh li by (simp add: fl)
  have g4: "get32 ?m 30 = b"
    using get32_put [OF m, of "e @ le16 (htons 0x0800) @ [0x45, 0] @ le16 (htons L) @ i1 @ [64, 17] @ le16 ck @ le32 a" b] eh li by (simp add: fl)
  have g5: "get16 ?m 34 = htons sport"
    using get16_put [OF m, of "e @ le16 (htons 0x0800) @ [0x45, 0] @ le16 (htons L) @ i1 @ [64, 17] @ le16 ck @ le32 a @ le32 b" "htons sport"] eh li by (simp add: fl)
  have g6: "get16 ?m 36 = htons dport"
    using get16_put [OF m, of "e @ le16 (htons 0x0800) @ [0x45, 0] @ le16 (htons L) @ i1 @ [64, 17] @ le16 ck @ le32 a @ le32 b @ le16 (htons sport)" "htons dport"] eh li by (simp add: fl)
  have p: "?m 23 = 17"
    using eh li by (simp add: fl nth_append)
  have "int (unat (htons (htons L))) - 20 - 8 = int (unat (htons (htons (of_nat (length data + 28))))) - int 28"
    by (simp add: L add.commute)
  then have n: "unat (of_int (int (unat (htons (htons L))) - 20 - 8) :: u32) = length data"
    using len len_field [of "length data" 28] by simp
  have d: "frame_data ?m 42 (of_int (int (unat (htons (htons L))) - 20 - 8)) = data"
  proof (rule nth_equalityI)
    fix i assume "i < length (frame_data ?m 42 (of_int (int (unat (htons (htons L))) - 20 - 8)))"
    then have i: "i < length data" by (simp only: frame_data_def n) simp
    then show "frame_data ?m 42 (of_int (int (unat (htons (htons L))) - 20 - 8)) ! i = data ! i"
      using eh li by (simp only: frame_data_def n) (simp add: fl nth_append)
  qed (simp only: frame_data_def n, simp)
  show ?thesis
    unfolding handle_frame_def Let_def g1 p htons_htons
    by (simp add: handle_udp_def Let_def g2 g3 g4 g5 g6 d [simplified])
qed

text \<open>The ring of the loopback device between two packets: every buffer has been collected.\<close>

definition ring_idle :: "'a sock_state_scheme \<Rightarrow> bool" where
  "ring_idle s \<longleftrightarrow> length (rx_desc s) = 256 \<and> tx_cur s = rx_cur s \<and> rx_cur s < 256 \<and>
     (\<forall>d \<in> set (rx_desc s). rx_status d AND 0x8000 \<noteq> 0 \<and> rx_buffer d \<noteq> 0)"

lemma vmnet_udp_send_receive:
  assumes idle: "ring_idle s"
    and len: "length data \<le> 8164"
  obtains s1 where "vmnet_udp_send sip dip sport dport data s =
      map_option (\<lambda>(_, t). (int (length data), t)) (socket_server_receive False
        \<lparr>pk_protocol = 17, pk_src_ip = sip, pk_dest_ip = dip, pk_src_port = htons sport, pk_dest_port = htons dport,
         pk_data = data, pk_seq = 0, pk_ack = 0, pk_flags = 0\<rparr> s1)"
    "sockets s1 = sockets s" "\<forall>xs. sock_inv s1 xs = sock_inv s xs" "ring_idle s1"
proof -
  let ?c = "rx_cur s" and ?n = "(rx_cur s + 1) mod 256"
  have ring: "length (rx_desc s) = 256" "tx_cur s = rx_cur s" "rx_cur s < 256"
      "\<forall>d \<in> set (rx_desc s). rx_status d AND 0x8000 \<noteq> 0 \<and> rx_buffer d \<noteq> 0"
    using idle by (simp_all add: ring_idle_def)
  define udp where "udp = \<lparr>udp_src_port = htons sport, udp_dst_port = htons dport, udp_length = htons (of_nat (8 + length data)), udp_checksum = 0\<rparr>"
  define bs where "bs = le32 sip @ le32 dip @ le16 (htons (of_nat (12 + (8 + length data)))) @ [17, 0] @ udp_bytes udp @ data"
  have lb: "length bs = 20 + length data" by (simp add: bs_def udp_bytes_def)
  define d where "d = rx_desc s ! ?c"
  define m where "m = put_mem (rx_buffer d) bs (smem s)"
  define ds where "ds = (rx_desc s)[?c := d\<lparr>rx_length := of_nat (length bs), rx_status := 0\<rparr>]"
  have nc: "?n \<noteq> ?c" using ring(3) by (cases "?c = 255") auto
  have "?n < length (rx_desc s)" using ring(1) by simp
  then have "rx_status (rx_desc s ! ?n) AND 0x8000 \<noteq> 0" using ring(4) nth_mem by blast
  then have col: "vmnet_collect 256 ds ?c = ([(rx_buffer d, of_nat (length bs))], ds[?c := (ds ! ?c)\<lparr>rx_status := rx_status (ds ! ?c) OR 0x8000\<rparr>], ?n)"
    using vmnet_collect_one [of ds ?c] ring nc by (simp add: ds_def)
  define s1 where "s1 = s\<lparr>smem := m, tx_cur := ?n, rx_desc := ds[?c := (ds ! ?c)\<lparr>rx_status := rx_status (ds ! ?c) OR 0x8000\<rparr>], rx_cur := ?n\<rparr>"
  have bytes: "m (rx_buffer d + of_nat i) = (le32 sip @ le32 dip @ le16 (htons (of_nat (12 + (8 + length data)))) @ [17, 0]
        @ udp_bytes \<lparr>udp_src_port = htons sport, udp_dst_port = htons dport, udp_length = htons (of_nat (8 + length data)), udp_checksum = 0\<rparr> @ data) ! i"
    if "i < 20 + length data" for i
    unfolding m_def using that len by (subst put_mem_at) (simp_all add: lb, simp add: bs_def udp_def)
  note dec = vm_packet_decodes [OF len, of m "rx_buffer d", OF bytes]
  have nz: "(of_nat (length bs) :: u16) \<noteq> 0" "rx_buffer d \<noteq> 0"
  proof -
    have "unat (of_nat (length bs) :: u16) = length bs" using len by (intro unat_of_nat_small) (simp add: lb)
    then show "(of_nat (length bs) :: u16) \<noteq> 0" using lb by auto
    show "rx_buffer d \<noteq> 0" using ring by (simp add: d_def)
  qed
  have hv: "handler_vmnet (s\<lparr>smem := m, rx_desc := ds, tx_cur := ?n\<rparr>) =
      map_option snd (socket_server_receive False (vm_packet (rx_buffer d) m) s1)"
  proof -
    have "handler_vmnet (s\<lparr>smem := m, rx_desc := ds, tx_cur := ?n\<rparr>) = vmnet_dispatch [(rx_buffer d, of_nat (length bs))] s1"
      by (simp add: handler_vmnet_def vmnet_recieve_package_def col s1_def)
    also have "\<dots> = map_option snd (socket_server_receive False (vm_packet (rx_buffer d) m) s1)"
      using nz dec(2) by (auto simp: s1_def split: Option.bind_splits)
    finally show ?thesis .
  qed
  have sp: "vmnet_send_package bs s = map_option (\<lambda>t. (0, t)) (handler_vmnet (s\<lparr>smem := m, rx_desc := ds, tx_cur := ?n\<rparr>))"
    using len lb ring(2) by (simp add: vmnet_send_package_def Let_def m_def ds_def d_def map_conv_bind_option comp_def)
  have "vmipv4_send (udp_bytes udp @ data) 17 sip dip s = map_option (\<lambda>t. (0, t)) (handler_vmnet (s\<lparr>smem := m, rx_desc := ds, tx_cur := ?n\<rparr>))"
  proof -
    have ln: "12 + length (udp_bytes udp @ data) = 12 + (8 + length data)" by (simp add: udp_bytes_def)
    show ?thesis unfolding vmipv4_send_def Let_def ln
      using sp by (simp add: bs_def map_conv_bind_option comp_def)
  qed
  then have "vmnet_udp_send sip dip sport dport data s = map_option (\<lambda>t. (int (length data), t)) (handler_vmnet (s\<lparr>smem := m, rx_desc := ds, tx_cur := ?n\<rparr>))"
    unfolding vmnet_udp_send_def Let_def udp_def [symmetric] by (simp add: map_conv_bind_option comp_def)
  then have "vmnet_udp_send sip dip sport dport data s = map_option (\<lambda>(_, t). (int (length data), t)) (socket_server_receive False (vm_packet (rx_buffer d) m) s1)"
    unfolding hv by (simp add: option.map_comp comp_def case_prod_unfold)
  moreover have "sock_inv s1 xs = sock_inv s xs" for xs by (simp add: s1_def sock_inv_def sock_nodes_def)
  moreover have "ring_idle s1"
  proof -
    have "rx_desc s1 = (rx_desc s)[?c := d\<lparr>rx_length := of_nat (length bs), rx_status := 0x8000\<rparr>]"
      using ring(1,3) by (simp add: s1_def ds_def)
    moreover have "set ((rx_desc s)[?c := d\<lparr>rx_length := of_nat (length bs), rx_status := 0x8000\<rparr>])
        \<subseteq> insert (d\<lparr>rx_length := of_nat (length bs), rx_status := 0x8000\<rparr>) (set (rx_desc s))"
      by (rule set_update_subset_insert)
    ultimately show ?thesis using ring nz(2) by (auto simp: ring_idle_def s1_def)
  qed
  ultimately show ?thesis using that [of s1] dec(1) by (simp add: s1_def)
qed

end
