(* ===== verification/Sockthms.thy ===== *)
theory Sockthms
  imports Sockprops
begin

text \<open>
  What the sockets guarantee: creating, binding, receiving, the loopback device, UDP between two
  machines, and packets kept for a full socket.
\<close>

section \<open>A booted machine\<close>

definition sock_zero :: sock_state where
  "sock_zero = net_state.extend (ethernet_port_setup net_zero)
     \<lparr>smm = mm_boot mm_zero, sockets = Map.empty, smem = (\<lambda>_. 0), saddr_ready_queue = 0, current_saddr = 0, socket_next_id = 0,
      sockt_receive_row = replicate 128 row_zero, row_cur = 0, next_port = 0,
      rx_desc = replicate 256 \<lparr>rx_buffer = 0x70000000, rx_length = 0, rx_status = 0x8000\<rparr>,
      rx_cur = 0, tx_cur = 0\<rparr>"

lemma sock_zero_heap: "mm_inv (smm sock_zero)" "tail_free 0 (smm sock_zero)" "98304 \<le> card (free_frames (smm sock_zero))"
  by (simp_all add: sock_zero_def net_state.defs mm_boot_inv mm_boot_tail mm_boot_free_frames)

lemma sock_zero_init:
  obtains a s where "init_socket 1 2 0 sock_zero = Some (1, s)" "sock_inv s [a]" "sk_id (node s a) = 1"
    "sk_domain (node s a) = 1" "socket_next_id s = 2" "tail_free 261 (smm s)" "5 \<le> card (free_frames (smm s))"
    "port_bitmap s = port_bitmap sock_zero" "sk_flags (node s a) = 0" "ring_idle s"
proof (rule init_socket_new [where s = sock_zero and domain = 1 and type = 2 and prot = 0 and K = 0])
  show "mm_inv (smm sock_zero)" "tail_free 0 (smm sock_zero)" "261 \<le> card (free_frames (smm sock_zero))"
    using sock_zero_heap by simp_all
  show "\<not> bad_socket 1 2" by (simp add: bad_socket_def)
  fix a s
  assume "init_socket 1 2 0 sock_zero = Some (1, s)" "sock_inv s [a]" "sk_id (node s a) = 1"
    "sk_domain (node s a) = 1" "socket_next_id s = 2" "tail_free (0 + 261) (smm s)" "port_bitmap s = port_bitmap sock_zero"
    "card (free_frames (smm s)) = card (free_frames (smm sock_zero)) - 261" "sk_flags (node s a) = 0"
    "rx_desc s = rx_desc sock_zero" "rx_cur s = rx_cur sock_zero" "tx_cur s = tx_cur sock_zero"
  moreover have "ring_idle sock_zero"
    by (auto simp: ring_idle_def sock_zero_def net_state.defs)
  ultimately show thesis using that [of s a] sock_zero_heap(3) by (simp add: ring_idle_def)
qed simp

lemma receive_delivers:
  assumes "sock_inv s (as @ a # bs)" and "\<forall>b \<in> set as. \<not> accepts k (node s b)"
    and "accepts k (node s a)" and "sk_flags (node s a) AND 2 = 0" and "length (pk_data k) \<le> 8192"
  shows "socket_server_receive origem k s = Some (0, store_packet k a (node s a) s)"
proof -
  have "chain sk_next (sockets s) (saddr_ready_queue s) (as @ a # bs)"
    using assms(1) by (simp add: sock_inv_def sock_nodes_def)
  from receive_loop_first [OF this assms(2-4)] assms(5) show ?thesis by (simp add: socket_server_receive_def deliver_def)
qed

lemma store_ring [simp]: "ring_idle (store_packet k a n s) = ring_idle s"
  by (simp add: ring_idle_def store_packet_def)

lemma delivered_recvfrom:
  assumes "sock_inv s (as @ a # bs)" and "\<forall>b \<in> set as. \<not> accepts k (node s b)"
    and "accepts k (node s a)" and "sk_flags (node s a) AND 2 = 0" and "length (pk_data k) \<le> 8192" and "len \<noteq> 0"
  shows "\<exists>s' s''. socket_server_receive False k s = Some (0, s') \<and> sock_inv s' (as @ a # bs) \<and>
    recvfrom env (sk_id (node s a)) len True s' = Some (of_nat (min (length (pk_data k)) (unat len)),
      take (unat len) (pk_data k),
      Some \<lparr>sin_family = ucast (sk_domain (node s a)), sin_port = pk_src_port k, s_addr = pk_src_ip k\<rparr>, s'') \<and>
    sk_flags (node s'' a) AND 2 = 0"
proof -
  let ?s = "store_packet k a (node s a) s"
  have ch: "chain sk_next (sockets s) (saddr_ready_queue s) (as @ a # bs)"
    using assms(1) by (simp add: sock_inv_def sock_nodes_def)
  obtain n where n: "sockets s a = Some n" "a \<noteq> 0" using chain_nodes [OF ch, of a] by auto
  have rec: "socket_server_receive False k s = Some (0, ?s)" by (rule receive_delivers [OF assms(1-5)])
  have inv: "sock_inv ?s (as @ a # bs)" by (rule store_inv [OF assms(1)]) simp
  define n' where "n' = node ?s a"
  have n': "sockets ?s a = Some n'" "sk_flags n' = sk_flags n OR 2" "sk_id n' = sk_id n" "sk_domain n' = sk_domain n"
    "sk_length1 n' = of_nat (length (pk_data k))" "sk_recv_dest_port n' = pk_src_port k" "sk_recv_dest_ip n' = pk_src_ip k"
    "sk_buf1 n' = sk_buf1 n" "smem ?s = put_mem (sk_buf1 n) (pk_data k) (smem s)"
    by (simp_all add: n'_def store_packet_def n)
  have addr: "socket_address (sk_id n) ?s = Some a" using socket_address_id [OF inv, of a] n' by simp
  have fl: "sk_flags n' AND 0x80 \<noteq> 0" "sk_flags n' AND 2 \<noteq> 0"
    using assms(3) n or2_and80 or2_and2 by (auto simp: accepts_def n')
  let ?r = "if sk_length1 n' < len then sk_length1 n' else len"
  have ul: "unat (sk_length1 n') = length (pk_data k)" using assms(5) by (simp add: n' unat_of_nat_small)
  have ur: "unat ?r = min (length (pk_data k)) (unat len)" using ul by (simp add: word_less_nat_alt)
  have r: "?r = of_nat (min (length (pk_data k)) (unat len))" using arg_cong [OF ur, where f = "of_nat :: nat \<Rightarrow> u32"] by simp
  have d: "get_mem (sk_buf1 n') (unat ?r) (smem ?s) = take (unat len) (pk_data k)"
    unfolding ur n'(8,9) using assms(5) by (subst get_put_mem) (simp_all add: min_def)
  have "recvfrom env (sk_id n) len True ?s = Some (?r, get_mem (sk_buf1 n') (unat ?r) (smem ?s),
     Some \<lparr>sin_family = ucast (sk_domain n'), sin_port = sk_recv_dest_port n', s_addr = sk_recv_dest_ip n'\<rparr>,
     ?s\<lparr>sockets := (sockets ?s)(a \<mapsto> n'\<lparr>sk_flags := sk_flags n' AND NOT 2\<rparr>)\<rparr>)"
    by (rule recvfrom_ready [OF addr n(2) n'(1) fl assms(6)])
  moreover have "(sk_flags n' AND NOT 2) AND 2 = 0"
    using test_bit_and [of "sk_flags n' AND NOT 2" 1] clear_bit_and [of "sk_flags n'" 1 1] by simp
  ultimately show ?thesis using rec inv n unfolding d unfolding r by (auto simp: n'(4,6,7))
qed


section \<open>Binding\<close>

abbreviation bound_node :: "'a sock_state_scheme \<Rightarrow> sockaddr_in \<Rightarrow> socket \<Rightarrow> socket" where
  "bound_node s sa n \<equiv> n\<lparr>sk_src_port := sin_port sa,
     sk_src_ip := if s_addr sa \<noteq> 0 then s_addr sa else if sk_domain n = AF_LOCAL then ip_word (local_ip s) else ip_word (your_ip s),
     sk_flags := sk_flags n OR 0x80\<rparr>"

lemma htons_0_iff: "htons p = 0 \<longleftrightarrow> p = 0"
  by (metis htons_htons htons_0)

lemma bind_op_port:
  assumes inv: "sock_inv s as" and a: "a \<in> set as" and fam: "ucast (sin_family sa) = sk_domain (node s a)" and len: "len \<noteq> 0"
  shows "bind_op (sk_id (node s a)) sa len s =
    (if port_used s (unat (htons (sin_port sa))) then Some (- 1, s)
     else if sin_port sa = 0 then Some (- 1, snd (set_port 0 s))
     else Some (0, (snd (set_port (htons (sin_port sa)) s))\<lparr>sockets := (sockets s)(a \<mapsto> bound_node s sa (node s a))\<rparr>))"
proof -
  obtain n where n: "sockets s a = Some n"
    using inv a chain_nodes by (force simp: sock_inv_def sock_nodes_def)
  have addr: "socket_address (sk_id n) s = Some a" using socket_address_id [OF inv a] n by simp
  show ?thesis
    using fam len n addr by (auto simp: bind_op_def set_port_spec Let_def htons_0_iff)
qed

lemma sock_inv_update:
  assumes inv: "sock_inv s as" and n: "sockets s a = Some n" and n': "sk_id n' = sk_id n" "sk_next n' = sk_next n"
    and t: "sockets t = (sockets s)(a \<mapsto> n')" "saddr_ready_queue t = saddr_ready_queue s" "smm t = smm s"
      "socket_next_id t = socket_next_id s" "current_saddr t = current_saddr s"
  shows "sock_inv t as"
proof -
  have "chain sk_next (sockets t) (saddr_ready_queue s) as"
    using inv sk.chain_update [where h = "sockets s" and a = a, OF n, of n'] by (simp add: sock_inv_def sock_nodes_def t n')
  moreover have "sk_id (node t b) = sk_id (node s b)" for b using n by (simp add: t n')
  ultimately show ?thesis using inv by (simp add: sock_inv_def sock_nodes_def t(2-5))
qed

lemma bound_inv:
  assumes "sock_inv s as" and "a \<in> set as"
  shows "sock_inv ((snd (set_port p s))\<lparr>sockets := (sockets s)(a \<mapsto> bound_node s sa (node s a))\<rparr>) as"
proof -
  obtain n where n: "sockets s a = Some n"
    using assms chain_nodes by (force simp: sock_inv_def sock_nodes_def)
  show ?thesis
    by (rule sock_inv_update [OF assms(1) n, where n' = "bound_node s sa n"]) (simp_all add: n set_port_spec)
qed

lemma bound_accepts:
  assumes "sk_domain n = AF_INET \<or> sk_domain n = AF_LOCAL"
  shows "accepts k (bound_node s sa n) \<longleftrightarrow> sin_port sa = pk_dest_port k"
    and "sk_flags n AND 2 = 0 \<Longrightarrow> sk_flags (bound_node s sa n) AND 2 = 0"
proof -
  have "(sk_flags n OR 0x80) AND 0x80 \<noteq> 0"
    using test_bit_and [of "sk_flags n OR 0x80" 7] set_bit_or [of "sk_flags n" 7 7] by simp
  then show "accepts k (bound_node s sa n) \<longleftrightarrow> sin_port sa = pk_dest_port k" using assms by (auto simp: accepts_def)
  show "sk_flags (bound_node s sa n) AND 2 = 0" if "sk_flags n AND 2 = 0"
    using that test_bit_and [of "sk_flags n OR 0x80" 1] test_bit_and [of "sk_flags n" 1] set_bit_or [of "sk_flags n" 7 1] by simp
qed

text \<open>C28: \<^verbatim>\<open>socket\<close> appends a new node with a new id to the queue and keeps the queue's invariant: it stays a
  null-terminated list of live heap blocks with pairwise different ids, every id still leads to its
  node (\<^verbatim>\<open>socket_address\<close>), and the other sockets change in nothing but the link of the last one.\<close>

theorem socket_correct:
  assumes "sock_inv s as" and "\<not> bad_socket domain type" and "tail_free K (smm s)" and "K + 5 \<le> 262144"
    and "5 \<le> card (free_frames (smm s))" and "unat (socket_next_id s) < 2 ^ 32 - 1"
  shows "\<exists>a s'. socket_op domain type prot s = Some (socket_next_id s, s') \<and> sock_inv s' (as @ [a]) \<and>
    socket_address (socket_next_id s) s' = Some a \<and>
    (\<forall>b \<in> set as. socket_address (sk_id (node s b)) s' = Some b \<and> (\<exists>q. sockets s' b = Some ((node s b)\<lparr>sk_next := q\<rparr>)))"
proof -
  obtain a s' where op: "socket_op domain type prot s = Some (socket_next_id s, s')" and inv: "sock_inv s' (as @ [a])"
    and a: "a \<notin> set as" "sk_id (node s' a) = socket_next_id s"
    and old: "\<forall>b \<in> set as. \<exists>q. sockets s' b = Some ((node s b)\<lparr>sk_next := q\<rparr>)"
    by (rule socket_op_new [OF assms(1-6)])
  have "socket_address (socket_next_id s) s' = Some a"
    using socket_address_id [OF inv, of a] a by simp
  moreover have "socket_address (sk_id (node s b)) s' = Some b" if "b \<in> set as" for b
  proof -
    have "sk_id (node s' b) = sk_id (node s b)" using old that by force
    with socket_address_id [OF inv, of b] that show ?thesis by simp
  qed
  ultimately show ?thesis using op inv old by blast
qed

theorem socket_correct_witness:
  "\<exists>s a s' b. init_socket 1 2 0 sock_zero = Some (1, s) \<and> socket_op 2 1 0 s = Some (2, s') \<and>
     socket_address 1 s' = Some a \<and> socket_address 2 s' = Some b \<and> sock_inv s' [a, b]"
proof -
  obtain a s where s: "init_socket 1 2 0 sock_zero = Some (1, s)" "sock_inv s [a]" "sk_id (node s a) = 1"
    "socket_next_id s = 2" "tail_free 261 (smm s)" "5 \<le> card (free_frames (smm s))" by (rule sock_zero_init)
  from socket_correct [OF s(2) _ s(5) _ s(6), of 2 1 0] s show ?thesis by (auto simp: bad_socket_def)
qed

text \<open>A datagram of at most 8192 bytes, what the buffer of a socket holds, that arrives for a bound socket with room is
  what the next \<^verbatim>\<open>recvfrom\<close> on that socket returns, without waiting: the bytes (up to the caller's length), the sender's
  address and port; afterwards the socket has room again and the queue invariant holds.\<close>

lemma receive_then_recvfrom:
  assumes "sock_inv s (as @ a # bs)" and "\<forall>b \<in> set as. \<not> accepts k (node s b)"
    and "accepts k (node s a)" and "sk_flags (node s a) AND 2 = 0" and "length (pk_data k) \<le> 8192" and "len \<noteq> 0"
  shows "\<exists>s' s''. socket_server_receive False k s = Some (0, s') \<and> sock_inv s' (as @ a # bs) \<and>
    recvfrom env (sk_id (node s a)) len True s' = Some (of_nat (min (length (pk_data k)) (unat len)),
      take (unat len) (pk_data k),
      Some \<lparr>sin_family = ucast (sk_domain (node s a)), sin_port = pk_src_port k, s_addr = pk_src_ip k\<rparr>, s'') \<and>
    sk_flags (node s'' a) AND 2 = 0"
  by (rule delivered_recvfrom [OF assms])


text \<open>C30: \<^verbatim>\<open>bind\<close> of a socket to a non-zero port: it fails without effect when the port is taken; otherwise
  it marks the port, stores the address (the device's own when none is given) and opens the socket for
  datagrams to that port.  From then on every bind of the same port is refused, to any socket.\<close>

theorem bind_exclusive:
  assumes "sock_inv s as" and "a \<in> set as" and "ucast (sin_family sa) = sk_domain (node s a)" and "len \<noteq> 0"
    and "sin_port sa \<noteq> 0" and "\<not> port_used s (unat (htons (sin_port sa)))"
    and "sk_domain (node s a) = AF_INET \<or> sk_domain (node s a) = AF_LOCAL"
  shows "\<exists>s'. bind_op (sk_id (node s a)) sa len s = Some (0, s') \<and> sock_inv s' as \<and>
    (\<forall>k. accepts k (node s' a) \<longleftrightarrow> pk_dest_port k = sin_port sa) \<and>
    (\<forall>b. b \<noteq> a \<longrightarrow> sockets s' b = sockets s b) \<and>
    sk_id (node s' a) = sk_id (node s a) \<and> sk_domain (node s' a) = sk_domain (node s a) \<and>
    (\<forall>b \<in> set as. \<forall>sa'. sin_port sa' = sin_port sa \<and> ucast (sin_family sa') = sk_domain (node s' b) \<longrightarrow>
       bind_op (sk_id (node s' b)) sa' len s' = Some (- 1, s'))"
proof -
  let ?p = "unat (htons (sin_port sa))"
  let ?s = "(snd (set_port (htons (sin_port sa)) s))\<lparr>sockets := (sockets s)(a \<mapsto> bound_node s sa (node s a))\<rparr>"
  have inv: "sock_inv ?s as" by (rule bound_inv [OF assms(1,2)])
  have used: "port_used ?s ?p" using assms(6) by (simp add: set_port_spec bmp_bit_def bit_or_iff bit_exp_iff)
  have acc: "accepts k (node ?s a) \<longleftrightarrow> pk_dest_port k = sin_port sa" for k
    using bound_accepts(1) [OF assms(7), where k = k and s = s and sa = sa] by auto
  have "bind_op (sk_id (node ?s b)) sa' len ?s = Some (- 1, ?s)"
    if "b \<in> set as" "sin_port sa' = sin_port sa" "ucast (sin_family sa') = sk_domain (node ?s b)" for b sa'
    unfolding bind_op_port [OF inv that(1,3) assms(4)] that(2) using used by simp
  moreover have "bind_op (sk_id (node s a)) sa len s = Some (0, ?s)"
    unfolding bind_op_port [OF assms(1-4)] using assms(5,6) by simp
  moreover have "sockets ?s b = sockets s b" if "b \<noteq> a" for b using that by simp
  moreover have "sk_id (node ?s a) = sk_id (node s a)" "sk_domain (node ?s a) = sk_domain (node s a)" by simp_all
  ultimately show ?thesis using inv acc by blast
qed


lemma sock_zero_bound:
  obtains s :: sock_state and a where "sock_inv s [a]" "sk_id (node s a) = 1" "sk_domain (node s a) = 1" "sk_flags (node s a) AND 2 = 0"
    "\<forall>k. accepts k (node s a) \<longleftrightarrow> pk_dest_port k = htons 5000" "ring_idle s"
proof -
  obtain a s where s: "init_socket 1 2 0 sock_zero = Some (1, s)" "sock_inv s [a]" "sk_id (node s a) = 1"
    "sk_domain (node s a) = 1" "sk_flags (node s a) = 0" "ring_idle s" by (rule sock_zero_init)
  let ?sa = "\<lparr>sin_family = 1, sin_port = htons 5000, s_addr = 0x0100007F\<rparr>"
  let ?s = "(snd (set_port 5000 s))\<lparr>sockets := (sockets s)(a \<mapsto> bound_node s ?sa (node s a))\<rparr>"
  have "sock_inv ?s [a]" by (rule bound_inv [OF s(2)]) simp
  moreover have "ring_idle ?s" using s(6) by (simp add: ring_idle_def set_port_spec)
  moreover have "accepts k (node ?s a) \<longleftrightarrow> pk_dest_port k = htons 5000" for k
    using bound_accepts(1) [where n = "node s a" and k = k and s = s and sa = ?sa] s(4) by auto
  moreover have "sk_flags (node ?s a) AND 2 = 0" using bound_accepts(2) [where n = "node s a" and s = s and sa = ?sa] s(4,5) by simp
  ultimately show ?thesis using that [of ?s a] s(3,4) by simp
qed


theorem bind_exclusive_witness:
  "\<exists>(s :: sock_state) s' a. sock_inv s [a] \<and> bind_op 1 \<lparr>sin_family = 1, sin_port = htons 5000, s_addr = 0\<rparr> 8 s = Some (0, s') \<and>
     bind_op 1 \<lparr>sin_family = 1, sin_port = htons 5000, s_addr = 0\<rparr> 8 s' = Some (- 1, s')"
proof -
  let ?sa = "\<lparr>sin_family = 1, sin_port = htons 5000, s_addr = 0\<rparr> :: sockaddr_in"
  obtain a and s :: sock_state where s: "sock_inv s [a]" "sk_id (node s a) = 1" "sk_domain (node s a) = 1"
    "port_bitmap s = port_bitmap sock_zero" by (rule sock_zero_init)
  have "\<not> port_used s 5000" by (simp add: s(4) sock_zero_def net_state.defs bmp_bit_def ethernet_port_setup_def net_zero_def set_port_spec)
  with bind_exclusive [OF s(1), of a ?sa 8] s show ?thesis
    by (auto simp: htons_0_iff)
qed

text \<open>\<^verbatim>\<open>bind\<close> to port 0 fails for every socket and in every state, although the code goes on to ask
  \<^verbatim>\<open>get_port\<close> for a free port when the given port is 0: \<^verbatim>\<open>set_port\<close> returns the port itself as its
  success value, which for port 0 reads as a failure.\<close>

lemma bind_port_zero_fails:
  assumes "sock_inv s as" and "a \<in> set as" and "sin_port sa = 0"
  shows "\<exists>s'. bind_op (sk_id (node s a)) sa len s = Some (- 1, s') \<and> sockets s' = sockets s"
proof (cases "len = 0 \<or> ucast (sin_family sa) \<noteq> sk_domain (node s a)")
  case True
  obtain n where "sockets s a = Some n" using assms chain_nodes by (force simp: sock_inv_def sock_nodes_def)
  then show ?thesis using True socket_address_id [OF assms(1,2)] by (auto simp: bind_op_def)
next
  case False
  then show ?thesis
    using bind_op_port [OF assms(1,2)] assms(3) by (simp add: set_port_spec)
qed

text \<open>C14: the loopback device: a datagram of at most 8164 bytes that \<^verbatim>\<open>vmnet_udp_send\<close> sends to the port of
  a bound local socket with room goes through the ring, the interrupt handler and the header encoding
  and is what \<^verbatim>\<open>recvfrom\<close> on that socket returns: the same bytes, the sender's address and port.  The
  ring is idle again and the sockets' invariant holds.\<close>

theorem loopback_delivers:
  assumes "sock_inv s (as @ a # bs)" and "ring_idle s" and "length data \<le> 8164"
    and "\<forall>b \<in> set as. sk_src_port (node s b) \<noteq> htons dport"
    and "sk_src_port (node s a) = htons dport" and "sk_flags (node s a) AND 0x80 \<noteq> 0" and "sk_flags (node s a) AND 2 = 0"
    and "sk_domain (node s a) = AF_LOCAL"
  shows "\<exists>s' s''. vmnet_udp_send sip dip sport dport data s = Some (int (length data), s') \<and>
    sock_inv s' (as @ a # bs) \<and> ring_idle s' \<and>
    recvfrom env (sk_id (node s a)) 8192 True s' = Some (of_nat (length data), data,
      Some \<lparr>sin_family = 1, sin_port = htons sport, s_addr = sip\<rparr>, s'')"
proof -
  let ?k = "\<lparr>pk_protocol = 17, pk_src_ip = sip, pk_dest_ip = dip, pk_src_port = htons sport, pk_dest_port = htons dport,
         pk_data = data, pk_seq = 0, pk_ack = 0, pk_flags = 0\<rparr> :: packet"
  obtain s1 where s1: "vmnet_udp_send sip dip sport dport data s =
      map_option (\<lambda>(_, t). (int (length data), t)) (socket_server_receive False ?k s1)"
    "sockets s1 = sockets s" "\<forall>xs. sock_inv s1 xs = sock_inv s xs" "ring_idle s1"
    by (rule vmnet_udp_send_receive [OF assms(2,3), where sip = sip and dip = dip and sport = sport and dport = dport])
  have k: "\<forall>b \<in> set as. \<not> accepts ?k (node s1 b)" "accepts ?k (node s1 a)"
    using assms(4-6,8) by (auto simp: accepts_def s1(2))
  have r: "length data \<le> 8192" "min (length data) 8192 = length data" using assms(3) by simp_all
  obtain s' s'' where s': "socket_server_receive False ?k s1 = Some (0, s')" "sock_inv s' (as @ a # bs)"
    "recvfrom env (sk_id (node s1 a)) 8192 True s' = Some (of_nat (min (length data) (unat (8192 :: u32))), take (unat (8192 :: u32)) data,
      Some \<lparr>sin_family = ucast (sk_domain (node s1 a)), sin_port = htons sport, s_addr = sip\<rparr>, s'')"
    using delivered_recvfrom [of s1 as a bs ?k 8192 env] k r assms(1,7) by (auto simp: s1(2,3))
  have "ring_idle s'"
    using s'(1) s1(3,4) receive_delivers [of s1 as a bs ?k False] assms(1,7) k r(1) by (simp add: s1(2))
  with s' s1(1) show ?thesis using r(2) assms(3,8) by (simp add: s1(2))
qed


lemma accepts_port:
  assumes "\<forall>k. accepts k n \<longleftrightarrow> pk_dest_port k = p"
  shows "sk_src_port n = p" and "sk_flags n AND 0x80 \<noteq> 0"
proof -
  have "accepts \<lparr>pk_protocol = 17, pk_src_ip = 0, pk_dest_ip = 0, pk_src_port = 0, pk_dest_port = p,
         pk_data = [], pk_seq = 0, pk_ack = 0, pk_flags = 0\<rparr> n" using assms by simp
  then show "sk_src_port n = p" and "sk_flags n AND 0x80 \<noteq> 0" by (simp_all add: accepts_def)
qed

theorem loopback_delivers_witness:
  "\<exists>(s :: sock_state) s' s'' a. sock_inv s [a] \<and> vmnet_udp_send 7 9 2000 5000 [1, 2, 3] s = Some (3, s') \<and>
     recvfrom (\<lambda>_ s. s) 1 8192 True s' = Some (3, [1, 2, 3], Some \<lparr>sin_family = 1, sin_port = htons 2000, s_addr = 7\<rparr>, s'')"
proof -
  obtain s :: sock_state and a where s: "sock_inv s [a]" "sk_id (node s a) = 1" "sk_domain (node s a) = 1" "sk_flags (node s a) AND 2 = 0"
    "\<forall>k. accepts k (node s a) \<longleftrightarrow> pk_dest_port k = htons 5000" "ring_idle s" by (rule sock_zero_bound)
  from loopback_delivers [of s "[]" a "[]" "[1, 2, 3]" 5000 7 9 2000 "\<lambda>_ s. s"] s accepts_port [OF s(5)] show ?thesis
    by (simp only: append_Nil) auto
qed

text \<open>A datagram that \<^verbatim>\<open>udp_send\<close> puts on the wire, when the router's address is known.\<close>

lemma udp_send_frame:
  assumes res: "resolved s" and arp: "arp_wf s" and mac: "length (dev_mac (default_ethernet_device s)) = 6"
    and en: "is_enabled (default_ethernet_device s) \<noteq> 0"
  obtains s' e f where "udp_send env a b sport dport data s = Some (int (length data), s')" "wire s' = wire s @ [f]" "length e = 12"
    "f = e @ le16 (htons 0x0800) @ ipv4_hdr (8 + length data) 17 a b (ipv4_count s)
      @ udp_bytes \<lparr>udp_src_port = htons sport, udp_dst_port = htons dport,
          udp_length = htons (of_nat (8 + length data)), udp_checksum = 0\<rparr> @ data"
proof -
  define body where "body = udp_bytes \<lparr>udp_src_port = htons sport, udp_dst_port = htons dport,
          udp_length = htons (of_nat (8 + length data)), udp_checksum = 0\<rparr> @ data"
  obtain r fs where sent: "ipv4_send env body 17 a b s = Some (r, sent fs s)"
    by (rule ipv4_send_resolved [OF res, where env = env and body = body and prot = 17 and a = a and b = b])
  obtain m s1 where m: "sent fs s = snd (send_ethernet_package (ether_bytes \<lparr>eh_dst = take 6 m,
        eh_src = take 6 (dev_mac (default_ethernet_device s1)), eh_type = htons 0x0800\<rparr>
        @ ipv4_hdr (length body) 17 a b (ipv4_count s1) @ body) (s1\<lparr>ipv4_count := ipv4_count s1 + 1\<rparr>))"
    "if b = 0xFFFFFFFF then m = everyone \<and> s1 = s else get_hardwere_ethernet env everyone b s = Some (0, m, s1)"
    by (rule ipv4_send_frame [OF sent])
  have s1: "s1 = s" "length (take 6 m) = 6"
    using m(2) resolved_mac [OF res arp, of env b] by (auto simp: everyone_def split: if_splits)
  have "length body = 8 + length data" by (simp add: body_def udp_bytes_def)
  with m(1) en have "wire (sent fs s) = wire s @ [ether_bytes \<lparr>eh_dst = take 6 m,
        eh_src = take 6 (dev_mac (default_ethernet_device s)), eh_type = htons 0x0800\<rparr>
        @ ipv4_hdr (8 + length data) 17 a b (ipv4_count s) @ body]"
    by (simp add: s1 send_ethernet_package_def)
  moreover have "udp_send env a b sport dport data s = Some (int (length data), sent fs s)"
    using sent by (simp add: udp_send_def Let_def body_def)
  ultimately show ?thesis
    using that [of "sent fs s" _ "take 6 m @ take 6 (dev_mac (default_ethernet_device s))"] s1 mac
    by (simp add: ether_bytes_def body_def)
qed

text \<open>C15: UDP end to end: the frame that \<^verbatim>\<open>udp_send\<close> of one machine puts on the wire (Ethernet, IPv4 and UDP
  headers before at most 8192 bytes of data, what the buffer of a socket holds), handed to the receive handler of another machine with a
  socket bound to the destination port, is what \<^verbatim>\<open>recvfrom\<close> returns there.\<close>

theorem udp_end_to_end:
  assumes "resolved s" and "arp_wf s" and "length (dev_mac (default_ethernet_device s)) = 6"
    and "is_enabled (default_ethernet_device s) \<noteq> 0" and "length data \<le> 8192"
    and "sock_inv t (as @ x # bs)" and "\<forall>y \<in> set as. sk_src_port (node t y) \<noteq> htons dport"
    and "sk_src_port (node t x) = htons dport" and "sk_flags (node t x) AND 0x80 \<noteq> 0" and "sk_flags (node t x) AND 2 = 0"
    and "sk_domain (node t x) = AF_INET \<or> sk_domain (node t x) = AF_LOCAL"
  shows "\<exists>s' f t' t''. udp_send env a b sport dport data s = Some (int (length data), s') \<and> wire s' = wire s @ [f] \<and>
    handle_frame env' (\<lambda>i. f ! i) t = Some t' \<and> sock_inv t' (as @ x # bs) \<and>
    recvfrom env'' (sk_id (node t x)) 65535 True t' = Some (of_nat (length data), data,
      Some \<lparr>sin_family = ucast (sk_domain (node t x)), sin_port = htons sport, s_addr = a\<rparr>, t'')"
proof -
  let ?k = "\<lparr>pk_protocol = 17, pk_src_ip = a, pk_dest_ip = b, pk_src_port = htons sport, pk_dest_port = htons dport,
         pk_data = data, pk_seq = 0, pk_ack = 0, pk_flags = 0\<rparr> :: packet"
  obtain s' e f where s': "udp_send env a b sport dport data s = Some (int (length data), s')" "wire s' = wire s @ [f]" and e: "length e = 12"
    and f: "f = e @ le16 (htons 0x0800) @ ipv4_hdr (8 + length data) 17 a b (ipv4_count s)
      @ udp_bytes \<lparr>udp_src_port = htons sport, udp_dst_port = htons dport,
          udp_length = htons (of_nat (8 + length data)), udp_checksum = 0\<rparr> @ data"
    by (rule udp_send_frame [OF assms(1-4), where env = env and a = a and b = b and sport = sport and dport = dport and data = data])
  have hf: "handle_frame env' (\<lambda>i. f ! i) t = map_option snd (socket_server_receive False ?k t)"
    by (rule udp_frame_decodes [OF _ e f]) (use assms(5) in simp)
  have k: "\<forall>y \<in> set as. \<not> accepts ?k (node t y)" "accepts ?k (node t x)"
    using assms(7-9,11) by (auto simp: accepts_def)
  have r: "length data \<le> 60000" "min (length data) 65535 = length data" using assms(5) by simp_all
  from delivered_recvfrom [OF assms(6) k assms(10), of 65535 env''] r assms(5) s' hf show ?thesis by auto
qed


theorem udp_end_to_end_witness:
  "\<exists>s' f (t :: sock_state) t' t''. udp_send (\<lambda>_ s. s) 7 9 2000 5000 [1, 2, 3] net_zero = Some (3, s') \<and> wire s' = [f] \<and>
    handle_frame (\<lambda>_ s. s) (\<lambda>i. f ! i) t = Some t' \<and>
    recvfrom (\<lambda>_ s. s) 1 65535 True t' = Some (3, [1, 2, 3], Some \<lparr>sin_family = 1, sin_port = htons 2000, s_addr = 7\<rparr>, t'')"
proof -
  obtain t :: sock_state and a where t: "sock_inv t [a]" "sk_id (node t a) = 1" "sk_domain (node t a) = 1" "sk_flags (node t a) AND 2 = 0"
    "\<forall>k. accepts k (node t a) \<longleftrightarrow> pk_dest_port k = htons 5000" "ring_idle t" by (rule sock_zero_bound)
  have z: "length (dev_mac (default_ethernet_device net_zero)) = 6" "is_enabled (default_ethernet_device net_zero) \<noteq> 0" "wire net_zero = []"
    by (simp_all add: net_zero_def)
  from udp_end_to_end [OF net_zero_resolved net_zero_arp z(1,2), of "[1, 2, 3]" t "[]" a "[]" 5000 "\<lambda>_ s. s" 7 9 2000 "\<lambda>_ s. s" "\<lambda>_ s. s"]
    t accepts_port [OF t(5)] z(3)
  show ?thesis by (simp only: append_Nil) (auto, blast)
qed

lemma receive_loop_full:
  assumes "chain sk_next (sockets s) p (as @ a # bs)" and "\<forall>b \<in> set as \<union> set bs. \<not> accepts k (node s b)"
    and "accepts k (node s a)" and "sk_flags (node s a) AND 2 \<noteq> 0"
  shows "receive_loop False k p s = socket_save_row k s"
  using assms(1,2)
proof (induction as arbitrary: p)
  case Nil
  then obtain n where n: "sockets s a = Some n" "p = a" "a \<noteq> 0" and ch: "chain sk_next (sockets s) (sk_next n) bs" by auto
  have "receive_loop False k (sk_next n) s' = Some s'" if "socket_save_row k s = Some s'" for s'
  proof -
    have "sockets s' = sockets s" using that by (auto simp: socket_save_row_def Let_def split: if_splits)
    with receive_loop_none [of s' "sk_next n" bs k False] ch Nil.prems show ?thesis by simp
  qed
  with n assms(3,4) show ?case by (simp add: receive_loop.simps [of False k a] split: option.split)
next
  case (Cons b as)
  then obtain n where n: "sockets s b = Some n" "p = b" "b \<noteq> 0" "chain sk_next (sockets s) (sk_next n) (as @ a # bs)" by auto
  with Cons show ?case by (simp add: receive_loop.simps [of False k b])
qed

text \<open>C37: a datagram of at most 8192 bytes for a port whose one socket still holds an unread one goes to the next slot
  of the row of 128 packets, when that slot is free: it reads back from there unchanged, and neither the sockets nor the
  other slots change.  When the next slot is in use the kernel stops (the call of \<^verbatim>\<open>die\<close>), whether or not another
  slot is free.\<close>

theorem full_socket_saved:
  assumes "sock_inv s (as @ a # bs)" and "\<forall>b \<in> set as \<union> set bs. \<not> accepts k (node s b)"
    and "accepts k (node s a)" and "sk_flags (node s a) AND 2 \<noteq> 0"
    and "length (sockt_receive_row s) = 128" and "row_cur s < 128" and "length (pk_data k) \<le> 8192"
  shows "if rw_status (sockt_receive_row s ! row_cur s) = 0
    then \<exists>s'. socket_server_receive False k s = Some (0, s') \<and> sockets s' = sockets s \<and> row_cur s' = (row_cur s + 1) mod 128 \<and>
      rw_status (sockt_receive_row s' ! row_cur s) = 1 \<and> row_packet (sockt_receive_row s' ! row_cur s) (smem s') = k \<and>
      (\<forall>j. j \<noteq> row_cur s \<longrightarrow> sockt_receive_row s' ! j = sockt_receive_row s ! j)
    else socket_server_receive False k s = None"
proof -
  have "chain sk_next (sockets s) (saddr_ready_queue s) (as @ a # bs)"
    using assms(1) by (simp add: sock_inv_def sock_nodes_def)
  from receive_loop_full [OF this assms(2-4)]
  have rec: "socket_server_receive False k s = map_option (\<lambda>s'. (0, s')) (socket_save_row k s)"
    by (simp add: socket_server_receive_def map_conv_bind_option comp_def)
  have d: "get_mem b (unat (of_nat (length (pk_data k)) :: u32)) (put_mem b (pk_data k) m) = pk_data k" for b m
    using assms(7) by (simp add: unat_of_nat_small get_put_mem)
  show ?thesis
    unfolding rec using assms(5-7) by (simp add: socket_save_row_def Let_def row_packet_def d)
qed


theorem full_socket_saved_witness:
  "\<exists>(s :: sock_state) s' a. sock_inv s [a] \<and>
     socket_server_receive False \<lparr>pk_protocol = 17, pk_src_ip = 7, pk_dest_ip = 9, pk_src_port = 53,
       pk_dest_port = htons 5000, pk_data = [1, 2, 3], pk_seq = 0, pk_ack = 0, pk_flags = 0\<rparr> s = Some (0, s') \<and>
     pk_data (row_packet (sockt_receive_row s' ! 0) (smem s')) = [1, 2, 3]"
proof -
  let ?k = "\<lparr>pk_protocol = 17, pk_src_ip = 7, pk_dest_ip = 9, pk_src_port = 53,
       pk_dest_port = htons 5000, pk_data = [1, 2, 3], pk_seq = 0, pk_ack = 0, pk_flags = 0\<rparr> :: packet"
  obtain s :: sock_state and a where s: "sock_inv s [a]" "sk_id (node s a) = 1" "sk_domain (node s a) = 1" "sk_flags (node s a) AND 2 = 0"
    "\<forall>k. accepts k (node s a) \<longleftrightarrow> pk_dest_port k = htons 5000" "ring_idle s" by (rule sock_zero_bound)
  define t where "t = (store_packet ?k a (node s a) s)\<lparr>sockt_receive_row := replicate 128 row_zero, row_cur := 0\<rparr>"
  have "sock_inv (store_packet ?k a (node s a) s) [a]" by (rule store_inv [OF s(1)]) simp
  then have "sock_inv t [a]" by (simp add: t_def sock_inv_def sock_nodes_def)
  moreover have "accepts ?k (node t a)" "sk_flags (node t a) AND 2 \<noteq> 0"
    using accepts_port [OF s(5)] s(3) or2_and2 or2_and80 by (simp_all add: t_def store_packet_def accepts_def)
  moreover have "length (sockt_receive_row t) = 128" "row_cur t = 0" "rw_status (sockt_receive_row t ! 0) = 0"
    by (simp_all add: t_def row_zero_def)
  ultimately show ?thesis using full_socket_saved [of t "[]" a "[]" ?k] by auto
qed

end
