(* ===== verification/Kprint.thy ===== *)
theory Kprint
  imports Kstring
begin

text \<open>
  Numbers as text: \<^verbatim>\<open>i2hex\<close>, \<^verbatim>\<open>utoa\<close> and \<^verbatim>\<open>itoa\<close> of \<^verbatim>\<open>kernel/lib/stdlib.c\<close>, \<^verbatim>\<open>vsprintf\<close> of
  \<^verbatim>\<open>kernel/lib/vsprintf.c\<close> and the splitting of a command line in \<^verbatim>\<open>kernel/argv.c\<close>.

  A pointer into the destination buffer is the address \<open>dst\<close> of the buffer plus an offset, a natural
  number; the pointer comparisons of the code compare offsets.  Different C objects do not overlap, so
  a format string and a string argument are byte lists (without their terminators) and the local
  buffer of \<^verbatim>\<open>vsprintf\<close> is a memory of its own.
\<close>

section \<open>Conversions\<close>

text \<open>The digit loop of \<^verbatim>\<open>utoa_r\<close> and \<^verbatim>\<open>itoa\<close>, a \<^verbatim>\<open>do\<close> loop on a number that is not negative there.\<close>

function put_digits :: "u64 \<Rightarrow> nat \<Rightarrow> nat \<Rightarrow> mem \<Rightarrow> nat \<times> mem" where
  "put_digits dst p value m =
     (let m = m(dst + of_nat p := of_nat (value mod 10) + 48)
      in if value div 10 \<noteq> 0 then put_digits dst (p + 1) (value div 10) m else (p + 1, m))"
  by pat_completeness auto
termination by (relation "measure (\<lambda>(dst, p, value, m). value)") auto

function swap_ends :: "u64 \<Rightarrow> nat \<Rightarrow> nat \<Rightarrow> mem \<Rightarrow> mem" where
  "swap_ends dst v p m =
     (if p > v then
        let swap = m (dst + of_nat v);
            m = m(dst + of_nat v := m (dst + of_nat p));
            m = m(dst + of_nat p := swap)
        in swap_ends dst (v + 1) (p - 1) m
      else m)"
  by pat_completeness auto
termination by (relation "measure (\<lambda>(dst, v, p, m). p - v)") auto

declare put_digits.simps [simp del] swap_ends.simps [simp del]

definition utoa_r :: "u64 \<Rightarrow> u64 \<Rightarrow> mem \<Rightarrow> mem" where
  "utoa_r val str m =
    (let (p, m) = put_digits str 0 (unat val) m; m = m(str + of_nat p := 0)
     in swap_ends str 0 (p - 1) m)"

text \<open>For \<^verbatim>\<open>INT_MIN\<close> the code prints \<^verbatim>\<open>INT_MAX\<close> and increments its last digit, which is the first one
  written.\<close>

definition itoa :: "u32 \<Rightarrow> u64 \<Rightarrow> mem \<Rightarrow> mem" where
  "itoa val str m =
    (let value = sint val;
         (v, m) = (if 0 > value then (1, m(str := 45)) else (0 :: nat, m));
         min_flag = (0 > value \<and> - (2 ^ 31 - 1) > value);
         value = (if 0 > value then if min_flag then 2 ^ 31 - 1 else - value else value);
         (p, m) = put_digits str v (nat value) m;
         m = (if min_flag then m(str + of_nat v := m (str + of_nat v) + 1) else m);
         m = m(str + of_nat p := 0)
     in swap_ends str v (p - 1) m)"

definition hex_char :: "nat \<Rightarrow> u8" where
  "hex_char x = of_nat x + (if x > 9 then 65 - 10 else 48)"

fun hex_fill :: "u64 \<Rightarrow> nat \<Rightarrow> u64 \<Rightarrow> mem \<Rightarrow> mem" where
  "hex_fill dest 0 n m = m"
| "hex_fill dest (Suc cp) n m = hex_fill dest cp (drop_bit 4 n) (m(dest + of_nat cp := hex_char (unat (n AND 0xF))))"

text \<open>The search for the first digit that is not a zero, which is moved to the front.\<close>

fun skip_zeros :: "u64 \<Rightarrow> nat \<Rightarrow> nat \<Rightarrow> mem \<Rightarrow> mem option" where
  "skip_zeros dest 0 cp m = Some m"
| "skip_zeros dest (Suc i) cp m =
     (if m (dest + of_nat cp) = 48 then skip_zeros dest i (cp + 1) m else strcpy dest (dest + of_nat cp) m)"

definition i2hex :: "u64 \<Rightarrow> u64 \<Rightarrow> nat \<Rightarrow> mem \<Rightarrow> mem option" where
  "i2hex val dest len m =
    (if val = 0 then Some (m(dest := 48, dest + 1 := 0))
     else do {
       let m = (hex_fill dest len val m)(dest + of_nat len := 0);
       m \<leftarrow> skip_zeros dest len 0 m;
       n \<leftarrow> strlen dest m;
       Some (memset (dest + ucast n) 0 (of_nat len - n) m) })"

definition utoa :: "u64 \<Rightarrow> u64 \<Rightarrow> int \<Rightarrow> mem \<Rightarrow> mem option" where
  "utoa val dst radix m = (if radix = 16 then i2hex val dst 16 m else Some (utoa_r val dst m))"

section \<open>Formatting\<close>

datatype va = VInt u64 | VStr "u8 list"

fun vsputs_r :: "u64 \<Rightarrow> u8 list \<Rightarrow> mem \<Rightarrow> u64 \<times> mem" where
  "vsputs_r dest [] m = (dest, m)"
| "vsputs_r dest (c # src) m = vsputs_r (dest + 1) src (m(dest := c))"

text \<open>The string in the local buffer of \<^verbatim>\<open>vsprintf\<close>, up to its terminator.\<close>

definition c_string :: "u64 \<Rightarrow> mem \<Rightarrow> u8 list option" where
  "c_string a m = do { e \<leftarrow> strlen_loop a m; Some (get_mem a (unat (e - a)) m) }"

text \<open>What is written for one conversion character: the bytes and the remaining arguments.  A missing
  argument or one of the wrong kind is undefined; \<^verbatim>\<open>%u\<close> goes through an \<^verbatim>\<open>unsigned char\<close>; an unknown
  character prints two percent signs.  A zero character ends the copied string at once.\<close>

definition conv :: "u8 \<Rightarrow> va list \<Rightarrow> (u8 list \<times> va list) option" where
  "conv c ap =
    (if c = 99 then
       (case ap of VInt x # ap \<Rightarrow> Some (if (ucast x :: u8) = 0 then [] else [ucast x], ap) | _ \<Rightarrow> None)
     else if c = 115 then (case ap of VStr s # ap \<Rightarrow> Some (s, ap) | _ \<Rightarrow> None)
     else if c = 100 \<or> c = 105 then
       (case ap of VInt x # ap \<Rightarrow> do { s \<leftarrow> c_string 0 (itoa (ucast x) 0 (\<lambda>_. 0)); Some (s, ap) } | _ \<Rightarrow> None)
     else if c = 117 then
       (case ap of VInt x # ap \<Rightarrow> do { s \<leftarrow> c_string 0 (itoa (ucast (ucast x :: u8)) 0 (\<lambda>_. 0)); Some (s, ap) } | _ \<Rightarrow> None)
     else if c = 88 \<or> c = 120 then
       (case ap of VInt x # ap \<Rightarrow> do { m \<leftarrow> utoa x 0 16 (\<lambda>_. 0); s \<leftarrow> c_string 0 m; Some (s, ap) } | _ \<Rightarrow> None)
     else Some ([37, 37], ap))"

text \<open>A percent sign at the end of the format makes the loop read past the terminator: no result.\<close>

fun vsprintf_loop :: "u8 list \<Rightarrow> va list \<Rightarrow> u64 \<Rightarrow> mem \<Rightarrow> (u64 \<times> mem) option" where
  "vsprintf_loop [] ap str m = Some (str, m)"
| "vsprintf_loop (c # fmt) ap str m =
     (if c = 37 then
        (case fmt of
           [] \<Rightarrow> None
         | k # fmt' \<Rightarrow> do {
             (s, ap) \<leftarrow> conv k ap;
             let (str, m) = vsputs_r str s m in vsprintf_loop fmt' ap str m })
      else let (str, m) = vsputs_r str [c] m in vsprintf_loop fmt ap str m)"

definition vsprintf :: "u64 \<Rightarrow> u8 list \<Rightarrow> va list \<Rightarrow> mem \<Rightarrow> (u32 \<times> mem) option" where
  "vsprintf str fmt ap m = do { (e, m) \<leftarrow> vsprintf_loop fmt ap str m; Some (ucast (e - str), m) }"

section \<open>Command lines\<close>

text \<open>\<^verbatim>\<open>cpy\<close> copies a word and the spaces after it, as zeros, to the array \<open>dst\<close> of 256 bytes and returns
  how far it got.  \<open>src\<close> is the rest of the line with its terminator.\<close>

function cpy_loop :: "nat \<Rightarrow> bool \<Rightarrow> u8 list \<Rightarrow> u8 list \<Rightarrow> nat \<times> u8 list" where
  "cpy_loop i flag src dst =
     (if i < 256 then
        let val = src ! i in
        if val \<noteq> 32 then
          if flag then (i, dst)
          else if val = 0 then (i, dst[i := val])
          else cpy_loop (i + 1) flag src (dst[i := val])
        else cpy_loop (i + 1) True src (dst[i := 0])
      else (i, dst))"
  by pat_completeness auto
termination by (relation "measure (\<lambda>(i, _). 256 - i)") auto

declare cpy_loop.simps [simp del]

definition cpy :: "u8 list \<Rightarrow> u8 list \<Rightarrow> nat \<times> u8 list" where
  "cpy dst src = (if src ! 0 = 0 then (0, dst) else cpy_loop 0 False src dst)"

text \<open>\<^verbatim>\<open>format_argv\<close> stores a pointer and a word per argument; \<open>argv\<close> is the array of 32 pointers, \<open>mp\<close> the
  place for the next word, after them.  \<^verbatim>\<open>strcpy\<close> from \<open>tmp\<close> reads up to the first zero; without one it
  leaves the array.\<close>

function format_loop :: "nat \<Rightarrow> u64 list \<Rightarrow> u64 \<Rightarrow> u8 list \<Rightarrow> u8 list \<Rightarrow> mem \<Rightarrow> (nat \<times> u64 list \<times> mem) option" where
  "format_loop i argv mp src tmp m =
     (if i < 32 then
        let argv = argv[i := mp]; (r, tmp) = cpy tmp src in
        if r = 0 then Some (i, argv, m)
        else if 0 \<notin> set tmp then None
        else format_loop (i + 1) argv (mp + of_nat r) (drop r src) tmp (put_mem mp (takeWhile (\<lambda>c. c \<noteq> 0) tmp @ [0]) m)
      else Some (i, argv, m))"
  by pat_completeness auto
termination by (relation "measure (\<lambda>(i, _). 32 - i)") auto

declare format_loop.simps [simp del]

definition format_argv :: "u64 \<Rightarrow> u64 list \<Rightarrow> u8 list \<Rightarrow> u8 list \<Rightarrow> mem \<Rightarrow> (nat \<times> u64 list \<times> mem) option" where
  "format_argv argv_addr argv src tmp m = format_loop 0 argv (argv_addr + 8 * 32) (src @ [0]) tmp m"

end
