(* ===== verification/Kprintprops.thy ===== *)
theory Kprintprops
  imports Kprint
begin

text \<open>
  The printed numerals read back as the numbers, \<^verbatim>\<open>vsprintf\<close> writes what its format means, and
  \<^verbatim>\<open>format_argv\<close> splits a line into its words.
\<close>

section \<open>Numerals\<close>

fun dec :: "nat \<Rightarrow> u8 list" where
  "dec v = (if v < 10 then [of_nat v + 48] else dec (v div 10) @ [of_nat (v mod 10) + 48])"

fun hexs :: "nat \<Rightarrow> u8 list" where
  "hexs v = (if v < 16 then [hex_char v] else hexs (v div 16) @ [hex_char (v mod 16)])"

declare dec.simps [simp del] hexs.simps [simp del]

definition dec_val :: "u8 list \<Rightarrow> nat" where
  "dec_val xs = foldl (\<lambda>a c. 10 * a + (unat c - 48)) 0 xs"

definition hex_val :: "u8 list \<Rightarrow> nat" where
  "hex_val xs = foldl (\<lambda>a c. 16 * a + (if unat c > 57 then unat c - 55 else unat c - 48)) 0 xs"

lemma digit_unat: "x < 10 \<Longrightarrow> unat (of_nat x + 48 :: u8) = x + 48"
proof -
  assume "x < 10"
  then have "unat (of_nat (x + 48) :: u8) = x + 48" by (intro unat_of_nat_small) simp
  then show ?thesis by simp
qed

lemma hex_unat: "x < 16 \<Longrightarrow> unat (hex_char x) = (if x > 9 then x + 55 else x + 48)"
proof -
  assume "x < 16"
  then have "unat (of_nat (x + 55) :: u8) = x + 55" "unat (of_nat (x + 48) :: u8) = x + 48"
    by (intro unat_of_nat_small, simp)+
  then show ?thesis by (simp add: hex_char_def)
qed

lemma dec_val_dec [simp]: "dec_val (dec v) = v"
proof (induction v rule: dec.induct)
  case (1 v)
  show ?case
  proof (cases "v < 10")
    case True
    then show ?thesis by (simp add: dec.simps [of v] dec_val_def digit_unat)
  next
    case False
    with 1 show ?thesis by (simp add: dec.simps [of v] dec_val_def digit_unat)
  qed
qed

lemma hex_val_hexs [simp]: "hex_val (hexs v) = v"
proof (induction v rule: hexs.induct)
  case (1 v)
  show ?case
  proof (cases "v < 16")
    case True
    then show ?thesis by (simp add: hexs.simps [of v] hex_val_def hex_unat)
  next
    case False
    with 1 show ?thesis by (simp add: hexs.simps [of v] hex_val_def hex_unat)
  qed
qed

lemma dec_chars: "c \<in> set (dec v) \<Longrightarrow> 48 \<le> unat c \<and> unat c \<le> 57"
proof (induction v rule: dec.induct)
  case (1 v)
  then show ?case by (cases "v < 10") (auto simp: dec.simps [of v] digit_unat)
qed

lemma hexs_chars: "c \<in> set (hexs v) \<Longrightarrow> 48 \<le> unat c"
proof (induction v rule: hexs.induct)
  case (1 v)
  then show ?case by (cases "v < 16") (auto simp: hexs.simps [of v] hex_unat)
qed

lemma dec_no_0: "0 \<notin> set (dec v)" "0 \<notin> set (hexs v)"
  using dec_chars hexs_chars by fastforce+

lemma dec_nonempty [simp]: "dec v \<noteq> []" "hexs v \<noteq> []"
  by (simp_all add: dec.simps [of v] hexs.simps [of v])

lemma dec_length: "v < 10 ^ n \<Longrightarrow> 0 < n \<Longrightarrow> length (dec v) \<le> n"
proof (induction v arbitrary: n rule: dec.induct)
  case (1 v)
  show ?case
  proof (cases "v < 10")
    case True
    with 1 show ?thesis by (simp add: dec.simps [of v])
  next
    case False
    with 1 obtain k where k: "n = Suc k" "0 < k" by (cases n; cases "n - 1") auto
    with 1 False have "length (dec (v div 10)) \<le> k" by (intro "1.IH") auto
    with False k show ?thesis by (simp add: dec.simps [of v])
  qed
qed

section \<open>Buffers\<close>

lemma put_mem_one [simp]: "put_mem a [x] m = m(a := x)"
  by (auto simp: put_mem_def unat_eq_zero)

lemma put_mem_snoc:
  assumes "length xs < 2 ^ 64"
  shows "put_mem a (xs @ [x]) m = put_mem a xs (m(a + of_nat (length xs) := x))"
proof
  fix p
  have "unat (p - a) = length xs \<longleftrightarrow> p = a + of_nat (length xs)"
  proof
    assume "unat (p - a) = length xs"
    then have "of_nat (unat (p - a)) = (of_nat (length xs) :: u64)" by simp
    then show "p = a + of_nat (length xs)" by (simp add: algebra_simps)
  qed (use assms in \<open>simp add: unat_of_nat_small\<close>)
  then show "put_mem a (xs @ [x]) m p = put_mem a xs (m(a + of_nat (length xs) := x)) p"
    by (auto simp: put_mem_def nth_append less_Suc_eq)
qed

lemma put_mem_append:
  "length xs + length ys < 2 ^ 64 \<Longrightarrow> put_mem a (xs @ ys) m = put_mem (a + of_nat (length xs)) ys (put_mem a xs m)"
proof (induction ys arbitrary: xs)
  case (Cons y ys)
  have "put_mem a (xs @ y # ys) m = put_mem (a + of_nat (length (xs @ [y]))) ys (put_mem a (xs @ [y]) m)"
    using Cons.IH [of "xs @ [y]"] Cons.prems by simp
  moreover have "put_mem a (xs @ [y]) m = (put_mem a xs m)(a + of_nat (length xs) := y)"
    using put_mem_snoc [of xs a y m] Cons.prems
    by (auto simp: put_mem_def fun_eq_iff nth_append less_Suc_eq unat_of_nat_small)
  ultimately show ?case using Cons.prems by (simp add: put_mem_Cons algebra_simps)
qed simp

lemma put_digits_last: "v < 10 \<Longrightarrow> put_digits dst p v m = (Suc p, m(dst + of_nat p := of_nat v + 48))"
  by (subst put_digits.simps) (simp add: Let_def fun_upd_def)

lemma put_digits_step:
  "\<not> v < 10 \<Longrightarrow> put_digits dst p v m = put_digits dst (Suc p) (v div 10) (m(dst + of_nat p := of_nat (v mod 10) + 48))"
  by (subst put_digits.simps) (simp add: Let_def fun_upd_def div_eq_0_iff)

lemma put_digits_put:
  "p + length (dec v) < 2 ^ 64 \<Longrightarrow>
     put_digits dst p v m = (p + length (dec v), put_mem (dst + of_nat p) (rev (dec v)) m)"
proof (induction v arbitrary: p m rule: dec.induct)
  case (1 v)
  show ?case
  proof (cases "v < 10")
    case True
    then show ?thesis by (simp add: put_digits_last dec.simps [of v] fun_eq_iff)
  next
    case False
    then have d: "dec v = dec (v div 10) @ [of_nat (v mod 10) + 48]" by (simp add: dec.simps [of v])
    have "put_digits dst (Suc p) (v div 10) (m(dst + of_nat p := of_nat (v mod 10) + 48)) =
        (Suc p + length (dec (v div 10)), put_mem (dst + of_nat (Suc p)) (rev (dec (v div 10))) (m(dst + of_nat p := of_nat (v mod 10) + 48)))"
      using 1 False d by (intro "1.IH") auto
    moreover have "put_mem (dst + of_nat p) (rev (dec v)) m =
        put_mem (dst + of_nat p + 1) (rev (dec (v div 10))) (m(dst + of_nat p := of_nat (v mod 10) + 48))"
      using "1.prems" d by (simp del: fun_upd_apply add: put_mem_Cons)
    moreover have "dst + of_nat (Suc p) = dst + of_nat p + 1" by simp
    ultimately show ?thesis unfolding put_digits_step [OF False] d by (simp only: length_append) simp
  qed
qed

lemma swap_step:
  "v < p \<Longrightarrow> swap_ends dst v p m =
     swap_ends dst (Suc v) (p - 1) (m(dst + of_nat v := m (dst + of_nat p), dst + of_nat p := m (dst + of_nat v)))"
  by (subst swap_ends.simps) (simp add: Let_def)

lemma swap_done: "p \<le> v \<Longrightarrow> swap_ends dst v p m = m"
  by (subst swap_ends.simps) simp

lemma put_two:
  assumes "length ys < 2 ^ 64 - 2"
  shows "put_mem a (x # ys @ [y]) m = put_mem (a + 1) ys (m(a := x, a + of_nat (Suc (length ys)) := y))"
proof -
  have "unat (of_nat (Suc (length ys)) :: u64) = Suc (length ys)" using assms by (intro unat_of_nat_small) simp
  then have ne: "a \<noteq> a + of_nat (Suc (length ys))" by (metis add_cancel_left_right nat.distinct(1) unat_0)
  have "put_mem a ((x # ys) @ [y]) m = put_mem a (x # ys) (m(a + of_nat (length (x # ys)) := y))"
    by (rule put_mem_snoc) (use assms in simp)
  also have "\<dots> = put_mem (a + 1) ys (m(a + of_nat (Suc (length ys)) := y, a := x))"
    by (subst put_mem_Cons) (use assms in simp_all)
  finally show ?thesis by (simp only: append_Cons fun_upd_twist [OF ne])
qed

lemma swap_ends_rev:
  assumes "v + length xs < 2 ^ 63" and "xs \<noteq> []"
  shows "swap_ends dst v (v + length xs - 1) (put_mem (dst + of_nat v) xs m) = put_mem (dst + of_nat v) (rev xs) m"
  using assms
proof (induction "length xs" arbitrary: v xs m rule: less_induct)
  case less
  show ?case
  proof (cases "length xs = 1")
    case True
    then obtain x where "xs = [x]" by (cases xs) auto
    then show ?thesis by (simp add: swap_done)
  next
    case False
    then obtain x ys y where xs: "xs = x # ys @ [y]"
      using less.prems by (metis One_nat_def append_butlast_last_id length_Cons list.exhaust list.size(3))
    let ?a = "dst + of_nat v" and ?p = "v + length xs - 1"
    have p: "dst + of_nat ?p = ?a + of_nat (Suc (length ys))" by (simp add: xs algebra_simps)
    have len: "length ys < 2 ^ 64 - 2" "v + 1 + length ys < 2 ^ 63" using less.prems by (simp_all add: xs)
    have b: "put_mem ?a xs m = put_mem (?a + 1) ys (m(?a := x, ?a + of_nat (Suc (length ys)) := y))"
      unfolding xs by (rule put_two [OF len(1)])
    have e: "put_mem ?a xs m ?a = x" "put_mem ?a xs m (dst + of_nat ?p) = y"
    proof -
      show "put_mem ?a xs m ?a = x" using put_mem_at [of 0 xs ?a m] less.prems by (simp add: xs)
      have "xs ! Suc (length ys) = y" by (simp add: xs)
      then show "put_mem ?a xs m (dst + of_nat ?p) = y"
        unfolding p using less.prems by (subst put_mem_at) (simp_all add: xs)
    qed
    have w: "(put_mem ?a xs m)(?a := y, dst + of_nat ?p := x) = put_mem (?a + 1) ys (m(?a := y, dst + of_nat ?p := x))"
      unfolding b p using less.prems
      by (auto simp: fun_eq_iff put_mem_def xs unat_of_nat_small unat_m1)
    have r: "put_mem ?a (rev xs) m = put_mem (?a + 1) (rev ys) (m(?a := y, dst + of_nat ?p := x))"
      unfolding p using put_two [of "rev ys" ?a y x m] len by (simp only: xs rev.simps rev_append append_Cons append_Nil length_rev)
    have a1: "?a + 1 = dst + of_nat (Suc v)" by simp
    have lt: "v < ?p" by (simp add: xs)
    have "swap_ends dst v ?p (put_mem ?a xs m) =
        swap_ends dst (Suc v) (?p - 1) (put_mem (?a + 1) ys (m(?a := y, dst + of_nat ?p := x)))"
      unfolding swap_step [OF lt] e w ..
    also have "\<dots> = put_mem (?a + 1) (rev ys) (m(?a := y, dst + of_nat ?p := x))"
    proof (cases "ys = []")
      case True
      then show ?thesis by (simp add: swap_done xs)
    next
      case False
      then have "?p - 1 = Suc v + length ys - 1" by (simp add: xs)
      then show ?thesis
        unfolding a1 using len False by (simp only:) (rule less.hyps, auto simp: xs)
    qed
    finally show ?thesis unfolding r .
  qed
qed


lemma put_mem_upd: "length xs < 2 ^ 64 - 1 \<Longrightarrow> (put_mem a xs m)(a + of_nat (length xs) := x) = put_mem a (xs @ [x]) m"
  using put_mem_append [of xs "[x]" a m] by (simp add: fun_eq_iff)

lemma digits_swapped:
  assumes "v + length (dec k) < 2 ^ 62"
  shows "(let (p, m) = put_digits dst v k m in swap_ends dst v (p - 1) (m(dst + of_nat p := 0))) =
    put_mem (dst + of_nat v) (dec k @ [0]) m"
proof -
  let ?a = "dst + of_nat v"
  have len: "length (dec k) < 2 ^ 64 - 1" "v + length (dec k) < 2 ^ 64" using assms by simp_all
  have p: "dst + of_nat (v + length (dec k)) = ?a + of_nat (length (rev (dec k)))" by (simp add: add.assoc)
  have "(put_mem ?a (rev (dec k)) m)(?a + of_nat (length (rev (dec k))) := 0) = put_mem ?a (rev (dec k)) (m(?a + of_nat (length (rev (dec k))) := 0))"
    using len by (subst put_mem_upd) (simp_all add: put_mem_snoc)
  moreover have "swap_ends dst v (v + length (rev (dec k)) - 1) (put_mem ?a (rev (dec k)) (m(?a + of_nat (length (rev (dec k))) := 0))) =
      put_mem ?a (rev (rev (dec k))) (m(?a + of_nat (length (rev (dec k))) := 0))"
    by (rule swap_ends_rev) (use assms in simp_all)
  moreover have "put_mem ?a (dec k @ [0]) m = put_mem ?a (dec k) (m(?a + of_nat (length (dec k)) := 0))"
    by (rule put_mem_snoc) (use len in simp)
  ultimately show ?thesis
    unfolding put_digits_put [OF len(2)] Let_def prod.case p by (simp only: length_rev rev_rev_ident)
qed

lemma utoa_r_put: "utoa_r val str m = put_mem str (dec (unat val) @ [0]) m"
proof -
  have "unat val < 10 ^ 20" using unsigned_less [where 'a = nat and w = val] by simp
  then have "length (dec (unat val)) \<le> 20" by (rule dec_length) simp
  with digits_swapped [of 0 "unat val" str m] show ?thesis
    unfolding utoa_r_def Let_def by simp
qed

definition idec :: "int \<Rightarrow> u8 list" where
  "idec i = (if i < 0 then 45 # dec (nat (- i)) else dec (nat i))"

lemma dec_int_max: "dec 2147483648 = dec 214748364 @ [56]" "dec 2147483647 = dec 214748364 @ [55]"
  by (simp_all add: dec.simps [of 2147483648] dec.simps [of 2147483647])

lemma itoa_put: "itoa val str m = put_mem str (idec (sint val) @ [0]) m"
proof -
  have b: "- (2 ^ 31) \<le> sint val" "sint val < 2 ^ 31"
    using sint_greater_eq [of val] sint_less [of val] by simp_all
  have short: "length (dec (nat i)) \<le> 10" if "i < 2 ^ 31" for i
  proof (rule dec_length)
    show "nat i < 10 ^ 10" using that by simp
  qed simp
  consider (pos) "0 \<le> sint val" | (neg) "sint val < 0" "- (2 ^ 31 - 1) \<le> sint val" | (min) "sint val = - (2 ^ 31)"
    using b by linarith
  then show ?thesis
  proof cases
    case pos
    then show ?thesis using digits_swapped [of 0 "nat (sint val)" str m] short [OF b(2)]
      by (simp add: itoa_def Let_def idec_def)
  next
    case neg
    let ?k = "nat (- sint val)"
    have "length (dec ?k) \<le> 10" using neg by (intro short) simp
    then have "(let (p, m) = put_digits str 1 ?k (m(str := 45)) in swap_ends str 1 (p - 1) (m(str + of_nat p := 0))) =
      put_mem (str + of_nat 1) (dec ?k @ [0]) (m(str := 45))" "length (dec ?k @ [0]) < 2 ^ 64 - 1"
      by (intro digits_swapped, simp_all)
    with neg show ?thesis by (simp add: itoa_def Let_def idec_def put_mem_Cons)
  next
    case min
    let ?a = "str + 1" and ?m = "m(str := 45)" and ?d = "dec 214748364"
    have l: "length ?d \<le> 9" by (rule dec_length) simp_all
    have k: "nat (2 ^ 31 - 1) = 2147483647" "nat (2 ^ 31) = 2147483648" by simp_all
    have pd: "put_digits str 1 2147483647 ?m = (1 + length (dec 2147483647), put_mem (str + of_nat 1) (rev (dec 2147483647)) ?m)"
      by (rule put_digits_put) (use l in \<open>simp add: dec_int_max\<close>)
    have inc: "(put_mem ?a (rev (dec 2147483647)) ?m)(?a := put_mem ?a (rev (dec 2147483647)) ?m ?a + 1) = put_mem ?a (rev (dec 2147483648)) ?m"
      using l by (auto simp: dec_int_max put_mem_def fun_eq_iff nth_Cons unat_eq_zero split: nat.split)
    have pd': "put_digits str 1 2147483648 ?m = (1 + length (dec 2147483648), put_mem (str + of_nat 1) (rev (dec 2147483648)) ?m)"
      by (rule put_digits_put) (use l in \<open>simp add: dec_int_max\<close>)
    have "itoa val str m = (let (p, m) = put_digits str 1 2147483648 ?m in swap_ends str 1 (p - 1) (m(str + of_nat p := 0)))"
      unfolding itoa_def Let_def min using pd pd' inc by (simp add: dec_int_max)
    also have "\<dots> = put_mem (str + of_nat 1) (dec 2147483648 @ [0]) ?m"
      by (rule digits_swapped) (use l in \<open>simp add: dec_int_max\<close>)
    also have "\<dots> = put_mem str (idec (sint val) @ [0]) m"
      unfolding min idec_def using l by (simp add: put_mem_Cons dec_int_max)
    finally show ?thesis .
  qed
qed


section \<open>Hexadecimal\<close>

fun hexpad :: "nat \<Rightarrow> nat \<Rightarrow> u8 list" where
  "hexpad 0 n = []"
| "hexpad (Suc c) n = hexpad c (n div 16) @ [hex_char (n mod 16)]"

lemma length_hexpad [simp]: "length (hexpad c n) = c"
  by (induction c arbitrary: n) simp_all

lemma hex_fill_put: "c < 2 ^ 63 \<Longrightarrow> hex_fill dest c n m = put_mem dest (hexpad c (unat n)) m"
proof (induction c arbitrary: n m)
  case (Suc c)
  have n: "unat (drop_bit 4 n) = unat n div 16" unfolding unat_drop_bit_eq unfolding drop_bit_eq_div by simp
  have "n AND 0xF = take_bit 4 n" by (simp add: take_bit_eq_mask mask_eq_exp_minus_1)
  then have "unat (n AND 0xF) = unat n mod 16" by (simp add: unat_mod take_bit_eq_mod)
  with Suc n show ?case by (simp del: fun_upd_apply add: put_mem_snoc)
qed simp

lemma hex_char_0 [simp]: "hex_char 0 = 48" by (simp add: hex_char_def)

lemma hexpad_0: "hexpad c 0 = replicate c 48"
  by (induction c) (simp_all add: replicate_append_same)

lemma hexpad_hexs: "v < 16 ^ c \<Longrightarrow> 0 < v \<Longrightarrow> length (hexs v) \<le> c \<and> hexpad c v = replicate (c - length (hexs v)) 48 @ hexs v"
proof (induction c arbitrary: v)
  case (Suc c)
  show ?case
  proof (cases "v < 16")
    case True
    then show ?thesis by (simp add: hexs.simps [of v] hexpad_0)
  next
    case False
    then have "hexs v = hexs (v div 16) @ [hex_char (v mod 16)]" "0 < v div 16" by (auto simp: hexs.simps [of v] div_greater_zero_iff)
    moreover have "v div 16 < 16 ^ c" using Suc.prems(1) by (simp add: less_mult_imp_div_less)
    ultimately show ?thesis using Suc.IH [of "v div 16"] by simp
  qed
qed simp

lemma hexs_hd: "0 < v \<Longrightarrow> hd (hexs v) \<noteq> 48"
proof (induction v rule: hexs.induct)
  case (1 v)
  show ?case
  proof (cases "v < 16")
    case True
    then have "unat (hex_char v) \<noteq> 48" using "1.prems" by (simp add: hex_unat)
    with True show ?thesis by (auto simp: hexs.simps [of v])
  next
    case False
    with 1 show ?thesis by (simp add: hexs.simps [of v] div_greater_zero_iff)
  qed
qed

lemma strcpy_same: "cstr m s xs \<Longrightarrow> strcpy s s m = Some m"
proof (induction xs arbitrary: s)
  case Nil
  then have "m(s := 0) = m" by auto
  with Nil show ?case by (simp add: strcpy.simps)
next
  case (Cons x xs)
  then have "m(s := m s) = m" "strcpy (s + 1) (s + 1) m = Some m" by auto
  with Cons.prems show ?case by (subst strcpy.simps) simp
qed

lemma unat_neg: "0 < k \<Longrightarrow> k < 2 ^ 64 \<Longrightarrow> unat (- (of_nat k) :: u64) = 2 ^ 64 - k"
proof -
  assume k: "0 < k" "k < 2 ^ 64"
  have "(of_nat (2 ^ 64) :: u64) = 0" by simp
  then have "- (of_nat k) = (of_nat (2 ^ 64 - k) :: u64)" using k by (subst of_nat_diff) simp_all
  moreover have "2 ^ 64 - k < 2 ^ LENGTH(64)" using k by simp
  ultimately show ?thesis by (simp only: unat_of_nat_small)
qed

lemma cstr_put: "0 \<notin> set xs \<Longrightarrow> length xs < 2 ^ 64 - 1 \<Longrightarrow> cstr (put_mem a (xs @ [0]) m) a xs"
  by (simp add: cstr_def get_put_mem)

lemma cstr_memset:
  assumes "cstr m a xs" and "length xs + n < 2 ^ 64"
  shows "cstr (put_mem (a + of_nat (length xs)) (replicate n 0) m) a xs"
proof -
  have "get_mem a (Suc (length xs)) (put_mem (a + of_nat (length xs)) (replicate n 0) m) ! i = (xs @ [0]) ! i"
    if i: "i < Suc (length xs)" for i
  proof (cases "i = length xs")
    case True
    then show ?thesis using assms(1) by (auto simp: cstr_def put_mem_def nth_append dest: arg_cong [where f = "\<lambda>l. l ! length xs"])
  next
    case False
    then have lt: "i < length xs" using i by simp
    have "a + of_nat i - (a + of_nat (length xs)) = - (of_nat (length xs - i) :: u64)" using lt by (simp add: of_nat_diff)
    moreover have "unat (- (of_nat (length xs - i)) :: u64) = 2 ^ 64 - (length xs - i)"
      using lt assms(2) by (intro unat_neg) simp_all
    ultimately have "\<not> unat (a + of_nat i - (a + of_nat (length xs))) < n" using assms(2) by simp
    then have "put_mem (a + of_nat (length xs)) (replicate n 0) m (a + of_nat i) = m (a + of_nat i)" by (simp add: put_mem_def)
    moreover have "get_mem a (Suc (length xs)) m ! i = (xs @ [0]) ! i" using assms(1) by (simp add: cstr_def)
    ultimately show ?thesis using i by simp
  qed
  then have "get_mem a (Suc (length xs)) (put_mem (a + of_nat (length xs)) (replicate n 0) m) = xs @ [0]"
    by (intro nth_equalityI) simp_all
  with assms(1) show ?thesis by (simp add: cstr_def)
qed

lemma skip_zeros_copy:
  assumes "k \<le> i" and "\<forall>j < k. m (dest + of_nat (cp + j)) = 48" and "m (dest + of_nat (cp + k)) \<noteq> 48" and "k < i"
  shows "skip_zeros dest i cp m = strcpy dest (dest + of_nat (cp + k)) m"
  using assms
proof (induction k arbitrary: i cp)
  case 0
  then show ?case by (cases i) simp_all
next
  case (Suc k)
  then obtain i' where i: "i = Suc i'" by (cases i) simp_all
  have "skip_zeros dest i' (Suc cp) m = strcpy dest (dest + of_nat (Suc cp + k)) m"
  proof (rule Suc.IH)
    show "\<forall>j < k. m (dest + of_nat (Suc cp + j)) = 48" using Suc.prems(2) by (metis Suc_mono add_Suc_shift)
  qed (use Suc.prems i in simp_all)
  with Suc.prems i show ?case using Suc.prems(2) [rule_format, of 0] by simp
qed

lemma i2hex_cstr:
  "\<exists>m'. i2hex val dest 16 m = Some m' \<and> cstr m' dest (hexs (unat val)) \<and>
     (\<forall>p. 16 < unat (p - dest) \<longrightarrow> m' p = m p)"
proof (cases "val = 0")
  case True
  have "m(dest := 48, dest + 1 := 0) = put_mem dest [48, 0] m" by (simp add: put_mem_Cons)
  moreover have "cstr (put_mem dest ([48] @ [0]) m) dest [48]" by (rule cstr_put) simp_all
  ultimately show ?thesis using True
    by (auto simp: i2hex_def hexs.simps [of 0] put_mem_def)
next
  case False
  define v where "v = unat val"
  let ?h = "hexs v" and ?k = "16 - length (hexs v)"
  have v: "0 < v" "v < 16 ^ 16" using False unsigned_less [where 'a = nat and w = val] by (simp_all add: v_def unat_gt_0)
  note hp = hexpad_hexs [OF v(2,1)]
  have le: "length ?h \<le> 16" using hp by simp
  define m1 where "m1 = put_mem dest (replicate ?k 48 @ ?h @ [0]) m"
  have fill: "(hex_fill dest 16 val m)(dest + of_nat 16 := 0) = m1"
  proof -
    have "(put_mem dest (hexpad 16 v) m)(dest + of_nat (length (hexpad 16 v)) := 0) = put_mem dest (hexpad 16 v @ [0]) m"
      by (rule put_mem_upd) simp
    then show ?thesis unfolding m1_def using hp by (simp add: hex_fill_put v_def [symmetric])
  qed
  have at: "m1 (dest + of_nat j) = (replicate ?k 48 @ ?h @ [0]) ! j" if "j < 17" for j
    unfolding m1_def by (rule put_mem_at) (use that le in simp_all)
  have c: "cstr m1 (dest + of_nat ?k) ?h"
  proof -
    have "get_mem (dest + of_nat ?k) (Suc (length ?h)) m1 = ?h @ [0]"
    proof (rule nth_equalityI)
      fix i assume "i < length (get_mem (dest + of_nat ?k) (Suc (length ?h)) m1)"
      then have i: "i < Suc (length ?h)" by simp
      have "dest + of_nat ?k + of_nat i = dest + of_nat (?k + i)" by (simp only: of_nat_add add.assoc)
      then have "get_mem (dest + of_nat ?k) (Suc (length ?h)) m1 ! i = m1 (dest + of_nat (?k + i))" using i by (simp only: get_mem_nth)
      also have "\<dots> = (replicate ?k 48 @ ?h @ [0]) ! (?k + i)" by (rule at) (use i le in simp)
      also have "\<dots> = (?h @ [0]) ! i" by (metis length_replicate nth_append_length_plus)
      finally show "get_mem (dest + of_nat ?k) (Suc (length ?h)) m1 ! i = (?h @ [0]) ! i" .
    qed simp
    then show ?thesis using dec_no_0 by (simp add: cstr_def)
  qed
  have "m1 (dest + of_nat (0 + ?k)) \<noteq> 48"
    using at [of ?k] le hexs_hd [OF v(1)] by (simp add: nth_append hd_conv_nth)
  moreover have "\<forall>j < ?k. m1 (dest + of_nat (0 + j)) = 48" using at by (simp add: nth_append)
  moreover have "?k < 16" using le by (simp add: Suc_leI)
  ultimately have skip: "skip_zeros dest 16 0 m1 = strcpy dest (dest + of_nat (0 + ?k)) m1"
    by (intro skip_zeros_copy) simp_all
  obtain m2 where m2: "strcpy dest (dest + of_nat (0 + ?k)) m1 = Some m2" "cstr m2 dest ?h" "\<forall>p. 16 < unat (p - dest) \<longrightarrow> m2 p = m p"
  proof (cases "?k = 0")
    case True
    then have "cstr m1 dest ?h" using c by simp
    moreover have "m1 p = m p" if "16 < unat (p - dest)" for p using that le by (simp add: m1_def put_mem_def)
    ultimately show ?thesis using that [of m1] strcpy_same True by simp
  next
    case False
    have "dest - (dest + of_nat ?k) = - (of_nat ?k :: u64)" by simp
    moreover have "unat (- (of_nat ?k) :: u64) = 2 ^ 64 - ?k" using False by (intro unat_neg) simp_all
    ultimately have "unat (dest - (dest + of_nat ?k)) = 2 ^ 64 - ?k" by (simp only:)
    then have "strcpy dest (dest + of_nat ?k) m1 = Some (put_mem dest (?h @ [0]) m1)"
      using le by (intro strcpy_put [OF c]) simp
    moreover have "cstr (put_mem dest (?h @ [0]) m1) dest ?h" by (rule cstr_put) (use dec_no_0 le in simp_all)
    moreover have "put_mem dest (?h @ [0]) m1 p = m p" if "16 < unat (p - dest)" for p
      using that le by (simp add: m1_def put_mem_def)
    ultimately show ?thesis using that [of "put_mem dest (?h @ [0]) m1"] by simp
  qed
  have sl: "strlen dest m2 = Some (of_nat (length ?h))" by (rule strlen_cstr [OF m2(2)]) (use le in simp)
  have n: "unat (of_nat 16 - of_nat (length ?h) :: u32) = ?k"
  proof -
    have "of_nat 16 - of_nat (length ?h) = (of_nat ?k :: u32)" using le by (simp add: of_nat_diff)
    then show ?thesis by (simp only:) (rule unat_of_nat_small, simp)
  qed
  let ?m3 = "put_mem (dest + of_nat (length ?h)) (replicate ?k 0) m2"
  have "memset (dest + ucast (of_nat (length ?h) :: u32)) 0 (of_nat 16 - of_nat (length ?h)) m2 = ?m3"
    unfolding memset_def n using le by (simp add: memset_put ucast_of_nat_small)
  then have "i2hex val dest 16 m = Some ?m3"
    using False fill skip m2(1) sl by (simp add: i2hex_def)
  moreover have "cstr ?m3 dest ?h" by (rule cstr_memset [OF m2(2)]) (use le in simp)
  moreover have "?m3 p = m p" if "16 < unat (p - dest)" for p
  proof -
    have "\<not> unat (p - (dest + of_nat (length ?h))) < ?k"
    proof
      assume lt: "unat (p - (dest + of_nat (length ?h))) < ?k"
      let ?j = "unat (p - (dest + of_nat (length ?h)))"
      have "p - dest = of_nat (length ?h + ?j)" by simp
      moreover have "length ?h + ?j < 2 ^ LENGTH(64)" using lt le by simp
      ultimately have "unat (p - dest) = length ?h + ?j" by (simp only: unat_of_nat_small)
      with lt le that show False by simp
    qed
    then show ?thesis using m2(3) that by (simp add: put_mem_def)
  qed
  ultimately show ?thesis by (auto simp: v_def)
qed


section \<open>Formatting\<close>

lemma c_string_cstr: "cstr m a xs \<Longrightarrow> length xs < 2 ^ 64 \<Longrightarrow> c_string a m = Some xs"
  by (simp add: c_string_def strlen_loop_cstr unat_of_nat_small)
     (auto simp: cstr_def get_mem_def)

text \<open>What the conversions write.\<close>

definition code_conv :: "u8 \<Rightarrow> va list \<Rightarrow> (u8 list \<times> va list) option" where
  "code_conv c ap =
    (if c = 99 then
       (case ap of VInt x # ap \<Rightarrow> Some (if (ucast x :: u8) = 0 then [] else [ucast x], ap) | _ \<Rightarrow> None)
     else if c = 115 then (case ap of VStr s # ap \<Rightarrow> Some (s, ap) | _ \<Rightarrow> None)
     else if c = 100 \<or> c = 105 then (case ap of VInt x # ap \<Rightarrow> Some (idec (sint (ucast x :: u32)), ap) | _ \<Rightarrow> None)
     else if c = 117 then (case ap of VInt x # ap \<Rightarrow> Some (dec (unat (ucast x :: u8)), ap) | _ \<Rightarrow> None)
     else if c = 88 \<or> c = 120 then (case ap of VInt x # ap \<Rightarrow> Some (hexs (unat x), ap) | _ \<Rightarrow> None)
     else Some ([37, 37], ap))"

fun code_render :: "u8 list \<Rightarrow> va list \<Rightarrow> u8 list option" where
  "code_render [] ap = Some []"
| "code_render (c # fmt) ap =
     (if c = 37 then
        (case fmt of
           [] \<Rightarrow> None
         | k # fmt' \<Rightarrow> do { (s, ap) \<leftarrow> code_conv k ap; t \<leftarrow> code_render fmt' ap; Some (s @ t) })
      else do { t \<leftarrow> code_render fmt ap; Some (c # t) })"

lemma idec_short: "length (idec (sint (x :: u32))) \<le> 11" "0 \<notin> set (idec i)"
proof -
  have "sint x < 2 ^ 31" "- (2 ^ 31) \<le> sint x" using sint_greater_eq [of x] sint_less [of x] by simp_all
  then have "nat (sint x) < 10 ^ 10" "nat (- sint x) < 10 ^ 10" by simp_all
  then show "length (idec (sint x)) \<le> 11" using dec_length [of _ 10] by (fastforce simp: idec_def)
  show "0 \<notin> set (idec i)" using dec_no_0 by (simp add: idec_def)
qed

lemma itoa_string: "c_string str (itoa val str m) = Some (idec (sint val))"
proof (rule c_string_cstr)
  show "cstr (itoa val str m) str (idec (sint val))"
    unfolding itoa_put by (rule cstr_put) (use idec_short(1) [of val] idec_short(2) in simp_all)
qed (use idec_short(1) [of val] in simp)

lemma hexs_length: "length (hexs (unat (x :: u64))) \<le> 16"
proof (cases "x = 0")
  case False
  then have "0 < unat x" by (simp add: unat_gt_0)
  moreover have "unat x < 16 ^ 16" using unsigned_less [where 'a = nat and w = x] by simp
  ultimately show ?thesis using hexpad_hexs by blast
qed (simp add: hexs.simps [of 0])

lemma conv_spec: "conv c ap = code_conv c ap"
proof -
  have s8: "sint (ucast (b :: u8) :: u32) = int (unat b)" for b
  proof -
    have "unat (ucast b :: u32) = unat b" using unat_u8 [of b] by (intro unat_ucast_small) simp
    then show ?thesis using sint_small [of "ucast b :: u32"] unat_u8 [of b] by simp
  qed
  have h: "do { m \<leftarrow> utoa x 0 16 m; s \<leftarrow> c_string 0 m; Some (s, ap) } = Some (hexs (unat x), ap)" for x m and ap :: "va list"
  proof -
    obtain m' where m': "i2hex x 0 16 m = Some m'" "cstr m' 0 (hexs (unat x))" using i2hex_cstr [of x 0 m] by blast
    moreover have "c_string 0 m' = Some (hexs (unat x))" by (rule c_string_cstr [OF m'(2)]) (use hexs_length [of x] in simp)
    ultimately show ?thesis by (simp add: utoa_def)
  qed
  show ?thesis
    by (simp add: conv_def code_conv_def itoa_string s8 idec_def h split: list.split va.split)
qed

lemma vsputs_put: "length s < 2 ^ 64 \<Longrightarrow> vsputs_r dest s m = (dest + of_nat (length s), put_mem dest s m)"
  by (induction s arbitrary: dest m) (simp_all add: put_mem_Cons algebra_simps)

lemma vsprintf_loop_render:
  assumes "\<forall>out. code_render fmt ap = Some out \<longrightarrow> length out < 2 ^ 64"
  shows "vsprintf_loop fmt ap str m = map_option (\<lambda>out. (str + of_nat (length out), put_mem str out m)) (code_render fmt ap)"
  using assms
proof (induction "length fmt" arbitrary: fmt ap str m rule: less_induct)
  case less
  consider (nil) "fmt = []" | (pct) "fmt = [37]" | (conv) k fs where "fmt = 37 # k # fs" | (char) c fs where "fmt = c # fs" "c \<noteq> 37"
    by (metis neq_Nil_conv)
  then show ?case
  proof cases
    case (char c fs)
    show ?thesis
    proof (cases "code_render fs ap")
      case None
      then have "vsprintf_loop fs ap (str + 1) (m(str := c)) = None" using less.hyps [of fs ap] char by simp
      with None char show ?thesis by (simp del: fun_upd_apply)
    next
      case (Some out)
      then have len: "length out < 2 ^ 64 - 1" using less.prems char by fastforce
      then have "vsprintf_loop fs ap (str + 1) (m(str := c)) = Some (str + 1 + of_nat (length out), put_mem (str + 1) out (m(str := c)))"
        using less.hyps [of fs ap "str + 1" "m(str := c)"] char Some by simp
      with Some char len show ?thesis by (simp del: fun_upd_apply add: put_mem_Cons add.assoc)
    qed
  next
    case (conv k fs)
    show ?thesis
    proof (cases "code_conv k ap")
      case (Some sa)
      obtain s ap' where sa: "sa = (s, ap')" by (cases sa)
      have step: "vsprintf_loop fmt ap str m = (let (str, m) = vsputs_r str s m in vsprintf_loop fs ap' str m)"
        using Some sa conv by (simp add: conv_spec)
      show ?thesis
      proof (cases "code_render fs ap'")
        case None
        then have "vsprintf_loop fs ap' str' m' = None" for str' m' using less.hyps [of fs ap'] conv by simp
        with step None Some sa conv show ?thesis by (simp split: prod.split)
      next
        case out: (Some out)
        have ren: "code_render fmt ap = Some (s @ out)" using Some sa conv out by simp
        then have len: "length s + length out < 2 ^ 64" using less.prems by fastforce
        have "vsprintf_loop fs ap' (str + of_nat (length s)) (put_mem str s m) =
          Some (str + of_nat (length s) + of_nat (length out), put_mem (str + of_nat (length s)) out (put_mem str s m))"
          using less.hyps [of fs ap'] conv out len by simp
        moreover have "vsputs_r str s m = (str + of_nat (length s), put_mem str s m)" by (rule vsputs_put) (use len in simp)
        ultimately show ?thesis unfolding step ren by (simp add: put_mem_append [OF len] add.assoc)
      qed
    qed (use conv in \<open>simp add: conv_spec\<close>)
  qed simp_all
qed

section \<open>Properties\<close>

definition int_val :: "u8 list \<Rightarrow> int" where
  "int_val xs = (if xs \<noteq> [] \<and> hd xs = 45 then - int (dec_val (tl xs)) else int (dec_val xs))"

text \<open>C33: \<^verbatim>\<open>itoa\<close> writes a decimal numeral that reads back as the number, for every \<^verbatim>\<open>int\<close> including
  \<^verbatim>\<open>INT_MIN\<close>, and writes at most 12 bytes.\<close>

theorem itoa_roundtrip:
  "\<exists>s. c_string str (itoa val str m) = Some s \<and> int_val s = sint val \<and> length s \<le> 11 \<and>
     (\<forall>p. 11 < unat (p - str) \<longrightarrow> itoa val str m p = m p)"
proof -
  have "hd (dec v) \<noteq> 45" for v
    using dec_chars [OF hd_in_set [OF dec_nonempty(1)], of v] by auto
  then have "int_val (idec i) = i" for i by (simp add: int_val_def idec_def)
  moreover have "itoa val str m p = m p" if "11 < unat (p - str)" for p
    using that idec_short(1) [of val] by (simp add: itoa_put put_mem_def)
  ultimately show ?thesis using itoa_string idec_short(1) by blast
qed

theorem itoa_roundtrip_witness:
  "\<exists>s. c_string 0x1000 (itoa (- 45) 0x1000 (\<lambda>_. 7)) = Some s \<and> int_val s = - 45 \<and> itoa (- 45) 0x1000 (\<lambda>_. 7) 0x100C = 7"
proof -
  obtain s where "c_string 0x1000 (itoa (- 45) 0x1000 (\<lambda>_. 7)) = Some s" "int_val s = sint (- 45 :: u32)"
    and "11 < unat (0x100C - 0x1000 :: u64) \<longrightarrow> itoa (- 45) 0x1000 (\<lambda>_. 7) 0x100C = 7"
    using itoa_roundtrip [of "0x1000" "- 45" "\<lambda>_. 7"] by blast
  moreover have "sint (- 45 :: u32) = - 45" by simp
  ultimately show ?thesis by simp
qed

text \<open>C34: \<^verbatim>\<open>utoa\<close> with radix 16 returns and writes a hexadecimal numeral without leading zeros that reads
  back as the number; with another radix the numeral is decimal.  It writes at most 21 bytes.\<close>

theorem utoa_roundtrip:
  "\<exists>s m'. utoa val dst radix m = Some m' \<and> c_string dst m' = Some s \<and>
     (if radix = 16 then hex_val s = unat val \<and> (val = 0 \<or> hd s \<noteq> 48) else dec_val s = unat val) \<and>
     (\<forall>p. 20 < unat (p - dst) \<longrightarrow> m' p = m p)"
proof (cases "radix = 16")
  case True
  obtain m' where m': "i2hex val dst 16 m = Some m'" "cstr m' dst (hexs (unat val))" "\<forall>p. 16 < unat (p - dst) \<longrightarrow> m' p = m p"
    using i2hex_cstr by blast
  have "c_string dst m' = Some (hexs (unat val))" by (rule c_string_cstr [OF m'(2)]) (use hexs_length [of val] in simp)
  then show ?thesis using True m'(1,3) hexs_hd [of "unat val"] by (auto simp: utoa_def unat_gt_0)
next
  case False
  have "unat val < 10 ^ 20" using unsigned_less [where 'a = nat and w = val] by simp
  then have len: "length (dec (unat val)) \<le> 20" by (rule dec_length) simp
  have "cstr (utoa_r val dst m) dst (dec (unat val))" unfolding utoa_r_put by (rule cstr_put) (use len dec_no_0 in simp_all)
  then have "c_string dst (utoa_r val dst m) = Some (dec (unat val))" by (rule c_string_cstr) (use len in simp)
  moreover have "utoa_r val dst m p = m p" if "20 < unat (p - dst)" for p using that len by (simp add: utoa_r_put put_mem_def)
  ultimately show ?thesis using False by (auto simp: utoa_def)
qed

theorem utoa_roundtrip_witness:
  "\<exists>s m'. utoa 0x2F 0x1000 16 (\<lambda>_. 7) = Some m' \<and> c_string 0x1000 m' = Some s \<and> hex_val s = 47 \<and> hd s \<noteq> 48 \<and> m' 0x1015 = 7"
proof -
  obtain s m' where "utoa 0x2F 0x1000 16 (\<lambda>_. 7) = Some m'" "c_string 0x1000 m' = Some s" "hex_val s = 47" "hd s \<noteq> 48"
    and "20 < unat (0x1015 - 0x1000 :: u64) \<longrightarrow> m' 0x1015 = 7"
    using utoa_roundtrip [of "0x2F" "0x1000" 16 "\<lambda>_. 7"] by auto
  then show ?thesis by auto
qed

text \<open>What a format and its arguments mean, as text: a character, a string, a signed and an unsigned number in decimal, a number of
  64 bits in hexadecimal, and the percent sign itself.  Other conversions have no meaning.\<close>

definition meaning_conv :: "u8 \<Rightarrow> va list \<Rightarrow> (u8 list \<times> va list) option" where
  "meaning_conv c ap =
    (if c = 37 then Some ([37], ap)
     else case ap of
       VStr s # ap \<Rightarrow> if c = 115 then Some (s, ap) else None
     | VInt x # ap \<Rightarrow>
         if c = 99 then Some ([ucast x], ap)
         else if c = 100 \<or> c = 105 then Some (idec (sint (ucast x :: u32)), ap)
         else if c = 117 then Some (dec (unat (ucast x :: u32)), ap)
         else if c = 88 \<or> c = 120 then Some (hexs (unat x), ap)
         else None
     | [] \<Rightarrow> None)"

fun render :: "u8 list \<Rightarrow> va list \<Rightarrow> u8 list option" where
  "render [] ap = Some []"
| "render (c # fmt) ap =
     (if c = 37 then
        (case fmt of
           [] \<Rightarrow> None
         | k # fmt' \<Rightarrow> do { (s, ap) \<leftarrow> meaning_conv k ap; t \<leftarrow> render fmt' ap; Some (s @ t) })
      else do { t \<leftarrow> render fmt ap; Some (c # t) })"

text \<open>The conversions \<^verbatim>\<open>vsprintf\<close> knows, the arguments of \<^verbatim>\<open>%u\<close> below 256 and those of \<^verbatim>\<open>%c\<close> not zero.\<close>

fun in_reach :: "u8 list \<Rightarrow> va list \<Rightarrow> bool" where
  "in_reach [] ap \<longleftrightarrow> True"
| "in_reach (c # fmt) ap \<longleftrightarrow>
     (if c = 37 then
        (case fmt of
           [] \<Rightarrow> True
         | k # fmt' \<Rightarrow> (k = 99 \<or> k = 115 \<or> k = 100 \<or> k = 105 \<or> k = 117 \<or> k = 88 \<or> k = 120) \<and>
             (case ap of VInt x # _ \<Rightarrow> (k = 117 \<longrightarrow> (ucast x :: u32) < 256) \<and> (k = 99 \<longrightarrow> (ucast x :: u8) \<noteq> 0) | _ \<Rightarrow> True) \<and>
             (case meaning_conv k ap of None \<Rightarrow> True | Some (_, ap) \<Rightarrow> in_reach fmt' ap))
      else in_reach fmt ap)"

lemma byte_of_word: "(ucast x :: u32) < 256 \<Longrightarrow> unat (ucast (x :: u64) :: u8) = unat (ucast x :: u32)"
proof -
  assume "(ucast x :: u32) < 256"
  then have "unat (ucast x :: u32) < 256" by (simp add: word_less_nat_alt)
  moreover have "(ucast x :: u8) = ucast (ucast x :: u32)" by (rule word_eq_bits) (simp add: bit_simps)
  ultimately show ?thesis by (simp add: unat_ucast_small)
qed

lemma code_conv_meaning:
  assumes "k = 99 \<or> k = 115 \<or> k = 100 \<or> k = 105 \<or> k = 117 \<or> k = 88 \<or> k = 120"
    and "case ap of VInt x # _ \<Rightarrow> (k = 117 \<longrightarrow> (ucast x :: u32) < 256) \<and> (k = 99 \<longrightarrow> (ucast x :: u8) \<noteq> 0) | _ \<Rightarrow> True"
  shows "code_conv k ap = meaning_conv k ap"
  using assms byte_of_word by (auto simp: code_conv_def meaning_conv_def split: list.splits va.splits) (metis byte_of_word unat_0)

lemma code_render_meaning: "in_reach fmt ap \<Longrightarrow> code_render fmt ap = render fmt ap"
proof (induction fmt ap rule: in_reach.induct)
  case (2 c fmt ap)
  show ?case
  proof (cases "c = 37")
    case pct: True
    show ?thesis
    proof (cases fmt)
      case (Cons k fs)
      then have e: "code_conv k ap = meaning_conv k ap" using 2(3) pct by (intro code_conv_meaning) simp_all
      show ?thesis
      proof (cases "meaning_conv k ap")
        case (Some sa)
        obtain t ap' where sa: "sa = (t, ap')" by (cases sa)
        have "in_reach fs ap'" using 2(3) pct Cons Some sa by simp
        then have "code_render fs ap' = render fs ap'" using 2(1) [OF pct Cons] Some sa by blast
        then show ?thesis using pct Cons e Some sa by simp
      qed (use pct Cons e in simp)
    qed (use pct in simp)
  next
    case False
    then have "code_render fmt ap = render fmt ap" using 2 by simp
    then show ?thesis using False by simp
  qed
qed simp

text \<open>C29: for formats with the conversions it knows, arguments of \<^verbatim>\<open>%u\<close> below 256 and none of \<^verbatim>\<open>%c\<close> zero, \<^verbatim>\<open>vsprintf\<close> writes exactly the
  text that the format and its arguments mean (\<open>render\<close>) and returns its length; it has no result exactly
  when an argument is missing or of the wrong kind or the format ends in a percent sign.  Nothing else is
  written: in particular no terminating zero.\<close>

theorem vsprintf_renders:
  assumes "in_reach fmt ap" and "\<forall>out. render fmt ap = Some out \<longrightarrow> length out < 2 ^ 32"
  shows "vsprintf str fmt ap m =
    (case render fmt ap of None \<Rightarrow> None | Some out \<Rightarrow> Some (of_nat (length out), put_mem str out m))"
proof -
  have e: "code_render fmt ap = render fmt ap" by (rule code_render_meaning [OF assms(1)])
  have l: "\<forall>out. code_render fmt ap = Some out \<longrightarrow> length out < 2 ^ 64" using assms(2) unfolding e by force
  show ?thesis
    unfolding vsprintf_def vsprintf_loop_render [OF l] unfolding e
    using assms(2) by (cases "render fmt ap") (simp_all add: ucast_of_nat_small)
qed

theorem vsprintf_renders_witness:
  "vsprintf 0x1000 [37, 100, 33] [VInt (- 12)] (\<lambda>_. 0) = Some (4, put_mem 0x1000 [45, 49, 50, 33] (\<lambda>_. 0))"
proof -
  have "idec (- 12) = [45, 49, 50]" by (simp add: idec_def dec.simps [of 12] dec.simps [of "Suc 0"])
  then have "render [37, 100, 33] [VInt (- 12)] = Some [45, 49, 50, 33]" "in_reach [37, 100, 33] [VInt (- 12)]" by (simp_all add: meaning_conv_def)
  with vsprintf_renders [where fmt = "[37, 100, 33]" and ap = "[VInt (- 12)]" and str = "0x1000" and m = "\<lambda>_. 0"] show ?thesis by simp
qed

text \<open>\<^verbatim>\<open>%u\<close> keeps only the low eight bits of its argument: 256 is printed as 0.\<close>

lemma vsprintf_u_truncates:
  "vsprintf 0x1000 [37, 117] [VInt 256] (\<lambda>_. 9) = Some (1, (\<lambda>_. 9)(0x1000 := 48))"
  by (simp add: vsprintf_def conv_spec code_conv_def dec.simps [of 0])


section \<open>Command lines\<close>

lemma cpy_word:
  assumes "\<forall>c \<in> set w. c \<noteq> 0 \<and> c \<noteq> 32" and "length pre + length w \<le> 255" and "x = 0 \<or> x = 32"
    and "length dst = 256" and "src = pre @ w @ x # rest"
  shows "cpy_loop (length pre) False src dst =
    cpy_loop (length pre + length w) False src (take (length pre) dst @ w @ drop (length pre + length w) dst)"
  using assms
proof (induction w arbitrary: pre dst)
  case (Cons c w)
  have c: "src ! length pre = c" "c \<noteq> 0" "c \<noteq> 32" using Cons.prems by (auto simp: nth_append)
  have "cpy_loop (length pre) False src dst = cpy_loop (length (pre @ [c])) False src (dst[length pre := c])"
    using Cons.prems(2) c by (simp add: cpy_loop.simps [of "length pre"] Let_def)
  also have "\<dots> = cpy_loop (length (pre @ [c]) + length w) False src
      (take (length (pre @ [c])) (dst[length pre := c]) @ w @ drop (length (pre @ [c]) + length w) (dst[length pre := c]))"
    by (rule Cons.IH) (use Cons.prems in auto)
  also have "take (length (pre @ [c])) (dst[length pre := c]) = take (length pre) dst @ [c]"
    using Cons.prems(2,4) by (simp add: take_Suc_conv_app_nth)
  finally show ?case by simp
qed simp

lemma cpy_spaces:
  assumes "i + k \<le> 255" and "\<forall>j < k. src ! (i + j) = 32" and "src ! (i + k) \<noteq> 32" and "0 < k \<or> flag"
  shows "\<exists>dst'. cpy_loop i flag src dst = (i + k, dst') \<and> length dst' = length dst \<and>
    (\<forall>j < length dst. dst' ! j = (if i \<le> j \<and> j < i + k then 0 else dst ! j))"
  using assms
proof (induction k arbitrary: i flag dst)
  case 0
  then show ?case by (auto simp: cpy_loop.simps [of i])
next
  case (Suc k)
  have "src ! i = 32" using Suc.prems(2) [rule_format, of 0] by simp
  then have step: "cpy_loop i flag src dst = cpy_loop (i + 1) True src (dst[i := 0])"
    using Suc.prems(1) by (simp add: cpy_loop.simps [of i])
  have "\<exists>dst'. cpy_loop (i + 1) True src (dst[i := 0]) = (i + 1 + k, dst') \<and> length dst' = length (dst[i := 0]) \<and>
    (\<forall>j < length (dst[i := 0]). dst' ! j = (if i + 1 \<le> j \<and> j < i + 1 + k then 0 else dst[i := 0] ! j))"
  proof (rule Suc.IH)
    show "\<forall>j < k. src ! (i + 1 + j) = 32" using Suc.prems(2) by (metis Suc_mono add.assoc plus_1_eq_Suc)
  qed (use Suc.prems in simp_all)
  then obtain dst' where d: "cpy_loop (i + 1) True src (dst[i := 0]) = (i + 1 + k, dst')" "length dst' = length dst"
    "\<forall>j < length dst. dst' ! j = (if i + 1 \<le> j \<and> j < i + 1 + k then 0 else dst[i := 0] ! j)" by auto
  have "dst' ! j = (if i \<le> j \<and> j < i + Suc k then 0 else dst ! j)" if "j < length dst" for j
    using d(3) that by (cases "j = i") auto
  with d step show ?case by auto
qed

lemma takeWhile_prefix:
  assumes "\<forall>j < length w. d ! j = w ! j" and "length w < length d" and "d ! length w = 0" and "0 \<notin> set w"
  shows "takeWhile (\<lambda>c. c \<noteq> 0) d = w" and "0 \<in> set d"
proof -
  have "take (length w) d = w" using assms by (intro nth_equalityI) auto
  then have d: "d = w @ 0 # drop (Suc (length w)) d" using id_take_nth_drop [OF assms(2)] assms(3) by simp
  show "0 \<in> set d" by (subst d) simp
  have "takeWhile (\<lambda>c. c \<noteq> 0) (w @ 0 # e) = w" for e using assms(4) by (induction w) auto
  then show "takeWhile (\<lambda>c. c \<noteq> 0) d = w" using d by metis
qed

text \<open>A word and the spaces behind it.\<close>

lemma cpy_step:
  assumes w: "\<forall>c \<in> set w. c \<noteq> 0 \<and> c \<noteq> 32" "w \<noteq> []" and len: "length w + k \<le> 255" and tmp: "length tmp = 256"
    and rest: "rest \<noteq> []" "hd rest \<noteq> 32" "k = 0 \<Longrightarrow> hd rest = 0"
  shows "\<exists>tmp'. cpy tmp (w @ replicate k 32 @ rest) = (length w + k, tmp') \<and> length tmp' = 256 \<and>
    0 \<in> set tmp' \<and> takeWhile (\<lambda>c. c \<noteq> 0) tmp' = w"
proof -
  let ?src = "w @ replicate k 32 @ rest"
  define t where "t = w @ drop (length w) tmp"
  have t: "length t = 256" using len tmp by (simp add: t_def)
  have start: "?src ! 0 \<noteq> 0" using w by (cases w) auto
  have "\<exists>x rs. replicate k 32 @ rest = x # rs \<and> (x = 0 \<or> x = 32)"
    using rest by (cases k; cases rest) auto
  then obtain x rs where x: "?src = [] @ w @ x # rs" "x = 0 \<or> x = 32" by auto
  have "cpy_loop (length ([] :: u8 list)) False ?src tmp = cpy_loop (length ([] :: u8 list) + length w) False ?src
      (take (length ([] :: u8 list)) tmp @ w @ drop (length ([] :: u8 list) + length w) tmp)"
    by (rule cpy_word [OF w(1) _ x(2) tmp x(1)]) (use len in simp)
  then have word: "cpy tmp ?src = cpy_loop (length w) False ?src t" using start by (simp add: cpy_def t_def)
  show ?thesis
  proof (cases "k = 0")
    case True
    then have "?src ! length w = 0" using rest by (cases rest) (auto simp: nth_append)
    then have c: "cpy tmp ?src = (length w + k, t[length w := 0])"
      unfolding word using True len by (simp add: cpy_loop.simps [of "length w"] Let_def)
    have "\<forall>j < length w. t[length w := 0] ! j = w ! j" by (simp add: t_def nth_append)
    from takeWhile_prefix [OF this] c t len w(1) show ?thesis by auto
  next
    case False
    obtain t' where t': "cpy_loop (length w) False ?src t = (length w + k, t')" "length t' = length t"
      "\<forall>j < length t. t' ! j = (if length w \<le> j \<and> j < length w + k then 0 else t ! j)"
      using cpy_spaces [of "length w" k ?src False t] len False rest
      by (cases rest) (auto simp: nth_append)
    have "\<forall>j < length w. t' ! j = w ! j" using t'(3) t len by (simp add: t_def nth_append)
    moreover have "t' ! length w = 0" using t'(3) t len False by simp
    ultimately show ?thesis using takeWhile_prefix [of w t'] t' t len w(1) word by auto
  qed
qed


fun line :: "(u8 list \<times> nat) list \<Rightarrow> u8 list" where
  "line [] = []"
| "line ((w, k) # ws) = w @ replicate k 32 @ line ws"

fun good_line :: "(u8 list \<times> nat) list \<Rightarrow> bool" where
  "good_line [] \<longleftrightarrow> True"
| "good_line ((w, k) # ws) \<longleftrightarrow> w \<noteq> [] \<and> (\<forall>c \<in> set w. c \<noteq> 0 \<and> c \<noteq> 32) \<and> length w + k \<le> 255 \<and>
     (ws \<noteq> [] \<longrightarrow> 0 < k) \<and> good_line ws"

lemma line_length: "good_line ws \<Longrightarrow> length (line ws) \<le> 255 * length ws"
  by (induction ws rule: line.induct) auto

lemma cstr_keep:
  assumes "cstr m a xs" and "\<And>i. i \<le> length xs \<Longrightarrow> m' (a + of_nat i) = m (a + of_nat i)"
  shows "cstr m' a xs"
proof -
  have "get_mem a (Suc (length xs)) m' = get_mem a (Suc (length xs)) m"
    by (rule nth_equalityI) (simp_all add: assms(2) less_Suc_eq_le)
  with assms(1) show ?thesis by (simp add: cstr_def)
qed

lemma format_loop_line:
  assumes "good_line ws" and "i + length ws < 32" and "length argv = 32" and "length tmp = 256"
  shows "\<exists>argv' m'. format_loop i argv mp (line ws @ [0]) tmp m = Some (i + length ws, argv', m') \<and> length argv' = 32 \<and>
    (\<forall>j < i. argv' ! j = argv ! j) \<and> (\<forall>j < length ws. cstr m' (argv' ! (i + j)) (fst (ws ! j))) \<and>
    (\<forall>p. length (line ws) < unat (p - mp) \<or> ws = [] \<longrightarrow> m' p = m p)"
  using assms
proof (induction ws arbitrary: i argv mp tmp m rule: line.induct)
  case 1
  then show ?case by (simp add: format_loop.simps [of i] cpy_def)
next
  case (2 w k ws)
  let ?r = "length w + k" and ?m = "put_mem mp (w @ [0]) m" and ?av = "argv[i := mp]"
  have w: "\<forall>c \<in> set w. c \<noteq> 0 \<and> c \<noteq> 32" "w \<noteq> []" "?r \<le> 255" "ws \<noteq> [] \<Longrightarrow> 0 < k" "good_line ws" using "2.prems"(1) by simp_all
  have hd: "hd (line ws @ [0]) \<noteq> 32" "k = 0 \<Longrightarrow> hd (line ws @ [0]) = 0"
    using w by (cases ws; auto simp: hd_append)+
  obtain tmp' where tmp': "cpy tmp (w @ replicate k 32 @ line ws @ [0]) = (?r, tmp')" "length tmp' = 256" "0 \<in> set tmp'"
    "takeWhile (\<lambda>c. c \<noteq> 0) tmp' = w"
    using cpy_step [OF w(1-3) "2.prems"(4) _ hd] by auto
  have step: "format_loop i argv mp (line ((w, k) # ws) @ [0]) tmp m = format_loop (i + 1) ?av (mp + of_nat ?r) (line ws @ [0]) tmp' ?m"
    using "2.prems"(2) tmp' w(2) by (simp add: format_loop.simps [of i])
  obtain av m' where IH: "format_loop (i + 1) ?av (mp + of_nat ?r) (line ws @ [0]) tmp' ?m = Some (i + 1 + length ws, av, m')"
    "length av = 32" "\<forall>j < i + 1. av ! j = ?av ! j" "\<forall>j < length ws. cstr m' (av ! (i + 1 + j)) (fst (ws ! j))"
    "\<forall>p. length (line ws) < unat (p - (mp + of_nat ?r)) \<or> ws = [] \<longrightarrow> m' p = ?m p"
    using "2.IH" [of "i + 1" ?av tmp' "mp + of_nat ?r" ?m] "2.prems" w(5) tmp'(2) by auto
  have ll: "length (line ws) \<le> 255 * 32" using line_length [OF w(5)] "2.prems"(2) by simp
  have keep: "m' (mp + of_nat j) = ?m (mp + of_nat j)" if "j \<le> length w" for j
  proof (cases "ws = []")
    case False
    have "mp + of_nat j - (mp + of_nat ?r) = - (of_nat (?r - j) :: u64)" using that by (simp add: of_nat_diff)
    moreover have "unat (- (of_nat (?r - j)) :: u64) = 2 ^ 64 - (?r - j)"
      using that w(3,4) False by (intro unat_neg) auto
    ultimately have "unat (mp + of_nat j - (mp + of_nat ?r)) = 2 ^ 64 - (?r - j)" by (simp only:)
    with ll w(3) IH(5) show ?thesis by simp
  qed (use IH(5) in simp)
  have "cstr ?m mp w" by (rule cstr_put) (use w in auto)
  then have first: "cstr m' mp w" by (rule cstr_keep) (rule keep)
  have "cstr m' (av ! (i + j)) (fst (((w, k) # ws) ! j))" if "j < length ((w, k) # ws)" for j
  proof (cases j)
    case 0
    then show ?thesis using first IH(3) "2.prems"(2,3) by simp
  next
    case (Suc j')
    then show ?thesis using IH(4) that by simp
  qed
  moreover have "m' p = m p" if far: "length (line ((w, k) # ws)) < unat (p - mp)" for p
  proof -
    have r: "unat (of_nat ?r :: u64) = ?r" using w(3) by (intro unat_of_nat_small) simp
    have "p - (mp + of_nat ?r) = (p - mp) - of_nat ?r" by simp
    moreover have "unat ((p - mp) - of_nat ?r) = unat (p - mp) - ?r"
      using far r by (subst unat_sub) (simp_all add: word_le_nat_alt r del: of_nat_add)
    ultimately have "unat (p - (mp + of_nat ?r)) = unat (p - mp) - ?r" by (simp only:)
    then have "length (line ws) < unat (p - (mp + of_nat ?r))" using far by (simp only:) simp
    then have "m' p = ?m p" using IH(5) by blast
    also have "?m p = m p" using far w(4) by (auto simp: put_mem_def)
    finally show ?thesis .
  qed
  ultimately show ?case using step IH(1-3) "2.prems"(2) by auto
qed

text \<open>C36: \<^verbatim>\<open>format_argv\<close> splits a line of words, each followed by spaces and together with them shorter than
  256 bytes: it returns the number of words, and the \<open>j\<close>-th pointer points to the \<open>j\<close>-th word as a
  string.\<close>

theorem format_argv_splits:
  assumes "good_line ws" and "length ws < 32" and "length argv = 32" and "length tmp = 256"
  shows "\<exists>argv' m'. format_argv a argv (line ws) tmp m = Some (length ws, argv', m') \<and>
    (\<forall>j < length ws. cstr m' (argv' ! j) (fst (ws ! j)))"
  using format_loop_line [OF assms(1) _ assms(3,4), of 0 "a + 8 * 32" m] assms(2) by (auto simp: format_argv_def)

theorem format_argv_splits_witness:
  "\<exists>argv' m'. format_argv 0x1000 (replicate 32 0) [108, 115, 32, 32, 97] (replicate 256 0) (\<lambda>_. 0) = Some (2, argv', m') \<and>
     cstr m' (argv' ! 0) [108, 115] \<and> cstr m' (argv' ! 1) [97]"
proof -
  have l: "line [([108, 115], 2), ([97], 0)] = [108, 115, 32, 32, 97]" by (simp add: numeral_2_eq_2)
  have "good_line [([108, 115], 2), ([97], 0)]" by simp
  from format_argv_splits [OF this, of "replicate 32 0" "replicate 256 0" "0x1000" "\<lambda>_. 0"]
  show ?thesis unfolding l by (auto simp: less_Suc_eq numeral_2_eq_2)
qed

end
