(* ===== verification/File.thy ===== *)
theory File
  imports Inet Kroom Kstring
begin

text \<open>
  The kernel's files: \<^verbatim>\<open>kernel/lib/stdio.c\<close> (streams), \<^verbatim>\<open>kernel/file/std.c\<close> (standard streams),
  \<^verbatim>\<open>kernel/file/pipe.c\<close> (message pipes) and \<^verbatim>\<open>kernel/file/cfs.c\<close> (reading of files from the disk).

  Every object comes from the kernel's \<^verbatim>\<open>malloc\<close> on \<open>fmm\<close>.  \<open>files\<close> holds the \<^verbatim>\<open>FILE\<close> structures, \<open>ptrs\<close> and
  \<open>blks\<close> the arrays of block pointers and of sector numbers, and \<open>bufs\<close> the byte buffers, each by the
  address of its block.  An access outside its block or to a released one, the division by zero trap
  and a wait that never ends have the result \<open>None\<close>.  What a new block contains is \<open>junk\<close>.  The disk is
  the parameter \<open>rd\<close>: for a device, a number of sectors and a first sector it gives the return code of
  \<^verbatim>\<open>read_sector\<close> and the bytes it stored.  What the rest of the kernel does between two polls of a waiting
  reader is the parameter \<open>env\<close>.
\<close>

section \<open>State\<close>

record FILE =
  f_level :: u16
  f_flags :: u32
  f_fd :: u8
  f_hold :: u8
  f_bsize :: u32
  f_buffer :: u64
  f_curp :: u64
  f_istemp :: u32
  f_token :: u16
  f_mode :: u8
  f_off :: u32
  f_off2 :: u32
  f_fname :: "u8 list"
  f_fsize :: u32
  f_byte_per_sector :: u32
  f_count :: u32
  f_fs_type :: u32
  f_num_of_blocks :: u32
  f_dv_num :: u32
  f_blocks :: u64

definition FILE_zero :: FILE where
  "FILE_zero = \<lparr>f_level = 0, f_flags = 0, f_fd = 0, f_hold = 0, f_bsize = 0, f_buffer = 0, f_curp = 0, f_istemp = 0,
     f_token = 0, f_mode = 0, f_off = 0, f_off2 = 0, f_fname = replicate 256 0, f_fsize = 0, f_byte_per_sector = 0,
     f_count = 0, f_fs_type = 0, f_num_of_blocks = 0, f_dv_num = 0, f_blocks = 0\<rparr>"

record file_state =
  fmm :: mm_state
  files :: "u64 \<rightharpoonup> FILE"
  bufs :: "u64 \<rightharpoonup> u8 list"
  ptrs :: "u64 \<rightharpoonup> u64 list"
  blks :: "u64 \<rightharpoonup> u32 list"
  junk :: "u64 \<Rightarrow> nat \<Rightarrow> u8"
  std_in :: u64
  std_out :: u64
  std_err :: u64
  fs_directory :: u64
  dv_num :: u8

type_synonym disk = "u32 \<Rightarrow> u32 \<Rightarrow> u64 \<Rightarrow> int \<times> u8 list"
type_synonym 'a file_env = "nat \<Rightarrow> 'a file_state_scheme \<Rightarrow> 'a file_state_scheme"

abbreviation (input) BUFSIZ :: u32 where "BUFSIZ \<equiv> 8192"
abbreviation (input) EOF :: int where "EOF \<equiv> - 1"
abbreviation (input) FILE_SIZE :: u32 where "FILE_SIZE \<equiv> 331"

section \<open>Objects\<close>

definition new_block :: "u32 \<Rightarrow> 'a file_state_scheme \<Rightarrow> (u64 \<times> 'a file_state_scheme) option" where
  "new_block sz s = do { (p, mm) \<leftarrow> malloc sz (fmm s); a \<leftarrow> p; Some (a, s\<lparr>fmm := mm\<rparr>) }"

definition new_buf :: "u32 \<Rightarrow> 'a file_state_scheme \<Rightarrow> (u64 \<times> 'a file_state_scheme) option" where
  "new_buf sz s = do { (a, s) \<leftarrow> new_block sz s; Some (a, s\<lparr>bufs := (bufs s)(a \<mapsto> map (junk s a) [0..<unat sz])\<rparr>) }"

definition free_block :: "u64 \<Rightarrow> 'a file_state_scheme \<Rightarrow> 'a file_state_scheme option" where
  "free_block a s = do { mm \<leftarrow> free a (fmm s);
     Some (s\<lparr>fmm := mm, files := (files s)(a := None), bufs := (bufs s)(a := None),
             ptrs := (ptrs s)(a := None), blks := (blks s)(a := None)\<rparr>) }"

definition rd_byte :: "u64 \<Rightarrow> nat \<Rightarrow> 'a file_state_scheme \<Rightarrow> u8 option" where
  "rd_byte a i s = do { b \<leftarrow> bufs s a; if i < length b then Some (b ! i) else None }"

definition rd32 :: "u64 \<Rightarrow> nat \<Rightarrow> 'a file_state_scheme \<Rightarrow> u32 option" where
  "rd32 a i s = do { b \<leftarrow> bufs s a; if i + 4 \<le> length b then Some (get32 (\<lambda>i. b ! i) i) else None }"

definition wr_bytes :: "u64 \<Rightarrow> nat \<Rightarrow> u8 list \<Rightarrow> 'a file_state_scheme \<Rightarrow> 'a file_state_scheme option" where
  "wr_bytes a i bs s = do { b \<leftarrow> bufs s a;
     if i + length bs \<le> length b
     then Some (s\<lparr>bufs := (bufs s)(a \<mapsto> take i b @ bs @ drop (i + length bs) b)\<rparr>) else None }"

definition upd_file :: "u64 \<Rightarrow> (FILE \<Rightarrow> FILE) \<Rightarrow> 'a file_state_scheme \<Rightarrow> 'a file_state_scheme option" where
  "upd_file fp f s = do { n \<leftarrow> files s fp; Some (s\<lparr>files := (files s)(fp \<mapsto> f n)\<rparr>) }"

definition read_sector :: "disk \<Rightarrow> u32 \<Rightarrow> u32 \<Rightarrow> u64 \<Rightarrow> u64 \<Rightarrow> 'a file_state_scheme \<Rightarrow> (int \<times> 'a file_state_scheme) option" where
  "read_sector rd dev count addr buffer s =
    (let (r, bs) = rd dev count addr in do { s \<leftarrow> wr_bytes buffer 0 bs s; Some (r, s) })"

section \<open>Standard streams and pipes\<close>

definition mode_is :: "string \<Rightarrow> string \<Rightarrow> bool" where
  "mode_is lit mode \<longleftrightarrow> take (length lit) mode = lit"

definition open_stream :: "u32 \<Rightarrow> 'a file_state_scheme \<Rightarrow> (u64 \<times> 'a file_state_scheme) option" where
  "open_stream flag s =
    do {
      (fp, s) \<leftarrow> new_block FILE_SIZE s;
      (b, s) \<leftarrow> new_buf BUFSIZ s;
      Some (fp, s\<lparr>files := (files s)(fp \<mapsto> FILE_zero\<lparr>f_bsize := BUFSIZ, f_buffer := b, f_fsize := 0, f_mode := 2, f_flags := flag\<rparr>),
                  bufs := (bufs s)(b \<mapsto> replicate 8192 0)\<rparr>) }"

definition std_open_file :: "string \<Rightarrow> 'a file_state_scheme \<Rightarrow> (u64 \<times> 'a file_state_scheme) option" where
  "std_open_file mode s =
    (if mode_is ''stdin'' mode then open_stream 2 s
     else if mode_is ''stdout'' mode then open_stream 3 s
     else if mode_is ''stderr'' mode then open_stream 4 s
     else Some (0, s))"

definition pipe_open_file :: "'a file_state_scheme \<Rightarrow> (u64 \<times> 'a file_state_scheme) option" where
  "pipe_open_file s = open_stream 1 s"

definition std_file_close :: "u64 \<Rightarrow> 'a file_state_scheme \<Rightarrow> (int \<times> 'a file_state_scheme) option" where
  "std_file_close fp s = do { n \<leftarrow> files s fp; s \<leftarrow> free_block (f_buffer n) s; s \<leftarrow> free_block fp s; Some (0, s) }"

text \<open>The offset wraps before a write; \<^verbatim>\<open>level\<close> is a \<^verbatim>\<open>short\<close> compared with an \<^verbatim>\<open>unsigned\<close>.\<close>

definition wrap_off :: "FILE \<Rightarrow> FILE" where
  "wrap_off n = (if (scast (f_level n) :: u32) \<ge> f_bsize n \<or> f_off n \<ge> f_bsize n then n\<lparr>f_off := 0, f_level := 0\<rparr> else n)"

partial_function (option) std_putc :: "u32 \<Rightarrow> u64 \<Rightarrow> 'a file_state_scheme \<Rightarrow> (u32 \<times> 'a file_state_scheme) option" where
  "std_putc c fp s =
    do {
      s \<leftarrow> upd_file fp wrap_off s;
      n \<leftarrow> files s fp;
      s \<leftarrow> (if f_flags n = 4 then do { (_, s) \<leftarrow> std_putc c (std_out s) s; Some s } else Some s);
      n \<leftarrow> files s fp;
      (if f_flags n = 3 then do {
         s \<leftarrow> wr_bytes (f_buffer n) (unat (f_off n)) (le16 (ucast c)) s;
         s \<leftarrow> upd_file fp (\<lambda>n. let n = n\<lparr>f_curp := f_buffer n + ucast (f_off n), f_off := f_off n + 2\<rparr>
                              in if f_off n > f_fsize n then n\<lparr>f_fsize := f_fsize n + 2\<rparr> else n) s;
         Some (c, s) }
       else do {
         s \<leftarrow> wr_bytes (f_buffer n) (unat (f_off n)) [ucast c] s;
         s \<leftarrow> upd_file fp (\<lambda>n. let n = n\<lparr>f_curp := f_buffer n + ucast (f_off n), f_off := f_off n + 1\<rparr>
                              in if f_off n > f_fsize n then n\<lparr>f_fsize := f_fsize n + 1\<rparr> else n) s;
         Some (c, s) }) }"

text \<open>The wait of a reader until the writer's offset differs from its own.\<close>

partial_function (option) wait_data :: "'a file_env \<Rightarrow> u64 \<Rightarrow> nat \<Rightarrow> 'a file_state_scheme \<Rightarrow> 'a file_state_scheme option" where
  "wait_data env fp k s =
     (case files s fp of
        None \<Rightarrow> None
      | Some n \<Rightarrow> if f_off n \<le> f_off2 n \<and> f_off n \<ge> f_off2 n then wait_data env fp (k + 1) (env k s) else Some s)"

definition wrap_off2 :: "FILE \<Rightarrow> FILE" where
  "wrap_off2 n = (if f_off2 n \<ge> f_bsize n then n\<lparr>f_off2 := 0\<rparr> else n)"

definition std_getc :: "'a file_env \<Rightarrow> u64 \<Rightarrow> 'a file_state_scheme \<Rightarrow> (int \<times> 'a file_state_scheme) option" where
  "std_getc env fp s =
    do {
      n \<leftarrow> files s fp;
      if f_fsize n = 0 then Some (EOF, s)
      else do {
        s \<leftarrow> upd_file fp wrap_off2 s;
        n \<leftarrow> files s fp;
        if f_flags n = 2 then do {
          s \<leftarrow> wait_data env fp 0 s;
          n \<leftarrow> files s fp;
          r \<leftarrow> rd_byte (f_buffer n) (unat (f_off2 n)) s;
          s \<leftarrow> upd_file fp (\<lambda>n. n\<lparr>f_curp := f_buffer n + ucast (f_off2 n), f_off2 := f_off2 n + 1\<rparr>) s;
          Some (int (unat r), s) }
        else if f_flags n = 4 then
          (if f_off n = 0 \<or> f_off2 n \<ge> f_off n then Some (EOF, s)
           else do {
             r \<leftarrow> rd_byte (f_buffer n) (unat (f_off2 n)) s;
             s \<leftarrow> upd_file fp (\<lambda>n. n\<lparr>f_curp := f_buffer n + ucast (f_off2 n), f_off2 := f_off2 n + 1\<rparr>) s;
             Some (int (unat r), s) })
        else if f_flags n = 3 then
          (if f_off2 n = f_off n then Some (EOF, s)
           else do {
             r0 \<leftarrow> rd_byte (f_buffer n) (unat (f_off2 n)) s;
             r1 \<leftarrow> rd_byte (f_buffer n) (unat (f_off2 n) + 1) s;
             s \<leftarrow> upd_file fp (\<lambda>n. n\<lparr>f_curp := f_buffer n + ucast (f_off2 n), f_off2 := f_off2 n + 2\<rparr>) s;
             Some (int (unat r0) + 256 * int (unat r1), s) })
        else Some (0, s) } }"

text \<open>Pipes carry messages of 16 bytes.\<close>

definition pipe_write :: "u8 list \<Rightarrow> u64 \<Rightarrow> 'a file_state_scheme \<Rightarrow> (int \<times> 'a file_state_scheme) option" where
  "pipe_write buf fp s =
    (if fp = 0 then Some (0, s)
     else do {
       s \<leftarrow> upd_file fp wrap_off s;
       n \<leftarrow> files s fp;
       s \<leftarrow> wr_bytes (f_buffer n) (unat (f_off n)) (take 16 buf) s;
       s \<leftarrow> upd_file fp (\<lambda>n. n\<lparr>f_curp := f_buffer n + ucast (f_off n) + 15, f_off := f_off n + 16, f_fsize := f_fsize n + 16\<rparr>) s;
       Some (16, s) })"

definition pipe_read :: "'a file_env \<Rightarrow> u64 \<Rightarrow> 'a file_state_scheme \<Rightarrow> (int \<times> u8 list \<times> 'a file_state_scheme) option" where
  "pipe_read env fp s =
    (if fp = 0 then Some (0, [], s)
     else do {
       s \<leftarrow> upd_file fp wrap_off2 s;
       s \<leftarrow> wait_data env fp 0 s;
       n \<leftarrow> files s fp;
       b \<leftarrow> bufs s (f_buffer n);
       (if unat (f_off2 n) + 16 \<le> length b then do {
          s \<leftarrow> upd_file fp (\<lambda>n. n\<lparr>f_curp := f_buffer n + ucast (f_off2 n) + 15, f_off2 := f_off2 n + 16\<rparr>) s;
          Some (16, take 16 (drop (unat (f_off2 n)) b), s) }
        else None) })"

section \<open>Files on the disk\<close>

text \<open>A file name is compared with the 96 bytes of an entry after padding it with spaces.\<close>

fun pad_name :: "nat \<Rightarrow> u8 list \<Rightarrow> u8 list" where
  "pad_name 0 us2 = []"
| "pad_name (Suc n) [] = 32 # pad_name n []"
| "pad_name (Suc n) (c # us2) = c # pad_name n us2"

fun same_bytes :: "nat \<Rightarrow> u8 list \<Rightarrow> u8 list \<Rightarrow> int" where
  "same_bytes 0 us1 us3 = 0"
| "same_bytes (Suc n) us1 us3 = (if hd us1 \<noteq> hd us3 then 1 else same_bytes n (tl us1) (tl us3))"

definition filename_cmp :: "u8 list \<Rightarrow> u8 list \<Rightarrow> int" where
  "filename_cmp s1 s2 = same_bytes 96 s1 (pad_name 96 s2)"

record part =
  p_dv_num :: u32
  p_start :: u32

text \<open>Fields of the super block and of a directory entry, by offset.\<close>

abbreviation (input) sb_hidden :: nat where "sb_hidden \<equiv> 20"
abbreviation (input) sb_rsv :: nat where "sb_rsv \<equiv> 24"
abbreviation (input) sb_byte_per_sector :: nat where "sb_byte_per_sector \<equiv> 28"
abbreviation (input) sb_sector_per_blk :: nat where "sb_sector_per_blk \<equiv> 32"
abbreviation (input) sb_root_blk :: nat where "sb_root_blk \<equiv> 44"
abbreviation (input) de_first_blk :: nat where "de_first_blk \<equiv> 107"
abbreviation (input) de_file_size :: nat where "de_file_size \<equiv> 111"

definition read_super_block :: "disk \<Rightarrow> u64 \<Rightarrow> part \<Rightarrow> 'a file_state_scheme \<Rightarrow> (int \<times> 'a file_state_scheme) option" where
  "read_super_block rd f p s = read_sector rd (p_dv_num p) 1 (ucast (p_start p)) f s"

text \<open>The search of the 64 entries; the result is the last comparison and the index.\<close>

function find_entry :: "nat \<Rightarrow> u8 list \<Rightarrow> u8 list \<Rightarrow> int \<Rightarrow> int \<times> nat" where
  "find_entry i root filename r =
     (if i < 64 then
        let r = filename_cmp (take 128 (drop (i * 128) root)) filename
        in if r = 0 then (r, i) else find_entry (i + 1) root filename r
      else (r, i))"
  by pat_completeness auto
termination by (relation "measure (\<lambda>(i, _). 64 - i)") auto

declare find_entry.simps [simp del]

definition read_directory_entry :: "disk \<Rightarrow> u64 \<Rightarrow> u64 \<Rightarrow> part \<Rightarrow> u8 list \<Rightarrow> 'a file_state_scheme \<Rightarrow> (int \<times> 'a file_state_scheme) option" where
  "read_directory_entry rd d f p filename s =
    do {
      rsv \<leftarrow> rd32 f sb_rsv s;
      hidden \<leftarrow> rd32 f sb_hidden s;
      root_blk \<leftarrow> rd32 f sb_root_blk s;
      spb \<leftarrow> rd32 f sb_sector_per_blk s;
      let first_sector = root_blk * spb + (rsv + hidden);
      (root, s) \<leftarrow> new_buf 8192 s;
      s \<leftarrow> wr_bytes root 0 (replicate 8192 0) s;
      (r, s) \<leftarrow> read_sector rd (p_dv_num p) spb (ucast first_sector) root s;
      if r \<noteq> 0 then Some (r, s)
      else do {
        b \<leftarrow> bufs s root;
        let (r, i) = find_entry 0 b filename r;
        s \<leftarrow> (if r = 0 \<and> i < 64 then wr_bytes d 0 (take 128 (drop (i * 128) b)) s else Some s);
        s \<leftarrow> free_block root s;
        Some (r, s) } }"

definition file_close :: "u64 \<Rightarrow> 'a file_state_scheme \<Rightarrow> (int \<times> 'a file_state_scheme) option" where
  "file_close fp s =
    (if fp = 0 then Some (- 1, s)
     else do {
       n \<leftarrow> files s fp;
       s \<leftarrow> free_block (f_buffer n) s;
       bp \<leftarrow> ptrs s (f_blocks n);
       s \<leftarrow> fold (\<lambda>b r. r \<bind> free_block b) (takeWhile (\<lambda>b. b \<noteq> 0) (take 1024 bp)) (Some s);
       s \<leftarrow> free_block (f_blocks n) s;
       s \<leftarrow> free_block fp s;
       Some (0, s) })"

text \<open>The inner loop of \<^verbatim>\<open>open_file_r\<close>: it enters the sector of block \<open>index\<close> in slot \<open>t\<close> of \<open>blocks\<close> and follows
  the allocation table, keeping one of its sectors in \<open>BLK\<close>.  The result is an error of the disk, or
  whether the end of the file was reached.\<close>

datatype walk = Disk_error | Walk bool u32 u32

record geometry =
  g_spb :: u32
  g_bps :: u32
  g_base :: u32
  g_dev :: u32

function fat_walk :: "disk \<Rightarrow> geometry \<Rightarrow> u64 \<Rightarrow> u64 \<Rightarrow> u64 \<Rightarrow> nat \<Rightarrow> u32 \<Rightarrow> u32 \<Rightarrow> 'a file_state_scheme
    \<Rightarrow> (walk \<times> 'a file_state_scheme) option" where
  "fat_walk rd g fp blocks BLK t index flg s =
     (if t < 1024 then do {
        bl \<leftarrow> blks s blocks;
        let s = s\<lparr>blks := (blks s)(blocks \<mapsto> bl[t := index * g_spb g + g_base g])\<rparr>;
        s \<leftarrow> upd_file fp (\<lambda>n. n\<lparr>f_num_of_blocks := f_num_of_blocks n + 1\<rparr>) s;
        if g_bps g div 4 = 0 then None
        else do {
          let start = (index * 4) div g_bps g + g_base g;
          (r, s) \<leftarrow> (if flg \<noteq> start then read_sector rd (g_dev g) 1 (ucast start) BLK s else Some (0, s));
          if r \<noteq> 0 then Some (Disk_error, s)
          else do {
            index \<leftarrow> rd32 BLK (4 * unat (index mod (g_bps g div 4))) s;
            if index = 0xFFFFFFFF then Some (Walk True index start, s)
            else fat_walk rd g fp blocks BLK (t + 1) index start s } } }
      else Some (Walk False index flg, s))"
  by pat_completeness auto
termination by (relation "measure (\<lambda>(rd, g, fp, blocks, BLK, t, _). 1024 - t)") auto

declare fat_walk.simps [simp del]

function fat_walks :: "disk \<Rightarrow> geometry \<Rightarrow> u64 \<Rightarrow> u64 \<Rightarrow> u64 \<Rightarrow> nat \<Rightarrow> u32 \<Rightarrow> u32 \<Rightarrow> 'a file_state_scheme
    \<Rightarrow> (bool \<times> 'a file_state_scheme) option" where
  "fat_walks rd g fp bp BLK i index flg s =
     (if i < 1024 then do {
        (blocks, s) \<leftarrow> new_block 4096 s;
        pl \<leftarrow> ptrs s bp;
        let s = s\<lparr>ptrs := (ptrs s)(bp \<mapsto> pl[i := blocks]), blks := (blks s)(blocks \<mapsto> replicate 1024 0)\<rparr>;
        (w, s) \<leftarrow> fat_walk rd g fp blocks BLK 0 index flg s;
        (case w of
           Disk_error \<Rightarrow> Some (False, s)
         | Walk eof index flg \<Rightarrow> if eof then Some (True, s) else fat_walks rd g fp bp BLK (i + 1) index flg s) }
      else Some (True, s))"
  by pat_completeness auto
termination by (relation "measure (\<lambda>(rd, g, fp, bp, BLK, i, _). 1024 - i)") auto

declare fat_walks.simps [simp del]

definition open_file_r :: "disk \<Rightarrow> u64 \<Rightarrow> u64 \<Rightarrow> part \<Rightarrow> 'a file_state_scheme \<Rightarrow> (u64 \<times> 'a file_state_scheme) option" where
  "open_file_r rd d f p s =
    do {
      bps \<leftarrow> rd32 f sb_byte_per_sector s;
      spb \<leftarrow> rd32 f sb_sector_per_blk s;
      rsv \<leftarrow> rd32 f sb_rsv s;
      hidden \<leftarrow> rd32 f sb_hidden s;
      fsize \<leftarrow> rd32 d de_file_size s;
      index \<leftarrow> rd32 d de_first_blk s;
      (fp, s) \<leftarrow> new_block FILE_SIZE s;
      (b, s) \<leftarrow> new_buf BUFSIZ s;
      (bp, s) \<leftarrow> new_block (1024 * 8) s;
      (BLK, s) \<leftarrow> new_buf 8192 s;
      let s = s\<lparr>files := (files s)(fp \<mapsto> FILE_zero\<lparr>f_bsize := bps * spb, f_buffer := b, f_fsize := fsize,
                  f_byte_per_sector := bps, f_count := spb, f_dv_num := p_dv_num p, f_blocks := bp\<rparr>),
                ptrs := (ptrs s)(bp \<mapsto> replicate 1024 0)\<rparr>;
      (ok, s) \<leftarrow> fat_walks rd \<lparr>g_spb = spb, g_bps = bps, g_base = rsv + hidden, g_dev = p_dv_num p\<rparr> fp bp BLK 0 index 0xFFFFFFFF s;
      s \<leftarrow> free_block BLK s;
      if ok then Some (fp, s) else do { (_, s) \<leftarrow> file_close fp s; Some (0, s) } }"

definition open_file :: "disk \<Rightarrow> u8 list \<Rightarrow> 'a file_state_scheme \<Rightarrow> (u64 \<times> 'a file_state_scheme) option" where
  "open_file rd filename s =
    do {
      (d, s) \<leftarrow> new_buf 128 s;
      let s = s\<lparr>fs_directory := d\<rparr>;
      s \<leftarrow> wr_bytes d 0 (replicate 128 0) s;
      (f, s) \<leftarrow> new_buf 0x1000 s;
      s \<leftarrow> wr_bytes f 0 (replicate 0x1000 0) s;
      let p = \<lparr>p_dv_num = ucast (dv_num s), p_start = 1\<rparr>;
      (r, s) \<leftarrow> read_super_block rd f p s;
      if r \<noteq> 0 then do { s \<leftarrow> free_block d s; s \<leftarrow> free_block f s; Some (0, s) }
      else do {
        (r, s) \<leftarrow> read_directory_entry rd d f p filename s;
        if r \<noteq> 0 then do { s \<leftarrow> free_block d s; s \<leftarrow> free_block f s; Some (0, s) }
        else do {
          (fp, s) \<leftarrow> open_file_r rd d f p s;
          s \<leftarrow> free_block d s;
          s \<leftarrow> free_block f s;
          Some (fp, s) } } }"

text \<open>\<^verbatim>\<open>addr\<close> is an \<^verbatim>\<open>int\<close> compared with an \<^verbatim>\<open>unsigned\<close>, so as an \<^verbatim>\<open>unsigned\<close>.\<close>

definition file_read_block :: "disk \<Rightarrow> u64 \<Rightarrow> u32 \<Rightarrow> 'a file_state_scheme \<Rightarrow> (int \<times> 'a file_state_scheme) option" where
  "file_read_block rd fp addr s =
    do {
      n \<leftarrow> files s fp;
      if addr \<ge> f_num_of_blocks n then Some (- 1, s)
      else do {
        bp \<leftarrow> ptrs s (f_blocks n);
        (if unat addr div 1024 < length bp then do {
           bl \<leftarrow> blks s (bp ! (unat addr div 1024));
           (if unat addr mod 1024 < length bl
            then read_sector rd (f_dv_num n) (f_count n) (ucast (bl ! (unat addr mod 1024))) (f_buffer n) s
            else None) }
         else None) } }"

section \<open>Streams\<close>

definition fopen :: "disk \<Rightarrow> u8 list \<Rightarrow> string \<Rightarrow> 'a file_state_scheme \<Rightarrow> (u64 \<times> 'a file_state_scheme) option" where
  "fopen rd path mode s =
    (if mode = [] then Some (0, s)
     else if mode_is ''std'' mode then std_open_file mode s
     else if mode_is ''pipe'' mode then pipe_open_file s
     else open_file rd path s)"

definition fclose :: "u64 \<Rightarrow> 'a file_state_scheme \<Rightarrow> (int \<times> 'a file_state_scheme) option" where
  "fclose fp s =
    (if fp = 0 then Some (- 1, s)
     else do {
       n \<leftarrow> files s fp;
       if f_flags n \<in> {1, 2, 3, 4} then std_file_close fp s else file_close fp s })"

definition rewind :: "u64 \<Rightarrow> 'a file_state_scheme \<Rightarrow> 'a file_state_scheme option" where
  "rewind fp s =
    (if fp = 0 then Some s
     else upd_file fp (\<lambda>n. n\<lparr>f_off := 0, f_off2 := 0, f_level := 0, f_flags := f_flags n AND NOT 0x10\<rparr>) s)"

text \<open>\<^verbatim>\<open>num_bytes\<close> is a \<^verbatim>\<open>long\<close>; the offsets keep its low 32 bits.\<close>

definition fseek :: "u64 \<Rightarrow> u64 \<Rightarrow> int \<Rightarrow> 'a file_state_scheme \<Rightarrow> (int \<times> 'a file_state_scheme) option" where
  "fseek fp num_bytes origin s =
    do {
      s \<leftarrow> upd_file fp (\<lambda>n.
        if origin = 0 then n\<lparr>f_off := ucast num_bytes, f_off2 := ucast num_bytes\<rparr>
        else if origin = 1 then n\<lparr>f_off := f_off n + ucast num_bytes, f_off2 := f_off2 n + ucast num_bytes\<rparr>
        else if origin = 2 then n\<lparr>f_off := f_fsize n - ucast num_bytes, f_off2 := f_fsize n - ucast num_bytes\<rparr>
        else n) s;
      n \<leftarrow> files s fp;
      if f_bsize n = 0 then None
      else do { s \<leftarrow> upd_file fp (\<lambda>n. n\<lparr>f_level := ucast (f_off n mod f_bsize n)\<rparr>) s; Some (0, s) } }"

definition ftell :: "u64 \<Rightarrow> 'a file_state_scheme \<Rightarrow> u64 option" where
  "ftell fp s = (if fp = 0 then Some 0 else do { n \<leftarrow> files s fp; Some (ucast (f_off n)) })"

definition fputc :: "u32 \<Rightarrow> u64 \<Rightarrow> 'a file_state_scheme \<Rightarrow> (u32 \<times> 'a file_state_scheme) option" where
  "fputc ch fp s = do { n \<leftarrow> files s fp; if f_flags n \<in> {2, 3, 4} then std_putc ch fp s else Some (0, s) }"

text \<open>\<^verbatim>\<open>level\<close> is incremented as a \<^verbatim>\<open>short\<close>.  A failed read of a block is ignored.\<close>

definition fgetc :: "disk \<Rightarrow> 'a file_env \<Rightarrow> u64 \<Rightarrow> 'a file_state_scheme \<Rightarrow> (int \<times> 'a file_state_scheme) option" where
  "fgetc rd env fp s =
    do {
      n \<leftarrow> files s fp;
      if f_flags n \<in> {2, 3, 4} then std_getc env fp s
      else if f_off n \<ge> f_fsize n then Some (EOF, s)
      else do {
        s \<leftarrow> (if f_flags n AND 0x10 = 0 then do {
                s \<leftarrow> upd_file fp (\<lambda>n. n\<lparr>f_flags := f_flags n OR 0x10\<rparr>) s;
                if f_bsize n = 0 then None
                else do { (_, s) \<leftarrow> file_read_block rd fp (f_off n div f_bsize n) s; Some s } }
              else Some s);
        n \<leftarrow> files s fp;
        r \<leftarrow> (if sint (f_level n) < 0 then None else rd_byte (f_buffer n) (unat (f_level n)) s);
        s \<leftarrow> upd_file fp (\<lambda>n.
          let n = n\<lparr>f_curp := f_buffer n + scast (f_level n), f_level := f_level n + 1\<rparr>;
              n = (if (scast (f_level n) :: u32) \<ge> f_bsize n then n\<lparr>f_flags := f_flags n AND NOT 0x10, f_level := 0\<rparr> else n)
          in n\<lparr>f_off := f_off n + 1\<rparr>) s;
        Some (int (unat r), s) } }"

fun fread_loop :: "disk \<Rightarrow> 'a file_env \<Rightarrow> u64 \<Rightarrow> nat \<Rightarrow> u8 list \<Rightarrow> 'a file_state_scheme \<Rightarrow> (u8 list \<times> 'a file_state_scheme) option" where
  "fread_loop rd env fp 0 acc s = Some (acc, s)"
| "fread_loop rd env fp (Suc k) acc s = do {
     (c, s) \<leftarrow> fgetc rd env fp s;
     if c = EOF then Some (acc, s) else fread_loop rd env fp k (acc @ [of_int c]) s }"

text \<open>\<^verbatim>\<open>fread\<close>: the count, the bytes stored in the buffer.  With a size of zero the final division traps.\<close>

definition fread :: "disk \<Rightarrow> 'a file_env \<Rightarrow> u32 \<Rightarrow> u32 \<Rightarrow> u64 \<Rightarrow> 'a file_state_scheme \<Rightarrow> (u32 \<times> u8 list \<times> 'a file_state_scheme) option" where
  "fread rd env sz count fp s =
    (if fp = 0 then Some (0, [], s)
     else do {
       (bs, s) \<leftarrow> fread_loop rd env fp (unat (sz * count)) [] s;
       if sz = 0 then None else Some (of_nat (length bs) div sz, bs, s) })"

section \<open>Blocks come from the heap and go back to it\<close>

lemma new_block_ok:
  assumes "heap_room (n + k) (fmm s)" and "unat (pages_of sz) = n" "0 < n"
  obtains a mm where "new_block sz s = Some (a, s\<lparr>fmm := mm\<rparr>)" "a \<noteq> 0" "a \<notin> live_blocks (fmm s)"
    "live_blocks mm = insert a (live_blocks (fmm s))" "heap_room k mm"
proof -
  obtain a mm where "malloc sz (fmm s) = Some (Some a, mm)" "a \<noteq> 0" "a \<notin> live_blocks (fmm s)"
    "live_blocks mm = insert a (live_blocks (fmm s))" "heap_room k mm"
    by (rule room_malloc [OF assms])
  then show ?thesis using that [of a mm] by (simp add: new_block_def)
qed

lemma free_block_ok:
  assumes "heap_room k (fmm s)" and "a \<in> live_blocks (fmm s)"
  obtains mm where "free_block a s = Some (s\<lparr>fmm := mm, files := (files s)(a := None), bufs := (bufs s)(a := None),
             ptrs := (ptrs s)(a := None), blks := (blks s)(a := None)\<rparr>)"
    "live_blocks mm = live_blocks (fmm s) - {a}" "heap_room k mm"
proof -
  obtain mm where "free a (fmm s) = Some mm" "live_blocks mm = live_blocks (fmm s) - {a}" "heap_room k mm"
    by (rule room_free [OF assms])
  then show ?thesis using that [of mm] by (simp add: free_block_def)
qed

end
