(* ===== verification/Fileprops.thy ===== *)
theory Fileprops
  imports File Kroom
begin

text \<open>
  What the streams guarantee: a pipe is a queue of messages, and reading an open disk file yields its
  contents.
\<close>

section \<open>Queues of messages\<close>

text \<open>The contract of a bounded queue: \<open>put\<close> appends while there is room, \<open>get\<close> removes the oldest message
  while there is one.\<close>

locale message_queue =
  fixes ok :: "'s \<Rightarrow> bool" and queue :: "'s \<Rightarrow> 'm list" and room :: "'s \<Rightarrow> nat"
    and put :: "'m \<Rightarrow> 's \<Rightarrow> 's option" and get :: "'s \<Rightarrow> ('m \<times> 's) option" and fit :: "'m \<Rightarrow> bool"
  assumes put_queue: "ok s \<Longrightarrow> 0 < room s \<Longrightarrow> fit x \<Longrightarrow>
      \<exists>s'. put x s = Some s' \<and> ok s' \<and> queue s' = queue s @ [x] \<and> room s' = room s - 1"
    and get_queue: "ok s \<Longrightarrow> queue s = x # xs \<Longrightarrow> \<exists>s'. get s = Some (x, s') \<and> ok s' \<and> queue s' = xs \<and> room s' = room s"
begin

fun put_all :: "'m list \<Rightarrow> 's \<Rightarrow> 's option" where
  "put_all [] s = Some s"
| "put_all (x # xs) s = (case put x s of None \<Rightarrow> None | Some s \<Rightarrow> put_all xs s)"

fun get_all :: "nat \<Rightarrow> 's \<Rightarrow> ('m list \<times> 's) option" where
  "get_all 0 s = Some ([], s)"
| "get_all (Suc n) s = (case get s of None \<Rightarrow> None | Some (x, s) \<Rightarrow> map_option (\<lambda>(xs, s). (x # xs, s)) (get_all n s))"

lemma put_all_queue:
  "ok s \<Longrightarrow> length xs \<le> room s \<Longrightarrow> \<forall>x \<in> set xs. fit x \<Longrightarrow>
     \<exists>s'. put_all xs s = Some s' \<and> ok s' \<and> queue s' = queue s @ xs \<and> room s' = room s - length xs"
proof (induction xs arbitrary: s)
  case (Cons x xs)
  then obtain s1 where s1: "put x s = Some s1" "ok s1" "queue s1 = queue s @ [x]" "room s1 = room s - 1"
    using put_queue [of s x] by auto
  with Cons.IH [of s1] Cons.prems show ?case by auto
qed simp

lemma get_all_queue:
  "ok s \<Longrightarrow> queue s = xs @ ys \<Longrightarrow> \<exists>s'. get_all (length xs) s = Some (xs, s') \<and> ok s' \<and> queue s' = ys"
proof (induction xs arbitrary: s)
  case (Cons x xs)
  then obtain s1 where s1: "get s = Some (x, s1)" "ok s1" "queue s1 = xs @ ys"
    using get_queue [of s x "xs @ ys"] by auto
  with Cons.IH [of s1] show ?case by auto
qed simp

lemma fifo:
  assumes "ok s" and "queue s = []" and "length xs \<le> room s" and "\<forall>x \<in> set xs. fit x"
  shows "\<exists>s' s''. put_all xs s = Some s' \<and> get_all (length xs) s' = Some (xs, s'') \<and> queue s'' = [] \<and> ok s''"
  using put_all_queue [OF assms(1,3,4)] get_all_queue [of _ xs "[]"] assms(2) by fastforce

end

section \<open>Pipes\<close>

text \<open>Slot \<open>k\<close> of the buffer, and a pipe whose writer is at slot \<open>i\<close> and reader at slot \<open>j\<close>.\<close>

definition slot :: "nat \<Rightarrow> u8 list \<Rightarrow> u8 list" where
  "slot k b = take 16 (drop (16 * k) b)"

definition pipe :: "'a file_state_scheme \<Rightarrow> u64 \<Rightarrow> FILE \<Rightarrow> nat \<Rightarrow> nat \<Rightarrow> u8 list \<Rightarrow> bool" where
  "pipe s fp n i j b \<longleftrightarrow> fp \<noteq> 0 \<and> files s fp = Some n \<and> f_bsize n = 8192 \<and> f_level n = 0 \<and>
     f_off n = of_nat (16 * i) \<and> f_off2 n = of_nat (16 * j) \<and> i \<le> 512 \<and> j \<le> 512 \<and>
     bufs s (f_buffer n) = Some b \<and> length b = 8192"

lemma unat_off: "k \<le> 512 \<Longrightarrow> unat (of_nat (16 * k) :: u32) = 16 * k"
  by (rule unat_of_nat_small) simp

lemma off_ge: "k \<le> 512 \<Longrightarrow> 8192 \<le> (of_nat (16 * k) :: u32) \<longleftrightarrow> k = 512"
  by (simp only: word_le_nat_alt unat_off) auto

lemma off_eq: "i \<le> 512 \<Longrightarrow> j \<le> 512 \<Longrightarrow> (of_nat (16 * i) :: u32) = of_nat (16 * j) \<longleftrightarrow> i = j"
  by (simp only: word_unat_eq_iff unat_off) simp

lemma off_eq_le: "(x :: u32) \<le> y \<and> y \<le> x \<longleftrightarrow> x = y"
  by auto

lemma slot_write:
  assumes "length b = 8192" and "length x = 16" and "i < 512" and "k < 512"
  shows "slot k (take (16 * i) b @ x @ drop (16 * i + 16) b) = (if k = i then x else slot k b)"
proof -
  consider "k < i" | "k = i" | "i < k" by linarith
  then show ?thesis
  proof cases
    case 1
    then have "16 * k + 16 \<le> 16 * i" by simp
    then show ?thesis using 1 assms by (simp add: slot_def take_drop min_def)
  next
    case 2
    then show ?thesis using assms by (simp add: slot_def)
  next
    case 3
    then obtain d where "k = Suc (i + d)" using less_imp_Suc_add by blast
    then show ?thesis using assms by (simp add: slot_def algebra_simps)
  qed
qed


lemma pipe_write_slot:
  assumes p: "pipe s fp n i j b" and i: "i < 512" and x: "length x = 16"
  shows "\<exists>s' n'. pipe_write x fp s = Some (16, s') \<and> pipe s' fp n' (Suc i) j (take (16 * i) b @ x @ drop (16 * i + 16) b)"
proof -
  let ?b = "take (16 * i) b @ x @ drop (16 * i + 16) b"
  have f: "fp \<noteq> 0" "files s fp = Some n" "f_bsize n = 8192" "f_level n = 0" "f_off n = of_nat (16 * i)"
    "bufs s (f_buffer n) = Some b" "length b = 8192" using p by (simp_all add: pipe_def)
  have u: "unat (of_nat (16 * i) :: u32) = 16 * i" using i by (intro unat_off) simp
  have "\<not> 8192 \<le> (of_nat (16 * i) :: u32)" using off_ge [of i] i by simp
  then have w: "wrap_off n = n" using f by (simp add: wrap_off_def)
  let ?n = "n\<lparr>f_curp := f_buffer n + ucast (f_off n) + 15, f_off := f_off n + 16, f_fsize := f_fsize n + 16\<rparr>"
  let ?s = "s\<lparr>bufs := (bufs s)(f_buffer n \<mapsto> ?b), files := (files s)(fp \<mapsto> ?n)\<rparr>"
  have l: "16 * i + 16 \<le> 8192" using i by simp
  have "pipe_write x fp s = Some (16, ?s)"
    using f u x l by (simp add: pipe_write_def upd_file_def w wr_bytes_def)
  moreover have "pipe ?s fp ?n (Suc i) j ?b"
    using p i x l by (simp add: pipe_def)
  ultimately show ?thesis by blast
qed

lemma wait_ready: "files s fp = Some n \<Longrightarrow> f_off n \<noteq> f_off2 n \<Longrightarrow> wait_data env fp k s = Some s"
  by (auto simp: wait_data.simps [of env fp k s])

lemma pipe_read_slot:
  assumes p: "pipe s fp n i j b" and j: "j < 512" "i \<noteq> j"
  shows "\<exists>s' n'. pipe_read env fp s = Some (16, slot j b, s') \<and> pipe s' fp n' i (Suc j) b"
proof -
  have f: "fp \<noteq> 0" "files s fp = Some n" "f_bsize n = 8192" "f_off n = of_nat (16 * i)" "f_off2 n = of_nat (16 * j)"
    "bufs s (f_buffer n) = Some b" "length b = 8192" "i \<le> 512" using p by (simp_all add: pipe_def)
  have u: "unat (of_nat (16 * j) :: u32) = 16 * j" using j by (intro unat_off) simp
  have "\<not> 8192 \<le> (of_nat (16 * j) :: u32)" using off_ge [of j] j by simp
  then have w: "wrap_off2 n = n" using f by (simp add: wrap_off2_def)
  have ne: "f_off n \<noteq> f_off2 n" using off_eq [of i j] f j by simp
  have id: "s\<lparr>files := (files s)(fp \<mapsto> n)\<rparr> = s" using f(2) by (simp add: fun_upd_idem)
  let ?n = "n\<lparr>f_curp := f_buffer n + ucast (f_off2 n) + 15, f_off2 := f_off2 n + 16\<rparr>"
  let ?s = "s\<lparr>files := (files s)(fp \<mapsto> ?n)\<rparr>"
  have l: "16 * j + 16 \<le> 8192" using j by simp
  have "pipe_read env fp s = Some (16, slot j b, ?s)"
    using f u l ne by (simp add: pipe_read_def upd_file_def w id wait_ready slot_def)
  moreover have "pipe ?s fp ?n i (Suc j) b" using p j by (simp add: pipe_def)
  ultimately show ?thesis by blast
qed

text \<open>The queue of a pipe between two wraps: the messages the reader has not seen.\<close>

definition pipe_ok :: "u64 \<Rightarrow> 'a file_state_scheme \<Rightarrow> bool" where
  "pipe_ok fp s \<longleftrightarrow> (\<exists>n i j b. pipe s fp n i j b \<and> j \<le> i)"

definition pipe_index :: "(FILE \<Rightarrow> u32) \<Rightarrow> u64 \<Rightarrow> 'a file_state_scheme \<Rightarrow> nat" where
  "pipe_index off fp s = unat (off (the (files s fp))) div 16"

definition pipe_queue :: "u64 \<Rightarrow> 'a file_state_scheme \<Rightarrow> u8 list list" where
  "pipe_queue fp s = map (\<lambda>k. slot k (the (bufs s (f_buffer (the (files s fp)))))) [pipe_index f_off2 fp s..<pipe_index f_off fp s]"

definition pipe_room :: "u64 \<Rightarrow> 'a file_state_scheme \<Rightarrow> nat" where
  "pipe_room fp s = 512 - pipe_index f_off fp s"

lemma pipe_view:
  assumes "pipe s fp n i j b"
  shows "pipe_queue fp s = map (\<lambda>k. slot k b) [j..<i]" and "pipe_room fp s = 512 - i"
proof -
  from assms have "pipe_index f_off fp s = i" "pipe_index f_off2 fp s = j"
    using unat_off [of i] unat_off [of j] by (simp_all add: pipe_def pipe_index_def del: of_nat_mult of_nat_numeral)
  with assms show "pipe_queue fp s = map (\<lambda>k. slot k b) [j..<i]" "pipe_room fp s = 512 - i"
    by (simp_all add: pipe_queue_def pipe_room_def pipe_def)
qed

lemma pipe_okI: "pipe s fp n i j b \<Longrightarrow> j \<le> i \<Longrightarrow> pipe_ok fp s"
  unfolding pipe_ok_def by blast

lemma pipe_put:
  assumes "pipe_ok fp s" and "0 < pipe_room fp s" and "length x = 16"
  shows "\<exists>s'. pipe_write x fp s = Some (16, s') \<and> pipe_ok fp s' \<and> pipe_queue fp s' = pipe_queue fp s @ [x] \<and> pipe_room fp s' = pipe_room fp s - 1"
proof -
  obtain n i j b where p: "pipe s fp n i j b" and ji: "j \<le> i" using assms(1) by (auto simp: pipe_ok_def)
  have i: "i < 512" using assms(2) pipe_view(2) [OF p] by simp
  obtain s' n' where s': "pipe_write x fp s = Some (16, s')" "pipe s' fp n' (Suc i) j (take (16 * i) b @ x @ drop (16 * i + 16) b)"
    using pipe_write_slot [OF p i assms(3)] by blast
  have "length b = 8192" using p by (simp add: pipe_def)
  then have "map (\<lambda>k. slot k (take (16 * i) b @ x @ drop (16 * i + 16) b)) [j..<Suc i] = map (\<lambda>k. slot k b) [j..<i] @ [x]"
    using ji i assms(3) by (simp add: slot_write)
  with s'(1) ji show ?thesis using pipe_view [OF p] pipe_view [OF s'(2)] pipe_okI [OF s'(2)] by auto
qed

lemma pipe_get:
  assumes "pipe_ok fp s" and "pipe_queue fp s = x # xs"
  shows "\<exists>s'. pipe_read env fp s = Some (16, x, s') \<and> pipe_ok fp s' \<and> pipe_queue fp s' = xs \<and> pipe_room fp s' = pipe_room fp s"
proof -
  obtain n i j b where p: "pipe s fp n i j b" and ji: "j \<le> i" using assms(1) by (auto simp: pipe_ok_def)
  have "map (\<lambda>k. slot k b) [j..<i] = x # xs" using assms(2) pipe_view(1) [OF p] by simp
  then have lt: "j < i" and x: "x = slot j b" "xs = map (\<lambda>k. slot k b) [Suc j..<i]"
    by (cases "j < i"; simp add: upt_conv_Cons)+
  have "i \<le> 512" using p by (simp add: pipe_def)
  then obtain s' n' where s': "pipe_read env fp s = Some (16, slot j b, s')" "pipe s' fp n' i (Suc j) b"
    using pipe_read_slot [OF p, of env] lt by auto
  with x lt show ?thesis using pipe_view [OF p] pipe_view [OF s'(2)] pipe_okI [OF s'(2)] by auto
qed

definition pipe_put_op :: "u64 \<Rightarrow> u8 list \<Rightarrow> 'a file_state_scheme \<Rightarrow> 'a file_state_scheme option" where
  "pipe_put_op fp x s = map_option snd (pipe_write x fp s)"

definition pipe_get_op :: "'a file_env \<Rightarrow> u64 \<Rightarrow> 'a file_state_scheme \<Rightarrow> (u8 list \<times> 'a file_state_scheme) option" where
  "pipe_get_op env fp s = map_option snd (pipe_read env fp s)"

interpretation pq: message_queue "pipe_ok fp" "pipe_queue fp" "pipe_room fp" "pipe_put_op fp" "pipe_get_op env fp" "\<lambda>x. length x = 16"
  for fp :: u64 and env :: "'a file_env"
proof
  show "\<exists>s'. pipe_put_op fp x s = Some s' \<and> pipe_ok fp s' \<and> pipe_queue fp s' = pipe_queue fp s @ [x] \<and> pipe_room fp s' = pipe_room fp s - 1"
    if "pipe_ok fp s" "0 < pipe_room fp s" "length x = 16" for x and s :: "'a file_state_scheme"
    using pipe_put [OF that] by (auto simp: pipe_put_op_def)
  show "\<exists>s'. pipe_get_op env fp s = Some (x, s') \<and> pipe_ok fp s' \<and> pipe_queue fp s' = xs \<and> pipe_room fp s' = pipe_room fp s"
    if "pipe_ok fp s" "pipe_queue fp s = x # xs" for x xs and s :: "'a file_state_scheme"
    using pipe_get [OF that, of env] by (auto simp: pipe_get_op_def)
qed


text \<open>Several writes, and several reads.\<close>

fun pipe_write_all :: "u8 list list \<Rightarrow> u64 \<Rightarrow> 'a file_state_scheme \<Rightarrow> 'a file_state_scheme option" where
  "pipe_write_all [] fp s = Some s"
| "pipe_write_all (x # xs) fp s = (case pipe_write x fp s of None \<Rightarrow> None | Some (_, s) \<Rightarrow> pipe_write_all xs fp s)"

fun pipe_read_all :: "'a file_env \<Rightarrow> nat \<Rightarrow> u64 \<Rightarrow> 'a file_state_scheme \<Rightarrow> (u8 list list \<times> 'a file_state_scheme) option" where
  "pipe_read_all env 0 fp s = Some ([], s)"
| "pipe_read_all env (Suc n) fp s =
     (case pipe_read env fp s of
        None \<Rightarrow> None
      | Some (_, x, s) \<Rightarrow> map_option (\<lambda>(xs, s). (x # xs, s)) (pipe_read_all env n fp s))"

lemma pipe_write_all_put: "pipe_write_all xs fp s = pq.put_all fp xs s"
  by (induction xs arbitrary: s) (auto simp: pipe_put_op_def split: option.split)

lemma pipe_read_all_get: "pipe_read_all env n fp s = pq.get_all env fp n s"
  by (induction n arbitrary: s) (auto simp: pipe_get_op_def split: option.split)

text \<open>C25: a pipe is a first-in first-out queue of 16-byte messages: from an empty pipe whose writer is at
  slot \<open>i\<close>, up to \<open>512 - i\<close> messages can be written, and as many reads return them in order, without
  waiting, and leave the pipe empty.\<close>

theorem pipe_fifo:
  assumes "pipe s fp n i i b" and "i + length xs \<le> 512" and "\<forall>x \<in> set xs. length x = 16"
  shows "\<exists>s' s''. pipe_write_all xs fp s = Some s' \<and> pipe_read_all env (length xs) fp s' = Some (xs, s'') \<and>
    pipe_queue fp s'' = []"
proof -
  have "pipe_ok fp s" "pipe_queue fp s = []" "length xs \<le> pipe_room fp s"
    using pipe_view [OF assms(1)] pipe_okI [OF assms(1)] assms(2) by simp_all
  from pq.fifo [OF this assms(3), of env] show ?thesis
    by (simp only: pipe_write_all_put pipe_read_all_get) blast
qed

definition file_zero :: file_state where
  "file_zero = \<lparr>fmm = mm_boot mm_zero, files = [4096 \<mapsto> FILE_zero\<lparr>f_bsize := 8192, f_buffer := 8192, f_mode := 2, f_flags := 1\<rparr>],
     bufs = [8192 \<mapsto> replicate 8192 0], ptrs = Map.empty, blks = Map.empty, junk = (\<lambda>_ _. 0),
     std_in = 0, std_out = 0, std_err = 0, fs_directory = 0, dv_num = 0\<rparr>"

lemma file_zero_pipe: "pipe file_zero 4096 (FILE_zero\<lparr>f_bsize := 8192, f_buffer := 8192, f_mode := 2, f_flags := 1\<rparr>) 0 0 (replicate 8192 0)"
  by (simp add: pipe_def file_zero_def FILE_zero_def)

theorem pipe_fifo_witness:
  "\<exists>s' s''. pipe_write_all [replicate 16 1, replicate 16 2] 4096 file_zero = Some s' \<and>
     pipe_read_all (\<lambda>_ s. s) 2 4096 s' = Some ([replicate 16 1, replicate 16 2], s'')"
  using pipe_fifo [OF file_zero_pipe, of "[replicate 16 1, replicate 16 2]" "\<lambda>_ s. s"] by (auto simp: numeral_2_eq_2)

text \<open>after exactly 512 messages have been written and read, a further read does not wait for the
  next message: the reader wraps its offset to 0, which now differs from the writer's, and the first
  message of the buffer is returned a second time.\<close>

lemma pipe_read_stale:
  assumes "pipe s fp n 512 512 b"
  shows "\<exists>s'. pipe_read env fp s = Some (16, slot 0 b, s')"
proof -
  have f: "fp \<noteq> 0" "files s fp = Some n" "f_bsize n = 8192" "f_off n = 8192" "f_off2 n = 8192"
    "bufs s (f_buffer n) = Some b" "length b = 8192" using assms by (simp_all add: pipe_def)
  have w: "wrap_off2 n = n\<lparr>f_off2 := 0\<rparr>" using f by (simp add: wrap_off2_def)
  show ?thesis
    using f by (simp add: pipe_read_def upd_file_def w wait_ready slot_def)
qed


section \<open>Reading a disk file\<close>

lemma nth_concat_uniform:
  "\<forall>d \<in> set ds. length d = k \<Longrightarrow> i < length ds * k \<Longrightarrow> concat ds ! i = ds ! (i div k) ! (i mod k)"
proof (induction ds arbitrary: i)
  case (Cons d ds)
  show ?case
  proof (cases "i < k")
    case True
    with Cons.prems show ?thesis by (simp add: nth_append)
  next
    case False
    then have "concat (d # ds) ! i = concat ds ! (i - k)" using Cons.prems by (simp add: nth_append)
    also have "\<dots> = ds ! ((i - k) div k) ! ((i - k) mod k)" using Cons.prems False by (intro Cons.IH) auto
    also have "\<dots> = (d # ds) ! (i div k) ! (i mod k)"
    proof -
      have "0 < k" using Cons.prems False by (cases k) auto
      then show ?thesis using False le_div_geq [of k i] le_mod_geq [of k i] by simp
    qed
    finally show ?thesis .
  qed
qed simp

lemma length_concat_uniform: "\<forall>d \<in> set ds. length d = k \<Longrightarrow> length (concat ds) = length ds * k"
  by (induction ds) auto

text \<open>An open file whose block table leads to the blocks \<open>ds\<close> on the disk, positioned at byte \<open>p\<close>.\<close>

definition disk_file :: "disk \<Rightarrow> 'a file_state_scheme \<Rightarrow> FILE \<Rightarrow> u8 list list \<Rightarrow> nat \<Rightarrow> bool" where
  "disk_file rd s n ds bs \<longleftrightarrow> unat (f_bsize n) = bs \<and> 0 < bs \<and> bs \<le> 8192 \<and> f_num_of_blocks n = of_nat (length ds) \<and>
     length ds < 2 ^ 32 \<and> (\<forall>d \<in> set ds. length d = bs) \<and> unat (f_fsize n) \<le> length ds * bs \<and>
     (\<exists>bp. ptrs s (f_blocks n) = Some bp \<and>
       (\<forall>k < length ds. k div 1024 < length bp \<and> (\<exists>bl. blks s (bp ! (k div 1024)) = Some bl \<and> k mod 1024 < length bl \<and>
          rd (f_dv_num n) (f_count n) (ucast (bl ! (k mod 1024))) = (0, ds ! k)))) \<and>
     (\<exists>b. bufs s (f_buffer n) = Some b \<and> length b = 8192)"

definition reading :: "disk \<Rightarrow> 'a file_state_scheme \<Rightarrow> u64 \<Rightarrow> FILE \<Rightarrow> u8 list list \<Rightarrow> nat \<Rightarrow> nat \<Rightarrow> bool" where
  "reading rd s fp n ds bs p \<longleftrightarrow> fp \<noteq> 0 \<and> files s fp = Some n \<and> disk_file rd s n ds bs \<and> p \<le> unat (f_fsize n) \<and>
     f_off n = of_nat p \<and> f_level n = of_nat (p mod bs) \<and> f_flags n = (if p mod bs = 0 then 0 else 0x10) \<and>
     (p mod bs \<noteq> 0 \<longrightarrow> (\<exists>b. bufs s (f_buffer n) = Some b \<and> take bs b = ds ! (p div bs)))"

lemma read_block:
  assumes "disk_file rd s n ds bs" and "files s fp = Some n" and "k < length ds"
  shows "\<exists>b. file_read_block rd fp (of_nat k) s = Some (0, s\<lparr>bufs := (bufs s)(f_buffer n \<mapsto> b)\<rparr>) \<and> length b = 8192 \<and> take bs b = ds ! k"
proof -
  from assms(1) obtain bp b where bp: "ptrs s (f_blocks n) = Some bp" "k div 1024 < length bp"
    and b: "bufs s (f_buffer n) = Some b" "length b = 8192" and l: "length (ds ! k) = bs" "bs \<le> 8192"
    and tab: "\<exists>bl. blks s (bp ! (k div 1024)) = Some bl \<and> k mod 1024 < length bl \<and>
          rd (f_dv_num n) (f_count n) (ucast (bl ! (k mod 1024))) = (0, ds ! k)"
    using assms(3) by (fastforce simp: disk_file_def)
  from tab obtain bl where bl: "blks s (bp ! (k div 1024)) = Some bl" "k mod 1024 < length bl"
    "rd (f_dv_num n) (f_count n) (ucast (bl ! (k mod 1024))) = (0, ds ! k)" by blast
  have len: "length ds < 2 ^ 32" "f_num_of_blocks n = of_nat (length ds)" using assms(1) by (simp_all add: disk_file_def)
  have u: "unat (of_nat k :: u32) = k" using assms(3) len by (intro unat_of_nat_small) simp
  have "unat (of_nat (length ds) :: u32) = length ds" using len by (intro unat_of_nat_small) simp
  then have lt: "\<not> f_num_of_blocks n \<le> of_nat k" using assms(3) by (simp add: len(2) word_le_nat_alt u)
  have "file_read_block rd fp (of_nat k) s = Some (0, s\<lparr>bufs := (bufs s)(f_buffer n \<mapsto> ds ! k @ drop bs b)\<rparr>)"
    using assms(2) lt bp bl b l by (simp add: file_read_block_def u read_sector_def wr_bytes_def)
  then show ?thesis using b l by auto
qed

lemma disk_file_cong:
  assumes "disk_file rd s n ds bs" and "f_bsize n' = f_bsize n" "f_num_of_blocks n' = f_num_of_blocks n" "f_fsize n' = f_fsize n"
    "f_blocks n' = f_blocks n" "f_dv_num n' = f_dv_num n" "f_count n' = f_count n"
    and "ptrs s' = ptrs s" "blks s' = blks s" and "bufs s' (f_buffer n') = Some b" "length b = 8192"
  shows "disk_file rd s' n' ds bs"
  using assms unfolding disk_file_def by simp

text \<open>The buffer holds the block of the current byte before the byte is read.\<close>

lemma fgetc_block:
  assumes r: "reading rd s fp n ds bs p" and p: "p < unat (f_fsize n)"
  shows "\<exists>s1 b. (if f_flags n AND 0x10 = 0 then do {
                s \<leftarrow> upd_file fp (\<lambda>n. n\<lparr>f_flags := f_flags n OR 0x10\<rparr>) s;
                if f_bsize n = 0 then None
                else do { (_, s) \<leftarrow> file_read_block rd fp (f_off n div f_bsize n) s; Some s } }
              else Some s) = Some s1 \<and> files s1 fp = Some (n\<lparr>f_flags := 0x10\<rparr>) \<and> bufs s1 (f_buffer n) = Some b \<and>
     length b = 8192 \<and> take bs b = ds ! (p div bs) \<and> ptrs s1 = ptrs s \<and> blks s1 = blks s"
proof -
  have f: "files s fp = Some n" "f_off n = of_nat p" "f_flags n = (if p mod bs = 0 then 0 else 0x10)"
    and df: "disk_file rd s n ds bs" using r by (simp_all add: reading_def)
  have bs: "unat (f_bsize n) = bs" "0 < bs" "unat (f_fsize n) \<le> length ds * bs"
    using df by (simp_all add: disk_file_def)
  obtain b where b: "bufs s (f_buffer n) = Some b" "length b = 8192" using df by (auto simp: disk_file_def)
  show ?thesis
  proof (cases "p mod bs = 0")
    case False
    then obtain b where "bufs s (f_buffer n) = Some b" "take bs b = ds ! (p div bs)" using r by (auto simp: reading_def)
    moreover have "n\<lparr>f_flags := 0x10\<rparr> = n" using f(3) False by simp
    ultimately show ?thesis using f b False by simp
  next
    case True
    have k: "p div bs < length ds" using p bs by (simp add: less_mult_imp_div_less)
    have up: "unat (of_nat p :: u32) = p" using p unat_u32 [of "f_fsize n"] by (intro unat_of_nat_small) simp
    have "p div bs < 2 ^ 32" using p unat_u32 [of "f_fsize n"] by (intro le_less_trans [OF div_le_dividend]) simp
    then have "unat (of_nat (p div bs) :: u32) = p div bs" by (intro unat_of_nat_small) simp
    then have off: "f_off n div f_bsize n = of_nat (p div bs)"
      by (simp add: word_unat_eq_iff unat_div f(2) up bs(1))
    let ?n = "n\<lparr>f_flags := 0x10\<rparr>" and ?s = "s\<lparr>files := (files s)(fp \<mapsto> n\<lparr>f_flags := 0x10\<rparr>)\<rparr>"
    have "disk_file rd ?s ?n ds bs" by (rule disk_file_cong [OF df]) (use b in simp_all)
    from read_block [OF this _ k, of fp] obtain b' where b': "file_read_block rd fp (of_nat (p div bs)) ?s = Some (0, ?s\<lparr>bufs := (bufs s)(f_buffer n \<mapsto> b')\<rparr>)"
      "length b' = 8192" "take bs b' = ds ! (p div bs)" by auto
    have "f_bsize n \<noteq> 0" using bs by auto
    moreover have "f_flags n = 0" using f(3) True by simp
    ultimately show ?thesis using f(1) b' by (simp add: upd_file_def off)
  qed
qed

lemma level_word: "k \<le> 8192 \<Longrightarrow> (scast (of_nat k :: u16) :: u32) = of_nat k" "k \<le> 8192 \<Longrightarrow> sint (of_nat k :: u16) = int k"
  "k \<le> 8192 \<Longrightarrow> unat (of_nat k :: u16) = k"
proof -
  assume k: "k \<le> 8192"
  show u: "unat (of_nat k :: u16) = k" using k by (intro unat_of_nat_small) simp
  show s: "sint (of_nat k :: u16) = int k" using sint_small [of "of_nat k :: u16"] u k by simp
  have "scast (of_nat k :: u16) = (word_of_int (sint (of_nat k :: u16)) :: u32)" by (rule scast_eq)
  then show "(scast (of_nat k :: u16) :: u32) = of_nat k" by (simp add: s)
qed

lemma fgetc_step:
  assumes r: "reading rd s fp n ds bs p" and p: "p < unat (f_fsize n)"
  shows "\<exists>s' n'. fgetc rd env fp s = Some (int (unat (concat ds ! p)), s') \<and> reading rd s' fp n' ds bs (Suc p) \<and> f_fsize n' = f_fsize n"
proof -
  have f: "files s fp = Some n" "fp \<noteq> 0" "f_off n = of_nat p" "f_level n = of_nat (p mod bs)" "f_flags n = (if p mod bs = 0 then 0 else 0x10)"
    and df: "disk_file rd s n ds bs" using r by (simp_all add: reading_def)
  have bs: "unat (f_bsize n) = bs" "0 < bs" "bs \<le> 8192" "\<forall>d \<in> set ds. length d = bs" "unat (f_fsize n) \<le> length ds * bs"
    using df by (simp_all add: disk_file_def)
  have up: "unat (of_nat p :: u32) = p" using p unat_u32 [of "f_fsize n"] by (intro unat_of_nat_small) simp
  have notend: "\<not> f_fsize n \<le> f_off n" using p by (simp add: f(3) word_le_nat_alt up)
  have mode: "f_flags n \<notin> {2, 3, 4}" by (simp add: f(5))
  obtain s1 b where s1: "(if f_flags n AND 0x10 = 0 then do {
                s \<leftarrow> upd_file fp (\<lambda>n. n\<lparr>f_flags := f_flags n OR 0x10\<rparr>) s;
                if f_bsize n = 0 then None
                else do { (_, s) \<leftarrow> file_read_block rd fp (f_off n div f_bsize n) s; Some s } }
              else Some s) = Some s1" and n1: "files s1 fp = Some (n\<lparr>f_flags := 0x10\<rparr>)" and b: "bufs s1 (f_buffer n) = Some b"
     "length b = 8192" "take bs b = ds ! (p div bs)" and same: "ptrs s1 = ptrs s" "blks s1 = blks s"
    using fgetc_block [OF r p] by blast
  let ?q = "p mod bs"
  have q: "?q < bs" "?q \<le> 8192" "Suc ?q \<le> 8192" using bs mod_less_divisor [OF bs(2), of p] by linarith+
  have lv: "sint (f_level n) = int ?q" "unat (f_level n) = ?q" "(scast (f_level n + 1) :: u32) = of_nat (Suc ?q)"
    using level_word(2,3) [OF q(2)] level_word(1) [OF q(3)] by (simp_all add: f(4) add.commute)
  have ge: "f_bsize n \<le> of_nat (Suc ?q) \<longleftrightarrow> Suc ?q = bs"
  proof -
    have "unat (of_nat (Suc ?q) :: u32) = Suc ?q" using q by (intro unat_of_nat_small) simp
    then show ?thesis using bs(1) q(1) by (simp only: word_le_nat_alt) linarith
  qed
  have ge2: "f_bsize n \<le> 1 + of_nat ?q \<longleftrightarrow> Suc ?q = bs" using ge by simp
  have byte: "b ! ?q = concat ds ! p"
    using nth_concat_uniform [OF bs(4), of p] p bs(5) b(3) q(1) by (metis less_le_trans nth_take)
  define n2 where "n2 = (let m = n\<lparr>f_flags := 0x10, f_curp := f_buffer n + scast (f_level n), f_level := f_level n + 1\<rparr>;
              m = (if Suc ?q = bs then m\<lparr>f_flags := 0x10 AND NOT 0x10, f_level := 0\<rparr> else m)
          in m\<lparr>f_off := f_off n + 1\<rparr>)"
  let ?s = "s1\<lparr>files := (files s1)(fp \<mapsto> n2)\<rparr>"
  have "fgetc rd env fp s = Some (int (unat (concat ds ! p)), ?s)"
    unfolding fgetc_def f(1) Option.bind.bind_lunit using mode notend s1 n1 lv b q
    by (simp add: rd_byte_def upd_file_def byte n2_def Let_def ge2)
  moreover have "reading rd ?s fp n2 ds bs (Suc p)"
  proof -
    have fl: "f_bsize n2 = f_bsize n" "f_num_of_blocks n2 = f_num_of_blocks n" "f_fsize n2 = f_fsize n" "f_blocks n2 = f_blocks n"
      "f_dv_num n2 = f_dv_num n" "f_count n2 = f_count n" "f_buffer n2 = f_buffer n" "f_off n2 = of_nat (Suc p)"
      "f_level n2 = of_nat (Suc p mod bs)" "f_flags n2 = (if Suc p mod bs = 0 then 0 else 0x10)"
      by (simp_all add: n2_def Let_def f(3,4) mod_Suc)
    have "disk_file rd ?s n2 ds bs" by (rule disk_file_cong [OF df]) (use fl b same in simp_all)
    moreover have "Suc p mod bs \<noteq> 0 \<Longrightarrow> Suc p div bs = p div bs" by (auto simp: mod_Suc div_Suc split: if_splits)
    ultimately show ?thesis unfolding reading_def fl using f(2) p b fl by auto
  qed
  moreover have "f_fsize n2 = f_fsize n" by (simp add: n2_def Let_def)
  ultimately show ?thesis by blast
qed


lemma fgetc_end:
  assumes "reading rd s fp n ds bs p" and "p = unat (f_fsize n)"
  shows "fgetc rd env fp s = Some (- 1, s)"
  using assms by (auto simp: reading_def fgetc_def)

lemma fread_loop_contents:
  assumes "reading rd s fp n ds bs p"
  shows "\<exists>s' n'. fread_loop rd env fp k acc s = Some (acc @ take k (drop p (take (unat (f_fsize n)) (concat ds))), s') \<and>
    reading rd s' fp n' ds bs (min (p + k) (unat (f_fsize n))) \<and> f_fsize n' = f_fsize n"
  using assms
proof (induction k arbitrary: acc s n p)
  case 0
  then have "min p (unat (f_fsize n)) = p" by (simp add: reading_def)
  with 0 show ?case by auto
next
  case (Suc k)
  have len: "length (concat ds) = length ds * bs" "unat (f_fsize n) \<le> length ds * bs"
    using Suc.prems length_concat_uniform [of ds bs] by (simp_all add: reading_def disk_file_def)
  show ?case
  proof (cases "p < unat (f_fsize n)")
    case True
    obtain s1 n1 where s1: "fgetc rd env fp s = Some (int (unat (concat ds ! p)), s1)" "reading rd s1 fp n1 ds bs (Suc p)" "f_fsize n1 = f_fsize n"
      using fgetc_step [OF Suc.prems True, of env] by blast
    have "drop p (take (unat (f_fsize n)) (concat ds)) = concat ds ! p # drop (Suc p) (take (unat (f_fsize n)) (concat ds))"
      using True len by (subst Cons_nth_drop_Suc [symmetric]) simp_all
    moreover have "uint (concat ds ! p) \<noteq> - 1" using unsigned_greater_eq [where 'a = int and w = "concat ds ! p"] by linarith
    ultimately show ?thesis using Suc.IH [OF s1(2), of "acc @ [concat ds ! p]"] s1 by simp
  next
    case False
    then have "p = unat (f_fsize n)" using Suc.prems by (simp add: reading_def)
    moreover from this have "fgetc rd env fp s = Some (- 1, s)" by (rule fgetc_end [OF Suc.prems])
    ultimately show ?thesis using Suc.prems by auto
  qed
qed

text \<open>C26: \<^verbatim>\<open>fread\<close> on an open disk file at position \<open>p\<close>, which was only read so far (not just moved by \<^verbatim>\<open>fseek\<close>) and whose sectors
  can be read, returns exactly the next \<open>size * count\<close> bytes of the
  file's contents (the blocks of its block table in order, up to the file size), fewer only at the end
  of the file, and advances the position by as much, whichever way the reads fall on block boundaries.\<close>

theorem fread_contents:
  assumes "reading rd s fp n ds bs p" and "sz \<noteq> 0"
  shows "let out = take (unat (sz * count)) (drop p (take (unat (f_fsize n)) (concat ds)))
    in \<exists>s' n'. fread rd env sz count fp s = Some (of_nat (length out) div sz, out, s') \<and>
      reading rd s' fp n' ds bs (min (p + unat (sz * count)) (unat (f_fsize n))) \<and> f_fsize n' = f_fsize n"
proof -
  have "fp \<noteq> 0" using assms(1) by (simp add: reading_def)
  with fread_loop_contents [OF assms(1), of env "unat (sz * count)" "[]"] assms(2) show ?thesis
    by (auto simp: fread_def Let_def)
qed


theorem fread_contents_witness:
  "\<exists>(s :: file_state) s'. fread (\<lambda>_ _ a. (0, if a = 5 then [1, 2, 3, 4] else [5, 6, 7, 8])) (\<lambda>_ s. s) 1 9 4096 s = Some (6, [1, 2, 3, 4, 5, 6], s')"
proof -
  let ?rd = "(\<lambda>_ _ a. (0, if a = 5 then [1, 2, 3, 4] else [5, 6, 7, 8])) :: disk"
  let ?n = "FILE_zero\<lparr>f_bsize := 4, f_buffer := 8192, f_fsize := 6, f_num_of_blocks := 2, f_blocks := 12288\<rparr>"
  let ?s = "file_zero\<lparr>files := [4096 \<mapsto> ?n], bufs := [8192 \<mapsto> replicate 8192 0], ptrs := [12288 \<mapsto> [16384]], blks := [16384 \<mapsto> [5, 9]]\<rparr>"
  have "disk_file ?rd ?s ?n [[1, 2, 3, 4], [5, 6, 7, 8]] 4"
    by (auto simp: disk_file_def FILE_zero_def less_Suc_eq)
  then have "reading ?rd ?s 4096 ?n [[1, 2, 3, 4], [5, 6, 7, 8]] 4 0"
    by (simp add: reading_def FILE_zero_def)
  from fread_contents [OF this, of 1 9 "\<lambda>_ s. s"] show ?thesis by (auto simp: FILE_zero_def Let_def)
qed

section \<open>Objects\<close>

lemma pages_small: "unat (pages_of 331) = 1" "unat (pages_of 8192) = 2" "unat (pages_of 128) = 1" "unat (pages_of 4096) = 1"
  by (simp_all add: pages_of_def)

definition stream_rec :: "u32 \<Rightarrow> u64 \<Rightarrow> FILE" where
  "stream_rec flag b = FILE_zero\<lparr>f_bsize := 8192, f_buffer := b, f_fsize := 0, f_mode := 2, f_flags := flag\<rparr>"

lemma open_stream_ok:
  assumes "heap_room (3 + k) (fmm s)"
  obtains fp b mm where "open_stream flag s = Some (fp, s\<lparr>fmm := mm, files := (files s)(fp \<mapsto> stream_rec flag b), bufs := (bufs s)(b \<mapsto> replicate 8192 0)\<rparr>)"
    "distinct [fp, b]" "0 \<notin> set [fp, b]" "set [fp, b] \<inter> live_blocks (fmm s) = {}" "live_blocks mm = live_blocks (fmm s) \<union> set [fp, b]" "heap_room k mm"
proof -
  have r: "heap_room (1 + (2 + k)) (fmm s)" using assms by (simp add: numeral_eq_Suc)
  obtain fp m1 where fp: "new_block 331 s = Some (fp, s\<lparr>fmm := m1\<rparr>)" "fp \<noteq> 0" "fp \<notin> live_blocks (fmm s)"
    "live_blocks m1 = insert fp (live_blocks (fmm s))" "heap_room (2 + k) m1"
    by (rule new_block_ok [OF r pages_small(1)]) simp_all
  have r1: "heap_room (2 + k) (fmm (s\<lparr>fmm := m1\<rparr>))" using fp(5) by simp
  obtain b m2 where b: "new_block 8192 (s\<lparr>fmm := m1\<rparr>) = Some (b, s\<lparr>fmm := m1\<rparr>\<lparr>fmm := m2\<rparr>)" "b \<noteq> 0" "b \<notin> live_blocks m1"
    "live_blocks m2 = insert b (live_blocks m1)" "heap_room k m2"
    by (rule new_block_ok [OF r1 pages_small(2)]) simp_all
  have "open_stream flag s = Some (fp, s\<lparr>fmm := m2, files := (files s)(fp \<mapsto> stream_rec flag b), bufs := (bufs s)(b \<mapsto> replicate 8192 0)\<rparr>)"
    using fp(1) b(1) by (simp add: open_stream_def new_buf_def stream_rec_def)
  moreover have "distinct [fp, b]" "0 \<notin> set [fp, b]" "set [fp, b] \<inter> live_blocks (fmm s) = {}" "live_blocks m2 = live_blocks (fmm s) \<union> set [fp, b]"
    using fp(2-4) b(2-4) by auto
  ultimately show ?thesis using that b(5) by blast
qed

lemma fclose_stream_ok:
  assumes "heap_room k (fmm s)" and "files s fp = Some n" and "f_flags n \<in> {1, 2, 3, 4} \<and> f_buffer n = b" and "fp \<noteq> 0" and "b \<noteq> fp"
    and "set [fp, b] \<subseteq> live_blocks (fmm s)"
  obtains mm where "fclose fp s = Some (0, s\<lparr>fmm := mm, files := (files s)(b := None, fp := None), bufs := (bufs s)(b := None, fp := None),
      ptrs := (ptrs s)(b := None, fp := None), blks := (blks s)(b := None, fp := None)\<rparr>)"
    "live_blocks mm = live_blocks (fmm s) - set [fp, b]" "heap_room k mm"
proof -
  obtain m3 where m3: "free_block b s = Some (s\<lparr>fmm := m3, files := (files s)(b := None), bufs := (bufs s)(b := None),
      ptrs := (ptrs s)(b := None), blks := (blks s)(b := None)\<rparr>)" (is "_ = Some ?s2")
    "live_blocks m3 = live_blocks (fmm s) - {b}" "heap_room k m3"
    by (rule free_block_ok [OF assms(1), of b]) (use assms(6) in simp_all)
  have l: "heap_room k (fmm ?s2)" "fp \<in> live_blocks (fmm ?s2)" using m3(2,3) assms(5,6) by auto
  obtain m4 where m4: "free_block fp ?s2 = Some (?s2\<lparr>fmm := m4, files := (files ?s2)(fp := None), bufs := (bufs ?s2)(fp := None),
      ptrs := (ptrs ?s2)(fp := None), blks := (blks ?s2)(fp := None)\<rparr>)"
    "live_blocks m4 = live_blocks (fmm ?s2) - {fp}" "heap_room k m4"
    by (rule free_block_ok [OF l])
  have "fclose fp s = Some (0, ?s2\<lparr>fmm := m4, files := (files ?s2)(fp := None), bufs := (bufs ?s2)(fp := None),
      ptrs := (ptrs ?s2)(fp := None), blks := (blks ?s2)(fp := None)\<rparr>)"
    using m3(1) m4(1) assms(2-4) by (auto simp: fclose_def std_file_close_def)
  moreover have "live_blocks m4 = live_blocks (fmm s) - set [fp, b]" using m4(2) m3(2) by auto
  ultimately show ?thesis using that [of m4] m4(3) by simp
qed

text \<open>C38: opening a standard stream or a pipe and closing it again succeeds and leaves no object and no heap
  block behind.\<close>

theorem stream_open_close:
  assumes "heap_room 3 (fmm s)" and "mode \<in> {''stdin'', ''stdout'', ''stderr'', ''pipe''}"
    and "dom (files s) \<union> dom (bufs s) \<union> dom (ptrs s) \<union> dom (blks s) \<subseteq> live_blocks (fmm s)"
  shows "\<exists>fp s1 mm. fopen rd path mode s = Some (fp, s1) \<and> fp \<notin> live_blocks (fmm s) \<and> fp \<in> live_blocks (fmm s1) \<and>
    fclose fp s1 = Some (0, s\<lparr>fmm := mm\<rparr>) \<and> live_blocks mm = live_blocks (fmm s) \<and> mm_inv mm"
proof -
  obtain flag where op: "fopen rd path mode s = open_stream flag s" and flag: "flag \<in> {1, 2, 3, 4}"
    using assms(2) by (auto simp: fopen_def mode_is_def std_open_file_def pipe_open_file_def)
  have r: "heap_room (3 + 0) (fmm s)" using assms(1) by simp
  obtain fp b m1 where o: "open_stream flag s = Some (fp, s\<lparr>fmm := m1, files := (files s)(fp \<mapsto> stream_rec flag b), bufs := (bufs s)(b \<mapsto> replicate 8192 0)\<rparr>)"
      (is "_ = Some (fp, ?s1)") "distinct [fp, b]" "0 \<notin> set [fp, b]" "set [fp, b] \<inter> live_blocks (fmm s) = {}"
      "live_blocks m1 = live_blocks (fmm s) \<union> set [fp, b]" "heap_room 0 m1"
    by (rule open_stream_ok [OF r])
  obtain mm where c: "fclose fp ?s1 = Some (0, ?s1\<lparr>fmm := mm, files := (files ?s1)(b := None, fp := None), bufs := (bufs ?s1)(b := None, fp := None),
      ptrs := (ptrs ?s1)(b := None, fp := None), blks := (blks ?s1)(b := None, fp := None)\<rparr>)"
    "live_blocks mm = live_blocks (fmm ?s1) - set [fp, b]" "heap_room 0 mm"
    by (rule fclose_stream_ok [where k = 0 and s = ?s1 and fp = fp and n = "stream_rec flag b" and b = b]) (use o flag in \<open>simp_all add: stream_rec_def\<close>)
  have "files s fp = None" "bufs s fp = None" "ptrs s fp = None" "blks s fp = None" "files s b = None" "bufs s b = None" "ptrs s b = None" "blks s b = None"
    using assms(3) o(4) by auto
  then have "fclose fp ?s1 = Some (0, s\<lparr>fmm := mm\<rparr>)"
    using c(1) o(2) by (simp add: fun_upd_idem fun_upd_twist [of fp b])
  moreover have "live_blocks mm = live_blocks (fmm s)" using c(2) o(4,5) by auto
  moreover have "fp \<notin> live_blocks (fmm s)" "fp \<in> live_blocks (fmm ?s1)" using o(4,5) by auto
  ultimately show ?thesis using op o(1) heap_room_inv [OF c(3)] by auto
qed

theorem stream_open_close_witness:
  "\<exists>fp s1 mm. fopen (\<lambda>_ _ _. (0, [])) [] ''stdout'' (file_zero\<lparr>files := Map.empty, bufs := Map.empty\<rparr>) = Some (fp, s1) \<and>
     fclose fp s1 = Some (0, file_zero\<lparr>files := Map.empty, bufs := Map.empty\<rparr>\<lparr>fmm := mm\<rparr>)"
proof -
  have "heap_room 3 (mm_boot mm_zero)" by (rule heap_room_mono [OF mm_boot_room]) simp
  with stream_open_close [of "file_zero\<lparr>files := Map.empty, bufs := Map.empty\<rparr>" "''stdout''" "\<lambda>_ _ _. (0, [])" "[]"]
  show ?thesis by (auto simp: file_zero_def)
qed

end
