(* ===== verification/Window.thy ===== *)
theory Window
  imports File Kroom Links
begin

text \<open>
  The list of windows of the compositor, \<^verbatim>\<open>kernel/gui/compositor.c\<close>.  A window is drawn over the windows
  before it in the list.  The list starts with a node \<open>paint_ready_queue\<close> without a window, which also
  carries the lock of the list.  A wait for a lock that is held and a dereference of the null pointer
  have the result \<open>None\<close>.  Of a \<^verbatim>\<open>WINDOW\<close> the model holds the fields the kernel writes outside of drawing.
\<close>

section \<open>State and operations\<close>

record PAINT =
  paint_w :: u64
  paint_spinlock :: u64
  paint_next :: u64

record WINDOW =
  win_rx :: u32
  win_ry :: u32
  win_bpp :: u32
  win_scanline :: u32
  win_gid :: u32

record win_state = file_state +
  paints :: "u64 \<rightharpoonup> PAINT"
  windows :: "u64 \<rightharpoonup> WINDOW"
  paint_ready_queue :: u64
  paint_foco :: u64
  gid :: u64
  window_count :: u64
  w_remove_spinlock :: u32

definition upd_paint :: "u64 \<Rightarrow> (PAINT \<Rightarrow> PAINT) \<Rightarrow> 'a win_state_scheme \<Rightarrow> 'a win_state_scheme option" where
  "upd_paint p f s = do { n \<leftarrow> paints s p; Some (s\<lparr>paints := (paints s)(p \<mapsto> f n)\<rparr>) }"

definition upd_window :: "u64 \<Rightarrow> (WINDOW \<Rightarrow> WINDOW) \<Rightarrow> 'a win_state_scheme \<Rightarrow> 'a win_state_scheme option" where
  "upd_window a f s = do { w \<leftarrow> windows s a; Some (s\<lparr>windows := (windows s)(a \<mapsto> f w)\<rparr>) }"

text \<open>A block given back to the allocator holds no object any more.\<close>

definition free_win :: "u64 \<Rightarrow> 'a win_state_scheme \<Rightarrow> 'a win_state_scheme option" where
  "free_win a s = do { s \<leftarrow> free_block a s;
     Some (s\<lparr>paints := (paints s)(a := None), windows := (windows s)(a := None)\<rparr>) }"

definition lock_paint :: "'a win_state_scheme \<Rightarrow> 'a win_state_scheme option" where
  "lock_paint s =
    do {
      q \<leftarrow> paints s (paint_ready_queue s);
      if paint_spinlock q \<noteq> 0 then None
      else upd_paint (paint_ready_queue s) (\<lambda>p. p\<lparr>paint_spinlock := paint_spinlock p + 1\<rparr>) s }"

definition unlock_paint :: "'a win_state_scheme \<Rightarrow> 'a win_state_scheme option" where
  "unlock_paint s = upd_paint (paint_ready_queue s) (\<lambda>p. p\<lparr>paint_spinlock := 0\<rparr>) s"

text \<open>The part of \<^verbatim>\<open>compose\<close> before its drawing loop.\<close>

definition compose_setup :: "'a win_state_scheme \<Rightarrow> 'a win_state_scheme option" where
  "compose_setup s =
    do {
      let s = s\<lparr>window_count := 0, paint_foco := 0\<rparr>;
      (_, bank_buffer, mm) \<leftarrow> alloc_pages 0 (1024 * 4) (fmm s);
      (_, paint, mm) \<leftarrow> alloc_pages 1 1 mm;
      (_, mouseaddr, mm) \<leftarrow> alloc_pages 0 4 mm;
      p \<leftarrow> paint;
      Some (s\<lparr>fmm := mm, paints := (paints s)(p \<mapsto> \<lparr>paint_w = 0, paint_spinlock = 0, paint_next = 0\<rparr>), paint_ready_queue := p\<rparr>) }"

definition window_add :: "u64 \<Rightarrow> 'a win_state_scheme \<Rightarrow> 'a win_state_scheme option" where
  "window_add addr s =
    do {
      (new, s) \<leftarrow> new_block 24 s;
      s \<leftarrow> lock_paint s;
      tmp \<leftarrow> find_node paint_next (\<lambda>p. paint_w p = addr) (paints s) (paint_ready_queue s);
      if tmp \<noteq> 0 then unlock_paint s
      else do {
        let s = s\<lparr>paints := (paints s)(new \<mapsto> \<lparr>paint_w = addr, paint_spinlock = 0, paint_next = 0\<rparr>)\<rparr>;
        s \<leftarrow> upd_window addr (\<lambda>w. w\<lparr>win_gid := ucast (gid s)\<rparr>) s;
        let s = s\<lparr>gid := gid s + 1\<rparr>;
        tmp \<leftarrow> last_node paint_next (paints s) (paint_ready_queue s);
        s \<leftarrow> upd_paint tmp (\<lambda>p. p\<lparr>paint_next := new\<rparr>) s;
        unlock_paint (s\<lparr>paint_foco := new, window_count := window_count s + 1\<rparr>) } }"

text \<open>The search of \<^verbatim>\<open>window_remove\<close>, which looks one node ahead.\<close>

partial_function (option) find_before :: "u64 \<Rightarrow> (u64 \<rightharpoonup> PAINT) \<Rightarrow> u64 \<Rightarrow> u64 option" where
  "find_before addr h tmp =
     (if tmp = 0 then Some 0
      else case h tmp of
        None \<Rightarrow> None
      | Some n \<Rightarrow>
         (case h (paint_next n) of
            None \<Rightarrow> None
          | Some m \<Rightarrow> if paint_w m = addr then Some tmp else find_before addr h (paint_next n)))"

definition window_remove :: "u64 \<Rightarrow> 'a win_state_scheme \<Rightarrow> 'a win_state_scheme option" where
  "window_remove addr s =
    (if window_count s < 1 then Some s
     else do {
       s \<leftarrow> lock_paint s;
       if w_remove_spinlock s \<noteq> 0 then None
       else do {
         let s = s\<lparr>w_remove_spinlock := w_remove_spinlock s + 1\<rparr>;
         tmp \<leftarrow> find_before addr (paints s) (paint_ready_queue s);
         s \<leftarrow> (if tmp = 0 then Some s
               else do {
                 n \<leftarrow> paints s tmp;
                 let save = paint_next n;
                 m \<leftarrow> paints s save;
                 s \<leftarrow> upd_paint tmp (\<lambda>p. p\<lparr>paint_next := paint_next m\<rparr>) s;
                 let s = s\<lparr>window_count := window_count s - 1\<rparr>;
                 let s = (if paint_foco s = save then s\<lparr>paint_foco := 0\<rparr> else s);
                 free_win save s });
         unlock_paint (s\<lparr>w_remove_spinlock := 0\<rparr>) } })"

text \<open>The search of \<^verbatim>\<open>window_foco\<close> for the node of a window and the node before it.\<close>

partial_function (option) find_pair :: "u64 \<Rightarrow> (u64 \<rightharpoonup> PAINT) \<Rightarrow> u64 \<Rightarrow> u64 \<Rightarrow> (u64 \<times> u64) option" where
  "find_pair addr h pre tmp =
     (if tmp = 0 then Some (pre, 0)
      else case h tmp of
        None \<Rightarrow> None
      | Some n \<Rightarrow> if paint_w n = addr then Some (pre, tmp) else find_pair addr h tmp (paint_next n))"

definition window_foco :: "u64 \<Rightarrow> 'a win_state_scheme \<Rightarrow> 'a win_state_scheme option" where
  "window_foco addr s =
    do {
      s \<leftarrow> lock_paint s;
      (pre, tmp) \<leftarrow> find_pair addr (paints s) (paint_ready_queue s) (paint_ready_queue s);
      s \<leftarrow> (if tmp = 0 then Some s
            else do {
              let s = s\<lparr>paint_foco := tmp\<rparr>;
              n \<leftarrow> paints s tmp;
              if paint_next n = 0 then Some s
              else do {
                s \<leftarrow> upd_paint pre (\<lambda>p. p\<lparr>paint_next := paint_next n\<rparr>) s;
                s \<leftarrow> upd_paint tmp (\<lambda>p. p\<lparr>paint_next := 0\<rparr>) s;
                pre \<leftarrow> last_node paint_next (paints s) (paint_ready_queue s);
                upd_paint pre (\<lambda>p. p\<lparr>paint_next := tmp\<rparr>) s } });
      unlock_paint s }"

end
