(* ===== verification/Windowprops.thy ===== *)
theory Windowprops
  imports Window
begin

text \<open>
  The list of windows is a list: \<open>win_stack ws s\<close> says that the nodes behind \<^verbatim>\<open>paint_ready_queue\<close> hold the
  windows \<open>ws\<close>, that the locks are free and that the nodes are allocated.  The locale \<open>window_list\<close> is the
  contract of the compositor's operations, interpreted on them.
\<close>

section \<open>The list behind the queue pointer\<close>

interpretation paint: linked paint_next "\<lambda>q n. n\<lparr>paint_next := q\<rparr>"
  by unfold_locales simp

definition win_core :: "u64 list \<Rightarrow> (u64 \<rightharpoonup> PAINT) \<Rightarrow> u64 \<Rightarrow> bool" where
  "win_core as h q \<longleftrightarrow> chain paint_next h q (q # as) \<and> paint_w (the (h q)) = 0"

definition ws_of :: "(u64 \<rightharpoonup> PAINT) \<Rightarrow> u64 list \<Rightarrow> u64 list" where
  "ws_of h as = map (\<lambda>a. paint_w (the (h a))) as"

lemma ws_of_append [simp]: "ws_of h (as @ bs) = ws_of h as @ ws_of h bs"
  by (simp add: ws_of_def)

lemma ws_of_simps [simp]: "ws_of h [] = []" "ws_of h (a # as) = paint_w (the (h a)) # ws_of h as"
  by (simp_all add: ws_of_def)

lemma ws_of_cong: "(\<And>a. a \<in> set as \<Longrightarrow> h a = h' a) \<Longrightarrow> ws_of h as = ws_of h' as"
  by (simp add: ws_of_def)

lemma ws_of_keep: "h a = Some n \<Longrightarrow> paint_w n' = paint_w n \<Longrightarrow> ws_of (h(a \<mapsto> n')) as = ws_of h as"
  by (simp add: ws_of_def)

lemma ws_of_fresh: "b \<notin> set as \<Longrightarrow> ws_of (h(b := v)) as = ws_of h as"
  by (rule ws_of_cong) auto

lemma win_core_distinct: "win_core as h q \<Longrightarrow> distinct (q # as)"
  unfolding win_core_def by (blast dest: chain_distinct)

lemma win_core_node: "win_core as h q \<Longrightarrow> a \<in> set (q # as) \<Longrightarrow> a \<noteq> 0 \<and> (\<exists>n. h a = Some n)"
  unfolding win_core_def by (blast dest: chain_nodes)

text \<open>The lock bit of the first node is not part of the list.\<close>

lemma win_core_lock:
  assumes "win_core as h q" and "h q = Some n" and "paint_w n' = paint_w n" and "paint_next n' = paint_next n"
  shows "win_core as (h(q \<mapsto> n')) q" and "ws_of (h(q \<mapsto> n')) as = ws_of h as"
  using assms paint.chain_update [of h q n n'] ws_of_keep [of h q n n'] by (simp_all add: win_core_def del: chain.simps)

lemma win_core_last:
  assumes "win_core as h q"
  obtains n where "h (last (q # as)) = Some n" "paint_next n = 0" "last_node paint_next h q = Some (last (q # as))"
proof -
  have c: "chain paint_next h q (q # as)" using assms by (simp add: win_core_def)
  have "\<exists>n. h (last (q # as)) = Some n \<and> paint_next n = 0" by (rule chain_last [OF c]) simp
  moreover have "last_node paint_next h q = Some (last (q # as))" by (rule last_node_chain [OF c]) simp
  ultimately show ?thesis using that by auto
qed

lemma win_core_snoc:
  assumes "win_core as h q" and "b \<noteq> 0" and "b \<notin> set (q # as)" and "h (last (q # as)) = Some n"
    and "paint_next nb = 0"
  shows "win_core (as @ [b]) (h(b \<mapsto> nb, last (q # as) \<mapsto> n\<lparr>paint_next := b\<rparr>)) q"
    and "ws_of (h(b \<mapsto> nb, last (q # as) \<mapsto> n\<lparr>paint_next := b\<rparr>)) (as @ [b]) = ws_of h as @ [paint_w nb]"
proof -
  have l: "last (q # as) \<noteq> b" using assms(3) by (metis last_in_set list.distinct(1))
  have "chain paint_next (h(b \<mapsto> nb, last (q # as) \<mapsto> n\<lparr>paint_next := b\<rparr>)) q ((q # as) @ [b])"
    using assms by (intro paint.chain_snoc) (simp_all add: win_core_def del: chain.simps)
  moreover have "paint_w (the ((h(b \<mapsto> nb, last (q # as) \<mapsto> n\<lparr>paint_next := b\<rparr>)) q)) = paint_w (the (h q))"
    using assms(3,4) by auto
  ultimately show "win_core (as @ [b]) (h(b \<mapsto> nb, last (q # as) \<mapsto> n\<lparr>paint_next := b\<rparr>)) q"
    using assms(1) by (simp add: win_core_def del: chain.simps)
  have "ws_of (h(b \<mapsto> nb, last (q # as) \<mapsto> n\<lparr>paint_next := b\<rparr>)) as = ws_of (h(b \<mapsto> nb)) as"
    by (rule ws_of_keep [of _ _ n]) (use l assms(4) in simp_all)
  also have "\<dots> = ws_of h as" by (rule ws_of_fresh) (use assms(3) in simp)
  finally show "ws_of (h(b \<mapsto> nb, last (q # as) \<mapsto> n\<lparr>paint_next := b\<rparr>)) (as @ [b]) = ws_of h as @ [paint_w nb]"
    using l by simp
qed

lemma win_core_unlink:
  assumes "win_core (us @ b # vs) h q" and "h (last (q # us)) = Some n" and "h b = Some m"
  shows "win_core (us @ vs) (h(last (q # us) \<mapsto> n\<lparr>paint_next := paint_next m\<rparr>, b := v)) q"
    and "ws_of (h(last (q # us) \<mapsto> n\<lparr>paint_next := paint_next m\<rparr>, b := v)) (us @ vs) = ws_of h (us @ vs)"
proof -
  let ?l = "last (q # us)"
  obtain ps where ps: "q # us = ps @ [?l]" by (metis append_butlast_last_id list.distinct(1))
  have d: "distinct (q # us @ b # vs)" by (rule win_core_distinct [OF assms(1)])
  have l: "?l \<noteq> b" using d last_in_set [of "q # us"] by (metis Cons_eq_appendI disjoint_iff distinct_append list.distinct(1) list.set_intros(1))
  have "chain paint_next h q (ps @ ?l # b # vs)"
    using assms(1) ps by (metis Cons_eq_appendI append_Cons append_Nil append_assoc win_core_def)
  from paint.chain_unlink [OF this assms(2,3)]
  have "chain paint_next (h(?l \<mapsto> n\<lparr>paint_next := paint_next m\<rparr>)) q (q # us @ vs)"
    using ps by (metis append_Cons append_Nil append_assoc)
  then have "chain paint_next (h(?l \<mapsto> n\<lparr>paint_next := paint_next m\<rparr>, b := v)) q (q # us @ vs)"
    using d by (subst paint.chain_fresh) auto
  moreover have "paint_w (the ((h(?l \<mapsto> n\<lparr>paint_next := paint_next m\<rparr>, b := v)) q)) = paint_w (the (h q))"
    using assms(2) d by auto
  ultimately show "win_core (us @ vs) (h(?l \<mapsto> n\<lparr>paint_next := paint_next m\<rparr>, b := v)) q"
    using assms(1) by (simp add: win_core_def del: chain.simps)
  have "ws_of (h(?l \<mapsto> n\<lparr>paint_next := paint_next m\<rparr>, b := v)) (us @ vs) = ws_of (h(?l \<mapsto> n\<lparr>paint_next := paint_next m\<rparr>)) (us @ vs)"
    by (rule ws_of_fresh) (use d in auto)
  also have "\<dots> = ws_of h (us @ vs)" by (rule ws_of_keep [where n = n]) (simp_all add: assms(2) del: last.simps)
  finally show "ws_of (h(?l \<mapsto> n\<lparr>paint_next := paint_next m\<rparr>, b := v)) (us @ vs) = ws_of h (us @ vs)" .
qed

lemma win_core_pred:
  assumes "win_core (us @ b # vs) h q"
  obtains n m where "h (last (q # us)) = Some n" "last (q # us) \<noteq> 0" "paint_next n = b" "h b = Some m" "last (q # us) \<noteq> b"
    "b \<noteq> 0" "paint_next m = 0 \<longleftrightarrow> vs = []"
proof -
  let ?l = "last (q # us)"
  define ps where "ps = butlast (q # us)"
  have ps: "q # us = ps @ [?l]" unfolding ps_def by (metis append_butlast_last_id list.distinct(1))
  have c: "chain paint_next h q (q # us @ b # vs)" using assms by (simp add: win_core_def)
  moreover have eq: "q # us @ b # vs = ps @ ?l # b # vs" using ps by (metis append_Cons append_Nil append_assoc)
  ultimately have "\<exists>r. seg paint_next h q ps r \<and> chain paint_next h r (?l # b # vs)" by (simp only: chain_append)
  then obtain n m where nm: "h ?l = Some n" "?l \<noteq> 0" "paint_next n = b" "h b = Some m" "b \<noteq> 0" "chain paint_next h (paint_next m) vs"
    by (auto simp del: last.simps)
  moreover have "distinct (ps @ ?l # b # vs)" using chain_distinct [OF c] unfolding eq .
  then have "?l \<noteq> b" by (simp del: last.simps)
  ultimately show ?thesis using that chain_Nil_iff [OF nm(6)] by blast
qed

lemma find_before_chain:
  assumes "chain paint_next h p (p # us @ b # vs)" and "addr \<notin> set (ws_of h us)" and "paint_w (the (h b)) = addr"
  shows "find_before addr h p = Some (last (p # us))"
  using assms
proof (induction us arbitrary: p)
  case Nil
  then show ?case by (auto simp: find_before.simps [of addr h p])
next
  case (Cons u us)
  then obtain n m where n: "p \<noteq> 0" "h p = Some n" "paint_next n = u" "h u = Some m" "chain paint_next h u (u # us @ b # vs)"
    by auto
  with Cons.IH [of u] Cons.prems show ?case by (auto simp: find_before.simps [of addr h p] simp del: chain.simps)
qed

lemma find_pair_chain:
  assumes "chain paint_next h p (us @ b # vs)" and "addr \<notin> set (ws_of h us)" and "paint_w (the (h b)) = addr"
  shows "find_pair addr h pre p = Some (last (pre # us), b)"
  using assms
proof (induction us arbitrary: p pre)
  case Nil
  then have "p \<noteq> 0" "p = b" "\<exists>n. h b = Some n" by auto
  with Nil(3) show ?case by (auto simp: find_pair.simps [of addr h pre])
next
  case (Cons u us)
  then obtain n where n: "u = p" "p \<noteq> 0" "h p = Some n" "chain paint_next h (paint_next n) (us @ b # vs)" by auto
  with Cons.IH [OF n(4), of p] Cons.prems show ?case by (auto simp: find_pair.simps [of addr h pre p])
qed

section \<open>The operations on the list of windows\<close>

definition win_stack :: "u64 list \<Rightarrow> 'a win_state_scheme \<Rightarrow> bool" where
  "win_stack ws s \<longleftrightarrow> distinct ws \<and> 0 \<notin> set ws \<and> w_remove_spinlock s = 0 \<and> window_count s = of_nat (length ws) \<and>
     (\<exists>as q. win_core as (paints s) (paint_ready_queue s) \<and> ws_of (paints s) as = ws \<and>
       set (paint_ready_queue s # as) \<subseteq> live_blocks (fmm s) \<and> paints s (paint_ready_queue s) = Some q \<and> paint_spinlock q = 0)"

lemma stack_lock:
  assumes "win_stack ws s"
  obtains as h where "\<forall>mm. lock_paint (s\<lparr>fmm := mm\<rparr>) = Some (s\<lparr>fmm := mm, paints := h\<rparr>)" "lock_paint s = Some (s\<lparr>paints := h\<rparr>)" "win_core as h (paint_ready_queue s)" "ws_of h as = ws"
    "set (paint_ready_queue s # as) \<subseteq> live_blocks (fmm s)" "length as = length ws" "length ws < 2 ^ 64"
proof -
  let ?q = "paint_ready_queue s"
  from assms obtain as q where a: "win_core as (paints s) ?q" "ws_of (paints s) as = ws"
    "set (?q # as) \<subseteq> live_blocks (fmm s)" "paints s ?q = Some q" "paint_spinlock q = 0"
    by (auto simp: win_stack_def)
  let ?h = "(paints s)(?q \<mapsto> q\<lparr>paint_spinlock := 1\<rparr>)"
  have "win_core as ?h ?q" "ws_of ?h as = ws" using win_core_lock [OF a(1,4), of "q\<lparr>paint_spinlock := 1\<rparr>"] a(2) by simp_all
  moreover have "lock_paint s = Some (s\<lparr>paints := ?h\<rparr>)" "\<forall>mm. lock_paint (s\<lparr>fmm := mm\<rparr>) = Some (s\<lparr>fmm := mm, paints := ?h\<rparr>)"
    using a(4,5) by (simp_all add: lock_paint_def upd_paint_def)
  moreover have l: "length as = length ws" using a(2) by (auto simp: ws_of_def)
  moreover have "length (?q # as) \<le> HEAP_PAGES"
    unfolding distinct_card [OF win_core_distinct [OF a(1)], symmetric]
    by (rule le_trans [OF card_mono [OF live_blocks_card(1) a(3)] live_blocks_card(2)])
  then have "length ws < 2 ^ 64" using l by simp
  ultimately show ?thesis using that a(3) by blast
qed

lemma stack_unlock:
  assumes "win_core as (paints s) (paint_ready_queue s)" and "ws_of (paints s) as = ws" and "distinct ws" and "0 \<notin> set ws"
    and "w_remove_spinlock s = 0" and "window_count s = of_nat (length ws)"
    and "set (paint_ready_queue s # as) \<subseteq> live_blocks (fmm s)"
  obtains h where "unlock_paint s = Some (s\<lparr>paints := h\<rparr>)" "win_stack ws (s\<lparr>paints := h\<rparr>)"
    "\<forall>a. map_option paint_w (h a) = map_option paint_w (paints s a)"
proof -
  let ?q = "paint_ready_queue s"
  obtain n where n: "paints s ?q = Some n" using win_core_node [OF assms(1), of ?q] by auto
  let ?h = "(paints s)(?q \<mapsto> n\<lparr>paint_spinlock := 0\<rparr>)"
  have "win_core as ?h ?q" "ws_of ?h as = ws" using win_core_lock [OF assms(1) n, of "n\<lparr>paint_spinlock := 0\<rparr>"] assms(2) by simp_all
  then have "win_stack ws (s\<lparr>paints := ?h\<rparr>)" unfolding win_stack_def using assms by (auto intro!: exI [of _ as])
  moreover have "unlock_paint s = Some (s\<lparr>paints := ?h\<rparr>)" using n by (simp add: unlock_paint_def upd_paint_def)
  moreover have "\<forall>a. map_option paint_w (?h a) = map_option paint_w (paints s a)" using n by simp
  ultimately show ?thesis using that by blast
qed

lemma stack_split:
  assumes "ws_of h as = ws" and "a \<in> set ws"
  obtains us b vs where "as = us @ b # vs" "a \<notin> set (ws_of h us)" "paint_w (the (h b)) = a"
    "remove1 a ws = ws_of h (us @ vs)"
proof -
  have "\<exists>b \<in> set as. paint_w (the (h b)) = a" using assms by (auto simp: ws_of_def)
  then obtain us b vs where s: "as = us @ b # vs" "paint_w (the (h b)) = a" "\<forall>u \<in> set us. paint_w (the (h u)) \<noteq> a"
    by (rule split_list_first_propE)
  moreover from this have n: "a \<notin> set (ws_of h us)" by (auto simp: ws_of_def)
  moreover have "remove1 a ws = ws_of h (us @ vs)" using assms(1) s(1,2) n by (auto simp: remove1_append)
  ultimately show ?thesis using that by blast
qed

lemma window_add_ok:
  assumes "win_stack ws s" and "a \<noteq> 0" and "a \<notin> set ws" and "windows s a = Some w" and "heap_room (1 + k) (fmm s)"
  obtains s' n where "window_add a s = Some s'" "win_stack (ws @ [a]) s'" "heap_room k (fmm s')"
    "paints s' (paint_foco s') = Some n" "paint_w n = a" "windows s' = (windows s)(a \<mapsto> w\<lparr>win_gid := ucast (gid s)\<rparr>)"
proof -
  let ?q = "paint_ready_queue s"
  have "unat (pages_of 24) = 1" by (simp add: pages_of_def)
  then obtain new mm where nb: "new_block 24 s = Some (new, s\<lparr>fmm := mm\<rparr>)" "new \<noteq> 0" "new \<notin> live_blocks (fmm s)"
    "live_blocks mm = insert new (live_blocks (fmm s))" "heap_room k mm"
    by (rule new_block_ok [OF assms(5)]) simp_all
  obtain as h where l: "\<forall>mm. lock_paint (s\<lparr>fmm := mm\<rparr>) = Some (s\<lparr>fmm := mm, paints := h\<rparr>)" "win_core as h ?q" "ws_of h as = ws"
    "set (?q # as) \<subseteq> live_blocks (fmm s)" "length as = length ws"
    by (rule stack_lock [OF assms(1)])
  have new: "new \<notin> set (?q # as)" using nb(3) l(4) by blast
  have fd: "find_node paint_next (\<lambda>p. paint_w p = a) h ?q = Some 0"
  proof -
    have "find (\<lambda>c. paint_w (the (h c)) = a) (?q # as) = None"
      using assms(2,3) l(2,3) by (auto simp: find_None_iff win_core_def ws_of_def)
    then show ?thesis using find_node_chain [of paint_next h ?q "?q # as"] l(2) by (simp add: win_core_def del: chain.simps find.simps)
  qed
  let ?nb = "\<lparr>paint_w = a, paint_spinlock = 0, paint_next = 0\<rparr>"
  let ?l = "last (?q # as)"
  have core: "win_core as (h(new \<mapsto> ?nb)) ?q"
    using l(2) new paint.chain_fresh [of new "?q # as" h] by (auto simp: win_core_def simp del: chain.simps)
  obtain n where n: "(h(new \<mapsto> ?nb)) ?l = Some n" "last_node paint_next (h(new \<mapsto> ?nb)) ?q = Some ?l"
    by (rule win_core_last [OF core])
  then have hl: "h ?l = Some n" using new by (metis fun_upd_apply last_in_set list.distinct(1))
  let ?h = "h(new \<mapsto> ?nb, ?l \<mapsto> n\<lparr>paint_next := new\<rparr>)"
  note sn = win_core_snoc [OF l(2) nb(2) new hl, of ?nb, simplified]
  let ?s = "s\<lparr>fmm := mm, windows := (windows s)(a \<mapsto> w\<lparr>win_gid := ucast (gid s)\<rparr>), gid := gid s + 1, paints := ?h,
     paint_foco := new, window_count := window_count s + 1\<rparr>"
  have cnt: "window_count s = of_nat (length ws)" "distinct ws" "0 \<notin> set ws" "w_remove_spinlock s = 0"
    using assms(1) by (simp_all add: win_stack_def)
  obtain g where g: "unlock_paint ?s = Some (?s\<lparr>paints := g\<rparr>)" "win_stack (ws @ [a]) (?s\<lparr>paints := g\<rparr>)"
      "\<forall>a. map_option paint_w (g a) = map_option paint_w (paints ?s a)"
  proof (rule stack_unlock [of "as @ [new]" ?s "ws @ [a]"])
    show "win_core (as @ [new]) (paints ?s) (paint_ready_queue ?s)" using sn(1) by simp
    show "ws_of (paints ?s) (as @ [new]) = ws @ [a]" using sn(2) l(3) by simp
    show "set (paint_ready_queue ?s # as @ [new]) \<subseteq> live_blocks (fmm ?s)" using l(4) nb(4) by auto
  qed (use cnt assms(2,3) in simp_all)
  have "paint_ready_queue s \<noteq> new" using new by auto
  then have "window_add a s = Some (?s\<lparr>paints := g\<rparr>)"
    using nb(1) l(1) fd n g(1) assms(4) by (simp add: window_add_def upd_window_def upd_paint_def Let_def del: last.simps)
  moreover have "map_option paint_w (g new) = Some a" using g(3) new hl by auto
  then obtain n' where "g new = Some n'" "paint_w n' = a" by blast
  ultimately show ?thesis using that [of "?s\<lparr>paints := g\<rparr>" n'] g(2) nb(5) by simp
qed

lemma window_remove_ok:
  assumes "win_stack ws s" and "a \<in> set ws" and "heap_room k (fmm s)"
  obtains s' where "window_remove a s = Some s'" "win_stack (remove1 a ws) s'" "heap_room k (fmm s')"
    "win_state.more s' = win_state.more s"
proof -
  let ?q = "paint_ready_queue s"
  obtain as h where l: "lock_paint s = Some (s\<lparr>paints := h\<rparr>)" "win_core as h ?q" "ws_of h as = ws"
    "set (?q # as) \<subseteq> live_blocks (fmm s)" "length as = length ws" "length ws < 2 ^ 64"
    by (rule stack_lock [OF assms(1)])
  have cnt: "window_count s = of_nat (length ws)" "distinct ws" "0 \<notin> set ws" "w_remove_spinlock s = 0"
    using assms(1) by (simp_all add: win_stack_def)
  obtain us b vs where sp: "as = us @ b # vs" "a \<notin> set (ws_of h us)" "paint_w (the (h b)) = a" "remove1 a ws = ws_of h (us @ vs)"
    by (rule stack_split [OF l(3) assms(2)])
  let ?l = "last (?q # us)"
  have c: "chain paint_next h ?q (?q # us @ b # vs)" using l(2) sp(1) by (simp add: win_core_def)
  have fd: "find_before a h ?q = Some ?l" by (rule find_before_chain [OF c sp(2,3)])
  obtain n m where n: "h ?l = Some n" "?l \<noteq> 0" "paint_next n = b" and m: "h b = Some m" and ne: "?l \<noteq> b"
    by (rule win_core_pred [OF l(2) [unfolded sp(1)]])
  let ?h = "h(?l \<mapsto> n\<lparr>paint_next := paint_next m\<rparr>, b := None)"
  note un = win_core_unlink [OF l(2) [unfolded sp(1)] n(1) m, of None]
  have bl: "b \<in> live_blocks (fmm s)" using l(4) sp(1) by auto
  obtain mm where fr: "\<And>s' :: 'a win_state_scheme. fmm s' = fmm s \<Longrightarrow> free_win b s' = Some (s'\<lparr>fmm := mm, files := (files s')(b := None), bufs := (bufs s')(b := None),
             ptrs := (ptrs s')(b := None), blks := (blks s')(b := None), paints := (paints s')(b := None), windows := (windows s')(b := None)\<rparr>)"
    "live_blocks mm = live_blocks (fmm s) - {b}" "heap_room k mm"
  proof -
    obtain mm where mm: "free b (fmm s) = Some mm" "live_blocks mm = live_blocks (fmm s) - {b}" "heap_room k mm"
      by (rule room_free [OF assms(3) bl])
    show ?thesis by (rule that [OF _ mm(2,3)]) (simp add: free_win_def free_block_def mm(1))
  qed
  have "length (remove1 a ws) = length ws - 1" "0 < length ws" using assms(2) by (auto simp: length_remove1)
  moreover have "unat (window_count s) = length ws" using cnt(1) unat_of_nat_small [where 'a = 64, of "length ws"] l(6) by simp
  ultimately have wc: "window_count s - 1 = of_nat (length (remove1 a ws))" "\<not> window_count s < 1"
    using cnt(1) by (simp_all add: word_less_nat_alt of_nat_diff Suc_le_eq)
  let ?s = "s\<lparr>window_count := window_count s - 1, paint_foco := (if paint_foco s = b then 0 else paint_foco s), fmm := mm,
     files := (files s)(b := None), bufs := (bufs s)(b := None),
     ptrs := (ptrs s)(b := None), blks := (blks s)(b := None), paints := ?h, windows := (windows s)(b := None),
     w_remove_spinlock := 0\<rparr>"
  obtain g where g: "unlock_paint ?s = Some (?s\<lparr>paints := g\<rparr>)" "win_stack (remove1 a ws) (?s\<lparr>paints := g\<rparr>)"
  proof (rule stack_unlock [of "us @ vs" ?s "remove1 a ws"])
    show "win_core (us @ vs) (paints ?s) (paint_ready_queue ?s)" using un(1) by simp
    show "ws_of (paints ?s) (us @ vs) = remove1 a ws" using un(2) sp(4) by simp
    show "set (paint_ready_queue ?s # us @ vs) \<subseteq> live_blocks (fmm ?s)"
      using l(4) fr(2) win_core_distinct [OF l(2)] sp(1) by auto
    show "0 \<notin> set (remove1 a ws)" using cnt(3) notin_set_remove1 by fastforce
  qed (use cnt wc in simp_all)
  have "window_remove a s = Some (?s\<lparr>paints := g\<rparr>)"
    using l(1) fd n m ne g(1) wc(2) cnt(4)
    by (cases "paint_foco s = b") (simp_all add: window_remove_def upd_paint_def Let_def fr(1) del: last.simps)
  then show ?thesis using that g(2) fr(3) by simp
qed

lemma foco_paints: "s\<lparr>paints := h, paint_foco := b\<rparr> = s\<lparr>paint_foco := b, paints := h\<rparr>"
  by (cases s) simp

lemma window_foco_ok:
  assumes "win_stack ws s" and "a \<in> set ws"
  obtains s' n where "window_foco a s = Some s'" "win_stack (remove1 a ws @ [a]) s'"
    "paints s' (paint_foco s') = Some n" "paint_w n = a" "s' = s\<lparr>paint_foco := paint_foco s', paints := paints s'\<rparr>"
proof -
  let ?q = "paint_ready_queue s"
  obtain as h where l: "lock_paint s = Some (s\<lparr>paints := h\<rparr>)" "win_core as h ?q" "ws_of h as = ws"
    "set (?q # as) \<subseteq> live_blocks (fmm s)" "length as = length ws"
    by (rule stack_lock [OF assms(1)])
  have cnt: "window_count s = of_nat (length ws)" "distinct ws" "0 \<notin> set ws" "w_remove_spinlock s = 0"
    using assms(1) by (simp_all add: win_stack_def)
  obtain us b vs where sp: "as = us @ b # vs" "a \<notin> set (ws_of h us)" "paint_w (the (h b)) = a" "remove1 a ws = ws_of h (us @ vs)"
    by (rule stack_split [OF l(3) assms(2)])
  let ?l = "last (?q # us)"
  obtain n m where n: "h ?l = Some n" "?l \<noteq> 0" "paint_next n = b" and m: "h b = Some m" and ne: "?l \<noteq> b" "b \<noteq> 0" "paint_next m = 0 \<longleftrightarrow> vs = []"
    by (rule win_core_pred [OF l(2) [unfolded sp(1)]])
  have "a \<noteq> 0" using assms(2) cnt(3) by auto
  then have c: "chain paint_next h ?q ((?q # us) @ b # vs)" "a \<notin> set (ws_of h (?q # us))"
    using l(2) sp(1,2) by (auto simp: win_core_def simp del: chain.simps)
  have fd: "find_pair a h ?q ?q = Some (?l, b)" using find_pair_chain [OF c sp(3), of ?q] by simp
  obtain h' as' where h': "win_core as' h' ?q" "ws_of h' as' = remove1 a ws @ [a]" "set as' = set as" "\<exists>n. h' b = Some n \<and> paint_w n = a"
    and run: "window_foco a s = unlock_paint (s\<lparr>paint_foco := b, paints := h'\<rparr>)"
  proof (cases "vs = []")
    case True
    then have "window_foco a s = unlock_paint (s\<lparr>paint_foco := b, paints := h\<rparr>)"
      using l(1) fd n m ne by (simp add: window_foco_def Let_def foco_paints)
    then show ?thesis using that [of as h] l(2,3) sp True m by (simp add: remove1_append)
  next
    case False
    let ?h = "h(?l \<mapsto> n\<lparr>paint_next := paint_next m\<rparr>, b \<mapsto> m\<lparr>paint_next := 0\<rparr>)"
    note un = win_core_unlink [OF l(2) [unfolded sp(1)] n(1) m, of "Some (m\<lparr>paint_next := 0\<rparr>)"]
    obtain k where k: "?h (last (?q # us @ vs)) = Some k" "last_node paint_next ?h ?q = Some (last (?q # us @ vs))"
      by (rule win_core_last [OF un(1)])
    have b: "b \<notin> set (?q # us @ vs)" using win_core_distinct [OF l(2)] sp(1) by auto
    let ?h' = "?h(last (?q # us @ vs) \<mapsto> k\<lparr>paint_next := b\<rparr>)"
    have eq: "?h(b \<mapsto> m\<lparr>paint_next := 0\<rparr>, last (?q # us @ vs) \<mapsto> k\<lparr>paint_next := b\<rparr>) = ?h'" by simp
    have z: "paint_next (m\<lparr>paint_next := 0\<rparr>) = 0" by simp
    note sn = win_core_snoc [OF un(1) ne(2) b k(1) z, unfolded eq]
    have lb: "last (?q # us @ vs) \<noteq> b" using b by (metis last_in_set list.distinct(1))
    have m': "(h(?l \<mapsto> n\<lparr>paint_next := paint_next m\<rparr>)) b = Some m" using ne(1) m by (simp del: last.simps)
    have "window_foco a s = unlock_paint (s\<lparr>paint_foco := b, paints := ?h'\<rparr>)"
      using l(1) fd n m m' ne k False by (simp add: window_foco_def upd_paint_def Let_def foco_paints del: last.simps fun_upd_apply)
    moreover have "set ((us @ vs) @ [b]) = set as" using sp(1) by auto
    moreover have "ws_of ?h' ((us @ vs) @ [b]) = remove1 a ws @ [a]"
      unfolding sn(2) un(2) sp(4) using sp(3) m by simp
    moreover have "\<exists>n. ?h' b = Some n \<and> paint_w n = a" using lb sp(3) m by simp
    ultimately show ?thesis using that [of "(us @ vs) @ [b]" ?h'] sn(1) by simp
  qed
  let ?s = "s\<lparr>paint_foco := b, paints := h'\<rparr>"
  have "length (remove1 a ws @ [a]) = length ws" using length_pos_if_in_set [OF assms(2)] assms(2) by (simp add: length_remove1)
  then have len: "window_count ?s = of_nat (length (remove1 a ws @ [a]))" using cnt(1) by simp
  have sub: "set (paint_ready_queue ?s # as') \<subseteq> live_blocks (fmm ?s)" using l(4) h'(3) by simp
  obtain g where g: "unlock_paint ?s = Some (?s\<lparr>paints := g\<rparr>)" "win_stack (remove1 a ws @ [a]) (?s\<lparr>paints := g\<rparr>)"
    "\<forall>a. map_option paint_w (g a) = map_option paint_w (paints ?s a)"
    by (rule stack_unlock [OF _ _ _ _ _ len sub]) (use h' cnt \<open>a \<noteq> 0\<close> in \<open>auto dest: notin_set_remove1\<close>)
  have "map_option paint_w (g b) = Some a" using g(3) h'(4) by auto
  then obtain k where "g b = Some k" "paint_w k = a" by blast
  then show ?thesis using that [of "?s\<lparr>paints := g\<rparr>" k] run g by simp
qed

section \<open>The contract of a window list\<close>

text \<open>What the clients of the compositor rely on: the windows are a list, drawn from first to last.\<close>

locale window_list =
  fixes stack :: "u64 list \<Rightarrow> 's \<Rightarrow> bool" and can_add :: "u64 \<Rightarrow> 's \<Rightarrow> bool"
    and add :: "u64 \<Rightarrow> 's \<Rightarrow> 's option" and del :: "u64 \<Rightarrow> 's \<Rightarrow> 's option" and raise :: "u64 \<Rightarrow> 's \<Rightarrow> 's option"
  assumes add_ok: "stack ws s \<Longrightarrow> can_add a s \<Longrightarrow> a \<notin> set ws \<Longrightarrow> \<exists>s'. add a s = Some s' \<and> stack (ws @ [a]) s'"
    and del_ok: "stack ws s \<Longrightarrow> a \<in> set ws \<Longrightarrow> \<exists>s'. del a s = Some s' \<and> stack (remove1 a ws) s'"
    and raise_ok: "stack ws s \<Longrightarrow> a \<in> set ws \<Longrightarrow> \<exists>s'. raise a s = Some s' \<and> stack (remove1 a ws @ [a]) s'"
begin

lemma add_del:
  assumes "stack ws s" and "can_add a s" and "a \<notin> set ws"
  obtains s1 s2 where "add a s = Some s1" "del a s1 = Some s2" "stack ws s2"
proof -
  obtain s1 where s1: "add a s = Some s1" "stack (ws @ [a]) s1" using add_ok [OF assms] by blast
  from del_ok [OF s1(2)] obtain s2 where "del a s1 = Some s2" "stack (remove1 a (ws @ [a])) s2" by auto
  with that s1 assms(3) show ?thesis by (simp add: remove1_append)
qed

text \<open>Raising several windows one after the other brings them to the front in that order.\<close>

lemma raise_all:
  assumes "stack ws s" and "distinct as" and "set as \<subseteq> set ws" and "distinct ws"
  shows "\<exists>s'. fold (\<lambda>a r. Option.bind r (raise a)) as (Some s) = Some s' \<and> stack (filter (\<lambda>w. w \<notin> set as) ws @ as) s'"
  using assms(2,3)
proof (induction as rule: rev_induct)
  case Nil
  then show ?case using assms(1) by simp
next
  case (snoc a as)
  then obtain s1 where s1: "fold (\<lambda>a r. Option.bind r (raise a)) as (Some s) = Some s1" "stack (filter (\<lambda>w. w \<notin> set as) ws @ as) s1"
    by auto
  have a: "a \<in> set (filter (\<lambda>w. w \<notin> set as) ws)" using snoc.prems by auto
  then obtain s2 where s2: "raise a s1 = Some s2" "stack (remove1 a (filter (\<lambda>w. w \<notin> set as) ws @ as) @ [a]) s2"
    using raise_ok [OF s1(2)] by auto
  have "remove1 a (filter (\<lambda>w. w \<notin> set as) ws @ as) = filter (\<lambda>w. w \<notin> set (as @ [a])) ws @ as"
    using a assms(4) by (simp add: remove1_append distinct_remove1_removeAll removeAll_filter_not_eq conj_commute filter_filter)
      (rule filter_cong; auto)
  with s1(1) s2 show ?case by simp
qed

end

definition win_ready :: "u64 list \<Rightarrow> 'a win_state_scheme \<Rightarrow> bool" where
  "win_ready ws s \<longleftrightarrow> win_stack ws s \<and> heap_room 0 (fmm s)"

definition win_can_add :: "u64 \<Rightarrow> 'a win_state_scheme \<Rightarrow> bool" where
  "win_can_add a s \<longleftrightarrow> a \<noteq> 0 \<and> windows s a \<noteq> None \<and> heap_room 1 (fmm s)"

interpretation wl: window_list win_ready win_can_add window_add window_remove window_foco
proof
  fix ws a and s :: "'a win_state_scheme"
  assume "win_ready ws s"
  then have s: "win_stack ws s" "heap_room 0 (fmm s)" by (simp_all add: win_ready_def)
  show "\<exists>s'. window_add a s = Some s' \<and> win_ready (ws @ [a]) s'" if "win_can_add a s" "a \<notin> set ws"
  proof -
    from that(1) obtain w where w: "a \<noteq> 0" "windows s a = Some w" "heap_room (1 + 0) (fmm s)" by (auto simp: win_can_add_def)
    show ?thesis using window_add_ok [OF s(1) w(1) that(2) w(2,3)] unfolding win_ready_def by metis
  qed
  show "\<exists>s'. window_remove a s = Some s' \<and> win_ready (remove1 a ws) s'" if "a \<in> set ws"
    using window_remove_ok [OF s(1) that s(2)] unfolding win_ready_def by metis
  show "\<exists>s'. window_foco a s = Some s' \<and> win_ready (remove1 a ws @ [a]) s'" if a: "a \<in> set ws"
  proof -
    obtain s' where s': "window_foco a s = Some s'" "win_stack (remove1 a ws @ [a]) s'" "s' = s\<lparr>paint_foco := paint_foco s', paints := paints s'\<rparr>"
      by (rule window_foco_ok [OF s(1) a])
    have "fmm s' = fmm s" by (subst s'(3)) simp
    with s' s show ?thesis by (simp add: win_ready_def)
  qed
qed

text \<open>C35: the list of windows refines a list.  A new window comes last, that is on top, and gets the focus;
  giving a window the focus moves it to the end and keeps the order of the others; removing a window
  removes just it.  Every operation returns and gives the lock of the list back.\<close>

theorem window_list_ops:
  assumes "win_stack ws s" and "heap_room 1 (fmm s)"
  shows "(a \<noteq> 0 \<and> windows s a \<noteq> None \<and> a \<notin> set ws \<longrightarrow> (\<exists>s'. window_add a s = Some s' \<and> win_stack (ws @ [a]) s' \<and>
       map_option paint_w (paints s' (paint_foco s')) = Some a)) \<and>
    (a \<in> set ws \<longrightarrow> (\<exists>s'. window_foco a s = Some s' \<and> win_stack (remove1 a ws @ [a]) s' \<and>
       map_option paint_w (paints s' (paint_foco s')) = Some a)) \<and>
    (a \<in> set ws \<longrightarrow> (\<exists>s'. window_remove a s = Some s' \<and> win_stack (remove1 a ws) s'))"
proof (intro conjI impI)
  assume a: "a \<noteq> 0 \<and> windows s a \<noteq> None \<and> a \<notin> set ws"
  then obtain w where w: "windows s a = Some w" by blast
  have "heap_room (1 + 0) (fmm s)" using assms(2) by simp
  from window_add_ok [OF assms(1) _ _ w this] a
  show "\<exists>s'. window_add a s = Some s' \<and> win_stack (ws @ [a]) s' \<and> map_option paint_w (paints s' (paint_foco s')) = Some a"
    by (metis option.simps(9))
next
  assume "a \<in> set ws"
  from window_foco_ok [OF assms(1) this]
  show "\<exists>s'. window_foco a s = Some s' \<and> win_stack (remove1 a ws @ [a]) s' \<and> map_option paint_w (paints s' (paint_foco s')) = Some a"
    by (metis option.simps(9))
next
  assume "a \<in> set ws"
  from window_remove_ok [OF assms(1) this assms(2)]
  show "\<exists>s'. window_remove a s = Some s' \<and> win_stack (remove1 a ws) s'" by metis
qed

definition win_zero :: win_state where
  "win_zero = \<lparr>fmm = mm_boot mm_zero, files = (\<lambda>_. None), bufs = (\<lambda>_. None), ptrs = (\<lambda>_. None), blks = (\<lambda>_. None), junk = (\<lambda>_ _. 0),
     std_in = 0, std_out = 0, std_err = 0, fs_directory = 0, dv_num = 0, paints = (\<lambda>_. None),
     windows = [4096 \<mapsto> \<lparr>win_rx = 0, win_ry = 0, win_bpp = 0, win_scanline = 0, win_gid = 0\<rparr>],
     paint_ready_queue = 0, paint_foco = 0, gid = 0, window_count = 0, w_remove_spinlock = 0\<rparr>"

lemma compose_setup_ok:
  assumes "heap_room (4101 + k) (fmm s)" and "w_remove_spinlock s = 0"
  obtains s' where "compose_setup s = Some s'" "win_stack [] s'" "heap_room k (fmm s')" "windows s' = windows s"
proof -
  have r: "heap_room (4096 + (5 + k)) (fmm s)" using assms(1) by simp
  obtain a m1 where m1: "alloc_pages 0 4096 (fmm s) = Some (4096, Some a, m1)" "heap_room (5 + k) m1"
    by (rule room_alloc_pages [OF r, of 4096 0]) simp_all
  have r: "heap_room (1 + (4 + k)) m1" using m1(2) by simp
  obtain q m2 where m2: "alloc_pages 1 1 m1 = Some (1, Some q, m2)" "q \<noteq> 0" "live_blocks m2 = insert q (live_blocks m1)" "heap_room (4 + k) m2"
    by (rule room_alloc_pages [OF r, of 1 1]) simp_all
  obtain b m3 where m3: "alloc_pages 0 4 m2 = Some (4, Some b, m3)" "live_blocks m3 = insert b (live_blocks m2)" "heap_room k m3"
    by (rule room_alloc_pages [OF m2(4), of 4 0]) simp_all
  let ?s = "s\<lparr>window_count := 0, paint_foco := 0, fmm := m3, paints := (paints s)(q \<mapsto> \<lparr>paint_w = 0, paint_spinlock = 0, paint_next = 0\<rparr>),
     paint_ready_queue := q\<rparr>"
  have "compose_setup s = Some ?s" using m1(1) m2(1) m3(1) by (simp add: compose_setup_def Let_def)
  moreover have "win_stack [] ?s"
    using m2(2,3) m3(2) assms(2) by (auto simp: win_stack_def win_core_def ws_of_def intro!: exI [of _ "[]"])
  ultimately show ?thesis using that m3(3) by simp
qed

theorem window_list_ops_witness:
  "\<exists>s s1 s2 s3. compose_setup win_zero = Some s \<and> window_add 4096 s = Some s1 \<and> win_stack [4096] s1 \<and>
     window_foco 4096 s1 = Some s2 \<and> win_stack [4096] s2 \<and> window_remove 4096 s1 = Some s3 \<and> win_stack [] s3"
proof -
  have r: "heap_room (4101 + 2) (fmm win_zero)" using heap_room_mono [OF mm_boot_room, where k = 4103] by (simp add: win_zero_def)
  obtain s where s: "compose_setup win_zero = Some s" "win_stack [] s" "heap_room 2 (fmm s)" "windows s = windows win_zero"
    by (rule compose_setup_ok [OF r]) (simp_all add: win_zero_def)
  obtain w where w: "windows s 4096 = Some w" using s(4) by (simp add: win_zero_def)
  have r: "heap_room (1 + 1) (fmm s)" using s(3) by (simp add: numeral_2_eq_2)
  obtain s1 where s1: "window_add 4096 s = Some s1" "win_stack ([] @ [4096]) s1" "heap_room 1 (fmm s1)"
    by (rule window_add_ok [OF s(2) _ _ w r]) simp_all
  have "(\<exists>s'. window_foco 4096 s1 = Some s' \<and> win_stack [4096] s') \<and> (\<exists>s'. window_remove 4096 s1 = Some s' \<and> win_stack [] s')"
    using window_list_ops [OF s1(2,3), of 4096] by auto
  with s(1) s1 show ?thesis by auto
qed

text \<open>The first node stands for no window, so looking for window 0 finds it; moving it behind itself
  makes it its own successor.\<close>

lemma window_foco_zero:
  assumes "win_stack ws s" and "ws \<noteq> []"
  shows "\<exists>s' n. window_foco 0 s = Some s' \<and> paint_ready_queue s' = paint_ready_queue s \<and>
     paints s' (paint_ready_queue s') = Some n \<and> paint_next n = paint_ready_queue s'"
proof -
  let ?q = "paint_ready_queue s"
  obtain as h where l: "lock_paint s = Some (s\<lparr>paints := h\<rparr>)" "win_core as h ?q" "ws_of h as = ws" "length as = length ws"
    by (rule stack_lock [OF assms(1)])
  obtain b bs where as: "as = b # bs" using assms(2) l(4) by (cases as) auto
  obtain n where n: "h ?q = Some n" "paint_w n = 0" "?q \<noteq> 0" "paint_next n \<noteq> 0"
    using l(2) as by (auto simp: win_core_def)
  have f: "find_pair 0 h ?q ?q = Some (?q, ?q)" using n by (simp add: find_pair.simps [of 0 h ?q ?q])
  have g: "last_node paint_next (h(?q \<mapsto> n\<lparr>paint_next := 0\<rparr>)) ?q = Some ?q" by (simp add: last_node.simps)
  show ?thesis using l(1) f g n by (simp add: window_foco_def upd_paint_def unlock_paint_def Let_def)
qed

end
