(* ===== verification/Thread.thy ===== *)
theory Thread
  imports Windowprops
begin

text \<open>
  Threads: \<^verbatim>\<open>kernel/thread.c\<close> (creation and the two schedulers), \<^verbatim>\<open>kernel/exit.c\<close> and the focus operations of
  \<^verbatim>\<open>kernel/server.c\<close>.

  A \<^verbatim>\<open>THREAD\<close> lives in pages of the kernel heap; \<open>threads\<close> holds the structures by address, \<open>pools\<close> the tables of
  the blocks a thread got through the system calls.  The threads form one list from \<^verbatim>\<open>thread_ready_queue\<close>
  through \<^verbatim>\<open>next\<close>; \<^verbatim>\<open>head\<close> and \<^verbatim>\<open>tail\<close> link a thread to its father and to its child.  The page tables of a program
  are in the memory of entries of the memory manager.  The register images that the interrupt entry stores for the two processors are \<open>ctx\<close> and
  \<open>ctx2\<close>.  What the hardware stores for \<^verbatim>\<open>SaveSSE\<close> is the parameter \<open>sse\<close>, the disk is \<open>rd\<close>.
\<close>

section \<open>State\<close>

record cpu_context =
  c_rax :: u64
  c_rbx :: u64
  c_rcx :: u64
  c_rdx :: u64
  c_rdi :: u64
  c_rsi :: u64
  c_rbp :: u64
  c_rsp :: u64
  c_rip :: u64
  c_r8 :: u64
  c_r9 :: u64
  c_r10 :: u64
  c_r11 :: u64
  c_r12 :: u64
  c_r13 :: u64
  c_r14 :: u64
  c_r15 :: u64
  c_cs :: u64
  c_ds :: u64
  c_es :: u64
  c_fs :: u64
  c_gs :: u64
  c_ss :: u64
  c_rflag :: u64
  c_cr3 :: u64
  c_pid :: u64
  c_fxsave :: "u8 list"

record THREAD =
  t_rax :: u64
  t_rbx :: u64
  t_rcx :: u64
  t_rdx :: u64
  t_rdi :: u64
  t_rsi :: u64
  t_rbp :: u64
  t_rsp :: u64
  t_rip :: u64
  t_r8 :: u64
  t_r9 :: u64
  t_r10 :: u64
  t_r11 :: u64
  t_r12 :: u64
  t_r13 :: u64
  t_r14 :: u64
  t_r15 :: u64
  t_cs :: u64
  t_ds :: u64
  t_es :: u64
  t_fs :: u64
  t_gs :: u64
  t_ss :: u64
  t_rflag :: u64
  t_cr3 :: u64
  t_fxsave :: "u8 list"
  t_rsp0 :: u64
  t_pdpte :: u64
  t_pid :: u64
  t_prv :: u64
  t_status :: u64
  t_stdin :: u64
  t_stdout :: u64
  t_stderr :: u64
  t_pipe :: u64
  t_mouse :: u64
  t_window :: u64
  t_id :: u64
  t_pml4e_addr :: u64
  t_pdpte_addr :: u64
  t_pde_addr :: u64
  t_pte_addr :: u64
  t_frame_size :: u64
  t_pool :: u64
  t_wait_pid :: u64
  t_head :: u64
  t_next :: u64
  t_tail :: u64

definition THREAD_zero :: THREAD where
  "THREAD_zero = \<lparr>t_rax = 0, t_rbx = 0, t_rcx = 0, t_rdx = 0, t_rdi = 0, t_rsi = 0, t_rbp = 0, t_rsp = 0, t_rip = 0, t_r8 = 0,
     t_r9 = 0, t_r10 = 0, t_r11 = 0, t_r12 = 0, t_r13 = 0, t_r14 = 0, t_r15 = 0, t_cs = 0, t_ds = 0, t_es = 0,
     t_fs = 0, t_gs = 0, t_ss = 0, t_rflag = 0, t_cr3 = 0, t_fxsave = replicate 512 0, t_rsp0 = 0, t_pdpte = 0,
     t_pid = 0, t_prv = 0, t_status = 0, t_stdin = 0, t_stdout = 0, t_stderr = 0, t_pipe = 0, t_mouse = 0,
     t_window = 0, t_id = 0, t_pml4e_addr = 0, t_pdpte_addr = 0, t_pde_addr = 0, t_pte_addr = 0, t_frame_size = 0,
     t_pool = 0, t_wait_pid = 0, t_head = 0, t_next = 0, t_tail = 0\<rparr>"

record POOL_SYSCALL =
  pool_ptr :: u64
  pool_size :: u32
  pool_flag :: u32

record thread_state = win_state +
  threads :: "u64 \<rightharpoonup> THREAD"
  pools :: "u64 \<rightharpoonup> POOL_SYSCALL list"
  current_thread :: u64
  thread_ready_queue :: u64
  current_thread1 :: u64
  current_thread2 :: u64
  next_pid :: u64
  threadz :: u32
  first_thread2 :: u32
  ctx :: cpu_context
  ctx2 :: cpu_context
  thread_id :: u64
  pipe_launcher :: u64
  mouse2 :: u64
  mult_task :: u8
  kernel_pml4e :: u64
  gui_horizontal_resolution :: u32
  gui_vertical_resolution :: u32
  gui_bpp :: u32
  gui_pixels_per_scan_line :: u32

abbreviation (input) THREAD_ZUMBI :: u64 where "THREAD_ZUMBI \<equiv> 1"
abbreviation (input) THREAD_WAIT :: u64 where "THREAD_WAIT \<equiv> 2"

definition upd_thread :: "u64 \<Rightarrow> (THREAD \<Rightarrow> THREAD) \<Rightarrow> 'a thread_state_scheme \<Rightarrow> 'a thread_state_scheme option" where
  "upd_thread p f s = do { t \<leftarrow> threads s p; Some (s\<lparr>threads := (threads s)(p \<mapsto> f t)\<rparr>) }"

definition new_pages :: "int \<Rightarrow> u32 \<Rightarrow> 'a thread_state_scheme \<Rightarrow> (u64 \<times> 'a thread_state_scheme) option" where
  "new_pages type len s = do { (_, p, mm) \<leftarrow> alloc_pages type len (fmm s); a \<leftarrow> p; Some (a, s\<lparr>fmm := mm\<rparr>) }"

definition free_obj :: "u64 \<Rightarrow> 'a thread_state_scheme \<Rightarrow> 'a thread_state_scheme option" where
  "free_obj a s = do { s \<leftarrow> free_win a s;
     Some (s\<lparr>threads := (threads s)(a := None), pools := (pools s)(a := None)\<rparr>) }"

section \<open>Creation\<close>

definition pool_zero :: POOL_SYSCALL where
  "pool_zero = \<lparr>pool_ptr = 0, pool_size = 0, pool_flag = 0\<rparr>"

definition new_pool :: "'a thread_state_scheme \<Rightarrow> (u64 \<times> 'a thread_state_scheme) option" where
  "new_pool s = do { (v, s) \<leftarrow> new_pages 0 2 s; Some (v, s\<lparr>pools := (pools s)(v \<mapsto> replicate 512 pool_zero)\<rparr>) }"

text \<open>The first thread, which runs already.\<close>

definition thread_setup :: "disk \<Rightarrow> u8 list \<Rightarrow> 'a thread_state_scheme \<Rightarrow> (u64 \<times> 'a thread_state_scheme) option" where
  "thread_setup rd sse s =
    do {
      let s = s\<lparr>threadz := 0, next_pid := 0, first_thread2 := 0\<rparr>;
      (addr, s) \<leftarrow> new_pages 0 2 s;
      let pid = next_pid s;
      let s = s\<lparr>thread_ready_queue := addr, current_thread := addr, next_pid := next_pid s + 1\<rparr>;
      (i, s) \<leftarrow> fopen rd [] ''stdin'' s;
      (out, s) \<leftarrow> fopen rd [] ''stdout'' s;
      (err, s) \<leftarrow> fopen rd [] ''stderr'' s;
      (pipe, s) \<leftarrow> fopen rd [] ''pipe'' s;
      (mouse, s) \<leftarrow> new_block 24 s;
      (pool, s) \<leftarrow> new_pool s;
      Some (pid, s\<lparr>threads := (threads s)(addr \<mapsto> THREAD_zero\<lparr>t_pid := pid, t_fxsave := sse, t_cs := 0x8, t_ss := 0x10,
                     t_rflag := 0x202, t_cr3 := kernel_pml4e s, t_stdin := i, t_stdout := out, t_stderr := err, t_pipe := pipe,
                     t_mouse := mouse, t_head := 0, t_prv := 0, t_next := 0, t_pool := pool\<rparr>),
                   current_thread1 := addr, current_thread2 := addr\<rparr>) }"

text \<open>Segments, flags and privilege of a new thread.\<close>

definition set_mode :: "u32 \<Rightarrow> THREAD \<Rightarrow> THREAD" where
  "set_mode pv t =
    (if pv AND 1 = 1 then t\<lparr>t_cs := 0x1B, t_ss := 0x23, t_prv := 1, t_rflag := 0x202\<rparr>
     else t\<lparr>t_cs := 0x8, t_ss := 0x10, t_prv := 0, t_rflag := 0x202\<rparr>)"

definition set_second :: "u32 \<Rightarrow> THREAD \<Rightarrow> THREAD" where
  "set_second pv t = (if pv AND 0x80 = 0x80 then t\<lparr>t_prv := t_prv t OR 0x80\<rparr> else t)"

text \<open>The arguments of a new thread, in the registers where the program finds them.\<close>

definition set_args :: "u64 \<Rightarrow> u32 \<Rightarrow> u64 \<Rightarrow> u64 \<Rightarrow> THREAD \<Rightarrow> THREAD" where
  "set_args rbx argc argv pwd t =
    t\<lparr>t_rcx := t_stdin t, t_rdx := t_stdout t, t_rsi := t_stderr t, t_rdi := t_window t, t_rbx := rbx, t_r8 := 0, t_r9 := 0,
      t_r10 := t_pipe t, t_rax := t_mouse t, t_r11 := scast argc, t_r12 := argv, t_r13 := pwd\<rparr>"

text \<open>A new element comes at the end of the list.\<close>

definition append_thread :: "u64 \<Rightarrow> 'a thread_state_scheme \<Rightarrow> 'a thread_state_scheme option" where
  "append_thread new s =
    do {
      tmp \<leftarrow> last_node t_next (threads s) (thread_ready_queue s);
      upd_thread tmp (\<lambda>t. t\<lparr>t_next := new\<rparr>) s }"

definition new_window :: "u32 \<Rightarrow> THREAD \<Rightarrow> 'a thread_state_scheme \<Rightarrow> (THREAD \<times> 'a thread_state_scheme) option" where
  "new_window pv t s =
    (if pv AND 0x10 \<noteq> 0 then do {
       (v, s) \<leftarrow> new_pages 1 (512 * 3) s;
       Some (t\<lparr>t_window := v, t_prv := t_prv t OR 0x10, t_id := thread_id s\<rparr>,
             s\<lparr>windows := (windows s)(v \<mapsto> \<lparr>win_rx = gui_horizontal_resolution s, win_ry = gui_vertical_resolution s,
                 win_bpp = gui_bpp s, win_scanline = gui_pixels_per_scan_line s, win_gid = 0\<rparr>)\<rparr>) }
     else Some (t, s))"

definition create_thread :: "disk \<Rightarrow> u8 list \<Rightarrow> u64 \<Rightarrow> u64 \<Rightarrow> u64 \<Rightarrow> u64 \<Rightarrow> u32 \<Rightarrow> u32 \<Rightarrow> u64 \<Rightarrow> u64 \<Rightarrow> 'a thread_state_scheme
    \<Rightarrow> (u64 \<times> 'a thread_state_scheme) option" where
  "create_thread rd sse main rsp cr3 rbx pv argc argv pwd s =
    do {
      (new_thread, s) \<leftarrow> new_pages 0 2 s;
      let t = THREAD_zero\<lparr>t_pid := next_pid s, t_fxsave := sse, t_rsp := rsp, t_rip := main\<rparr>;
      let s = s\<lparr>next_pid := next_pid s + 1\<rparr>;
      let t = set_second pv (set_mode pv t);
      let t = t\<lparr>t_cr3 := cr3\<rparr>;
      (i, s) \<leftarrow> fopen rd [] ''stdin'' s;
      (out, s) \<leftarrow> fopen rd [] ''stdout'' s;
      (err, s) \<leftarrow> fopen rd [] ''stderr'' s;
      (pipe, s) \<leftarrow> fopen rd [] ''pipe'' s;
      (mouse, s) \<leftarrow> new_block 24 s;
      let t = t\<lparr>t_stdin := i, t_stdout := out, t_stderr := err, t_pipe := pipe, t_mouse := mouse, t_prv := t_prv t OR 0x20\<rparr>;
      (t, s) \<leftarrow> new_window pv t s;
      let t = set_args rbx argc argv pwd t;
      let t = t\<lparr>t_head := new_thread, t_next := 0, t_tail := 0, t_wait_pid := t_pid t\<rparr>;
      (pool, s) \<leftarrow> new_pool s;
      s \<leftarrow> append_thread new_thread (s\<lparr>threads := (threads s)(new_thread \<mapsto> t\<lparr>t_pool := pool\<rparr>)\<rparr>);
      Some (new_thread, s) }"

text \<open>A child shares the streams, the mouse and the window of its father.\<close>

definition share_streams :: "THREAD \<Rightarrow> THREAD \<Rightarrow> THREAD" where
  "share_streams f t = t\<lparr>t_stdin := t_stdin f, t_stdout := t_stdout f, t_stderr := t_stderr f, t_pipe := t_pipe f,
     t_mouse := t_mouse f, t_window := t_window f\<rparr>"

definition create_thread_child :: "u8 list \<Rightarrow> u64 \<Rightarrow> u64 \<Rightarrow> u64 \<Rightarrow> u64 \<Rightarrow> u32 \<Rightarrow> u32 \<Rightarrow> u64 \<Rightarrow> u64 \<Rightarrow> u64 \<Rightarrow> 'a thread_state_scheme
    \<Rightarrow> (u64 \<times> 'a thread_state_scheme) option" where
  "create_thread_child sse main rsp cr3 rbx pv argc argv pwd thread s =
    do {
      (new_thread, s) \<leftarrow> new_pages 0 2 s;
      let t = THREAD_zero\<lparr>t_pid := next_pid s, t_fxsave := sse, t_rsp := rsp, t_rip := main\<rparr>;
      let s = s\<lparr>next_pid := next_pid s + 1\<rparr>;
      let t = set_second pv (set_mode pv t);
      father \<leftarrow> threads s thread;
      let t = share_streams father (t\<lparr>t_cr3 := cr3\<rparr>);
      let t = set_args rbx argc argv pwd t;
      let t = t\<lparr>t_head := thread, t_next := 0, t_tail := 0\<rparr>;
      s \<leftarrow> upd_thread thread (\<lambda>f. f\<lparr>t_wait_pid := t_pid t\<rparr>) s;
      (pool, s) \<leftarrow> new_pool s;
      s \<leftarrow> append_thread new_thread (s\<lparr>threads := (threads s)(new_thread \<mapsto> t\<lparr>t_pool := pool\<rparr>)\<rparr>);
      s \<leftarrow> upd_thread thread (\<lambda>f. f\<lparr>t_tail := new_thread\<rparr>) s;
      Some (new_thread, s) }"

definition pthread_create :: "u8 list \<Rightarrow> u64 \<Rightarrow> u64 \<Rightarrow> u32 \<Rightarrow> u64 \<Rightarrow> 'a thread_state_scheme \<Rightarrow> (u64 \<times> 'a thread_state_scheme) option" where
  "pthread_create sse main rsp pv thread s =
    do {
      (new_thread, s) \<leftarrow> new_pages 0 2 s;
      let t = THREAD_zero\<lparr>t_pid := next_pid s, t_fxsave := sse, t_rsp := rsp, t_rip := main, t_status := THREAD_ZUMBI\<rparr>;
      let s = s\<lparr>next_pid := next_pid s + 1\<rparr>;
      let t = set_mode pv t;
      father \<leftarrow> threads s thread;
      let t = share_streams father (t\<lparr>t_cr3 := t_cr3 father\<rparr>);
      let t = set_args 0 0 0 0 t;
      let t = t\<lparr>t_head := thread, t_next := 0, t_tail := 0\<rparr>;
      s \<leftarrow> upd_thread thread (\<lambda>f. f\<lparr>t_wait_pid := t_pid t\<rparr>) s;
      (pool, s) \<leftarrow> new_pool s;
      s \<leftarrow> append_thread new_thread (s\<lparr>threads := (threads s)(new_thread \<mapsto> t\<lparr>t_pool := pool\<rparr>)\<rparr>);
      s \<leftarrow> upd_thread thread (\<lambda>f. f\<lparr>t_tail := new_thread\<rparr>) s;
      Some (new_thread, s) }"

definition pthread_join :: "u64 \<Rightarrow> 'a thread_state_scheme \<Rightarrow> (int \<times> 'a thread_state_scheme) option" where
  "pthread_join thread s = do { s \<leftarrow> upd_thread thread (\<lambda>t. t\<lparr>t_status := t_status t AND NOT THREAD_ZUMBI\<rparr>) s; Some (0, s) }"

section \<open>The schedulers\<close>

text \<open>The loops that copy the 512 bytes of the floating point registers.\<close>

definition copy512 :: "u8 list \<Rightarrow> u8 list" where
  "copy512 src = map (\<lambda>i. src ! i) [0..<512]"

definition save_context :: "cpu_context \<Rightarrow> THREAD \<Rightarrow> THREAD" where
  "save_context c t = t\<lparr>
     t_rax := c_rax c, t_rbx := c_rbx c, t_rcx := c_rcx c, t_rdx := c_rdx c, t_rdi := c_rdi c, t_rsi := c_rsi c,
     t_rbp := c_rbp c, t_rsp := c_rsp c, t_rip := c_rip c, t_r8 := c_r8 c, t_r9 := c_r9 c, t_r10 := c_r10 c,
     t_r11 := c_r11 c, t_r12 := c_r12 c, t_r13 := c_r13 c, t_r14 := c_r14 c, t_r15 := c_r15 c, t_cs := c_cs c,
     t_ds := c_ds c, t_es := c_es c, t_fs := c_fs c, t_gs := c_gs c, t_ss := c_ss c, t_rflag := c_rflag c,
     t_cr3 := c_cr3 c, t_fxsave := copy512 (c_fxsave c)\<rparr>"

definition load_context :: "THREAD \<Rightarrow> cpu_context \<Rightarrow> cpu_context" where
  "load_context t c = c\<lparr>
     c_rax := t_rax t, c_rbx := t_rbx t, c_rcx := t_rcx t, c_rdx := t_rdx t, c_rdi := t_rdi t, c_rsi := t_rsi t,
     c_rbp := t_rbp t, c_rsp := t_rsp t, c_rip := t_rip t, c_r8 := t_r8 t, c_r9 := t_r9 t, c_r10 := t_r10 t,
     c_r11 := t_r11 t, c_r12 := t_r12 t, c_r13 := t_r13 t, c_r14 := t_r14 t, c_r15 := t_r15 t, c_cs := t_cs t,
     c_ds := t_ds t, c_es := t_es t, c_fs := t_fs t, c_gs := t_gs t, c_ss := t_ss t, c_rflag := t_rflag t,
     c_cr3 := t_cr3 t, c_pid := t_pid t, c_fxsave := copy512 (t_fxsave t)\<rparr>"

text \<open>The threads that each scheduler passes over.\<close>

definition runs_here :: "THREAD \<Rightarrow> bool" where
  "runs_here t \<longleftrightarrow> \<not> (t_prv t AND 0x80 \<noteq> 0 \<or> t_status t AND THREAD_ZUMBI \<noteq> 0 \<or> t_status t AND THREAD_WAIT \<noteq> 0)"

definition task_switch :: "'a thread_state_scheme \<Rightarrow> 'a thread_state_scheme option" where
  "task_switch s =
    do {
      s \<leftarrow> upd_thread (current_thread s) (save_context (ctx s)) s;
      t \<leftarrow> threads s (current_thread s);
      p \<leftarrow> find_node t_next runs_here (threads s) (t_next t);
      let p = (if p = 0 then thread_ready_queue s else p);
      t \<leftarrow> threads s p;
      Some (s\<lparr>current_thread := p, ctx := load_context t (ctx s)\<rparr>) }"

definition runs_second :: "THREAD \<Rightarrow> bool" where
  "runs_second t \<longleftrightarrow> t_prv t AND 0x80 \<noteq> 0 \<and> t_status t AND THREAD_ZUMBI \<noteq> THREAD_ZUMBI \<and> t_status t AND THREAD_WAIT \<noteq> THREAD_WAIT"

text \<open>The restoring half of \<^verbatim>\<open>task_switch2\<close>, from its label on.\<close>

definition restore2 :: "u64 \<Rightarrow> 'a thread_state_scheme \<Rightarrow> 'a thread_state_scheme option" where
  "restore2 tmp s = do { t \<leftarrow> threads s tmp; Some (s\<lparr>ctx2 := load_context t (ctx2 s)\<rparr>) }"

definition task_switch2 :: "'a thread_state_scheme \<Rightarrow> 'a thread_state_scheme option" where
  "task_switch2 s =
    do {
      let tmp = current_thread2 s;
      s \<leftarrow> (if first_thread2 s \<noteq> 0 then upd_thread tmp (save_context (ctx2 s)) s else Some s);
      if first_thread2 s \<noteq> 0 \<and> threadz s \<noteq> 0 then restore2 tmp s
      else do {
        t \<leftarrow> threads s tmp;
        p \<leftarrow> find_node t_next runs_second (threads s) (t_next t);
        p \<leftarrow> (if p \<noteq> 0 then Some p else find_node t_next runs_second (threads s) (thread_ready_queue s));
        if p = 0 then Some s
        else restore2 p (s\<lparr>current_thread2 := p, first_thread2 := 1\<rparr>) } }"

definition getpid :: "'a thread_state_scheme \<Rightarrow> u64 option" where
  "getpid s = do { t \<leftarrow> threads s (current_thread s); Some (t_pid t) }"

definition getpid2 :: "'a thread_state_scheme \<Rightarrow> u64 option" where
  "getpid2 s =
    do {
      t \<leftarrow> threads s (current_thread s);
      let thread = (if t_head t = 0 then current_thread s else t_head t);
      t \<leftarrow> threads s thread;
      Some (t_pid t) }"

definition get_thread :: "u64 \<Rightarrow> 'a thread_state_scheme \<Rightarrow> u64 option" where
  "get_thread pid s = find_node t_next (\<lambda>t. t_pid t = pid) (threads s) (thread_ready_queue s)"

section \<open>Focus\<close>

definition foco :: "u64 \<Rightarrow> u64 \<Rightarrow> 'a thread_state_scheme \<Rightarrow> 'a thread_state_scheme option" where
  "foco pid ident s =
    do {
      tmp \<leftarrow> find_node t_next (\<lambda>t. t_id t = ident) (threads s) (thread_ready_queue s);
      if tmp = 0 then Some s
      else do {
        t \<leftarrow> threads s tmp;
        window_foco (t_window t)
          (s\<lparr>std_in := t_stdin t, std_out := t_stdout t, std_err := t_stderr t, mouse2 := t_mouse t\<rparr>) } }"

definition foco_default :: "'a thread_state_scheme \<Rightarrow> 'a thread_state_scheme option" where
  "foco_default s =
    do {
      t \<leftarrow> threads s (thread_ready_queue s);
      Some (s\<lparr>std_in := t_stdin t, std_out := t_stdout t, std_err := t_stderr t, mouse2 := t_mouse t\<rparr>) }"

section \<open>Exit\<close>

definition user_free :: "u64 \<Rightarrow> 'a thread_state_scheme \<Rightarrow> 'a thread_state_scheme option" where
  "user_free thr s =
    do {
      t \<leftarrow> threads s thr;
      m \<leftarrow> pools s (t_pool t);
      s \<leftarrow> fold (\<lambda>e r. r \<bind> (\<lambda>s. if pool_ptr e \<noteq> 0 then free_obj (pool_ptr e) s else Some s)) (take 512 m) (Some s);
      free_obj (t_pool t) s }"

partial_function (option) mark_zumbi :: "u64 \<Rightarrow> 'a thread_state_scheme \<Rightarrow> 'a thread_state_scheme option" where
  "mark_zumbi tmp s =
     (if tmp = 0 then Some s
      else do {
        s \<leftarrow> upd_thread tmp (\<lambda>t. t\<lparr>t_status := t_status t OR THREAD_ZUMBI\<rparr>) s;
        t \<leftarrow> threads s tmp;
        mark_zumbi (t_tail t) s })"

text \<open>The frames of a program, listed by its page tables.  The kernel reaches the entries through its own
  mapping: \<open>kaddr v\<close> is the physical address behind \<open>v\<close>.\<close>

definition kaddr :: "u64 \<Rightarrow> 'a mm_state_scheme \<Rightarrow> nat" where
  "kaddr v m = unat (get_phy_addr v m) + unat (v AND 0xfff)"

fun free_frames_loop :: "nat \<Rightarrow> u64 \<Rightarrow> 'a mm_state_scheme \<Rightarrow> 'a mm_state_scheme" where
  "free_frames_loop 0 p m = m"
| "free_frames_loop (Suc n) p m =
     (let phy = ucast (push_bit 12 (frames (pte_mem m (kaddr p m)))) AND 0xffffffffffff;
          (_, m) = free_frame phy m
      in free_frames_loop n (p + 8) m)"

definition free_frames_of :: "THREAD \<Rightarrow> 'a thread_state_scheme \<Rightarrow> 'a thread_state_scheme" where
  "free_frames_of t s = s\<lparr>fmm := free_frames_loop (unat (t_frame_size t)) (t_pte_addr t) (fmm s)\<rparr>"

text \<open>The message for the launcher: eight 16-bit words, the last four the id of the thread.\<close>

definition exit_message :: "u64 \<Rightarrow> u8 list" where
  "exit_message ident = concat (map le16 [0x1001, 0, 0, 0, ucast ident, ucast (drop_bit 16 ident), ucast (drop_bit 32 ident), ucast (drop_bit 48 ident)])"

definition close_streams :: "THREAD \<Rightarrow> 'a thread_state_scheme \<Rightarrow> 'a thread_state_scheme option" where
  "close_streams t s =
    do {
      (_, s) \<leftarrow> fclose (t_stdin t) s;
      (_, s) \<leftarrow> fclose (t_stdout t) s;
      (_, s) \<leftarrow> fclose (t_stderr t) s;
      (_, s) \<leftarrow> fclose (t_pipe t) s;
      free_obj (t_mouse t) s }"

text \<open>What one round of the second loop of \<^verbatim>\<open>exit\<close> releases.\<close>

definition release_thread :: "u64 \<Rightarrow> 'a thread_state_scheme \<Rightarrow> 'a thread_state_scheme option" where
  "release_thread tmp s =
    do {
      t \<leftarrow> threads s tmp;
      let s = free_frames_of t s;
      s \<leftarrow> free_obj (t_pml4e_addr t) s;
      s \<leftarrow> free_obj (t_pdpte_addr t) s;
      s \<leftarrow> free_obj (t_pde_addr t) s;
      s \<leftarrow> free_obj (t_pte_addr t) s;
      s \<leftarrow> (if t_prv t AND 0x10 \<noteq> 0 then do { s \<leftarrow> window_remove (t_window t) s; free_obj (t_window t) s } else Some s);
      s \<leftarrow> (if t_prv t AND 0x20 \<noteq> 0 then do {
              s \<leftarrow> foco_default s;
              s \<leftarrow> close_streams t s;
              (_, s) \<leftarrow> pipe_write (exit_message (t_id t)) (pipe_launcher s) s;
              Some s }
            else Some s);
      user_free tmp s }"

partial_function (option) release_all :: "u64 \<Rightarrow> 'a thread_state_scheme \<Rightarrow> 'a thread_state_scheme option" where
  "release_all tmp s =
     (if tmp = 0 then Some s
      else do { s \<leftarrow> release_thread tmp s; t \<leftarrow> threads s tmp; release_all (t_tail t) s })"

definition unlink_thread :: "u64 \<Rightarrow> 'a thread_state_scheme \<Rightarrow> 'a thread_state_scheme option" where
  "unlink_thread tmp s =
    do {
      l \<leftarrow> find_node t_next (\<lambda>t. t_next t = tmp) (threads s) (thread_ready_queue s);
      if l = 0 then Some s
      else do {
        t \<leftarrow> threads s tmp;
        s \<leftarrow> upd_thread l (\<lambda>n. n\<lparr>t_next := t_next t\<rparr>) s;
        t \<leftarrow> threads s tmp;
        upd_thread (t_head t) (\<lambda>f. f\<lparr>t_status := t_status f AND NOT THREAD_WAIT, t_tail := 0\<rparr>) s } }"

partial_function (option) unlink_all :: "u64 \<Rightarrow> 'a thread_state_scheme \<Rightarrow> 'a thread_state_scheme option" where
  "unlink_all tmp s =
     (if tmp = 0 then Some s
      else do {
        s \<leftarrow> unlink_thread tmp s;
        t \<leftarrow> threads s tmp;
        s \<leftarrow> free_obj tmp s;
        unlink_all (t_tail t) s })"

definition exit :: "u64 \<Rightarrow> 'a thread_state_scheme \<Rightarrow> 'a thread_state_scheme option" where
  "exit thr s =
    do {
      s \<leftarrow> mark_zumbi thr s;
      t \<leftarrow> threads s thr;
      (_, s) \<leftarrow> pipe_write (exit_message 0) (t_pipe t) s;
      s \<leftarrow> release_all thr s;
      let s = s\<lparr>mult_task := 0\<rparr>;
      t \<leftarrow> threads s thr;
      s \<leftarrow> (if t_prv t AND 0x20 = 0 then do {
              f \<leftarrow> find_node t_next (\<lambda>t. t_tail t = thr) (threads s) (thread_ready_queue s);
              if f = 0 then Some s else upd_thread f (\<lambda>t. t\<lparr>t_tail := 0\<rparr>) s }
            else Some s);
      s \<leftarrow> unlink_all thr s;
      Some (s\<lparr>mult_task := 1\<rparr>) }"

end
