(* ===== verification/Sched.thy ===== *)
theory Sched
  imports Thread Fileprops
begin

text \<open>
  The thread queue and the scheduler.  \<open>thread_inv qs s\<close>: the threads are the list \<open>qs\<close>, in allocated
  blocks, with distinct process numbers below the next one, and both processors run one of them.
\<close>

section \<open>Invariant\<close>

interpretation thread: linked t_next "\<lambda>q n. n\<lparr>t_next := q\<rparr>"
  by unfold_locales simp

definition thr :: "'a thread_state_scheme \<Rightarrow> u64 \<Rightarrow> THREAD" where
  "thr s a = the (threads s a)"

definition thread_inv :: "u64 list \<Rightarrow> 'a thread_state_scheme \<Rightarrow> bool" where
  "thread_inv qs s \<longleftrightarrow> chain t_next (threads s) (thread_ready_queue s) qs \<and> dom (threads s) = set qs \<and> set qs \<subseteq> live_blocks (fmm s) \<and>
     current_thread s \<in> set qs \<and> current_thread2 s \<in> set qs \<and> distinct (map (\<lambda>a. t_pid (thr s a)) qs) \<and>
     (\<forall>a \<in> set qs. t_pid (thr s a) < next_pid s \<and> length (t_fxsave (thr s a)) = 512) \<and>
     length (c_fxsave (ctx s)) = 512 \<and> length (c_fxsave (ctx2 s)) = 512"

lemma thread_inv_node: "thread_inv qs s \<Longrightarrow> a \<in> set qs \<Longrightarrow> a \<noteq> 0 \<and> threads s a = Some (thr s a)"
  unfolding thread_inv_def thr_def using chain_nodes [of t_next "threads s" "thread_ready_queue s" qs a] by auto

lemma thread_inv_queue: "thread_inv qs s \<Longrightarrow> qs \<noteq> [] \<and> thread_ready_queue s = hd qs"
  unfolding thread_inv_def by (cases qs) auto

text \<open>The rest of the list, from the link of a thread in it.\<close>

lemma chain_rest: "chain nx h p (us @ a # vs) \<Longrightarrow> h a = Some n \<Longrightarrow> chain nx h (nx n) vs"
  by (auto simp: chain_append)

lemma thr_upd [simp]: "thr (s\<lparr>threads := h\<rparr>) a = the (h a)"
  by (simp add: thr_def)

text \<open>Writes to a thread that keep its link, its number and its floating point image keep the invariant.\<close>

lemma thread_inv_upd:
  assumes "thread_inv qs s" and "a \<in> set qs"
    and "t_next t = t_next (thr s a)" "t_pid t = t_pid (thr s a)" "length (t_fxsave t) = 512"
  shows "thread_inv qs (s\<lparr>threads := (threads s)(a \<mapsto> t)\<rparr>)"
proof -
  note n = conjunct2 [OF thread_inv_node [OF assms(1,2)]]
  have p: "t_pid (the (((threads s)(a \<mapsto> t)) b)) = t_pid (thr s b)" for b using assms(4) by (simp add: thr_def)
  have "chain t_next ((threads s)(a \<mapsto> t)) (thread_ready_queue s) qs"
    using assms(1,3) n thread.chain_update [of "threads s" a "thr s a" t] by (simp add: thread_inv_def)
  moreover have "length (t_fxsave (the (((threads s)(a \<mapsto> t)) b))) = 512" if "b \<in> set qs" for b
    using assms(1,5) that by (simp add: thread_inv_def thr_def)
  moreover have "dom ((threads s)(a \<mapsto> t)) = set qs" using assms(1,2) by (auto simp: thread_inv_def)
  ultimately show ?thesis using assms(1) unfolding thread_inv_def thr_upd by (simp add: p del: fun_upd_apply dom_fun_upd)
qed

lemma get_thread_found:
  assumes "thread_inv qs s" and "a \<in> set qs"
  shows "get_thread (t_pid (thr s a)) s = Some a"
proof -
  have c: "chain t_next (threads s) (thread_ready_queue s) qs" and d: "distinct (map (\<lambda>a. t_pid (thr s a)) qs)"
    using assms(1) by (simp_all add: thread_inv_def)
  have "find (\<lambda>b. t_pid (thr s b) = t_pid (thr s a)) qs = Some a"
  proof (cases "find (\<lambda>b. t_pid (thr s b) = t_pid (thr s a)) qs")
    case None
    then show ?thesis using assms(2) by (auto simp: find_None_iff)
  next
    case (Some b)
    then have "b \<in> set qs" "t_pid (thr s b) = t_pid (thr s a)" by (auto simp: find_Some_iff)
    with assms(2) d have "b = a" by (auto simp: distinct_map dest: inj_onD)
    with Some show ?thesis by simp
  qed
  then show ?thesis using find_node_chain [OF c, of "\<lambda>t. t_pid t = t_pid (thr s a)"] by (simp add: get_thread_def thr_def)
qed

lemma get_thread_none:
  assumes "thread_inv qs s" and "\<forall>a \<in> set qs. t_pid (thr s a) \<noteq> pid"
  shows "get_thread pid s = Some 0"
proof -
  have c: "chain t_next (threads s) (thread_ready_queue s) qs" using assms(1) by (simp add: thread_inv_def)
  have "find (\<lambda>b. t_pid (the (threads s b)) = pid) qs = None" using assms(2) by (auto simp: find_None_iff thr_def)
  then show ?thesis using find_node_chain [OF c, of "\<lambda>t. t_pid t = pid"] by (simp add: get_thread_def)
qed

section \<open>Switching\<close>

lemma copy512_id: "length xs = 512 \<Longrightarrow> copy512 xs = xs"
  unfolding copy512_def by (rule nth_equalityI) simp_all

lemma copy512_length: "length (copy512 xs) = 512"
  by (simp add: copy512_def)

lemma load_save: "length (c_fxsave c) = 512 \<Longrightarrow> load_context (save_context c t) c' = c\<lparr>c_pid := t_pid t\<rparr>"
  by (cases c) (simp add: load_context_def save_context_def copy512_id)

lemma save_context_simps [simp]:
  "t_next (save_context c t) = t_next t" "t_pid (save_context c t) = t_pid t" "t_prv (save_context c t) = t_prv t"
  "t_status (save_context c t) = t_status t" "length (t_fxsave (save_context c t)) = 512"
  by (simp_all add: save_context_def copy512_length)

lemma load_context_simps [simp]: "length (c_fxsave (load_context t c)) = 512" "c_pid (load_context t c) = t_pid t"
  by (simp_all add: load_context_def copy512_length)

lemma runs_save [simp]: "runs_here (save_context c t) = runs_here t" "runs_second (save_context c t) = runs_second t"
  by (simp_all add: runs_here_def runs_second_def)

lemma task_switch_steps:
  assumes "threads s (current_thread s) = Some t"
    and "find_node t_next runs_here ((threads s)(current_thread s \<mapsto> save_context (ctx s) t)) (t_next t) = Some p"
    and "(if p = 0 then thread_ready_queue s else p) = n"
    and "((threads s)(current_thread s \<mapsto> save_context (ctx s) t)) n = Some tn"
  shows "task_switch s = Some (s\<lparr>threads := (threads s)(current_thread s \<mapsto> save_context (ctx s) t), current_thread := n,
     ctx := load_context tn (ctx s)\<rparr>)"
  using assms by (cases "p = 0") (simp_all add: task_switch_def upd_thread_def Let_def fun_upd_same del: fun_upd_apply)

text \<open>The thread that follows \<open>c\<close> in the queue.\<close>

definition next_of :: "(u64 \<Rightarrow> bool) \<Rightarrow> u64 list \<Rightarrow> u64 \<Rightarrow> u64" where
  "next_of P qs c = (case find P (tl (dropWhile (\<lambda>a. a \<noteq> c) qs)) of None \<Rightarrow> hd qs | Some a \<Rightarrow> a)"

lemma next_of_split:
  assumes "distinct (us @ c # vs)"
  shows "next_of P (us @ c # vs) c = (case find P vs of None \<Rightarrow> hd (us @ c # vs) | Some a \<Rightarrow> a)"
proof -
  have "dropWhile (\<lambda>a. a \<noteq> c) (us @ c # vs) = c # vs" using assms by (subst dropWhile_append2) auto
  then show ?thesis by (simp add: next_of_def)
qed

lemma find_mem: "find P xs = Some x \<Longrightarrow> x \<in> set xs \<and> P x"
  by (auto simp: find_Some_iff)

lemma next_of_mem: "qs \<noteq> [] \<Longrightarrow> next_of P qs c \<in> set qs"
proof -
  assume ne: "qs \<noteq> []"
  show ?thesis
  proof (cases "find P (tl (dropWhile (\<lambda>a. a \<noteq> c) qs))")
    case (Some x)
    then have "x \<in> set (dropWhile (\<lambda>a. a \<noteq> c) qs)" by (metis find_mem list.sel(2) list.set_sel(2))
    with Some show ?thesis by (auto simp: next_of_def dest: set_dropWhileD)
  qed (simp add: next_of_def ne)
qed

lemma task_switch_ok:
  assumes inv: "thread_inv qs s"
  defines "ts \<equiv> (threads s)(current_thread s \<mapsto> save_context (ctx s) (thr s (current_thread s)))"
    and "n \<equiv> next_of (\<lambda>a. runs_here (thr s a)) qs (current_thread s)"
  shows "task_switch s = Some (s\<lparr>threads := ts, current_thread := n, ctx := load_context (the (ts n)) (ctx s)\<rparr>)"
    and "thread_inv qs (s\<lparr>threads := ts, current_thread := n, ctx := load_context (the (ts n)) (ctx s)\<rparr>)"
proof -
  let ?c = "current_thread s"
  let ?n = "next_of (\<lambda>a. runs_here (thr s a)) qs ?c"
  let ?t = "save_context (ctx s) (thr s ?c)"
  let ?ts = "(threads s)(?c \<mapsto> ?t)"
  let ?s = "s\<lparr>threads := ?ts, current_thread := ?n, ctx := load_context (the (?ts ?n)) (ctx s)\<rparr>"
  have c: "?c \<in> set qs" using inv by (simp add: thread_inv_def)
  then obtain us vs where qs: "qs = us @ ?c # vs" by (meson split_list)
  note tc = conjunct2 [OF thread_inv_node [OF inv c]]
  have ch: "chain t_next ?ts (thread_ready_queue s) qs"
    using inv tc thread.chain_update [of "threads s" ?c "thr s ?c" ?t] by (simp add: thread_inv_def)
  then have d: "distinct qs" by (rule chain_distinct)
  have rest: "chain t_next ?ts (t_next ?t) vs" by (rule chain_rest [OF ch [unfolded qs]]) simp
  have eq: "runs_here (the (?ts a)) = runs_here (thr s a)" for a by (simp add: thr_def)
  have nn: "?n = (case find (\<lambda>a. runs_here (thr s a)) vs of None \<Rightarrow> hd qs | Some a \<Rightarrow> a)"
    using next_of_split [of us ?c vs] d qs by metis
  have fd: "find_node t_next runs_here ?ts (t_next ?t) = Some (case find (\<lambda>a. runs_here (thr s a)) vs of None \<Rightarrow> 0 | Some a \<Rightarrow> a)"
    using find_node_chain [OF rest, of runs_here] by (simp only: eq)
  have "a \<noteq> 0" if "find (\<lambda>a. runs_here (thr s a)) vs = Some a" for a
    using find_mem [OF that] thread_inv_node [OF inv, of a] qs by (metis Un_iff list.set_intros(2) set_append)
  then obtain p where p: "find_node t_next runs_here ?ts (t_next ?t) = Some p" "(if p = 0 then thread_ready_queue s else p) = ?n"
    using fd nn thread_inv_queue [OF inv] by (auto split: option.splits)
  have n: "?n \<in> set qs" using next_of_mem thread_inv_queue [OF inv] by blast
  then obtain tn where tn: "?ts ?n = Some tn" using thread_inv_node [OF inv] by fastforce
  have "task_switch s = Some ?s"
    using task_switch_steps [OF tc p(1) [unfolded save_context_simps] p(2) tn] tn by (simp del: fun_upd_apply)
  then show "task_switch s = Some (s\<lparr>threads := ts, current_thread := n, ctx := load_context (the (ts n)) (ctx s)\<rparr>)"
    unfolding ts_def n_def .
  have "thread_inv qs ?s"
  proof -
    define s' where "s' = ?s"
    have f: "threads s' = ?ts" "current_thread s' = ?n" "length (c_fxsave (ctx s')) = 512" "ctx2 s' = ctx2 s" "fmm s' = fmm s"
      "thread_ready_queue s' = thread_ready_queue s" "current_thread2 s' = current_thread2 s" "next_pid s' = next_pid s"
      by (simp_all add: s'_def)
    have th: "thr s' a = (if a = ?c then ?t else thr s a)" for a by (simp add: thr_def f(1))
    have pid: "t_pid (thr s' a) = t_pid (thr s a)" for a by (simp add: th)
    have "length (t_fxsave (thr s' a)) = 512" if "a \<in> set qs" for a using inv that by (simp add: th thread_inv_def)
    then show ?thesis unfolding s'_def [symmetric] using inv ch n c by (simp add: thread_inv_def f pid insert_absorb del: fun_upd_apply)
  qed
  then show "thread_inv qs (s\<lparr>threads := ts, current_thread := n, ctx := load_context (the (ts n)) (ctx s)\<rparr>)"
    unfolding ts_def n_def .
qed

section \<open>Rounds\<close>

text \<open>Timer interrupts, between which the running thread changes the registers by \<open>step\<close>.\<close>

fun ticks :: "(nat \<Rightarrow> cpu_context \<Rightarrow> cpu_context) \<Rightarrow> nat \<Rightarrow> 'a thread_state_scheme \<Rightarrow> 'a thread_state_scheme option" where
  "ticks step 0 s = Some s"
| "ticks step (Suc k) s = do { s \<leftarrow> ticks step k s; task_switch (s\<lparr>ctx := step k (ctx s)\<rparr>) }"

lemma find_filter: "find P xs = (case filter P xs of [] \<Rightarrow> None | x # _ \<Rightarrow> Some x)"
  by (induction xs) auto

lemma next_ring:
  assumes "distinct qs" and "qs \<noteq> []" and "P (hd qs)" and "k < length (filter P qs)"
  shows "next_of P qs (filter P qs ! k) = filter P qs ! (Suc k mod length (filter P qs))"
proof -
  define c where "c = filter P qs ! k"
  have "c \<in> set (filter P qs)" unfolding c_def using assms(4) by (rule nth_mem)
  then have c: "P c" "c \<in> set qs" by auto
  then obtain us vs where qs: "qs = us @ c # vs" by (meson split_list)
  have f: "filter P qs = filter P us @ c # filter P vs" using qs c by simp
  have "filter P qs ! length (filter P us) = filter P qs ! k" unfolding c_def [symmetric] by (simp add: f)
  then have k: "k = length (filter P us)"
    using nth_eq_iff_index_eq [OF distinct_filter [OF assms(1)], of "length (filter P us)" P k] assms(4) by (simp add: f)
  have n: "next_of P qs c = (case filter P vs of [] \<Rightarrow> hd qs | x # _ \<Rightarrow> x)"
    unfolding qs using next_of_split [of us c vs P] assms(1) qs by (simp add: find_filter split: list.splits)
  show ?thesis
  proof (cases "filter P vs")
    case Nil
    then have "Suc k mod length (filter P qs) = 0" by (simp add: f k)
    moreover have "filter P qs ! 0 = hd qs" using assms(2,3) by (cases qs) auto
    ultimately show ?thesis using n Nil unfolding c_def by simp
  next
    case (Cons x xs)
    then have "Suc k mod length (filter P qs) = Suc k" "filter P qs ! Suc k = x" by (simp_all add: f k nth_append)
    then show ?thesis using n Cons unfolding c_def by simp
  qed
qed

lemma load_any: "load_context t c = load_context t c'"
  by (cases c; cases c') (simp add: load_context_def)

lemma ring_differ: "(i + m) mod n \<noteq> (i + j) mod n" if "j < m" "m < j + n" for i j m n :: nat
proof
  assume "(i + m) mod n = (i + j) mod n"
  then have "n dvd (i + m) - (i + j)" using that(1) by (metis mod_eq_dvd_iff_nat add_le_mono1 less_imp_le add.commute)
  then have "n \<le> m - j" using that(1) by (auto dest: dvd_imp_le)
  with that show False by simp
qed

text \<open>The state after \<open>j\<close> interrupts of a round that started in \<open>s\<close> with the thread \<open>R ! i\<close>.\<close>

definition in_round :: "(nat \<Rightarrow> cpu_context \<Rightarrow> cpu_context) \<Rightarrow> u64 list \<Rightarrow> u64 list \<Rightarrow> nat \<Rightarrow> nat \<Rightarrow> 'a thread_state_scheme \<Rightarrow> 'a thread_state_scheme \<Rightarrow> bool" where
  "in_round step qs R i j s s' \<longleftrightarrow> thread_inv qs s' \<and> current_thread s' = R ! ((i + j) mod length R) \<and>
     (\<forall>a. runs_here (thr s' a) = runs_here (thr s a)) \<and>
     (\<forall>m. j \<le> m \<longrightarrow> m < length R \<longrightarrow> thr s' (R ! ((i + m) mod length R)) = thr s (R ! ((i + m) mod length R))) \<and>
     (0 < j \<longrightarrow> thr s' (R ! i) = save_context (step 0 (ctx s)) (thr s (R ! i))) \<and>
     ctx s' = (if j = 0 then ctx s else load_context (thr s' (current_thread s')) (ctx s))"

lemma in_round_tick:
  assumes r: "in_round step qs R i j s s'" and j: "j < length R" and i: "i < length R"
    and R: "R = filter (\<lambda>a. runs_here (thr s a)) qs" and hd: "runs_here (thr s (hd qs))"
    and st: "\<forall>c. length (c_fxsave c) = 512 \<longrightarrow> length (c_fxsave (step j c)) = 512"
  shows "\<exists>s''. task_switch (s'\<lparr>ctx := step j (ctx s')\<rparr>) = Some s'' \<and> in_round step qs R i (Suc j) s s''"
proof -
  let ?P = "\<lambda>a. runs_here (thr s a)"
  let ?n = "length R"
  define u where "u = s'\<lparr>ctx := step j (ctx s')\<rparr>"
  have inv: "thread_inv qs s'" and cur: "current_thread s' = R ! ((i + j) mod ?n)"
    and runs: "\<And>a. runs_here (thr s' a) = ?P a" using r by (simp_all add: in_round_def)
  have u: "threads u = threads s'" "current_thread u = R ! ((i + j) mod ?n)" "ctx u = step j (ctx s')" "thr u = thr s'"
    by (simp_all add: u_def cur thr_def fun_eq_iff)
  have "thread_inv qs u" using inv st by (simp add: thread_inv_def u_def thr_def)
  note ok = task_switch_ok [OF this, unfolded u runs]
  have d: "distinct qs" "qs \<noteq> []" using inv thread_inv_queue [OF inv] by (auto simp: thread_inv_def dest: chain_distinct)
  then have dR: "distinct R" by (simp add: R)
  have lt: "k mod ?n < ?n" for k by (rule mod_less_divisor) (use i in linarith)
  have nx: "next_of ?P qs (R ! ((i + j) mod ?n)) = R ! ((i + Suc j) mod ?n)"
    using next_ring [OF d, where P = ?P and k = "(i + j) mod ?n"] hd lt [of "i + j"] unfolding R [symmetric] by (simp add: mod_Suc_eq)
  define ts where "ts = (threads s')(R ! ((i + j) mod ?n) \<mapsto> save_context (step j (ctx s')) (thr s' (R ! ((i + j) mod ?n))))"
  let ?s = "u\<lparr>threads := ts, current_thread := R ! ((i + Suc j) mod ?n), ctx := load_context (the (ts (R ! ((i + Suc j) mod ?n)))) (step j (ctx s'))\<rparr>"
  define w where "w = ?s"
  have sw: "task_switch u = Some w" and inv': "thread_inv qs w" using ok unfolding nx ts_def w_def by simp_all
  have w: "thr w a = (if a = R ! ((i + j) mod ?n) then save_context (step j (ctx s')) (thr s' a) else thr s' a)"
      "current_thread w = R ! ((i + Suc j) mod ?n)" "ctx w = load_context (thr w (current_thread w)) (ctx s)" for a
    using load_any by (auto simp: thr_def ts_def w_def)
  have ne: "R ! ((i + m) mod ?n) \<noteq> R ! ((i + j) mod ?n)" if "j < m" "m < ?n" for m
    using ring_differ [of j m ?n i] that lt nth_eq_iff_index_eq [OF dR lt lt] by simp
  have kp: "thr s' (R ! ((i + m) mod ?n)) = thr s (R ! ((i + m) mod ?n))" if "j \<le> m" "m < ?n" for m
    using r that by (simp add: in_round_def)
  have first: "thr w (R ! i) = save_context (step 0 (ctx s)) (thr s (R ! i))"
  proof (cases "j = 0")
    case True
    then have "ctx s' = ctx s" "R ! ((i + j) mod ?n) = R ! i" using r i by (simp_all add: in_round_def)
    then show ?thesis using kp [of 0] True i j by (simp add: w(1))
  next
    case False
    then have "(i + j) mod ?n \<noteq> (i + 0) mod ?n" using j by (intro ring_differ) simp_all
    then have "R ! i \<noteq> R ! ((i + j) mod ?n)" using i nth_eq_iff_index_eq [OF dR lt [of i] lt [of "i + j"]] by simp
    moreover have "thr s' (R ! i) = save_context (step 0 (ctx s)) (thr s (R ! i))" using r False by (simp add: in_round_def)
    ultimately show ?thesis by (simp add: w(1))
  qed
  have "in_round step qs R i (Suc j) s w"
    unfolding in_round_def
  proof (intro conjI allI impI)
    show "thr w (R ! ((i + m) mod ?n)) = thr s (R ! ((i + m) mod ?n))" if "Suc j \<le> m" "m < ?n" for m
      using that ne [of m] kp [of m] by (simp add: w(1))
    show "runs_here (thr w a) = runs_here (thr s a)" for a by (simp add: w(1) runs)
    show "ctx w = (if Suc j = 0 then ctx s else load_context (thr w (current_thread w)) (ctx s))" using w(3) by simp
  qed (rule inv' w(2) first)+
  with sw show ?thesis unfolding u_def by blast
qed

lemma round_ticks:
  assumes "thread_inv qs s" and "R = filter (\<lambda>a. runs_here (thr s a)) qs" and "runs_here (thr s (hd qs))"
    and "i < length R" and "current_thread s = R ! i"
    and "\<forall>k c. length (c_fxsave c) = 512 \<longrightarrow> length (c_fxsave (step k c)) = 512" and "j \<le> length R"
  shows "\<exists>s'. ticks step j s = Some s' \<and> in_round step qs R i j s s'"
  using assms(7)
proof (induction j)
  case 0
  then show ?case using assms(1,4,5) by (simp add: in_round_def)
next
  case (Suc j)
  then obtain s' where "ticks step j s = Some s'" "in_round step qs R i j s s'" by auto
  then show ?case using in_round_tick [OF _ _ assms(4,2,3), of step j s'] Suc.prems assms(6) by auto
qed

section \<open>The second processor\<close>

text \<open>The search of \<open>task_switch2\<close>: behind the running thread, then from the first one.\<close>

lemma pick_second:
  assumes inv: "thread_inv qs s" and c: "c \<in> set qs"
  obtains p where "do { p \<leftarrow> find_node t_next runs_second (threads s) (t_next (thr s c));
      if p \<noteq> 0 then Some p else find_node t_next runs_second (threads s) (thread_ready_queue s) } = Some p"
    "if \<exists>a \<in> set qs. runs_second (thr s a) then p \<in> set qs \<and> runs_second (thr s p) else p = 0"
proof -
  let ?P = "\<lambda>a. runs_second (thr s a)"
  let ?v = "\<lambda>xs. case find ?P xs of None \<Rightarrow> 0 | Some a \<Rightarrow> a"
  obtain us vs where qs: "qs = us @ c # vs" using c by (meson split_list)
  have ch: "chain t_next (threads s) (thread_ready_queue s) qs" using inv by (simp add: thread_inv_def)
  have "threads s c = Some (thr s c)" using thread_inv_node [OF inv c] by simp
  then have rest: "chain t_next (threads s) (t_next (thr s c)) vs" by (rule chain_rest [OF ch [unfolded qs]])
  have f: "find_node t_next runs_second (threads s) (t_next (thr s c)) = Some (?v vs)"
    "find_node t_next runs_second (threads s) (thread_ready_queue s) = Some (?v qs)"
    using find_node_chain [OF rest, of runs_second] find_node_chain [OF ch, of runs_second] by (simp_all add: thr_def)
  have v: "if \<exists>a \<in> set xs. ?P a then ?v xs \<in> set xs \<and> ?P (?v xs) \<and> ?v xs \<noteq> 0 else ?v xs = 0" if "set xs \<subseteq> set qs" for xs
    using that thread_inv_node [OF inv] by (auto simp: find_None_iff dest: find_mem split: option.splits)
  have "set vs \<subseteq> set qs" using qs by auto
  note vv = v [OF this] v [OF order_refl]
  show ?thesis
  proof (cases "\<exists>a \<in> set vs. ?P a")
    case True
    with vv(1) have p: "?v vs \<in> set vs" "?P (?v vs)" "?v vs \<noteq> 0" by simp_all
    moreover from this have "\<exists>a \<in> set qs. ?P a" "?v vs \<in> set qs" using qs by auto
    ultimately show ?thesis using f by (intro that [of "?v vs"]) simp_all
  next
    case False
    with vv(1) have "?v vs = 0" by simp
    then show ?thesis using f vv(2) by (intro that [of "?v qs"]) (simp_all split: if_splits)
  qed
qed

end
