(* ===== verification/Spawn.thy ===== *)
theory Spawn
  imports Sched
begin

text \<open>
  Creation of threads: the streams, blocks and queue entry a new thread gets, for \<^verbatim>\<open>create_thread\<close>,
  \<^verbatim>\<open>create_thread_child\<close>, \<^verbatim>\<open>pthread_create\<close> and for the first thread (\<^verbatim>\<open>thread_setup\<close>).
\<close>

section \<open>Creation\<close>

text \<open>Operations on files keep the rest of the state.\<close>

lemma more_threads:
  assumes "file_state.more s' = file_state.more s"
  shows "threads s' = threads s" "pools s' = pools s" "thread_ready_queue s' = thread_ready_queue s" "current_thread s' = current_thread s"
    "current_thread2 s' = current_thread2 s" "next_pid s' = next_pid s" "ctx s' = ctx s" "ctx2 s' = ctx2 s"
    "pipe_launcher s' = pipe_launcher s" "windows s' = windows s" "thread_id s' = thread_id s" "mult_task s' = mult_task s"
    "paints s' = paints s" "window_count s' = window_count s"
  using assms by (cases s; cases s'; simp)+

definition std_modes :: "(string \<times> u32) list" where
  "std_modes = [(''stdin'', 2), (''stdout'', 3), (''stderr'', 4), (''pipe'', 1)]"

lemma std_modes_mem: "(''stdin'', 2) \<in> set std_modes" "(''stdout'', 3) \<in> set std_modes" "(''stderr'', 4) \<in> set std_modes" "(''pipe'', 1) \<in> set std_modes"
  unfolding std_modes_def by auto

lemma fopen_std_ok:
  assumes "heap_room (3 + k) (fmm s)" and "(mode, flag) \<in> set std_modes"
  obtains fp b s' where "fopen rd path mode s = Some (fp, s')" "files s' = (files s)(fp \<mapsto> stream_rec flag b)"
    "bufs s' = (bufs s)(b \<mapsto> replicate 8192 0)" "file_state.more s' = file_state.more s"
    "distinct [fp, b]" "0 \<notin> set [fp, b]" "set [fp, b] \<inter> live_blocks (fmm s) = {}"
    "live_blocks (fmm s') = live_blocks (fmm s) \<union> set [fp, b]" "heap_room k (fmm s')"
proof -
  have op: "fopen rd path mode s = open_stream flag s"
    using assms(2) by (auto simp: std_modes_def fopen_def mode_is_def std_open_file_def pipe_open_file_def)
  obtain fp b mm where "open_stream flag s = Some (fp, s\<lparr>fmm := mm, files := (files s)(fp \<mapsto> stream_rec flag b), bufs := (bufs s)(b \<mapsto> replicate 8192 0)\<rparr>)"
    "distinct [fp, b]" "0 \<notin> set [fp, b]" "set [fp, b] \<inter> live_blocks (fmm s) = {}" "live_blocks mm = live_blocks (fmm s) \<union> set [fp, b]" "heap_room k mm"
    by (rule open_stream_ok [OF assms(1)])
  then show ?thesis using that op by simp
qed

text \<open>The four streams of a new thread.\<close>

definition streams_of :: "'a file_state_scheme \<Rightarrow> u64 \<Rightarrow> u64 \<Rightarrow> u64 \<Rightarrow> u64 \<Rightarrow> u64 list \<Rightarrow> bool" where
  "streams_of s i out err p bs \<longleftrightarrow> length bs = 4 \<and> distinct ([i, out, err, p] @ bs) \<and> 0 \<notin> set ([i, out, err, p] @ bs) \<and>
     files s i = Some (stream_rec 2 (bs ! 0)) \<and> files s out = Some (stream_rec 3 (bs ! 1)) \<and>
     files s err = Some (stream_rec 4 (bs ! 2)) \<and> files s p = Some (stream_rec 1 (bs ! 3)) \<and>
     (\<forall>b \<in> set bs. bufs s b = Some (replicate 8192 0))"

lemma open_streams_ok:
  assumes "heap_room (12 + k) (fmm s)"
  obtains i out err p bs s1 s2 s3 s4 where "fopen rd [] ''stdin'' s = Some (i, s1)" "fopen rd [] ''stdout'' s1 = Some (out, s2)"
    "fopen rd [] ''stderr'' s2 = Some (err, s3)" "fopen rd [] ''pipe'' s3 = Some (p, s4)" "streams_of s4 i out err p bs"
    "file_state.more s4 = file_state.more s" "set ([i, out, err, p] @ bs) \<inter> live_blocks (fmm s) = {}"
    "live_blocks (fmm s4) = live_blocks (fmm s) \<union> set ([i, out, err, p] @ bs)" "heap_room k (fmm s4)"
proof -
  have r: "heap_room (3 + (3 + (3 + (3 + k)))) (fmm s)" using assms by (simp add: numeral_eq_Suc)
  obtain i bi s1 where i: "fopen rd [] ''stdin'' s = Some (i, s1)" "files s1 = (files s)(i \<mapsto> stream_rec 2 bi)"
    "bufs s1 = (bufs s)(bi \<mapsto> replicate 8192 0)" "file_state.more s1 = file_state.more s"
    "distinct [i, bi]" "0 \<notin> set [i, bi]" "set [i, bi] \<inter> live_blocks (fmm s) = {}"
    "live_blocks (fmm s1) = live_blocks (fmm s) \<union> set [i, bi]" "heap_room (3 + (3 + (3 + k))) (fmm s1)"
    by (rule fopen_std_ok [OF r std_modes_mem(1)])
  obtain out bo s2 where o: "fopen rd [] ''stdout'' s1 = Some (out, s2)" "files s2 = (files s1)(out \<mapsto> stream_rec 3 bo)"
    "bufs s2 = (bufs s1)(bo \<mapsto> replicate 8192 0)" "file_state.more s2 = file_state.more s1"
    "distinct [out, bo]" "0 \<notin> set [out, bo]" "set [out, bo] \<inter> live_blocks (fmm s1) = {}"
    "live_blocks (fmm s2) = live_blocks (fmm s1) \<union> set [out, bo]" "heap_room (3 + (3 + k)) (fmm s2)"
    by (rule fopen_std_ok [OF i(9) std_modes_mem(2)])
  obtain err be s3 where e: "fopen rd [] ''stderr'' s2 = Some (err, s3)" "files s3 = (files s2)(err \<mapsto> stream_rec 4 be)"
    "bufs s3 = (bufs s2)(be \<mapsto> replicate 8192 0)" "file_state.more s3 = file_state.more s2"
    "distinct [err, be]" "0 \<notin> set [err, be]" "set [err, be] \<inter> live_blocks (fmm s2) = {}"
    "live_blocks (fmm s3) = live_blocks (fmm s2) \<union> set [err, be]" "heap_room (3 + k) (fmm s3)"
    by (rule fopen_std_ok [OF o(9) std_modes_mem(3)])
  obtain p bp s4 where p: "fopen rd [] ''pipe'' s3 = Some (p, s4)" "files s4 = (files s3)(p \<mapsto> stream_rec 1 bp)"
    "bufs s4 = (bufs s3)(bp \<mapsto> replicate 8192 0)" "file_state.more s4 = file_state.more s3"
    "distinct [p, bp]" "0 \<notin> set [p, bp]" "set [p, bp] \<inter> live_blocks (fmm s3) = {}"
    "live_blocks (fmm s4) = live_blocks (fmm s3) \<union> set [p, bp]" "heap_room k (fmm s4)"
    by (rule fopen_std_ok [OF e(9) std_modes_mem(4)])
  note fresh = i(5-8) o(5-8) e(5-8) p(5-8)
  have d: "distinct [i, bi, out, bo, err, be, p, bp]" "0 \<notin> set [i, bi, out, bo, err, be, p, bp]" using fresh by auto
  have "streams_of s4 i out err p [bi, bo, be, bp]"
    using d by (auto simp: streams_of_def i(2,3) o(2,3) e(2,3) p(2,3))
  moreover have "file_state.more s4 = file_state.more s" using i(4) o(4) e(4) p(4) by simp
  moreover have "set ([i, out, err, p] @ [bi, bo, be, bp]) \<inter> live_blocks (fmm s) = {}"
    "live_blocks (fmm s4) = live_blocks (fmm s) \<union> set ([i, out, err, p] @ [bi, bo, be, bp])" using fresh by auto
  ultimately show ?thesis using that i(1) o(1) e(1) p(1,9) by blast
qed

lemma new_pages_ok:
  assumes "heap_room (n + k) (fmm s)" and "unat len = n" "0 < n"
  obtains a mm where "new_pages type len s = Some (a, s\<lparr>fmm := mm\<rparr>)" "a \<noteq> 0" "a \<notin> live_blocks (fmm s)"
    "live_blocks mm = insert a (live_blocks (fmm s))" "heap_room k mm"
proof -
  obtain a mm where "alloc_pages type len (fmm s) = Some (ucast len, Some a, mm)" "a \<noteq> 0" "a \<notin> live_blocks (fmm s)"
    "live_blocks mm = insert a (live_blocks (fmm s))" "heap_room k mm"
    by (rule room_alloc_pages [OF assms])
  then show ?thesis using that [of a mm] by (simp add: new_pages_def)
qed

lemma thread_inv_extend:
  assumes "thread_inv qs s" and "chain t_next (threads s') (thread_ready_queue s') (qs @ [new])" and "dom (threads s') = insert new (set qs)"
    and "\<forall>a \<in> set qs. t_pid (thr s' a) = t_pid (thr s a) \<and> t_fxsave (thr s' a) = t_fxsave (thr s a)"
    and "t_pid (thr s' new) = next_pid s" and "length (t_fxsave (thr s' new)) = 512"
    and "next_pid s' = next_pid s + 1" and "next_pid s \<noteq> - 1" and "current_thread s' = current_thread s" "current_thread2 s' = current_thread2 s"
    and "ctx s' = ctx s" "ctx2 s' = ctx2 s" and "insert new (live_blocks (fmm s)) \<subseteq> live_blocks (fmm s')"
  shows "thread_inv (qs @ [new]) s'"
proof -
  have "1 + next_pid s \<noteq> 0" using assms(8) by (metis add.commute eq_neg_iff_add_eq_0)
  then have lt: "next_pid s < next_pid s + 1" by (simp add: word_less_nat_alt unatSuc add.commute)
  have new: "t_pid (thr s a) < next_pid s" "length (t_fxsave (thr s a)) = 512" if "a \<in> set qs" for a
    using assms(1) that by (simp_all add: thread_inv_def)
  have m: "map (\<lambda>a. t_pid (thr s' a)) qs = map (\<lambda>a. t_pid (thr s a)) qs" using assms(4) by simp
  have "next_pid s \<notin> t_pid ` thr s ` set qs" using new(1) by fastforce
  then have "distinct (map (\<lambda>a. t_pid (thr s' a)) (qs @ [new]))"
    using assms(1) unfolding map_append m list.map assms(5) by (simp add: thread_inv_def image_image)
  moreover have "t_pid (thr s' a) < next_pid s' \<and> length (t_fxsave (thr s' a)) = 512" if "a \<in> set (qs @ [new])" for a
    using that new less_trans [OF new(1) lt] assms(4-7) lt by auto
  ultimately show ?thesis
    using assms by (auto simp: thread_inv_def simp del: map_append distinct_append)
qed

lemma append_thread_ok:
  assumes "thread_inv qs s" and "threads s' = (threads s)(new \<mapsto> t)" and "thread_ready_queue s' = thread_ready_queue s"
    and "new \<noteq> 0" and "new \<notin> set qs" and "t_next t = 0"
  defines "h \<equiv> (threads s)(new \<mapsto> t, last qs \<mapsto> (thr s (last qs))\<lparr>t_next := new\<rparr>)"
  shows "append_thread new s' = Some (s'\<lparr>threads := h\<rparr>)" and "chain t_next h (thread_ready_queue s) (qs @ [new])"
    and "dom h = insert new (set qs)" and "last qs \<in> set qs" and "last qs \<noteq> new"
proof -
  have q: "qs \<noteq> []" using thread_inv_queue [OF assms(1)] by simp
  then show l: "last qs \<in> set qs" by simp
  then show ne: "last qs \<noteq> new" using assms(5) by auto
  have c: "chain t_next (threads s) (thread_ready_queue s) qs" using assms(1) by (simp add: thread_inv_def)
  have tl: "threads s (last qs) = Some (thr s (last qs))" using thread_inv_node [OF assms(1) l] by simp
  have "chain t_next ((threads s)(new \<mapsto> t)) (thread_ready_queue s) qs" using c assms(5) by (subst thread.chain_fresh) simp_all
  from last_node_chain [OF this q] show "append_thread new s' = Some (s'\<lparr>threads := h\<rparr>)"
    using assms(2,3) tl ne by (simp add: append_thread_def upd_thread_def h_def)
  show "chain t_next h (thread_ready_queue s) (qs @ [new])"
    unfolding h_def by (rule thread.chain_snoc [OF c q assms(4,5) tl assms(6)])
  have "dom (threads s) = set qs" using assms(1) by (simp add: thread_inv_def)
  then show "dom h = insert new (set qs)" using l by (auto simp: h_def)
qed

text \<open>The fields of a new thread that its creation fixes.\<close>

definition fresh_thread :: "u64 \<Rightarrow> u8 list \<Rightarrow> u64 \<Rightarrow> u64 \<Rightarrow> u32 \<Rightarrow> THREAD \<Rightarrow> bool" where
  "fresh_thread pid sse main rsp pv t \<longleftrightarrow> t_pid t = pid \<and> t_fxsave t = sse \<and> t_rip t = main \<and> t_rsp t = rsp \<and> t_next t = 0 \<and> t_tail t = 0 \<and>
     (if pv AND 1 = 1 then t_cs t = 0x1B \<and> t_ss t = 0x23 else t_cs t = 8 \<and> t_ss t = 0x10) \<and> t_rflag t = 0x202 \<and>
     t_pml4e_addr t = 0 \<and> t_pdpte_addr t = 0 \<and> t_pde_addr t = 0 \<and> t_pte_addr t = 0 \<and> t_frame_size t = 0 \<and>
     t_rcx t = t_stdin t \<and> t_rdx t = t_stdout t \<and> t_rsi t = t_stderr t \<and> t_rdi t = t_window t \<and> t_r10 t = t_pipe t"

definition win_pages :: "u32 \<Rightarrow> nat" where
  "win_pages pv = (if pv AND 0x10 \<noteq> 0 then 1536 else 0)"

lemma new_window_ok:
  assumes "heap_room (win_pages pv + k) (fmm s)"
  obtains t' s' W where "new_window pv t s = Some (t', s')" "heap_room k (fmm s')"
    "t' = (if pv AND 0x10 \<noteq> 0 then t\<lparr>t_window := t_window t', t_prv := t_prv t OR 0x10, t_id := thread_id s\<rparr> else t)"
    "W = (if pv AND 0x10 \<noteq> 0 then [t_window t'] else [])" "0 \<notin> set W" "distinct W" "set W \<inter> live_blocks (fmm s) = {}"
    "live_blocks (fmm s') = live_blocks (fmm s) \<union> set W" "s' = s\<lparr>fmm := fmm s', windows := windows s'\<rparr>"
proof (cases "pv AND 0x10 = 0")
  case True
  with that [of t s "[]"] assms show ?thesis by (simp add: new_window_def win_pages_def)
next
  case False
  have r: "heap_room (1536 + k) (fmm s)" using assms False by (simp add: win_pages_def)
  obtain a mm where a: "new_pages 1 1536 s = Some (a, s\<lparr>fmm := mm\<rparr>)" "a \<noteq> 0" "a \<notin> live_blocks (fmm s)"
    "live_blocks mm = insert a (live_blocks (fmm s))" "heap_room k mm"
    by (rule new_pages_ok [OF r, where len = 1536 and type = 1]) simp_all
  let ?s = "s\<lparr>fmm := mm, windows := (windows s)(a \<mapsto> \<lparr>win_rx = gui_horizontal_resolution s, win_ry = gui_vertical_resolution s,
                 win_bpp = gui_bpp s, win_scanline = gui_pixels_per_scan_line s, win_gid = 0\<rparr>)\<rparr>"
  show ?thesis
    by (rule that [of "t\<lparr>t_window := a, t_prv := t_prv t OR 0x10, t_id := thread_id s\<rparr>" ?s "[a]"]) (use a False in \<open>simp_all add: new_window_def\<close>)
qed

lemma new_pool_ok:
  assumes "heap_room (2 + k) (fmm s)"
  obtains a s' where "new_pool s = Some (a, s')" "a \<noteq> 0" "a \<notin> live_blocks (fmm s)" "live_blocks (fmm s') = insert a (live_blocks (fmm s))"
    "heap_room k (fmm s')" "pools s' = (pools s)(a \<mapsto> replicate 512 pool_zero)" "s' = s\<lparr>fmm := fmm s', pools := pools s'\<rparr>"
proof -
  obtain a mm where a: "new_pages 0 2 s = Some (a, s\<lparr>fmm := mm\<rparr>)" "a \<noteq> 0" "a \<notin> live_blocks (fmm s)"
    "live_blocks mm = insert a (live_blocks (fmm s))" "heap_room k mm"
    by (rule new_pages_ok [OF assms, where len = 2 and type = 0]) simp_all
  show ?thesis by (rule that [of a "s\<lparr>fmm := mm, pools := (pools s)(a \<mapsto> replicate 512 pool_zero)\<rparr>"]) (use a in \<open>simp_all add: new_pool_def\<close>)
qed

lemma create_thread_ok:
  assumes inv: "thread_inv qs s" and room: "heap_room (17 + win_pages pv + k) (fmm s)" and pid: "next_pid s \<noteq> - 1" and sse: "length sse = 512"
  obtains new t s' bs W where "create_thread rd sse main rsp cr3 rbx pv argc argv pwd s = Some (new, s')"
    "threads s' = (threads s)(new \<mapsto> t, last qs \<mapsto> (thr s (last qs))\<lparr>t_next := new\<rparr>)"
    "fresh_thread (next_pid s) sse main rsp pv t" "t_cr3 t = cr3" "t_status t = 0" "t_head t = new"
    "t_prv t = (if pv AND 1 = 1 then 1 else 0) OR (if pv AND 0x80 = 0x80 then 0x80 else 0) OR 0x20 OR (if pv AND 0x10 \<noteq> 0 then 0x10 else 0)"
    "streams_of s' (t_stdin t) (t_stdout t) (t_stderr t) (t_pipe t) bs" "pools s' = (pools s)(t_pool t \<mapsto> replicate 512 pool_zero)"
    "W = (if pv AND 0x10 \<noteq> 0 then [t_window t] else [])"
    "distinct ([new, t_stdin t, t_stdout t, t_stderr t, t_pipe t] @ bs @ [t_mouse t, t_pool t] @ W)"
    "0 \<notin> set ([new, t_stdin t, t_stdout t, t_stderr t, t_pipe t] @ bs @ [t_mouse t, t_pool t] @ W)"
    "set ([new, t_stdin t, t_stdout t, t_stderr t, t_pipe t] @ bs @ [t_mouse t, t_pool t] @ W) \<inter> live_blocks (fmm s) = {}"
    "live_blocks (fmm s') = live_blocks (fmm s) \<union> set ([new, t_stdin t, t_stdout t, t_stderr t, t_pipe t] @ bs @ [t_mouse t, t_pool t] @ W)"
    "heap_room k (fmm s')" "thread_inv (qs @ [new]) s'" "pipe_launcher s' = pipe_launcher s" "current_thread s' = current_thread s"
    "current_thread2 s' = current_thread2 s" "next_pid s' = next_pid s + 1"
proof -
  have r0: "heap_room (2 + (12 + (1 + (win_pages pv + (2 + k))))) (fmm s)" using room by (simp add: numeral_eq_Suc ac_simps)
  obtain new m0 where n0: "new_pages 0 2 s = Some (new, s\<lparr>fmm := m0\<rparr>)" "new \<noteq> 0" "new \<notin> live_blocks (fmm s)"
    "live_blocks m0 = insert new (live_blocks (fmm s))" "heap_room (12 + (1 + (win_pages pv + (2 + k)))) m0"
    by (rule new_pages_ok [OF r0, where len = 2 and type = 0]) simp_all
  define s0 where "s0 = s\<lparr>fmm := m0, next_pid := next_pid s + 1\<rparr>"
  have r1: "heap_room (12 + (1 + (win_pages pv + (2 + k)))) (fmm s0)" using n0(5) by (simp add: s0_def)
  obtain i out err p bs s1 s2 s3 s4 where st: "fopen rd [] ''stdin'' s0 = Some (i, s1)" "fopen rd [] ''stdout'' s1 = Some (out, s2)"
    "fopen rd [] ''stderr'' s2 = Some (err, s3)" "fopen rd [] ''pipe'' s3 = Some (p, s4)" "streams_of s4 i out err p bs"
    "file_state.more s4 = file_state.more s0" "set ([i, out, err, p] @ bs) \<inter> live_blocks (fmm s0) = {}"
    "live_blocks (fmm s4) = live_blocks (fmm s0) \<union> set ([i, out, err, p] @ bs)" "heap_room (1 + (win_pages pv + (2 + k))) (fmm s4)"
    by (rule open_streams_ok [OF r1])
  have "unat (pages_of 24) = 1" by (simp add: pages_of_def)
  then obtain mouse m5 where mo: "new_block 24 s4 = Some (mouse, s4\<lparr>fmm := m5\<rparr>)" "mouse \<noteq> 0" "mouse \<notin> live_blocks (fmm s4)"
    "live_blocks m5 = insert mouse (live_blocks (fmm s4))" "heap_room (win_pages pv + (2 + k)) m5"
    by (rule new_block_ok [OF st(9)]) simp_all
  define t1 where "t1 = (set_second pv (set_mode pv (THREAD_zero\<lparr>t_pid := next_pid s, t_fxsave := sse, t_rsp := rsp, t_rip := main\<rparr>)))\<lparr>t_cr3 := cr3\<rparr>"
  define t2 where "t2 = t1\<lparr>t_stdin := i, t_stdout := out, t_stderr := err, t_pipe := p, t_mouse := mouse, t_prv := t_prv t1 OR 0x20\<rparr>"
  have r6: "heap_room (win_pages pv + (2 + k)) (fmm (s4\<lparr>fmm := m5\<rparr>))" using mo(5) by simp
  obtain t3 s6 W where w: "new_window pv t2 (s4\<lparr>fmm := m5\<rparr>) = Some (t3, s6)" "heap_room (2 + k) (fmm s6)"
    "t3 = (if pv AND 0x10 \<noteq> 0 then t2\<lparr>t_window := t_window t3, t_prv := t_prv t2 OR 0x10, t_id := thread_id (s4\<lparr>fmm := m5\<rparr>)\<rparr> else t2)"
    "W = (if pv AND 0x10 \<noteq> 0 then [t_window t3] else [])" "0 \<notin> set W" "distinct W" "set W \<inter> live_blocks (fmm (s4\<lparr>fmm := m5\<rparr>)) = {}"
    "live_blocks (fmm s6) = live_blocks (fmm (s4\<lparr>fmm := m5\<rparr>)) \<union> set W" "s6 = s4\<lparr>fmm := m5\<rparr>\<lparr>fmm := fmm s6, windows := windows s6\<rparr>"
    by (rule new_window_ok [OF r6])
  obtain pool s7 where po: "new_pool s6 = Some (pool, s7)" "pool \<noteq> 0" "pool \<notin> live_blocks (fmm s6)" "live_blocks (fmm s7) = insert pool (live_blocks (fmm s6))"
    "heap_room k (fmm s7)" "pools s7 = (pools s6)(pool \<mapsto> replicate 512 pool_zero)" "s7 = s6\<lparr>fmm := fmm s7, pools := pools s7\<rparr>"
    by (rule new_pool_ok [OF w(2)])
  define t where "t = (set_args rbx argc argv pwd t3)\<lparr>t_head := new, t_next := 0, t_tail := 0, t_wait_pid := t_pid t3, t_pool := pool\<rparr>"
  define s8 where "s8 = s7\<lparr>threads := (threads s7)(new \<mapsto> t)\<rparr>"
  have f6: "threads s6 = threads s4" "thread_ready_queue s6 = thread_ready_queue s4" "files s6 = files s4" "bufs s6 = bufs s4" "next_pid s6 = next_pid s4"
    "pools s6 = pools s4" "current_thread s6 = current_thread s4" "current_thread2 s6 = current_thread2 s4" "ctx s6 = ctx s4" "ctx2 s6 = ctx2 s4" "pipe_launcher s6 = pipe_launcher s4"
    by (subst w(9), simp)+
  have f7: "threads s7 = threads s6" "thread_ready_queue s7 = thread_ready_queue s6" "files s7 = files s6" "bufs s7 = bufs s6" "next_pid s7 = next_pid s6"
    "current_thread s7 = current_thread s6" "current_thread2 s7 = current_thread2 s6" "ctx s7 = ctx s6" "ctx2 s7 = ctx2 s6" "pipe_launcher s7 = pipe_launcher s6"
    by (subst po(7), simp)+
  note f4 = more_threads [OF st(6)]
  have f8: "threads s8 = (threads s)(new \<mapsto> t)" "thread_ready_queue s8 = thread_ready_queue s" "next_pid s8 = next_pid s + 1" "fmm s8 = fmm s7"
    "current_thread s8 = current_thread s" "current_thread2 s8 = current_thread2 s" "ctx s8 = ctx s" "ctx2 s8 = ctx2 s" "pipe_launcher s8 = pipe_launcher s"
    "pools s8 = (pools s)(pool \<mapsto> replicate 512 pool_zero)" "files s8 = files s4" "bufs s8 = bufs s4"
    by (simp_all add: s8_def f7 f6 f4 s0_def po(6))
  have t3: "t_pid t3 = t_pid t2" "t_fxsave t3 = t_fxsave t2" "t_rip t3 = t_rip t2" "t_rsp t3 = t_rsp t2" "t_cs t3 = t_cs t2" "t_ss t3 = t_ss t2"
    "t_rflag t3 = t_rflag t2" "t_pml4e_addr t3 = t_pml4e_addr t2" "t_pdpte_addr t3 = t_pdpte_addr t2" "t_pde_addr t3 = t_pde_addr t2"
    "t_pte_addr t3 = t_pte_addr t2" "t_frame_size t3 = t_frame_size t2" "t_stdin t3 = t_stdin t2" "t_stdout t3 = t_stdout t2" "t_stderr t3 = t_stderr t2"
    "t_pipe t3 = t_pipe t2" "t_mouse t3 = t_mouse t2" "t_status t3 = t_status t2" "t_cr3 t3 = t_cr3 t2"
    "t_prv t3 = t_prv t2 OR (if pv AND 0x10 \<noteq> 0 then 0x10 else 0)"
    by (subst w(3), simp)+
  have t1: "t_pid t1 = next_pid s" "t_fxsave t1 = sse" "t_rip t1 = main" "t_rsp t1 = rsp" "t_rflag t1 = 0x202" "t_status t1 = 0" "t_cr3 t1 = cr3"
    "t_pml4e_addr t1 = 0" "t_pdpte_addr t1 = 0" "t_pde_addr t1 = 0" "t_pte_addr t1 = 0" "t_frame_size t1 = 0"
    "t_cs t1 = (if pv AND 1 = 1 then 0x1B else 8)" "t_ss t1 = (if pv AND 1 = 1 then 0x23 else 0x10)"
    "t_prv t1 = (if pv AND 1 = 1 then 1 else 0) OR (if pv AND 0x80 = 0x80 then 0x80 else 0)"
    by (simp_all add: t1_def set_second_def set_mode_def THREAD_zero_def)
  have t: "fresh_thread (next_pid s) sse main rsp pv t" "t_cr3 t = cr3" "t_status t = 0" "t_head t = new"
    "t_stdin t = i" "t_stdout t = out" "t_stderr t = err" "t_pipe t = p" "t_mouse t = mouse" "t_pool t = pool" "t_window t = t_window t3"
    "t_prv t = (if pv AND 1 = 1 then 1 else 0) OR (if pv AND 0x80 = 0x80 then 0x80 else 0) OR 0x20 OR (if pv AND 0x10 \<noteq> 0 then 0x10 else 0)"
    by (simp_all add: fresh_thread_def t_def set_args_def t3 t2_def t1 or.assoc)
  have nq: "new \<notin> set qs" using n0(3) inv by (auto simp: thread_inv_def)
  have nx: "t_next t = 0" using t(1) by (simp add: fresh_thread_def)
  note ap = append_thread_ok [OF inv f8(1,2) n0(2) nq nx]
  define s9 where "s9 = s8\<lparr>threads := (threads s)(new \<mapsto> t, last qs \<mapsto> (thr s (last qs))\<lparr>t_next := new\<rparr>)\<rparr>"
  have run: "create_thread rd sse main rsp cr3 rbx pv argc argv pwd s = Some (new, s9)"
    using n0(1) st(1-4) mo(1) w(1) po(1) ap(1)
    by (simp add: create_thread_def Let_def s0_def t1_def t2_def t_def s8_def s9_def set_args_def)
  have inv': "thread_inv (qs @ [new]) s9"
  proof (rule thread_inv_extend [OF inv])
    show "chain t_next (threads s9) (thread_ready_queue s9) (qs @ [new])" "dom (threads s9) = insert new (set qs)"
      using ap(2,3) by (simp_all add: s9_def f8(2) del: fun_upd_apply)
    show "\<forall>a \<in> set qs. t_pid (thr s9 a) = t_pid (thr s a) \<and> t_fxsave (thr s9 a) = t_fxsave (thr s a)"
      using nq by (auto simp: s9_def thr_def)
    show "t_pid (thr s9 new) = next_pid s" "length (t_fxsave (thr s9 new)) = 512"
      using ap(5) t(1) sse by (simp_all add: s9_def thr_def fresh_thread_def)
    show "insert new (live_blocks (fmm s)) \<subseteq> live_blocks (fmm s9)"
      using n0(4) st(8) mo(4) w(8) po(4) by (auto simp: s9_def f8(4) s0_def)
  qed (use pid in \<open>simp_all add: s9_def f8\<close>)
  let ?F = "[new, i, out, err, p] @ bs @ [mouse, pool] @ W"
  have live: "fmm s0 = m0" "fmm s9 = fmm s7" by (simp_all add: s0_def s9_def f8(4))
  have sts: "streams_of s9 i out err p bs" using st(5) by (simp add: streams_of_def s9_def f8)
  have dbs: "distinct ([i, out, err, p] @ bs)" "0 \<notin> set ([i, out, err, p] @ bs)" using st(5) by (simp_all add: streams_of_def)
  have F: "distinct ?F" "0 \<notin> set ?F" "set ?F \<inter> live_blocks (fmm s) = {}" "live_blocks (fmm s9) = live_blocks (fmm s) \<union> set ?F"
  proof -
    let ?S = "set ([i, out, err, p] @ bs)"
    note st7 = st(7) [unfolded live n0(4)]
    note l4 = st(8) [unfolded live n0(4)]
    have l5: "live_blocks m5 = insert mouse (insert new (live_blocks (fmm s)) \<union> ?S)" using mo(4) l4 by simp
    have l6: "live_blocks (fmm s6) = insert mouse (insert new (live_blocks (fmm s)) \<union> ?S) \<union> set W" using w(8) l5 by simp
    have mo3: "mouse \<notin> insert new (live_blocks (fmm s)) \<union> ?S" using mo(3) l4 by simp
    have w7: "set W \<inter> insert mouse (insert new (live_blocks (fmm s)) \<union> ?S) = {}" using w(7) l5 by simp
    have po3: "pool \<notin> insert mouse (insert new (live_blocks (fmm s)) \<union> ?S) \<union> set W" using po(3) l6 by simp
    show "distinct ?F" using dbs(1) st7 mo3 w7 po3 w(6) n0(3) by auto
    show "0 \<notin> set ?F" using dbs(2) n0(2) mo(2) po(2) w(5) by auto
    show "set ?F \<inter> live_blocks (fmm s) = {}" using n0(3) st7 mo3 w7 po3 by auto
    show "live_blocks (fmm s9) = live_blocks (fmm s) \<union> set ?F" using live(2) po(4) l6 by auto
  qed
  show ?thesis
    by (rule that [of new s9 t bs W]) (use run t F sts inv' w(4) in \<open>simp_all add: s9_def f8 po(5)\<close>)
qed

text \<open>The end of the two operations that create a child.\<close>

definition adopt :: "u64 \<Rightarrow> u64 \<Rightarrow> THREAD \<Rightarrow> 'a thread_state_scheme \<Rightarrow> (u64 \<times> 'a thread_state_scheme) option" where
  "adopt thread new t s =
    do {
      s \<leftarrow> upd_thread thread (\<lambda>f. f\<lparr>t_wait_pid := t_pid t\<rparr>) s;
      (pool, s) \<leftarrow> new_pool s;
      s \<leftarrow> append_thread new (s\<lparr>threads := (threads s)(new \<mapsto> t\<lparr>t_pool := pool\<rparr>)\<rparr>);
      s \<leftarrow> upd_thread thread (\<lambda>f. f\<lparr>t_tail := new\<rparr>) s;
      Some (new, s) }"

lemma adopt_ok:
  assumes inv: "thread_inv qs s" and f: "thread \<in> set qs" and room: "heap_room (2 + k) m0" and pid: "next_pid s \<noteq> - 1"
    and t: "t_pid t = next_pid s" "length (t_fxsave t) = 512" "t_next t = 0"
    and new: "new \<noteq> 0" "new \<notin> live_blocks (fmm s)" "live_blocks m0 = insert new (live_blocks (fmm s))"
  obtains s' pool where "adopt thread new t (s\<lparr>fmm := m0, next_pid := next_pid s + 1\<rparr>) = Some (new, s')" "thread_inv (qs @ [new]) s'"
    "threads s' new = Some (t\<lparr>t_pool := pool\<rparr>)" "t_tail (thr s' thread) = new" "t_wait_pid (thr s' thread) = next_pid s"
    "\<forall>a \<in> set qs. a \<noteq> thread \<longrightarrow> (thr s' a)\<lparr>t_next := 0\<rparr> = (thr s a)\<lparr>t_next := 0\<rparr>"
    "live_blocks (fmm s') = live_blocks (fmm s) \<union> {new, pool}" "heap_room k (fmm s')"
    "(thr s' thread)\<lparr>t_next := 0\<rparr> = (thr s thread)\<lparr>t_wait_pid := next_pid s, t_tail := new, t_next := 0\<rparr>" "pool \<noteq> 0" "pool \<notin> insert new (live_blocks (fmm s))"
    "pools s' = (pools s)(pool \<mapsto> replicate 512 pool_zero)" "s' = s\<lparr>fmm := fmm s', threads := threads s', pools := pools s', next_pid := next_pid s + 1\<rparr>"
proof -
  note tf = conjunct2 [OF thread_inv_node [OF inv f]]
  define h1 where "h1 = (threads s)(thread \<mapsto> (thr s thread)\<lparr>t_wait_pid := t_pid t\<rparr>)"
  define s1 where "s1 = s\<lparr>threads := h1\<rparr>"
  have inv1: "thread_inv qs s1" unfolding s1_def h1_def
    by (rule thread_inv_upd [OF inv f]) (use inv f in \<open>simp_all add: thread_inv_def\<close>)
  define u where "u = s\<lparr>fmm := m0, next_pid := next_pid s + 1, threads := h1\<rparr>"
  have r: "heap_room (2 + k) (fmm u)" using room by (simp add: u_def)
  obtain pool u1 where po: "new_pool u = Some (pool, u1)" "live_blocks (fmm u1) = insert pool (live_blocks (fmm u))"
    "heap_room k (fmm u1)" "u1 = u\<lparr>fmm := fmm u1, pools := pools u1\<rparr>" "pool \<noteq> 0" "pool \<notin> live_blocks (fmm u)"
    "pools u1 = (pools u)(pool \<mapsto> replicate 512 pool_zero)"
    by (rule new_pool_ok [OF r])
  define u2 where "u2 = u1\<lparr>threads := (threads u1)(new \<mapsto> t\<lparr>t_pool := pool\<rparr>)\<rparr>"
  have f1: "threads u1 = h1" "thread_ready_queue u1 = thread_ready_queue s" "next_pid u1 = next_pid s + 1" "current_thread u1 = current_thread s"
    "current_thread2 u1 = current_thread2 s" "ctx u1 = ctx s" "ctx2 u1 = ctx2 s"
    by (subst po(4), simp add: u_def)+
  have f2: "threads u2 = (threads s1)(new \<mapsto> t\<lparr>t_pool := pool\<rparr>)" "thread_ready_queue u2 = thread_ready_queue s1"
    by (simp_all add: u2_def s1_def f1)
  have nq: "new \<notin> set qs" using new(2) inv by (auto simp: thread_inv_def)
  have nt: "t_next (t\<lparr>t_pool := pool\<rparr>) = 0" using t(3) by simp
  note ap = append_thread_ok [OF inv1 f2 new(1) nq nt]
  define h2 where "h2 = (threads s1)(new \<mapsto> t\<lparr>t_pool := pool\<rparr>, last qs \<mapsto> (thr s1 (last qs))\<lparr>t_next := new\<rparr>)"
  define n2 where "n2 = (if thread = last qs then (thr s thread)\<lparr>t_wait_pid := t_pid t, t_next := new\<rparr> else (thr s thread)\<lparr>t_wait_pid := t_pid t\<rparr>)"
  have ne: "thread \<noteq> new" using nq f by auto
  then have n2: "h2 thread = Some n2" by (simp add: h2_def s1_def h1_def n2_def)
  have h2: "map_option (\<lambda>t. t\<lparr>t_next := 0\<rparr>) (h2 a) = map_option (\<lambda>t. t\<lparr>t_next := 0\<rparr>) (threads s a)" if "a \<in> set qs" "a \<noteq> thread" for a
    using that nq thread_inv_node [OF inv that(1)] by (auto simp: h2_def s1_def h1_def)
  define s' where "s' = u2\<lparr>threads := h2(thread \<mapsto> n2\<lparr>t_tail := new\<rparr>)\<rparr>"
  have tf1: "threads u thread = Some ((thr s thread)\<lparr>t_wait_pid := t_pid t\<rparr>)" by (simp add: u_def h1_def)
  have run: "adopt thread new t (s\<lparr>fmm := m0, next_pid := next_pid s + 1\<rparr>) = Some (new, s')"
    using tf po(1) ap(1) n2 unfolding u_def h1_def u2_def h2_def s'_def
    by (simp add: adopt_def upd_thread_def del: fun_upd_apply)
  have th: "thr s' a = (if a = thread then n2\<lparr>t_tail := new\<rparr> else the (h2 a))" for a by (simp add: s'_def thr_def)
  have keep: "(thr s' a)\<lparr>t_next := 0\<rparr> = (thr s a)\<lparr>t_next := 0\<rparr>" if a: "a \<in> set qs" "a \<noteq> thread" for a
  proof -
    obtain x where "threads s a = Some x" using thread_inv_node [OF inv a(1)] by blast
    with h2 [OF a] a show ?thesis unfolding th by (auto simp: thr_def)
  qed
  have keep2: "t_pid (thr s' a) = t_pid (thr s a) \<and> t_fxsave (thr s' a) = t_fxsave (thr s a)" if "a \<in> set qs" for a
  proof (cases "a = thread")
    case False
    note k = keep [OF that this]
    show ?thesis using arg_cong [OF k, of t_pid] arg_cong [OF k, of t_fxsave] by simp
  qed (simp add: th n2_def)
  have h2': "h2 new = Some (t\<lparr>t_pool := pool\<rparr>)" using ap(4) nq by (auto simp: h2_def)
  have ch: "chain t_next (h2(thread \<mapsto> n2\<lparr>t_tail := new\<rparr>)) (thread_ready_queue s) (qs @ [new])"
    using ap(2) n2 thread.chain_update [of h2 thread n2 "n2\<lparr>t_tail := new\<rparr>"] unfolding h2_def [symmetric] by (simp add: s1_def)
  have dm: "dom (h2(thread \<mapsto> n2\<lparr>t_tail := new\<rparr>)) = insert new (set qs)" using ap(3) f by (simp add: h2_def insert_absorb)
  have live: "live_blocks (fmm s') = live_blocks (fmm s) \<union> {new, pool}" using po(2) new(3) by (auto simp: s'_def u2_def u_def)
  have inv': "thread_inv (qs @ [new]) s'"
  proof (rule thread_inv_extend [OF inv])
    show "insert new (live_blocks (fmm s)) \<subseteq> live_blocks (fmm s')" using live by auto
  qed (use ch dm keep2 h2' pid ne t in \<open>simp_all add: s'_def u2_def f1 thr_def\<close>)
  have s'_eq: "s' = s\<lparr>fmm := fmm s', threads := threads s', pools := pools s', next_pid := next_pid s + 1\<rparr>"
    unfolding s'_def u2_def by (subst (1) po(4)) (simp add: u_def)
  have pl: "pool \<notin> insert new (live_blocks (fmm s))" "pools s' = (pools s)(pool \<mapsto> replicate 512 pool_zero)"
    using po(6,7) new(3) by (simp_all add: u_def s'_def u2_def)
  show ?thesis
    by (rule that [OF run inv' _ _ _ _ live _ _ po(5) pl s'_eq])
      (use h2' ne keep po(3) t(1) in \<open>simp_all add: th\<close>, simp_all add: s'_def u2_def n2_def)
qed

text \<open>A child created by either operation: behind its father in \<open>tail\<close>, last in the queue.\<close>

definition child_of :: "u64 \<Rightarrow> THREAD \<Rightarrow> THREAD \<Rightarrow> bool" where
  "child_of thread f t \<longleftrightarrow> t_head t = thread \<and> t_stdin t = t_stdin f \<and> t_stdout t = t_stdout f \<and> t_stderr t = t_stderr f \<and>
     t_pipe t = t_pipe f \<and> t_mouse t = t_mouse f \<and> t_window t = t_window f"

lemma create_child_ok:
  assumes inv: "thread_inv qs s" and f: "thread \<in> set qs" and room: "heap_room (4 + k) (fmm s)" and pid: "next_pid s \<noteq> - 1" and sse: "length sse = 512"
    and op: "op s = create_thread_child sse main rsp cr3 rbx pv argc argv pwd thread s \<and> st = 0 \<and> c3 = cr3 \<or>
      op s = pthread_create sse main rsp pv thread s \<and> st = 1 \<and> c3 = t_cr3 (thr s thread)"
  obtains new s' t pool where "op s = Some (new, s')" "thread_inv (qs @ [new]) s'" "new \<notin> live_blocks (fmm s)"
    "threads s' new = Some t" "fresh_thread (next_pid s) sse main rsp pv t" "child_of thread (thr s thread) t" "t_status t = st" "t_cr3 t = c3"
    "t_tail (thr s' thread) = new" "t_wait_pid (thr s' thread) = next_pid s"
    "\<forall>a \<in> set qs. a \<noteq> thread \<longrightarrow> (thr s' a)\<lparr>t_next := 0\<rparr> = (thr s a)\<lparr>t_next := 0\<rparr>" "heap_room k (fmm s')"
    "(thr s' thread)\<lparr>t_next := 0\<rparr> = (thr s thread)\<lparr>t_wait_pid := next_pid s, t_tail := new, t_next := 0\<rparr>" "t_prv t AND 0x30 = 0"
    "live_blocks (fmm s') = live_blocks (fmm s) \<union> {new, t_pool t}" "t_pool t \<noteq> 0" "t_pool t \<notin> insert new (live_blocks (fmm s))"
    "pools s' = (pools s)(t_pool t \<mapsto> replicate 512 pool_zero)" "s' = s\<lparr>fmm := fmm s', threads := threads s', pools := pools s', next_pid := next_pid s + 1\<rparr>"
proof -
  have r: "heap_room (2 + (2 + k)) (fmm s)" using room by (simp add: numeral_eq_Suc)
  obtain new m0 where n: "new_pages 0 2 s = Some (new, s\<lparr>fmm := m0\<rparr>)" "new \<noteq> 0" "new \<notin> live_blocks (fmm s)"
    "live_blocks m0 = insert new (live_blocks (fmm s))" "heap_room (2 + k) m0"
    by (rule new_pages_ok [OF r, where len = 2 and type = 0]) simp_all
  note tf = conjunct2 [OF thread_inv_node [OF inv f]]
  have "\<exists>t. op s = adopt thread new t (s\<lparr>fmm := m0, next_pid := next_pid s + 1\<rparr>) \<and> (\<forall>p. fresh_thread (next_pid s) sse main rsp pv (t\<lparr>t_pool := p\<rparr>)) \<and>
      child_of thread (thr s thread) t \<and> t_status t = st \<and> t_cr3 t = c3 \<and> t_prv t AND 0x30 = 0" (is "\<exists>t. ?P t")
    using op
  proof (elim disjE conjE)
    assume "op s = create_thread_child sse main rsp cr3 rbx pv argc argv pwd thread s" "st = 0" "c3 = cr3"
    then show ?thesis using n(1) tf
      by (intro exI [of _ "(set_args rbx argc argv pwd (share_streams (thr s thread) ((set_second pv (set_mode pv (THREAD_zero\<lparr>t_pid := next_pid s,
            t_fxsave := sse, t_rsp := rsp, t_rip := main\<rparr>)))\<lparr>t_cr3 := cr3\<rparr>)))\<lparr>t_head := thread, t_next := 0, t_tail := 0\<rparr>"])
        (simp add: create_thread_child_def adopt_def Let_def fresh_thread_def child_of_def set_args_def share_streams_def set_second_def set_mode_def THREAD_zero_def)
  next
    assume "op s = pthread_create sse main rsp pv thread s" "st = 1" "c3 = t_cr3 (thr s thread)"
    then show ?thesis using n(1) tf
      by (intro exI [of _ "(set_args 0 0 0 0 (share_streams (thr s thread) ((set_mode pv (THREAD_zero\<lparr>t_pid := next_pid s,
            t_fxsave := sse, t_rsp := rsp, t_rip := main, t_status := 1\<rparr>))\<lparr>t_cr3 := t_cr3 (thr s thread)\<rparr>)))\<lparr>t_head := thread, t_next := 0, t_tail := 0\<rparr>"])
        (simp add: pthread_create_def adopt_def Let_def fresh_thread_def child_of_def set_args_def share_streams_def set_mode_def THREAD_zero_def)
  qed
  then obtain t where t: "?P t" ..
  then have fr: "fresh_thread (next_pid s) sse main rsp pv (t\<lparr>t_pool := p\<rparr>)" for p by blast
  obtain s' pool where a: "adopt thread new t (s\<lparr>fmm := m0, next_pid := next_pid s + 1\<rparr>) = Some (new, s')" "thread_inv (qs @ [new]) s'"
    "threads s' new = Some (t\<lparr>t_pool := pool\<rparr>)" "t_tail (thr s' thread) = new" "t_wait_pid (thr s' thread) = next_pid s"
    "\<forall>a \<in> set qs. a \<noteq> thread \<longrightarrow> (thr s' a)\<lparr>t_next := 0\<rparr> = (thr s a)\<lparr>t_next := 0\<rparr>" "heap_room k (fmm s')"
    "(thr s' thread)\<lparr>t_next := 0\<rparr> = (thr s thread)\<lparr>t_wait_pid := next_pid s, t_tail := new, t_next := 0\<rparr>"
    "live_blocks (fmm s') = live_blocks (fmm s) \<union> {new, pool}" "pool \<noteq> 0" "pool \<notin> insert new (live_blocks (fmm s))"
    "pools s' = (pools s)(pool \<mapsto> replicate 512 pool_zero)" "s' = s\<lparr>fmm := fmm s', threads := threads s', pools := pools s', next_pid := next_pid s + 1\<rparr>"
    by (rule adopt_ok [OF inv f n(5) pid, of t new]) (use fr [of 0] sse n in \<open>simp_all add: fresh_thread_def\<close>)
  show ?thesis
    by (rule that [OF _ a(2) n(3) a(3) fr _ _ _ a(4-8) _ _ _ _ _ a(13)]) (use t a(1,9-12) in \<open>simp_all add: child_of_def\<close>)
qed

section \<open>The first thread\<close>

lemma thread_setup_ok:
  assumes room: "heap_room (17 + k) (fmm s)" and sse: "length sse = 512" and none: "threads s = Map.empty"
    and fx: "length (c_fxsave (ctx s)) = 512" "length (c_fxsave (ctx2 s)) = 512"
  obtains s' q t where "thread_setup rd sse s = Some (0, s')" "thread_inv [q] s'" "threads s' = [q \<mapsto> t]" "heap_room k (fmm s')"
    "t_prv t = 0" "t_status t = 0" "next_pid s' = 1" "current_thread s' = q" "pipe_launcher s' = pipe_launcher s" "t_tail t = 0"
proof -
  let ?z = "s\<lparr>threadz := 0, next_pid := 0, first_thread2 := 0\<rparr>"
  have r0: "heap_room (2 + (12 + (1 + (2 + k)))) (fmm ?z)" using room by (simp add: numeral_eq_Suc ac_simps)
  obtain q m0 where n0: "new_pages 0 2 ?z = Some (q, ?z\<lparr>fmm := m0\<rparr>)" "q \<noteq> 0"
    "live_blocks m0 = insert q (live_blocks (fmm ?z))" "heap_room (12 + (1 + (2 + k))) m0"
    by (rule new_pages_ok [OF r0, where len = 2 and type = 0]) simp_all
  define s0 where "s0 = ?z\<lparr>fmm := m0, thread_ready_queue := q, current_thread := q, next_pid := 1\<rparr>"
  have r1: "heap_room (12 + (1 + (2 + k))) (fmm s0)" using n0(4) by (simp add: s0_def)
  obtain i out err p bs s1 s2 s3 s4 where st: "fopen rd [] ''stdin'' s0 = Some (i, s1)" "fopen rd [] ''stdout'' s1 = Some (out, s2)"
    "fopen rd [] ''stderr'' s2 = Some (err, s3)" "fopen rd [] ''pipe'' s3 = Some (p, s4)" "streams_of s4 i out err p bs"
    "file_state.more s4 = file_state.more s0" "set ([i, out, err, p] @ bs) \<inter> live_blocks (fmm s0) = {}"
    "live_blocks (fmm s4) = live_blocks (fmm s0) \<union> set ([i, out, err, p] @ bs)" "heap_room (1 + (2 + k)) (fmm s4)"
    by (rule open_streams_ok [OF r1])
  have "unat (pages_of 24) = 1" by (simp add: pages_of_def)
  then obtain mouse m5 where mo: "new_block 24 s4 = Some (mouse, s4\<lparr>fmm := m5\<rparr>)"
    "live_blocks m5 = insert mouse (live_blocks (fmm s4))" "heap_room (2 + k) m5"
    by (rule new_block_ok [OF st(9)]) simp_all
  have r6: "heap_room (2 + k) (fmm (s4\<lparr>fmm := m5\<rparr>))" using mo(3) by simp
  obtain pool s7 where po: "new_pool (s4\<lparr>fmm := m5\<rparr>) = Some (pool, s7)" "live_blocks (fmm s7) = insert pool (live_blocks m5)"
    "heap_room k (fmm s7)" "s7 = s4\<lparr>fmm := m5\<rparr>\<lparr>fmm := fmm s7, pools := pools s7\<rparr>"
    by (rule new_pool_ok [OF r6]) simp
  note f4 = more_threads [OF st(6)]
  have f7: "threads s7 = threads s" "thread_ready_queue s7 = q" "next_pid s7 = 1" "ctx s7 = ctx s" "ctx2 s7 = ctx2 s" "current_thread s7 = q"
    "pipe_launcher s7 = pipe_launcher s" "window_count s7 = window_count s"
    by (subst po(4), simp add: f4 s0_def)+
  define t where "t = THREAD_zero\<lparr>t_pid := 0, t_fxsave := sse, t_cs := 0x8, t_ss := 0x10,
                     t_rflag := 0x202, t_cr3 := kernel_pml4e s7, t_stdin := i, t_stdout := out, t_stderr := err, t_pipe := p,
                     t_mouse := mouse, t_head := 0, t_prv := 0, t_next := 0, t_pool := pool\<rparr>"
  define s' where "s' = s7\<lparr>threads := (threads s7)(q \<mapsto> t), current_thread1 := q, current_thread2 := q\<rparr>"
  have "thread_setup rd sse s = Some (0, s')"
    using n0(1) st(1-4) mo(1) po(1) by (simp add: thread_setup_def Let_def s0_def s'_def t_def)
  moreover have "q \<in> live_blocks (fmm s')" using n0(3) st(8) mo(2) po(2) by (simp add: s'_def s0_def)
  then have "thread_inv [q] s'"
    using n0(2) sse fx none by (simp add: thread_inv_def s'_def f7 thr_def t_def)
  moreover have "threads s' = [q \<mapsto> t]" "heap_room k (fmm s')" "t_prv t = 0" "t_status t = 0" "next_pid s' = 1" "current_thread s' = q"
    "pipe_launcher s' = pipe_launcher s" "t_tail t = 0"
    using none po(3) by (simp_all add: s'_def f7 t_def THREAD_zero_def)
  ultimately show ?thesis using that by blast
qed

end
