(* ===== verification/Leave.thy ===== *)
theory Leave
  imports Spawn
begin

text \<open>
  The end of a thread (\<^verbatim>\<open>kernel/exit.c\<close>).  \<open>gave_back s A s'\<close> says that the blocks \<open>A\<close> went back to the heap and that
  no other thread changed; \<open>owner\<close> describes a thread that owns its streams and blocks; \<open>exit_ok\<close> shows what
  \<^verbatim>\<open>exit\<close> does for it.
\<close>

section \<open>Giving back\<close>

text \<open>The part of the state that giving back blocks never touches.\<close>

definition tcore :: "'a thread_state_scheme \<Rightarrow> _" where
  "tcore s = (thread_ready_queue s, current_thread s, current_thread2 s, next_pid s, ctx s, ctx2 s, pipe_launcher s)"

lemma zero_not_live: "0 \<notin> live_blocks s"
  using page_addr_index(3) by (auto simp: live_blocks_def)

text \<open>\<open>gave_back s A s'\<close>: from \<open>s\<close> to \<open>s'\<close> the blocks \<open>A\<close> went back to the heap, and no other thread, table or
  stream changed.\<close>

definition gave_back :: "'a thread_state_scheme \<Rightarrow> u64 set \<Rightarrow> 'a thread_state_scheme \<Rightarrow> bool" where
  "gave_back s A s' \<longleftrightarrow> live_blocks (fmm s') = live_blocks (fmm s) - A \<and> heap_room 0 (fmm s') \<and> tcore s' = tcore s \<and> threads s' \<subseteq>\<^sub>m threads s \<and>
     (\<forall>a. a \<notin> A \<longrightarrow> threads s' a = threads s a \<and> pools s' a = pools s a \<and> files s' a = files s a)"

lemma gave_back_trans: "gave_back s A s1 \<Longrightarrow> gave_back s1 B s2 \<Longrightarrow> gave_back s (A \<union> B) s2"
  unfolding gave_back_def by (auto intro: map_le_trans)

lemma free_obj_ok:
  assumes "heap_room 0 (fmm s)" and "a \<in> live_blocks (fmm s) \<or> a = 0"
  shows "\<exists>s'. free_obj a s = Some s' \<and> gave_back s {a} s' \<and> threads s' a = None"
proof -
  obtain mm where "free a (fmm s) = Some mm" "live_blocks mm = live_blocks (fmm s) - {a}" "heap_room 0 mm"
  proof (cases "a = 0")
    case True
    then show ?thesis using that [of "fmm s"] assms(1) zero_not_live by (auto simp: free_def free_pages_def)
  next
    case False
    then show ?thesis using that room_free [OF assms(1), of a] assms(2) by blast
  qed
  then show ?thesis by (simp add: free_obj_def free_win_def free_block_def gave_back_def tcore_def map_le_def)
qed

lemma fclose_gave_back:
  assumes "heap_room 0 (fmm s)" and "files s fp = Some n" and "f_flags n \<in> {1, 2, 3, 4}" and "fp \<noteq> 0" and "f_buffer n \<noteq> fp"
    and "{fp, f_buffer n} \<subseteq> live_blocks (fmm s)"
  shows "\<exists>s'. fclose fp s = Some (0, s') \<and> gave_back s {fp, f_buffer n} s'"
proof -
  obtain mm where "fclose fp s = Some (0, s\<lparr>fmm := mm, files := (files s)(f_buffer n := None, fp := None), bufs := (bufs s)(f_buffer n := None, fp := None),
      ptrs := (ptrs s)(f_buffer n := None, fp := None), blks := (blks s)(f_buffer n := None, fp := None)\<rparr>)"
    "live_blocks mm = live_blocks (fmm s) - set [fp, f_buffer n]" "heap_room 0 mm"
    by (rule fclose_stream_ok [OF assms(1,2), of "f_buffer n"]) (use assms in simp_all)
  then show ?thesis by (auto simp: gave_back_def tcore_def)
qed

lemma pool_gave_back:
  assumes "heap_room 0 (fmm s)" and "set ps - {0} \<subseteq> live_blocks (fmm s)" and "distinct (filter (\<lambda>a. a \<noteq> 0) ps)"
  shows "\<exists>s'. fold (\<lambda>a r. r \<bind> (\<lambda>s. if a \<noteq> 0 then free_obj a s else Some s)) ps (Some s) = Some s' \<and> gave_back s (set ps - {0}) s'"
  using assms
proof (induction ps arbitrary: s)
  case Nil
  then show ?case by (simp add: gave_back_def)
next
  case (Cons a ps)
  show ?case
  proof (cases "a = 0")
    case True
    with Cons show ?thesis by simp
  next
    case False
    then obtain s1 where s1: "free_obj a s = Some s1" "gave_back s {a} s1" using free_obj_ok [of s a] Cons.prems by auto
    have "set ps - {0} \<subseteq> live_blocks (fmm s1)" using s1(2) Cons.prems False by (auto simp: gave_back_def)
    then obtain s2 where s2: "fold (\<lambda>a r. r \<bind> (\<lambda>s. if a \<noteq> 0 then free_obj a s else Some s)) ps (Some s1) = Some s2" "gave_back s1 (set ps - {0}) s2"
      using Cons.IH [of s1] s1(2) Cons.prems False by (auto simp: gave_back_def)
    have "{a} \<union> (set ps - {0}) = set (a # ps) - {0}" using False by auto
    with gave_back_trans [OF s1(2) s2(2)] s1(1) s2(1) False show ?thesis by simp
  qed
qed

text \<open>A stream that \<^verbatim>\<open>fclose\<close> can close, with its buffer.\<close>

definition closable :: "'a file_state_scheme \<Rightarrow> u64 \<Rightarrow> u64 \<Rightarrow> bool" where
  "closable s fp b \<longleftrightarrow> (\<exists>n. files s fp = Some n \<and> f_flags n \<in> {1, 2, 3, 4} \<and> f_buffer n = b)"

lemma closable_gave_back: "gave_back s A s' \<Longrightarrow> fp \<notin> A \<Longrightarrow> closable s' fp b = closable s fp b"
  by (simp add: gave_back_def closable_def)

lemma live_gave_back: "gave_back s A s' \<Longrightarrow> live_blocks (fmm s') = live_blocks (fmm s) - A \<and> heap_room 0 (fmm s')"
  by (simp add: gave_back_def)

lemma fclose_closable:
  assumes "closable s fp b" and "heap_room 0 (fmm s)" and "fp \<noteq> 0" and "b \<noteq> fp" and "{fp, b} \<subseteq> live_blocks (fmm s)"
  obtains s' where "fclose fp s = Some (0, s')" "gave_back s {fp, b} s'"
  using assms fclose_gave_back [of s fp] by (auto simp: closable_def)

lemma close_streams_ok:
  assumes room: "heap_room 0 (fmm s)" and bs: "bs = [b0, b1, b2, b3]"
    and cl: "closable s (t_stdin t) b0" "closable s (t_stdout t) b1" "closable s (t_stderr t) b2" "closable s (t_pipe t) b3"
    and d: "distinct ([t_stdin t, t_stdout t, t_stderr t, t_pipe t] @ bs @ [t_mouse t])" (is "distinct ?L")
    and z: "0 \<notin> set ([t_stdin t, t_stdout t, t_stderr t, t_pipe t] @ bs @ [t_mouse t])"
    and l: "set ([t_stdin t, t_stdout t, t_stderr t, t_pipe t] @ bs @ [t_mouse t]) \<subseteq> live_blocks (fmm s)"
  obtains s' where "close_streams t s = Some s'" "gave_back s (set ([t_stdin t, t_stdout t, t_stderr t, t_pipe t] @ bs @ [t_mouse t])) s'"
proof -
  obtain s1 where s1: "fclose (t_stdin t) s = Some (0, s1)" "gave_back s {t_stdin t, b0} s1"
    by (rule fclose_closable [OF cl(1) room]) (use bs d z l in auto)
  note l1 = live_gave_back [OF s1(2)]
  have c2: "closable s1 (t_stdout t) b1" using closable_gave_back [OF s1(2)] cl(2) bs d by auto
  obtain s2 where s2: "fclose (t_stdout t) s1 = Some (0, s2)" "gave_back s1 {t_stdout t, b1} s2"
    by (rule fclose_closable [OF c2 conjunct2 [OF l1]]) (use l1 bs d z l in auto)
  note l2 = live_gave_back [OF s2(2)] and g2 = gave_back_trans [OF s1(2) s2(2)]
  have c3: "closable s2 (t_stderr t) b2" using closable_gave_back [OF g2] cl(3) bs d by auto
  obtain s3 where s3: "fclose (t_stderr t) s2 = Some (0, s3)" "gave_back s2 {t_stderr t, b2} s3"
    by (rule fclose_closable [OF c3 conjunct2 [OF l2]]) (use conjunct1 [OF live_gave_back [OF g2]] bs d z l in auto)
  note l3 = live_gave_back [OF s3(2)] and g3 = gave_back_trans [OF g2 s3(2)]
  have c4: "closable s3 (t_pipe t) b3" using closable_gave_back [OF g3] cl(4) bs d by auto
  obtain s4 where s4: "fclose (t_pipe t) s3 = Some (0, s4)" "gave_back s3 {t_pipe t, b3} s4"
    by (rule fclose_closable [OF c4 conjunct2 [OF l3]]) (use conjunct1 [OF live_gave_back [OF g3]] bs d z l in auto)
  note l4 = live_gave_back [OF s4(2)] and g4 = gave_back_trans [OF g3 s4(2)]
  have e: "{t_stdin t, b0} \<union> {t_stdout t, b1} \<union> {t_stderr t, b2} \<union> {t_pipe t, b3} = set ([t_stdin t, t_stdout t, t_stderr t, t_pipe t] @ bs)"
    using bs by auto
  have "distinct (([t_stdin t, t_stdout t, t_stderr t, t_pipe t] @ bs) @ [t_mouse t])" using d by simp
  then have "t_mouse t \<notin> set ([t_stdin t, t_stdout t, t_stderr t, t_pipe t] @ bs)" unfolding distinct_append by simp
  then have "t_mouse t \<in> live_blocks (fmm s4)" using conjunct1 [OF live_gave_back [OF g4]] l unfolding e by simp
  from free_obj_ok [OF conjunct2 [OF l4] disjI1, OF this]
  obtain s5 where s5: "free_obj (t_mouse t) s4 = Some s5" "gave_back s4 {t_mouse t} s5" by blast
  have "close_streams t s = Some s5" using s1(1) s2(1) s3(1) s4(1) s5(1) by (simp add: close_streams_def)
  moreover have "{t_stdin t, b0} \<union> {t_stdout t, b1} \<union> {t_stderr t, b2} \<union> {t_pipe t, b3} \<union> {t_mouse t} = set ?L" unfolding e by auto
  ultimately show ?thesis using that gave_back_trans [OF g4 s5(2)] by simp
qed

lemma pipe_write_frame:
  assumes "pipe_write x fp s = Some (r, s')" and "fp \<noteq> 0"
  shows "\<exists>n n' b. s' = s\<lparr>bufs := b, files := (files s)(fp \<mapsto> n')\<rparr> \<and> files s fp = Some n \<and> f_flags n' = f_flags n \<and> f_buffer n' = f_buffer n"
proof -
  have w: "f_flags (wrap_off n) = f_flags n" "f_buffer (wrap_off n) = f_buffer n" for n by (simp_all add: wrap_off_def)
  from assms show ?thesis
    by (auto simp: pipe_write_def upd_file_def wr_bytes_def bind_eq_Some_conv w split: if_splits intro!: exI)
qed

lemma mark_zumbi_one:
  assumes "threads s a = Some t" and "a \<noteq> 0" and "t_tail t = 0"
  shows "mark_zumbi a s = Some (s\<lparr>threads := (threads s)(a \<mapsto> t\<lparr>t_status := t_status t OR 1\<rparr>)\<rparr>)"
  using assms by (simp add: mark_zumbi.simps [of a] mark_zumbi.simps [of 0] upd_thread_def)

section \<open>Exit of a thread without a child\<close>

definition own_blocks :: "u64 \<Rightarrow> THREAD \<Rightarrow> u64 list \<Rightarrow> u64 list \<Rightarrow> u64 list" where
  "own_blocks a t bs ps = [a, t_stdin t, t_stdout t, t_stderr t, t_pipe t] @ bs @ [t_mouse t, t_pool t] @ filter (\<lambda>p. p \<noteq> 0) ps"

text \<open>A thread of the kernel that owns its streams and the blocks its table lists.\<close>

definition owner :: "'a thread_state_scheme \<Rightarrow> u64 \<Rightarrow> THREAD \<Rightarrow> u64 list \<Rightarrow> u64 list \<Rightarrow> bool" where
  "owner s a t bs ps \<longleftrightarrow> threads s a = Some t \<and> t_tail t = 0 \<and> t_head t = a \<and> t_frame_size t = 0 \<and> t_pml4e_addr t = 0 \<and> t_pdpte_addr t = 0 \<and>
     t_pde_addr t = 0 \<and> t_pte_addr t = 0 \<and> t_prv t AND 0x10 = 0 \<and> t_prv t AND 0x20 \<noteq> 0 \<and>
     length bs = 4 \<and> list_all2 (closable s) [t_stdin t, t_stdout t, t_stderr t, t_pipe t] bs \<and>
     (\<exists>m. pools s (t_pool t) = Some m \<and> map pool_ptr (take 512 m) = ps) \<and>
     distinct (own_blocks a t bs ps) \<and> 0 \<notin> set (own_blocks a t bs ps) \<and> set (own_blocks a t bs ps) \<subseteq> live_blocks (fmm s)"

lemma fold_pool: "fold (\<lambda>e r. r \<bind> (\<lambda>s. if pool_ptr e \<noteq> 0 then free_obj (pool_ptr e) s else Some s)) m r =
    fold (\<lambda>a r. r \<bind> (\<lambda>s. if a \<noteq> 0 then free_obj a s else Some s)) (map pool_ptr m) r"
  by (induction m arbitrary: r) simp_all

lemma free_zero:
  assumes "heap_room 0 (fmm s)"
  obtains s' where "free_obj 0 s = Some s'" "gave_back s {0} s'"
  using free_obj_ok [OF assms] by blast

text \<open>The four page tables, which a thread of the kernel has not.\<close>

lemma free_tables_ok:
  assumes "heap_room 0 (fmm s)"
  obtains s1 s2 s3 s4 where "free_obj 0 s = Some s1" "free_obj 0 s1 = Some s2" "free_obj 0 s2 = Some s3" "free_obj 0 s3 = Some s4" "gave_back s {0} s4"
proof -
  obtain s1 where s1: "free_obj 0 s = Some s1" "gave_back s {0} s1" by (rule free_zero [OF assms])
  obtain s2 where s2: "free_obj 0 s1 = Some s2" "gave_back s1 {0} s2" by (rule free_zero [OF conjunct2 [OF live_gave_back [OF s1(2)]]])
  obtain s3 where s3: "free_obj 0 s2 = Some s3" "gave_back s2 {0} s3" by (rule free_zero [OF conjunct2 [OF live_gave_back [OF s2(2)]]])
  obtain s4 where s4: "free_obj 0 s3 = Some s4" "gave_back s3 {0} s4" by (rule free_zero [OF conjunct2 [OF live_gave_back [OF s3(2)]]])
  have "gave_back s {0} s4" using gave_back_trans [OF gave_back_trans [OF gave_back_trans [OF s1(2) s2(2)] s3(2)] s4(2)] by simp
  with that s1(1) s2(1) s3(1) s4(1) show ?thesis by blast
qed

text \<open>The blocks of the table and the table.\<close>

lemma user_free_ok:
  assumes "threads s a = Some t" and "pools s (t_pool t) = Some m" and "map pool_ptr (take 512 m) = ps" and "heap_room 0 (fmm s)"
    and "set ps - {0} \<subseteq> live_blocks (fmm s)" and "distinct (filter (\<lambda>p. p \<noteq> 0) ps)" and "t_pool t \<in> live_blocks (fmm s)" and "t_pool t \<notin> set ps - {0}"
  obtains s' where "user_free a s = Some s'" "gave_back s (insert (t_pool t) (set ps - {0})) s'"
proof -
  obtain s1 where s1: "fold (\<lambda>a r. r \<bind> (\<lambda>s. if a \<noteq> 0 then free_obj a s else Some s)) ps (Some s) = Some s1" "gave_back s (set ps - {0}) s1"
    using pool_gave_back [OF assms(4-6)] by blast
  have "t_pool t \<in> live_blocks (fmm s1)" using live_gave_back [OF s1(2)] assms(7,8) by auto
  from free_obj_ok [OF conjunct2 [OF live_gave_back [OF s1(2)]] disjI1, OF this]
  obtain s2 where s2: "free_obj (t_pool t) s1 = Some s2" "gave_back s1 {t_pool t} s2" by blast
  have "user_free a s = Some s2" using assms(1-3) s1(1) s2(1) by (simp add: user_free_def fold_pool)
  moreover have "set ps - {0} \<union> {t_pool t} = insert (t_pool t) (set ps - {0})" by blast
  ultimately show ?thesis using that gave_back_trans [OF s1(2) s2(2)] by simp
qed

lemma release_thread_ok:
  assumes o: "owner s a t bs ps" and room: "heap_room 0 (fmm s)" and q: "threads s (thread_ready_queue s) \<noteq> None" "thread_ready_queue s \<notin> insert 0 (set (own_blocks a t bs ps))"
    and pl: "pipe_launcher s = 0"
  obtains s' where "release_thread a s = Some s'" "gave_back s (insert 0 (set (own_blocks a t bs ps) - {a})) s'"
proof -
  obtain s1 s2 s3 s4 where f4: "free_obj 0 s = Some s1" "free_obj 0 s1 = Some s2" "free_obj 0 s2 = Some s3" "free_obj 0 s3 = Some s4"
    and g4: "gave_back s {0} s4" by (rule free_tables_ok [OF room])
  obtain tq where tq: "threads s4 (thread_ready_queue s4) = Some tq" using q g4 by (auto simp: gave_back_def tcore_def)
  define s5 where "s5 = s4\<lparr>std_in := t_stdin tq, std_out := t_stdout tq, std_err := t_stderr tq, mouse2 := t_mouse tq\<rparr>"
  have fd: "foco_default s4 = Some s5" using tq by (simp add: foco_default_def s5_def)
  have g5: "gave_back s {0} s5" using g4 by (simp add: gave_back_def s5_def tcore_def)
  note l5 = live_gave_back [OF g5]
  define S where "S = [t_stdin t, t_stdout t, t_stderr t, t_pipe t] @ bs @ [t_mouse t]"
  have obl: "own_blocks a t bs ps = a # S @ t_pool t # filter (\<lambda>p. p \<noteq> 0) ps" by (simp add: own_blocks_def S_def)
  then have ob: "set (own_blocks a t bs ps) = insert a (set S \<union> insert (t_pool t) (set ps - {0}))" by auto
  have od: "distinct (own_blocks a t bs ps)" "0 \<notin> set (own_blocks a t bs ps)" "set (own_blocks a t bs ps) \<subseteq> live_blocks (fmm s)"
    using o unfolding owner_def by blast+
  have dS: "distinct S" "0 \<notin> set S" "set S \<subseteq> live_blocks (fmm s)" "a \<notin> set S" "t_pool t \<notin> set S" "set S \<inter> set ps \<subseteq> {0}"
      "distinct (filter (\<lambda>p. p \<noteq> 0) ps)" "t_pool t \<notin> set ps - {0}" "a \<notin> insert (t_pool t) (set ps)" "a \<noteq> 0" "t_pool t \<noteq> 0"
      "set ps - {0} \<subseteq> live_blocks (fmm s)" "t_pool t \<in> live_blocks (fmm s)"
    using od unfolding obl by auto
  obtain b0 b1 b2 b3 where bs: "bs = [b0, b1, b2, b3]" using o by (auto simp: owner_def numeral_eq_Suc length_Suc_conv)
  have cl: "closable s5 (t_stdin t) b0" "closable s5 (t_stdout t) b1" "closable s5 (t_stderr t) b2" "closable s5 (t_pipe t) b3"
    using o closable_gave_back [OF g5] dS(2) by (auto simp: owner_def bs S_def)
  have sub5: "set S \<subseteq> live_blocks (fmm s5)" using l5 dS(2,3) by auto
  obtain s6 where s6: "close_streams t s5 = Some s6" "gave_back s5 (set S) s6"
    by (rule close_streams_ok [OF conjunct2 [OF l5] bs cl, folded S_def, OF dS(1,2) sub5])
  have g6: "gave_back s (insert 0 (set S)) s6" using gave_back_trans [OF g5 s6(2)] by (simp only: insert_is_Un [symmetric])
  have pw: "pipe_write (exit_message (t_id t)) (pipe_launcher s6) s6 = Some (0, s6)"
    using g6 pl by (simp add: gave_back_def tcore_def pipe_write_def)
  obtain m where m: "pools s (t_pool t) = Some m" "map pool_ptr (take 512 m) = ps" using o by (auto simp: owner_def)
  have t6: "threads s6 a = Some t" "pools s6 (t_pool t) = Some m"
    using g6 o m(1) dS(4,5,10,11) by (auto simp: gave_back_def owner_def)
  have l6: "set ps - {0} \<subseteq> live_blocks (fmm s6)" "t_pool t \<in> live_blocks (fmm s6)" using live_gave_back [OF g6] dS by auto
  obtain s8 where s8: "user_free a s6 = Some s8" "gave_back s6 (insert (t_pool t) (set ps - {0})) s8"
    by (rule user_free_ok [OF t6 m(2) conjunct2 [OF live_gave_back [OF g6]] l6(1) dS(7) l6(2) dS(8)])
  then have "release_thread a s = Some s8"
    using o f4 fd s6(1) pw by (simp add: release_thread_def owner_def free_frames_of_def)
  moreover have "insert 0 (set S) \<union> insert (t_pool t) (set ps - {0}) = insert 0 (set (own_blocks a t bs ps) - {a})"
    unfolding ob using dS(4,9) by auto
  ultimately show ?thesis using that gave_back_trans [OF g6 s8(2)] by simp
qed

lemma find_pred_chain:
  "chain nx h p (qs @ a # rs) \<Longrightarrow> qs \<noteq> [] \<Longrightarrow> find (\<lambda>x. nx (the (h x)) = a) (qs @ a # rs) = Some (last qs)"
proof (induction qs arbitrary: p)
  case (Cons x qs)
  then obtain n where n: "h x = Some n" "chain nx h (nx n) (qs @ a # rs)" by auto
  show ?case
  proof (cases qs)
    case Nil
    with n show ?thesis by simp
  next
    case (Cons y ys)
    with n have "nx n = y" "distinct (qs @ a # rs)" using chain_distinct [OF n(2)] by auto
    with Cons.IH [OF n(2)] n(1) Cons show ?thesis by auto
  qed
qed simp

lemma unlink_from:
  assumes c: "chain t_next (threads s) (thread_ready_queue s) (qs @ a # rs)" and qs: "qs \<noteq> []" and t: "threads s a = Some t" "t_head t = a" "t_tail t = 0"
    and room: "heap_room 0 (fmm s)" and live: "a \<in> live_blocks (fmm s)"
  obtains s' where "unlink_all a s = Some s'" "gave_back (s\<lparr>threads := (threads s)(last qs \<mapsto> (thr s (last qs))\<lparr>t_next := t_next t\<rparr>,
      a \<mapsto> t\<lparr>t_status := t_status t AND NOT 2, t_tail := 0\<rparr>)\<rparr>) {a} s'" "threads s' a = None"
proof -
  let ?l = "last qs"
  have l: "?l \<in> set qs" "?l \<noteq> a" "a \<noteq> 0" "?l \<noteq> 0" using qs chain_distinct [OF c] chain_nodes [OF c] by auto
  obtain tl where tl: "threads s ?l = Some tl" using chain_nodes [OF c, of ?l] l(1) by auto
  have fd: "find_node t_next (\<lambda>t. t_next t = a) (threads s) (thread_ready_queue s) = Some ?l"
    using find_node_chain [OF c, of "\<lambda>t. t_next t = a"] find_pred_chain [OF c qs] by simp
  define s1 where "s1 = s\<lparr>threads := (threads s)(?l \<mapsto> (thr s ?l)\<lparr>t_next := t_next t\<rparr>, a \<mapsto> t\<lparr>t_status := t_status t AND NOT 2, t_tail := 0\<rparr>)\<rparr>"
  have u: "unlink_thread a s = Some s1"
    using fd tl t l by (simp add: unlink_thread_def upd_thread_def s1_def thr_def)
  have "heap_room 0 (fmm s1)" "a \<in> live_blocks (fmm s1) \<or> a = 0" using room live by (simp_all add: s1_def)
  from free_obj_ok [OF this] obtain s2 where s2: "free_obj a s1 = Some s2" "gave_back s1 {a} s2" "threads s2 a = None" by blast
  have "threads s1 a = Some (t\<lparr>t_status := t_status t AND NOT 2, t_tail := 0\<rparr>)" by (simp add: s1_def)
  then have "unlink_all a s = Some s2" using u s2(1) l(3) by (simp add: unlink_all.simps [of a] unlink_all.simps [of 0])
  then show ?thesis using that s2(2,3) by (simp add: s1_def)
qed

text \<open>How \<^verbatim>\<open>exit\<close> begins: the thread is marked as ended and the message goes to its pipe.\<close>

lemma exit_begin:
  assumes ta: "threads s a = Some t" "a \<noteq> 0" "t_tail t = 0" and pipe: "pipe s (t_pipe t) n i j b" "i < 512"
  obtains u1 u2 where "mark_zumbi a s = Some u1" "threads u1 a = Some (t\<lparr>t_status := t_status t OR 1\<rparr>)"
    "pipe_write (exit_message 0) (t_pipe t) u1 = Some (16, u2)"
    "threads u2 = (threads s)(a \<mapsto> t\<lparr>t_status := t_status t OR 1\<rparr>)" "fmm u2 = fmm s" "pools u2 = pools s" "tcore u2 = tcore s"
    "\<forall>fp c. closable s fp c \<longrightarrow> closable u2 fp c"
proof -
  define u1 where "u1 = s\<lparr>threads := (threads s)(a \<mapsto> t\<lparr>t_status := t_status t OR 1\<rparr>)\<rparr>"
  have mz: "mark_zumbi a s = Some u1" unfolding u1_def by (rule mark_zumbi_one [OF ta])
  have "pipe u1 (t_pipe t) n i j b" using pipe(1) by (simp add: pipe_def u1_def)
  then obtain u2 where u2: "pipe_write (exit_message 0) (t_pipe t) u1 = Some (16, u2)"
    using pipe_write_slot [OF _ pipe(2), of u1 "t_pipe t" n j b "exit_message 0"] by (auto simp: exit_message_def le16_def)
  have p0: "t_pipe t \<noteq> 0" using pipe(1) by (simp add: pipe_def)
  obtain n0 n' b' where fr: "u2 = u1\<lparr>bufs := b', files := (files u1)(t_pipe t \<mapsto> n')\<rparr>" "files u1 (t_pipe t) = Some n0" "f_flags n' = f_flags n0" "f_buffer n' = f_buffer n0"
    using pipe_write_frame [OF u2 p0] by blast
  have "\<forall>fp c. closable s fp c \<longrightarrow> closable u2 fp c" using fr by (auto simp: closable_def u1_def)
  then show ?thesis by (intro that [OF mz _ u2]) (simp_all add: fr(1) u1_def tcore_def)
qed

text \<open>Taking a thread out of the queue.\<close>

lemma thread_inv_remove:
  assumes inv: "thread_inv (qs @ a # rs) s" and qs: "qs \<noteq> []" and ta: "threads s a = Some t"
    and th: "threads s' = (threads s)(a := None, last qs \<mapsto> (thr s (last qs))\<lparr>t_next := t_next t\<rparr>)" and tc: "tcore s' = tcore s"
    and cur: "current_thread s \<in> set (qs @ rs)" "current_thread2 s \<in> set (qs @ rs)" and live: "set (qs @ rs) \<subseteq> live_blocks (fmm s')"
  shows "thread_inv (qs @ rs) s'"
proof -
  let ?n = "(thr s (last qs))\<lparr>t_next := t_next t\<rparr>"
  have aq: "a \<notin> set (qs @ rs)" using inv by (auto simp: thread_inv_def dest: chain_distinct)
  have lq: "last qs \<in> set qs" "last qs \<noteq> a" using qs aq by auto
  have e: "qs @ a # rs = butlast qs @ last qs # a # rs" "butlast qs @ last qs # rs = qs @ rs" using qs by simp_all
  have "chain t_next (threads s) (thread_ready_queue s) (butlast qs @ last qs # a # rs)"
    using inv unfolding thread_inv_def e(1) by blast
  then have "chain t_next ((threads s)(last qs \<mapsto> ?n)) (thread_ready_queue s) (qs @ rs)"
    using thread.chain_unlink [of "threads s" "thread_ready_queue s" "butlast qs" "last qs" a rs "thr s (last qs)" t]
      conjunct2 [OF thread_inv_node [OF inv, of "last qs"]] lq(1) ta e(2) by simp
  then have "chain t_next (threads s') (thread_ready_queue s') (qs @ rs)"
    unfolding th fun_upd_twist [OF lq(2) [symmetric]] thread.chain_fresh [OF aq] using tc by (simp add: tcore_def)
  moreover have "dom (threads s') = set (qs @ rs)" unfolding th using inv aq lq by (auto simp: thread_inv_def)
  moreover have p: "t_pid (thr s' x) = t_pid (thr s x) \<and> t_fxsave (thr s' x) = t_fxsave (thr s x)" if "x \<in> set (qs @ rs)" for x
    using that aq by (auto simp: thr_def th)
  then have m: "map (\<lambda>x. t_pid (thr s' x)) (qs @ rs) = map (\<lambda>x. t_pid (thr s x)) (qs @ rs)" by simp
  have "distinct (map (\<lambda>x. t_pid (thr s x)) (qs @ rs))" using inv by (simp add: thread_inv_def)
  then have "distinct (map (\<lambda>x. t_pid (thr s' x)) (qs @ rs))" unfolding m .
  ultimately show ?thesis using inv cur tc p live unfolding thread_inv_def tcore_def by auto
qed

lemma exit_ok:
  assumes inv: "thread_inv (qs @ a # rs) s" and qs: "qs \<noteq> []" and o: "owner s a t bs ps" and room: "heap_room 0 (fmm s)" and pl: "pipe_launcher s = 0"
    and pipe: "pipe s (t_pipe t) n i j b" "i < 512" and cur: "current_thread s \<in> set (qs @ rs)" "current_thread2 s \<in> set (qs @ rs)"
    and dj: "set (own_blocks a t bs ps) \<inter> set (qs @ rs) = {}"
  obtains s' where "exit a s = Some s'" "thread_inv (qs @ rs) s'" "live_blocks (fmm s') = live_blocks (fmm s) - set (own_blocks a t bs ps)"
    "threads s' = (threads s)(a := None, last qs \<mapsto> (thr s (last qs))\<lparr>t_next := t_next t\<rparr>)" "heap_room 0 (fmm s')"
proof -
  let ?A = "insert 0 (set (own_blocks a t bs ps) - {a})"
  define t1 where "t1 = t\<lparr>t_status := t_status t OR 1\<rparr>"
  have ta: "threads s a = Some t" "t_tail t = 0" "a \<noteq> 0" "t_head t = a" "t_prv t AND 0x20 \<noteq> 0" "a \<in> live_blocks (fmm s)"
    using o by (auto simp: owner_def own_blocks_def)
  obtain u1 u2 where b: "mark_zumbi a s = Some u1" "threads u1 a = Some t1" "pipe_write (exit_message 0) (t_pipe t) u1 = Some (16, u2)"
    and f2: "threads u2 = (threads s)(a \<mapsto> t1)" "fmm u2 = fmm s" "pools u2 = pools s" "tcore u2 = tcore s" and cl: "\<forall>fp c. closable s fp c \<longrightarrow> closable u2 fp c"
    unfolding t1_def by (rule exit_begin [OF ta(1,3,2) pipe])
  have o2: "owner u2 a t1 bs ps" "own_blocks a t1 bs ps = own_blocks a t bs ps"
    using o cl unfolding owner_def f2(1-3) own_blocks_def by (auto simp: t1_def elim: list_all2_mono)
  have tc: "thread_ready_queue u2 = thread_ready_queue s" "pipe_launcher u2 = 0" "current_thread u2 = current_thread s"
    "current_thread2 u2 = current_thread2 s" "next_pid u2 = next_pid s" "ctx u2 = ctx s" "ctx2 u2 = ctx2 s" using f2(4) pl by (simp_all add: tcore_def)
  have hd: "thread_ready_queue s = hd qs" "hd qs \<in> set qs" using thread_inv_queue [OF inv] qs by (auto simp: hd_append)
  have nz: "x \<noteq> 0" "threads s x \<noteq> None" if "x \<in> set (qs @ rs)" for x using thread_inv_node [OF inv, of x] that by auto
  have aq: "a \<notin> set (qs @ rs)" using inv by (auto simp: thread_inv_def dest: chain_distinct)
  have off: "x \<notin> ?A" if "x \<in> set (qs @ rs)" for x using dj nz(1) [OF that] that by auto
  obtain u3 where u3: "release_thread a u2 = Some u3" "gave_back u2 ?A u3"
  proof (rule release_thread_ok [OF o2(1), unfolded o2(2)])
    show "heap_room 0 (fmm u2)" "pipe_launcher u2 = 0" using room f2(2) tc by simp_all
    show "threads u2 (thread_ready_queue u2) \<noteq> None" using nz(2) hd tc(1) by (simp add: f2(1))
    show "thread_ready_queue u2 \<notin> insert 0 (set (own_blocks a t bs ps))" using hd tc(1) dj nz(1) by auto
  qed
  have th3: "threads u3 x = threads u2 x" if "x \<notin> ?A" for x using u3(2) that by (simp add: gave_back_def)
  have t3: "threads u3 a = Some t1" using th3 [of a] ta(3) f2(1) by simp
  have ra: "release_all a u2 = Some u3"
    using u3(1) t3 ta(2,3) by (simp add: release_all.simps [of a] release_all.simps [of 0] t1_def)
  define u4 where "u4 = u3\<lparr>mult_task := 0\<rparr>"
  have f4: "threads u4 = threads u3" "fmm u4 = fmm u3" "thread_ready_queue u4 = thread_ready_queue s" "tcore u4 = tcore s"
    using u3(2) f2(4) by (simp_all add: u4_def gave_back_def tcore_def)
  have "chain t_next (threads u4) (thread_ready_queue u4) (qs @ a # rs) = chain t_next (threads s) (thread_ready_queue s) (qs @ a # rs)"
    unfolding f4(1,3)
  proof (rule chain_cong)
    fix x assume "x \<in> set (qs @ a # rs)"
    then have "threads u3 x = threads u2 x" using th3 [of x] off [of x] ta(3) by auto
    then show "map_option t_next (threads u3 x) = map_option t_next (threads s x)" using ta(1) by (simp add: f2(1) t1_def)
  qed
  then have c4: "chain t_next (threads u4) (thread_ready_queue u4) (qs @ a # rs)" using inv by (simp add: thread_inv_def)
  have l4: "live_blocks (fmm u4) = live_blocks (fmm s) - ?A" "heap_room 0 (fmm u4)" using u3(2) by (simp_all add: gave_back_def f2(2) f4(2))
  define h where "h = (threads u4)(last qs \<mapsto> (thr u4 (last qs))\<lparr>t_next := t_next t\<rparr>, a \<mapsto> t1\<lparr>t_status := t_status t1 AND NOT 2, t_tail := 0\<rparr>)"
  obtain u5 where u5: "unlink_all a u4 = Some u5" "gave_back (u4\<lparr>threads := h\<rparr>) {a} u5" "threads u5 a = None"
    unfolding h_def by (rule unlink_from [OF c4 qs, of t1]) (use t3 ta l4 in \<open>simp_all add: f4 t1_def\<close>)
  define s' where "s' = u5\<lparr>mult_task := 1\<rparr>"
  have run: "exit a s = Some s'"
    using b ra u5(1) t3 ta(5) by (simp add: exit_def u4_def s'_def t1_def Let_def)
  have live: "live_blocks (fmm s') = live_blocks (fmm s) - set (own_blocks a t bs ps)" "heap_room 0 (fmm s')"
    using u5(2) l4(1) zero_not_live ta(6) o by (auto simp: gave_back_def s'_def owner_def own_blocks_def)
  have dom: "dom (threads s) = insert a (set (qs @ rs))" using inv by (simp add: thread_inv_def)
  have lq: "last qs \<in> set qs" "last qs \<noteq> a" using qs aq by auto
  have k3: "threads u3 x = threads s x" if "x \<noteq> a" for x
  proof (cases "x \<in> ?A")
    case True
    then have "threads u2 x = None" using dom off that by (auto simp: f2(1) domIff)
    moreover have "threads u3 \<subseteq>\<^sub>m threads u2" using u3(2) by (simp add: gave_back_def)
    ultimately show ?thesis using that by (auto simp: map_le_def f2(1) dom_def split: option.splits)
  qed (use th3 that in \<open>simp add: f2(1)\<close>)
  have th: "threads s' = (threads s)(a := None, last qs \<mapsto> (thr s (last qs))\<lparr>t_next := t_next t\<rparr>)"
  proof
    fix x
    show "threads s' x = ((threads s)(a := None, last qs \<mapsto> (thr s (last qs))\<lparr>t_next := t_next t\<rparr>)) x"
    proof (cases "x = a")
      case True
      then show ?thesis using u5(3) lq by (simp add: s'_def)
    next
      case False
      then have "threads s' x = h x" using u5(2) by (simp add: s'_def gave_back_def)
      then show ?thesis using False k3 [of x] k3 [OF lq(2)] by (simp add: h_def f4(1) thr_def)
    qed
  qed
  have tc': "tcore s' = tcore s" using u5(2) f4(4) by (simp add: s'_def gave_back_def tcore_def)
  have "set (qs @ rs) \<subseteq> live_blocks (fmm s')" using inv live(1) dj by (auto simp: thread_inv_def)
  then have "thread_inv (qs @ rs) s'" by (rule thread_inv_remove [OF inv qs ta(1) th tc' cur])
  with run live th show ?thesis using that by blast
qed

end
