(* ===== verification/Threadthms.thy ===== *)
theory Threadthms
  imports Leave
begin

text \<open>
  Properties of the threads: what the two schedulers do to the registers, that a round of interrupts serves
  every thread that may run and what the creation of a thread gives.
  The last section says that interrupts and the end of a process keep the queue.
\<close>

section \<open>Switching\<close>

text \<open>C9: \<open>task_switch\<close> stores every register of the processor and the floating point image in the running thread
  and gives the processor to the next thread of the queue that is not for the second processor, not in state ZUMBI and
  not waiting, to the first of the queue when no later one is; every register then has the value stored in that
  thread.  Nothing else changes and the queue stays well-formed.\<close>

theorem task_switch_correct:
  assumes "thread_inv qs s"
  shows "let c = current_thread s; r = ctx s;
      n = next_of (\<lambda>a. t_prv (thr s a) AND 0x80 = 0 \<and> t_status (thr s a) AND 1 = 0 \<and> t_status (thr s a) AND 2 = 0) qs c;
      old = (thr s c)\<lparr>t_rax := c_rax r, t_rbx := c_rbx r, t_rcx := c_rcx r, t_rdx := c_rdx r, t_rdi := c_rdi r, t_rsi := c_rsi r, t_rbp := c_rbp r,
        t_rsp := c_rsp r, t_rip := c_rip r, t_r8 := c_r8 r, t_r9 := c_r9 r, t_r10 := c_r10 r, t_r11 := c_r11 r, t_r12 := c_r12 r, t_r13 := c_r13 r,
        t_r14 := c_r14 r, t_r15 := c_r15 r, t_cs := c_cs r, t_ds := c_ds r, t_es := c_es r, t_fs := c_fs r, t_gs := c_gs r, t_ss := c_ss r,
        t_rflag := c_rflag r, t_cr3 := c_cr3 r, t_fxsave := c_fxsave r\<rparr>;
      t = (if n = c then old else thr s n);
      s' = s\<lparr>threads := (threads s)(c \<mapsto> old), current_thread := n, ctx := r\<lparr>c_rax := t_rax t, c_rbx := t_rbx t, c_rcx := t_rcx t, c_rdx := t_rdx t,
        c_rdi := t_rdi t, c_rsi := t_rsi t, c_rbp := t_rbp t, c_rsp := t_rsp t, c_rip := t_rip t, c_r8 := t_r8 t, c_r9 := t_r9 t, c_r10 := t_r10 t,
        c_r11 := t_r11 t, c_r12 := t_r12 t, c_r13 := t_r13 t, c_r14 := t_r14 t, c_r15 := t_r15 t, c_cs := t_cs t, c_ds := t_ds t, c_es := t_es t,
        c_fs := t_fs t, c_gs := t_gs t, c_ss := t_ss t, c_rflag := t_rflag t, c_cr3 := t_cr3 t, c_pid := t_pid t, c_fxsave := t_fxsave t\<rparr>\<rparr>
    in task_switch s = Some s' \<and> thread_inv qs s'"
proof -
  define n where "n = next_of (\<lambda>a. runs_here (thr s a)) qs (current_thread s)"
  define t where "t = (if n = current_thread s then save_context (ctx s) (thr s (current_thread s)) else thr s n)"
  have fx: "length (c_fxsave (ctx s)) = 512" "\<forall>a \<in> set qs. length (t_fxsave (thr s a)) = 512" using assms by (simp_all add: thread_inv_def)
  have n: "n \<in> set qs" unfolding n_def using next_of_mem thread_inv_queue [OF assms] by blast
  have tn: "the (((threads s)(current_thread s \<mapsto> save_context (ctx s) (thr s (current_thread s)))) n) = t" by (simp add: t_def thr_def)
  have ft: "length (t_fxsave t) = 512" using fx n by (simp add: t_def)
  show ?thesis
    using task_switch_ok [OF assms, folded n_def, unfolded tn]
    unfolding Let_def t_def [symmetric] load_context_def save_context_def copy512_id [OF fx(1)] copy512_id [OF ft]
    by (simp only: n_def runs_here_def t_def save_context_def copy512_id [OF fx(1)] de_Morgan_disj not_not conj_assoc refl simp_thms)
qed

text \<open>C3: the scheduler is fair and transparent.  In a round of as many interrupts as there are threads that
  may run, every one of them gets the processor, in the order of the queue, each other one with the
  registers it was left with; at the end the first thread goes on with exactly the registers it had when
  it was interrupted, whatever the others did.\<close>

theorem task_switch_round:
  assumes "thread_inv qs s" and "R = filter (\<lambda>a. runs_here (thr s a)) qs" and "runs_here (thr s (hd qs))"
    and "i < length R" and "current_thread s = R ! i"
    and "\<forall>k c. length (c_fxsave c) = 512 \<longrightarrow> length (c_fxsave (step k c)) = 512"
  shows "(\<forall>j. 0 < j \<and> j < length R \<longrightarrow> (\<exists>s'. ticks step j s = Some s' \<and> current_thread s' = R ! ((i + j) mod length R) \<and>
       ctx s' = load_context (thr s (current_thread s')) (ctx s))) \<and>
    (\<exists>s'. ticks step (length R) s = Some s' \<and> thread_inv qs s' \<and> current_thread s' = current_thread s \<and>
       ctx s' = (step 0 (ctx s))\<lparr>c_pid := t_pid (thr s (current_thread s))\<rparr>)"
proof (intro conjI allI impI)
  fix j assume j: "0 < j \<and> j < length R"
  then obtain s' where s': "ticks step j s = Some s'" "in_round step qs R i j s s'"
    using round_ticks [OF assms, of j] by auto
  then have "current_thread s' = R ! ((i + j) mod length R)" "thr s' (current_thread s') = thr s (current_thread s')"
    "ctx s' = load_context (thr s' (current_thread s')) (ctx s)" using j by (simp_all add: in_round_def)
  with s'(1) show "\<exists>s'. ticks step j s = Some s' \<and> current_thread s' = R ! ((i + j) mod length R) \<and>
       ctx s' = load_context (thr s (current_thread s')) (ctx s)" by auto
next
  obtain s' where s': "ticks step (length R) s = Some s'" "in_round step qs R i (length R) s s'"
    using round_ticks [OF assms order_refl] by auto
  have fx: "length (c_fxsave (step 0 (ctx s))) = 512" using assms(1,6) by (simp add: thread_inv_def)
  have n: "0 < length R" using assms(4) by linarith
  with s'(2) assms(4) have f: "thread_inv qs s'" "current_thread s' = R ! i" "thr s' (R ! i) = save_context (step 0 (ctx s)) (thr s (R ! i))"
    "ctx s' = load_context (thr s' (current_thread s')) (ctx s)" by (simp_all add: in_round_def)
  then have "ctx s' = (step 0 (ctx s))\<lparr>c_pid := t_pid (thr s (current_thread s))\<rparr>" using load_save [OF fx] assms(5) by simp
  with s'(1) f(1,2) assms(5) show "\<exists>s'. ticks step (length R) s = Some s' \<and> thread_inv qs s' \<and> current_thread s' = current_thread s \<and>
       ctx s' = (step 0 (ctx s))\<lparr>c_pid := t_pid (thr s (current_thread s))\<rparr>" by auto
qed

text \<open>The second scheduler, whatever its flags say.\<close>

lemma task_switch2_ok:
  assumes inv: "thread_inv qs s"
  shows "\<exists>s'. task_switch2 s = Some s' \<and> thread_inv qs s' \<and> current_thread s' = current_thread s \<and> ctx s' = ctx s \<and>
    (first_thread2 s \<noteq> 0 \<longrightarrow> thr s' (current_thread2 s) = save_context (ctx2 s) (thr s (current_thread2 s))) \<and>
    (if first_thread2 s \<noteq> 0 \<and> threadz s \<noteq> 0
     then current_thread2 s' = current_thread2 s \<and> ctx2 s' = (ctx2 s)\<lparr>c_pid := t_pid (thr s (current_thread2 s))\<rparr>
     else if \<exists>a \<in> set qs. runs_second (thr s a)
     then first_thread2 s' = 1 \<and> runs_second (thr s (current_thread2 s')) \<and> ctx2 s' = load_context (thr s' (current_thread2 s')) (ctx2 s)
     else current_thread2 s' = current_thread2 s \<and> ctx2 s' = ctx2 s)"
proof -
  let ?c = "current_thread2 s"
  have c: "?c \<in> set qs" and fx: "length (c_fxsave (ctx2 s)) = 512" using inv by (simp_all add: thread_inv_def)
  define h where "h = (if first_thread2 s \<noteq> 0 then (threads s)(?c \<mapsto> save_context (ctx2 s) (thr s ?c)) else threads s)"
  define u where "u = s\<lparr>threads := h\<rparr>"
  have fu: "threads u = h" "thread_ready_queue u = thread_ready_queue s" by (simp_all add: u_def)
  have inv1: "thread_inv qs u"
    unfolding u_def h_def using inv thread_inv_upd [OF inv c, of "save_context (ctx2 s) (thr s ?c)"] by simp
  have runs: "runs_second (thr u a) = runs_second (thr s a)" for a by (simp add: u_def h_def thr_def)
  have sv: "first_thread2 s \<noteq> 0 \<longrightarrow> h ?c = Some (save_context (ctx2 s) (thr s ?c))" by (simp add: h_def)
  obtain t0 where tc: "h ?c = Some t0" "thr u ?c = t0" using thread_inv_node [OF inv1 c] by (auto simp: u_def)
  have save: "(if first_thread2 s \<noteq> 0 then upd_thread ?c (save_context (ctx2 s)) s else Some s) = Some u"
    using thread_inv_node [OF inv c] by (simp add: upd_thread_def u_def h_def)
  obtain p where p: "do { p \<leftarrow> find_node t_next runs_second (threads u) (t_next (thr u ?c));
      if p \<noteq> 0 then Some p else find_node t_next runs_second (threads u) (thread_ready_queue u) } = Some p"
    "if \<exists>a \<in> set qs. runs_second (thr u a) then p \<in> set qs \<and> runs_second (thr u p) else p = 0"
    by (rule pick_second [OF inv1 c])
  have go: "thread_inv qs (u\<lparr>current_thread2 := a, first_thread2 := b, ctx2 := load_context t d\<rparr>)" if "a \<in> set qs" for a b t d
    using inv1 that by (simp add: thread_inv_def thr_def)
  show ?thesis
  proof (cases "first_thread2 s \<noteq> 0 \<and> threadz s \<noteq> 0")
    case True
    have th: "thr u ?c = save_context (ctx2 s) (thr s ?c)" using sv tc True by simp
    let ?s = "u\<lparr>ctx2 := load_context (thr u ?c) (ctx2 s)\<rparr>"
    have "task_switch2 s = Some ?s"
      unfolding task_switch2_def Let_def save using True tc by (simp add: restore2_def u_def thr_def)
    moreover have "thread_inv qs ?s" using inv1 by (simp add: thread_inv_def thr_def)
    ultimately show ?thesis using True load_save [OF fx] th by (auto simp: u_def thr_def)
  next
    case False
    have sw: "task_switch2 s = (if p = 0 then Some u else restore2 p (u\<lparr>current_thread2 := p, first_thread2 := 1\<rparr>))"
    proof -
      obtain p1 where "find_node t_next runs_second h (t_next t0) = Some p1"
        "(if p1 \<noteq> 0 then Some p1 else find_node t_next runs_second h (thread_ready_queue s)) = Some p"
        using p(1) unfolding tc(2) fu by (cases "find_node t_next runs_second h (t_next t0)") simp_all
      then show ?thesis unfolding task_switch2_def Let_def save using False tc(1)
        by (cases "p1 = 0"; cases "first_thread2 s = 0") (simp_all add: u_def)
    qed
    show ?thesis
    proof (cases "\<exists>a \<in> set qs. runs_second (thr u a)")
      case True
      with p(2) have pq: "p \<in> set qs" "runs_second (thr u p)" by simp_all
      then obtain tp where tp: "p \<noteq> 0" "h p = Some tp" "thr u p = tp" using thread_inv_node [OF inv1, of p] fu(1) by (metis option.sel thr_def)
      let ?s = "u\<lparr>current_thread2 := p, first_thread2 := 1, ctx2 := load_context (thr u p) (ctx2 s)\<rparr>"
      have "task_switch2 s = Some ?s" using sw tp(1,2) unfolding tp(3) by (simp add: restore2_def u_def)
      moreover have "\<exists>a \<in> set qs. runs_second (thr s a)" "runs_second (thr s p)" using True pq(2) by (simp_all only: runs)
      moreover have "thr ?s a = the (h a)" for a by (simp add: u_def thr_def)
      ultimately show ?thesis using False go [OF pq(1)] sv tp(2,3) by (intro exI [of _ ?s]) (auto simp: u_def)
    next
      case none: False
      with p(2) have "task_switch2 s = Some u" using sw by simp
      moreover have "\<not> (\<exists>a \<in> set qs. runs_second (thr s a))" using none by (simp only: runs not_False_eq_True)
      ultimately show ?thesis using False inv1 sv by (intro exI [of _ u]) (auto simp: u_def)
    qed
  qed
qed


section \<open>Creation and end\<close>

text \<open>C8: creating a thread succeeds when the heap has room.  The new thread comes last in the queue, is found
  by its process number, which no other thread has, starts at \<open>main\<close> with the stack, address space and
  privilege asked for and runs on the processor asked for; the other threads keep everything but the link
  to it.\<close>

theorem create_thread_correct:
  assumes "thread_inv qs s" and "heap_room (17 + win_pages pv) (fmm s)" and "next_pid s \<noteq> - 1" and "length sse = 512"
  shows "\<exists>new s' t. create_thread rd sse main rsp cr3 rbx pv argc argv pwd s = Some (new, s') \<and> new \<notin> set qs \<and>
    thread_inv (qs @ [new]) s' \<and> get_thread (next_pid s) s' = Some new \<and> threads s' new = Some t \<and>
    fresh_thread (next_pid s) sse main rsp pv t \<and> t_cr3 t = cr3 \<and> runs_here t = (pv AND 0x80 = 0) \<and> runs_second t = (pv AND 0x80 \<noteq> 0) \<and>
    current_thread s' = current_thread s \<and> (\<forall>a \<in> set qs. (thr s' a)\<lparr>t_next := 0\<rparr> = (thr s a)\<lparr>t_next := 0\<rparr>)"
proof -
  have r: "heap_room (17 + win_pages pv + 0) (fmm s)" using assms(2) by simp
  obtain new t s' where n: "create_thread rd sse main rsp cr3 rbx pv argc argv pwd s = Some (new, s')"
    "threads s' = (threads s)(new \<mapsto> t, last qs \<mapsto> (thr s (last qs))\<lparr>t_next := new\<rparr>)"
    "fresh_thread (next_pid s) sse main rsp pv t" "t_cr3 t = cr3" "t_status t = 0" "thread_inv (qs @ [new]) s'"
    "t_prv t = (if pv AND 1 = 1 then 1 else 0) OR (if pv AND 0x80 = 0x80 then 0x80 else 0) OR 0x20 OR (if pv AND 0x10 \<noteq> 0 then 0x10 else 0)"
    "current_thread s' = current_thread s"
    by (rule create_thread_ok [OF assms(1) r assms(3,4)]) blast
  have nq: "new \<notin> set qs" using n(6) by (auto simp: thread_inv_def dest: chain_distinct)
  have l: "last qs \<in> set qs" using thread_inv_queue [OF assms(1)] by simp
  then have tn: "threads s' new = Some t" using n(2) nq by auto
  have "\<forall>a \<in> set qs. (thr s' a)\<lparr>t_next := 0\<rparr> = (thr s a)\<lparr>t_next := 0\<rparr>" using nq by (auto simp: thr_def n(2))
  moreover have "get_thread (next_pid s) s' = Some new"
    using get_thread_found [OF n(6), of new] tn n(3) by (simp add: thr_def fresh_thread_def)
  moreover have "pv AND 0x80 = (if bit pv 7 then 0x80 else 0)" using and_exp_if [of pv 7] by simp
  then have "runs_here t = (pv AND 0x80 = 0)" "runs_second t = (pv AND 0x80 \<noteq> 0)"
    using n(5,7) by (auto simp: runs_here_def runs_second_def)
  ultimately show ?thesis using n tn nq by blast
qed

section \<open>A running system\<close>

definition context_zero :: cpu_context where
  "context_zero = \<lparr>c_rax = 0, c_rbx = 0, c_rcx = 0, c_rdx = 0, c_rdi = 0, c_rsi = 0, c_rbp = 0, c_rsp = 0, c_rip = 0, c_r8 = 0,
     c_r9 = 0, c_r10 = 0, c_r11 = 0, c_r12 = 0, c_r13 = 0, c_r14 = 0, c_r15 = 0, c_cs = 0, c_ds = 0, c_es = 0,
     c_fs = 0, c_gs = 0, c_ss = 0, c_rflag = 0, c_cr3 = 0, c_pid = 0, c_fxsave = replicate 512 0\<rparr>"

text \<open>The state before \<^verbatim>\<open>thread_setup\<close>: the memory manager has run, there is no thread.\<close>

definition thread_zero :: thread_state where
  "thread_zero = win_state.extend win_zero (thread_state.fields Map.empty Map.empty 0 0 0 0 0 0 0 context_zero context_zero 0 0 0 1 0 0 0 0 0)"

abbreviation (input) no_disk :: disk where "no_disk \<equiv> (\<lambda>_ _ _. (0, []))"

lemma boot_zero: "heap_room 17 (fmm thread_zero)" "heap_room (17 + 20000) (fmm thread_zero)" "length (c_fxsave context_zero) = 512"
    "ctx thread_zero = context_zero" "ctx2 thread_zero = context_zero" "threads thread_zero = Map.empty" "pipe_launcher thread_zero = 0"
  using heap_room_mono [OF mm_boot_room, where k = 20017] heap_room_mono [OF mm_boot_room, where k = 17]
  by (simp_all add: thread_zero_def win_zero_def context_zero_def win_state.defs thread_state.defs)

lemma boot_one:
  obtains s q t where "thread_setup no_disk (replicate 512 0) thread_zero = Some (0, s)" "thread_inv [q] s" "threads s = [q \<mapsto> t]"
    "heap_room 20000 (fmm s)" "runs_here t" "next_pid s = 1" "current_thread s = q" "pipe_launcher s = 0"
proof -
  obtain s q t where "thread_setup no_disk (replicate 512 0) thread_zero = Some (0, s)" "thread_inv [q] s" "threads s = [q \<mapsto> t]" "heap_room 20000 (fmm s)"
    "t_prv t = 0" "t_status t = 0" "next_pid s = 1" "current_thread s = q" "pipe_launcher s = pipe_launcher thread_zero"
    using thread_setup_ok [OF boot_zero(2) _ boot_zero(6), of "replicate 512 0" no_disk] boot_zero(3) unfolding boot_zero(4,5) by (metis length_replicate)
  then show ?thesis using that boot_zero(7) by (simp add: runs_here_def)
qed

lemma boot_two:
  assumes "pv AND 0x10 = 0"
  obtains s0 s q b where "thread_setup no_disk (replicate 512 0) thread_zero = Some (0, s0)"
    "create_thread no_disk (replicate 512 0) 0x1000 0x2000 0 0 pv 0 0 0 s0 = Some (b, s)" "thread_inv [q, b] s"
    "current_thread s = q" "runs_here (thr s q)" "runs_here (thr s b) = (pv AND 0x80 = 0)" "\<not> runs_second (thr s q)"
    "runs_second (thr s b) = (pv AND 0x80 \<noteq> 0)" "q \<noteq> b"
proof -
  obtain s0 q t0 where s0: "thread_setup no_disk (replicate 512 0) thread_zero = Some (0, s0)" "thread_inv [q] s0" "threads s0 = [q \<mapsto> t0]"
    "heap_room 20000 (fmm s0)" "runs_here t0" "next_pid s0 = 1" "current_thread s0 = q" by (rule boot_one)
  have r: "heap_room (17 + win_pages pv + 0) (fmm s0)" using heap_room_mono [OF s0(4), of 17] assms by (simp add: win_pages_def)
  have p: "next_pid s0 \<noteq> - 1" "length (replicate 512 (0::u8)) = 512" by (simp_all add: s0(6))
  obtain b t s where b: "create_thread no_disk (replicate 512 0) 0x1000 0x2000 0 0 pv 0 0 0 s0 = Some (b, s)"
    "threads s = (threads s0)(b \<mapsto> t, last [q] \<mapsto> (thr s0 (last [q]))\<lparr>t_next := b\<rparr>)" "t_status t = 0"
    "t_prv t = (if pv AND 1 = 1 then 1 else 0) OR (if pv AND 0x80 = 0x80 then 0x80 else 0) OR 0x20 OR (if pv AND 0x10 \<noteq> 0 then 0x10 else 0)"
    "thread_inv ([q] @ [b]) s" "current_thread s = current_thread s0"
    by (rule create_thread_ok [OF s0(2) r p]) blast
  have n: "q \<noteq> b" using b(5) by (auto simp: thread_inv_def dest: chain_distinct)
  have "pv AND 0x80 = (if bit pv 7 then 0x80 else 0)" using and_exp_if [of pv 7] by simp
  moreover have u: "thr s b = t" "thr s q = t0\<lparr>t_next := b\<rparr>" using n by (simp_all add: thr_def b(2) s0(3))
  ultimately have "runs_here (thr s b) = (pv AND 0x80 = 0)" "runs_second (thr s b) = (pv AND 0x80 \<noteq> 0)" "runs_here (thr s q)" "\<not> runs_second (thr s q)"
    using b(3,4) s0(5) by (auto simp: runs_here_def runs_second_def)
  then show ?thesis using that s0(1,7) b(1,5,6) n by simp
qed

theorem task_switch_correct_witness:
  "\<exists>s0 s s' b. thread_setup no_disk (replicate 512 0) thread_zero = Some (0, s0) \<and>
     create_thread no_disk (replicate 512 0) 0x1000 0x2000 0 0 0 0 0 0 s0 = Some (b, s) \<and> current_thread s \<noteq> b \<and>
     task_switch s = Some s' \<and> current_thread s' = b \<and> thread_inv [current_thread s, b] s'"
proof -
  obtain s0 s q b where b: "thread_setup no_disk (replicate 512 0) thread_zero = Some (0, s0)"
    "create_thread no_disk (replicate 512 0) 0x1000 0x2000 0 0 0 0 0 0 s0 = Some (b, s)" "thread_inv [q, b] s"
    "current_thread s = q" "runs_here (thr s b)" "q \<noteq> b" by (rule boot_two [of 0]) simp_all
  have "t_prv (thr s b) AND 0x80 = 0 \<and> t_status (thr s b) AND 1 = 0 \<and> t_status (thr s b) AND 2 = 0" using b(5) by (simp add: runs_here_def)
  then have n: "next_of (\<lambda>a. t_prv (thr s a) AND 0x80 = 0 \<and> t_status (thr s a) AND 1 = 0 \<and> t_status (thr s a) AND 2 = 0) [q, b] q = b" by (simp add: next_of_def)
  note t = task_switch_correct [OF b(3), unfolded Let_def b(4) n if_not_P [OF b(6) [symmetric]]]
  obtain s' where "task_switch s = Some s'" "current_thread s' = b" "thread_inv [q, b] s'"
    by (rule that [OF conjunct1 [OF t] _ conjunct2 [OF t]]) simp
  with b show ?thesis by blast
qed

theorem task_switch_round_witness:
  "\<exists>(s::thread_state) s'. ticks (\<lambda>k c. c\<lparr>c_rax := word_of_nat k + 7\<rparr>) 2 s = Some s' \<and> current_thread s' = current_thread s \<and> c_rax (ctx s') = 7"
proof -
  obtain s q b where b: "thread_inv [q, b] (s::thread_state)" "current_thread s = q" "runs_here (thr s q)" "runs_here (thr s b)"
    by (rule boot_two [of 0]) simp_all
  have f: "[q, b] = filter (\<lambda>a. runs_here (thr s a)) [q, b]" using b by simp
  obtain s' where "ticks (\<lambda>k c. c\<lparr>c_rax := word_of_nat k + 7\<rparr>) 2 s = Some s'" "current_thread s' = current_thread s"
    "ctx s' = ((ctx s)\<lparr>c_rax := word_of_nat 0 + 7\<rparr>)\<lparr>c_pid := t_pid (thr s (current_thread s))\<rparr>"
    using task_switch_round [OF b(1) f, where i = 0 and step = "\<lambda>k c. c\<lparr>c_rax := word_of_nat k + 7\<rparr>"] b
    by (auto simp: numeral_2_eq_2)
  then show ?thesis by (intro exI [of _ s] exI [of _ s']) simp
qed


theorem create_thread_correct_witness:
  "\<exists>s new s'. thread_setup no_disk (replicate 512 0) thread_zero = Some (0, s) \<and>
     create_thread no_disk (replicate 512 0) 0x1000 0x2000 0 0 0x11 0 0 0 s = Some (new, s') \<and> get_thread 1 s' = Some new \<and>
     runs_here (thr s' new) \<and> t_rip (thr s' new) = 0x1000"
proof -
  obtain s q t where s: "thread_setup no_disk (replicate 512 0) thread_zero = Some (0, s)" "thread_inv [q] s" "heap_room 20000 (fmm s)" "next_pid s = 1"
    by (rule boot_one)
  have r: "heap_room (17 + win_pages 0x11) (fmm s)" using heap_room_mono [OF s(3)] by (simp add: win_pages_def)
  have p: "next_pid s \<noteq> - 1" "length (replicate 512 (0::u8)) = 512" by (simp_all add: s(4))
  show ?thesis using s create_thread_correct [OF s(2) r p, where rd = no_disk and main = "0x1000" and rsp = "0x2000" and ?cr3.0 = 0 and rbx = 0 and argc = 0 and argv = 0 and pwd = 0] by (auto simp: thr_def fresh_thread_def)
qed

section \<open>Interrupts and ends keep the queue\<close>

lemma thread_inv_ctx: "thread_inv qs s \<Longrightarrow> length (c_fxsave c) = 512 \<Longrightarrow> thread_inv qs (s\<lparr>ctx := c\<rparr>) \<and> thread_inv qs (s\<lparr>ctx2 := c\<rparr>)"
  by (simp add: thread_inv_def thr_def)

lemma tick_total:
  assumes "thread_inv qs s" and "length (c_fxsave c) = 512"
  shows "\<exists>s'. task_switch (s\<lparr>ctx := c\<rparr>) = Some s' \<and> thread_inv qs s'"
  using task_switch_ok [OF conjunct1 [OF thread_inv_ctx [OF assms]]] by blast

lemma tick2_total:
  assumes "thread_inv qs s" and "length (c_fxsave c) = 512"
  shows "\<exists>s'. task_switch2 (s\<lparr>ctx2 := c\<rparr>) = Some s' \<and> thread_inv qs s'"
  using task_switch2_ok [OF conjunct2 [OF thread_inv_ctx [OF assms]]] by blast

lemma exit_step:
  assumes inv: "thread_inv qs s" and o: "owner s a t bs ps" and r: "heap_room 0 (fmm s)" "pipe_launcher s = 0" and p: "pipe s (t_pipe t) n i j b" "i < 512"
    and a: "a \<noteq> thread_ready_queue s" "a \<noteq> current_thread s" "a \<noteq> current_thread2 s" and d: "set (own_blocks a t bs ps) \<inter> dom (threads s) = {a}"
    and e: "exit a s = Some s'"
  shows "\<exists>qs. thread_inv qs s'"
proof -
  have dm: "dom (threads s) = set qs" "current_thread s \<in> set qs" "current_thread2 s \<in> set qs" using inv by (simp_all add: thread_inv_def)
  then have "a \<in> set qs" using d by auto
  then obtain us vs where q: "qs = us @ a # vs" by (meson split_list)
  have "us \<noteq> []" using thread_inv_queue [OF inv] a(1) by (auto simp: q)
  moreover have "a \<notin> set (us @ vs)" using inv by (auto simp: thread_inv_def q dest: chain_distinct)
  then have "set (own_blocks a t bs ps) \<inter> set (us @ vs) = {}" using d dm(1) by (auto simp: q)
  moreover have "current_thread s \<in> set (us @ vs)" "current_thread2 s \<in> set (us @ vs)" using dm(2,3) a(2,3) by (auto simp: q)
  ultimately obtain s2 where "exit a s = Some s2" "thread_inv (us @ vs) s2"
    using exit_ok [OF inv [unfolded q] _ o r p] by metis
  with e show ?thesis by auto
qed

end
