(* ===== verification/Syscall.thy ===== *)
theory Syscall
  imports Leave Socket Kprint
begin

text \<open>
  The system calls of \<^verbatim>\<open>kernel/syscall.c\<close>: one definition per entry of the table, \<^verbatim>\<open>__malloc_syscall\<close> and
  \<^verbatim>\<open>__free_syscall\<close> with the table of blocks of each thread, and the dispatcher.

  The state is that of the threads with the variables of this file; the sockets live in their own record
  and share the heap with the threads.  \<open>umem\<close> is the memory a program sees through its pointers.  What
  the devices answer is the environment \<open>sys_env\<close>: the drives, the input ports, the floating point image and
  the place of the local array \<^verbatim>\<open>str\<close> of \<^verbatim>\<open>syscall_tmpnam\<close>.  Writes to output ports are logged in \<open>out_ports\<close>.
\<close>

section \<open>State\<close>

record sys_state = thread_state +
  ret :: u64
  server_id :: "u64 list"
  syspwd :: u64
  tmpnam :: u32
  umem :: mem
  sk :: sock_state
  out_ports :: "(nat \<times> u16 \<times> u32) list"

record sys_env =
  e_read :: disk
  e_write :: "u32 \<Rightarrow> u32 \<Rightarrow> u64 \<Rightarrow> u64 \<Rightarrow> mem \<Rightarrow> int"
  e_in :: "nat \<Rightarrow> u16 \<Rightarrow> u32"
  e_sse :: "u8 list"
  e_str :: u64

text \<open>The registers a program passes.\<close>

record sys_args =
  a_rdi :: u64
  a_rsi :: u64
  a_rdx :: u64
  a_rcx :: u64
  a_r8 :: u64
  a_r9 :: u64

definition current :: "'a thread_state_scheme \<Rightarrow> THREAD option" where
  "current s = threads s (current_thread s)"

text \<open>A socket operation works on the common heap.\<close>

definition with_sockets :: "(sock_state \<Rightarrow> ('b \<times> sock_state) option) \<Rightarrow> 'a sys_state_scheme \<Rightarrow> ('b \<times> 'a sys_state_scheme) option" where
  "with_sockets f s = do { (r, k) \<leftarrow> f ((sk s)\<lparr>smm := fmm s\<rparr>); Some (r, s\<lparr>sk := k, fmm := smm k\<rparr>) }"

section \<open>Memory of a thread\<close>

text \<open>The loops over the \<^verbatim>\<open>POOL_COUNT\<close> entries of a table.\<close>

fun pool_enter :: "nat \<Rightarrow> u64 \<Rightarrow> u32 \<Rightarrow> POOL_SYSCALL list \<Rightarrow> POOL_SYSCALL list" where
  "pool_enter 0 addr sz m = m"
| "pool_enter (Suc n) addr sz [] = []"
| "pool_enter (Suc n) addr sz (e # m) =
     (if pool_ptr e = 0 then e\<lparr>pool_ptr := addr, pool_size := sz, pool_flag := 0\<rparr> # m else e # pool_enter n addr sz m)"

fun pool_clear :: "nat \<Rightarrow> u64 \<Rightarrow> POOL_SYSCALL list \<Rightarrow> POOL_SYSCALL list" where
  "pool_clear 0 ptr m = m"
| "pool_clear (Suc n) ptr [] = []"
| "pool_clear (Suc n) ptr (e # m) =
     (if pool_ptr e = ptr then e\<lparr>pool_ptr := 0, pool_size := 0, pool_flag := 0\<rparr> # m else e # pool_clear n ptr m)"

definition malloc_pool :: "u64 \<Rightarrow> u32 \<Rightarrow> 'a thread_state_scheme \<Rightarrow> (u64 \<times> 'a thread_state_scheme) option" where
  "malloc_pool thread sz s =
    do {
      let len = sz div 0x1000;
      let len = (if sz mod 0x1000 \<noteq> 0 then len + 1 else len);
      (addr, s) \<leftarrow> new_pages 1 len s;
      t \<leftarrow> threads s thread;
      m \<leftarrow> pools s (t_pool t);
      Some (addr, s\<lparr>pools := (pools s)(t_pool t \<mapsto> pool_enter 512 addr sz m)\<rparr>) }"

definition free_pool :: "u64 \<Rightarrow> u64 \<Rightarrow> 'a thread_state_scheme \<Rightarrow> 'a thread_state_scheme option" where
  "free_pool thread ptr s =
    (if ptr = 0 then Some s
     else do {
       s \<leftarrow> free_obj ptr s;
       t \<leftarrow> threads s thread;
       m \<leftarrow> pools s (t_pool t);
       Some (s\<lparr>pools := (pools s)(t_pool t \<mapsto> pool_clear 512 ptr m)\<rparr>) })"

definition malloc_syscall :: "sys_args \<Rightarrow> 'a sys_state_scheme \<Rightarrow> 'a sys_state_scheme option" where
  "malloc_syscall a s = do { (addr, s) \<leftarrow> malloc_pool (current_thread s) (ucast (a_rdi a)) s; Some (s\<lparr>ret := addr\<rparr>) }"

definition free_syscall :: "sys_args \<Rightarrow> 'a sys_state_scheme \<Rightarrow> 'a sys_state_scheme option" where
  "free_syscall a s = free_pool (current_thread s) (a_rdi a) s"

definition realloc_syscall :: "sys_args \<Rightarrow> 'a sys_state_scheme \<Rightarrow> 'a sys_state_scheme option" where
  "realloc_syscall a s = Some s"

definition syscall_alloc_pages :: "sys_args \<Rightarrow> 'a sys_state_scheme \<Rightarrow> 'a sys_state_scheme option" where
  "syscall_alloc_pages a s =
    do { (_, p, mm) \<leftarrow> alloc_pages 1 (ucast (a_rcx a)) (fmm s);
         Some (s\<lparr>fmm := mm, ret := (case p of None \<Rightarrow> 0 | Some addr \<Rightarrow> addr)\<rparr>) }"

definition syscall_free_pages :: "sys_args \<Rightarrow> 'a sys_state_scheme \<Rightarrow> 'a sys_state_scheme option" where
  "syscall_free_pages a s = free_obj (a_rdi a) s"

section \<open>Threads, windows and focus\<close>

text \<open>The message \<^verbatim>\<open>default_syscall\<close> prints is not part of the state.\<close>

definition default_syscall :: "sys_args \<Rightarrow> 'a sys_state_scheme \<Rightarrow> 'a sys_state_scheme option" where
  "default_syscall a s = Some s"

definition syscall_getpid :: "sys_args \<Rightarrow> 'a sys_state_scheme \<Rightarrow> 'a sys_state_scheme option" where
  "syscall_getpid a s = do { r \<leftarrow> (if a_rcx a = 1234 then getpid2 s else getpid s); Some (s\<lparr>ret := r\<rparr>) }"

definition syscall_window :: "sys_args \<Rightarrow> 'a sys_state_scheme \<Rightarrow> 'a sys_state_scheme option" where
  "syscall_window a s = window_add (a_rdi a) s"

definition syscall_kbd_foco :: "sys_args \<Rightarrow> 'a sys_state_scheme \<Rightarrow> 'a sys_state_scheme option" where
  "syscall_kbd_foco a s =
    do { t \<leftarrow> current s; Some (s\<lparr>std_in := t_stdin t, std_out := t_stdout t, std_err := t_stderr t, mouse2 := t_mouse t\<rparr>) }"

definition syscall_register_pipe_launcher :: "sys_args \<Rightarrow> 'a sys_state_scheme \<Rightarrow> 'a sys_state_scheme option" where
  "syscall_register_pipe_launcher a s = do { t \<leftarrow> current s; Some (s\<lparr>pipe_launcher := t_pipe t\<rparr>) }"

definition syscall_get_pipe_launcher :: "sys_args \<Rightarrow> 'a sys_state_scheme \<Rightarrow> 'a sys_state_scheme option" where
  "syscall_get_pipe_launcher a s = Some (s\<lparr>ret := pipe_launcher s\<rparr>)"

definition syscall_get_paint_list :: "sys_args \<Rightarrow> 'a sys_state_scheme \<Rightarrow> 'a sys_state_scheme option" where
  "syscall_get_paint_list a s = Some (s\<lparr>ret := paint_ready_queue s\<rparr>)"

definition syscall_get_thread_id :: "sys_args \<Rightarrow> 'a sys_state_scheme \<Rightarrow> 'a sys_state_scheme option" where
  "syscall_get_thread_id a s = do { t \<leftarrow> current s; Some (s\<lparr>ret := t_id t\<rparr>) }"

definition syscall_pthread_create :: "sys_env \<Rightarrow> sys_args \<Rightarrow> 'a sys_state_scheme \<Rightarrow> 'a sys_state_scheme option" where
  "syscall_pthread_create e a s =
    do { (new, s) \<leftarrow> pthread_create (e_sse e) (a_rdi a) (a_rsi a) 1 (current_thread s) s; Some (s\<lparr>ret := new\<rparr>) }"

definition syscall_pthread_join :: "sys_args \<Rightarrow> 'a sys_state_scheme \<Rightarrow> 'a sys_state_scheme option" where
  "syscall_pthread_join a s = do { (r, s) \<leftarrow> pthread_join (a_rdi a) s; Some (s\<lparr>ret := word_of_int r\<rparr>) }"

definition syscall_wait_state :: "sys_args \<Rightarrow> 'a sys_state_scheme \<Rightarrow> 'a sys_state_scheme option" where
  "syscall_wait_state a s =
    do { t \<leftarrow> current s;
         if t_tail t \<noteq> 0 then upd_thread (current_thread s) (\<lambda>t. t\<lparr>t_status := t_status t OR THREAD_WAIT\<rparr>) s else Some s }"

definition syscall_wait :: "sys_args \<Rightarrow> 'a sys_state_scheme \<Rightarrow> 'a sys_state_scheme option" where
  "syscall_wait a s =
    do { t \<leftarrow> current s; Some (s\<lparr>ret := if t_status t AND THREAD_WAIT = 0 then t_wait_pid t else 0\<rparr>) }"

definition syscall_get_client_id :: "sys_args \<Rightarrow> 'a sys_state_scheme \<Rightarrow> 'a sys_state_scheme option" where
  "syscall_get_client_id a s =
    do {
      tmp \<leftarrow> find_node t_next (\<lambda>t. t_window t = a_rdi a) (threads s) (thread_ready_queue s);
      if tmp = 0 then Some (s\<lparr>ret := 0\<rparr>) else do { t \<leftarrow> threads s tmp; Some (s\<lparr>ret := t_id t\<rparr>) } }"

section \<open>Devices and names\<close>

definition syscall_readsector :: "sys_env \<Rightarrow> sys_args \<Rightarrow> 'a sys_state_scheme \<Rightarrow> 'a sys_state_scheme option" where
  "syscall_readsector e a s =
    (let (r, bs) = e_read e 0 (ucast (a_rcx a)) (a_rsi a) in Some (s\<lparr>umem := put_mem (a_rdi a) bs (umem s), ret := word_of_int r\<rparr>))"

definition syscall_writesector :: "sys_env \<Rightarrow> sys_args \<Rightarrow> 'a sys_state_scheme \<Rightarrow> 'a sys_state_scheme option" where
  "syscall_writesector e a s = Some (s\<lparr>ret := word_of_int (e_write e 0 (ucast (a_rcx a)) (a_rsi a) (a_rdi a) (umem s))\<rparr>)"

definition syscall_geral :: "sys_args \<Rightarrow> 'a sys_state_scheme \<Rightarrow> 'a sys_state_scheme option" where
  "syscall_geral a s =
    do {
      t \<leftarrow> current s;
      let s = s\<lparr>server_id := (server_id s)[0 := a_rcx a, 1 := a_rdi a, 2 := a_rsi a, 3 := a_rdx a, 4 := t_pid t]\<rparr>;
      if a_r8 a \<noteq> 0 \<and> (a_rcx a = 2 \<or> a_rcx a = 1)
      then do { m \<leftarrow> strcpy (syspwd s) (a_r8 a) (umem s); Some (s\<lparr>umem := m, server_id := (server_id s)[5 := syspwd s]\<rparr>) }
      else Some (s\<lparr>server_id := (server_id s)[5 := 0]\<rparr>) }"

text \<open>The letters \<^verbatim>\<open>tmp\<close>, then the number, made in the local array \<^verbatim>\<open>str\<close>.\<close>

definition syscall_tmpnam :: "sys_env \<Rightarrow> sys_args \<Rightarrow> 'a sys_state_scheme \<Rightarrow> 'a sys_state_scheme option" where
  "syscall_tmpnam e a s =
    do {
      let p = a_rdi a;
      let m = (umem s)(p := 116, p + 1 := 109, p + 2 := 112, p + 3 := 0);
      let m = itoa (tmpnam s) (e_str e) m;
      m \<leftarrow> strcpy (p + 3) (e_str e) m;
      Some (s\<lparr>umem := m, tmpnam := tmpnam s + 1\<rparr>) }"

definition syscall_io :: "sys_env \<Rightarrow> sys_args \<Rightarrow> 'a sys_state_scheme \<Rightarrow> 'a sys_state_scheme option" where
  "syscall_io e a s =
    (let p = ucast (a_rdi a); v = ucast (a_rsi a) in
     Some (if a_rcx a = 0 then s\<lparr>ret := ucast (e_in e 1 p) AND 0xff\<rparr>
           else if a_rcx a = 1 then s\<lparr>ret := ucast (e_in e 2 p) AND 0xffff\<rparr>
           else if a_rcx a = 2 then s\<lparr>ret := ucast (e_in e 4 p) AND 0xffffffff\<rparr>
           else if a_rcx a = 3 then s\<lparr>out_ports := out_ports s @ [(1, p, v AND 0xff)], ret := 0\<rparr>
           else if a_rcx a = 4 then s\<lparr>out_ports := out_ports s @ [(2, p, v AND 0xffff)], ret := 0\<rparr>
           else if a_rcx a = 5 then s\<lparr>out_ports := out_ports s @ [(4, p, v)], ret := 0\<rparr>
           else s\<lparr>ret := - 1\<rparr>))"

section \<open>Sockets\<close>

definition syscall_create_socket :: "sys_args \<Rightarrow> 'a sys_state_scheme \<Rightarrow> 'a sys_state_scheme option" where
  "syscall_create_socket a s =
    do { (r, s) \<leftarrow> with_sockets (socket_op (ucast (a_rdi a)) (ucast (a_rsi a)) (ucast (a_rcx a))) s; Some (s\<lparr>ret := scast r\<rparr>) }"

definition syscall_get_socket_ready_queue :: "sys_args \<Rightarrow> 'a sys_state_scheme \<Rightarrow> 'a sys_state_scheme option" where
  "syscall_get_socket_ready_queue a s = Some (s\<lparr>ret := saddr_ready_queue (sk s)\<rparr>)"

text \<open>The address in the memory of the program.  \<^verbatim>\<open>bind\<close> copies as many bytes as it is told into a structure
  of 8: another number overwrites its stack or leaves part of the structure unset, and has no result here.\<close>

definition get_sockaddr :: "u64 \<Rightarrow> mem \<Rightarrow> sockaddr_in" where
  "get_sockaddr p m = (let b = get_mem p 8 m in
     \<lparr>sin_family = b ! 0, sin_port = get16 (\<lambda>i. b ! i) 2, s_addr = get32 (\<lambda>i. b ! i) 4\<rparr>)"

definition syscall_socket_bind :: "sys_args \<Rightarrow> 'a sys_state_scheme \<Rightarrow> 'a sys_state_scheme option" where
  "syscall_socket_bind a s =
    (let len = ucast (a_rcx a) :: u32 in
     if len \<noteq> 0 \<and> len \<noteq> 8 then None
     else do { (r, s) \<leftarrow> with_sockets (bind_op (ucast (a_rdi a)) (get_sockaddr (a_rsi a) (umem s)) len) s; Some (s\<lparr>ret := word_of_int r\<rparr>) })"

definition syscall_ether_getport :: "sys_args \<Rightarrow> 'a sys_state_scheme \<Rightarrow> 'a sys_state_scheme option" where
  "syscall_ether_getport a s = do { (r, s) \<leftarrow> with_sockets (\<lambda>k. Some (get_port k)) s; Some (s\<lparr>ret := ucast r\<rparr>) }"

section \<open>Dispatch\<close>

definition fnvetors_syscall :: "sys_env \<Rightarrow> (sys_args \<Rightarrow> 'a sys_state_scheme \<Rightarrow> 'a sys_state_scheme option) list" where
  "fnvetors_syscall e =
    [default_syscall, syscall_getpid, syscall_window, syscall_kbd_foco, syscall_alloc_pages, syscall_free_pages,
     syscall_readsector e, syscall_writesector e, syscall_geral, syscall_tmpnam e, syscall_io e,
     syscall_register_pipe_launcher, syscall_get_pipe_launcher, syscall_get_paint_list, syscall_get_thread_id,
     syscall_create_socket, syscall_get_socket_ready_queue, syscall_pthread_create e, syscall_pthread_join,
     default_syscall, default_syscall, default_syscall, default_syscall, default_syscall, default_syscall,
     default_syscall, default_syscall, syscall_ether_getport, syscall_socket_bind, syscall_get_client_id,
     syscall_wait_state, syscall_wait, malloc_syscall, free_syscall, realloc_syscall]"

definition syscall_function_handler :: "sys_env \<Rightarrow> sys_args \<Rightarrow> 'a sys_state_scheme \<Rightarrow> 'a sys_state_scheme option" where
  "syscall_function_handler e a s =
    (let vetor = (if a_rdx a \<ge> 35 then 0 else unat (a_rdx a)) in (fnvetors_syscall e ! vetor) a s)"

end
