(* ===== verification/Sysprops.thy ===== *)
theory Sysprops
  imports Syscall Threadthms Sockthms
begin

text \<open>
  The memory of a process.  \<open>guest\<close> is what holds of a running process: it owns its streams, its table and
  the blocks the table lists, none of which belongs to another thread.  The system calls \<^verbatim>\<open>malloc\<close> and \<^verbatim>\<open>free\<close>
  and the scheduler keep it, so that \<^verbatim>\<open>exit\<close> gives back everything the process got.
\<close>

section \<open>The table of blocks\<close>

fun subst_first :: "'a \<Rightarrow> 'a \<Rightarrow> 'a list \<Rightarrow> 'a list" where
  "subst_first x y [] = []"
| "subst_first x y (z # zs) = (if z = x then y # zs else z # subst_first x y zs)"

lemma pool_enter_ptrs: "map pool_ptr (take n (pool_enter n addr sz m)) = subst_first 0 addr (map pool_ptr (take n m))"
  by (induction n addr sz m rule: pool_enter.induct) auto

lemma pool_clear_ptrs: "map pool_ptr (take n (pool_clear n p m)) = subst_first p 0 (map pool_ptr (take n m))"
  by (induction n p m rule: pool_clear.induct) auto

lemma filter_enter:
  assumes "0 \<in> set ps" and "addr \<noteq> 0" and "addr \<notin> set ps" and "distinct (filter (\<lambda>p. p \<noteq> (0::u64)) ps)"
  shows "set (filter (\<lambda>p. p \<noteq> 0) (subst_first 0 addr ps)) = insert addr (set (filter (\<lambda>p. p \<noteq> 0) ps)) \<and>
    distinct (filter (\<lambda>p. p \<noteq> 0) (subst_first 0 addr ps))"
  using assms by (induction ps) auto

lemma filter_clear:
  assumes "p \<in> set ps" and "p \<noteq> 0" and "distinct (filter (\<lambda>p. p \<noteq> (0::u64)) ps)"
  shows "set (filter (\<lambda>p. p \<noteq> 0) (subst_first p 0 ps)) = set (filter (\<lambda>p. p \<noteq> 0) ps) - {p} \<and>
    distinct (filter (\<lambda>p. p \<noteq> 0) (subst_first p 0 ps))"
  using assms by (induction ps) auto

lemma own_blocks_subst:
  assumes "set (filter (\<lambda>p. p \<noteq> 0) ps') = insert addr (set (filter (\<lambda>p. p \<noteq> 0) ps)) \<and> distinct (filter (\<lambda>p. p \<noteq> 0) ps')"
    and "distinct (own_blocks a t bs ps)" and "addr \<notin> set (own_blocks a t bs ps)"
  shows "set (own_blocks a t bs ps') = insert addr (set (own_blocks a t bs ps)) \<and> distinct (own_blocks a t bs ps')"
  using assms unfolding own_blocks_def by (auto simp del: set_filter)

lemma own_blocks_drop:
  assumes "set (filter (\<lambda>p. p \<noteq> 0) ps') = set (filter (\<lambda>p. p \<noteq> 0) ps) - {q} \<and> distinct (filter (\<lambda>p. p \<noteq> 0) ps')"
    and "distinct (own_blocks a t bs ps)" and "q \<in> set (filter (\<lambda>p. p \<noteq> 0) ps)"
  shows "set (own_blocks a t bs ps') = set (own_blocks a t bs ps) - {q} \<and> distinct (own_blocks a t bs ps')"
  using assms unfolding own_blocks_def by (auto simp del: set_filter)

section \<open>A process\<close>

definition guest :: "u64 list \<Rightarrow> 'a thread_state_scheme \<Rightarrow> u64 \<Rightarrow> THREAD \<Rightarrow> u64 list \<Rightarrow> u64 list \<Rightarrow> bool" where
  "guest qs s a t bs ps \<longleftrightarrow> thread_inv (qs @ [a]) s \<and> qs \<noteq> [] \<and> owner s a t bs ps \<and> heap_room 0 (fmm s) \<and> pipe_launcher s = 0 \<and>
     (\<exists>n b. pipe s (t_pipe t) n 0 0 b) \<and> current_thread2 s \<in> set qs \<and> set (own_blocks a t bs ps) \<inter> set qs = {}"

text \<open>A new process is a guest.\<close>

lemma create_guest:
  assumes "thread_inv qs s" and "heap_room (17 + k) (fmm s)" and "next_pid s \<noteq> - 1" and "length sse = 512" and "pv AND 0x10 = 0" and "pipe_launcher s = 0"
  obtains new s1 t bs where "create_thread rd sse main rsp cr3 rbx pv argc argv pwd s = Some (new, s1)"
    "guest qs s1 new t bs (replicate 512 0)" "live_blocks (fmm s1) = live_blocks (fmm s) \<union> set (own_blocks new t bs (replicate 512 0))"
    "set (own_blocks new t bs (replicate 512 0)) \<inter> live_blocks (fmm s) = {}" "t_pid t = next_pid s" "current_thread s1 = current_thread s"
    "heap_room k (fmm s1)" "\<forall>x \<in> set qs. t_tail (thr s1 x) = t_tail (thr s x)" "next_pid s1 = next_pid s + 1"
    "\<forall>x \<in> set qs. runs_here (thr s1 x) = runs_here (thr s x)" "pv AND 0x80 = 0 \<longrightarrow> runs_here t"
proof -
  have r: "heap_room (17 + win_pages pv + k) (fmm s)" using assms(2,5) by (simp add: win_pages_def)
  obtain new t s1 bs W where c: "create_thread rd sse main rsp cr3 rbx pv argc argv pwd s = Some (new, s1)"
    "threads s1 = (threads s)(new \<mapsto> t, last qs \<mapsto> (thr s (last qs))\<lparr>t_next := new\<rparr>)"
    "fresh_thread (next_pid s) sse main rsp pv t" "t_status t = 0" "t_head t = new"
    "t_prv t = (if pv AND 1 = 1 then 1 else 0) OR (if pv AND 0x80 = 0x80 then 0x80 else 0) OR 0x20 OR (if pv AND 0x10 \<noteq> 0 then 0x10 else 0)"
    "streams_of s1 (t_stdin t) (t_stdout t) (t_stderr t) (t_pipe t) bs" "pools s1 = (pools s)(t_pool t \<mapsto> replicate 512 pool_zero)"
    "W = (if pv AND 0x10 \<noteq> 0 then [t_window t] else [])"
    "distinct ([new, t_stdin t, t_stdout t, t_stderr t, t_pipe t] @ bs @ [t_mouse t, t_pool t] @ W)"
    "0 \<notin> set ([new, t_stdin t, t_stdout t, t_stderr t, t_pipe t] @ bs @ [t_mouse t, t_pool t] @ W)"
    "set ([new, t_stdin t, t_stdout t, t_stderr t, t_pipe t] @ bs @ [t_mouse t, t_pool t] @ W) \<inter> live_blocks (fmm s) = {}"
    "live_blocks (fmm s1) = live_blocks (fmm s) \<union> set ([new, t_stdin t, t_stdout t, t_stderr t, t_pipe t] @ bs @ [t_mouse t, t_pool t] @ W)"
    "heap_room k (fmm s1)" "thread_inv (qs @ [new]) s1" "pipe_launcher s1 = pipe_launcher s" "current_thread s1 = current_thread s" "current_thread2 s1 = current_thread2 s"
    "next_pid s1 = next_pid s + 1" by (rule create_thread_ok [OF assms(1) r assms(3,4)])
  let ?ps = "replicate 512 0 :: u64 list"
  have ob: "own_blocks new t bs ?ps = [new, t_stdin t, t_stdout t, t_stderr t, t_pipe t] @ bs @ [t_mouse t, t_pool t] @ W"
    using c(9) assms(5) by (simp add: own_blocks_def)
  have ft: "t_tail t = 0" "t_next t = 0" "t_frame_size t = 0" "t_pml4e_addr t = 0" "t_pdpte_addr t = 0" "t_pde_addr t = 0" "t_pte_addr t = 0"
    using c(3) by (simp_all add: fresh_thread_def)
  have prv: "t_prv t AND 0x10 = 0" "t_prv t AND 0x20 \<noteq> 0" using assms(5) by (simp_all add: c(6) and.assoc bit.conj_disj_distrib2)
  have q: "qs \<noteq> []" "last qs \<in> set qs" using thread_inv_queue [OF assms(1)] by auto
  have nq: "new \<notin> set qs" using c(15) by (auto simp: thread_inv_def dest: chain_distinct)
  have tn: "threads s1 new = Some t" using c(2) q(2) nq by auto
  have own: "owner s1 new t bs ?ps"
  proof -
    obtain b0 b1 b2 b3 where bs: "bs = [b0, b1, b2, b3]" using c(7) by (auto simp: streams_of_def numeral_eq_Suc length_Suc_conv)
    have "list_all2 (closable s1) [t_stdin t, t_stdout t, t_stderr t, t_pipe t] bs"
      using c(7) by (simp add: streams_of_def bs closable_def stream_rec_def)
    moreover have "\<exists>m. pools s1 (t_pool t) = Some m \<and> map pool_ptr (take 512 m) = ?ps" by (simp add: c(8) pool_zero_def)
    moreover have "length bs = 4" using bs by simp
    moreover have "set ([new, t_stdin t, t_stdout t, t_stderr t, t_pipe t] @ bs @ [t_mouse t, t_pool t] @ W) \<subseteq> live_blocks (fmm s1)"
      unfolding c(13) by (rule Un_upper2)
    ultimately show ?thesis unfolding owner_def ob using tn ft c(5,10,11) prv by blast
  qed
  have pip: "pipe s1 (t_pipe t) (stream_rec 1 (bs ! 3)) 0 0 (replicate 8192 0)"
    using c(7) by (auto simp: streams_of_def pipe_def stream_rec_def FILE_zero_def)
  have dj: "set (own_blocks new t bs ?ps) \<inter> set qs = {}"
    unfolding ob using c(12) assms(1) by (auto simp: thread_inv_def)
  have "current_thread2 s1 \<in> set qs" using assms(1) by (simp add: c(18) thread_inv_def)
  then have g: "guest qs s1 new t bs ?ps" unfolding guest_def using heap_room_mono [OF c(14), of 0] c(15,16) q(1) own pip dj assms(6) by (metis (no_types) le0)
  have tl: "\<forall>x \<in> set qs. t_tail (thr s1 x) = t_tail (thr s x)" using nq by (auto simp: thr_def c(2))
  have rh: "\<forall>x \<in> set qs. runs_here (thr s1 x) = runs_here (thr s x)" using nq by (auto simp: thr_def c(2) runs_here_def)
  have rt: "pv AND 0x80 = 0 \<longrightarrow> runs_here t" using assms(5) c(4) by (simp add: runs_here_def c(6))
  show ?thesis
    by (rule that [OF c(1) g _ _ _ c(17,14) tl c(19) rh rt]) (use c(3,12,13) in \<open>simp_all only: ob fresh_thread_def\<close>)
qed

lemma pages_of_pos: "sz \<noteq> 0 \<Longrightarrow> 0 < unat (pages_of sz)"
proof -
  assume "sz \<noteq> 0"
  have l: "unat (sz div 0x1000) = unat sz div 0x1000" "unat (sz mod 0x1000) = unat sz mod 0x1000" by (simp_all add: unat_div unat_mod)
  have "unat sz < 2 ^ 32" using unsigned_less [of sz] by simp
  then have "unat sz div 0x1000 < 2 ^ 32 - 1" by simp
  then have "unat (sz div 0x1000 + 1) = unat sz div 0x1000 + 1" by (simp add: unat_word_ariths l)
  moreover have "unat sz \<noteq> 0" using \<open>sz \<noteq> 0\<close> by (simp add: unat_eq_0)
  then have "unat sz mod 0x1000 \<noteq> 0 \<or> unat sz div 0x1000 \<noteq> 0" by (metis div_mult_mod_eq add_0 mult_0)
  moreover have "sz mod 0x1000 \<noteq> 0 \<longleftrightarrow> unat sz mod 0x1000 \<noteq> 0" using l(2) by (metis unat_eq_0)
  ultimately show ?thesis by (auto simp: pages_of_def Let_def l)
qed

text \<open>Writes to the table and to the heap that leave the streams alone.\<close>

lemma guest_frame:
  assumes g: "guest qs s a t bs ps" and s': "s' = s\<lparr>fmm := mm, pools := (pools s)(t_pool t \<mapsto> m)\<rparr>"
    and own: "set (own_blocks a t bs (map pool_ptr (take 512 m))) \<subseteq> live_blocks mm" "distinct (own_blocks a t bs (map pool_ptr (take 512 m)))"
      "set (own_blocks a t bs (map pool_ptr (take 512 m))) \<inter> set qs = {}" "0 \<notin> set (own_blocks a t bs (map pool_ptr (take 512 m)))"
    and mm: "set qs \<subseteq> live_blocks mm" "heap_room 0 mm"
  shows "guest qs s' a t bs (map pool_ptr (take 512 m))"
proof -
  have "a \<in> live_blocks mm" using own(1) by (simp add: own_blocks_def)
  then have "thread_inv (qs @ [a]) s'" using g mm(1) by (simp add: guest_def thread_inv_def s' thr_def)
  moreover have "list_all2 (closable s') xs ys = list_all2 (closable s) xs ys" for xs ys by (simp add: closable_def [abs_def] s')
  moreover have "pipe s' = pipe s" by (simp add: pipe_def fun_eq_iff s')
  ultimately show ?thesis using g own mm(2) unfolding guest_def owner_def s' by simp
qed

lemma guest_malloc:
  assumes g: "guest qs s a t bs ps" and slot: "0 \<in> set ps" and room: "heap_room (unat (pages_of sz)) (fmm s)" and sz: "sz \<noteq> 0"
  obtains addr s' where "malloc_pool a sz s = Some (addr, s')" "guest qs s' a t bs (subst_first 0 addr ps)" "addr \<notin> live_blocks (fmm s)"
    "live_blocks (fmm s') = insert addr (live_blocks (fmm s))"
    "set (own_blocks a t bs (subst_first 0 addr ps)) = insert addr (set (own_blocks a t bs ps))"
proof -
  have n: "0 < unat (pages_of sz)" using sz by (simp add: pages_of_pos)
  have r: "heap_room (unat (pages_of sz) + 0) (fmm s)" using room by simp
  obtain addr mm where p: "new_pages 1 (pages_of sz) s = Some (addr, s\<lparr>fmm := mm\<rparr>)" "addr \<noteq> 0" "addr \<notin> live_blocks (fmm s)"
    "live_blocks mm = insert addr (live_blocks (fmm s))" "heap_room 0 mm"
    by (rule new_pages_ok [OF r refl n, where type = 1])
  obtain m where m: "pools s (t_pool t) = Some m" "map pool_ptr (take 512 m) = ps" and ta: "threads s a = Some t"
    using g by (auto simp: guest_def owner_def)
  define m' where "m' = pool_enter 512 addr sz m"
  define s' where "s' = s\<lparr>fmm := mm, pools := (pools s)(t_pool t \<mapsto> m')\<rparr>"
  have m': "map pool_ptr (take 512 m') = subst_first 0 addr ps" unfolding m'_def pool_enter_ptrs m(2) ..
  have ob: "distinct (own_blocks a t bs ps)" "set (own_blocks a t bs ps) \<subseteq> live_blocks (fmm s)" "0 \<notin> set (own_blocks a t bs ps)"
    "set (own_blocks a t bs ps) \<inter> set qs = {}" "set qs \<subseteq> live_blocks (fmm s)"
    using g by (auto simp: guest_def owner_def thread_inv_def)
  have "addr \<notin> set (own_blocks a t bs ps)" using ob(2) p(3) by blast
  moreover from this have "addr \<notin> set ps" using p(2) by (auto simp: own_blocks_def)
  moreover have "distinct (filter (\<lambda>p. p \<noteq> 0) ps)" using ob(1) by (simp add: own_blocks_def)
  ultimately have o: "set (own_blocks a t bs (subst_first 0 addr ps)) = insert addr (set (own_blocks a t bs ps)) \<and> distinct (own_blocks a t bs (subst_first 0 addr ps))"
    using own_blocks_subst filter_enter [OF slot p(2)] ob(1) by blast
  have "guest qs s' a t bs (map pool_ptr (take 512 m'))"
    by (rule guest_frame [OF g s'_def]) (use o ob p in \<open>auto simp: m'\<close>)
  then have "guest qs s' a t bs (subst_first 0 addr ps)" unfolding m' .
  moreover have "malloc_pool a sz s = Some (addr, s')"
    using p(1) m(1) ta by (simp add: malloc_pool_def pages_of_def Let_def s'_def m'_def)
  ultimately show ?thesis using that p(3,4) o by (simp add: s'_def)
qed

lemma free_obj_frame:
  assumes "heap_room 0 (fmm s)" and "p \<in> live_blocks (fmm s)"
  obtains s' where "free_obj p s = Some s'" "live_blocks (fmm s') = live_blocks (fmm s) - {p}" "heap_room 0 (fmm s')" "tcore s' = tcore s"
    "threads s' = (threads s)(p := None)" "pools s' = (pools s)(p := None)" "files s' = (files s)(p := None)" "bufs s' = (bufs s)(p := None)"
proof -
  obtain mm where "free_block p s = Some (s\<lparr>fmm := mm, files := (files s)(p := None), bufs := (bufs s)(p := None),
      ptrs := (ptrs s)(p := None), blks := (blks s)(p := None)\<rparr>)" "live_blocks mm = live_blocks (fmm s) - {p}" "heap_room 0 mm"
    by (rule free_block_ok [OF assms])
  then show ?thesis using that by (simp add: free_obj_def free_win_def tcore_def)
qed

lemma guest_free:
  assumes g: "guest qs s a t bs ps" and p: "p \<in> set ps" "p \<noteq> 0"
  obtains s' where "free_pool a p s = Some s'" "guest qs s' a t bs (subst_first p 0 ps)" "live_blocks (fmm s') = live_blocks (fmm s) - {p}"
    "set (own_blocks a t bs (subst_first p 0 ps)) = set (own_blocks a t bs ps) - {p}" "p \<in> set (own_blocks a t bs ps)"
proof -
  obtain m where m: "pools s (t_pool t) = Some m" "map pool_ptr (take 512 m) = ps" and ta: "threads s a = Some t"
    using g by (auto simp: guest_def owner_def)
  have ob: "distinct (own_blocks a t bs ps)" "set (own_blocks a t bs ps) \<subseteq> live_blocks (fmm s)" "0 \<notin> set (own_blocks a t bs ps)"
    "set (own_blocks a t bs ps) \<inter> set qs = {}" "set qs \<subseteq> live_blocks (fmm s)" and r0: "heap_room 0 (fmm s)"
    using g by (auto simp: guest_def owner_def thread_inv_def)
  have pf: "p \<in> set (filter (\<lambda>p. p \<noteq> 0) ps)" using p by simp
  then have pl: "p \<in> live_blocks (fmm s)" "p \<notin> set qs" using ob(2,4) by (auto simp: own_blocks_def)
  have pn: "p \<notin> set ([a, t_stdin t, t_stdout t, t_stderr t, t_pipe t] @ bs @ [t_mouse t, t_pool t])"
    using ob(1) pf unfolding own_blocks_def by (auto simp del: set_filter)
  have pd: "a \<noteq> p" "t_stdin t \<noteq> p" "t_stdout t \<noteq> p" "t_stderr t \<noteq> p" "t_pipe t \<noteq> p" "t_pool t \<noteq> p" using pn by auto
  obtain s1 where s1: "free_obj p s = Some s1" "live_blocks (fmm s1) = live_blocks (fmm s) - {p}" "heap_room 0 (fmm s1)" "tcore s1 = tcore s"
    "threads s1 = (threads s)(p := None)" "pools s1 = (pools s)(p := None)" "files s1 = (files s)(p := None)" "bufs s1 = (bufs s)(p := None)"
    by (rule free_obj_frame [OF r0 pl(1)])
  define m' where "m' = pool_clear 512 p m"
  define s' where "s' = s1\<lparr>pools := (pools s1)(t_pool t \<mapsto> m')\<rparr>"
  have m': "map pool_ptr (take 512 m') = subst_first p 0 ps" unfolding m'_def pool_clear_ptrs m(2) ..
  have "distinct (filter (\<lambda>p. p \<noteq> 0) ps)" using ob(1) by (simp add: own_blocks_def)
  then have o: "set (own_blocks a t bs (subst_first p 0 ps)) = set (own_blocks a t bs ps) - {p} \<and> distinct (own_blocks a t bs (subst_first p 0 ps))"
    using own_blocks_drop [OF filter_clear [OF p] ob(1) pf] by blast
  have "threads s p = None" using g pl(2) pn by (auto simp: guest_def thread_inv_def domIff)
  then have th: "threads s1 = threads s" by (simp add: s1(5) fun_upd_idem)
  have tc: "thread_ready_queue s1 = thread_ready_queue s" "current_thread s1 = current_thread s" "current_thread2 s1 = current_thread2 s"
    "next_pid s1 = next_pid s" "ctx s1 = ctx s" "ctx2 s1 = ctx2 s" "pipe_launcher s1 = pipe_launcher s" using s1(4) by (simp_all add: tcore_def)
  have al: "a \<in> live_blocks (fmm s1)" "set qs \<subseteq> live_blocks (fmm s1)" using ob(2,5) pn pl(2) s1(2) by (auto simp: own_blocks_def)
  have inv: "thread_inv (qs @ [a]) s'" using g al by (simp add: guest_def thread_inv_def s'_def thr_def th tc)
  obtain b0 b1 b2 b3 where bs: "bs = [b0, b1, b2, b3]" using g by (auto simp: guest_def owner_def numeral_eq_Suc length_Suc_conv)
  have cl: "list_all2 (closable s') [t_stdin t, t_stdout t, t_stderr t, t_pipe t] bs"
    using g pd by (simp add: guest_def owner_def bs closable_def s'_def s1(7))
  obtain n b where pi: "pipe s (t_pipe t) n 0 0 b" using g by (auto simp: guest_def)
  moreover have "closable s (t_pipe t) b3" using g by (simp add: guest_def owner_def bs)
  ultimately have "f_buffer n \<noteq> p" using pn by (auto simp: pipe_def closable_def bs)
  then have pi': "pipe s' (t_pipe t) n 0 0 b" using pi pd by (simp add: pipe_def s'_def s1(7,8))
  have "owner s' a t bs (subst_first p 0 ps)"
    using g o ob(2,3) cl m' unfolding guest_def owner_def by (auto simp: s'_def th s1(2))
  then have "guest qs s' a t bs (subst_first p 0 ps)"
    using g inv pi' o ob(4) s1(3) tc unfolding guest_def by (auto simp: s'_def)
  moreover have "free_pool a p s = Some s'"
    using s1(1,6) p(2) ta m(1) pd by (simp add: free_pool_def th s'_def m'_def)
  moreover have "p \<in> set (own_blocks a t bs ps)" using p by (simp add: own_blocks_def)
  ultimately show ?thesis using that s1(2) o by (simp add: s'_def)
qed

lemma subst_first_absent: "x \<notin> set ps \<Longrightarrow> subst_first x y ps = ps"
  by (induction ps) auto

text \<open>Blocks the process holds outside its table.\<close>

lemma guest_pages:
  assumes g: "guest qs s a t bs ps" and room: "heap_room (unat len) (fmm s)" and len: "len \<noteq> 0"
  obtains addr mm where "new_pages 1 len s = Some (addr, s\<lparr>fmm := mm\<rparr>)" "addr \<noteq> 0" "addr \<notin> live_blocks (fmm s)" "live_blocks mm = insert addr (live_blocks (fmm s))"
    "\<And>m. map pool_ptr (take 512 m) = ps \<Longrightarrow> guest qs (s\<lparr>fmm := mm, pools := (pools s)(t_pool t \<mapsto> m)\<rparr>) a t bs ps"
proof -
  have r: "heap_room (unat len + 0) (fmm s)" "0 < unat len" using room len by (simp_all add: unat_gt_0)
  obtain addr mm where p: "new_pages 1 len s = Some (addr, s\<lparr>fmm := mm\<rparr>)" "addr \<noteq> 0" "addr \<notin> live_blocks (fmm s)"
    "live_blocks mm = insert addr (live_blocks (fmm s))" "heap_room 0 mm"
    by (rule new_pages_ok [OF r(1) refl r(2), where type = 1])
  have "guest qs (s\<lparr>fmm := mm, pools := (pools s)(t_pool t \<mapsto> m)\<rparr>) a t bs ps" if m: "map pool_ptr (take 512 m) = ps" for m
  proof -
    have o: "set (own_blocks a t bs ps) \<subseteq> live_blocks (fmm s)" "distinct (own_blocks a t bs ps)" "set (own_blocks a t bs ps) \<inter> set qs = {}"
      "0 \<notin> set (own_blocks a t bs ps)" "set qs \<subseteq> live_blocks (fmm s)"
      using g by (auto simp only: guest_def owner_def thread_inv_def set_append)
    have l: "live_blocks (fmm s) \<subseteq> live_blocks mm" unfolding p(4) by (rule subset_insertI)
    show ?thesis using guest_frame [OF g refl, of m mm, unfolded m] o l p(5) by (metis subset_trans)
  qed
  then show ?thesis using that p by blast
qed

lemma guest_malloc_full:
  assumes g: "guest qs s a t bs ps" and full: "0 \<notin> set ps" and room: "heap_room (unat (pages_of sz)) (fmm s)" and sz: "sz \<noteq> 0"
  obtains addr s' where "malloc_pool a sz s = Some (addr, s')" "guest qs s' a t bs ps" "addr \<notin> live_blocks (fmm s)"
    "live_blocks (fmm s') = insert addr (live_blocks (fmm s))" "addr \<noteq> 0"
proof -
  have n: "pages_of sz \<noteq> 0" using pages_of_pos [OF sz] by auto
  obtain addr mm where p: "new_pages 1 (pages_of sz) s = Some (addr, s\<lparr>fmm := mm\<rparr>)" "addr \<noteq> 0" "addr \<notin> live_blocks (fmm s)" "live_blocks mm = insert addr (live_blocks (fmm s))"
    "\<And>m. map pool_ptr (take 512 m) = ps \<Longrightarrow> guest qs (s\<lparr>fmm := mm, pools := (pools s)(t_pool t \<mapsto> m)\<rparr>) a t bs ps"
    by (rule guest_pages [OF g room n]) blast
  obtain m where m: "pools s (t_pool t) = Some m" "map pool_ptr (take 512 m) = ps" and ta: "threads s a = Some t"
    using g by (auto simp: guest_def owner_def)
  have "map pool_ptr (take 512 (pool_enter 512 addr sz m)) = ps" unfolding pool_enter_ptrs m(2) by (rule subst_first_absent [OF full])
  moreover have "malloc_pool a sz s = Some (addr, s\<lparr>fmm := mm, pools := (pools s)(t_pool t \<mapsto> pool_enter 512 addr sz m)\<rparr>)"
    using p(1) m(1) ta by (simp add: malloc_pool_def pages_of_def Let_def)
  ultimately show ?thesis using that p by simp
qed

lemma guest_drop:
  assumes g: "guest qs s a t bs ps" and p: "p \<in> live_blocks (fmm s)" "p \<notin> set (own_blocks a t bs ps)" "p \<notin> set qs"
  obtains s1 where "free_obj p s = Some s1" "guest qs s1 a t bs ps" "live_blocks (fmm s1) = live_blocks (fmm s) - {p}" "threads s1 a = Some t"
    "pools s1 (t_pool t) = pools s (t_pool t)"
proof -
  have ob: "set (own_blocks a t bs ps) \<subseteq> live_blocks (fmm s)" "set qs \<subseteq> live_blocks (fmm s)" and r0: "heap_room 0 (fmm s)" and ta: "threads s a = Some t"
    using g by (auto simp: guest_def owner_def thread_inv_def)
  have pn: "p \<notin> set ([a, t_stdin t, t_stdout t, t_stderr t, t_pipe t] @ bs @ [t_mouse t, t_pool t])" using p(2) unfolding own_blocks_def by simp
  have pd: "a \<noteq> p" "t_stdin t \<noteq> p" "t_stdout t \<noteq> p" "t_stderr t \<noteq> p" "t_pipe t \<noteq> p" "t_pool t \<noteq> p" using pn by auto
  obtain s1 where s1: "free_obj p s = Some s1" "live_blocks (fmm s1) = live_blocks (fmm s) - {p}" "heap_room 0 (fmm s1)" "tcore s1 = tcore s"
    "threads s1 = (threads s)(p := None)" "pools s1 = (pools s)(p := None)" "files s1 = (files s)(p := None)" "bufs s1 = (bufs s)(p := None)"
    by (rule free_obj_frame [OF r0 p(1)])
  have "dom (threads s) = set (qs @ [a])" using g by (simp only: guest_def thread_inv_def)
  then have "p \<notin> dom (threads s)" using p(3) pd(1) by simp
  then have "threads s p = None" by (simp only: domIff not_not)
  then have th: "threads s1 = threads s" by (simp add: s1(5) fun_upd_idem)
  have tc: "thread_ready_queue s1 = thread_ready_queue s" "current_thread s1 = current_thread s" "current_thread2 s1 = current_thread2 s"
    "next_pid s1 = next_pid s" "ctx s1 = ctx s" "ctx2 s1 = ctx2 s" "pipe_launcher s1 = pipe_launcher s" using s1(4) by (simp_all add: tcore_def)
  have al: "set (own_blocks a t bs ps) \<subseteq> live_blocks (fmm s1)" "set qs \<subseteq> live_blocks (fmm s1)" "a \<in> live_blocks (fmm s1)"
    using ob p pd(1) by (auto simp: s1(2) own_blocks_def)
  have inv: "thread_inv (qs @ [a]) s1" using g al by (simp add: guest_def thread_inv_def thr_def th tc)
  obtain b0 b1 b2 b3 where bs: "bs = [b0, b1, b2, b3]" using g by (auto simp: guest_def owner_def numeral_eq_Suc length_Suc_conv)
  have cl: "list_all2 (closable s1) [t_stdin t, t_stdout t, t_stderr t, t_pipe t] bs"
    using g pd by (simp add: guest_def owner_def bs closable_def s1(7))
  obtain n b where pi: "pipe s (t_pipe t) n 0 0 b" using g by (auto simp: guest_def)
  moreover have "closable s (t_pipe t) b3" using g by (simp add: guest_def owner_def bs)
  ultimately have "f_buffer n \<noteq> p" using pn by (auto simp: pipe_def closable_def bs)
  then have pi': "pipe s1 (t_pipe t) n 0 0 b" using pi pd by (simp add: pipe_def s1(7,8))
  have "owner s1 a t bs ps" using g al cl pd unfolding guest_def owner_def by (auto simp: th s1(6))
  then have "guest qs s1 a t bs ps" using g inv pi' s1(3) tc unfolding guest_def by auto
  then show ?thesis using that s1(1,2,6) ta pd by (simp add: th)
qed

lemma guest_free_other:
  assumes g: "guest qs s a t bs ps" and p: "p \<in> live_blocks (fmm s)" "p \<notin> set (own_blocks a t bs ps)" "p \<notin> set qs" "p \<noteq> 0"
  obtains s' where "free_pool a p s = Some s'" "guest qs s' a t bs ps" "live_blocks (fmm s') = live_blocks (fmm s) - {p}"
proof -
  obtain s1 where s1: "free_obj p s = Some s1" "guest qs s1 a t bs ps" "live_blocks (fmm s1) = live_blocks (fmm s) - {p}" "threads s1 a = Some t"
    "pools s1 (t_pool t) = pools s (t_pool t)" by (rule guest_drop [OF g p(1-3)])
  obtain m where m: "pools s (t_pool t) = Some m" "map pool_ptr (take 512 m) = ps" using g by (auto simp: guest_def owner_def)
  define s' where "s' = s1\<lparr>pools := (pools s1)(t_pool t \<mapsto> pool_clear 512 p m)\<rparr>"
  have "p \<notin> set ps" using p(2,4) by (simp add: own_blocks_def)
  then have m': "map pool_ptr (take 512 (pool_clear 512 p m)) = ps" unfolding pool_clear_ptrs m(2) by (rule subst_first_absent)
  have "s' = s1\<lparr>fmm := fmm s1, pools := (pools s1)(t_pool t \<mapsto> pool_clear 512 p m)\<rparr>" by (simp add: s'_def)
  then have "guest qs s' a t bs (map pool_ptr (take 512 (pool_clear 512 p m)))"
    by (rule guest_frame [OF s1(2)]) (use s1(2) in \<open>auto simp: m' guest_def owner_def thread_inv_def\<close>)
  then have "guest qs s' a t bs ps" unfolding m' .
  moreover have "free_pool a p s = Some s'" using s1 m(1) p(4) by (simp add: free_pool_def s'_def)
  ultimately show ?thesis using that s1(3) by (simp add: s'_def)
qed

lemma guest_switch:
  assumes g: "guest qs s a t bs ps" and c: "length (c_fxsave c) = 512" and sw: "task_switch (s\<lparr>ctx := c\<rparr>) = Some s'"
  shows "\<exists>t'. guest qs s' a t' bs ps \<and> own_blocks a t' bs ps = own_blocks a t bs ps \<and> t_pid t' = t_pid t \<and> fmm s' = fmm s"
proof -
  define u where "u = s\<lparr>ctx := c\<rparr>"
  have iu: "thread_inv (qs @ [a]) u" using thread_inv_ctx [OF _ c, of "qs @ [a]" s] g by (simp add: guest_def u_def)
  define ts where "ts = (threads u)(current_thread u \<mapsto> save_context (ctx u) (thr u (current_thread u)))"
  obtain n d where s': "s' = u\<lparr>threads := ts, current_thread := n, ctx := d\<rparr>" and inv: "thread_inv (qs @ [a]) s'"
    using task_switch_ok [OF iu] sw unfolding u_def [symmetric] ts_def by auto
  have ta: "threads s a = Some t" using g by (simp add: guest_def owner_def)
  define t' where "t' = (if current_thread s = a then save_context c t else t)"
  have t': "threads s' a = Some t'" using ta by (auto simp: s' ts_def u_def t'_def thr_def)
  have f: "t_tail t' = t_tail t" "t_head t' = t_head t" "t_frame_size t' = t_frame_size t" "t_pml4e_addr t' = t_pml4e_addr t"
    "t_pdpte_addr t' = t_pdpte_addr t" "t_pde_addr t' = t_pde_addr t" "t_pte_addr t' = t_pte_addr t" "t_prv t' = t_prv t" "t_stdin t' = t_stdin t"
    "t_stdout t' = t_stdout t" "t_stderr t' = t_stderr t" "t_pipe t' = t_pipe t" "t_mouse t' = t_mouse t" "t_pool t' = t_pool t" "t_pid t' = t_pid t"
    by (simp_all add: t'_def save_context_def)
  have ob: "own_blocks a t' bs ps = own_blocks a t bs ps" by (simp add: own_blocks_def f)
  have cl: "closable s' = closable s" "pipe s' = pipe s" by (simp_all add: closable_def pipe_def fun_eq_iff s' u_def)
  have r: "fmm s' = fmm s" "pools s' = pools s" "pipe_launcher s' = pipe_launcher s" "current_thread2 s' = current_thread2 s" by (simp_all add: s' u_def)
  have "owner s' a t' bs ps" using g t' unfolding guest_def owner_def ob cl r f by blast
  then have "guest qs s' a t' bs ps" using g inv unfolding guest_def ob cl r f by blast
  with ob f r show ?thesis by blast
qed

text \<open>The end of a process.\<close>

lemma guest_exit:
  assumes g: "guest qs s a t bs ps" and cur: "current_thread s \<noteq> a"
  shows "\<exists>s'. exit a s = Some s' \<and> thread_inv qs s' \<and> get_thread (t_pid t) s' = Some 0 \<and>
    live_blocks (fmm s') = live_blocks (fmm s) - set (own_blocks a t bs ps)"
proof -
  obtain n b where p: "pipe s (t_pipe t) n 0 0 b" using g by (auto simp: guest_def)
  have gs: "thread_inv (qs @ a # []) s" "qs \<noteq> []" "owner s a t bs ps" "heap_room 0 (fmm s)" "pipe_launcher s = 0"
    using g by (simp_all add: guest_def)
  have q: "current_thread s \<in> set (qs @ [])" "current_thread2 s \<in> set (qs @ [])" "set (own_blocks a t bs ps) \<inter> set (qs @ []) = {}"
    using g cur by (auto simp: guest_def thread_inv_def)
  obtain s' where e: "exit a s = Some s'" "thread_inv (qs @ []) s'" "live_blocks (fmm s') = live_blocks (fmm s) - set (own_blocks a t bs ps)"
    "threads s' = (threads s)(a := None, last qs \<mapsto> (thr s (last qs))\<lparr>t_next := t_next t\<rparr>)"
    by (rule exit_ok [OF gs(1-5) p _ q]) simp_all
  have "t_pid (thr s' x) \<noteq> t_pid t" if "x \<in> set qs" for x
  proof -
    have "thr s a = t" using gs(3) by (simp add: owner_def thr_def)
    moreover have "t_pid (thr s a) \<notin> (\<lambda>a. t_pid (thr s a)) ` set qs" using gs(1) by (simp add: thread_inv_def)
    moreover have "x \<noteq> a" using gs(1) that by (auto simp: thread_inv_def dest: chain_distinct)
    ultimately have "t_pid (thr s x) \<noteq> t_pid t" "x \<noteq> a" using that by (auto simp: image_iff)
    then show ?thesis by (auto simp: thr_def e(4))
  qed
  then have "get_thread (t_pid t) s' = Some 0" using get_thread_none [of qs s'] e(2) by simp
  with e show ?thesis by auto
qed

section \<open>The life of a process\<close>

definition pool_ptrs :: "u64 \<Rightarrow> 'a thread_state_scheme \<Rightarrow> u64 list" where
  "pool_ptrs a s = map pool_ptr (take 512 (the (pools s (t_pool (thr s a)))))"

text \<open>While the process \<open>a\<close> lives, timer interrupts of the first processor switch threads, and when it has the processor
  it gets and releases blocks by the system calls \<^verbatim>\<open>malloc\<close>, \<^verbatim>\<open>free\<close>, \<^verbatim>\<open>alloc_pages\<close> and \<^verbatim>\<open>free_pages\<close>.  \<open>K\<close> are the blocks it
  holds that are not in its table: those of \<^verbatim>\<open>alloc_pages\<close>, and those of \<^verbatim>\<open>malloc\<close> when the table is full.  What it
  releases is an entry of the table (the null pointer included) or one of \<open>K\<close>.\<close>

inductive process_run :: "u64 \<Rightarrow> sys_state \<Rightarrow> u64 set \<Rightarrow> sys_state \<Rightarrow> bool" for a s0 where
  Start: "process_run a s0 {} s0"
| Switch: "process_run a s0 K s \<Longrightarrow> length (c_fxsave c) = 512 \<Longrightarrow> task_switch (s\<lparr>ctx := c\<rparr>) = Some s' \<Longrightarrow> process_run a s0 K s'"
| Get: "process_run a s0 K s \<Longrightarrow> current_thread s = a \<Longrightarrow> ucast (a_rdi r) = sz \<Longrightarrow> sz \<noteq> 0 \<Longrightarrow> heap_room (unat (pages_of sz)) (fmm s) \<Longrightarrow>
    0 \<in> set (pool_ptrs a s) \<Longrightarrow> malloc_syscall r s = Some s' \<Longrightarrow> process_run a s0 K s'"
| Get_full: "process_run a s0 K s \<Longrightarrow> current_thread s = a \<Longrightarrow> ucast (a_rdi r) = sz \<Longrightarrow> sz \<noteq> 0 \<Longrightarrow> heap_room (unat (pages_of sz)) (fmm s) \<Longrightarrow>
    0 \<notin> set (pool_ptrs a s) \<Longrightarrow> malloc_syscall r s = Some s' \<Longrightarrow> process_run a s0 (insert (ret s') K) s'"
| Pages: "process_run a s0 K s \<Longrightarrow> current_thread s = a \<Longrightarrow> ucast (a_rcx r) = (n :: u32) \<Longrightarrow> n \<noteq> 0 \<Longrightarrow> heap_room (unat n) (fmm s) \<Longrightarrow>
    syscall_alloc_pages r s = Some s' \<Longrightarrow> process_run a s0 (insert (ret s') K) s'"
| Put: "process_run a s0 K s \<Longrightarrow> current_thread s = a \<Longrightarrow> a_rdi r \<in> set (pool_ptrs a s) \<Longrightarrow> free_syscall r s = Some s' \<Longrightarrow> process_run a s0 K s'"
| Put_other: "process_run a s0 K s \<Longrightarrow> current_thread s = a \<Longrightarrow> a_rdi r \<in> K \<Longrightarrow> free_syscall r s = Some s' \<Longrightarrow> process_run a s0 (K - {a_rdi r}) s'"
| Put_pages: "process_run a s0 K s \<Longrightarrow> current_thread s = a \<Longrightarrow> a_rdi r \<in> K \<Longrightarrow> syscall_free_pages r s = Some s' \<Longrightarrow> process_run a s0 (K - {a_rdi r}) s'"

lemma guest_ret [simp]: "guest qs (s\<lparr>ret := x\<rparr>) a t bs ps = guest qs s a t bs ps"
proof -
  have "closable (s\<lparr>ret := x\<rparr>) = closable s" "pipe (s\<lparr>ret := x\<rparr>) = pipe s" by (simp_all add: closable_def pipe_def fun_eq_iff)
  then show ?thesis by (simp add: guest_def owner_def thread_inv_def thr_def)
qed

lemma guest_ptrs: "guest qs s a t bs ps \<Longrightarrow> pool_ptrs a s = ps"
  by (auto simp: guest_def owner_def pool_ptrs_def thr_def)

text \<open>What the process owns and what it holds outside its table is exactly what the heap has more than before.\<close>

definition alive :: "u64 list \<Rightarrow> u64 set \<Rightarrow> u64 \<Rightarrow> u64 \<Rightarrow> u64 set \<Rightarrow> 'a thread_state_scheme \<Rightarrow> bool" where
  "alive qs L a pid K s \<longleftrightarrow> (\<exists>t bs ps. guest qs s a t bs ps \<and> t_pid t = pid \<and> live_blocks (fmm s) = L \<union> set (own_blocks a t bs ps) \<union> K \<and>
     L \<inter> set (own_blocks a t bs ps) = {} \<and> L \<inter> K = {} \<and> set (own_blocks a t bs ps) \<inter> K = {} \<and> set qs \<subseteq> L \<and> 0 \<notin> K)"

lemma aliveI: "guest qs s a t bs ps \<Longrightarrow> t_pid t = pid \<Longrightarrow> live_blocks (fmm s) = L \<union> set (own_blocks a t bs ps) \<union> K \<Longrightarrow>
    L \<inter> set (own_blocks a t bs ps) = {} \<Longrightarrow> L \<inter> K = {} \<Longrightarrow> set (own_blocks a t bs ps) \<inter> K = {} \<Longrightarrow> set qs \<subseteq> L \<Longrightarrow> 0 \<notin> K \<Longrightarrow> alive qs L a pid K s"
  unfolding alive_def by blast

lemma aliveE:
  assumes "alive qs L a pid K s"
  obtains t bs ps where "guest qs s a t bs ps" "t_pid t = pid" "live_blocks (fmm s) = L \<union> set (own_blocks a t bs ps) \<union> K"
    "L \<inter> set (own_blocks a t bs ps) = {}" "L \<inter> K = {}" "set (own_blocks a t bs ps) \<inter> K = {}" "set qs \<subseteq> L" "0 \<notin> K" "pool_ptrs a s = ps"
  using assms guest_ptrs unfolding alive_def by metis

lemma alive_switch:
  assumes "alive qs L a pid K s" and "length (c_fxsave c) = 512" and "task_switch (s\<lparr>ctx := c\<rparr>) = Some s'"
  shows "alive qs L a pid K s'"
proof (rule aliveE [OF assms(1)])
  fix t bs ps assume g: "guest qs s a t bs ps" "t_pid t = pid" "live_blocks (fmm s) = L \<union> set (own_blocks a t bs ps) \<union> K"
    "L \<inter> set (own_blocks a t bs ps) = {}" "L \<inter> K = {}" "set (own_blocks a t bs ps) \<inter> K = {}" "set qs \<subseteq> L" "0 \<notin> K"
  obtain t' where t': "guest qs s' a t' bs ps" "own_blocks a t' bs ps = own_blocks a t bs ps" "t_pid t' = t_pid t" "fmm s' = fmm s"
    using guest_switch [OF g(1) assms(2,3)] by blast
  show ?thesis by (rule aliveI [OF t'(1)]) (use g t' in simp_all)
qed

lemma alive_get:
  assumes "alive qs L a pid K s" and "current_thread s = a" and "ucast (a_rdi r) = sz" "sz \<noteq> 0" "heap_room (unat (pages_of sz)) (fmm s)"
    and "malloc_syscall r s = Some s'"
  shows "alive qs L a pid (if 0 \<in> set (pool_ptrs a s) then K else insert (ret s') K) s'"
proof (rule aliveE [OF assms(1)])
  fix t bs ps assume g: "guest qs s a t bs ps" "t_pid t = pid" "live_blocks (fmm s) = L \<union> set (own_blocks a t bs ps) \<union> K"
    "L \<inter> set (own_blocks a t bs ps) = {}" "L \<inter> K = {}" "set (own_blocks a t bs ps) \<inter> K = {}" "set qs \<subseteq> L" "0 \<notin> K" "pool_ptrs a s = ps"
  show ?thesis
  proof (cases "0 \<in> set ps")
    case True
    obtain addr u where u: "malloc_pool a sz s = Some (addr, u)" "guest qs u a t bs (subst_first 0 addr ps)" "addr \<notin> live_blocks (fmm s)"
      "live_blocks (fmm u) = insert addr (live_blocks (fmm s))"
      "set (own_blocks a t bs (subst_first 0 addr ps)) = insert addr (set (own_blocks a t bs ps))"
      by (rule guest_malloc [OF g(1) True assms(5,4)])
    have s': "s' = u\<lparr>ret := addr\<rparr>" using assms(2,3,6) u(1) by (simp add: malloc_syscall_def)
    then have "guest qs s' a t bs (subst_first 0 addr ps)" using u(2) by simp
    then have "alive qs L a pid K s'" by (rule aliveI) (use g u(3-5) in \<open>auto simp: s'\<close>)
    then show ?thesis using True g(9) by simp
  next
    case False
    obtain addr u where u: "malloc_pool a sz s = Some (addr, u)" "guest qs u a t bs ps" "addr \<notin> live_blocks (fmm s)" "live_blocks (fmm u) = insert addr (live_blocks (fmm s))"
      "addr \<noteq> 0" by (rule guest_malloc_full [OF g(1) False assms(5,4)])
    have s': "s' = u\<lparr>ret := addr\<rparr>" using assms(2,3,6) u(1) by (simp add: malloc_syscall_def)
    then have "guest qs s' a t bs ps" using u(2) by simp
    then have "alive qs L a pid (insert addr K) s'" by (rule aliveI) (use g u(3-5) in \<open>auto simp: s'\<close>)
    then show ?thesis using False g(9) by (simp add: s')
  qed
qed

lemma alloc_pages_syscall:
  assumes "ucast (a_rcx r) = (n :: u32)" "syscall_alloc_pages r s = Some s'" "new_pages 1 n s = Some (addr, s\<lparr>fmm := mm\<rparr>)"
  shows "s' = s\<lparr>fmm := mm, ret := addr\<rparr>"
proof -
  obtain e p mm' where a: "alloc_pages 1 n (fmm s) = Some (e, p, mm')" "s' = s\<lparr>fmm := mm', ret := (case p of None \<Rightarrow> 0 | Some addr \<Rightarrow> addr)\<rparr>"
    using assms(1,2) by (auto simp: syscall_alloc_pages_def bind_eq_Some_conv)
  then obtain "p = Some addr" "s\<lparr>fmm := mm\<rparr> = s\<lparr>fmm := mm'\<rparr>" using assms(3) by (cases p) (auto simp: new_pages_def)
  then have "mm = mm'" using arg_cong [where f = fmm] by fastforce
  then show ?thesis using a(2) \<open>p = Some addr\<close> by simp
qed

lemma alive_pages:
  assumes "alive qs L a pid K s" and "ucast (a_rcx r) = (n :: u32)" "n \<noteq> 0" "heap_room (unat n) (fmm s)" and "syscall_alloc_pages r s = Some s'"
  shows "alive qs L a pid (insert (ret s') K) s'"
proof (rule aliveE [OF assms(1)])
  fix t bs ps assume g: "guest qs s a t bs ps" "t_pid t = pid" "live_blocks (fmm s) = L \<union> set (own_blocks a t bs ps) \<union> K"
    "L \<inter> set (own_blocks a t bs ps) = {}" "L \<inter> K = {}" "set (own_blocks a t bs ps) \<inter> K = {}" "set qs \<subseteq> L" "0 \<notin> K"
  obtain m where m: "pools s (t_pool t) = Some m" "map pool_ptr (take 512 m) = ps" using g(1) by (auto simp: guest_def owner_def)
  obtain addr mm where p: "new_pages 1 n s = Some (addr, s\<lparr>fmm := mm\<rparr>)" "addr \<noteq> 0" "addr \<notin> live_blocks (fmm s)" "live_blocks mm = insert addr (live_blocks (fmm s))"
    "\<And>m. map pool_ptr (take 512 m) = ps \<Longrightarrow> guest qs (s\<lparr>fmm := mm, pools := (pools s)(t_pool t \<mapsto> m)\<rparr>) a t bs ps"
    by (rule guest_pages [OF g(1) assms(4,3)]) blast
  have s': "s' = s\<lparr>fmm := mm, ret := addr\<rparr>"
    by (rule alloc_pages_syscall [OF assms(2,5) p(1)])
  have "guest qs (s\<lparr>fmm := mm, pools := (pools s)(t_pool t \<mapsto> m)\<rparr>) a t bs ps" by (rule p(5) [OF m(2)])
  moreover have "(pools s)(t_pool t \<mapsto> m) = pools s" by (rule fun_upd_idem) (rule m(1))
  then have "s' = (s\<lparr>fmm := mm, pools := (pools s)(t_pool t \<mapsto> m)\<rparr>)\<lparr>ret := addr\<rparr>" by (simp add: s')
  ultimately have "guest qs s' a t bs ps" by (simp only: guest_ret)
  then have "alive qs L a pid (insert addr K) s'" by (rule aliveI) (use g p(2-4) in \<open>auto simp: s'\<close>)
  then show ?thesis by (simp add: s')
qed

lemma alive_put:
  assumes "alive qs L a pid K s" and "current_thread s = a" and "a_rdi r \<in> set (pool_ptrs a s)" and "free_syscall r s = Some s'"
  shows "alive qs L a pid K s'"
proof (rule aliveE [OF assms(1)])
  fix t bs ps assume g: "guest qs s a t bs ps" "t_pid t = pid" "live_blocks (fmm s) = L \<union> set (own_blocks a t bs ps) \<union> K"
    "L \<inter> set (own_blocks a t bs ps) = {}" "L \<inter> K = {}" "set (own_blocks a t bs ps) \<inter> K = {}" "set qs \<subseteq> L" "0 \<notin> K" "pool_ptrs a s = ps"
  let ?p = "a_rdi r"
  show ?thesis
  proof (cases "?p = 0")
    case True
    then show ?thesis using assms(1,4) by (simp add: free_syscall_def free_pool_def)
  next
    case False
    have "?p \<in> set ps" using assms(3) g(9) by simp
    then obtain u where u: "free_pool a ?p s = Some u" "guest qs u a t bs (subst_first ?p 0 ps)" "live_blocks (fmm u) = live_blocks (fmm s) - {?p}"
      "set (own_blocks a t bs (subst_first ?p 0 ps)) = set (own_blocks a t bs ps) - {?p}" "?p \<in> set (own_blocks a t bs ps)"
      by (rule guest_free [OF g(1) _ False])
    have "s' = u" using assms(2,4) u(1) by (simp add: free_syscall_def)
    then have "guest qs s' a t bs (subst_first ?p 0 ps)" using u(2) by simp
    then show ?thesis by (rule aliveI) (use g u(3-5) \<open>s' = u\<close> in auto)
  qed
qed

lemma alive_put_other:
  assumes "alive qs L a pid K s" and "a_rdi r \<in> K"
    and "current_thread s = a \<and> free_syscall r s = Some s' \<or> syscall_free_pages r s = Some s'"
  shows "alive qs L a pid (K - {a_rdi r}) s'"
proof (rule aliveE [OF assms(1)])
  fix t bs ps assume g: "guest qs s a t bs ps" "t_pid t = pid" "live_blocks (fmm s) = L \<union> set (own_blocks a t bs ps) \<union> K"
    "L \<inter> set (own_blocks a t bs ps) = {}" "L \<inter> K = {}" "set (own_blocks a t bs ps) \<inter> K = {}" "set qs \<subseteq> L" "0 \<notin> K" "pool_ptrs a s = ps"
  let ?p = "a_rdi r"
  have p: "?p \<in> live_blocks (fmm s)" "?p \<notin> set (own_blocks a t bs ps)" "?p \<notin> set qs" "?p \<noteq> 0" using g(3-8) assms(2) by auto
  obtain u where u: "free_pool a ?p s = Some u" "guest qs u a t bs ps" "live_blocks (fmm u) = live_blocks (fmm s) - {?p}" by (rule guest_free_other [OF g(1) p])
  obtain v where v: "free_obj ?p s = Some v" "guest qs v a t bs ps" "live_blocks (fmm v) = live_blocks (fmm s) - {?p}" by (rule guest_drop [OF g(1) p(1-3)])
  have "s' = u \<or> s' = v" using assms(3) u(1) v(1) by (auto simp: free_syscall_def syscall_free_pages_def)
  then have s': "guest qs s' a t bs ps" "live_blocks (fmm s') = live_blocks (fmm s) - {?p}" using u(2,3) v(2,3) by auto
  show ?thesis by (rule aliveI [OF s'(1)]) (use g s'(2) assms(2) in auto)
qed

lemma process_run_alive: "process_run a s0 K s \<Longrightarrow> alive qs L a pid {} s0 \<Longrightarrow> alive qs L a pid K s"
proof (induction rule: process_run.induct)
  case (Switch K s c s')
  then show ?case using alive_switch by blast
next
  case (Get K s r sz s')
  then show ?case using alive_get [of qs L a pid K s r sz s'] by simp
next
  case (Get_full K s r sz s')
  then show ?case using alive_get [of qs L a pid K s r sz s'] by simp
next
  case (Pages K s r n s')
  then show ?case using alive_pages by blast
next
  case (Put K s r s')
  then show ?case using alive_put by blast
next
  case (Put_other K s r s')
  then show ?case using alive_put_other by blast
next
  case (Put_pages K s r s')
  then show ?case using alive_put_other by blast
qed


section \<open>A running system\<close>

definition sys_zero :: sys_state where
  "sys_zero = thread_state.extend thread_zero (sys_state.fields 0 (replicate 6 0) 0x5000 0 (\<lambda>_. 0) sock_zero [])"

lemma sys_zero_fields: "fmm sys_zero = fmm thread_zero" "threads sys_zero = Map.empty" "ctx sys_zero = context_zero" "ctx2 sys_zero = context_zero"
    "pipe_launcher sys_zero = 0"
  by (simp_all add: sys_zero_def thread_zero_def win_zero_def thread_state.defs sys_state.defs win_state.defs)

lemma sys_boot:
  obtains s q where "thread_setup no_disk (replicate 512 0) sys_zero = Some (0, s)" "thread_inv [q] s" "heap_room 20000 (fmm s)" "next_pid s = 1"
    "pipe_launcher s = 0" "t_tail (thr s q) = 0" "runs_here (thr s q)" "current_thread s = q" "current_thread2 s = q"
proof -
  have r: "heap_room (17 + 20000) (fmm sys_zero)" unfolding sys_zero_fields by (rule boot_zero(2))
  have f: "length (c_fxsave (ctx sys_zero)) = 512" "length (c_fxsave (ctx2 sys_zero)) = 512" unfolding sys_zero_fields by (rule boot_zero(3))+
  have "length (replicate 512 (0::u8)) = 512" by simp
  then obtain s q t where "thread_setup no_disk (replicate 512 0) sys_zero = Some (0, s)" "thread_inv [q] s" "threads s = [q \<mapsto> t]" "heap_room 20000 (fmm s)"
    "next_pid s = 1" "pipe_launcher s = pipe_launcher sys_zero" "t_tail t = 0" "t_prv t = 0" "t_status t = 0" "current_thread s = q"
    by (rule thread_setup_ok [OF r _ sys_zero_fields(2) f])
  then show ?thesis using that sys_zero_fields(5) by (simp add: thr_def runs_here_def thread_inv_def)
qed


end
