(* ===== verification/Waiting.thy ===== *)
theory Waiting
  imports Sysprops
begin

text \<open>
  A father that waits for its child: \<^verbatim>\<open>create_thread_child\<close>, the system calls \<^verbatim>\<open>wait_state\<close> and \<^verbatim>\<open>wait\<close>, and \<^verbatim>\<open>exit\<close> of
  the child, which wakes the father.
\<close>

section \<open>The end of a child\<close>

text \<open>A child shares the streams of its father: it owns only its own pages, its table and the blocks in it.\<close>

definition child_blocks :: "u64 \<Rightarrow> THREAD \<Rightarrow> u64 list \<Rightarrow> u64 list" where
  "child_blocks c t ps = c # t_pool t # filter (\<lambda>p. p \<noteq> 0) ps"

definition ward :: "'a thread_state_scheme \<Rightarrow> u64 \<Rightarrow> u64 \<Rightarrow> THREAD \<Rightarrow> u64 list \<Rightarrow> bool" where
  "ward s f c t ps \<longleftrightarrow> threads s c = Some t \<and> t_tail t = 0 \<and> t_head t = f \<and> t_frame_size t = 0 \<and> t_pml4e_addr t = 0 \<and> t_pdpte_addr t = 0 \<and>
     t_pde_addr t = 0 \<and> t_pte_addr t = 0 \<and> t_prv t AND 0x10 = 0 \<and> t_prv t AND 0x20 = 0 \<and>
     (\<exists>m. pools s (t_pool t) = Some m \<and> map pool_ptr (take 512 m) = ps) \<and>
     distinct (child_blocks c t ps) \<and> 0 \<notin> set (child_blocks c t ps) \<and> set (child_blocks c t ps) \<subseteq> live_blocks (fmm s)"

lemma release_child_ok:
  assumes w: "ward s f c t ps" and room: "heap_room 0 (fmm s)"
  obtains s' where "release_thread c s = Some s'" "gave_back s (insert 0 (set (child_blocks c t ps) - {c})) s'"
proof -
  obtain s1 s2 s3 s4 where f4: "free_obj 0 s = Some s1" "free_obj 0 s1 = Some s2" "free_obj 0 s2 = Some s3" "free_obj 0 s3 = Some s4"
    and g4: "gave_back s {0} s4" by (rule free_tables_ok [OF room])
  obtain m where m: "pools s (t_pool t) = Some m" "map pool_ptr (take 512 m) = ps" and tc: "threads s c = Some t" using w by (auto simp: ward_def)
  have d: "c \<noteq> 0" "t_pool t \<noteq> 0" "t_pool t \<notin> set ps - {0}" "distinct (filter (\<lambda>p. p \<noteq> 0) ps)" "c \<noteq> t_pool t" "c \<notin> set ps - {0}"
    "set ps - {0} \<subseteq> live_blocks (fmm s)" "t_pool t \<in> live_blocks (fmm s)"
    using w by (auto simp: ward_def child_blocks_def)
  have t4: "threads s4 c = Some t" "pools s4 (t_pool t) = Some m" using g4 d(1,2) tc m(1) by (auto simp: gave_back_def)
  have l4: "set ps - {0} \<subseteq> live_blocks (fmm s4)" "t_pool t \<in> live_blocks (fmm s4)" using live_gave_back [OF g4] d by auto
  obtain s5 where s5: "user_free c s4 = Some s5" "gave_back s4 (insert (t_pool t) (set ps - {0})) s5"
    by (rule user_free_ok [OF t4 m(2) conjunct2 [OF live_gave_back [OF g4]] l4(1) d(4) l4(2) d(3)])
  have "release_thread c s = Some s5" using w f4 s5(1) by (simp add: release_thread_def ward_def free_frames_of_def)
  moreover have "{0} \<union> insert (t_pool t) (set ps - {0}) = insert 0 (set (child_blocks c t ps) - {c})"
    using d(5,6) by (auto simp: child_blocks_def)
  ultimately show ?thesis using that gave_back_trans [OF g4 s5(2)] by simp
qed

text \<open>Taking a child out of the queue wakes its father.\<close>

definition woken :: "THREAD \<Rightarrow> THREAD" where
  "woken t = t\<lparr>t_status := t_status t AND NOT 2, t_tail := 0\<rparr>"

lemma unlink_child:
  assumes inv: "thread_inv (qs @ c # rs) s" and qs: "qs \<noteq> []" and tc: "threads s c = Some t" "t_tail t = 0" "t_head t = f" and f: "f \<in> set (qs @ rs)"
    and room: "heap_room 0 (fmm s)"
  obtains s' where "unlink_all c s = Some s'" "tcore s' = tcore s" "live_blocks (fmm s') = live_blocks (fmm s) - {c}" "heap_room 0 (fmm s')"
    "threads s' = ((threads s)(f \<mapsto> woken (thr s f)))(c := None, last qs \<mapsto> (the (((threads s)(f \<mapsto> woken (thr s f))) (last qs)))\<lparr>t_next := t_next t\<rparr>)"
proof -
  let ?l = "last qs"
  have c: "chain t_next (threads s) (thread_ready_queue s) (qs @ c # rs)" and cl: "c \<in> live_blocks (fmm s)" using inv by (simp_all add: thread_inv_def)
  have l: "?l \<in> set qs" "?l \<noteq> c" "c \<noteq> 0" "?l \<noteq> 0" "f \<noteq> c" "f \<noteq> 0" using qs chain_distinct [OF c] chain_nodes [OF c] f by auto
  obtain tl where tl: "threads s ?l = Some tl" using chain_nodes [OF c, of ?l] l(1) by auto
  obtain tf where tf: "threads s f = Some tf" using thread_inv_node [OF inv, of f] f by auto
  have fd: "find_node t_next (\<lambda>t. t_next t = c) (threads s) (thread_ready_queue s) = Some ?l"
    using find_node_chain [OF c, of "\<lambda>t. t_next t = c"] find_pred_chain [OF c qs] by simp
  define h where "h = (threads s)(?l \<mapsto> tl\<lparr>t_next := t_next t\<rparr>)"
  define s1 where "s1 = s\<lparr>threads := h(f \<mapsto> woken (the (h f)))\<rparr>"
  have u: "unlink_thread c s = Some s1"
    using fd tl tf tc l by (cases "f = ?l") (simp_all add: unlink_thread_def upd_thread_def s1_def h_def woken_def)
  have "heap_room 0 (fmm s1)" "c \<in> live_blocks (fmm s1) \<or> c = 0" using room cl by (simp_all add: s1_def)
  from free_obj_ok [OF this] obtain s2 where s2: "free_obj c s1 = Some s2" "gave_back s1 {c} s2" "threads s2 c = None" by blast
  have "threads s1 c = Some t" using tc(1) l by (simp add: s1_def h_def)
  then have un: "unlink_all c s = Some s2" using u s2(1) l(3) tc(2) by (simp add: unlink_all.simps [of c] unlink_all.simps [of 0])
  have th: "threads s2 = ((threads s)(f \<mapsto> woken (thr s f)))(c := None, ?l \<mapsto> (the (((threads s)(f \<mapsto> woken (thr s f))) ?l))\<lparr>t_next := t_next t\<rparr>)"
  proof
    fix x
    show "threads s2 x = (((threads s)(f \<mapsto> woken (thr s f)))(c := None, ?l \<mapsto> (the (((threads s)(f \<mapsto> woken (thr s f))) ?l))\<lparr>t_next := t_next t\<rparr>)) x"
    proof (cases "x = c")
      case True
      then show ?thesis using s2(3) l(2) by simp
    next
      case False
      then have "threads s2 x = threads s1 x" using s2(2) by (simp add: gave_back_def)
      then show ?thesis using False tl tf by (auto simp: s1_def h_def thr_def woken_def)
    qed
  qed
  show ?thesis by (rule that [OF un _ _ _ th]) (use s2(2) in \<open>simp_all add: gave_back_def s1_def tcore_def\<close>)
qed

lemma find_father:
  assumes "chain t_next h q (qs @ c # rs)" and "f \<in> set (qs @ rs)" and "f \<noteq> 0" and "\<forall>x \<in> set (qs @ c # rs). t_tail (the (h x)) = c \<longleftrightarrow> x = f"
  shows "find_node t_next (\<lambda>t. t_tail t = c) h q = Some f"
proof -
  have "find (\<lambda>x. t_tail (the (h x)) = c) (qs @ c # rs) = Some f"
  proof (cases "find (\<lambda>x. t_tail (the (h x)) = c) (qs @ c # rs)")
    case None
    then show ?thesis using assms(2,4) by (auto simp: find_None_iff)
  next
    case (Some y)
    then have "y \<in> set (qs @ c # rs)" "t_tail (the (h y)) = c" by (auto dest: find_mem)
    then have "y = f" using assms(4) by blast
    with Some show ?thesis by simp
  qed
  then show ?thesis using find_node_chain [OF assms(1), of "\<lambda>t. t_tail t = c"] by simp
qed

text \<open>The threads after the release of a child are those from before, the child marked as ended.\<close>

lemma release_child_threads:
  assumes "gave_back u A s'" and "A \<inter> dom (threads u) = {}"
  shows "threads s' = threads u"
proof
  fix x
  show "threads s' x = threads u x"
  proof (cases "x \<in> A")
    case True
    then have "threads u x = None" using assms(2) by auto
    then show ?thesis using assms(1) by (auto simp: gave_back_def map_le_def dom_def)
  qed (use assms(1) in \<open>simp add: gave_back_def\<close>)
qed

lemma thread_inv_transfer:
  assumes "thread_inv qs s" and "threads s' = threads s" and "tcore s' = tcore s" and "set qs \<subseteq> live_blocks (fmm s')"
  shows "thread_inv qs s'"
  using assms by (simp add: thread_inv_def tcore_def thr_def)

lemma exit_child_ok:
  assumes inv: "thread_inv (qs @ c # rs) s" and qs: "qs \<noteq> []" and w: "ward s f c t ps" and f: "f \<in> set (qs @ rs)"
    and tl: "\<forall>x \<in> set (qs @ rs). t_tail (thr s x) = c \<longleftrightarrow> x = f" and room: "heap_room 0 (fmm s)"
    and pipe: "pipe s (t_pipe t) n i j b" "i < 512" and cur: "current_thread s \<in> set (qs @ rs)" "current_thread2 s \<in> set (qs @ rs)"
    and dj: "set (child_blocks c t ps) \<inter> set (qs @ rs) = {}"
  obtains s' where "exit c s = Some s'" "thread_inv (qs @ rs) s'" "live_blocks (fmm s') = live_blocks (fmm s) - set (child_blocks c t ps)"
    "\<forall>x \<in> set (qs @ rs). (thr s' x)\<lparr>t_next := 0\<rparr> = (if x = f then woken (thr s f) else thr s x)\<lparr>t_next := 0\<rparr>" "tcore s' = tcore s"
proof -
  let ?A = "insert 0 (set (child_blocks c t ps) - {c})"
  have tc: "threads s c = Some t" "t_tail t = 0" "t_head t = f" "t_prv t AND 0x20 = 0" "c \<in> live_blocks (fmm s)" using w by (simp_all add: ward_def child_blocks_def)
  have c0: "c \<noteq> 0" "f \<noteq> c" "f \<noteq> 0" using inv f thread_inv_node [OF inv, of c] thread_inv_node [OF inv, of f] by (auto simp: thread_inv_def dest: chain_distinct)
  obtain tf where tf: "threads s f = Some tf" "thr s f = tf" using thread_inv_node [OF inv, of f] f by (auto simp: thr_def)
  define t1 where "t1 = t\<lparr>t_status := t_status t OR 1\<rparr>"
  obtain u1 u2 where b: "mark_zumbi c s = Some u1" "threads u1 c = Some t1" "pipe_write (exit_message 0) (t_pipe t) u1 = Some (16, u2)"
    and f2: "threads u2 = (threads s)(c \<mapsto> t1)" "fmm u2 = fmm s" "pools u2 = pools s" "tcore u2 = tcore s"
    unfolding t1_def by (rule exit_begin [OF tc(1) c0(1) tc(2) pipe])
  have cb: "child_blocks c t1 ps = child_blocks c t ps" by (simp add: child_blocks_def t1_def)
  have w2: "ward u2 f c t1 ps" using w unfolding ward_def cb f2 by (simp add: t1_def)
  have r2: "heap_room 0 (fmm u2)" using room f2(2) by simp
  obtain u3 where u3: "release_thread c u2 = Some u3" "gave_back u2 ?A u3" by (rule release_child_ok [OF w2 r2, unfolded cb])
  have dom: "dom (threads u2) = set (qs @ c # rs)" using inv by (auto simp: f2(1) thread_inv_def)
  have zq: "0 \<notin> set (qs @ c # rs)" using thread_inv_node [OF inv] by blast
  have "?A \<inter> dom (threads u2) = {}" unfolding dom using dj zq by auto
  then have th3: "threads u3 = (threads s)(c \<mapsto> t1)" using release_child_threads [OF u3(2)] by (simp add: f2(1))
  have ra: "release_all c u2 = Some u3" using u3(1) tc(2) c0 by (simp add: release_all.simps [of c] release_all.simps [of 0] th3 t1_def)
  define h where "h = (threads s)(c \<mapsto> t1, f \<mapsto> tf\<lparr>t_tail := 0\<rparr>)"
  define u4 where "u4 = u3\<lparr>mult_task := 0\<rparr>"
  define u5 where "u5 = u4\<lparr>threads := h\<rparr>"
  have f4: "tcore u4 = tcore s" "live_blocks (fmm u4) = live_blocks (fmm s) - ?A" "heap_room 0 (fmm u4)" "threads u4 = (threads s)(c \<mapsto> t1)"
    using u3(2) f2(2,4) by (simp_all add: u4_def gave_back_def tcore_def th3)
  have f5: "tcore u5 = tcore s" "fmm u5 = fmm u4" "threads u5 = h" using f4(1) by (simp_all add: u5_def tcore_def)
  have inv1: "thread_inv (qs @ c # rs) (s\<lparr>threads := (threads s)(c \<mapsto> t1)\<rparr>)"
    by (rule thread_inv_upd [OF inv]) (use tc(1) inv in \<open>auto simp: t1_def thr_def thread_inv_def\<close>)
  have sub4: "set (qs @ c # rs) \<subseteq> live_blocks (fmm u4)" using inv dj zq tc(5) unfolding f4(2) by (auto simp: thread_inv_def)
  have inv4: "thread_inv (qs @ c # rs) u4"
    by (rule thread_inv_transfer [OF inv1 _ _ sub4]) (use f4 in \<open>simp_all add: tcore_def\<close>)
  have tf4: "thr u4 f = tf" using tf c0 by (simp add: thr_def f4(4))
  have inv5: "thread_inv (qs @ c # rs) u5"
  proof -
    have "thread_inv (qs @ c # rs) (u4\<lparr>threads := (threads u4)(f \<mapsto> tf\<lparr>t_tail := 0\<rparr>)\<rparr>)"
      by (rule thread_inv_upd [OF inv4]) (use f tf4 inv4 in \<open>auto simp: thread_inv_def\<close>)
    then show ?thesis by (simp add: u5_def h_def f4(4))
  qed
  have "\<forall>x \<in> set (qs @ c # rs). t_tail (the (threads u4 x)) = c \<longleftrightarrow> x = f"
    using tl tc(2) c0 by (auto simp: f4(4) t1_def thr_def)
  then have ff: "find_node t_next (\<lambda>t. t_tail t = c) (threads u4) (thread_ready_queue u4) = Some f"
    by (intro find_father [OF _ f c0(3)]) (use inv4 in \<open>simp add: thread_inv_def\<close>)
  have h5: "threads u5 c = Some t1" "thr u5 f = tf\<lparr>t_tail := 0\<rparr>" "t_tail t1 = 0" "t_head t1 = f" "heap_room 0 (fmm u5)"
    using c0 tc f4(3) f5(2) by (simp_all add: f5(3) h_def thr_def t1_def)
  define wk where "wk = u5\<lparr>threads := h(f \<mapsto> woken (thr u5 f))\<rparr>"
  obtain u6 where u6: "unlink_all c u5 = Some u6" "tcore u6 = tcore u5" "live_blocks (fmm u6) = live_blocks (fmm u5) - {c}"
    "threads u6 = (threads wk)(c := None, last qs \<mapsto> (thr wk (last qs))\<lparr>t_next := t_next t1\<rparr>)"
    by (rule unlink_child [OF inv5 qs h5(1,3,4) f h5(5)]) (simp add: wk_def f5(3))
  define s' where "s' = u6\<lparr>mult_task := 1\<rparr>"
  have upd: "upd_thread f (\<lambda>t. t\<lparr>t_tail := 0\<rparr>) u4 = Some u5" using tf c0 by (simp add: upd_thread_def u5_def h_def f4(4))
  have run: "exit c s = Some s'"
    using b ra ff upd u6(1) tc(4) th3 c0(3) by (simp add: exit_def u4_def [symmetric] s'_def t1_def Let_def)
  have live: "live_blocks (fmm s') = live_blocks (fmm s) - set (child_blocks c t ps)"
    using u6(3) f5(2) f4(2) zero_not_live by (auto simp: s'_def child_blocks_def)
  have invw: "thread_inv (qs @ c # rs) wk"
    unfolding wk_def f5(3) [symmetric] by (rule thread_inv_upd [OF inv5]) (use f inv5 in \<open>auto simp: woken_def thread_inv_def\<close>)
  have wc: "threads wk c = Some t1" using h5(1) c0 f5(3) by (simp add: wk_def)
  have ts': "threads s' = (threads wk)(c := None, last qs \<mapsto> (thr wk (last qs))\<lparr>t_next := t_next t1\<rparr>)" by (simp add: s'_def u6(4))
  have core: "tcore s' = tcore wk" "tcore s' = tcore s" using u6(2) f5(1) by (simp_all add: s'_def wk_def tcore_def)
  have sub: "set (qs @ rs) \<subseteq> live_blocks (fmm s')" unfolding live using inv dj by (auto simp: thread_inv_def)
  have curw: "current_thread wk \<in> set (qs @ rs)" "current_thread2 wk \<in> set (qs @ rs)" using cur core by (simp_all add: tcore_def)
  have "thread_inv (qs @ rs) s'" by (rule thread_inv_remove [OF invw qs wc ts' core(1) curw sub])
  moreover have "\<forall>x \<in> set (qs @ rs). (thr s' x)\<lparr>t_next := 0\<rparr> = (if x = f then woken (thr s f) else thr s x)\<lparr>t_next := 0\<rparr>"
  proof
    fix x assume "x \<in> set (qs @ rs)"
    then have "x \<noteq> c" using inv by (auto simp: thread_inv_def dest: chain_distinct)
    then have "(thr s' x)\<lparr>t_next := 0\<rparr> = (thr wk x)\<lparr>t_next := 0\<rparr>" by (simp add: thr_def ts')
    moreover have "thr wk x = (if x = f then woken (thr s f) else thr s x)"
      using \<open>x \<noteq> c\<close> by (simp add: wk_def h5(2)) (simp add: thr_def h_def woken_def tf(1))
    ultimately show "(thr s' x)\<lparr>t_next := 0\<rparr> = (if x = f then woken (thr s f) else thr s x)\<lparr>t_next := 0\<rparr>" by simp
  qed
  ultimately show ?thesis using that run live core(2) by blast
qed

section \<open>Timer interrupts\<close>

text \<open>Interrupts change nothing of a thread but its registers, and give the processor to a thread that may
  run, or to the first of the queue.\<close>

definition regs_of :: "THREAD \<Rightarrow> THREAD \<Rightarrow> bool" where
  "regs_of t t' \<longleftrightarrow> t' = t \<or> (\<exists>c. t' = save_context c t)"

lemma regs_save: "regs_of t t' \<Longrightarrow> regs_of t (save_context c t')"
  by (auto simp: regs_of_def save_context_def)

lemma regs_runs: "regs_of t t' \<Longrightarrow> runs_here t' = runs_here t"
  by (auto simp: regs_of_def)

lemma next_of_runs: "next_of P qs c = hd qs \<or> P (next_of P qs c)"
  by (auto simp: next_of_def dest: find_mem split: option.split)

lemma task_switch2_frame:
  assumes "task_switch2 s = Some s'"
  shows "s' = s\<lparr>threads := threads s', current_thread2 := current_thread2 s', first_thread2 := first_thread2 s', ctx2 := ctx2 s'\<rparr>"
    and "regs_of (thr s x) (thr s' x)"
proof -
  have "\<exists>h. (if first_thread2 s \<noteq> 0 then upd_thread (current_thread2 s) (save_context (ctx2 s)) s else Some s) = Some (s\<lparr>threads := h\<rparr>) \<and> regs_of (thr s x) (the (h x))"
  proof (cases "first_thread2 s = 0")
    case True
    then show ?thesis by (intro exI [of _ "threads s"]) (simp add: regs_of_def thr_def)
  next
    case False
    then obtain t where "threads s (current_thread2 s) = Some t"
      using assms by (auto simp: task_switch2_def Let_def upd_thread_def bind_eq_Some_conv)
    then show ?thesis using False
      by (intro exI [of _ "(threads s)(current_thread2 s \<mapsto> save_context (ctx2 s) t)"]) (auto simp: upd_thread_def regs_of_def thr_def)
  qed
  then obtain h where u: "(if first_thread2 s \<noteq> 0 then upd_thread (current_thread2 s) (save_context (ctx2 s)) s else Some s) = Some (s\<lparr>threads := h\<rparr>)"
    and rg: "regs_of (thr s x) (the (h x))" by blast
  have "s' = s\<lparr>threads := h\<rparr> \<or> (\<exists>a b c. s' = s\<lparr>threads := h, current_thread2 := a, first_thread2 := b, ctx2 := c\<rparr>)"
  proof -
    have r: "\<exists>c. s' = v\<lparr>ctx2 := c\<rparr>" if "restore2 p v = Some s'" for p v using that by (auto simp: restore2_def bind_eq_Some_conv)
    have "restore2 (current_thread2 s) (s\<lparr>threads := h\<rparr>) = Some s' \<or> s' = s\<lparr>threads := h\<rparr> \<or>
      (\<exists>p. restore2 p (s\<lparr>threads := h, current_thread2 := p, first_thread2 := 1\<rparr>) = Some s')"
      using assms unfolding task_switch2_def Let_def u by (auto simp: bind_eq_Some_conv split: if_splits)
    moreover have "s\<lparr>threads := h, ctx2 := c\<rparr> = s\<lparr>threads := h, current_thread2 := current_thread2 s, first_thread2 := first_thread2 s, ctx2 := c\<rparr>" for c by simp
    ultimately show ?thesis using r by (metis (no_types))
  qed
  then show "s' = s\<lparr>threads := threads s', current_thread2 := current_thread2 s', first_thread2 := first_thread2 s', ctx2 := ctx2 s'\<rparr>"
    and "regs_of (thr s x) (thr s' x)" using rg by (auto simp: thr_def)
qed

text \<open>A run of interrupts of both processors: \<open>True\<close> is one of the first processor, with what its program did to
  the registers since the last one.\<close>

fun turn :: "bool \<times> (cpu_context \<Rightarrow> cpu_context) \<Rightarrow> 'a thread_state_scheme \<Rightarrow> 'a thread_state_scheme option" where
  "turn (True, step) s = task_switch (s\<lparr>ctx := step (ctx s)\<rparr>)"
| "turn (False, step) s = task_switch2 (s\<lparr>ctx2 := step (ctx2 s)\<rparr>)"

fun turns :: "(bool \<times> (cpu_context \<Rightarrow> cpu_context)) list \<Rightarrow> 'a thread_state_scheme \<Rightarrow> 'a thread_state_scheme option" where
  "turns [] s = Some s"
| "turns (e # es) s = do { s \<leftarrow> turn e s; turns es s }"

definition turns_ok :: "(bool \<times> (cpu_context \<Rightarrow> cpu_context)) list \<Rightarrow> bool" where
  "turns_ok es \<longleftrightarrow> (\<forall>e \<in> set es. \<forall>c. length (c_fxsave c) = 512 \<longrightarrow> length (c_fxsave (snd e c)) = 512)"

definition turned :: "u64 list \<Rightarrow> 'a thread_state_scheme \<Rightarrow> 'a thread_state_scheme \<Rightarrow> bool" where
  "turned qs s s' \<longleftrightarrow> thread_inv qs s' \<and> (\<forall>x \<in> set qs. regs_of (thr s x) (thr s' x)) \<and>
     s' = s\<lparr>threads := threads s', current_thread := current_thread s', current_thread2 := current_thread2 s', first_thread2 := first_thread2 s', ctx := ctx s', ctx2 := ctx2 s'\<rparr> \<and>
     (current_thread2 s' = current_thread2 s \<or> runs_second (thr s (current_thread2 s')))"

lemma turn_first:
  assumes inv: "thread_inv qs s" and fx: "length (c_fxsave (step (ctx s))) = 512"
  shows "\<exists>s'. turn (True, step) s = Some s' \<and> turned qs s s' \<and> (current_thread s' = hd qs \<or> runs_here (thr s (current_thread s')))"
proof -
  define v where "v = s\<lparr>ctx := step (ctx s)\<rparr>"
  have iv: "thread_inv qs v" unfolding v_def using thread_inv_ctx [OF inv fx] by simp
  define ts where "ts = (threads v)(current_thread v \<mapsto> save_context (ctx v) (thr v (current_thread v)))"
  define n where "n = next_of (\<lambda>a. runs_here (thr v a)) qs (current_thread v)"
  define s' where "s' = v\<lparr>threads := ts, current_thread := n, ctx := load_context (the (ts n)) (ctx v)\<rparr>"
  have sw: "task_switch v = Some s'" "thread_inv qs s'" unfolding s'_def ts_def n_def by (rule task_switch_ok [OF iv])+
  have tv: "thr v x = thr s x" for x by (simp add: v_def thr_def)
  have "thr s' x = (if x = current_thread v then save_context (ctx v) (thr s x) else thr s x)" for x
    unfolding s'_def ts_def tv [symmetric] by (simp add: thr_def)
  then have "\<forall>x \<in> set qs. regs_of (thr s x) (thr s' x)" by (auto simp: regs_of_def)
  moreover have "n = hd qs \<or> runs_here (thr s n)"
    using next_of_runs [of "\<lambda>a. runs_here (thr v a)" qs "current_thread v"] unfolding n_def tv .
  moreover have "turn (True, step) s = Some s'" using sw(1) by (simp add: v_def)
  ultimately show ?thesis using sw(2) by (intro exI [of _ s']) (simp add: turned_def s'_def v_def)
qed

lemma turn_keeps2: "turn (True, step) s = Some s' \<Longrightarrow> current_thread2 s' = current_thread2 s"
  by (auto simp: task_switch_def upd_thread_def bind_eq_Some_conv Let_def)

lemma turn_second:
  assumes inv: "thread_inv qs s" and fx: "length (c_fxsave (step (ctx2 s))) = 512"
  shows "\<exists>s'. turn (False, step) s = Some s' \<and> turned qs s s' \<and> current_thread s' = current_thread s"
proof -
  define v where "v = s\<lparr>ctx2 := step (ctx2 s)\<rparr>"
  have iv: "thread_inv qs v" unfolding v_def using thread_inv_ctx [OF inv fx] by simp
  obtain s' where s': "task_switch2 v = Some s'" "thread_inv qs s'" "current_thread s' = current_thread v" "ctx s' = ctx v"
    "current_thread2 s' = current_thread2 v \<or> runs_second (thr v (current_thread2 s'))"
    using task_switch2_ok [OF iv] by (metis (no_types))
  have tv: "thr v x = thr s x" for x by (simp add: v_def thr_def)
  have "s' = s\<lparr>threads := threads s', current_thread := current_thread s', current_thread2 := current_thread2 s', first_thread2 := first_thread2 s', ctx := ctx s', ctx2 := ctx2 s'\<rparr>"
    by (subst task_switch2_frame(1) [OF s'(1)]) (simp add: v_def s'(3,4))
  moreover have "regs_of (thr s x) (thr s' x)" for x using task_switch2_frame(2) [OF s'(1), of x] by (simp add: tv)
  ultimately have "turned qs s s'" using s'(2,5) by (simp add: turned_def tv) (simp add: v_def)
  then show ?thesis using s'(1,3) by (simp add: v_def)
qed

lemma regs_runs2: "regs_of t t' \<Longrightarrow> runs_second t' = runs_second t"
  by (auto simp: regs_of_def)

lemma regs_trans: "regs_of a b \<Longrightarrow> regs_of b c \<Longrightarrow> regs_of a c"
  by (auto simp: regs_of_def save_context_def)

lemma turned_trans:
  assumes a: "turned qs s u" and b: "turned qs u v"
  shows "turned qs s v"
proof -
  have "current_thread2 v \<in> set qs" using b by (simp add: turned_def thread_inv_def)
  then have "runs_second (thr u (current_thread2 v)) = runs_second (thr s (current_thread2 v))" using a regs_runs2 by (metis turned_def)
  then have "current_thread2 v = current_thread2 s \<or> runs_second (thr s (current_thread2 v))" using a b by (auto simp: turned_def)
  moreover have "v = s\<lparr>threads := threads v, current_thread := current_thread v, current_thread2 := current_thread2 v, first_thread2 := first_thread2 v, ctx := ctx v, ctx2 := ctx2 v\<rparr>"
  proof -
    have u: "u = s\<lparr>threads := threads u, current_thread := current_thread u, current_thread2 := current_thread2 u, first_thread2 := first_thread2 u, ctx := ctx u, ctx2 := ctx2 u\<rparr>"
      using a by (simp add: turned_def)
    have "v = u\<lparr>threads := threads v, current_thread := current_thread v, current_thread2 := current_thread2 v, first_thread2 := first_thread2 v, ctx := ctx v, ctx2 := ctx2 v\<rparr>"
      using b by (simp add: turned_def)
    then show ?thesis by (subst (asm) u) simp
  qed
  ultimately show ?thesis using a b regs_trans unfolding turned_def by blast
qed

lemma turns_keep:
  assumes "turns_ok es" and "thread_inv qs s"
  shows "\<exists>s'. turns es s = Some s' \<and> turned qs s s' \<and>
    (if \<exists>e \<in> set es. fst e then current_thread s' = hd qs \<or> runs_here (thr s (current_thread s')) else current_thread s' = current_thread s)"
  using assms
proof (induction es arbitrary: s)
  case Nil
  then show ?case by (simp add: turned_def regs_of_def)
next
  case (Cons e es)
  obtain b step where e: "e = (b, step)" by (cases e)
  have fx: "length (c_fxsave (step (ctx s))) = 512" "length (c_fxsave (step (ctx2 s))) = 512"
    using Cons.prems by (simp_all add: turns_ok_def thread_inv_def e)
  obtain u where u: "turn e s = Some u" "turned qs s u" "if b then current_thread u = hd qs \<or> runs_here (thr s (current_thread u)) else current_thread u = current_thread s"
    using turn_first [where step = step, OF Cons.prems(2) fx(1)] turn_second [where step = step, OF Cons.prems(2) fx(2)] by (cases b) (auto simp: e)
  have iu: "thread_inv qs u" using u(2) by (simp add: turned_def)
  have "turns_ok es" using Cons.prems(1) by (simp add: turns_ok_def)
  then obtain v where v: "turns es u = Some v" "turned qs u v"
    "if \<exists>e \<in> set es. fst e then current_thread v = hd qs \<or> runs_here (thr u (current_thread v)) else current_thread v = current_thread u"
    using Cons.IH iu by blast
  have "current_thread v \<in> set qs" using v(2) by (simp add: turned_def thread_inv_def)
  then have "runs_here (thr u (current_thread v)) = runs_here (thr s (current_thread v))" using u(2) regs_runs by (metis turned_def)
  then have "if \<exists>e \<in> set (e # es). fst e then current_thread v = hd qs \<or> runs_here (thr s (current_thread v)) else current_thread v = current_thread s"
    using u(3) v(3) by (auto simp: e split: if_splits)
  then show ?case using u(1) v(1) turned_trans [OF u(2) v(2)] by auto
qed

section \<open>Waiting\<close>

text \<open>The father \<open>f\<close>, which ran before, waits for the child \<open>c\<close> with number \<open>pid\<close>; \<open>L\<close> are the blocks that are not
  the child's.\<close>

definition waiting :: "u64 list \<Rightarrow> u64 set \<Rightarrow> u64 \<Rightarrow> u64 \<Rightarrow> u64 \<Rightarrow> 'a thread_state_scheme \<Rightarrow> bool" where
  "waiting qs L f c pid s \<longleftrightarrow> thread_inv (qs @ [c]) s \<and> f \<in> set qs \<and> (\<forall>x \<in> set qs. t_tail (thr s x) = c \<longleftrightarrow> x = f) \<and> heap_room 0 (fmm s) \<and>
     t_wait_pid (thr s f) = pid \<and> t_status (thr s f) AND 2 \<noteq> 0 \<and> t_status (thr s f) AND 1 = 0 \<and> t_prv (thr s f) AND 0x80 = 0 \<and>
     f \<noteq> hd qs \<and> runs_here (thr s (hd qs)) \<and> current_thread2 s \<noteq> f \<and> set qs \<subseteq> L \<and>
     (\<exists>t ps n i j b. ward s f c t ps \<and> pipe s (t_pipe t) n i j b \<and> i < 512 \<and>
        live_blocks (fmm s) = L \<union> set (child_blocks c t ps) \<and> L \<inter> set (child_blocks c t ps) = {})"

lemma waiting_turns:
  assumes w: "waiting qs L f c pid s" and es: "turns_ok es"
  shows "\<exists>s'. turns es s = Some s' \<and> waiting qs L f c pid s' \<and>
    (if \<exists>e \<in> set es. fst e then current_thread s' \<noteq> f \<and> runs_here (thr s' (current_thread s')) else current_thread s' = current_thread s)"
proof -
  have inv: "thread_inv (qs @ [c]) s" and fq: "f \<in> set qs" using w by (simp_all add: waiting_def)
  have hq: "hd (qs @ [c]) = hd qs" "hd qs \<in> set qs" using fq by (cases qs; simp)+
  obtain s' where s': "turns es s = Some s'" "turned (qs @ [c]) s s'"
    and n: "if \<exists>e \<in> set es. fst e then current_thread s' = hd (qs @ [c]) \<or> runs_here (thr s (current_thread s')) else current_thread s' = current_thread s"
    using turns_keep [OF es inv] by blast
  have inv': "thread_inv (qs @ [c]) s'" and r: "\<forall>x \<in> set (qs @ [c]). regs_of (thr s x) (thr s' x)"
    and c2: "current_thread2 s' = current_thread2 s \<or> runs_second (thr s (current_thread2 s'))"
    and fr: "s' = s\<lparr>threads := threads s', current_thread := current_thread s', current_thread2 := current_thread2 s', first_thread2 := first_thread2 s', ctx := ctx s', ctx2 := ctx2 s'\<rparr>"
    using s'(2) unfolding turned_def by blast+
  obtain t ps n i j b where t: "ward s f c t ps" "pipe s (t_pipe t) n i j b" "i < 512" "live_blocks (fmm s) = L \<union> set (child_blocks c t ps)"
    "L \<inter> set (child_blocks c t ps) = {}" using w by (auto simp: waiting_def)
  have e: "fmm s' = fmm s" "pools s' = pools s" "files s' = files s" "bufs s' = bufs s" by (subst fr, simp)+
  have keep: "t_tail (thr s' x) = t_tail (thr s x)" "t_wait_pid (thr s' x) = t_wait_pid (thr s x)" "t_status (thr s' x) = t_status (thr s x)"
    "t_prv (thr s' x) = t_prv (thr s x)" "runs_here (thr s' x) = runs_here (thr s x)"
    if "x \<in> set (qs @ [c])" for x
    using r that by (auto simp: regs_of_def save_context_def runs_here_def)
  define t' where "t' = thr s' c"
  have rt: "regs_of t t'" using r t(1) by (simp add: t'_def ward_def thr_def)
  then have f: "t_pool t' = t_pool t" "t_pipe t' = t_pipe t" "t_tail t' = t_tail t" "t_head t' = t_head t" "t_frame_size t' = t_frame_size t"
    "t_pml4e_addr t' = t_pml4e_addr t" "t_pdpte_addr t' = t_pdpte_addr t" "t_pde_addr t' = t_pde_addr t" "t_pte_addr t' = t_pte_addr t" "t_prv t' = t_prv t"
    by (auto simp: regs_of_def save_context_def)
  have "threads s' c = Some t'" using thread_inv_node [OF inv', of c] by (simp add: t'_def)
  then have "ward s' f c t' ps" using t(1) by (auto simp: ward_def child_blocks_def f e)
  moreover have "pipe s' (t_pipe t') n i j b" using t(2) by (simp add: pipe_def f e)
  moreover have "child_blocks c t' ps = child_blocks c t ps" by (simp add: child_blocks_def f)
  ultimately have "\<exists>t ps n i j b. ward s' f c t ps \<and> pipe s' (t_pipe t) n i j b \<and> i < 512 \<and>
        live_blocks (fmm s') = L \<union> set (child_blocks c t ps) \<and> L \<inter> set (child_blocks c t ps) = {}" using t(3-5) e(1) by metis
  moreover have "\<not> runs_second (thr s f)" using w by (auto simp: waiting_def runs_second_def)
  then have "current_thread2 s' \<noteq> f" using c2 w by (auto simp: waiting_def)
  ultimately have wt: "waiting qs L f c pid s'" using w inv' keep fq hq(2) e by (simp add: waiting_def)
  have "\<not> runs_here (thr s f)" using w by (auto simp: waiting_def runs_here_def)
  moreover have "current_thread s' \<in> set (qs @ [c])" using inv' by (simp add: thread_inv_def)
  then have "runs_here (thr s' (current_thread s')) = runs_here (thr s (current_thread s'))" by (rule keep(5))
  moreover have "runs_here (thr s (hd qs))" "f \<noteq> hd qs" using w by (simp_all add: waiting_def)
  ultimately have "if \<exists>e \<in> set es. fst e then current_thread s' \<noteq> f \<and> runs_here (thr s' (current_thread s')) else current_thread s' = current_thread s"
    using n unfolding hq(1) by (auto split: if_splits)
  then show ?thesis using s'(1) wt by blast
qed

lemma waiting_exit:
  assumes w: "waiting qs L f c pid s" and cur: "current_thread s \<noteq> c" "current_thread2 s \<noteq> c"
  shows "\<exists>s'. exit c s = Some s' \<and> thread_inv qs s' \<and> live_blocks (fmm s') = L \<and> current_thread s' = current_thread s \<and>
    t_tail (thr s' f) = 0 \<and> t_wait_pid (thr s' f) = pid \<and> t_status (thr s' f) AND 2 = 0 \<and>
    (\<forall>x \<in> set qs. runs_here (thr s' x) \<longleftrightarrow> x = f \<or> runs_here (thr s x))"
proof -
  obtain t ps n i j b where t: "ward s f c t ps" "pipe s (t_pipe t) n i j b" "i < 512" "live_blocks (fmm s) = L \<union> set (child_blocks c t ps)"
    "L \<inter> set (child_blocks c t ps) = {}" using w by (auto simp: waiting_def)
  have q: "thread_inv (qs @ c # []) s" "qs \<noteq> []" "f \<in> set (qs @ [])" "\<forall>x \<in> set (qs @ []). t_tail (thr s x) = c \<longleftrightarrow> x = f" "heap_room 0 (fmm s)"
    "current_thread s \<in> set (qs @ [])" "current_thread2 s \<in> set (qs @ [])" "set (child_blocks c t ps) \<inter> set (qs @ []) = {}"
    using w cur t(5) by (auto simp: waiting_def thread_inv_def)
  obtain s' where s': "exit c s = Some s'" "thread_inv (qs @ []) s'" "live_blocks (fmm s') = live_blocks (fmm s) - set (child_blocks c t ps)"
    "\<forall>x \<in> set (qs @ []). (thr s' x)\<lparr>t_next := 0\<rparr> = (if x = f then woken (thr s f) else thr s x)\<lparr>t_next := 0\<rparr>" "tcore s' = tcore s"
    by (rule exit_child_ok [OF q(1,2) t(1) q(3-5) t(2,3) q(6-8)])
  have th: "(thr s' f)\<lparr>t_next := 0\<rparr> = (woken (thr s f))\<lparr>t_next := 0\<rparr>" using s'(4) q(3) by auto
  from arg_cong [OF this, of t_status] arg_cong [OF this, of t_tail] arg_cong [OF this, of t_wait_pid] arg_cong [OF this, of t_prv]
  have f: "t_status (thr s' f) = t_status (thr s f) AND NOT 2" "t_tail (thr s' f) = 0" "t_wait_pid (thr s' f) = pid" "t_prv (thr s' f) = t_prv (thr s f)"
    using w by (simp_all add: woken_def waiting_def)
  have "t_status (thr s f) AND NOT 2 AND 1 = t_status (thr s f) AND 1" by (simp add: and.assoc)
  then have fr: "t_status (thr s' f) AND 2 = 0" "runs_here (thr s' f)" using w f by (simp_all add: runs_here_def waiting_def and.assoc)
  have "runs_here (thr s' x) = runs_here (thr s x)" if "x \<in> set qs" "x \<noteq> f" for x
  proof -
    have "(thr s' x)\<lparr>t_next := 0\<rparr> = (thr s x)\<lparr>t_next := 0\<rparr>" using s'(4) that by auto
    from arg_cong [OF this, of t_status] arg_cong [OF this, of t_prv] show ?thesis by (simp add: runs_here_def)
  qed
  then have "\<forall>x \<in> set qs. runs_here (thr s' x) \<longleftrightarrow> x = f \<or> runs_here (thr s x)" using fr(2) by auto
  moreover have "live_blocks (fmm s') = L" using s'(3) t(4,5) by auto
  moreover have "current_thread s' = current_thread s" using s'(5) by (simp add: tcore_def)
  ultimately show ?thesis using s'(1,2) f fr(1) by auto
qed

text \<open>A thread that may run gets the processor within one round.\<close>

lemma eventually_runs:
  assumes inv: "thread_inv qs s" and f: "f \<in> set qs" "runs_here (thr s f)" and hd: "runs_here (thr s (hd qs))" and cur: "runs_here (thr s (current_thread s))"
    and step: "\<forall>k c. length (c_fxsave c) = 512 \<longrightarrow> length (c_fxsave (step k c)) = 512"
  shows "\<exists>j < length qs. \<exists>s'. ticks step j s = Some s' \<and> thread_inv qs s' \<and> current_thread s' = f \<and> thr s' f = thr s f"
proof -
  define R where "R = filter (\<lambda>a. runs_here (thr s a)) qs"
  have "current_thread s \<in> set R" "f \<in> set R" using cur inv f by (simp_all add: R_def thread_inv_def)
  then obtain i m where i: "i < length R" "current_thread s = R ! i" and m: "m < length R" "f = R ! m" by (metis in_set_conv_nth)
  define j where "j = (if i \<le> m then m - i else length R + m - i)"
  have j: "j < length R" "(i + j) mod length R = m" using i(1) m(1) by (auto simp: j_def)
  obtain s' where s': "ticks step j s = Some s'" "in_round step qs R i j s s'"
    using round_ticks [OF inv R_def hd i step] j(1) by (metis less_imp_le)
  have "thread_inv qs s'" "current_thread s' = f" "thr s' f = thr s f" using s'(2) j m(2) unfolding in_round_def by auto
  moreover have "j < length qs" using j(1) by (simp add: R_def) (metis length_filter_le order_less_le_trans)
  ultimately show ?thesis using s'(1) by blast
qed

text \<open>What \<^verbatim>\<open>create_thread_child\<close> and \<^verbatim>\<open>wait_state\<close> lead to.\<close>

lemma child_waiting:
  fixes s :: "'a sys_state_scheme"
  assumes inv: "thread_inv qs s" and room: "heap_room 4 (fmm s)" and pid: "next_pid s \<noteq> - 1" and sse: "length sse = 512"
    and tails: "\<forall>x \<in> set qs. t_tail (thr s x) \<in> insert 0 (set qs)"
    and pipe: "pipe s (t_pipe (thr s (current_thread s))) n i j b" "i < 512"
    and runs: "runs_here (thr s (current_thread s))" "runs_here (thr s (hd qs))" "current_thread s \<noteq> hd qs" "current_thread2 s \<noteq> current_thread s"
  shows "\<exists>c s1 s2. create_thread_child sse main rsp cr3 rbx pv argc argv pwd (current_thread s) s = Some (c, s1) \<and> syscall_wait_state a s1 = Some s2 \<and>
     waiting qs (live_blocks (fmm s)) (current_thread s) c (next_pid s) s2 \<and> current_thread2 s2 = current_thread2 s"
proof -
  let ?f = "current_thread s"
  have fq: "?f \<in> set qs" and qL: "set qs \<subseteq> live_blocks (fmm s)" using inv by (simp_all add: thread_inv_def)
  have r: "heap_room (4 + 0) (fmm s)" using room by simp
  obtain c s1 t where c: "create_thread_child sse main rsp cr3 rbx pv argc argv pwd ?f s = Some (c, s1)" "thread_inv (qs @ [c]) s1" "c \<notin> live_blocks (fmm s)"
    "threads s1 c = Some t" "fresh_thread (next_pid s) sse main rsp pv t" "child_of ?f (thr s ?f) t"
    "\<forall>x \<in> set qs. x \<noteq> ?f \<longrightarrow> (thr s1 x)\<lparr>t_next := 0\<rparr> = (thr s x)\<lparr>t_next := 0\<rparr>" "heap_room 0 (fmm s1)"
    "(thr s1 ?f)\<lparr>t_next := 0\<rparr> = (thr s ?f)\<lparr>t_wait_pid := next_pid s, t_tail := c, t_next := 0\<rparr>" "t_prv t AND 0x30 = 0"
    "live_blocks (fmm s1) = live_blocks (fmm s) \<union> {c, t_pool t}" "t_pool t \<noteq> 0" "t_pool t \<notin> insert c (live_blocks (fmm s))"
    "pools s1 = (pools s)(t_pool t \<mapsto> replicate 512 pool_zero)" "s1 = s\<lparr>fmm := fmm s1, threads := threads s1, pools := pools s1, next_pid := next_pid s + 1\<rparr>"
    by (rule create_child_ok [OF inv fq r pid sse, of "create_thread_child sse main rsp cr3 rbx pv argc argv pwd ?f", OF disjI1]) auto
  have c0: "c \<noteq> 0" "?f \<noteq> c" using thread_inv_node [OF c(2), of c] fq qL c(3) by auto
  have e: "current_thread s1 = ?f" "current_thread2 s1 = current_thread2 s" "files s1 = files s" "bufs s1 = bufs s" by (subst c(15), simp)+
  have tf: "t_tail (thr s1 ?f) = c" "t_wait_pid (thr s1 ?f) = next_pid s"
    using arg_cong [OF c(9), of t_tail] arg_cong [OF c(9), of t_wait_pid] by simp_all
  have tx: "t_tail (thr s1 x) = t_tail (thr s x)" if "x \<in> set qs" "x \<noteq> ?f" for x
    using arg_cong [of _ _ t_tail, OF bspec [OF c(7) that(1), THEN mp, OF that(2)]] by simp
  define tf' where "tf' = (thr s1 ?f)\<lparr>t_status := t_status (thr s1 ?f) OR 2\<rparr>"
  define s2 where "s2 = s1\<lparr>threads := (threads s1)(?f \<mapsto> tf')\<rparr>"
  have n1: "threads s1 ?f = Some (thr s1 ?f)" using thread_inv_node [OF c(2), of ?f] fq by simp
  have ws: "syscall_wait_state a s1 = Some s2"
    unfolding syscall_wait_state_def current_def e(1) upd_thread_def by (subst n1)+ (simp add: tf(1) c0(1) s2_def tf'_def n1)
  have inv2: "thread_inv (qs @ [c]) s2"
    unfolding s2_def by (rule thread_inv_upd [OF c(2)]) (use fq c(2) in \<open>auto simp: tf'_def thread_inv_def\<close>)
  have th2: "thr s2 x = (if x = ?f then tf' else thr s1 x)" for x by (simp add: s2_def thr_def)
  have tl2: "\<forall>x \<in> set qs. t_tail (thr s2 x) = c \<longleftrightarrow> x = ?f"
  proof
    fix x assume x: "x \<in> set qs"
    have "t_tail (thr s x) \<noteq> c" using bspec [OF tails x] c0(1) c(3) qL by auto
    then show "t_tail (thr s2 x) = c \<longleftrightarrow> x = ?f" using tf(1) tx [OF x] by (auto simp: th2 tf'_def)
  qed
  have "t_prv t AND 0x10 = 0" "t_prv t AND 0x20 = 0"
  proof -
    have "t_prv t AND (0x30 AND 0x10) = 0" "t_prv t AND (0x30 AND 0x20) = 0" using c(10) by (simp_all only: and.assoc [symmetric] bit.conj_zero_left)
    then show "t_prv t AND 0x10 = 0" "t_prv t AND 0x20 = 0" by simp_all
  qed
  moreover have cb: "child_blocks c t (replicate 512 0) = [c, t_pool t]" by (simp add: child_blocks_def)
  ultimately have wd: "ward s2 ?f c t (replicate 512 0)"
    unfolding ward_def cb using c(4-6,11-14) c0 by (auto simp: s2_def fresh_thread_def child_of_def pool_zero_def)
  have pi: "pipe s2 (t_pipe t) n i j b" using pipe(1) c(6) e by (simp add: pipe_def s2_def child_of_def)
  have lv: "live_blocks (fmm s2) = live_blocks (fmm s) \<union> set (child_blocks c t (replicate 512 0))"
    "live_blocks (fmm s) \<inter> set (child_blocks c t (replicate 512 0)) = {}" unfolding cb using c(3,11,13) by (auto simp: s2_def)
  have f2: "heap_room 0 (fmm s2)" "t_wait_pid (thr s2 ?f) = next_pid s" "t_status (thr s2 ?f) AND 2 \<noteq> 0" "current_thread2 s2 \<noteq> ?f"
    using c(8) tf(2) e(2) runs(4) by (simp_all add: th2 tf'_def bit.conj_disj_distrib2) (simp_all add: s2_def e)
  have "t_status (thr s1 ?f) = t_status (thr s ?f)" "t_prv (thr s1 ?f) = t_prv (thr s ?f)" using arg_cong [OF c(9), of t_status] arg_cong [OF c(9), of t_prv] by simp_all
  then have f3: "t_status (thr s2 ?f) AND 1 = 0" "t_prv (thr s2 ?f) AND 0x80 = 0" using runs(1) by (simp_all add: th2 tf'_def runs_here_def bit.conj_disj_distrib2)
  have hq: "hd qs \<in> set qs" "hd qs \<noteq> ?f" using fq runs(3) by (cases qs; simp)+
  then have "(thr s1 (hd qs))\<lparr>t_next := 0\<rparr> = (thr s (hd qs))\<lparr>t_next := 0\<rparr>" using c(7) by blast
  from arg_cong [OF this, of t_status] arg_cong [OF this, of t_prv] have "runs_here (thr s2 (hd qs))" using runs(2) hq(2) by (simp add: th2 runs_here_def)
  then have "waiting qs (live_blocks (fmm s)) ?f c (next_pid s) s2"
    unfolding waiting_def using inv2 fq tl2 f2 f3 hq(2) qL wd pi lv pipe(2) by metis
  moreover have "current_thread2 s2 = current_thread2 s" by (simp add: s2_def e)
  ultimately show ?thesis using c(1) ws by blast
qed

text \<open>C7: a father that waits for its child sleeps until the child has ended, and then runs again.  After
  \<^verbatim>\<open>create_thread_child\<close> and the system call \<^verbatim>\<open>wait_state\<close>, whatever interrupts of the two processors come and whatever
  the programs compute, neither processor is given to the father.  When the child ends, at any later time at which it is on no
  processor, everything it had is free, and before the first processor has gone once round the queue it is the
  father's, and \<^verbatim>\<open>wait\<close> returns the number of the child to it.  The father is not the first thread of the queue, to
  which the scheduler falls back, and both could run before.\<close>

theorem wait_for_child:
  fixes s :: sys_state
  assumes "thread_inv qs s" and "heap_room 4 (fmm s)" and "next_pid s \<noteq> - 1" and "length sse = 512"
    and "\<forall>x \<in> set qs. t_tail (thr s x) \<in> insert 0 (set qs)"
    and "pipe s (t_pipe (thr s (current_thread s))) n i j b" "i < 512"
    and "runs_here (thr s (current_thread s))" "runs_here (thr s (hd qs))" "current_thread s \<noteq> hd qs" "current_thread2 s \<noteq> current_thread s"
    and step: "\<forall>k c. length (c_fxsave c) = 512 \<longrightarrow> length (c_fxsave (step k c)) = 512"
  shows "\<exists>c s1 s2. create_thread_child sse main rsp cr3 rbx pv argc argv pwd (current_thread s) s = Some (c, s1) \<and> syscall_wait_state a s1 = Some s2 \<and>
     (\<forall>es. turns_ok es \<and> (\<exists>e \<in> set es. fst e) \<longrightarrow> (\<exists>s3. turns es s2 = Some s3 \<and> current_thread s3 \<noteq> current_thread s \<and> current_thread2 s3 \<noteq> current_thread s \<and>
        (current_thread s3 \<noteq> c \<and> current_thread2 s3 \<noteq> c \<longrightarrow> (\<exists>s4. exit c s3 = Some s4 \<and> thread_inv qs s4 \<and> live_blocks (fmm s4) = live_blocks (fmm s) \<and>
           (\<exists>k < length qs. \<exists>s5. ticks step k s4 = Some s5 \<and> current_thread s5 = current_thread s \<and> syscall_wait a' s5 = Some (s5\<lparr>ret := next_pid s\<rparr>))))))"
proof -
  let ?f = "current_thread s" and ?L = "live_blocks (fmm s)"
  obtain c s1 s2 where c: "create_thread_child sse main rsp cr3 rbx pv argc argv pwd ?f s = Some (c, s1)" "syscall_wait_state a s1 = Some s2"
    and w: "waiting qs ?L ?f c (next_pid s) s2"
    using child_waiting [OF assms(1-11), where main = main and rsp = rsp and ?cr3.0 = cr3 and rbx = rbx and pv = pv and argc = argc and argv = argv
        and pwd = pwd and a = a] by (elim exE conjE) (rule that)
  have "\<exists>s3. turns es s2 = Some s3 \<and> current_thread s3 \<noteq> ?f \<and> current_thread2 s3 \<noteq> ?f \<and>
        (current_thread s3 \<noteq> c \<and> current_thread2 s3 \<noteq> c \<longrightarrow> (\<exists>s4. exit c s3 = Some s4 \<and> thread_inv qs s4 \<and> live_blocks (fmm s4) = ?L \<and>
           (\<exists>k < length qs. \<exists>s5. ticks step k s4 = Some s5 \<and> current_thread s5 = ?f \<and> syscall_wait a' s5 = Some (s5\<lparr>ret := next_pid s\<rparr>))))"
    if es: "turns_ok es" "\<exists>e \<in> set es. fst e" for es
  proof -
    obtain s3 where s3: "turns es s2 = Some s3" "waiting qs ?L ?f c (next_pid s) s3" "current_thread s3 \<noteq> ?f" "runs_here (thr s3 (current_thread s3))"
      using waiting_turns [OF w es(1)] es(2) by auto
    have fq: "?f \<in> set qs" "hd qs \<in> set qs" "runs_here (thr s3 (hd qs))" using s3(2) by (cases qs; simp add: waiting_def)+
    have "\<exists>s4. exit c s3 = Some s4 \<and> thread_inv qs s4 \<and> live_blocks (fmm s4) = ?L \<and>
           (\<exists>k < length qs. \<exists>s5. ticks step k s4 = Some s5 \<and> current_thread s5 = ?f \<and> syscall_wait a' s5 = Some (s5\<lparr>ret := next_pid s\<rparr>))"
      if cur: "current_thread s3 \<noteq> c" "current_thread2 s3 \<noteq> c"
    proof -
      obtain s4 where s4: "exit c s3 = Some s4" "thread_inv qs s4" "live_blocks (fmm s4) = ?L" "current_thread s4 = current_thread s3"
        "t_wait_pid (thr s4 ?f) = next_pid s" "t_status (thr s4 ?f) AND 2 = 0" "\<forall>x \<in> set qs. runs_here (thr s4 x) \<longleftrightarrow> x = ?f \<or> runs_here (thr s3 x)"
        using waiting_exit [OF s3(2) cur] by blast
      have "current_thread s3 \<in> set qs" using s4(2,4) by (simp add: thread_inv_def)
      then have "runs_here (thr s4 ?f)" "runs_here (thr s4 (hd qs))" "runs_here (thr s4 (current_thread s4))" using s4(4,7) fq s3(4) by simp_all
      then obtain k s5 where s5: "k < length qs" "ticks step k s4 = Some s5" "thread_inv qs s5" "current_thread s5 = ?f" "thr s5 ?f = thr s4 ?f"
        using eventually_runs [OF s4(2) fq(1) _ _ _ step] by blast
      have "threads s5 ?f = Some (thr s5 ?f)" using thread_inv_node [OF s5(3) fq(1)] by simp
      then have "syscall_wait a' s5 = Some (s5\<lparr>ret := next_pid s\<rparr>)" using s4(5,6) s5(4,5) by (simp add: syscall_wait_def current_def)
      then show ?thesis using s4(1-3) s5(1,2,4) by blast
    qed
    moreover have "current_thread2 s3 \<noteq> ?f" using s3(2) by (simp add: waiting_def)
    ultimately show ?thesis using s3(1,3) by blast
  qed
  with c show ?thesis by blast
qed

theorem wait_for_child_witness:
  "\<exists>(s::sys_state) f c s1 s2 es s3 s4 k s5 r. current_thread s = f \<and>
     create_thread_child (replicate 512 0) 0x1000 0x2000 0 0 1 0 0 0 f s = Some (c, s1) \<and> syscall_wait_state r s1 = Some s2 \<and>
     turns es s2 = Some s3 \<and> exit c s3 = Some s4 \<and> live_blocks (fmm s4) = live_blocks (fmm s) \<and>
     ticks (\<lambda>_ c. c) k s4 = Some s5 \<and> current_thread s5 = f \<and> syscall_wait r s5 = Some (s5\<lparr>ret := next_pid s\<rparr>)"
proof -
  let ?r = "\<lparr>a_rdi = 0, a_rsi = 0, a_rdx = 30, a_rcx = 0, a_r8 = 0, a_r9 = 0\<rparr>" and ?e = "(True, \<lambda>c :: cpu_context. c)"
  obtain s0 q where s0: "thread_setup no_disk (replicate 512 0) sys_zero = Some (0, s0)" "thread_inv [q] s0" "heap_room 20000 (fmm s0)" "next_pid s0 = 1"
    "pipe_launcher s0 = 0" "t_tail (thr s0 q) = 0" "runs_here (thr s0 q)" "current_thread s0 = q" "current_thread2 s0 = q" by (rule sys_boot)
  have r: "heap_room (17 + 4) (fmm s0)" by (rule heap_room_mono [OF s0(3)]) simp
  have p: "next_pid s0 \<noteq> - 1" "length (replicate 512 (0::u8)) = 512" "(1::u32) AND 0x10 = 0" by (simp_all add: s0(4))
  obtain a s1 t bs where g: "create_thread no_disk (replicate 512 0) 0x1000 0x2000 0 0 1 0 0 0 s0 = Some (a, s1)" "guest [q] s1 a t bs (replicate 512 0)"
    "current_thread s1 = current_thread s0" "heap_room 4 (fmm s1)" "\<forall>x \<in> set [q]. t_tail (thr s1 x) = t_tail (thr s0 x)" "next_pid s1 = next_pid s0 + 1"
    "\<forall>x \<in> set [q]. runs_here (thr s1 x) = runs_here (thr s0 x)" "(1::u32) AND 0x80 = 0 \<longrightarrow> runs_here t"
    by (rule create_guest [OF s0(2) r p s0(5)])
  define s where "s = s1\<lparr>current_thread := a\<rparr>"
  have inv: "thread_inv [q, a] s" using g(2) by (simp add: guest_def thread_inv_def s_def thr_def)
  have ta: "threads s a = Some t" "t_tail t = 0" "current_thread s = a" using g(2) by (simp_all add: s_def guest_def owner_def)
  have rm: "heap_room 4 (fmm s)" "next_pid s \<noteq> - 1" using g(4,6) s0(4) by (simp_all add: s_def)
  have tls: "\<forall>x \<in> set [q, a]. t_tail (thr s x) \<in> insert 0 (set [q, a])" using g(5) s0(6) ta by (simp add: thr_def) (simp add: s_def)
  obtain n b where pi: "pipe s (t_pipe (thr s (current_thread s))) n 0 0 b" using g(2) ta by (auto simp: guest_def pipe_def thr_def s_def)
  have st: "\<forall>k c. length (c_fxsave c) = 512 \<longrightarrow> length (c_fxsave ((\<lambda>_ c. c) (k::nat) c)) = 512" by simp
  have z: "(0::nat) < 512" by simp
  have qa: "q \<noteq> a" using inv by (auto simp: thread_inv_def dest: chain_distinct)
  have "runs_here t" using g(8) by simp
  moreover have "runs_here (thr s q)" using g(7) s0(7) by (simp add: s_def thr_def)
  moreover have "current_thread2 s \<in> set [q]" using g(2) by (simp add: guest_def s_def)
  ultimately have rn: "runs_here (thr s (current_thread s))" "runs_here (thr s (hd [q, a]))" "current_thread s \<noteq> hd [q, a]" "current_thread2 s \<noteq> current_thread s"
    using ta qa by (simp_all add: thr_def)
  obtain c s1 s2 where c: "create_thread_child (replicate 512 0) 0x1000 0x2000 0 0 1 0 0 0 (current_thread s) s = Some (c, s1)" "syscall_wait_state ?r s1 = Some s2"
    and end_ok: "\<forall>es. turns_ok es \<and> (\<exists>e \<in> set es. fst e) \<longrightarrow> (\<exists>s3. turns es s2 = Some s3 \<and> current_thread s3 \<noteq> current_thread s \<and> current_thread2 s3 \<noteq> current_thread s \<and>
        (current_thread s3 \<noteq> c \<and> current_thread2 s3 \<noteq> c \<longrightarrow> (\<exists>s4. exit c s3 = Some s4 \<and> thread_inv [q, a] s4 \<and> live_blocks (fmm s4) = live_blocks (fmm s) \<and>
           (\<exists>k < length [q, a]. \<exists>s5. ticks (\<lambda>_ c. c) k s4 = Some s5 \<and> current_thread s5 = current_thread s \<and> syscall_wait ?r s5 = Some (s5\<lparr>ret := next_pid s\<rparr>)))))"
    using wait_for_child [OF inv rm p(2) tls pi z rn st, where main = "0x1000" and rsp = "0x2000" and ?cr3.0 = 0 and rbx = 0 and pv = 1 and argc = 0 and argv = 0
        and pwd = 0 and a = ?r and a' = ?r] by (elim exE conjE) (rule that)
  have "\<exists>es s3. turns_ok es \<and> (\<exists>e \<in> set es. fst e) \<and> turns es s2 = Some s3 \<and> current_thread s3 \<noteq> c \<and> current_thread2 s3 \<noteq> c"
  proof -
    obtain s1' s2' c' where "create_thread_child (replicate 512 0) 0x1000 0x2000 0 0 1 0 0 0 (current_thread s) s = Some (c', s1')"
      "syscall_wait_state ?r s1' = Some s2'" "waiting [q, a] (live_blocks (fmm s)) (current_thread s) c' (next_pid s) s2'"
      "current_thread2 s2' = current_thread2 s" using child_waiting [OF inv rm p(2) tls pi z rn, where main = "0x1000" and rsp = "0x2000" and ?cr3.0 = 0 and rbx = 0 and pv = 1 and argc = 0 and argv = 0
          and pwd = 0 and a = ?r] by auto
    then have w2: "waiting [q, a] (live_blocks (fmm s)) a c (next_pid s) s2" and k2: "current_thread2 s2 = current_thread2 s" using c ta(3) by simp_all
    then have i2: "thread_inv [q, a, c] s2" by (simp add: waiting_def)
    have d: "q \<noteq> c" "a \<noteq> c" using i2 by (auto simp: thread_inv_def dest: chain_distinct)
    have ok: "turns_ok [?e]" "turns_ok [?e, ?e]" by (simp_all add: turns_ok_def)
    obtain s3 where s3: "turns [?e] s2 = Some s3" "waiting [q, a] (live_blocks (fmm s)) a c (next_pid s) s3" using waiting_turns [OF w2 ok(1)] by auto
    obtain s4 where s4: "turns [?e, ?e] s2 = Some s4" using waiting_turns [OF w2 ok(2)] by auto
    have i3: "thread_inv [q, a, c] s3" using s3(2) by (simp add: waiting_def)
    have "next_of (\<lambda>x. runs_here (thr s3 x)) [q, a, c] c = q" using d by (simp add: next_of_def)
    then have "current_thread s3 = c \<longrightarrow> current_thread s4 = q" using task_switch_ok(1) [OF i3] s3(1) s4 by (auto simp: bind_eq_Some_conv)
    moreover have "current_thread2 s3 = current_thread2 s2" "current_thread2 s4 = current_thread2 s2" using s3(1) s4 by (auto simp: turn_keeps2 bind_eq_Some_conv simp del: turn.simps)
    moreover have "current_thread2 s2 = q" using k2 g(2) by (simp add: guest_def s_def)
    moreover have "\<exists>e \<in> set [?e]. fst e" "\<exists>e \<in> set [?e, ?e]. fst e" by simp_all
    ultimately show ?thesis using s3(1) s4 ok d(1) by metis
  qed
  then obtain es s3 s4 k s5 where "turns es s2 = Some s3" "exit c s3 = Some s4" "live_blocks (fmm s4) = live_blocks (fmm s)"
    "ticks (\<lambda>_ c. c) k s4 = Some s5" "current_thread s5 = current_thread s" "syscall_wait ?r s5 = Some (s5\<lparr>ret := next_pid s\<rparr>)"
    using end_ok by (metis option.inject)
  with c show ?thesis by blast
qed

end
