(* ===== verification/Reach.thy ===== *)
theory Reach
  imports Waiting
begin

text \<open>
  The kernel as a transition system: timer interrupts of both processors, creation of threads and of
  children, \<^verbatim>\<open>pthread_create\<close> and \<^verbatim>\<open>pthread_join\<close>, waiting, the ends of processes and of children and other work, in
  any order from the state of \<^verbatim>\<open>thread_setup\<close>.
\<close>

section \<open>The kernel as a transition system\<close>

text \<open>What can happen to the threads: a timer interrupt on either processor, at which the registers hold
  whatever the running thread left there; the creation of a thread, of a child or by \<^verbatim>\<open>pthread_create\<close>;
  \<^verbatim>\<open>pthread_join\<close>; the system call \<^verbatim>\<open>wait_state\<close>, by which a father waits for its child; the end of a process and the
  end of a child; and all other work of the kernel that writes no thread and frees no page of one.

  The ends are those of a thread that runs on no processor, is not the first of the queue and has no child, window or page tables of its own; no launcher is
  registered then.\<close>

inductive kernel_step :: "disk \<Rightarrow> sys_state \<Rightarrow> sys_state \<Rightarrow> bool" for rd where
  Tick: "length (c_fxsave c) = 512 \<Longrightarrow> task_switch (s\<lparr>ctx := c\<rparr>) = Some s' \<Longrightarrow> kernel_step rd s s'"
| Tick2: "length (c_fxsave c) = 512 \<Longrightarrow> task_switch2 (s\<lparr>ctx2 := c\<rparr>) = Some s' \<Longrightarrow> kernel_step rd s s'"
| Spawn: "heap_room (17 + win_pages pv) (fmm s) \<Longrightarrow> next_pid s \<noteq> - 1 \<Longrightarrow> length sse = 512 \<Longrightarrow>
    create_thread rd sse main rsp cr3 rbx pv argc argv pwd s = Some (new, s') \<Longrightarrow> kernel_step rd s s'"
| Child: "heap_room 4 (fmm s) \<Longrightarrow> next_pid s \<noteq> - 1 \<Longrightarrow> length sse = 512 \<Longrightarrow> threads s f \<noteq> None \<Longrightarrow>
    create_thread_child sse main rsp cr3 rbx pv argc argv pwd f s = Some (new, s') \<Longrightarrow> kernel_step rd s s'"
| Pthread: "heap_room 4 (fmm s) \<Longrightarrow> next_pid s \<noteq> - 1 \<Longrightarrow> length sse = 512 \<Longrightarrow> threads s f \<noteq> None \<Longrightarrow>
    pthread_create sse main rsp pv f s = Some (new, s') \<Longrightarrow> kernel_step rd s s'"
| Join: "pthread_join a s = Some (r, s') \<Longrightarrow> kernel_step rd s s'"
| Wait: "syscall_wait_state args s = Some s' \<Longrightarrow> kernel_step rd s s'"
| Work: "threads s' = threads s \<Longrightarrow> tcore s' = tcore s \<Longrightarrow> dom (threads s) \<subseteq> live_blocks (fmm s') \<Longrightarrow> kernel_step rd s s'"
| Child_exit: "ward s f c t ps \<Longrightarrow> heap_room 0 (fmm s) \<Longrightarrow> pipe s (t_pipe t) n i j b \<Longrightarrow> i < 512 \<Longrightarrow>
    c \<noteq> thread_ready_queue s \<Longrightarrow> c \<noteq> current_thread s \<Longrightarrow> c \<noteq> current_thread2 s \<Longrightarrow>
    f \<in> dom (threads s) \<Longrightarrow> f \<noteq> c \<Longrightarrow> \<forall>x \<in> dom (threads s). t_tail (thr s x) = c \<longleftrightarrow> x = f \<Longrightarrow>
    set (child_blocks c t ps) \<inter> dom (threads s) = {c} \<Longrightarrow> exit c s = Some s' \<Longrightarrow> kernel_step rd s s'"
| Exit: "owner s a t bs ps \<Longrightarrow> heap_room 0 (fmm s) \<Longrightarrow> pipe_launcher s = 0 \<Longrightarrow> pipe s (t_pipe t) n i j b \<Longrightarrow> i < 512 \<Longrightarrow>
    a \<noteq> thread_ready_queue s \<Longrightarrow> a \<noteq> current_thread s \<Longrightarrow> a \<noteq> current_thread2 s \<Longrightarrow>
    set (own_blocks a t bs ps) \<inter> dom (threads s) = {a} \<Longrightarrow> exit a s = Some s' \<Longrightarrow> kernel_step rd s s'"

inductive kernel_reach :: "disk \<Rightarrow> sys_state \<Rightarrow> bool" for rd where
  Boot: "heap_room 17 (fmm s) \<Longrightarrow> length sse = 512 \<Longrightarrow> threads s = Map.empty \<Longrightarrow> length (c_fxsave (ctx s)) = 512 \<Longrightarrow>
    length (c_fxsave (ctx2 s)) = 512 \<Longrightarrow> thread_setup rd sse s = Some (pid, s') \<Longrightarrow> kernel_reach rd s'"
| Step: "kernel_reach rd s \<Longrightarrow> kernel_step rd s s' \<Longrightarrow> kernel_reach rd s'"

lemma child_exit_step:
  assumes inv: "thread_inv qs s" and w: "ward s f c t ps" and r: "heap_room 0 (fmm s)" and p: "pipe s (t_pipe t) n i j b" "i < 512"
    and c: "c \<noteq> thread_ready_queue s" "c \<noteq> current_thread s" "c \<noteq> current_thread2 s" and f: "f \<in> dom (threads s)" "f \<noteq> c"
    and tl: "\<forall>x \<in> dom (threads s). t_tail (thr s x) = c \<longleftrightarrow> x = f" and d: "set (child_blocks c t ps) \<inter> dom (threads s) = {c}"
    and e: "exit c s = Some s'"
  shows "\<exists>qs. thread_inv qs s'"
proof -
  have dm: "dom (threads s) = set qs" "current_thread s \<in> set qs" "current_thread2 s \<in> set qs" using inv by (simp_all add: thread_inv_def)
  then have "c \<in> set qs" using d by auto
  then obtain us vs where q: "qs = us @ c # vs" by (meson split_list)
  have ne: "us \<noteq> []" using thread_inv_queue [OF inv] c(1) by (auto simp: q)
  have nc: "c \<notin> set (us @ vs)" using inv by (auto simp: thread_inv_def q dest: chain_distinct)
  then have dj: "set (child_blocks c t ps) \<inter> set (us @ vs) = {}" using d dm(1) by (auto simp: q)
  have cur: "current_thread s \<in> set (us @ vs)" "current_thread2 s \<in> set (us @ vs)" using dm(2,3) c(2,3) by (auto simp: q)
  have fq: "f \<in> set (us @ vs)" "\<forall>x \<in> set (us @ vs). t_tail (thr s x) = c \<longleftrightarrow> x = f" using f tl dm(1) by (auto simp: q)
  obtain s2 where "exit c s = Some s2" "thread_inv (us @ vs) s2"
    by (rule exit_child_ok [OF inv [unfolded q] ne w fq r p cur dj])
  with e show ?thesis by auto
qed

lemma kernel_step_inv:
  assumes "kernel_step rd s s'" and inv: "thread_inv qs s"
  shows "\<exists>qs. thread_inv qs s'"
  using assms(1)
proof cases
  case (Tick c)
  then show ?thesis using tick_total [OF inv, of c] by auto
next
  case (Tick2 c)
  then show ?thesis using tick2_total [OF inv, of c] by auto
next
  case (Spawn pv sse main rsp cr3 rbx argc argv pwd new)
  have r: "heap_room (17 + win_pages pv + 0) (fmm s)" using Spawn(1) by simp
  show ?thesis using create_thread_ok [OF inv r Spawn(2,3)] Spawn(4) by (metis option.inject prod.inject)
next
  case (Child sse f main rsp cr3 rbx pv argc argv pwd new)
  have r: "heap_room (4 + 0) (fmm s)" "f \<in> set qs" using Child(1,4) inv by (auto simp: thread_inv_def)
  obtain new' s2 where "create_thread_child sse main rsp cr3 rbx pv argc argv pwd f s = Some (new', s2)" "thread_inv (qs @ [new']) s2"
    by (rule create_child_ok [OF inv r(2,1) Child(2,3), of "create_thread_child sse main rsp cr3 rbx pv argc argv pwd f"]) auto
  with Child(5) show ?thesis by auto
next
  case (Pthread sse f main rsp pv new)
  have r: "heap_room (4 + 0) (fmm s)" "f \<in> set qs" using Pthread(1,4) inv by (auto simp: thread_inv_def)
  obtain new' s2 where "pthread_create sse main rsp pv f s = Some (new', s2)" "thread_inv (qs @ [new']) s2"
    by (rule create_child_ok [OF inv r(2,1) Pthread(2,3), of "pthread_create sse main rsp pv f", OF disjI2]) auto
  with Pthread(5) show ?thesis by auto
next
  case (Join a r)
  then obtain t where t: "threads s a = Some t" "s' = s\<lparr>threads := (threads s)(a \<mapsto> t\<lparr>t_status := t_status t AND NOT 1\<rparr>)\<rparr>"
    by (auto simp: pthread_join_def upd_thread_def bind_eq_Some_conv)
  then have "a \<in> set qs" using inv by (auto simp: thread_inv_def)
  then have "thread_inv qs s'" unfolding t(2) using t(1) inv by (intro thread_inv_upd) (auto simp: thread_inv_def thr_def)
  then show ?thesis ..
next
  case (Wait args)
  then obtain t where t: "threads s (current_thread s) = Some t" "s' = s \<or> s' = s\<lparr>threads := (threads s)(current_thread s \<mapsto> t\<lparr>t_status := t_status t OR 2\<rparr>)\<rparr>"
    by (auto simp: syscall_wait_state_def current_def upd_thread_def bind_eq_Some_conv split: if_splits)
  then have "current_thread s \<in> set qs" using inv by (auto simp: thread_inv_def)
  then have "thread_inv qs (s\<lparr>threads := (threads s)(current_thread s \<mapsto> t\<lparr>t_status := t_status t OR 2\<rparr>)\<rparr>)"
    using t(1) inv by (intro thread_inv_upd) (auto simp: thread_inv_def thr_def)
  then show ?thesis using t(2) inv by auto
next
  case Work
  then have "set qs \<subseteq> live_blocks (fmm s')" using inv by (simp add: thread_inv_def)
  then show ?thesis using thread_inv_transfer [OF inv Work(1,2)] by blast
next
  case (Child_exit f c t ps n i j b)
  show ?thesis by (rule child_exit_step [OF inv Child_exit])
next
  case (Exit a t bs ps n i j b)
  show ?thesis by (rule exit_step [OF inv Exit])
qed

lemma kernel_reach_inv: "kernel_reach rd s \<Longrightarrow> \<exists>qs. thread_inv qs s"
proof (induction rule: kernel_reach.induct)
  case (Boot s sse pid s')
  have r: "heap_room (17 + 0) (fmm s)" using Boot(1) by simp
  show ?case using thread_setup_ok [OF r Boot(2-5), of rd] Boot(6) by (metis option.inject prod.inject)
next
  case (Step s s')
  then show ?case using kernel_step_inv by blast
qed



end
