(* ===== verification/Elf.thy ===== *)
theory Elf
  imports Kstring Inet
begin

text \<open>
  The loader of programs, \<^verbatim>\<open>kernel/file/elf.c\<close>: \<^verbatim>\<open>load_elf64_header\<close> checks the header of an ELF file in memory and
  finds where the program ends, \<^verbatim>\<open>load_elf64_segment\<close> copies its sections to their addresses.

  The file is read where it lies in memory, in every round of the loops again, as the code does.  The byte
  counter \<^verbatim>\<open>e\<close> of the inner loops has 32 bits while the size of a section has 64: for a section of 4 GiB or more
  they do not end.
\<close>

section \<open>Headers\<close>

definition rd16 :: "mem \<Rightarrow> u64 \<Rightarrow> u16" where
  "rd16 m p = get16 (\<lambda>i. m (p + of_nat i)) 0"

definition rd32w :: "mem \<Rightarrow> u64 \<Rightarrow> u32" where
  "rd32w m p = get32 (\<lambda>i. m (p + of_nat i)) 0"

definition rd64 :: "mem \<Rightarrow> u64 \<Rightarrow> u64" where
  "rd64 m p = ucast (rd32w m p) OR push_bit 32 (ucast (rd32w m (p + 4)))"

record Elf64_Ehdr =
  e_ident :: "u8 list"
  e_type :: u16
  e_machine :: u16
  e_version :: u32
  e_entry :: u64
  e_phoff :: u64
  e_shoff :: u64
  e_flags :: u32
  e_ehsize :: u16
  e_phentsize :: u16
  e_phnum :: u16
  e_shentsize :: u16
  e_shnum :: u16
  e_shstrndx :: u16

definition ehdr :: "mem \<Rightarrow> u64 \<Rightarrow> Elf64_Ehdr" where
  "ehdr m p = \<lparr>e_ident = get_mem p 16 m, e_type = rd16 m (p + 16), e_machine = rd16 m (p + 18), e_version = rd32w m (p + 20),
     e_entry = rd64 m (p + 24), e_phoff = rd64 m (p + 32), e_shoff = rd64 m (p + 40), e_flags = rd32w m (p + 48),
     e_ehsize = rd16 m (p + 52), e_phentsize = rd16 m (p + 54), e_phnum = rd16 m (p + 56), e_shentsize = rd16 m (p + 58),
     e_shnum = rd16 m (p + 60), e_shstrndx = rd16 m (p + 62)\<rparr>"

record Elf64_Shdr =
  sh_name :: u32
  sh_type :: u32
  sh_flags :: u64
  sh_addr :: u64
  sh_offset :: u64
  sh_size :: u64
  sh_link :: u32
  sh_info :: u32
  sh_addralign :: u64
  sh_entsize :: u64

definition shdr :: "mem \<Rightarrow> u64 \<Rightarrow> Elf64_Shdr" where
  "shdr m p = \<lparr>sh_name = rd32w m p, sh_type = rd32w m (p + 4), sh_flags = rd64 m (p + 8), sh_addr = rd64 m (p + 16),
     sh_offset = rd64 m (p + 24), sh_size = rd64 m (p + 32), sh_link = rd32w m (p + 40), sh_info = rd32w m (p + 44),
     sh_addralign = rd64 m (p + 48), sh_entsize = rd64 m (p + 56)\<rparr>"

record program_header =
  ph_start :: u64
  ph_entry :: u64
  ph_end :: u64

section \<open>The loader\<close>

partial_function (option) end_loop :: "u64 \<Rightarrow> u32 \<Rightarrow> u64 \<Rightarrow> mem \<Rightarrow> u64 option" where
  "end_loop section e r m =
     (let h = shdr m section in
      if ucast e < sh_size h then end_loop section (e + 1) (sh_addr h + sh_size h) m else Some r)"

partial_function (option) header_loop :: "u64 \<Rightarrow> u64 \<Rightarrow> nat \<Rightarrow> u64 \<Rightarrow> mem \<Rightarrow> u64 option" where
  "header_loop bf sections i r m =
     (if i < unat (e_shnum (ehdr m bf)) then
        let h = shdr m sections in
        if sh_addr h = 0 then header_loop bf (sections + 64) (i + 1) r m
        else if sh_type h = 1 then do { r \<leftarrow> end_loop sections 0 r m; header_loop bf (sections + 64) (i + 1) r m }
        else header_loop bf (sections + 64) (i + 1) r m
      else Some r)"

text \<open>The result is the code that is returned, with the header when it is 0.\<close>

definition load_elf64_header :: "u64 \<Rightarrow> mem \<Rightarrow> (int \<times> program_header option) option" where
  "load_elf64_header bf m =
    (let header = ehdr m bf in
     if e_ident header ! 4 \<noteq> 2 then Some (1, None)
     else if e_type header \<noteq> 2 then Some (2, None)
     else if e_machine header \<noteq> 62 then Some (3, None)
     else do {
       r \<leftarrow> header_loop bf (bf + e_shoff header) 0 0 m;
       Some (0, Some \<lparr>ph_start = 0x8000000000, ph_entry = e_entry header, ph_end = r\<rparr>) })"

partial_function (option) copy_loop :: "u64 \<Rightarrow> u64 \<Rightarrow> u32 \<Rightarrow> mem \<Rightarrow> mem option" where
  "copy_loop bf section e m =
     (let h = shdr m section in
      if ucast e < sh_size h then copy_loop bf section (e + 1) (m(sh_addr h + ucast e := m (bf + sh_offset h + ucast e))) else Some m)"

partial_function (option) segment_loop :: "u64 \<Rightarrow> u64 \<Rightarrow> nat \<Rightarrow> mem \<Rightarrow> mem option" where
  "segment_loop bf sections i m =
     (if i < unat (e_shnum (ehdr m bf)) then
        let h = shdr m sections in
        if sh_addr h = 0 then segment_loop bf (sections + 64) (i + 1) m
        else if sh_type h = 1 then do { m \<leftarrow> copy_loop bf sections 0 m; segment_loop bf (sections + 64) (i + 1) m }
        else segment_loop bf (sections + 64) (i + 1) m
      else Some m)"

definition load_elf64_segment :: "u64 \<Rightarrow> mem \<Rightarrow> (int \<times> mem) option" where
  "load_elf64_segment bf m = do { m \<leftarrow> segment_loop bf (bf + e_shoff (ehdr m bf)) 0 m; Some (0, m) }"

section \<open>The sections of a file\<close>

definition sections :: "mem \<Rightarrow> u64 \<Rightarrow> Elf64_Shdr list" where
  "sections m bf = (let h = ehdr m bf in map (\<lambda>i. shdr m (bf + e_shoff h + 64 * of_nat i)) [0..<unat (e_shnum h)])"

definition is_loaded :: "Elf64_Shdr \<Rightarrow> bool" where
  "is_loaded h \<longleftrightarrow> sh_addr h \<noteq> 0 \<and> sh_type h = 1"

text \<open>The place of a block: the \<open>n\<close> addresses from \<open>a\<close> on.\<close>

definition inside :: "u64 \<Rightarrow> nat \<Rightarrow> u64 \<Rightarrow> bool" where
  "inside a n x \<longleftrightarrow> unat (x - a) < n"

text \<open>A file of \<open>n\<close> bytes at \<open>bf\<close>: its tables and the contents of its sections lie inside it, and no section
  is to be loaded over it.\<close>

definition elf_image :: "mem \<Rightarrow> u64 \<Rightarrow> nat \<Rightarrow> bool" where
  "elf_image m bf n \<longleftrightarrow> 64 \<le> n \<and> n < 2 ^ 63 \<and> unat (e_shoff (ehdr m bf)) + 64 * unat (e_shnum (ehdr m bf)) \<le> n \<and>
     (\<forall>h \<in> set (sections m bf). is_loaded h \<longrightarrow> unat (sh_offset h) + unat (sh_size h) \<le> n \<and> unat (sh_size h) < 2 ^ 32 \<and>
        (\<forall>x. inside (sh_addr h) (unat (sh_size h)) x \<longrightarrow> \<not> inside bf n x))"

definition same_on :: "u64 \<Rightarrow> nat \<Rightarrow> mem \<Rightarrow> mem \<Rightarrow> bool" where
  "same_on a n m m' \<longleftrightarrow> (\<forall>x. inside a n x \<longrightarrow> m' x = m x)"

text \<open>A header is read from the 64 bytes it has.\<close>

lemma header_cong:
  assumes "\<And>w. unat w < 64 \<Longrightarrow> m' (p + w) = m (p + w)"
  shows "ehdr m' p = ehdr m p" and "shdr m' p = shdr m p"
proof -
  have z: "m' p = m p" using assms [of 0] by simp
  have n: "m' (p + of_nat i) = m (p + of_nat i)" if "i < 64" for i using assms [of "of_nat i"] that by (simp add: unat_of_nat_small)
  have "get_mem p 16 m' = get_mem p 16 m" using n by (simp add: get_mem_def)
  then show "ehdr m' p = ehdr m p" "shdr m' p = shdr m p"
    by (simp_all add: ehdr_def shdr_def rd16_def rd32w_def rd64_def get16_def get32_def add.assoc assms z)
qed

lemma inside_offset:
  assumes "unat k + j \<le> n" and "n < 2 ^ 64" and "unat w < j"
  shows "inside a n (a + k + w)"
proof -
  have "unat k + unat w < 2 ^ 64" using assms by linarith
  then have "unat (k + w) = unat k + unat w" by (simp add: unat_word_ariths)
  then show ?thesis using assms by (simp add: inside_def add.assoc)
qed

lemma same_headers:
  assumes "same_on bf n m m'" and "n < 2 ^ 64" and "unat k + 64 \<le> n"
  shows "ehdr m' (bf + k) = ehdr m (bf + k)" and "shdr m' (bf + k) = shdr m (bf + k)"
proof -
  have w: "m' (bf + k + w) = m (bf + k + w)" if "unat w < 64" for w
    using assms(1) inside_offset [OF assms(3,2) that] by (simp add: same_on_def)
  show "ehdr m' (bf + k) = ehdr m (bf + k)" "shdr m' (bf + k) = shdr m (bf + k)" using w by (auto intro: header_cong)
qed

section \<open>Copying a section\<close>

text \<open>The facts about a section at \<open>bf + k\<close> of the file that loading it needs.\<close>

definition loadable :: "mem \<Rightarrow> u64 \<Rightarrow> nat \<Rightarrow> u64 \<Rightarrow> bool" where
  "loadable m bf n k \<longleftrightarrow> (let h = shdr m (bf + k) in n < 2 ^ 63 \<and> unat k + 64 \<le> n \<and> unat (sh_offset h) + unat (sh_size h) \<le> n \<and>
     unat (sh_size h) < 2 ^ 32 \<and> (\<forall>x. inside (sh_addr h) (unat (sh_size h)) x \<longrightarrow> \<not> inside bf n x))"

lemma unat_ucast_u32: "unat (ucast (e :: u32) :: u64) = unat e"
  by (rule unat_ucast_small) (use unat_u32 [of e] in simp)

lemma copy_loop_memcpy:
  assumes "loadable m bf n k" and "same_on bf n m m'" and "h = shdr m (bf + k)" and "unat e + r = unat (sh_size h)"
  shows "\<exists>m2. copy_loop bf (bf + k) e m' = Some m2 \<and> m2 = memcpy_n (sh_addr h + ucast e) (bf + sh_offset h + ucast e) r m' \<and> same_on bf n m m2"
  using assms(2,4)
proof (induction r arbitrary: e m')
  case 0
  have h': "shdr m' (bf + k) = h" using same_headers(2) [OF 0(1), of k] assms(1,3) by (simp add: loadable_def Let_def)
  have "\<not> ucast e < sh_size h" using 0(2) by (simp add: word_less_nat_alt unat_ucast_u32)
  then show ?case using h' 0(1) by (simp add: copy_loop.simps [of bf "bf + k"] Let_def)
next
  case (Suc r)
  have h': "shdr m' (bf + k) = h" using same_headers(2) [OF Suc.prems(1), of k] assms(1,3) by (simp add: loadable_def Let_def)
  have sz: "unat (sh_size h) < 2 ^ 32" using assms(1,3) by (simp add: loadable_def Let_def)
  have ue: "unat (ucast e :: u64) = unat e" by (rule unat_ucast_u32)
  have lt: "ucast e < sh_size h" using Suc.prems(2) by (simp add: word_less_nat_alt ue)
  have e1: "unat (e + 1) = unat e + 1" using Suc.prems(2) sz by (simp add: unat_word_ariths)
  have uc: "(ucast (e + 1) :: u64) = ucast e + 1"
    using unat_u32 [of e] by (simp add: word_unat_eq_iff unat_ucast_u32 e1 unat_word_ariths(1) [of "ucast e"])
  let ?m = "m'(sh_addr h + ucast e := m' (bf + sh_offset h + ucast e))"
  have "inside (sh_addr h) (unat (sh_size h)) (sh_addr h + ucast e)" using lt by (simp add: inside_def word_less_nat_alt)
  then have "\<not> inside bf n (sh_addr h + ucast e)" using assms(1,3) by (simp add: loadable_def Let_def)
  then have s1: "same_on bf n m ?m" using Suc.prems(1) by (auto simp: same_on_def)
  have r1: "unat (e + 1) + r = unat (sh_size h)" using Suc.prems(2) e1 by simp
  obtain m2 where m2: "copy_loop bf (bf + k) (e + 1) ?m = Some m2" "same_on bf n m m2"
    "m2 = memcpy_n (sh_addr h + ucast (e + 1)) (bf + sh_offset h + ucast (e + 1)) r ?m"
    using Suc.IH [OF s1 r1] by blast
  moreover have "copy_loop bf (bf + k) e m' = copy_loop bf (bf + k) (e + 1) ?m"
    using lt h' by (simp add: copy_loop.simps [of bf "bf + k" e] Let_def)
  ultimately show ?case by (simp add: uc add.assoc)
qed

lemma copy_loop_put:
  assumes l: "loadable m bf n k" and s: "same_on bf n m m'" and h: "h = shdr m (bf + k)"
  shows "copy_loop bf (bf + k) 0 m' = Some (put_mem (sh_addr h) (get_mem (bf + sh_offset h) (unat (sh_size h)) m) m')"
    and "same_on bf n m (put_mem (sh_addr h) (get_mem (bf + sh_offset h) (unat (sh_size h)) m) m')"
proof -
  let ?n = "unat (sh_size h)" and ?s = "bf + sh_offset h"
  have f: "unat (sh_offset h) + ?n \<le> n" "n < 2 ^ 63" "\<forall>x. inside (sh_addr h) ?n x \<longrightarrow> \<not> inside bf n x" using l h by (simp_all add: loadable_def Let_def)
  then have n64: "?n < 2 ^ 64" "n < 2 ^ 64" by simp_all
  have src: "inside bf n (?s + w)" if "unat w < ?n" for w by (rule inside_offset [OF f(1) n64(2) that])
  have "m' (?s + of_nat i) = m (?s + of_nat i)" if "i < ?n" for i
    using src [of "of_nat i"] s that n64(1) by (simp add: same_on_def unat_of_nat_small)
  then have g: "get_mem ?s ?n m' = get_mem ?s ?n m" by (simp add: get_mem_def)
  have "?n \<le> unat (sh_addr h - ?s) \<or> sh_addr h = ?s"
  proof (rule disjI1, rule ccontr)
    assume "\<not> ?n \<le> unat (sh_addr h - ?s)"
    then have lt: "unat (sh_addr h - ?s) < ?n" by simp
    then have "0 < ?n" by linarith
    have "inside bf n (sh_addr h)" using src [OF lt] by simp
    moreover have "inside (sh_addr h) ?n (sh_addr h)" using \<open>0 < ?n\<close> by (simp add: inside_def)
    ultimately show False using f(3) by simp
  qed
  then have "memcpy_n (sh_addr h) ?s ?n m' = put_mem (sh_addr h) (get_mem ?s ?n m) m'" using memcpy_n_get [OF _ n64(1)] g by simp
  with copy_loop_memcpy [OF l s h, of 0 ?n]
  show "copy_loop bf (bf + k) 0 m' = Some (put_mem (sh_addr h) (get_mem ?s ?n m) m')" "same_on bf n m (put_mem (sh_addr h) (get_mem ?s ?n m) m')" by auto
qed

section \<open>The whole file\<close>

text \<open>What loading one section does to the memory.\<close>

definition place :: "u64 \<Rightarrow> mem \<Rightarrow> Elf64_Shdr \<Rightarrow> mem \<Rightarrow> mem" where
  "place bf m h m' = (if is_loaded h then put_mem (sh_addr h) (get_mem (bf + sh_offset h) (unat (sh_size h)) m) m' else m')"

definition new_end :: "Elf64_Shdr \<Rightarrow> u64 \<Rightarrow> u64" where
  "new_end h r = (if is_loaded h \<and> sh_size h \<noteq> 0 then sh_addr h + sh_size h else r)"

text \<open>Section \<open>i\<close> of the table.\<close>

lemma section_at:
  assumes "elf_image m bf n" and "i < unat (e_shnum (ehdr m bf))"
  defines "k \<equiv> e_shoff (ehdr m bf) + 64 * of_nat i"
  shows "sections m bf ! i = shdr m (bf + k)" and "unat k + 64 \<le> n" and "is_loaded (shdr m (bf + k)) \<Longrightarrow> loadable m bf n k"
proof -
  let ?o = "e_shoff (ehdr m bf)"
  show s: "sections m bf ! i = shdr m (bf + k)" using assms(2) by (simp add: sections_def Let_def k_def add.assoc)
  have n: "unat ?o + 64 * unat (e_shnum (ehdr m bf)) \<le> n" "n < 2 ^ 63" using assms(1) by (simp_all add: elf_image_def)
  have b: "unat ?o + 64 * i + 64 \<le> n" using n(1) assms(2) by linarith
  have "unat (of_nat (64 * i) :: u64) = 64 * i" using b n(2) by (intro unat_of_nat_small) simp
  then have "unat k = unat ?o + 64 * i" using b n(2) by (simp add: k_def unat_word_ariths)
  then show k: "unat k + 64 \<le> n" using b by simp
  have "shdr m (bf + k) \<in> set (sections m bf)" using assms(2) s by (metis length_map length_upt minus_nat.diff_0 nth_mem sections_def)
  then show "is_loaded (shdr m (bf + k)) \<Longrightarrow> loadable m bf n k" using assms(1) k n(2) by (simp add: elf_image_def loadable_def Let_def)
qed

lemma segment_loop_ok:
  assumes im: "elf_image m bf n" and s: "same_on bf n m m'" and i: "i + r = unat (e_shnum (ehdr m bf))"
  shows "segment_loop bf (bf + (e_shoff (ehdr m bf) + 64 * of_nat i)) i m' = Some (fold (place bf m) (drop i (sections m bf)) m')"
  using s i
proof (induction r arbitrary: i m')
  have n64: "n < 2 ^ 64" "unat (0::u64) + 64 \<le> n" using im by (simp_all add: elf_image_def)
  have eh: "ehdr m' bf = ehdr m bf" if "same_on bf n m m'" for m' using same_headers(1) [OF that n64] by simp
  case 0
  then show ?case using eh [OF 0(1)] by (subst segment_loop.simps) (simp add: sections_def Let_def)
next
  have n64: "n < 2 ^ 64" "unat (0::u64) + 64 \<le> n" using im by (simp_all add: elf_image_def)
  case (Suc r)
  let ?k = "e_shoff (ehdr m bf) + 64 * of_nat i"
  have eh: "ehdr m' bf = ehdr m bf" using same_headers(1) [OF Suc.prems(1) n64] by simp
  have lt: "i < unat (e_shnum (ehdr m bf))" using Suc.prems(2) by simp
  note sec = section_at [OF im lt]
  have sh: "shdr m' (bf + ?k) = shdr m (bf + ?k)" by (rule same_headers(2) [OF Suc.prems(1) n64(1) sec(2)])
  have nx: "bf + ?k + 64 = bf + (e_shoff (ehdr m bf) + 64 * of_nat (i + 1))" by (simp add: algebra_simps)
  have "length (sections m bf) = unat (e_shnum (ehdr m bf))" by (simp add: sections_def Let_def)
  then have dr: "drop i (sections m bf) = shdr m (bf + ?k) # drop (i + 1) (sections m bf)" using lt sec(1) by (simp add: Cons_nth_drop_Suc [symmetric])
  have s1: "same_on bf n m (place bf m (shdr m (bf + ?k)) m')"
    using copy_loop_put(2) [OF sec(3) Suc.prems(1) refl] Suc.prems(1) by (auto simp: place_def)
  have "segment_loop bf (bf + ?k) i m' = segment_loop bf (bf + ?k + 64) (i + 1) (place bf m (shdr m (bf + ?k)) m')"
    using copy_loop_put(1) [OF sec(3) Suc.prems(1) refl] lt
    by (subst segment_loop.simps) (auto simp: eh sh Let_def place_def is_loaded_def)
  then show ?case using Suc.IH [OF s1, of "i + 1"] Suc.prems(2) unfolding nx dr by simp
qed

lemma end_loop_ok:
  assumes "h = shdr m p" and "unat (sh_size h) < 2 ^ 32" and "unat e + r = unat (sh_size h)"
  shows "end_loop p e v m = Some (if r = 0 then v else sh_addr h + sh_size h)"
  using assms(3)
proof (induction r arbitrary: e v)
  case 0
  then have "\<not> ucast e < sh_size h" by (simp add: word_less_nat_alt unat_ucast_u32)
  then show ?case using assms(1) by (subst end_loop.simps) (simp add: Let_def)
next
  case (Suc r)
  then have "ucast e < sh_size h" by (simp add: word_less_nat_alt unat_ucast_u32)
  then have "end_loop p e v m = end_loop p (e + 1) (sh_addr h + sh_size h) m" using assms(1) by (subst end_loop.simps) (simp add: Let_def)
  moreover have "unat (e + 1) = unat e + 1" using Suc.prems assms(2) by (simp add: unat_word_ariths)
  ultimately show ?case using Suc.IH [of "e + 1" "sh_addr h + sh_size h"] Suc.prems by simp
qed

text \<open>The counter has 32 bits: it never reaches a size of 4 GiB.\<close>

lemma end_loop_diverges:
  assumes "end_loop p e v m = Some r"
  shows "unat (sh_size (shdr m p)) < 2 ^ 32"
proof (rule end_loop.raw_induct [where P = "\<lambda>p e v m r. unat (sh_size (shdr m p)) < 2 ^ 32", OF _ assms])
  fix f :: "u64 \<Rightarrow> u32 \<Rightarrow> u64 \<Rightarrow> mem \<Rightarrow> u64 option" and p e v m r
  assume IH: "\<And>p e v m r. f p e v m = Some r \<Longrightarrow> unat (sh_size (shdr m p)) < 2 ^ 32"
    and run: "(let h = shdr m p in if ucast e < sh_size h then f p (e + 1) (sh_addr h + sh_size h) m else Some v) = Some r"
  show "unat (sh_size (shdr m p)) < 2 ^ 32"
  proof (cases "ucast e < sh_size (shdr m p)")
    case True
    then show ?thesis using IH run by (simp add: Let_def)
  next
    case False
    then show ?thesis using unat_u32 [of e] by (simp add: word_less_nat_alt unat_ucast_u32)
  qed
qed

lemma header_loop_ok:
  assumes im: "elf_image m bf n" and i: "i + r = unat (e_shnum (ehdr m bf))"
  shows "header_loop bf (bf + (e_shoff (ehdr m bf) + 64 * of_nat i)) i v m = Some (fold new_end (drop i (sections m bf)) v)"
  using i
proof (induction r arbitrary: i v)
  case 0
  then show ?case by (subst header_loop.simps) (simp add: sections_def Let_def)
next
  case (Suc r)
  let ?k = "e_shoff (ehdr m bf) + 64 * of_nat i"
  have lt: "i < unat (e_shnum (ehdr m bf))" using Suc.prems by simp
  note sec = section_at [OF im lt]
  have nx: "bf + ?k + 64 = bf + (e_shoff (ehdr m bf) + 64 * of_nat (i + 1))" by (simp add: algebra_simps)
  have "length (sections m bf) = unat (e_shnum (ehdr m bf))" by (simp add: sections_def Let_def)
  then have dr: "drop i (sections m bf) = shdr m (bf + ?k) # drop (i + 1) (sections m bf)" using lt sec(1) by (simp add: Cons_nth_drop_Suc [symmetric])
  have el: "end_loop (bf + ?k) 0 v m = Some (new_end (shdr m (bf + ?k)) v)" if "is_loaded (shdr m (bf + ?k))"
    using end_loop_ok [OF refl, of m "bf + ?k" 0 "unat (sh_size (shdr m (bf + ?k)))"] sec(3) [OF that] that
    by (simp add: loadable_def Let_def new_end_def unat_eq_0)
  have "header_loop bf (bf + ?k) i v m = header_loop bf (bf + ?k + 64) (i + 1) (new_end (shdr m (bf + ?k)) v) m"
    using el lt by (subst header_loop.simps) (auto simp: Let_def is_loaded_def new_end_def)
  then show ?case using Suc.IH [of "i + 1"] Suc.prems unfolding nx dr by simp
qed

text \<open>The last section of the table decides.\<close>

lemma fold_place:
  "\<forall>h \<in> set hs. unat (sh_size h) < 2 ^ 64 \<Longrightarrow> fold (place bf m) hs m x =
     (case find (\<lambda>h. is_loaded h \<and> inside (sh_addr h) (unat (sh_size h)) x) (rev hs) of None \<Rightarrow> m x | Some h \<Rightarrow> m (bf + sh_offset h + (x - sh_addr h)))"
proof (induction hs rule: rev_induct)
  case (snoc h hs)
  have "x - sh_addr h = of_nat (unat (x - sh_addr h))" by simp
  with snoc show ?case by (auto simp: place_def put_mem_def inside_def)
qed simp

lemma fold_new_end:
  "fold new_end hs 0 = (case find (\<lambda>h. is_loaded h \<and> sh_size h \<noteq> 0) (rev hs) of None \<Rightarrow> 0 | Some h \<Rightarrow> sh_addr h + sh_size h)"
  by (induction hs rule: rev_induct) (simp_all add: new_end_def)

text \<open>C10: the loader.  A well-formed file is accepted exactly when it is a 64-bit x86-64 executable; the end of
  the program is that of the last section in the table that has contents.  Loading then changes exactly the
  addresses of the sections with contents: each such byte gets the byte of the file that belongs there, of
  the last such section when they overlap, and every other byte of the memory stays.\<close>

theorem elf_load_correct:
  assumes "elf_image m bf n"
  shows "load_elf64_header bf m =
      (if m (bf + 4) \<noteq> 2 then Some (1, None) else if e_type (ehdr m bf) \<noteq> 2 then Some (2, None) else if e_machine (ehdr m bf) \<noteq> 62 then Some (3, None)
       else Some (0, Some \<lparr>ph_start = 0x8000000000, ph_entry = e_entry (ehdr m bf),
         ph_end = (case find (\<lambda>h. is_loaded h \<and> sh_size h \<noteq> 0) (rev (sections m bf)) of None \<Rightarrow> 0 | Some h \<Rightarrow> sh_addr h + sh_size h)\<rparr>)) \<and>
    load_elf64_segment bf m = Some (0, \<lambda>x.
       case find (\<lambda>h. is_loaded h \<and> inside (sh_addr h) (unat (sh_size h)) x) (rev (sections m bf)) of
         None \<Rightarrow> m x | Some h \<Rightarrow> m (bf + sh_offset h + (x - sh_addr h)))"
proof
  have id: "e_ident (ehdr m bf) ! 4 = m (bf + 4)" by (simp add: ehdr_def)
  have "header_loop bf (bf + e_shoff (ehdr m bf)) 0 0 m = Some (fold new_end (sections m bf) 0)"
    using header_loop_ok [OF assms, of 0 _ 0] by simp
  then show "load_elf64_header bf m =
      (if m (bf + 4) \<noteq> 2 then Some (1, None) else if e_type (ehdr m bf) \<noteq> 2 then Some (2, None) else if e_machine (ehdr m bf) \<noteq> 62 then Some (3, None)
       else Some (0, Some \<lparr>ph_start = 0x8000000000, ph_entry = e_entry (ehdr m bf),
         ph_end = (case find (\<lambda>h. is_loaded h \<and> sh_size h \<noteq> 0) (rev (sections m bf)) of None \<Rightarrow> 0 | Some h \<Rightarrow> sh_addr h + sh_size h)\<rparr>))"
    by (simp add: load_elf64_header_def Let_def id fold_new_end)
  have b: "\<forall>h \<in> set (sections m bf). unat (sh_size h) < 2 ^ 64" using unat_diff_bound [of _ 0] by simp
  have "segment_loop bf (bf + e_shoff (ehdr m bf)) 0 m = Some (fold (place bf m) (sections m bf) m)"
    using segment_loop_ok [OF assms, of m 0] by (simp add: same_on_def)
  then show "load_elf64_segment bf m = Some (0, \<lambda>x.
       case find (\<lambda>h. is_loaded h \<and> inside (sh_addr h) (unat (sh_size h)) x) (rev (sections m bf)) of
         None \<Rightarrow> m x | Some h \<Rightarrow> m (bf + sh_offset h + (x - sh_addr h)))"
    by (simp add: load_elf64_segment_def fold_place [OF b] fun_eq_iff)
qed

text \<open>A file of 132 bytes with one section of 4 bytes.\<close>

definition tiny_elf :: mem where
  "tiny_elf = (\<lambda>_. 0)(0x1004 := 2, 0x1010 := 2, 0x1012 := 62, 0x101c := 0x80, 0x1028 := 64, 0x103c := 1,
     0x1044 := 1, 0x1054 := 0x80, 0x1058 := 128, 0x1060 := 4, 0x1080 := 11, 0x1081 := 12, 0x1082 := 13, 0x1083 := 14)"

lemma tiny_elf_headers:
  "ehdr tiny_elf 0x1000 = \<lparr>e_ident = [0, 0, 0, 0, 2, 0, 0, 0, 0, 0, 0, 0, 0, 0, 0, 0], e_type = 2, e_machine = 62, e_version = 0, e_entry = 0x8000000000,
     e_phoff = 0, e_shoff = 64, e_flags = 0, e_ehsize = 0, e_phentsize = 0, e_phnum = 0, e_shentsize = 0, e_shnum = 1, e_shstrndx = 0\<rparr>"
  "shdr tiny_elf 0x1040 = \<lparr>sh_name = 0, sh_type = 1, sh_flags = 0, sh_addr = 0x8000000000, sh_offset = 128, sh_size = 4, sh_link = 0, sh_info = 0,
     sh_addralign = 0, sh_entsize = 0\<rparr>"
  by (simp_all add: ehdr_def shdr_def rd16_def rd32w_def rd64_def get16_def get32_def tiny_elf_def get_mem_def upt_rec)

lemma tiny_elf_image: "elf_image tiny_elf 0x1000 132"
proof -
  have s: "sections tiny_elf 0x1000 = [shdr tiny_elf 0x1040]" by (simp add: sections_def tiny_elf_headers Let_def)
  have "\<not> inside 0x1000 132 x" if "inside 0x8000000000 4 x" for x
  proof -
    define d where "d = x - 0x8000000000"
    have "unat d < 4" using that by (simp add: inside_def d_def)
    then have "unat (d + 0x7FFFFFF000) = unat d + 0x7FFFFFF000" by (simp add: unat_word_ariths(1))
    moreover have "x - 0x1000 = d + 0x7FFFFFF000" by (simp add: d_def)
    ultimately have "unat (x - 0x1000) = unat d + 0x7FFFFFF000" by (simp only:)
    then show ?thesis by (simp add: inside_def)
  qed
  then show ?thesis by (simp add: elf_image_def s tiny_elf_headers is_loaded_def)
qed

theorem elf_load_correct_witness:
  "load_elf64_header 0x1000 tiny_elf = Some (0, Some \<lparr>ph_start = 0x8000000000, ph_entry = 0x8000000000, ph_end = 0x8000000004\<rparr>) \<and>
   (\<exists>m'. load_elf64_segment 0x1000 tiny_elf = Some (0, m') \<and> m' 0x8000000002 = 13 \<and> m' 0x8000000004 = 0)"
proof -
  have s: "sections tiny_elf 0x1000 = [shdr tiny_elf 0x1040]" by (simp add: sections_def tiny_elf_headers Let_def)
  show ?thesis using elf_load_correct [OF tiny_elf_image]
    by (simp add: s tiny_elf_headers is_loaded_def inside_def) (simp add: tiny_elf_def)
qed

end
