(* ===== verification/Grow.thy ===== *)
theory Grow
  imports Leave
begin

text \<open>
  What stays while the heap grows.  \<open>keeps_maps m m'\<close>: every page that was busy keeps its frame, frames stay in use and
  the entries outside the table of the heap do not change; \<open>grows n m m'\<close>: an operation that takes \<open>n\<close> pages had
  this effect.  It holds of every operation that only allocates, up to the creation of a thread.  Then the same
  for single frames and for stores through the kernel's mapping, which \<^verbatim>\<open>exectve.c\<close> uses to build page tables.
\<close>

section \<open>Growing\<close>

definition keeps_maps :: "'a mm_state_scheme \<Rightarrow> 'a mm_state_scheme \<Rightarrow> bool" where
  "keeps_maps m m' \<longleftrightarrow> pdpte m' = pdpte m \<and> pde_mem m' = pde_mem m \<and> alloc_pte m' = alloc_pte m \<and>
     (\<forall>f. frame_used m f \<longrightarrow> frame_used m' f) \<and>
     (\<forall>a. a < alloc_pte m \<or> alloc_pte m + 8 * HEAP_PAGES \<le> a \<longrightarrow> pte_mem m' a = pte_mem m a) \<and>
     busy_pages m \<subseteq> busy_pages m' \<and> (\<forall>k \<in> busy_pages m. pte_mem m' (page_pte m k) = pte_mem m (page_pte m k))"

lemma keeps_maps_refl [simp]: "keeps_maps m m"
  by (simp add: keeps_maps_def)

lemma keeps_maps_trans: "keeps_maps m m1 \<Longrightarrow> keeps_maps m1 m2 \<Longrightarrow> keeps_maps m m2"
  unfolding keeps_maps_def page_pte_def by (auto simp: subset_iff)

lemma keeps_heap_tables: "keeps_maps m m' \<Longrightarrow> heap_tables m' = heap_tables m"
  by (simp add: keeps_maps_def heap_tables_def)

lemma allocated_keeps:
  assumes inv: "mm_inv m" and at: "alloc_at len m i" and al: "allocated user (unat len) i ks m m'"
  shows "keeps_maps m m'"
proof -
  have m': "m' = m\<lparr>RAM_BITMAP := RAM_BITMAP m', PAGE_BITMAP := PAGE_BITMAP m', pte_mem := pte_mem m'\<rparr>" and pb: "PAGE_BITMAP m' = mark_pages (PAGE_BITMAP m) i (unat len)"
    using al unfolding allocated_def by blast+
  have f: "pdpte m' = pdpte m" "pde_mem m' = pde_mem m" by (subst m', simp)+
  note run = alloc_at_free_run [OF inv at]
  have n: "i + unat len \<le> HEAP_PAGES" using at by (simp add: alloc_at_def)
  have out: "pte_mem m' a = pte_mem m a" if "a < alloc_pte m \<or> alloc_pte m + 8 * HEAP_PAGES \<le> a" for a
  proof -
    have "a \<noteq> page_pte m (i + j)" if "j < unat len" for j using n that \<open>a < alloc_pte m \<or> _\<close> by (auto simp: page_pte_def)
    then show ?thesis using al unfolding allocated_def by blast
  qed
  have "j \<notin> {i..<i + unat len}" if "j \<in> busy_pages m" for j using free_run_lo [OF run] that by (auto simp: busy_pages_def)
  then have "pte_mem m' (page_pte m j) = pte_mem m (page_pte m j)" if "j \<in> busy_pages m" for j using allocated_other [OF al] that by blast
  moreover have "\<forall>g. frame_used m g \<longrightarrow> frame_used m' g" using al by (auto simp: allocated_def)
  ultimately show ?thesis
    using f out allocated_fields(1) [OF al] busy_pages_mark [OF run pb] by (simp add: keeps_maps_def)
qed

definition grows :: "nat \<Rightarrow> 'a mm_state_scheme \<Rightarrow> 'a mm_state_scheme \<Rightarrow> bool" where
  "grows n m m' \<longleftrightarrow> (\<forall>k. heap_room (n + k) m \<longrightarrow> heap_room k m' \<and> keeps_maps m m')"

lemma grows_refl: "grows 0 m m"
  by (simp add: grows_def)

lemma grows_trans: "grows n m m1 \<Longrightarrow> grows k m1 m2 \<Longrightarrow> grows (n + k) m m2"
  unfolding grows_def by (metis add.assoc keeps_maps_trans)

text \<open>The run of pages an allocation takes, and their frames.\<close>

lemma room_alloc_run:
  assumes "heap_room (n + k) m" and "unat len = n" "0 < n"
  obtains i ks m' where "alloc_pages type len m = Some (ucast len, Some (page_addr i), m')" "allocated (type \<noteq> 0) n i ks m m'" "i + n \<le> HEAP_PAGES"
    "page_addr i \<notin> live_blocks m" "live_blocks m' = insert (page_addr i) (live_blocks m)" "heap_room k m'" "keeps_maps m m'" "{i..<i + n} \<subseteq> busy_pages m'"
proof -
  from assms(1) obtain K where K: "mm_inv m" "tail_free K m" "K + (n + k) \<le> HEAP_PAGES" "n + k \<le> card (free_frames m)"
    by (auto simp: heap_room_def)
  obtain i m' where a: "alloc_pages type len m = Some (ucast len, Some (page_addr i), m')" "alloc_at len m i" "mm_inv m'" "tail_free (K + n) m'"
    "card (free_frames m') = card (free_frames m) - n"
    by (rule alloc_tail [OF K(1,2) assms(2,3) refl _ _ refl]) (use K in simp_all)
  obtain ks where ks: "allocated (type \<noteq> 0) n i ks m m'" using alloc_pages_allocated [OF K(1) a(2,1)] assms(2) by auto
  have ks': "allocated (type \<noteq> 0) (unat len) i ks m m'" using ks assms(2) by simp
  have pb: "PAGE_BITMAP m' = mark_pages (PAGE_BITMAP m) i (unat len)" using ks' unfolding allocated_def by blast
  have n: "i + n \<le> HEAP_PAGES" using a(2) assms(2) by (simp add: alloc_at_def)
  have "{i..<i + n} \<subseteq> busy_pages m'" using busy_pages_mark [OF alloc_at_free_run [OF K(1) a(2)] pb] assms(2) by simp
  moreover have "heap_room k m'" unfolding heap_room_def using a(3-5) K(3,4) by (auto intro!: exI [of _ "K + n"])
  moreover have "page_addr i \<notin> live_blocks m" "live_blocks m' = insert (page_addr i) (live_blocks m)" using alloc_fresh [OF K(1) a(2,1)] by simp_all
  ultimately show ?thesis using that a(1) ks n allocated_keeps [OF K(1) a(2) ks'] by blast
qed

lemma alloc_pages_grows: "alloc_pages type len m = Some (r, p, m') \<Longrightarrow> grows (unat len) m m'"
proof (cases "len = 0")
  case True
  assume "alloc_pages type len m = Some (r, p, m')"
  with True show ?thesis by (simp add: alloc_pages_def grows_refl)
next
  case False
  assume al: "alloc_pages type len m = Some (r, p, m')"
  show ?thesis unfolding grows_def
  proof (intro allI impI)
    fix k assume r: "heap_room (unat len + k) m"
    have "0 < unat len" using False by (simp add: unat_gt_0)
    from room_alloc_run [OF r refl this, of type] al show "heap_room k m' \<and> keeps_maps m m'" by force
  qed
qed

lemma malloc_grows: "malloc sz m = Some (p, m') \<Longrightarrow> grows (unat (pages_of sz)) m m'"
  by (auto simp: malloc_alloc split: option.splits intro: alloc_pages_grows)

lemma new_pages_grows: "new_pages type len s = Some (a, s') \<Longrightarrow> grows (unat len) (fmm s) (fmm s')"
  by (auto simp: new_pages_def bind_eq_Some_conv intro: alloc_pages_grows)

lemma pages_24: "unat (pages_of 24) = 1" "unat (pages_of FILE_SIZE) = 1" "unat (pages_of BUFSIZ) = 2"
  by (simp_all add: pages_of_def)

lemma new_block_grows: "new_block sz s = Some (a, s') \<Longrightarrow> grows (unat (pages_of sz)) (fmm s) (fmm s')"
  by (auto simp: new_block_def bind_eq_Some_conv intro: malloc_grows)

lemma open_stream_grows:
  assumes "open_stream flag s = Some (fp, s')"
  shows "grows 3 (fmm s) (fmm s')"
proof -
  from assms obtain s1 b s2 where a: "new_block FILE_SIZE s = Some (fp, s1)" "new_block BUFSIZ s1 = Some (b, s2)" "fmm s' = fmm s2"
    by (auto simp: open_stream_def new_buf_def bind_eq_Some_conv simp del: upt_Suc)
  from grows_trans [OF new_block_grows [OF a(1)] new_block_grows [OF a(2)]] show ?thesis by (simp add: pages_24 a(3) numeral_3_eq_3)
qed

lemma fopen_std_grows: "fopen rd path mode s = Some (fp, s') \<Longrightarrow> (mode, flag) \<in> set std_modes \<Longrightarrow> grows 3 (fmm s) (fmm s')"
  by (auto simp: std_modes_def fopen_def mode_is_def std_open_file_def pipe_open_file_def intro: open_stream_grows)

lemma new_window_grows: "new_window pv t s = Some (t', s') \<Longrightarrow> grows (win_pages pv) (fmm s) (fmm s')"
  using new_pages_grows [of 1 1536 s] by (auto simp: new_window_def win_pages_def grows_refl bind_eq_Some_conv split: if_splits)

lemma new_pool_grows: "new_pool s = Some (a, s') \<Longrightarrow> grows 2 (fmm s) (fmm s')"
  using new_pages_grows [of 0 2 s] by (auto simp: new_pool_def bind_eq_Some_conv)

lemma upd_thread_fmm: "upd_thread a f s = Some s' \<Longrightarrow> fmm s' = fmm s"
  by (auto simp: upd_thread_def bind_eq_Some_conv)

lemma append_thread_fmm: "append_thread a s = Some s' \<Longrightarrow> fmm s' = fmm s"
  by (auto simp: append_thread_def bind_eq_Some_conv dest: upd_thread_fmm)

lemma create_thread_grows:
  assumes "create_thread rd sse main rsp cr3 rbx pv argc argv pwd s = Some (new, s')"
  shows "grows (17 + win_pages pv) (fmm s) (fmm s')"
proof -
  from assms obtain s1 i s2 out s3 err s4 pipe s5 mouse s6 t t' s7 pool s8 where
    a: "new_pages 0 2 s = Some (new, s1)" and
    b: "fopen rd [] ''stdin'' (s1\<lparr>next_pid := next_pid s1 + 1\<rparr>) = Some (i, s2)" "fopen rd [] ''stdout'' s2 = Some (out, s3)"
      "fopen rd [] ''stderr'' s3 = Some (err, s4)" "fopen rd [] ''pipe'' s4 = Some (pipe, s5)" and
    c: "new_block 24 s5 = Some (mouse, s6)" "new_window pv t s6 = Some (t', s7)" "new_pool s7 = Some (pool, s8)" and
    d: "fmm s' = fmm s8"
    by (auto simp: create_thread_def Let_def bind_eq_Some_conv dest!: append_thread_fmm)
  have g: "grows 2 (fmm s) (fmm s1)" "grows 3 (fmm s1) (fmm s2)" "grows 3 (fmm s2) (fmm s3)" "grows 3 (fmm s3) (fmm s4)" "grows 3 (fmm s4) (fmm s5)"
    "grows 1 (fmm s5) (fmm s6)" "grows (win_pages pv) (fmm s6) (fmm s7)" "grows 2 (fmm s7) (fmm s8)"
    using new_pages_grows [OF a] fopen_std_grows [OF b(1) std_modes_mem(1)] fopen_std_grows [OF b(2) std_modes_mem(2)]
      fopen_std_grows [OF b(3) std_modes_mem(3)] fopen_std_grows [OF b(4) std_modes_mem(4)] new_block_grows [OF c(1)] pages_24(1)
      new_window_grows [OF c(2)] new_pool_grows [OF c(3)] by simp_all
  have "grows (2 + (3 + (3 + (3 + (3 + (1 + (win_pages pv + 2))))))) (fmm s) (fmm s8)" by (rule grows_trans g)+
  then show ?thesis unfolding d by (simp add: add.commute add.left_commute)
qed

lemma create_child_grows:
  fixes s s' :: "'a thread_state_scheme"
  assumes "create_thread_child sse main rsp cr3 rbx pv argc argv pwd thread s = Some (new, s')"
  shows "grows 4 (fmm s) (fmm s')"
proof -
  have "\<exists>s1 (s2 :: 'a thread_state_scheme) s3 pool. new_pages 0 2 s = Some (new, s1) \<and> fmm s2 = fmm s1 \<and> new_pool s2 = Some (pool, s3) \<and> fmm s' = fmm s3"
    using assms by (auto simp: create_thread_child_def Let_def bind_eq_Some_conv dest!: append_thread_fmm upd_thread_fmm) blast
  then obtain s1 s3 pool and s2 :: "'a thread_state_scheme" where a: "new_pages 0 2 s = Some (new, s1)" "fmm s2 = fmm s1" "new_pool s2 = Some (pool, s3)" "fmm s' = fmm s3" by blast
  from grows_trans [OF new_pages_grows [OF a(1)]] new_pool_grows [OF a(3)] show ?thesis using a(2,4) by fastforce
qed

lemma thread_setup_grows:
  assumes "thread_setup rd sse s = Some (pid, s')"
  shows "grows 17 (fmm s) (fmm s')"
proof -
  from assms obtain a s1 i s2 out s3 err s4 pipe s5 mouse s6 pool s8 where
    a: "new_pages 0 2 (s\<lparr>threadz := 0, next_pid := 0, first_thread2 := 0\<rparr>) = Some (a, s1)" and
    b: "fopen rd [] ''stdin'' (s1\<lparr>thread_ready_queue := a, current_thread := a, next_pid := next_pid s1 + 1\<rparr>) = Some (i, s2)" "fopen rd [] ''stdout'' s2 = Some (out, s3)"
      "fopen rd [] ''stderr'' s3 = Some (err, s4)" "fopen rd [] ''pipe'' s4 = Some (pipe, s5)" and
    c: "new_block 24 s5 = Some (mouse, s6)" "new_pool s6 = Some (pool, s8)" and
    d: "fmm s' = fmm s8"
    by (auto simp: thread_setup_def Let_def bind_eq_Some_conv)
  have g: "grows 2 (fmm s) (fmm s1)" "grows 3 (fmm s1) (fmm s2)" "grows 3 (fmm s2) (fmm s3)" "grows 3 (fmm s3) (fmm s4)" "grows 3 (fmm s4) (fmm s5)"
    "grows 1 (fmm s5) (fmm s6)" "grows 2 (fmm s6) (fmm s8)"
    using new_pages_grows [OF a] fopen_std_grows [OF b(1) std_modes_mem(1)] fopen_std_grows [OF b(2) std_modes_mem(2)]
      fopen_std_grows [OF b(3) std_modes_mem(3)] fopen_std_grows [OF b(4) std_modes_mem(4)] new_block_grows [OF c(1)] pages_24(1)
      new_pool_grows [OF c(2)] by simp_all
  have "grows (2 + (3 + (3 + (3 + (3 + (1 + 2)))))) (fmm s) (fmm s8)" by (rule grows_trans g)+
  then show ?thesis unfolding d by simp
qed

section \<open>What creation leaves alone\<close>

text \<open>Creation of a thread does not touch what extends the state of the threads.\<close>

definition thread_rest :: "'a thread_state_scheme \<Rightarrow> 'a \<times> u64" where
  "thread_rest s = (thread_state.more s, kernel_pml4e s)"

lemma new_pages_more: "new_pages type len s = Some (a, s') \<Longrightarrow> thread_rest s' = thread_rest s"
  by (auto simp: thread_rest_def new_pages_def bind_eq_Some_conv)

lemma fopen_std_more:
  fixes s s' :: "'a thread_state_scheme"
  assumes "fopen rd path mode s = Some (fp, s')" and "(mode, flag) \<in> set std_modes"
  shows "thread_rest s' = thread_rest s"
  using assms by (auto simp: thread_rest_def std_modes_def fopen_def mode_is_def std_open_file_def pipe_open_file_def open_stream_def new_buf_def new_block_def bind_eq_Some_conv simp del: upt_Suc)

lemma new_block_more: "new_block sz (s :: 'a thread_state_scheme) = Some (a, s') \<Longrightarrow> thread_rest s' = thread_rest s"
  by (auto simp: thread_rest_def new_block_def bind_eq_Some_conv)

lemma new_window_more: "new_window pv t s = Some (t', s') \<Longrightarrow> thread_rest s' = thread_rest s"
  by (auto simp: thread_rest_def new_window_def bind_eq_Some_conv split: if_splits dest: new_pages_more [unfolded thread_rest_def])

lemma new_pool_more: "new_pool s = Some (a, s') \<Longrightarrow> thread_rest s' = thread_rest s"
  by (auto simp: thread_rest_def new_pool_def bind_eq_Some_conv dest: new_pages_more [unfolded thread_rest_def])

lemma upd_thread_more: "upd_thread a f s = Some s' \<Longrightarrow> thread_rest s' = thread_rest s"
  by (auto simp: thread_rest_def upd_thread_def bind_eq_Some_conv)

lemma append_thread_more: "append_thread a s = Some s' \<Longrightarrow> thread_rest s' = thread_rest s"
  by (auto simp: thread_rest_def append_thread_def bind_eq_Some_conv dest: upd_thread_more [unfolded thread_rest_def])

lemmas creation_more = new_pages_more new_block_more new_window_more new_pool_more upd_thread_more append_thread_more
  fopen_std_more [OF _ std_modes_mem(1)] fopen_std_more [OF _ std_modes_mem(2)] fopen_std_more [OF _ std_modes_mem(3)] fopen_std_more [OF _ std_modes_mem(4)]

lemma create_thread_more: "create_thread rd sse main rsp cr3 rbx pv argc argv pwd s = Some (new, s') \<Longrightarrow> thread_rest s' = thread_rest s"
  by (auto simp: thread_rest_def create_thread_def Let_def bind_eq_Some_conv dest!: creation_more [unfolded thread_rest_def])

lemma create_child_more: "create_thread_child sse main rsp cr3 rbx pv argc argv pwd thread s = Some (new, s') \<Longrightarrow> thread_rest s' = thread_rest s"
  by (auto simp: thread_rest_def create_thread_child_def Let_def bind_eq_Some_conv dest!: creation_more [unfolded thread_rest_def])

lemma thread_setup_more: "thread_setup rd sse s = Some (pid, s') \<Longrightarrow> thread_rest s' = thread_rest s"
  by (auto simp: thread_rest_def thread_setup_def Let_def bind_eq_Some_conv dest!: creation_more [unfolded thread_rest_def])

text \<open>The arguments of a program are in the registers of its thread.\<close>

definition has_args :: "u64 \<Rightarrow> u32 \<Rightarrow> u64 \<Rightarrow> u64 \<Rightarrow> THREAD \<Rightarrow> bool" where
  "has_args rbx argc argv pwd t \<longleftrightarrow> t_rbx t = rbx \<and> t_r11 t = scast argc \<and> t_r12 t = argv \<and> t_r13 t = pwd"

lemma upd_thread_args:
  assumes "upd_thread a f s = Some s'" and "threads s b = Some t" and "has_args rbx argc argv pwd t" and "\<And>t. has_args rbx argc argv pwd (f t) = has_args rbx argc argv pwd t"
  shows "\<exists>t'. threads s' b = Some t' \<and> has_args rbx argc argv pwd t'"
  using assms by (auto simp: upd_thread_def bind_eq_Some_conv)

lemma append_thread_args:
  assumes "append_thread a s = Some s'" and "threads s b = Some t" and "has_args rbx argc argv pwd t"
  shows "\<exists>t'. threads s' b = Some t' \<and> has_args rbx argc argv pwd t'"
proof -
  from assms(1) obtain tmp where "upd_thread tmp (\<lambda>t. t\<lparr>t_next := a\<rparr>) s = Some s'" by (auto simp: append_thread_def bind_eq_Some_conv)
  from upd_thread_args [OF this assms(2,3)] show ?thesis by (simp add: has_args_def)
qed

lemma set_args_has: "has_args rbx argc argv pwd (set_args rbx argc argv pwd t)"
  by (simp add: has_args_def set_args_def)

lemma create_thread_args:
  assumes "create_thread rd sse main rsp cr3 rbx pv argc argv pwd s = Some (new, s')"
  shows "\<exists>t. threads s' new = Some t \<and> has_args rbx argc argv pwd t"
  using assms by (auto simp: create_thread_def Let_def bind_eq_Some_conv has_args_def set_args_def dest!: append_thread_args [where b = new and rbx = rbx and argc = argc and argv = argv and pwd = pwd])

section \<open>Frames and stores through the kernel's mapping\<close>

text \<open>The \<open>N\<close> pages from page \<open>i\<close> of the heap lie in the frames \<open>F 0, F 1, \<dots>\<close>, outside the page tables of the heap.\<close>

definition kmap :: "nat \<Rightarrow> nat \<Rightarrow> (nat \<Rightarrow> nat) \<Rightarrow> 'a mm_state_scheme \<Rightarrow> bool" where
  "kmap i N F m \<longleftrightarrow> heap_tables m \<and> i + N \<le> HEAP_PAGES \<and> inj_on F {..<N} \<and>
     (\<forall>d < N. pte_frame m (page_pte m (i + d)) = F d \<and> 32768 \<le> F d \<and> F d < 1048576 \<and> frame_used m (F d))"

lemma kmap_busy:
  assumes "mm_inv m" and "heap_tables m" and "i + N \<le> HEAP_PAGES" and "{i..<i + N} \<subseteq> busy_pages m"
  shows "kmap i N (\<lambda>d. pte_frame m (page_pte m (i + d))) m"
proof -
  have "inj_on (\<lambda>k. pte_frame m (page_pte m k)) (busy_pages m)" using assms(1) by (simp add: mm_inv_def)
  moreover have b: "i + d \<in> busy_pages m" if "d < N" for d using assms(4) that by auto
  ultimately have "inj_on (\<lambda>d. pte_frame m (page_pte m (i + d))) {..<N}" by (fastforce simp: inj_on_def)
  then show ?thesis using assms b by (auto simp: kmap_def mm_inv_def)
qed

lemma kmap_keeps:
  assumes "kmap i N F m" and "keeps_maps m m'" and "{i..<i + N} \<subseteq> busy_pages m"
  shows "kmap i N F m'"
proof -
  have "page_pte m' = page_pte m" using assms(2) by (simp add: keeps_maps_def page_pte_def fun_eq_iff)
  moreover have "i + d \<in> busy_pages m" if "d < N" for d using assms(3) that by auto
  ultimately show ?thesis using assms(1,2) keeps_heap_tables [OF assms(2)] by (simp add: kmap_def keeps_maps_def)
qed

lemma page_addr_add: "page_addr i + of_nat (4096 * d) = page_addr (i + d)"
  by (simp add: page_addr_def algebra_simps)

lemma kaddr_kmap:
  assumes "kmap i N F m" and "j < 4096 * N"
  shows "kaddr (page_addr i + of_nat j) m = F (j div 4096) * 4096 + j mod 4096"
proof -
  let ?d = "j div 4096" and ?o = "j mod 4096"
  have d: "?d < N" using assms(2) by (simp add: div_less_iff_less_mult mult.commute)
  then have f: "pte_frame m (page_pte m (i + ?d)) = F ?d" "F ?d < 2 ^ 28" "i + ?d < HEAP_PAGES" "heap_tables m" using assms(1) by (auto simp: kmap_def)
  have "j = 4096 * ?d + ?o" by simp
  then have "page_addr i + of_nat j = page_addr i + of_nat (4096 * ?d) + of_nat ?o" by (metis add.assoc of_nat_add)
  then have a: "page_addr i + of_nat j = page_addr (i + ?d) + of_nat ?o" by (simp only: page_addr_add)
  have "unat (get_phy_addr (page_addr (i + ?d) + of_nat ?o) m) = F ?d * 4096" using get_phy_addr_heap [OF f(4,3), of ?o] f(1,2) by simp
  moreover have "unat ((page_addr (i + ?d) + of_nat ?o) AND 0xfff) = ?o"
  proof -
    define x where "x = page_addr (i + ?d) + of_nat ?o"
    have "x AND 0xfff = take_bit 12 x" by (simp add: take_bit_eq_mask mask_eq_exp_minus_1)
    then have "unat (x AND 0xfff) = unat x mod 2 ^ 12" by (simp only: unsigned_take_bit_eq) (simp only: take_bit_eq_mod)
    then have "unat ((page_addr (i + ?d) + of_nat ?o) AND 0xfff) = (0x100000000 + (i + ?d) * 4096 + ?o) mod 2 ^ 12"
      using unat_page_addr [OF f(3), of ?o] by (simp add: x_def)
    also have "0x100000000 + (i + ?d) * 4096 + ?o = ?o + 2 ^ 12 * (1048576 + i + ?d)" by simp
    also have "(?o + 2 ^ 12 * (1048576 + i + ?d)) mod 2 ^ 12 = ?o" unfolding mod_mult_self2 by simp
    finally show ?thesis .
  qed
  ultimately show ?thesis by (simp only: kaddr_def a)
qed

lemma room_alloc_frame:
  assumes "heap_room (Suc k) m"
  obtains f m' where "alloc_frame m = (frame_addr f, m')" "32768 \<le> f" "f < 1048576" "\<not> frame_used m f"
    "frame_used m' = (frame_used m)(f := True)" "m' = m\<lparr>RAM_BITMAP := RAM_BITMAP m'\<rparr>" "heap_room k m'"
proof -
  from assms obtain K where K: "mm_inv m" "tail_free K m" "K + Suc k \<le> HEAP_PAGES" "Suc k \<le> card (free_frames m)" by (auto simp: heap_room_def)
  obtain a m' where al: "alloc_frame m = (a, m')" by force
  have "free_frames m \<noteq> {}" using K(4) by auto
  then have nz: "a \<noteq> 0" using alloc_frame_succeeds [of m] al by simp
  obtain f where f: "a = frame_addr f" "32768 \<le> f" "f < 1048576" "\<not> frame_used m f" "frame_used m' = (frame_used m)(f := True)"
    "m' = m\<lparr>RAM_BITMAP := RAM_BITMAP m'\<rparr>" by (rule alloc_frame_fresh [OF al nz])
  have e: "PAGE_BITMAP m' = PAGE_BITMAP m" "alloc_spin_lock m' = alloc_spin_lock m" "pte_mem m' = pte_mem m" "alloc_pte m' = alloc_pte m"
    by (subst f(6), simp)+
  have "free_frames m' = free_frames m - {f}" using f(5) by (auto simp: free_frames_def)
  moreover have "f \<in> free_frames m" using f(2-4) by (simp add: free_frames_def)
  ultimately have "k \<le> card (free_frames m')" using K(4) free_frames_finite [of m] by (simp add: card_Diff_singleton)
  moreover have "mm_inv m'" using K(1) by (simp add: mm_inv_def busy_pages_def page_pte_def e f(5))
  moreover have "tail_free K m'" using K(2) by (simp add: tail_free_def e)
  ultimately have "heap_room k m'" using K(3) by (auto simp: heap_room_def)
  with that al f show ?thesis by blast
qed

text \<open>A store outside the tables of the heap.\<close>

lemma heap_room_store:
  assumes "heap_room k m" and "\<forall>a. a < alloc_pte m + 8 * HEAP_PAGES \<longrightarrow> h a = pte_mem m a"
  shows "heap_room k (m\<lparr>pte_mem := h\<rparr>)"
proof -
  have "h (page_pte m j) = pte_mem m (page_pte m j)" if "j \<in> busy_pages m" for j using assms(2) that by (simp add: busy_pages_def page_pte_def)
  moreover have "busy_pages (m\<lparr>pte_mem := h\<rparr>) = busy_pages m" "page_pte (m\<lparr>pte_mem := h\<rparr>) = page_pte m" by (simp_all add: busy_pages_def page_pte_def fun_eq_iff)
  moreover have "inj_on (\<lambda>j. unat (frames (h (page_pte m j)))) (busy_pages m) = inj_on (\<lambda>j. pte_frame m (page_pte m j)) (busy_pages m)"
    by (rule inj_on_cong) (simp add: calculation(1))
  ultimately show ?thesis using assms(1) by (auto simp: heap_room_def mm_inv_def tail_free_def free_frames_def)
qed

end
