(* ===== verification/Exec.thy ===== *)
theory Exec
  imports Grow Syscall Elf
begin

text \<open>
  Running a program, \<^verbatim>\<open>kernel/exectve.c\<close>: the page tables of the new program, its memory and its thread.

  The four levels of tables are pages of the kernel heap, which the kernel fills through its own mapping and
  the processor finds by their physical addresses.  So an entry lives in a typed memory at its physical
  address (\<open>pml4_mem\<close>, \<open>pdpt_mem\<close>, and \<open>pde_mem\<close> and \<open>pte_mem\<close> of the memory manager), and a store to \<open>v\<close> goes to
  \<open>kaddr v\<close>.  \<open>ram\<close> holds the bytes of the frames of programs.  \<open>hw_walk\<close> is the page walk of the processor: a byte
  at \<open>v\<close> of a program is the byte of \<open>ram\<close> at the end of the walk from its root.  Addresses below \<open>0x8000000000\<close> are
  those of the kernel, the same in all tables.

  Between the two \<^verbatim>\<open>load_pml4_table\<close> the code runs with the new tables: it works on \<open>space_mem\<close>, the memory as
  seen there, and \<open>put_pages\<close> stores the result in the frames.  An access outside the pages of the program has
  no result.
\<close>

section \<open>Tables\<close>

record pml4_table =
  pml_p :: bool
  pml_rw :: bool
  pml_us :: bool
  pml_pwt :: bool
  pml_pcd :: bool
  pml_rs1 :: "4 word"
  pml_ign :: "3 word"
  phy_addr_pdpt :: "40 word"
  pml_rs2 :: "12 word"

definition pdpte_zero :: pae_page_directory_pointer_table where
  "pdpte_zero = \<lparr>pdp_p = False, pdp_rw = False, pdp_us = False, pdp_pwt = False, pdp_pcd = False, pdp_rs1 = 0, pdp_ign = 0, phy_addr_pd = 0, pdp_rs2 = 0\<rparr>"

definition pml4_zero :: pml4_table where
  "pml4_zero = \<lparr>pml_p = False, pml_rw = False, pml_us = False, pml_pwt = False, pml_pcd = False, pml_rs1 = 0, pml_ign = 0, phy_addr_pdpt = 0, pml_rs2 = 0\<rparr>"

record exec_state = sys_state +
  pml4_mem :: "nat \<Rightarrow> pml4_table"
  pdpt_mem :: "nat \<Rightarrow> pae_page_directory_pointer_table"
  ram :: "nat \<Rightarrow> u8"

text \<open>The entry for a physical address.\<close>

definition table_field :: "u64 \<Rightarrow> 40 word" where
  "table_field phy = ucast (drop_bit 12 phy AND 0xffffffffffff)"

text \<open>\<^verbatim>\<open>memset\<close> of \<open>n\<close> page tables from \<open>v\<close> on, page by page, and the loops over the pages and over the tables.\<close>

fun clear_ptes :: "nat \<Rightarrow> u64 \<Rightarrow> 'a mm_state_scheme \<Rightarrow> 'a mm_state_scheme" where
  "clear_ptes 0 v m = m"
| "clear_ptes (Suc n) v m = clear_ptes n (v + 0x1000) (m\<lparr>pte_mem := fill_entries (kaddr v m) 512 pte_zero (pte_mem m)\<rparr>)"

fun map_pages :: "nat \<Rightarrow> u64 \<Rightarrow> 'a mm_state_scheme \<Rightarrow> 'a mm_state_scheme" where
  "map_pages 0 p m = m"
| "map_pages (Suc n) p m =
     (let (frame, m) = alloc_frame m;
          a = kaddr p m
      in map_pages n (p + 8) (m\<lparr>pte_mem := (pte_mem m)
           (a := (pte_mem m a)\<lparr>pt_p := True, pt_rw := True, pt_us := True, frames := table_field frame\<rparr>)\<rparr>))"

fun link_tables :: "nat \<Rightarrow> u64 \<Rightarrow> u64 \<Rightarrow> 'a mm_state_scheme \<Rightarrow> 'a mm_state_scheme" where
  "link_tables 0 d virt m = m"
| "link_tables (Suc n) d virt m =
     (let phy = get_phy_addr virt m;
          a = kaddr d m
      in link_tables n (d + 8) (virt + 0x1000) (m\<lparr>pde_mem := (pde_mem m)
           (a := (pde_mem m a)\<lparr>pd_p := True, pd_rw := True, pd_us := True, phy_addr_pt := table_field phy\<rparr>)\<rparr>))"

record program_space =
  sp_pml4e :: u64
  sp_pdpte :: u64
  sp_pde :: u64
  sp_pte :: u64
  sp_phy :: u64

definition make_space :: "nat \<Rightarrow> nat \<Rightarrow> 'a exec_state_scheme \<Rightarrow> (program_space \<times> 'a exec_state_scheme) option" where
  "make_space pagesize tbs s =
    do {
      (p4, s) \<leftarrow> new_pages 0 1 s;
      let s = s\<lparr>pml4_mem := fill_entries (kaddr p4 (fmm s)) 512 pml4_zero (pml4_mem s)\<rparr>;
      (p3, s) \<leftarrow> new_pages 0 1 s;
      let s = s\<lparr>pdpt_mem := fill_entries (kaddr p3 (fmm s)) 512 pdpte_zero (pdpt_mem s)\<rparr>;
      (pde, s) \<leftarrow> new_pages 0 1 s;
      let s = s\<lparr>fmm := (fmm s)\<lparr>pde_mem := fill_entries (kaddr pde (fmm s)) 512 pde_zero (pde_mem (fmm s))\<rparr>\<rparr>;
      (pte, s) \<leftarrow> new_pages 0 (of_nat tbs) s;
      let s = s\<lparr>fmm := clear_ptes tbs pte (fmm s)\<rparr>;
      let s = s\<lparr>pml4_mem := (pml4_mem s)(kaddr p4 (fmm s) := pml4_mem s (unat (kernel_pml4e s)))\<rparr>;
      let s = s\<lparr>fmm := map_pages pagesize pte (fmm s)\<rparr>;
      let s = s\<lparr>fmm := link_tables tbs pde pte (fmm s)\<rparr>;
      let a = kaddr p3 (fmm s);
      let phy = get_phy_addr pde (fmm s);
      let s = s\<lparr>pdpt_mem := (pdpt_mem s)(a := (pdpt_mem s a)\<lparr>pdp_p := True, pdp_rw := True, pdp_us := True, phy_addr_pd := table_field phy\<rparr>)\<rparr>;
      let a = kaddr (p4 + 8) (fmm s);
      let phy = get_phy_addr p3 (fmm s);
      let s = s\<lparr>pml4_mem := (pml4_mem s)(a := (pml4_mem s a)\<lparr>pml_p := True, pml_rw := True, pml_us := True, phy_addr_pdpt := table_field phy\<rparr>)\<rparr>;
      Some (\<lparr>sp_pml4e = p4, sp_pdpte = p3, sp_pde = pde, sp_pte = pte, sp_phy = get_phy_addr p4 (fmm s)\<rparr>, s) }"

section \<open>Memory of a program\<close>

definition hw_walk :: "'a exec_state_scheme \<Rightarrow> u64 \<Rightarrow> u64 \<Rightarrow> nat option" where
  "hw_walk s root v =
    (let e4 = pml4_mem s (unat root + 8 * unat (drop_bit 39 v AND 0x1FF));
         e3 = pdpt_mem s (unat (phy_addr_pdpt e4) * 4096 + 8 * unat (drop_bit 30 v AND 0x1FF));
         e2 = pde_mem (fmm s) (unat (phy_addr_pd e3) * 4096 + 8 * unat (drop_bit 21 v AND 0x1FF));
         e1 = pte_mem (fmm s) (unat (phy_addr_pt e2) * 4096 + 8 * unat (drop_bit 12 v AND 0x1FF))
     in if pml_p e4 \<and> pdp_p e3 \<and> pd_p e2 \<and> \<not> pd_ps e2 \<and> pt_p e1 then Some (unat (frames e1) * 4096 + unat (v AND 0xfff)) else None)"

abbreviation (input) USER_START :: u64 where "USER_START \<equiv> 0x8000000000"

definition space_mem :: "'a exec_state_scheme \<Rightarrow> u64 \<Rightarrow> mem" where
  "space_mem s root = (\<lambda>x. if x < USER_START then umem s x else case hw_walk s root x of None \<Rightarrow> 0 | Some p \<Rightarrow> ram s p)"

definition page_at_root :: "'a exec_state_scheme \<Rightarrow> u64 \<Rightarrow> nat \<Rightarrow> nat option" where
  "page_at_root s root i = hw_walk s root (USER_START + of_nat (4096 * i))"

definition put_pages :: "nat \<Rightarrow> u64 \<Rightarrow> mem \<Rightarrow> 'a exec_state_scheme \<Rightarrow> 'a exec_state_scheme" where
  "put_pages n root v s = s\<lparr>ram := fold (\<lambda>i r. case page_at_root s root i of None \<Rightarrow> r
     | Some f \<Rightarrow> (\<lambda>p. if f \<le> p \<and> p < f + 4096 then v (USER_START + of_nat (4096 * i + (p - f))) else r p)) [0..<n] (ram s)\<rparr>"

text \<open>The \<open>len\<close> bytes from \<open>a\<close> lie in the \<open>n\<close> pages of the program.\<close>

definition in_pages :: "nat \<Rightarrow> u64 \<Rightarrow> nat \<Rightarrow> bool" where
  "in_pages n a len \<longleftrightarrow> unat USER_START \<le> unat a \<and> unat a + len \<le> unat USER_START + n * 4096"

definition copy_string :: "nat \<Rightarrow> u64 \<Rightarrow> u64 \<Rightarrow> mem \<Rightarrow> mem option" where
  "copy_string n d src m = do { e \<leftarrow> strlen_loop src m; if in_pages n d (unat (e - src) + 1) then strcpy d src m else None }"

definition wr64 :: "u64 \<Rightarrow> u64 \<Rightarrow> mem \<Rightarrow> mem" where
  "wr64 p v m = put_mem p (map (\<lambda>i. ucast (drop_bit (8 * i) v)) [0..<8]) m"

text \<open>The loops over the array \<^verbatim>\<open>arg\<close> of pointers and over the arguments, from \<open>i\<close> on.\<close>

fun put_ptrs :: "nat \<Rightarrow> u64 \<Rightarrow> u64 \<Rightarrow> nat \<Rightarrow> mem \<Rightarrow> mem" where
  "put_ptrs 0 arg argv_ptr i m = m"
| "put_ptrs (Suc k) arg argv_ptr i m = put_ptrs k arg argv_ptr (i + 1) (wr64 (arg + of_nat (8 * i)) (argv_ptr + of_nat (256 * i)) m)"

fun copy_args :: "nat \<Rightarrow> nat \<Rightarrow> u64 \<Rightarrow> u64 \<Rightarrow> nat \<Rightarrow> mem \<Rightarrow> mem option" where
  "copy_args n 0 arg argv i m = Some m"
| "copy_args n (Suc k) arg argv i m =
     do { m \<leftarrow> copy_string n (rd64 m (arg + of_nat (8 * i))) (rd64 m (argv + of_nat (8 * i))) m; copy_args n k arg argv (i + 1) m }"

text \<open>What runs with the new tables: clearing the memory, loading the file, the directory name and the arguments
  from \<open>argv_ptr\<close> on.\<close>

definition fill_space :: "nat \<Rightarrow> u64 \<Rightarrow> u64 \<Rightarrow> u32 \<Rightarrow> u64 \<Rightarrow> u64 \<Rightarrow> mem \<Rightarrow> mem option" where
  "fill_space n bf argv_ptr argc argv pwd m =
    do {
      let m = memset USER_START 0 (of_nat n * 0x1000) m;
      (_, m) \<leftarrow> (if list_all (\<lambda>h. is_loaded h \<and> sh_size h \<noteq> 0 \<longrightarrow> in_pages n (sh_addr h) (unat (sh_size h))) (sections m bf) then load_elf64_segment bf m else None);
      let arg = argv_ptr + 0x1000;
      m \<leftarrow> (if in_pages n arg (8 * 128) then Some (put_ptrs 128 arg (argv_ptr + 0x2000) 0 m) else None);
      m \<leftarrow> (if pwd \<noteq> 0 then copy_string n argv_ptr pwd m else Some m);
      if argv \<noteq> 0 then copy_args n (nat (sint argc)) arg argv 0 m else Some m }"

text \<open>With a size of the program that is not positive as an \<^verbatim>\<open>int\<close>, at most one page is mapped (C truncates the division
  towards zero) and the array of arguments lies outside it: there is no result.\<close>

definition load_program :: "nat \<Rightarrow> u64 \<Rightarrow> u64 \<Rightarrow> u32 \<Rightarrow> u64 \<Rightarrow> u64 \<Rightarrow> 'a exec_state_scheme \<Rightarrow> (program_space \<times> 'a exec_state_scheme) option" where
  "load_program pagesize bf argv_ptr argc argv pwd s =
    do {
      (sp, s) \<leftarrow> make_space pagesize (ceil_div pagesize 512) s;
      let ps = map (page_at_root s (sp_phy sp)) [0..<pagesize];
      m \<leftarrow> (if None \<notin> set ps \<and> distinct ps then fill_space pagesize bf argv_ptr argc argv pwd (space_mem s (sp_phy sp)) else None);
      Some (sp, put_pages pagesize (sp_phy sp) m s) }"

definition set_space :: "program_space \<Rightarrow> nat \<Rightarrow> THREAD \<Rightarrow> THREAD" where
  "set_space sp pagesize t = t\<lparr>t_pml4e_addr := sp_pml4e sp, t_pdpte_addr := sp_pdpte sp, t_pde_addr := sp_pde sp, t_pte_addr := sp_pte sp,
     t_frame_size := of_nat pagesize\<rparr>"

definition physize_of :: "program_header \<Rightarrow> int" where
  "physize_of ph = sint (ucast (ph_end ph + 0x30000 - ph_start ph) :: u32)"

definition exectve :: "disk \<Rightarrow> u8 list \<Rightarrow> u64 \<Rightarrow> u32 \<Rightarrow> u64 \<Rightarrow> u64 \<Rightarrow> u64 \<Rightarrow> 'a exec_state_scheme \<Rightarrow> (u64 \<times> 'a exec_state_scheme) option" where
  "exectve rd sse user argc argv pwd bf s =
    do {
      (_, phdr) \<leftarrow> load_elf64_header bf (umem s);
      case phdr of None \<Rightarrow> Some (0, s)
      | Some ph \<Rightarrow>
          if physize_of ph \<le> 0 then None
          else do {
            let stack = ph_end ph + 0x30000;
            let pagesize = ceil_div (nat (physize_of ph)) 0x1000;
            let argv_ptr = ph_end ph;
            (sp, s) \<leftarrow> load_program pagesize bf argv_ptr argc argv pwd s;
            (thread, s) \<leftarrow> create_thread rd sse (ph_entry ph) stack (sp_phy sp) user 0x11 argc (argv_ptr + 0x1000) argv_ptr s;
            s \<leftarrow> upd_thread thread (set_space sp pagesize) s;
            t \<leftarrow> threads s thread;
            Some (t_pid t, s) } }"

definition exectve_child :: "u8 list \<Rightarrow> u64 \<Rightarrow> u32 \<Rightarrow> u64 \<Rightarrow> u64 \<Rightarrow> u64 \<Rightarrow> u64 \<Rightarrow> 'a exec_state_scheme \<Rightarrow> (u64 \<times> 'a exec_state_scheme) option" where
  "exectve_child sse user argc argv pwd bf thread s =
    do {
      (_, phdr) \<leftarrow> load_elf64_header bf (umem s);
      case phdr of None \<Rightarrow> Some (0, s)
      | Some ph \<Rightarrow>
          if physize_of ph \<le> 0 then None
          else do {
            let stack = ph_end ph + 0x30000;
            let pagesize = ceil_div (nat (physize_of ph)) 0x1000;
            let argv_ptr = USER_START + of_int (physize_of ph) - 0x30000;
            (sp, s) \<leftarrow> load_program pagesize bf argv_ptr argc argv pwd s;
            (thread2, s) \<leftarrow> create_thread_child sse (ph_entry ph) stack (sp_phy sp) user 1 argc (argv_ptr + 0x1000) argv_ptr thread s;
            s \<leftarrow> upd_thread thread2 (set_space sp pagesize) s;
            t \<leftarrow> threads s thread2;
            Some (t_pid t, s) } }"

end
