(* ===== verification/Tables.thy ===== *)
theory Tables
  imports Exec
begin

text \<open>
  The page tables of a new program: the loops of \<open>make_space\<close> and the walk through what they build.
  \<open>prog_tables\<close> describes the four levels by the frames they lie in.
\<close>

section \<open>The loops\<close>

text \<open>The place of entry \<open>j\<close> of the page tables that lie in the frames \<open>F 0, F 1, \<dots>\<close>.\<close>

definition pt_slot :: "(nat \<Rightarrow> nat) \<Rightarrow> nat \<Rightarrow> nat" where
  "pt_slot F j = F (j div 512) * 4096 + 8 * (j mod 512)"

lemma pt_slot_inj:
  assumes "inj_on F {..<N}" and "i < 512 * N" and "j < 512 * N" and "pt_slot F i = pt_slot F j"
  shows "i = j"
proof -
  have d: "i div 512 < N" "j div 512 < N" using assms(2,3) by (simp_all add: div_less_iff_less_mult mult.commute)
  have m: "8 * (i mod 512) < 4096" "8 * (j mod 512) < 4096" by simp_all
  have "F (i div 512) = pt_slot F i div 4096" "F (j div 512) = pt_slot F j div 4096" "8 * (i mod 512) = pt_slot F i mod 4096" "8 * (j mod 512) = pt_slot F j mod 4096"
    using m unfolding pt_slot_def by simp_all
  then have "F (i div 512) = F (j div 512)" "i mod 512 = j mod 512" using assms(4) by simp_all
  then have "i div 512 = j div 512" using assms(1) d by (simp add: inj_on_def)
  then show ?thesis using \<open>i mod 512 = j mod 512\<close> by (metis div_mult_mod_eq)
qed

lemma kaddr_slot:
  assumes "kmap i N F m" and "j < 512 * N"
  shows "kaddr (page_addr i + of_nat (8 * j)) m = pt_slot F j"
proof -
  have "8 * j div 4096 = j div 512" "8 * j mod 4096 = 8 * (j mod 512)" using div_mult_mult1 [of 8 j 512] mult_mod_right [of 8 j 512] by simp_all
  then show ?thesis using kaddr_kmap [OF assms(1), of "8 * j"] assms(2) by (simp add: pt_slot_def)
qed

lemma kaddr_page:
  assumes "kmap i N F m" and "d < N"
  shows "kaddr (page_addr (i + d)) m = F d * 4096" and "get_phy_addr (page_addr (i + d)) m = of_nat (F d * 4096)"
proof -
  show "kaddr (page_addr (i + d)) m = F d * 4096" using kaddr_kmap [OF assms(1), of "4096 * d"] assms(2) unfolding page_addr_add by simp
  have f: "pte_frame m (page_pte m (i + d)) = F d" "F d < 2 ^ 28" "i + d < HEAP_PAGES" "heap_tables m" using assms by (auto simp: kmap_def)
  have u: "unat (get_phy_addr (page_addr (i + d)) m) = F d * 4096" using get_phy_addr_heap [OF f(4,3), of 0] f(1,2) by simp
  have "get_phy_addr (page_addr (i + d)) m = of_nat (unat (get_phy_addr (page_addr (i + d)) m))" by simp
  then show "get_phy_addr (page_addr (i + d)) m = of_nat (F d * 4096)" unfolding u .
qed

lemma table_field_frame: "f < 1048576 \<Longrightarrow> table_field (of_nat (f * 4096)) = of_nat f"
  unfolding table_field_def using frame_pte_roundtrip(1) [of f] by (simp add: frame_addr_def)

text \<open>Stores above the tables of the heap keep the kernel's mapping.\<close>

lemma kmap_slot: "kmap i N F m \<Longrightarrow> d < N \<Longrightarrow> 0x8000000 \<le> F d * 4096"
  by (auto simp: kmap_def)

lemma heap_table_below: "heap_tables m \<Longrightarrow> alloc_pte m + 8 * HEAP_PAGES \<le> 0x8000000"
  by (simp add: heap_tables_def)

lemma kmap_pte_store:
  assumes "kmap i N F m" and "\<forall>a < 0x8000000. h a = pte_mem m a"
  shows "kmap i N F (m\<lparr>pte_mem := h\<rparr>)"
proof -
  have "page_pte (m\<lparr>pte_mem := h\<rparr>) = page_pte m" "heap_tables (m\<lparr>pte_mem := h\<rparr>) = heap_tables m" by (simp_all add: page_pte_def heap_tables_def fun_eq_iff)
  moreover have "h (page_pte m (i + d)) = pte_mem m (page_pte m (i + d))" if "d < N" for d
    using assms that by (auto simp: kmap_def heap_tables_def page_pte_def)
  ultimately show ?thesis using assms(1) by (simp add: kmap_def)
qed

lemma kmap_pde_store:
  assumes "kmap i N F m" and "\<forall>a < 0x8000000. h a = pde_mem m a"
  shows "kmap i N F (m\<lparr>pde_mem := h\<rparr>)"
  using assms by (auto simp: kmap_def heap_tables_def page_pte_def)

lemma kmap_ram:
  assumes "kmap i N F m" and "\<forall>f. frame_used m f \<longrightarrow> bmp_bit b f"
  shows "kmap i N F (m\<lparr>RAM_BITMAP := b\<rparr>)"
  using assms by (auto simp: kmap_def heap_tables_def page_pte_def)

lemma room_pde: "heap_room k (m\<lparr>pde_mem := h\<rparr>) = heap_room k m"
  by (simp add: heap_room_def mm_inv_def busy_pages_def page_pte_def tail_free_def free_frames_def)

lemma clear_ptes_ok:
  assumes "kmap i N F m" and "d + n \<le> N" and "heap_room k m"
  shows "\<exists>h. clear_ptes n (page_addr (i + d)) m = m\<lparr>pte_mem := h\<rparr> \<and> (\<forall>a < 0x8000000. h a = pte_mem m a) \<and>
    (\<forall>j. 512 * d \<le> j \<and> j < 512 * (d + n) \<longrightarrow> h (pt_slot F j) = pte_zero) \<and>
    (\<forall>a. (\<forall>e. d \<le> e \<and> e < d + n \<longrightarrow> a div 4096 \<noteq> F e) \<longrightarrow> h a = pte_mem m a) \<and> heap_room k (m\<lparr>pte_mem := h\<rparr>)"
  using assms
proof (induction n arbitrary: d m)
  case 0
  then show ?case by (intro exI [of _ "pte_mem m"]) auto
next
  case (Suc n)
  have d: "d < N" using Suc.prems(2) by simp
  define h0 where "h0 = fill_entries (F d * 4096) 512 pte_zero (pte_mem m)"
  have h0: "h0 a = (if a div 4096 = F d then pte_zero else pte_mem m a)" for a
    by (auto simp: h0_def fill_entries_def)
  have lo: "\<forall>a < 0x8000000. h0 a = pte_mem m a" using kmap_slot [OF Suc.prems(1) d] by (auto simp: h0)
  have ht: "heap_tables m" using Suc.prems(1) by (simp add: kmap_def)
  have k1: "kmap i N F (m\<lparr>pte_mem := h0\<rparr>)" by (rule kmap_pte_store [OF Suc.prems(1) lo])
  have r1: "heap_room k (m\<lparr>pte_mem := h0\<rparr>)" by (rule heap_room_store [OF Suc.prems(3)]) (use lo heap_table_below [OF ht] in auto)
  have n1: "Suc d + n \<le> N" using Suc.prems(2) by simp
  obtain h where h: "clear_ptes n (page_addr (i + Suc d)) (m\<lparr>pte_mem := h0\<rparr>) = m\<lparr>pte_mem := h0\<rparr>\<lparr>pte_mem := h\<rparr>"
    "\<forall>a < 0x8000000. h a = h0 a" "\<forall>j. 512 * Suc d \<le> j \<and> j < 512 * (Suc d + n) \<longrightarrow> h (pt_slot F j) = pte_zero"
    "\<forall>a. (\<forall>e. Suc d \<le> e \<and> e < Suc d + n \<longrightarrow> a div 4096 \<noteq> F e) \<longrightarrow> h a = h0 a" "heap_room k (m\<lparr>pte_mem := h0\<rparr>\<lparr>pte_mem := h\<rparr>)"
    using Suc.IH [OF k1 n1 r1] by auto
  have p: "page_addr (i + d) + 0x1000 = page_addr (i + Suc d)" using page_addr_add [of "i + d" 1] by simp
  have "clear_ptes (Suc n) (page_addr (i + d)) m = m\<lparr>pte_mem := h\<rparr>"
    using h(1) kaddr_page(1) [OF Suc.prems(1) d] by (simp add: p h0_def)
  moreover have "h (pt_slot F j) = pte_zero" if j: "512 * d \<le> j" "j < 512 * (d + Suc n)" for j
  proof (cases "512 * Suc d \<le> j")
    case True
    then show ?thesis using h(3) j(2) by simp
  next
    case False
    then have jd: "j div 512 = d" using j(1) by (simp add: div_nat_eqI)
    then have s: "pt_slot F j div 4096 = F d" by (simp add: pt_slot_def)
    have "F e \<noteq> F d" if "Suc d \<le> e" "e < Suc d + n" for e
      using inj_on_eq_iff [of F "{..<N}" e d] Suc.prems(1) that n1 d by (simp add: kmap_def)
    then have "h (pt_slot F j) = h0 (pt_slot F j)" using h(4) s by (metis (no_types))
    then show ?thesis using s by (simp add: h0)
  qed
  moreover have "h a = pte_mem m a" if "\<forall>e. d \<le> e \<and> e < d + Suc n \<longrightarrow> a div 4096 \<noteq> F e" for a
  proof -
    have "h a = h0 a" using h(4) that by auto
    then show ?thesis using that by (simp add: h0)
  qed
  moreover have "\<forall>a < 0x8000000. h a = pte_mem m a" using h(2) lo by simp
  ultimately show ?case using h(5) by auto
qed

text \<open>The entry of a page of the program.\<close>

definition user_pte :: "nat \<Rightarrow> pae_page_table" where
  "user_pte f = pte_zero\<lparr>pt_p := True, pt_rw := True, pt_us := True, frames := of_nat f\<rparr>"

definition user_pde :: "nat \<Rightarrow> pae_page_directory" where
  "user_pde f = pde_zero\<lparr>pd_p := True, pd_rw := True, pd_us := True, phy_addr_pt := of_nat f\<rparr>"

lemma map_pages_ok:
  assumes "kmap i N F m" and "j + n \<le> 512 * N" and "heap_room (n + k) m" and "\<forall>l. j \<le> l \<and> l < j + n \<longrightarrow> pte_mem m (pt_slot F l) = pte_zero"
  shows "\<exists>m' fs. map_pages n (page_addr i + of_nat (8 * j)) m = m' \<and> m' = m\<lparr>RAM_BITMAP := RAM_BITMAP m', pte_mem := pte_mem m'\<rparr> \<and>
    length fs = n \<and> distinct fs \<and> (\<forall>f \<in> set fs. 32768 \<le> f \<and> f < 1048576 \<and> \<not> frame_used m f) \<and>
    (\<forall>f. frame_used m' f \<longleftrightarrow> frame_used m f \<or> f \<in> set fs) \<and> (\<forall>a < 0x8000000. pte_mem m' a = pte_mem m a) \<and>
    (\<forall>l < n. pte_mem m' (pt_slot F (j + l)) = user_pte (fs ! l)) \<and>
    (\<forall>a. (\<forall>l < n. a \<noteq> pt_slot F (j + l)) \<longrightarrow> pte_mem m' a = pte_mem m a) \<and> heap_room k m'"
  using assms
proof (induction n arbitrary: j m)
  case 0
  then show ?case by (intro exI [of _ m] exI [of _ "[]"]) simp
next
  case (Suc n)
  have r: "heap_room (Suc (n + k)) m" using Suc.prems(3) by simp
  obtain f m1 where f: "alloc_frame m = (frame_addr f, m1)" "32768 \<le> f" "f < 1048576" "\<not> frame_used m f"
    "frame_used m1 = (frame_used m)(f := True)" "m1 = m\<lparr>RAM_BITMAP := RAM_BITMAP m1\<rparr>" "heap_room (n + k) m1"
    by (rule room_alloc_frame [OF r])
  have pm: "pte_mem m1 = pte_mem m" by (subst f(6)) simp
  have k1: "kmap i N F m1" by (subst f(6), rule kmap_ram [OF Suc.prems(1)]) (simp add: f(5))
  let ?a = "pt_slot F j"
  have jd: "j div 512 < N" using Suc.prems(2) by (simp add: div_less_iff_less_mult mult.commute)
  have a: "kaddr (page_addr i + of_nat (8 * j)) m1 = ?a" by (rule kaddr_slot [OF k1]) (use Suc.prems(2) in simp)
  have al: "0x8000000 \<le> ?a" using kmap_slot [OF Suc.prems(1) jd] by (simp add: pt_slot_def)
  have z: "pte_mem m ?a = pte_zero" using Suc.prems(4) by simp
  define m2 where "m2 = m1\<lparr>pte_mem := (pte_mem m)(?a := user_pte f)\<rparr>"
  have e: "(pte_zero :: pae_page_table)\<lparr>pt_p := True, pt_rw := True, pt_us := True, frames := table_field (frame_addr f)\<rparr> = user_pte f"
    using table_field_frame [OF f(3)] by (simp add: user_pte_def frame_addr_def)
  have p8: "page_addr i + of_nat (8 * j) + 8 = page_addr i + of_nat (8 * Suc j)" by (simp add: algebra_simps)
  have step: "map_pages (Suc n) (page_addr i + of_nat (8 * j)) m = map_pages n (page_addr i + of_nat (8 * Suc j)) m2"
    unfolding p8 [symmetric] by (simp add: f(1) a pm z e m2_def del: of_nat_mult)
  have k2: "kmap i N F m2" unfolding m2_def by (rule kmap_pte_store [OF k1]) (use al in \<open>simp add: pm\<close>)
  have ht: "heap_tables m1" using k1 by (simp add: kmap_def)
  have r2: "heap_room (n + k) m2" unfolding m2_def by (rule heap_room_store [OF f(7)]) (use al heap_table_below [OF ht] in \<open>simp add: pm\<close>)
  have inj: "inj_on F {..<N}" using k1 by (simp add: kmap_def)
  have ne: "pt_slot F l \<noteq> ?a" if "Suc j \<le> l" "l < Suc j + n" for l
    using pt_slot_inj [OF inj, of l j] that Suc.prems(2) by auto
  have z2: "\<forall>l. Suc j \<le> l \<and> l < Suc j + n \<longrightarrow> pte_mem m2 (pt_slot F l) = pte_zero" using ne Suc.prems(4) by (simp add: m2_def)
  have n2: "Suc j + n \<le> 512 * N" using Suc.prems(2) by simp
  obtain m' fs where IH: "map_pages n (page_addr i + of_nat (8 * Suc j)) m2 = m'" "m' = m2\<lparr>RAM_BITMAP := RAM_BITMAP m', pte_mem := pte_mem m'\<rparr>"
    "length fs = n" "distinct fs" "\<forall>f \<in> set fs. 32768 \<le> f \<and> f < 1048576 \<and> \<not> frame_used m2 f"
    "\<forall>f. frame_used m' f \<longleftrightarrow> frame_used m2 f \<or> f \<in> set fs" "\<forall>a < 0x8000000. pte_mem m' a = pte_mem m2 a"
    "\<forall>l < n. pte_mem m' (pt_slot F (Suc j + l)) = user_pte (fs ! l)"
    "\<forall>a. (\<forall>l < n. a \<noteq> pt_slot F (Suc j + l)) \<longrightarrow> pte_mem m' a = pte_mem m2 a" "heap_room k m'"
    using Suc.IH [OF k2 n2 r2 z2] by blast
  have u2: "frame_used m2 g \<longleftrightarrow> frame_used m g \<or> g = f" for g by (simp add: m2_def f(5))
  have m': "m' = m\<lparr>RAM_BITMAP := RAM_BITMAP m', pte_mem := pte_mem m'\<rparr>" by (subst IH(2), subst (1) m2_def, subst (1) f(6)) simp
  have first: "pte_mem m' ?a = user_pte f"
  proof -
    have "\<forall>l < n. ?a \<noteq> pt_slot F (Suc j + l)" using ne by (metis add_less_cancel_left le_add1)
    then show ?thesis using IH(9) by (simp add: m2_def)
  qed
  have ent: "pte_mem m' (pt_slot F (j + l)) = user_pte ((f # fs) ! l)" if "l < Suc n" for l
    using first IH(8) that by (cases l) simp_all
  have oth: "pte_mem m' a = pte_mem m a" if "\<forall>l < Suc n. a \<noteq> pt_slot F (j + l)" for a
  proof -
    have "\<forall>l < n. a \<noteq> pt_slot F (Suc j + l)" "a \<noteq> ?a" using that by (auto dest: spec [of _ "Suc _"] spec [of _ 0])
    then show ?thesis using IH(9) by (simp add: m2_def)
  qed
  have low: "\<forall>a < 0x8000000. pte_mem m' a = pte_mem m a" using IH(7) al by (simp add: m2_def)
  show ?case
    by (intro exI [of _ m'] exI [of _ "f # fs"] conjI)
      (use step IH(1,3-6,10) m' f(2-4) u2 ent oth low in auto)
qed

lemma link_tables_ok:
  assumes "kmap i N F m" and "kmap p 1 (\<lambda>_. g) m" and "d + n \<le> N" and "N \<le> 512" and "\<forall>e. d \<le> e \<and> e < d + n \<longrightarrow> pde_mem m (g * 4096 + 8 * e) = pde_zero"
  shows "\<exists>h. link_tables n (page_addr p + of_nat (8 * d)) (page_addr (i + d)) m = m\<lparr>pde_mem := h\<rparr> \<and> (\<forall>a < 0x8000000. h a = pde_mem m a) \<and>
    (\<forall>e. d \<le> e \<and> e < d + n \<longrightarrow> h (g * 4096 + 8 * e) = user_pde (F e)) \<and>
    (\<forall>a. (\<forall>e. d \<le> e \<and> e < d + n \<longrightarrow> a \<noteq> g * 4096 + 8 * e) \<longrightarrow> h a = pde_mem m a)"
  using assms
proof (induction n arbitrary: d m)
  case 0
  then show ?case by (intro exI [of _ "pde_mem m"]) auto
next
  case (Suc n)
  let ?a = "g * 4096 + 8 * d"
  have d: "d < N" "d < 512" using Suc.prems(3,4) by simp_all
  have g: "0x8000000 \<le> g * 4096" using kmap_slot [OF Suc.prems(2), of 0] by simp
  have a: "kaddr (page_addr p + of_nat (8 * d)) m = ?a" using kaddr_kmap [OF Suc.prems(2), of "8 * d"] d(2) by simp
  have "F d < 1048576" using Suc.prems(1) d(1) by (simp add: kmap_def)
  then have e: "(pde_zero :: pae_page_directory)\<lparr>pd_p := True, pd_rw := True, pd_us := True, phy_addr_pt := table_field (get_phy_addr (page_addr (i + d)) m)\<rparr> = user_pde (F d)"
    unfolding kaddr_page(2) [OF Suc.prems(1) d(1)] by (simp only: table_field_frame user_pde_def)
  define h0 where "h0 = (pde_mem m)(?a := user_pde (F d))"
  have z: "pde_mem m ?a = pde_zero" using Suc.prems(5) by simp
  have p8: "page_addr p + of_nat (8 * d) + 8 = page_addr p + of_nat (8 * Suc d)" "page_addr (i + d) + 0x1000 = page_addr (i + Suc d)"
    using page_addr_add [of "i + d" 1] by (simp_all add: algebra_simps)
  have step: "link_tables (Suc n) (page_addr p + of_nat (8 * d)) (page_addr (i + d)) m =
      link_tables n (page_addr p + of_nat (8 * Suc d)) (page_addr (i + Suc d)) (m\<lparr>pde_mem := h0\<rparr>)"
    unfolding p8 [symmetric] by (simp add: a z e h0_def Let_def del: of_nat_mult)
  have low: "\<forall>a < 0x8000000. h0 a = pde_mem m a" using g by (simp add: h0_def)
  have k1: "kmap i N F (m\<lparr>pde_mem := h0\<rparr>)" "kmap p 1 (\<lambda>_. g) (m\<lparr>pde_mem := h0\<rparr>)" using Suc.prems(1,2) kmap_pde_store low by blast+
  have z1: "\<forall>e. Suc d \<le> e \<and> e < Suc d + n \<longrightarrow> pde_mem (m\<lparr>pde_mem := h0\<rparr>) (g * 4096 + 8 * e) = pde_zero" using Suc.prems(5) by (simp add: h0_def)
  have n1: "Suc d + n \<le> N" using Suc.prems(3) by simp
  obtain h where h: "link_tables n (page_addr p + of_nat (8 * Suc d)) (page_addr (i + Suc d)) (m\<lparr>pde_mem := h0\<rparr>) = m\<lparr>pde_mem := h0\<rparr>\<lparr>pde_mem := h\<rparr>"
    "\<forall>a < 0x8000000. h a = h0 a" "\<forall>e. Suc d \<le> e \<and> e < Suc d + n \<longrightarrow> h (g * 4096 + 8 * e) = user_pde (F e)"
    "\<forall>a. (\<forall>e. Suc d \<le> e \<and> e < Suc d + n \<longrightarrow> a \<noteq> g * 4096 + 8 * e) \<longrightarrow> h a = h0 a"
    using Suc.IH [OF k1 n1 Suc.prems(4) z1] by auto
  have "h ?a = user_pde (F d)" using h(4) by (simp add: h0_def)
  then have "h (g * 4096 + 8 * e) = user_pde (F e)" if "d \<le> e" "e < d + Suc n" for e
    using h(3) that by (cases "e = d") auto
  moreover have "h a = pde_mem m a" if "\<forall>e. d \<le> e \<and> e < d + Suc n \<longrightarrow> a \<noteq> g * 4096 + 8 * e" for a
  proof -
    have "a \<noteq> ?a" using that by simp
    moreover have "h a = h0 a" using h(4) that by auto
    ultimately show ?thesis by (simp add: h0_def)
  qed
  moreover have "\<forall>a < 0x8000000. h a = pde_mem m a" using h(2) low by simp
  ultimately show ?case using step h(1) by auto
qed

section \<open>The tables of a program\<close>

text \<open>What no step of \<open>make_space\<close> and no later allocation changes.\<close>

definition keeps_low :: "'a mm_state_scheme \<Rightarrow> 'a mm_state_scheme \<Rightarrow> bool" where
  "keeps_low m m' \<longleftrightarrow> alloc_pte m' = alloc_pte m \<and> pdpte m' = pdpte m \<and> (\<forall>a < 0x8000000. pde_mem m' a = pde_mem m a) \<and>
     (\<forall>f. frame_used m f \<longrightarrow> frame_used m' f) \<and> busy_pages m \<subseteq> busy_pages m' \<and>
     (\<forall>k \<in> busy_pages m. pte_mem m' (page_pte m k) = pte_mem m (page_pte m k))"

lemma keeps_low_trans: "keeps_low m m1 \<Longrightarrow> keeps_low m1 m2 \<Longrightarrow> keeps_low m m2"
  unfolding keeps_low_def page_pte_def by (auto simp: subset_iff)

lemma keeps_low_maps: "keeps_maps m m' \<Longrightarrow> keeps_low m m'"
  by (simp add: keeps_maps_def keeps_low_def)

lemma keeps_low_tables: "keeps_low m m' \<Longrightarrow> heap_tables m \<Longrightarrow> heap_tables m'"
  by (auto simp: keeps_low_def heap_tables_def)

lemma keeps_low_pte:
  assumes "heap_tables m" and "\<forall>a < 0x8000000. h a = pte_mem m a" and "\<forall>f. frame_used m f \<longrightarrow> bmp_bit b f"
  shows "keeps_low m (m\<lparr>RAM_BITMAP := b, pte_mem := h\<rparr>)"
  using assms by (auto simp: keeps_low_def busy_pages_def page_pte_def heap_tables_def)

lemma keeps_low_pde: "\<forall>a < 0x8000000. h a = pde_mem m a \<Longrightarrow> keeps_low m (m\<lparr>pde_mem := h\<rparr>)"
  by (auto simp: keeps_low_def busy_pages_def page_pte_def)

definition ktab :: "nat \<Rightarrow> nat \<Rightarrow> (nat \<Rightarrow> nat) \<Rightarrow> 'a mm_state_scheme \<Rightarrow> bool" where
  "ktab i N F m \<longleftrightarrow> kmap i N F m \<and> {i..<i + N} \<subseteq> busy_pages m"

lemma ktab_keeps:
  assumes "ktab i N F m" and "keeps_low m m'"
  shows "ktab i N F m'"
proof -
  have "page_pte m' = page_pte m" using assms(2) by (simp add: keeps_low_def page_pte_def fun_eq_iff)
  moreover have "i + d \<in> busy_pages m" if "d < N" for d using assms(1) that by (auto simp: ktab_def)
  ultimately show ?thesis using assms keeps_low_tables [OF assms(2)] by (auto simp: ktab_def kmap_def keeps_low_def)
qed

lemma new_pages_run:
  assumes "heap_room (n + k) (fmm s)" and "heap_tables (fmm s)" and "unat len = n" "0 < n"
  obtains i F m' where "new_pages 0 len s = Some (page_addr i, s\<lparr>fmm := m'\<rparr>)" "ktab i n F m'" "keeps_low (fmm s) m'" "heap_room k m'"
    "page_addr i \<notin> live_blocks (fmm s)" "live_blocks m' = insert (page_addr i) (live_blocks (fmm s))" "keeps_maps (fmm s) m'"
proof -
  obtain i ks m' where a: "alloc_pages 0 len (fmm s) = Some (ucast len, Some (page_addr i), m')" "i + n \<le> HEAP_PAGES"
    "page_addr i \<notin> live_blocks (fmm s)" "live_blocks m' = insert (page_addr i) (live_blocks (fmm s))" "heap_room k m'" "keeps_maps (fmm s) m'" "{i..<i + n} \<subseteq> busy_pages m'"
    by (rule room_alloc_run [OF assms(1,3,4), of 0])
  have ht: "heap_tables m'" using keeps_heap_tables [OF a(6)] assms(2) by simp
  have "kmap i n (\<lambda>d. pte_frame m' (page_pte m' (i + d))) m'" by (rule kmap_busy [OF heap_room_inv [OF a(5)] ht a(2,7)])
  then show ?thesis using that [of i m'] a keeps_low_maps [OF a(6)] by (simp add: new_pages_def ktab_def)
qed

text \<open>\<open>prog_tables s f4 f3 f2 F fs\<close>: the tables lie in the frames \<open>f4\<close>, \<open>f3\<close>, \<open>f2\<close> and \<open>F 0, F 1, \<dots>\<close>, and map the pages of the
  program to the frames \<open>fs\<close>.\<close>

definition prog_tables :: "'a exec_state_scheme \<Rightarrow> nat \<Rightarrow> nat \<Rightarrow> nat \<Rightarrow> (nat \<Rightarrow> nat) \<Rightarrow> nat list \<Rightarrow> bool" where
  "prog_tables s f4 f3 f2 F fs \<longleftrightarrow> length fs \<le> 262144 \<and> f4 < 1048576 \<and> f3 < 1048576 \<and> f2 < 1048576 \<and> (\<forall>f \<in> set fs. f < 1048576) \<and>
     pml4_mem s (f4 * 4096 + 8) = pml4_zero\<lparr>pml_p := True, pml_rw := True, pml_us := True, phy_addr_pdpt := of_nat f3\<rparr> \<and>
     pdpt_mem s (f3 * 4096) = pdpte_zero\<lparr>pdp_p := True, pdp_rw := True, pdp_us := True, phy_addr_pd := of_nat f2\<rparr> \<and>
     (\<forall>e. 512 * e < length fs \<longrightarrow> 32768 \<le> F e \<and> F e < 1048576 \<and> pde_mem (fmm s) (f2 * 4096 + 8 * e) = user_pde (F e)) \<and>
     (\<forall>l < length fs. pte_mem (fmm s) (pt_slot F l) = user_pte (fs ! l))"

lemma user_addr:
  assumes "l < 262144" and "off < 4096"
  shows "unat (USER_START + of_nat (4096 * l + off) :: u64) = 0x8000000000 + (4096 * l + off)"
proof -
  have "USER_START + of_nat (4096 * l + off) = (of_nat (0x8000000000 + (4096 * l + off)) :: u64)" by simp
  then show ?thesis using assms by (simp only:) (rule unat_of_nat_small, simp)
qed

lemma user_indices:
  fixes l off :: nat
  assumes "l < 262144" and "off < 4096"
  defines "v \<equiv> 0x8000000000 + (4096 * l + off)"
  shows "v div 2 ^ 39 mod 512 = 1" "v div 2 ^ 30 mod 512 = 0" "v div 2 ^ 21 mod 512 = l div 512" "v div 2 ^ 12 mod 512 = l mod 512" "v mod 2 ^ 12 = off"
proof -
  have q: "v div 2 ^ 12 = 134217728 + l" using assms by simp
  have sp: "v div 2 ^ 21 = v div 2 ^ 12 div 512" "v div 2 ^ 30 = v div 2 ^ 12 div 262144" "v div 2 ^ 39 = v div 2 ^ 12 div 134217728"
    by (simp_all add: div_mult2_eq [symmetric])
  have "(134217728 + l) div 262144 = 512" using assms(1) div_mult_self3 [of 262144 512 l] by simp
  then show "v div 2 ^ 39 mod 512 = 1" "v div 2 ^ 30 mod 512 = 0" using assms(1) unfolding sp q by simp_all
  have "(134217728 + l) div 512 = 262144 + l div 512" by simp
  moreover have "(262144 + l div 512) mod 512 = l div 512" using assms(1) mod_mult_self3 [of 512 512 "l div 512"] by (simp add: div_less_iff_less_mult)
  ultimately show "v div 2 ^ 21 mod 512 = l div 512" unfolding sp q by simp
  show "v div 2 ^ 12 mod 512 = l mod 512" unfolding q using mod_mult_self3 [of 262144 512 l] by simp
  have "v = off + 2 ^ 12 * (134217728 + l)" by (simp add: v_def)
  then show "v mod 2 ^ 12 = off" using assms(2) by (simp only: mod_mult_self2) simp
qed

lemma low_bits: "unat ((v :: u64) AND 0xfff) = unat v mod 2 ^ 12"
proof -
  have "v AND 0xfff = take_bit 12 v" by (simp add: take_bit_eq_mask mask_eq_exp_minus_1)
  then show ?thesis by (simp only: unsigned_take_bit_eq) (simp only: take_bit_eq_mod)
qed

lemma prog_tables_walk:
  assumes "prog_tables s f4 f3 f2 F fs" and "l < length fs" and "off < 4096" and "unat root = f4 * 4096"
  shows "hw_walk s root (USER_START + of_nat (4096 * l + off)) = Some (fs ! l * 4096 + off)"
proof -
  have l: "l < 262144" using assms(1,2) by (simp add: prog_tables_def)
  let ?v = "USER_START + of_nat (4096 * l + off) :: u64"
  note u = user_addr [OF l assms(3)] and ix = user_indices [OF l assms(3)]
  have i: "unat (drop_bit 39 ?v AND 0x1FF) = 1" "unat (drop_bit 30 ?v AND 0x1FF) = 0" "unat (drop_bit 21 ?v AND 0x1FF) = l div 512"
    "unat (drop_bit 12 ?v AND 0x1FF) = l mod 512" "unat (?v AND 0xfff) = off"
    unfolding walk_index low_bits u by (rule ix)+
  have e: "512 * (l div 512) < length fs" using assms(2) by (metis div_times_less_eq_dividend le_less_trans mult.commute)
  have f: "f4 < 1048576" "f3 < 1048576" "f2 < 1048576" "F (l div 512) < 1048576" "fs ! l < 1048576" using assms(1,2) e by (auto simp: prog_tables_def)
  have t: "pml4_mem s (f4 * 4096 + 8) = pml4_zero\<lparr>pml_p := True, pml_rw := True, pml_us := True, phy_addr_pdpt := of_nat f3\<rparr>"
     "pdpt_mem s (f3 * 4096) = pdpte_zero\<lparr>pdp_p := True, pdp_rw := True, pdp_us := True, phy_addr_pd := of_nat f2\<rparr>"
     "pde_mem (fmm s) (f2 * 4096 + 8 * (l div 512)) = user_pde (F (l div 512))" "pte_mem (fmm s) (F (l div 512) * 4096 + 8 * (l mod 512)) = user_pte (fs ! l)"
    using assms(1,2) e by (auto simp: prog_tables_def pt_slot_def)
  have w: "unat (of_nat x :: 40 word) = x" if "x < 1048576" for x using that by (intro unat_of_nat_small) simp
  show ?thesis unfolding hw_walk_def Let_def i using f t assms(4) by (simp add: w user_pde_def user_pte_def pde_zero_def)
qed

lemma fill_entries_in: "j < n \<Longrightarrow> fill_entries b n z h (b + 8 * j) = z"
  by (simp add: fill_entries_def)

lemma ceil_div_eq: "0 < d \<Longrightarrow> ceil_div n d = (n + d - 1) div d"
proof -
  assume d: "0 < d"
  define q x r where "q = n div d" and "x = d * q" and "r = n mod d"
  have e: "n = x + r" "r < d" using d by (simp_all add: q_def x_def r_def)
  have s: "d * Suc q = d + x" "d * Suc (Suc q) = d + (d + x)" by (simp_all add: x_def)
  have "(n + d - 1) div d = q" if "r = 0"
    by (rule div_nat_eqI) (use d e that in \<open>simp_all add: s x_def [symmetric]\<close>)
  moreover have "(n + d - 1) div d = Suc q" if "r \<noteq> 0"
    by (rule div_nat_eqI) (use d e that in \<open>simp_all add: s x_def [symmetric]\<close>)
  ultimately show ?thesis by (simp add: ceil_div_def Let_def q_def r_def)
qed

lemma ceil_div_512: "n \<le> 512 * ceil_div n 512" "n \<le> 262144 \<Longrightarrow> ceil_div n 512 \<le> 512" "0 < n \<Longrightarrow> 0 < ceil_div n 512"
    "512 * e < n \<Longrightarrow> e < ceil_div n 512"
  by (simp_all add: ceil_div_eq div_le_mono dividend_less_times_div)

lemma ktab_first:
  assumes "ktab i N F m" and "0 < N"
  shows "kaddr (page_addr i) m = F 0 * 4096" and "get_phy_addr (page_addr i) m = of_nat (F 0 * 4096)" and "kaddr (page_addr i + 8) m = F 0 * 4096 + 8"
  using kaddr_page [of i N F m 0] kaddr_slot [of i N F m 1] assms by (simp_all add: ktab_def pt_slot_def)

lemma make_space_ok:
  assumes room: "heap_room (3 + tbs + n + k) (fmm s)" and ht: "heap_tables (fmm s)" and tbs: "tbs = ceil_div n 512" and n: "0 < n"
    and kp: "unat (kernel_pml4e s) < 0x8000000"
  obtains sp s' i f4 f3 f2 F fs where "make_space n tbs s = Some (sp, s')" "s' = s\<lparr>fmm := fmm s', pml4_mem := pml4_mem s', pdpt_mem := pdpt_mem s'\<rparr>"
    "unat (sp_phy sp) = f4 * 4096" "prog_tables s' f4 f3 f2 F fs" "length fs = n" "distinct fs" "\<forall>f \<in> set fs. \<not> frame_used (fmm s) f \<and> frame_used (fmm s') f"
    "pml4_mem s' (f4 * 4096) = pml4_mem s (unat (kernel_pml4e s))" "sp_pte sp = page_addr i" "ktab i tbs F (fmm s')" "keeps_low (fmm s) (fmm s')"
    "heap_room k (fmm s')" "distinct [sp_pml4e sp, sp_pdpte sp, sp_pde sp, sp_pte sp]"
    "set [sp_pml4e sp, sp_pdpte sp, sp_pde sp, sp_pte sp] \<inter> live_blocks (fmm s) = {}"
    "live_blocks (fmm s') = live_blocks (fmm s) \<union> set [sp_pml4e sp, sp_pdpte sp, sp_pde sp, sp_pte sp]"
proof -
  have N: "3 + tbs + n + k \<le> HEAP_PAGES" using room by (auto simp: heap_room_def)
  have t: "n \<le> 512 * tbs" "tbs \<le> 512" "0 < tbs" using ceil_div_512 [of n] n N unfolding tbs by auto
  have r0: "heap_room (1 + (1 + (1 + (tbs + (n + k))))) (fmm s)" using room by (simp add: numeral_3_eq_3 add.assoc)
  obtain i4 F4 m1 where a1: "new_pages 0 1 s = Some (page_addr i4, s\<lparr>fmm := m1\<rparr>)" "ktab i4 1 F4 m1" "keeps_low (fmm s) m1"
    "heap_room (1 + (1 + (tbs + (n + k)))) m1" "page_addr i4 \<notin> live_blocks (fmm s)" "live_blocks m1 = insert (page_addr i4) (live_blocks (fmm s))"
    by (rule new_pages_run [OF r0 ht, of 1]) simp_all
  define q4 where "q4 = fill_entries (F4 0 * 4096) 512 pml4_zero (pml4_mem s)"
  define s1 where "s1 = s\<lparr>fmm := m1, pml4_mem := q4\<rparr>"
  have e1: "fmm s1 = m1" "pml4_mem s1 = q4" by (simp_all add: s1_def)
  have h1: "heap_tables (fmm s1)" using keeps_low_tables [OF a1(3) ht] by (simp add: e1)
  have r1: "heap_room (1 + (1 + (tbs + (n + k)))) (fmm s1)" using a1(4) by (simp add: e1)
  obtain i3 F3 m2 where a2: "new_pages 0 1 s1 = Some (page_addr i3, s1\<lparr>fmm := m2\<rparr>)" "ktab i3 1 F3 m2" "keeps_low (fmm s1) m2"
    "heap_room (1 + (tbs + (n + k))) m2" "page_addr i3 \<notin> live_blocks (fmm s1)" "live_blocks m2 = insert (page_addr i3) (live_blocks (fmm s1))"
    by (rule new_pages_run [OF r1 h1, of 1]) simp_all
  define q3 where "q3 = fill_entries (F3 0 * 4096) 512 pdpte_zero (pdpt_mem s)"
  define s2 where "s2 = s1\<lparr>fmm := m2, pdpt_mem := q3\<rparr>"
  have e2: "fmm s2 = m2" by (simp add: s2_def)
  have h2: "heap_tables (fmm s2)" using keeps_low_tables [OF a2(3) h1] by (simp add: e2)
  have r2: "heap_room (1 + (tbs + (n + k))) (fmm s2)" using a2(4) by (simp add: e2)
  obtain i2 F2 m3 where a3: "new_pages 0 1 s2 = Some (page_addr i2, s2\<lparr>fmm := m3\<rparr>)" "ktab i2 1 F2 m3" "keeps_low (fmm s2) m3"
    "heap_room (tbs + (n + k)) m3" "page_addr i2 \<notin> live_blocks (fmm s2)" "live_blocks m3 = insert (page_addr i2) (live_blocks (fmm s2))"
    by (rule new_pages_run [OF r2 h2, of 1]) simp_all
  define m3' where "m3' = m3\<lparr>pde_mem := fill_entries (F2 0 * 4096) 512 pde_zero (pde_mem m3)\<rparr>"
  define s3 where "s3 = s2\<lparr>fmm := m3'\<rparr>"
  have e3: "fmm s3 = m3'" by (simp add: s3_def)
  have f2l: "0x8000000 \<le> F2 0 * 4096" using kmap_slot [of i2 1 F2 m3 0] a3(2) by (simp add: ktab_def)
  have l3: "keeps_low m3 m3'" unfolding m3'_def by (rule keeps_low_pde) (use f2l in \<open>simp add: fill_entries_def\<close>)
  have h3: "heap_tables (fmm s3)" using keeps_low_tables [OF keeps_low_trans [OF a3(3) l3] h2] by (simp add: e3)
  have r3: "heap_room (tbs + (n + k)) (fmm s3)" using a3(4) by (simp add: e3 m3'_def room_pde)
  have ut: "unat (of_nat tbs :: u32) = tbs" using t(2) by (intro unat_of_nat_small) simp
  obtain i1 F m4 where a4: "new_pages 0 (of_nat tbs) s3 = Some (page_addr i1, s3\<lparr>fmm := m4\<rparr>)" "ktab i1 tbs F m4" "keeps_low (fmm s3) m4"
    "heap_room (n + k) m4" "page_addr i1 \<notin> live_blocks (fmm s3)" "live_blocks m4 = insert (page_addr i1) (live_blocks (fmm s3))" "keeps_maps (fmm s3) m4"
    by (rule new_pages_run [OF r3 h3 ut t(3)])
  have km4: "kmap i1 tbs F m4" using a4(2) by (simp add: ktab_def)
  obtain h5 where c: "clear_ptes tbs (page_addr i1) m4 = m4\<lparr>pte_mem := h5\<rparr>" "\<forall>a < 0x8000000. h5 a = pte_mem m4 a"
    "\<forall>j < 512 * tbs. h5 (pt_slot F j) = pte_zero" "heap_room (n + k) (m4\<lparr>pte_mem := h5\<rparr>)"
    using clear_ptes_ok [OF km4 _ a4(4), of 0 tbs] by auto
  define m5 where "m5 = m4\<lparr>pte_mem := h5\<rparr>"
  have h4: "heap_tables m4" using km4 by (simp add: kmap_def)
  have l5: "keeps_low m4 m5" using keeps_low_pte [OF h4 c(2), of "RAM_BITMAP m4"] by (simp add: m5_def)
  have k5: "ktab i1 tbs F m5" by (rule ktab_keeps [OF a4(2) l5])
  have km5: "kmap i1 tbs F m5" using k5 by (simp add: ktab_def)
  have r5: "heap_room (n + k) m5" using c(4) by (simp add: m5_def)
  obtain m6 fs where mp: "map_pages n (page_addr i1 + of_nat (8 * 0)) m5 = m6" "m6 = m5\<lparr>RAM_BITMAP := RAM_BITMAP m6, pte_mem := pte_mem m6\<rparr>"
    "length fs = n" "distinct fs" "\<forall>f \<in> set fs. 32768 \<le> f \<and> f < 1048576 \<and> \<not> frame_used m5 f"
    "\<forall>f. frame_used m6 f \<longleftrightarrow> frame_used m5 f \<or> f \<in> set fs" "\<forall>a < 0x8000000. pte_mem m6 a = pte_mem m5 a"
    "\<forall>l < n. pte_mem m6 (pt_slot F (0 + l)) = user_pte (fs ! l)" "heap_room k m6"
    using map_pages_ok [OF km5 _ r5, of 0] t(1) c(3) by (fastforce simp: m5_def)
  have h5: "heap_tables m5" using km5 by (simp add: kmap_def)
  have l6: "keeps_low m5 m6" by (subst mp(2), rule keeps_low_pte [OF h5 mp(7)]) (use mp(6) in simp)
  have chain: "keeps_low m1 m2" "keeps_low m2 m3" "keeps_low m3' m4" using a2(3) a3(3) a4(3) by (simp_all add: e1 e2 e3)
  have k6: "ktab i1 tbs F m6" "ktab i2 1 F2 m6" by (meson ktab_keeps k5 a3(2) l3 chain(3) l5 l6)+
  have "kmap i2 1 (\<lambda>_. F2 0) m6" using k6(2) by (simp add: ktab_def kmap_def inj_on_def)
  moreover have pd6: "pde_mem m6 = pde_mem m3'" using a4(7) by (subst mp(2)) (simp add: m5_def keeps_maps_def e3)
  then have "\<forall>e < tbs. pde_mem m6 (F2 0 * 4096 + 8 * e) = pde_zero" using t(2) by (simp add: m3'_def fill_entries_in)
  ultimately obtain h7 where lk: "link_tables tbs (page_addr i2) (page_addr i1) m6 = m6\<lparr>pde_mem := h7\<rparr>" "\<forall>a < 0x8000000. h7 a = pde_mem m6 a"
    "\<forall>e < tbs. h7 (F2 0 * 4096 + 8 * e) = user_pde (F e)"
    using link_tables_ok [of i1 tbs F m6 i2 "F2 0" 0 tbs] k6(1) t(2) by (auto simp: ktab_def)
  define m7 where "m7 = m6\<lparr>pde_mem := h7\<rparr>"
  have l7: "keeps_low m6 m7" unfolding m7_def by (rule keeps_low_pde [OF lk(2)])
  have k7: "ktab i1 tbs F m7" "ktab i2 1 F2 m7" "ktab i3 1 F3 m7" "ktab i4 1 F4 m7"
    by (meson ktab_keeps k6 a1(2) a2(2) chain l3 l5 l6 l7)+
  define q4' where "q4' = q4(F4 0 * 4096 := q4 (unat (kernel_pml4e s)))"
  define s' where "s' = s\<lparr>fmm := m7,
    pml4_mem := q4'(F4 0 * 4096 + 8 := pml4_zero\<lparr>pml_p := True, pml_rw := True, pml_us := True, phy_addr_pdpt := of_nat (F3 0)\<rparr>),
    pdpt_mem := q3(F3 0 * 4096 := pdpte_zero\<lparr>pdp_p := True, pdp_rw := True, pdp_us := True, phy_addr_pd := of_nat (F2 0)\<rparr>)\<rparr>"
  define sp where "sp = \<lparr>sp_pml4e = page_addr i4, sp_pdpte = page_addr i3, sp_pde = page_addr i2, sp_pte = page_addr i1, sp_phy = of_nat (F4 0 * 4096)\<rparr>"
  have f: "32768 \<le> F4 0" "F4 0 < 1048576" "F3 0 < 1048576" "F2 0 < 1048576" using k7(2-4) by (simp_all add: ktab_def kmap_def)
  have z: "q4' (F4 0 * 4096 + 8) = pml4_zero" "q3 (F3 0 * 4096) = pdpte_zero" using fill_entries_in [of 1 512] fill_entries_in [of 0 512] by (simp_all add: q4'_def q4_def q3_def)
  have k5': "ktab i4 1 F4 m5" by (meson ktab_keeps a1(2) chain l3 l5)
  note ka = ktab_first(1) [OF a1(2)] ktab_first(1) [OF a2(2)] ktab_first(1) [OF a3(2)] ktab_first(1) [OF k5'] ktab_first [OF k7(2)] ktab_first [OF k7(3)] ktab_first [OF k7(4)]
  have run: "make_space n tbs s = Some (sp, s')"
    using a1(1) a2(1) a3(1) a4(1) c(1) mp(1) lk(1) ka z
    by (simp add: make_space_def Let_def s1_def s2_def s3_def m3'_def m5_def m7_def q4_def q3_def q4'_def s'_def sp_def table_field_frame [simplified] f)
  have all: "keeps_low (fmm s) m5" "keeps_low m5 m7"
    by (meson keeps_low_trans a1(3) chain l3 l5 l6 l7)+
  have "PAGE_BITMAP m6 = PAGE_BITMAP m4" by (subst mp(2)) (simp add: m5_def)
  then have live: "live_blocks m7 = live_blocks m4" by (simp add: m7_def live_blocks_def)
  show ?thesis
  proof (rule that [of sp s' "F4 0" "F3 0" "F2 0" F fs i1])
    have "32768 \<le> F e \<and> F e < 1048576 \<and> h7 (F2 0 * 4096 + 8 * e) = user_pde (F e)" if "512 * e < n" for e
      using ceil_div_512(4) [OF that] lk(3) k7(1) by (simp add: tbs ktab_def kmap_def)
    then show "prog_tables s' (F4 0) (F3 0) (F2 0) F fs"
      using f mp(3,5,8) N by (simp add: prog_tables_def s'_def m7_def)
    show "pml4_mem s' (F4 0 * 4096) = pml4_mem s (unat (kernel_pml4e s))" using f(1) kp by (simp add: s'_def q4'_def q4_def fill_entries_def)
    show "\<forall>f \<in> set fs. \<not> frame_used (fmm s) f \<and> frame_used (fmm s') f" using mp(5,6) all(1) by (auto simp: s'_def m7_def keeps_low_def)
    show "heap_room k (fmm s')" using mp(9) by (simp add: s'_def m7_def room_pde)
    show "keeps_low (fmm s) (fmm s')" using keeps_low_trans [OF all] by (simp add: s'_def)
    show "unat (sp_phy sp) = F4 0 * 4096" using unat_of_nat_small [of "F4 0 * 4096", where 'a = 64] f(2) by (simp add: sp_def)
    show "distinct [sp_pml4e sp, sp_pdpte sp, sp_pde sp, sp_pte sp]" "set [sp_pml4e sp, sp_pdpte sp, sp_pde sp, sp_pte sp] \<inter> live_blocks (fmm s) = {}"
      "live_blocks (fmm s') = live_blocks (fmm s) \<union> set [sp_pml4e sp, sp_pdpte sp, sp_pde sp, sp_pte sp]"
      using a1(5,6) a2(5,6) a3(5,6) a4(5,6) live by (auto simp: sp_def s'_def e1 e2 e3 m3'_def live_blocks_def)
  qed (use run mp(3,4) k7(1) in \<open>simp_all add: s'_def sp_def\<close>)
qed

end
