(* ===== verification/Fill.thy ===== *)
theory Fill
  imports Tables
begin

text \<open>
  The memory of a new program: what \<open>fill_space\<close> leaves in it, region by region.  Addresses are compared as natural
  numbers; \<open>kernel_same\<close> says that the addresses of the kernel keep their contents.
\<close>

section \<open>Blocks\<close>

lemma put_mem_below:
  assumes "unat x < unat a" and "unat a + length bs \<le> 2 ^ 64"
  shows "put_mem a bs m x = m x"
proof -
  have "\<not> unat (x - a) < length bs"
  proof
    assume "unat (x - a) < length bs"
    then have "unat (a + of_nat (unat (x - a))) = unat a + unat (x - a)" using assms(2) by (intro unat_add_small) simp
    then show False using assms(1) by simp
  qed
  then show ?thesis by (simp add: put_mem_def)
qed

lemma put_mem_above: "unat a + length bs \<le> unat x \<Longrightarrow> put_mem a bs m x = m x"
proof -
  assume "unat a + length bs \<le> unat x"
  then have "\<not> unat (x - a) < length bs" using unat_sub_small [of a x] by linarith
  then show ?thesis by (simp add: put_mem_def)
qed

lemma put_mem_inside: "unat a \<le> unat x \<Longrightarrow> unat x < unat a + length bs \<Longrightarrow> put_mem a bs m x = bs ! (unat x - unat a)"
proof -
  assume a: "unat a \<le> unat x" "unat x < unat a + length bs"
  then have "unat (x - a) = unat x - unat a" "unat x - unat a < length bs" using unat_sub_small by auto
  then show ?thesis by (simp add: put_mem_def)
qed

definition same_but :: "nat \<Rightarrow> nat \<Rightarrow> mem \<Rightarrow> mem \<Rightarrow> bool" where
  "same_but lo hi m m' \<longleftrightarrow> (\<forall>x. unat x < lo \<or> hi \<le> unat x \<longrightarrow> m' x = m x)"

lemma same_but_refl [simp]: "same_but lo hi m m"
  by (simp add: same_but_def)

lemma same_but_trans: "same_but lo hi m m1 \<Longrightarrow> same_but lo hi m1 m2 \<Longrightarrow> same_but lo hi m m2"
  by (simp add: same_but_def)

lemma same_but_mono: "same_but lo hi m m' \<Longrightarrow> lo' \<le> lo \<Longrightarrow> hi \<le> hi' \<Longrightarrow> same_but lo' hi' m m'"
  by (auto simp: same_but_def)

lemma put_mem_same: "unat a + length bs \<le> 2 ^ 64 \<Longrightarrow> same_but (unat a) (unat a + length bs) m (put_mem a bs m)"
  by (auto simp: same_but_def put_mem_below put_mem_above)

lemma cstr_same:
  assumes "cstr m a xs" and "same_but lo hi m m'" and "unat a + length xs < 2 ^ 64" and "unat a + length xs < lo \<or> hi \<le> unat a"
  shows "cstr m' a xs"
proof -
  have "m' (a + of_nat i) = m (a + of_nat i)" if "i \<le> length xs" for i
    using assms(2-4) that unat_add_small [of a i] by (auto simp: same_but_def)
  then have "get_mem a (Suc (length xs)) m' = get_mem a (Suc (length xs)) m" by (simp add: get_mem_def)
  then show ?thesis using assms(1) by (simp add: cstr_def)
qed

lemma rd64_cong:
  assumes "\<And>i. i < 8 \<Longrightarrow> m' (p + of_nat i) = m (p + of_nat i)"
  shows "rd64 m' p = rd64 m p"
proof -
  have "m' p = m p" "m' (p + 1) = m (p + 1)" "m' (p + 2) = m (p + 2)" "m' (p + 3) = m (p + 3)" "m' (p + 4) = m (p + 4)"
    "m' (p + 5) = m (p + 5)" "m' (p + 6) = m (p + 6)" "m' (p + 7) = m (p + 7)"
    using assms [of 0] assms [of 1] assms [of 2] assms [of 3] assms [of 4] assms [of 5] assms [of 6] assms [of 7] by simp_all
  then show ?thesis by (simp add: rd64_def rd32w_def get32_def add.assoc)
qed

lemma rd64_same:
  assumes "same_but lo hi m m'" and "unat p + 8 \<le> 2 ^ 64" and "unat p + 8 \<le> lo \<or> hi \<le> unat p"
  shows "rd64 m' p = rd64 m p"
  by (rule rd64_cong) (use assms unat_add_small [of p] in \<open>auto simp: same_but_def\<close>)

lemma rd64_wr64: "rd64 (wr64 p v m) p = v"
proof -
  have b: "wr64 p v m (p + of_nat i) = ucast (drop_bit (8 * i) v)" if "i < 8" for i using that by (simp add: wr64_def put_mem_at)
  have "wr64 p v m p = ucast v" "wr64 p v m (p + 1) = ucast (drop_bit 8 v)" "wr64 p v m (p + 2) = ucast (drop_bit 16 v)" "wr64 p v m (p + 3) = ucast (drop_bit 24 v)"
    "wr64 p v m (p + 4) = ucast (drop_bit 32 v)" "wr64 p v m (p + 5) = ucast (drop_bit 40 v)" "wr64 p v m (p + 6) = ucast (drop_bit 48 v)" "wr64 p v m (p + 7) = ucast (drop_bit 56 v)"
    using b [of 0] b [of 1] b [of 2] b [of 3] b [of 4] b [of 5] b [of 6] b [of 7] by simp_all
  note bytes = this
  have lo: "rd32w (wr64 p v m) p = ucast v" unfolding rd32w_def
    by (rule le_get32) (simp_all add: le32_def bytes, auto intro!: bit_word_eqI simp: bit_simps)
  have hi: "rd32w (wr64 p v m) (p + 4) = ucast (drop_bit 32 v)" unfolding rd32w_def
    by (rule le_get32) (simp_all add: le32_def bytes add.assoc, auto intro!: bit_word_eqI simp: bit_simps)
  show ?thesis unfolding rd64_def lo hi by (rule bit_word_eqI) (auto simp: bit_simps)
qed

lemma wr64_same: "unat p + 8 \<le> 2 ^ 64 \<Longrightarrow> same_but (unat p) (unat p + 8) m (wr64 p v m)"
  unfolding wr64_def using put_mem_same [of p "map (\<lambda>i. ucast (drop_bit (8 * i) v)) [0..<8]" m] by simp

section \<open>Arguments\<close>

lemma put_ptrs_ok:
  assumes "unat arg + 8 * (i + k) \<le> 2 ^ 63"
  shows "same_but (unat arg + 8 * i) (unat arg + 8 * (i + k)) m (put_ptrs k arg ap i m) \<and>
    (\<forall>j. i \<le> j \<and> j < i + k \<longrightarrow> rd64 (put_ptrs k arg ap i m) (arg + of_nat (8 * j)) = ap + of_nat (256 * j))"
  using assms
proof (induction k arbitrary: i m)
  case (Suc k)
  let ?m = "wr64 (arg + of_nat (8 * i)) (ap + of_nat (256 * i)) m" and ?r = "put_ptrs (Suc k) arg ap i m"
  have a: "unat (arg + of_nat (8 * j)) = unat arg + 8 * j" if "j < i + Suc k" for j using Suc.prems that by (intro unat_add_small) simp
  have r: "?r = put_ptrs k arg ap (i + 1) ?m" by simp
  have s1: "same_but (unat arg + 8 * i) (unat arg + 8 * i + 8) m ?m" using wr64_same [of "arg + of_nat (8 * i)"] a [of i] Suc.prems by (simp del: of_nat_mult)
  have p: "unat arg + 8 * (i + 1 + k) \<le> 2 ^ 63" using Suc.prems by simp
  note s2 = conjunct1 [OF Suc.IH [OF p, of ?m]] and v = conjunct2 [OF Suc.IH [OF p, of ?m]]
  have s: "same_but (unat arg + 8 * i) (unat arg + 8 * (i + Suc k)) m ?r"
    unfolding r by (rule same_but_trans [OF same_but_mono [OF s1] same_but_mono [OF s2]]) simp_all
  have "rd64 ?r (arg + of_nat (8 * i)) = rd64 ?m (arg + of_nat (8 * i))"
    unfolding r by (rule rd64_same [OF s2]) (use a [of i] Suc.prems in \<open>simp_all del: of_nat_mult\<close>)
  then have "rd64 ?r (arg + of_nat (8 * i)) = ap + of_nat (256 * i)" by (simp only: rd64_wr64)
  moreover have "rd64 ?r (arg + of_nat (8 * j)) = ap + of_nat (256 * j)" if "i < j" "j < i + Suc k" for j
    using v that unfolding r by simp
  ultimately have "rd64 ?r (arg + of_nat (8 * j)) = ap + of_nat (256 * j)" if "i \<le> j" "j < i + Suc k" for j
    using that by (cases "i = j") auto
  with s show ?case by blast
qed auto

lemma copy_string_ok:
  assumes "cstr m src xs" and "unat src + length xs < unat d" and "in_pages n d (length xs + 1)" and "unat d + length xs < 2 ^ 63"
  shows "\<exists>m'. copy_string n d src m = Some m' \<and> cstr m' d xs \<and> same_but (unat d) (unat d + length xs + 1) m m'"
proof -
  have "strlen_loop src m = Some (src + of_nat (length xs))" by (rule strlen_loop_cstr [OF assms(1)])
  moreover have "unat (of_nat (length xs) :: u64) = length xs" using assms(4) by (intro unat_of_nat_small) simp
  moreover have "length xs < unat (d - src)" using assms(2) by (simp add: unat_sub_small)
  ultimately have "copy_string n d src m = Some (put_mem d (xs @ [0]) m)" using strcpy_put [OF assms(1)] assms(3) by (simp add: copy_string_def)
  moreover have "cstr (put_mem d (xs @ [0]) m) d xs" using assms(1,4) by (simp add: cstr_def get_put_mem)
  ultimately show ?thesis using put_mem_same [of d "xs @ [0]" m] assms(4) by simp
qed

lemma copy_args_ok:
  assumes "i + k = length As" and "length As \<le> 128" and "\<forall>j < length As. rd64 m (arg + of_nat (8 * j)) = ap + of_nat (256 * j)"
    and "\<forall>j < length As. cstr m (rd64 m (argv + of_nat (8 * j))) (As ! j) \<and> length (As ! j) < 256 \<and> unat (rd64 m (argv + of_nat (8 * j))) + 256 \<le> unat USER_START"
    and "unat argv + 8 * length As \<le> unat USER_START" and "unat USER_START \<le> unat arg" and "unat arg + 0x1000 \<le> unat ap" and "in_pages n ap 0x8000" and "n \<le> 262144"
  shows "\<exists>m'. copy_args n k arg argv i m = Some m' \<and> same_but (unat ap + 256 * i) (unat ap + 256 * (i + k)) m m' \<and>
    (\<forall>j. i \<le> j \<and> j < i + k \<longrightarrow> cstr m' (ap + of_nat (256 * j)) (As ! j))"
  using assms(1,3,4)
proof (induction k arbitrary: i m)
  case (Suc k)
  have b: "unat ap + 0x8000 \<le> unat USER_START + n * 4096" "unat USER_START \<le> unat ap" "unat ap + 0x8000 < 2 ^ 62" using assms(8,9) by (simp_all add: in_pages_def)
  have ij: "i < length As" using Suc.prems(1) by simp
  let ?d = "ap + of_nat (256 * i)" and ?src = "rd64 m (argv + of_nat (8 * i))"
  have d: "unat ?d = unat ap + 256 * i" using b(3) ij assms(2) by (intro unat_add_small) simp
  have src: "cstr m ?src (As ! i)" "length (As ! i) < 256" "unat ?src + 256 \<le> unat USER_START" using Suc.prems(3) ij by blast+
  have ip: "in_pages n ?d (length (As ! i) + 1)" using b(1,2) d src(2) ij assms(2) unfolding in_pages_def by linarith
  have far: "unat ?src + length (As ! i) < unat ?d" "unat ?d + length (As ! i) < 2 ^ 63"
    using src(2,3) b ij assms(2) unfolding d by simp_all
  obtain m1 where m1: "copy_string n ?d ?src m = Some m1" "cstr m1 ?d (As ! i)" "same_but (unat ?d) (unat ?d + length (As ! i) + 1) m m1"
    using copy_string_ok [OF src(1) _ ip] far by blast
  have low: "rd64 m1 (argv + of_nat (8 * j)) = rd64 m (argv + of_nat (8 * j))" "rd64 m1 (arg + of_nat (8 * j)) = rd64 m (arg + of_nat (8 * j))" if "j < length As" for j
  proof -
    have u: "unat (argv + of_nat (8 * j)) = unat argv + 8 * j" "unat (arg + of_nat (8 * j)) = unat arg + 8 * j"
      using that assms(2,5,7) b(3) by (auto intro!: unat_add_small simp del: of_nat_mult)
    show "rd64 m1 (argv + of_nat (8 * j)) = rd64 m (argv + of_nat (8 * j))" "rd64 m1 (arg + of_nat (8 * j)) = rd64 m (arg + of_nat (8 * j))"
      by (rule rd64_same [OF m1(3)], use u that assms(2,5-7) d b in \<open>simp_all del: of_nat_mult\<close>)+
  qed
  have p1: "i + 1 + k = length As" using Suc.prems(1) by simp
  have p2: "\<forall>j < length As. rd64 m1 (arg + of_nat (8 * j)) = ap + of_nat (256 * j)" using low(2) Suc.prems(2) by simp
  have p3: "\<forall>j < length As. cstr m1 (rd64 m1 (argv + of_nat (8 * j))) (As ! j) \<and> length (As ! j) < 256 \<and> unat (rd64 m1 (argv + of_nat (8 * j))) + 256 \<le> unat USER_START"
  proof (intro allI impI)
    fix j assume j: "j < length As"
    have s: "cstr m (rd64 m (argv + of_nat (8 * j))) (As ! j)" "length (As ! j) < 256" "unat (rd64 m (argv + of_nat (8 * j))) + 256 \<le> unat USER_START"
      using Suc.prems(3) j by blast+
    have "cstr m1 (rd64 m (argv + of_nat (8 * j))) (As ! j)" by (rule cstr_same [OF s(1) m1(3)]) (use s(2,3) d b(2) in simp_all)
    then show "cstr m1 (rd64 m1 (argv + of_nat (8 * j))) (As ! j) \<and> length (As ! j) < 256 \<and> unat (rd64 m1 (argv + of_nat (8 * j))) + 256 \<le> unat USER_START"
      using s low(1) [OF j] by simp
  qed
  obtain m' where m': "copy_args n k arg argv (i + 1) m1 = Some m'" "same_but (unat ap + 256 * (i + 1)) (unat ap + 256 * (i + 1 + k)) m1 m'"
    "\<forall>j. i + 1 \<le> j \<and> j < i + 1 + k \<longrightarrow> cstr m' (ap + of_nat (256 * j)) (As ! j)"
    using Suc.IH [OF p1 p2 p3] by blast
  have c: "cstr m' ?d (As ! i)" by (rule cstr_same [OF m1(2) m'(2)]) (use d src(2) far(2) in simp_all)
  have "cstr m' (ap + of_nat (256 * j)) (As ! j)" if "i \<le> j" "j < i + Suc k" for j
    using c m'(3) that by (cases "j = i") auto
  moreover have "same_but (unat ap + 256 * i) (unat ap + 256 * (i + Suc k)) m m'"
    by (rule same_but_trans [OF same_but_mono [OF m1(3)] same_but_mono [OF m'(2)]]) (use d src(2) in simp_all)
  moreover have "rd64 m (arg + of_nat (8 * i)) = ?d" using Suc.prems(2) ij by blast
  then have "copy_args n (Suc k) arg argv i m = Some m'" using m1(1) m'(1) by (simp del: of_nat_mult)
  ultimately show ?case by blast
qed auto

section \<open>The file\<close>

lemma inside_range: "unat bf + n \<le> 2 ^ 63 \<Longrightarrow> inside bf n x \<longleftrightarrow> unat bf \<le> unat x \<and> unat x < unat bf + n"
proof -
  assume b: "unat bf + n \<le> 2 ^ 63"
  show ?thesis
  proof (cases "unat bf \<le> unat x")
    case True
    then show ?thesis using unat_sub_small [OF True] by (auto simp: inside_def)
  next
    case False
    have "\<not> inside bf n x"
    proof
      assume i: "inside bf n x"
      then have "unat (bf + of_nat (unat (x - bf))) = unat bf + unat (x - bf)" using b by (intro unat_add_small) (simp add: inside_def)
      then show False using False by simp
    qed
    then show ?thesis using False by simp
  qed
qed

lemma elf_same:
  assumes im: "elf_image m bf n" and s: "same_on bf n m m'"
  shows "elf_image m' bf n" and "sections m' bf = sections m bf"
proof -
  have n: "n < 2 ^ 64" "unat (0::u64) + 64 \<le> n" using im by (simp_all add: elf_image_def)
  have e: "ehdr m' bf = ehdr m bf" using same_headers(1) [OF s n] by simp
  have "shdr m' (bf + (e_shoff (ehdr m bf) + 64 * of_nat i)) = shdr m (bf + (e_shoff (ehdr m bf) + 64 * of_nat i))" if "i < unat (e_shnum (ehdr m bf))" for i
    by (rule same_headers(2) [OF s n(1) section_at(2) [OF im that]])
  then show sec: "sections m' bf = sections m bf" unfolding sections_def e Let_def by (simp add: add.assoc)
  show "elf_image m' bf n" using im by (simp add: elf_image_def e sec)
qed

text \<open>A file in the memory of the kernel that holds a program, and what goes with it.\<close>

definition program_file :: "mem \<Rightarrow> u64 \<Rightarrow> nat \<Rightarrow> program_header \<Rightarrow> bool" where
  "program_file m bf n ph \<longleftrightarrow> elf_image m bf n \<and> unat bf + n \<le> unat USER_START \<and> load_elf64_header bf m = Some (0, Some ph) \<and>
     unat USER_START \<le> unat (ph_end ph) \<and> unat (ph_end ph) < unat USER_START + 2 ^ 30 \<and>
     (\<forall>h \<in> set (sections m bf). is_loaded h \<and> sh_size h \<noteq> 0 \<longrightarrow> unat USER_START \<le> unat (sh_addr h) \<and> unat (sh_addr h) + unat (sh_size h) \<le> unat (ph_end ph))"

definition program_args :: "mem \<Rightarrow> u32 \<Rightarrow> u64 \<Rightarrow> u8 list list \<Rightarrow> bool" where
  "program_args m argc argv As \<longleftrightarrow> (if argv = 0 then As = [] else sint argc = int (length As) \<and> length As \<le> 128 \<and> unat argv + 8 * length As \<le> unat USER_START \<and>
     (\<forall>j < length As. cstr m (rd64 m (argv + of_nat (8 * j))) (As ! j) \<and> length (As ! j) < 256 \<and> unat (rd64 m (argv + of_nat (8 * j))) + 256 \<le> unat USER_START))"

definition program_dir :: "mem \<Rightarrow> u64 \<Rightarrow> u8 list \<Rightarrow> bool" where
  "program_dir m pwd P \<longleftrightarrow> pwd \<noteq> 0 \<longrightarrow> cstr m pwd P \<and> length P < 4096 \<and> unat pwd + 4096 \<le> unat USER_START"

definition program_pages :: "program_header \<Rightarrow> nat" where
  "program_pages ph = ceil_div (unat (ph_end ph) - unat USER_START + 0x30000) 4096"

definition image_byte :: "mem \<Rightarrow> u64 \<Rightarrow> u64 \<Rightarrow> u8" where
  "image_byte m bf x = (case find (\<lambda>h. is_loaded h \<and> inside (sh_addr h) (unat (sh_size h)) x) (rev (sections m bf)) of
     None \<Rightarrow> 0 | Some h \<Rightarrow> m (bf + sh_offset h + (x - sh_addr h)))"

text \<open>The memory \<open>v\<close> of a program that starts: the file, the directory, the arguments, and an empty stack.\<close>

definition program_memory :: "mem \<Rightarrow> u64 \<Rightarrow> program_header \<Rightarrow> u64 \<Rightarrow> u8 list \<Rightarrow> u8 list list \<Rightarrow> mem \<Rightarrow> bool" where
  "program_memory m bf ph pwd P As v \<longleftrightarrow>
     (\<forall>x. unat USER_START \<le> unat x \<and> unat x < unat (ph_end ph) \<longrightarrow> v x = image_byte m bf x) \<and>
     (pwd \<noteq> 0 \<longrightarrow> cstr v (ph_end ph) P) \<and>
     (\<forall>j < length As. rd64 v (ph_end ph + 0x1000 + of_nat (8 * j)) = ph_end ph + 0x2000 + of_nat (256 * j) \<and> cstr v (ph_end ph + 0x2000 + of_nat (256 * j)) (As ! j)) \<and>
     (\<forall>x. unat (ph_end ph) + 0xA000 \<le> unat x \<and> unat x < unat (ph_end ph) + 0x30000 \<longrightarrow> v x = 0)"

lemma file_inside: "program_file m bf n ph \<Longrightarrow> inside bf n x \<Longrightarrow> unat x < unat USER_START"
  using inside_range [of bf n x] by (simp add: program_file_def)

lemma load_image:
  assumes pf: "program_file m0 bf len ph" and m: "\<forall>x. unat x < unat USER_START \<longrightarrow> m x = m0 x" and z: "\<forall>x. unat USER_START \<le> unat x \<and> unat x < unat USER_START + n * 4096 \<longrightarrow> m x = 0"
    and n: "unat (ph_end ph) \<le> unat USER_START + n * 4096"
  shows "\<exists>m'. load_elf64_segment bf m = Some (0, m') \<and> sections m bf = sections m0 bf \<and> same_but (unat USER_START) (unat (ph_end ph)) m m' \<and>
    (\<forall>x. unat USER_START \<le> unat x \<and> unat x < unat (ph_end ph) \<longrightarrow> m' x = image_byte m0 bf x)"
proof -
  have so: "same_on bf len m0 m" using m file_inside [OF pf] by (simp add: same_on_def)
  have im0: "elf_image m0 bf len" using pf by (simp add: program_file_def)
  note im = elf_same [OF im0 so]
  let ?f = "\<lambda>x. find (\<lambda>h. is_loaded h \<and> inside (sh_addr h) (unat (sh_size h)) x) (rev (sections m0 bf))"
  let ?m = "\<lambda>x. case ?f x of None \<Rightarrow> m x | Some h \<Rightarrow> m (bf + sh_offset h + (x - sh_addr h))"
  have run: "load_elf64_segment bf m = Some (0, ?m)" using elf_load_correct [OF im(1)] unfolding im(2) by blast
  have found: "unat USER_START \<le> unat x \<and> unat x < unat (ph_end ph) \<and> m (bf + sh_offset h + (x - sh_addr h)) = m0 (bf + sh_offset h + (x - sh_addr h))" if "?f x = Some h" for x h
  proof -
    have h: "h \<in> set (sections m0 bf)" "is_loaded h" "inside (sh_addr h) (unat (sh_size h)) x" using that by (auto simp: find_Some_iff) (metis length_rev nth_mem set_rev)
    then have sz: "sh_size h \<noteq> 0" by (auto simp: inside_def)
    have b: "unat USER_START \<le> unat (sh_addr h)" "unat (sh_addr h) + unat (sh_size h) \<le> unat (ph_end ph)" "unat (ph_end ph) < unat USER_START + 2 ^ 30"
      using pf h(1,2) sz by (auto simp: program_file_def)
    have x: "unat (sh_addr h) \<le> unat x \<and> unat x < unat (sh_addr h) + unat (sh_size h)" using inside_range [of "sh_addr h" "unat (sh_size h)" x] h(3) b by simp
    have o: "unat (sh_offset h) + unat (sh_size h) \<le> len" "len < 2 ^ 63" using im0 h(1,2) by (auto simp: elf_image_def)
    have "inside bf len (bf + sh_offset h + (x - sh_addr h))" using inside_offset [OF o(1), of "x - sh_addr h" bf] o(2) h(3) by (simp add: inside_def)
    then show ?thesis using x b so by (simp add: same_on_def)
  qed
  have same: "?m x = m x" if "unat x < unat USER_START \<or> unat (ph_end ph) \<le> unat x" for x
    using found [of x] that by (cases "?f x") (auto simp del: unat_eq_zero)
  have img: "?m x = image_byte m0 bf x" if "unat USER_START \<le> unat x" "unat x < unat (ph_end ph)" for x
    using found [of x] z that n by (cases "?f x") (auto simp: image_byte_def)
  show ?thesis using run im(2) same img by (auto simp: same_but_def)
qed

lemma program_pages_bound:
  assumes "unat USER_START \<le> unat (ph_end ph)"
  shows "unat (ph_end ph) + 0x30000 \<le> unat USER_START + program_pages ph * 4096" and "0 < program_pages ph"
proof -
  have "x \<le> 4096 * ((x + 4096 - 1) div 4096)" for x :: nat by simp
  then have "unat (ph_end ph) - unat USER_START + 0x30000 \<le> 4096 * program_pages ph" by (simp add: program_pages_def ceil_div_eq)
  with assms show "unat (ph_end ph) + 0x30000 \<le> unat USER_START + program_pages ph * 4096" "0 < program_pages ph" by linarith+
qed

lemma kernel_same: "\<forall>x. unat x < k \<longrightarrow> m' x = m x \<Longrightarrow> same_but k (2 ^ 64) m m'"
proof -
  assume a: "\<forall>x. unat x < k \<longrightarrow> m' x = m x"
  have "unat x < 2 ^ 64" for x :: u64 using unat_diff_bound [of x 0] by simp
  then have "\<not> 2 ^ 64 \<le> unat x" for x :: u64 by (simp only: not_le)
  then show ?thesis using a unfolding same_but_def by blast
qed

lemma program_args_same:
  assumes "program_args m argc argv As" and "\<forall>x. unat x < unat USER_START \<longrightarrow> m' x = m x"
  shows "program_args m' argc argv As"
proof -
  note s = kernel_same [OF assms(2)]
  have "program_args m' argc argv As" if nz: "argv \<noteq> 0"
  proof -
    have a: "length As \<le> 128" "unat argv + 8 * length As \<le> unat USER_START" using assms(1) nz by (simp_all add: program_args_def)
    have r: "rd64 m' (argv + of_nat (8 * j)) = rd64 m (argv + of_nat (8 * j))" if "j < length As" for j
    proof (rule rd64_same [OF s])
      have "unat (argv + of_nat (8 * j)) = unat argv + 8 * j" using a that by (intro unat_add_small) simp
      then show "unat (argv + of_nat (8 * j)) + 8 \<le> 2 ^ 64" "unat (argv + of_nat (8 * j)) + 8 \<le> unat USER_START \<or> 2 ^ 64 \<le> unat (argv + of_nat (8 * j))"
        using a that by simp_all
    qed
    have "cstr m' (rd64 m (argv + of_nat (8 * j))) (As ! j)" if "j < length As" for j
      by (rule cstr_same [OF _ s, of "rd64 m (argv + of_nat (8 * j))"]) (use assms(1) nz that in \<open>auto simp: program_args_def\<close>)
    then show ?thesis using assms(1) nz r by (simp add: program_args_def)
  qed
  then show ?thesis using assms(1) by (cases "argv = 0") (simp_all add: program_args_def)
qed

lemma fill_space_ok:
  assumes pf: "program_file m0 bf len ph" and pa: "program_args m0 argc argv As" and pd: "program_dir m0 pwd P"
    and m: "\<forall>x. unat x < unat USER_START \<longrightarrow> m x = m0 x" and n: "n = program_pages ph" "n \<le> 262144"
  shows "\<exists>v. fill_space n bf (ph_end ph) argc argv pwd m = Some v \<and> program_memory m0 bf ph pwd P As v"
proof -
  define E where "E = unat (ph_end ph)"
  have E: "unat USER_START \<le> E" "E < unat USER_START + 2 ^ 30" using pf by (simp_all add: program_file_def E_def)
  have En: "E + 0x30000 \<le> unat USER_START + n * 4096" using program_pages_bound [of ph] E(1) n(1) by (simp add: E_def)
  have ua: "unat (ph_end ph + of_nat k) = E + k" if "k < 2 ^ 40" for k unfolding E_def by (rule unat_add_small) (use E that in \<open>simp add: E_def\<close>)
  have u1: "unat (ph_end ph + 0x1000) = E + 0x1000" "unat (ph_end ph + 0x2000) = E + 0x2000" using ua [of "0x1000"] ua [of "0x2000"] by simp_all
  define m1 where "m1 = memset USER_START 0 (of_nat n * 0x1000) m"
  have "unat (of_nat n * 0x1000 :: u32) = n * 4096"
    using unat_of_nat_small [of "n * 4096", where 'a = 32] n(2) by simp
  then have m1: "m1 = put_mem USER_START (replicate (n * 4096) 0) m" using n(2) by (simp add: m1_def memset_def memset_put)
  have m1l: "\<forall>x. unat x < unat USER_START \<longrightarrow> m1 x = m0 x" using m n(2) by (simp add: m1 put_mem_below)
  have m1z: "\<forall>x. unat USER_START \<le> unat x \<and> unat x < unat USER_START + n * 4096 \<longrightarrow> m1 x = 0"
    using put_mem_inside [of USER_START _ "replicate (n * 4096) 0" m] by (simp add: m1)
  obtain m2 where m2: "load_elf64_segment bf m1 = Some (0, m2)" "sections m1 bf = sections m0 bf" "same_but (unat USER_START) E m1 m2"
    "\<forall>x. unat USER_START \<le> unat x \<and> unat x < E \<longrightarrow> m2 x = image_byte m0 bf x"
    using load_image [OF pf m1l m1z] En by (auto simp: E_def)
  have guard: "list_all (\<lambda>h. is_loaded h \<and> sh_size h \<noteq> 0 \<longrightarrow> in_pages n (sh_addr h) (unat (sh_size h))) (sections m1 bf)"
    using pf En unfolding m2(2) by (fastforce simp: list_all_iff program_file_def in_pages_def E_def)
  define m3 where "m3 = put_ptrs 128 (ph_end ph + 0x1000) (ph_end ph + 0x2000) 0 m2"
  have m3: "same_but (E + 0x1000) (E + 0x1400) m2 m3" "\<forall>j < 128. rd64 m3 (ph_end ph + 0x1000 + of_nat (8 * j)) = ph_end ph + 0x2000 + of_nat (256 * j)"
    using put_ptrs_ok [of "ph_end ph + 0x1000" 0 128 m2 "ph_end ph + 0x2000"] E(2) by (simp_all add: m3_def u1 add.commute [of "5120 :: nat"])
  have l3: "\<forall>x. unat x < unat USER_START \<longrightarrow> m3 x = m0 x" using m1l m2(3) m3(1) E(1) by (simp add: same_but_def)
  obtain m4 where m4: "(if pwd \<noteq> 0 then copy_string n (ph_end ph) pwd m3 else Some m3) = Some m4" "pwd \<noteq> 0 \<Longrightarrow> cstr m4 (ph_end ph) P" "same_but E (E + 0x1000) m3 m4"
  proof (cases "pwd = 0")
    case False
    then have p: "cstr m0 pwd P" "length P < 4096" "unat pwd + 4096 \<le> unat USER_START" using pd by (simp_all add: program_dir_def)
    have "cstr m3 pwd P" by (rule cstr_same [OF p(1) kernel_same [OF l3]]) (use p in auto)
    from copy_string_ok [OF this, of "ph_end ph" n] obtain m4 where "copy_string n (ph_end ph) pwd m3 = Some m4" "cstr m4 (ph_end ph) P" "same_but E (E + length P + 1) m3 m4"
      using p(2,3) E En by (auto simp: in_pages_def E_def)
    then show ?thesis using that [of m4] False p(2) same_but_mono [of E "E + length P + 1" m3 m4 E "E + 0x1000"] by simp
  qed (use that [of m3] in simp)
  have l4: "\<forall>x. unat x < unat USER_START \<longrightarrow> m4 x = m0 x" using l3 m4(3) E(1) by (simp add: same_but_def)
  have r4: "\<forall>j < 128. rd64 m4 (ph_end ph + 0x1000 + of_nat (8 * j)) = ph_end ph + 0x2000 + of_nat (256 * j)"
  proof (intro allI impI)
    fix j :: nat assume j: "j < 128"
    have u: "unat (ph_end ph + 0x1000 + of_nat (8 * j)) = E + 0x1000 + 8 * j" using ua [of "0x1000 + 8 * j"] j by (simp add: add.assoc)
    have "rd64 m4 (ph_end ph + 0x1000 + of_nat (8 * j)) = rd64 m3 (ph_end ph + 0x1000 + of_nat (8 * j))"
      by (rule rd64_same [OF m4(3)]) (use u j E(2) in \<open>simp_all del: of_nat_mult\<close>)
    then show "rd64 m4 (ph_end ph + 0x1000 + of_nat (8 * j)) = ph_end ph + 0x2000 + of_nat (256 * j)" using m3(2) j by simp
  qed
  obtain m5 where m5: "(if argv \<noteq> 0 then copy_args n (nat (sint argc)) (ph_end ph + 0x1000) argv 0 m4 else Some m4) = Some m5"
    "same_but (E + 0x2000) (E + 0xA000) m4 m5" "\<forall>j < length As. cstr m5 (ph_end ph + 0x2000 + of_nat (256 * j)) (As ! j)"
  proof (cases "argv = 0")
    case True
    then show ?thesis using that [of m4] pa by (simp add: program_args_def)
  next
    case False
    have pa4: "sint argc = int (length As)" "length As \<le> 128" "unat argv + 8 * length As \<le> unat USER_START"
      "\<forall>j < length As. cstr m4 (rd64 m4 (argv + of_nat (8 * j))) (As ! j) \<and> length (As ! j) < 256 \<and> unat (rd64 m4 (argv + of_nat (8 * j))) + 256 \<le> unat USER_START"
      using program_args_same [OF pa l4] False by (simp_all add: program_args_def)
    have "\<exists>m'. copy_args n (length As) (ph_end ph + 0x1000) argv 0 m4 = Some m' \<and> same_but (unat (ph_end ph + 0x2000) + 256 * 0) (unat (ph_end ph + 0x2000) + 256 * (0 + length As)) m4 m' \<and>
      (\<forall>j. 0 \<le> j \<and> j < 0 + length As \<longrightarrow> cstr m' (ph_end ph + 0x2000 + of_nat (256 * j)) (As ! j))"
      by (rule copy_args_ok [OF _ pa4(2) _ pa4(4,3)]) (use r4 pa4(2) E En n(2) in \<open>simp_all add: u1 in_pages_def\<close>)
    then obtain m' where m': "copy_args n (length As) (ph_end ph + 0x1000) argv 0 m4 = Some m'" "same_but (E + 0x2000) (E + 0x2000 + 256 * length As) m4 m'"
      "\<forall>j < length As. cstr m' (ph_end ph + 0x2000 + of_nat (256 * j)) (As ! j)" by (auto simp: u1)
    then show ?thesis using that [of m'] False pa4(1,2) same_but_mono [OF m'(2), of "E + 0x2000" "E + 0xA000"] by simp
  qed
  have ip: "in_pages n (ph_end ph + 0x1000) (8 * 128)" using En E by (simp add: in_pages_def u1)
  have run: "fill_space n bf (ph_end ph) argc argv pwd m = Some m5"
    unfolding fill_space_def Let_def m1_def [symmetric]
    by (simp only: guard m2(1) ip if_True Option.bind.simps case_prod_conv m3_def [symmetric] m4(1) m5(1))
  have out: "m5 x = m2 x" if "unat x < E \<or> E + 0xA000 \<le> unat x" for x
  proof -
    have "m5 x = m4 x" "m4 x = m3 x" "m3 x = m2 x" using that m5(2) m4(3) m3(1) unfolding same_but_def by (elim allE [of _ x]; linarith)+
    then show ?thesis by simp
  qed
  have img: "m5 x = image_byte m0 bf x" if "unat USER_START \<le> unat x" "unat x < E" for x using out [of x] m2(4) that by simp
  have dir: "cstr m5 (ph_end ph) P" if "pwd \<noteq> 0"
    by (rule cstr_same [OF m4(2) [OF that] m5(2)]) (use pd that E(2) in \<open>simp_all add: program_dir_def E_def\<close>)
  have ptr: "rd64 m5 (ph_end ph + 0x1000 + of_nat (8 * j)) = ph_end ph + 0x2000 + of_nat (256 * j)" if "j < length As" for j
  proof -
    have j: "j < 128" using pa that by (simp add: program_args_def split: if_splits)
    have u: "unat (ph_end ph + 0x1000 + of_nat (8 * j)) = E + 0x1000 + 8 * j" using ua [of "0x1000 + 8 * j"] j by (simp add: add.assoc)
    have "rd64 m5 (ph_end ph + 0x1000 + of_nat (8 * j)) = rd64 m4 (ph_end ph + 0x1000 + of_nat (8 * j))"
      by (rule rd64_same [OF m5(2)]) (use u j E(2) in \<open>simp_all del: of_nat_mult\<close>)
    then show ?thesis using r4 j by simp
  qed
  have stk: "m5 x = 0" if "E + 0xA000 \<le> unat x" "unat x < E + 0x30000" for x
  proof -
    have "m2 x = m1 x" using m2(3) that by (simp add: same_but_def)
    then show ?thesis using out [of x] m1z that E(1) En by simp
  qed
  have "program_memory m0 bf ph pwd P As m5"
    unfolding program_memory_def E_def [symmetric] using img dir ptr stk m5(3) by blast
  with run show ?thesis by blast
qed

end
