(* ===== verification/Load.thy ===== *)
theory Load
  imports Fill
begin

text \<open>
  Loading a program: the image that \<open>load_program\<close> writes through the processor's page walk lands in the frames
  of the new tables (\<open>put_pages_ok\<close>), and the loaded memory read back through the walk (\<open>space_mem\<close>) is
  \<open>program_memory\<close> of the file, the arguments and the directory (\<open>load_program_ok\<close>).
\<close>

section \<open>Pages and frames\<close>

lemma prog_tables_page:
  assumes "prog_tables s f4 f3 f2 F fs" and "unat root = f4 * 4096" and "i < length fs"
  shows "page_at_root s root i = Some (fs ! i * 4096)"
  using prog_tables_walk [OF assms(1,3), of 0 root] assms(2) by (simp add: page_at_root_def)

lemma put_pages_fold:
  fixes w :: "nat \<Rightarrow> u8" and r :: "nat \<Rightarrow> u8" and g :: "nat \<Rightarrow> nat option"
  assumes "distinct fs" and "k \<le> length fs" and "\<forall>i < length fs. g i = Some (fs ! i * 4096)"
  defines "r' \<equiv> fold (\<lambda>i r. case g i of None \<Rightarrow> r | Some f \<Rightarrow> (\<lambda>p. if f \<le> p \<and> p < f + 4096 then w (4096 * i + (p - f)) else r p)) [0..<k] r"
  shows "(\<forall>i < k. \<forall>off < 4096. r' (fs ! i * 4096 + off) = w (4096 * i + off)) \<and> (\<forall>p. p div 4096 \<notin> set (take k fs) \<longrightarrow> r' p = r p)"
  using assms(2) unfolding r'_def
proof (induction k)
  case (Suc k)
  let ?q = "\<lambda>k. fold (\<lambda>i r. case g i of None \<Rightarrow> r | Some f \<Rightarrow> (\<lambda>p. if f \<le> p \<and> p < f + 4096 then w (4096 * i + (p - f)) else r p)) [0..<k] r"
  have k: "k < length fs" using Suc.prems by simp
  have range: "f * 4096 \<le> p \<and> p < f * 4096 + 4096 \<longleftrightarrow> p div 4096 = f" for f p :: nat by auto
  have st: "?q (Suc k) p = (if p div 4096 = fs ! k then w (4096 * k + (p - fs ! k * 4096)) else ?q k p)" for p
    using assms(3) k by (simp add: range)
  have IH: "\<forall>i < k. \<forall>off < 4096. ?q k (fs ! i * 4096 + off) = w (4096 * i + off)" "\<forall>p. p div 4096 \<notin> set (take k fs) \<longrightarrow> ?q k p = r p"
    using Suc by simp_all
  have "?q (Suc k) (fs ! i * 4096 + off) = w (4096 * i + off)" if "i < Suc k" "off < 4096" for i off
  proof (cases "i = k")
    case False
    then have "fs ! i \<noteq> fs ! k" using assms(1) k that by (simp add: nth_eq_iff_index_eq)
    moreover have "(fs ! i * 4096 + off) div 4096 = fs ! i" using that by simp
    ultimately show ?thesis unfolding st using IH(1) that False by simp
  next
    case True
    then show ?thesis unfolding st using that by simp
  qed
  moreover have "?q (Suc k) p = r p" if "p div 4096 \<notin> set (take (Suc k) fs)" for p
    unfolding st using IH(2) that k by (auto simp: take_Suc_conv_app_nth)
  ultimately show ?case by blast
qed simp

lemma put_pages_ok:
  fixes v :: mem
  assumes pt: "prog_tables s f4 f3 f2 F fs" and root: "unat root = f4 * 4096" and d: "distinct fs" and n: "n = length fs"
  defines "s' \<equiv> put_pages n root v s"
  shows "s' = s\<lparr>ram := ram s'\<rparr>" and "prog_tables s' f4 f3 f2 F fs" and "\<forall>p. p div 4096 \<notin> set fs \<longrightarrow> ram s' p = ram s p"
    and "\<forall>l < n. \<forall>off < 4096. ram s' (fs ! l * 4096 + off) = v (USER_START + of_nat (4096 * l + off))"
proof -
  show "s' = s\<lparr>ram := ram s'\<rparr>" by (simp add: s'_def put_pages_def)
  show "prog_tables s' f4 f3 f2 F fs" using pt by (simp add: s'_def put_pages_def prog_tables_def)
  have "\<forall>i < length fs. page_at_root s root i = Some (fs ! i * 4096)" using prog_tables_page [OF pt root] by blast
  from put_pages_fold [OF d le_refl this, of "\<lambda>j. v (USER_START + of_nat j)" "ram s"]
  show "\<forall>p. p div 4096 \<notin> set fs \<longrightarrow> ram s' p = ram s p" "\<forall>l < n. \<forall>off < 4096. ram s' (fs ! l * 4096 + off) = v (USER_START + of_nat (4096 * l + off))"
    by (simp_all add: s'_def put_pages_def n)
qed

text \<open>An address of the program as page and offset.\<close>

lemma user_split:
  assumes "unat USER_START \<le> unat x" and "unat x < unat USER_START + n * 4096"
  obtains l off where "l < n" "off < 4096" "x = USER_START + of_nat (4096 * l + off)"
proof -
  define j where "j = unat x - unat USER_START"
  have "j < n * 4096" "unat x = unat USER_START + j" using assms by (simp_all add: j_def)
  have "x = of_nat (unat x)" by simp
  then have "x = of_nat (unat USER_START + j)" unfolding \<open>unat x = _\<close> .
  moreover have "of_nat (unat USER_START + j) = USER_START + (of_nat j :: u64)" by simp
  moreover have "j = 4096 * (j div 4096) + j mod 4096" by simp
  moreover have "j div 4096 < n" using \<open>j < n * 4096\<close> by (simp add: div_less_iff_less_mult)
  ultimately show ?thesis using that [of "j div 4096" "j mod 4096"] by simp
qed

lemma space_mem_page:
  assumes "prog_tables s f4 f3 f2 F fs" and "unat root = f4 * 4096" and "l < length fs" and "off < 4096"
  shows "space_mem s root (USER_START + of_nat (4096 * l + off)) = ram s (fs ! l * 4096 + off)"
proof -
  have "l < 262144" using assms(1,3) by (simp add: prog_tables_def)
  then have "\<not> (USER_START + of_nat (4096 * l + off) :: u64) < USER_START"
    using user_addr [of l off] assms(4) unfolding word_less_nat_alt by simp
  then show ?thesis using prog_tables_walk [OF assms(1,3,4,2)] by (simp add: space_mem_def)
qed

text \<open>The memory of a program is what its pages hold.\<close>

lemma cstr_range:
  assumes "cstr m a xs" and "\<forall>x. lo \<le> unat x \<and> unat x < hi \<longrightarrow> m' x = m x" and "lo \<le> unat a" and "unat a + length xs < hi" and "hi \<le> 2 ^ 64"
  shows "cstr m' a xs"
proof -
  have "m' (a + of_nat i) = m (a + of_nat i)" if "i \<le> length xs" for i
    using assms(2-5) that unat_add_small [of a i] by simp
  then have "get_mem a (Suc (length xs)) m' = get_mem a (Suc (length xs)) m" by (simp add: get_mem_def)
  then show ?thesis using assms(1) by (simp add: cstr_def)
qed

lemma program_memory_cong:
  assumes pm: "program_memory m bf ph pwd P As v" and v: "\<forall>x. unat USER_START \<le> unat x \<and> unat x < unat (ph_end ph) + 0x30000 \<longrightarrow> v' x = v x"
    and E: "unat USER_START \<le> unat (ph_end ph)" "unat (ph_end ph) < unat USER_START + 2 ^ 30" and P: "program_dir m pwd P" and As: "program_args m argc argv As"
  shows "program_memory m bf ph pwd P As v'"
proof -
  have a: "length As \<le> 128" "\<forall>j < length As. length (As ! j) < 256" using As by (auto simp: program_args_def split: if_splits)
  have ua: "unat (ph_end ph + of_nat k) = unat (ph_end ph) + k" if "k < 2 ^ 40" for k by (rule unat_add_small) (use E that in simp)
  have top: "unat (ph_end ph) + 0x30000 \<le> 2 ^ 64" using E by simp
  have dir: "cstr v' (ph_end ph) P" if "pwd \<noteq> 0"
    by (rule cstr_range [OF _ v E(1) _ top]) (use pm P that in \<open>simp_all add: program_memory_def program_dir_def\<close>)
  have arg: "rd64 v' (ph_end ph + 0x1000 + of_nat (8 * j)) = ph_end ph + 0x2000 + of_nat (256 * j) \<and> cstr v' (ph_end ph + 0x2000 + of_nat (256 * j)) (As ! j)"
    if j: "j < length As" for j
  proof
    have b: "v' (ph_end ph + 0x1000 + of_nat (8 * j) + of_nat i) = v (ph_end ph + 0x1000 + of_nat (8 * j) + of_nat i)" if "i < 8" for i
      using v ua [of "0x1000 + 8 * j + i"] that j a(1) E(1) by (simp add: add.assoc)
    have "rd64 v' (ph_end ph + 0x1000 + of_nat (8 * j)) = rd64 v (ph_end ph + 0x1000 + of_nat (8 * j))" by (rule rd64_cong, rule b)
    then show "rd64 v' (ph_end ph + 0x1000 + of_nat (8 * j)) = ph_end ph + 0x2000 + of_nat (256 * j)" using pm j by (simp add: program_memory_def)
    have u: "unat (ph_end ph + 0x2000 + of_nat (256 * j)) = unat (ph_end ph) + 0x2000 + 256 * j" using ua [of "0x2000 + 256 * j"] j a(1) by (simp add: add.assoc)
    show "cstr v' (ph_end ph + 0x2000 + of_nat (256 * j)) (As ! j)"
    proof (rule cstr_range [OF _ v _ _ top])
      show "cstr v (ph_end ph + 0x2000 + of_nat (256 * j)) (As ! j)" using pm j unfolding program_memory_def by blast
      have "length (As ! j) < 256" using a(2) j by blast
      then show "unat USER_START \<le> unat (ph_end ph + 0x2000 + of_nat (256 * j))" "unat (ph_end ph + 0x2000 + of_nat (256 * j)) + length (As ! j) < unat (ph_end ph) + 0x30000"
        using E(1) j a(1) unfolding u by simp_all
    qed
  qed
  have img: "v' x = image_byte m bf x" if "unat USER_START \<le> unat x" "unat x < unat (ph_end ph)" for x
  proof -
    have "v' x = v x" using v that by simp
    moreover have "v x = image_byte m bf x" using pm that unfolding program_memory_def by blast
    ultimately show ?thesis by simp
  qed
  have stk: "v' x = 0" if "unat (ph_end ph) + 0xA000 \<le> unat x" "unat x < unat (ph_end ph) + 0x30000" for x
  proof -
    have "v' x = v x" using v that E(1) by simp
    moreover have "v x = 0" using pm that unfolding program_memory_def by blast
    ultimately show ?thesis by simp
  qed
  show ?thesis unfolding program_memory_def using dir arg img stk by blast
qed

text \<open>What \<open>load_program\<close> has done.\<close>

definition loaded :: "'a exec_state_scheme \<Rightarrow> 'a exec_state_scheme \<Rightarrow> program_space \<Rightarrow> nat list \<Rightarrow> nat \<Rightarrow> nat \<Rightarrow> nat \<Rightarrow> (nat \<Rightarrow> nat) \<Rightarrow> bool" where
  "loaded s s' sp fs f4 f3 f2 F \<longleftrightarrow> s' = s\<lparr>fmm := fmm s', pml4_mem := pml4_mem s', pdpt_mem := pdpt_mem s', ram := ram s'\<rparr> \<and>
     unat (sp_phy sp) = f4 * 4096 \<and> prog_tables s' f4 f3 f2 F fs \<and> distinct fs \<and> (\<forall>f \<in> set fs. \<not> frame_used (fmm s) f \<and> frame_used (fmm s') f) \<and>
     pml4_mem s' (f4 * 4096) = pml4_mem s (unat (kernel_pml4e s)) \<and> (\<exists>i. sp_pte sp = page_addr i \<and> ktab i (ceil_div (length fs) 512) F (fmm s')) \<and>
     keeps_low (fmm s) (fmm s') \<and> distinct [sp_pml4e sp, sp_pdpte sp, sp_pde sp, sp_pte sp] \<and>
     set [sp_pml4e sp, sp_pdpte sp, sp_pde sp, sp_pte sp] \<inter> live_blocks (fmm s) = {} \<and>
     live_blocks (fmm s') = live_blocks (fmm s) \<union> set [sp_pml4e sp, sp_pdpte sp, sp_pde sp, sp_pte sp] \<and>
     (\<forall>p. p div 4096 \<notin> set fs \<longrightarrow> ram s' p = ram s p)"

lemma load_program_ok:
  assumes room: "heap_room (3 + ceil_div n 512 + n + k) (fmm s)" and ht: "heap_tables (fmm s)" and kp: "unat (kernel_pml4e s) < 0x8000000"
    and pf: "program_file (umem s) bf len ph" and pa: "program_args (umem s) argc argv As" and pd: "program_dir (umem s) pwd P" and n: "n = program_pages ph"
  obtains sp s' fs f4 f3 f2 F where "load_program n bf (ph_end ph) argc argv pwd s = Some (sp, s')" "loaded s s' sp fs f4 f3 f2 F" "length fs = n" "heap_room k (fmm s')"
    "program_memory (umem s) bf ph pwd P As (space_mem s' (sp_phy sp))"
proof -
  have E: "unat USER_START \<le> unat (ph_end ph)" "unat (ph_end ph) < unat USER_START + 2 ^ 30" using pf by (simp_all add: program_file_def)
  have n0: "0 < n" "unat (ph_end ph) + 0x30000 \<le> unat USER_START + n * 4096" using program_pages_bound [OF E(1)] n by simp_all
  obtain sp s1 i f4 f3 f2 F fs where ms: "make_space n (ceil_div n 512) s = Some (sp, s1)" "s1 = s\<lparr>fmm := fmm s1, pml4_mem := pml4_mem s1, pdpt_mem := pdpt_mem s1\<rparr>"
    "unat (sp_phy sp) = f4 * 4096" "prog_tables s1 f4 f3 f2 F fs" "length fs = n" "distinct fs" "\<forall>f \<in> set fs. \<not> frame_used (fmm s) f \<and> frame_used (fmm s1) f"
    "pml4_mem s1 (f4 * 4096) = pml4_mem s (unat (kernel_pml4e s))" "sp_pte sp = page_addr i" "ktab i (ceil_div n 512) F (fmm s1)" "keeps_low (fmm s) (fmm s1)"
    "heap_room k (fmm s1)" "distinct [sp_pml4e sp, sp_pdpte sp, sp_pde sp, sp_pte sp]"
    "set [sp_pml4e sp, sp_pdpte sp, sp_pde sp, sp_pte sp] \<inter> live_blocks (fmm s) = {}"
    "live_blocks (fmm s1) = live_blocks (fmm s) \<union> set [sp_pml4e sp, sp_pdpte sp, sp_pde sp, sp_pte sp]"
    by (rule make_space_ok [OF room ht refl n0(1) kp])
  let ?root = "sp_phy sp"
  have pg: "map (page_at_root s1 ?root) [0..<n] = map (\<lambda>f. Some (f * 4096)) fs"
    by (rule nth_equalityI) (use prog_tables_page [OF ms(4,3)] ms(5) in simp_all)
  have guard: "None \<notin> set (map (page_at_root s1 ?root) [0..<n]) \<and> distinct (map (page_at_root s1 ?root) [0..<n])"
    unfolding pg using ms(6) by (auto simp: distinct_map inj_on_def)
  have um: "umem s1 = umem s" "ram s1 = ram s" by (subst ms(2), simp)+
  have ker: "\<forall>x. unat x < unat USER_START \<longrightarrow> space_mem s1 ?root x = umem s x" by (simp add: space_mem_def um word_less_nat_alt)
  have "n \<le> 262144" using ms(4,5) by (simp add: prog_tables_def)
  from fill_space_ok [OF pf pa pd ker n this]
  obtain v where v: "fill_space n bf (ph_end ph) argc argv pwd (space_mem s1 ?root) = Some v" "program_memory (umem s) bf ph pwd P As v" by blast
  define s' where "s' = put_pages n ?root v s1"
  note pp = put_pages_ok [OF ms(4,3,6) ms(5) [symmetric], of v, folded s'_def]
  have run: "load_program n bf (ph_end ph) argc argv pwd s = Some (sp, s')"
    using ms(1) guard v(1) by (simp add: load_program_def Let_def s'_def)
  have "space_mem s' ?root x = v x" if x: "unat USER_START \<le> unat x" "unat x < unat (ph_end ph) + 0x30000" for x
  proof -
    obtain l off where l: "l < n" "off < 4096" "x = USER_START + of_nat (4096 * l + off)" by (rule user_split [OF x(1), of n]) (use x(2) n0(2) in simp_all)
    show ?thesis using space_mem_page [OF pp(2) ms(3), of l off] pp(4) l ms(5) by simp
  qed
  then have pm: "program_memory (umem s) bf ph pwd P As (space_mem s' ?root)" by (intro program_memory_cong [OF v(2) _ E pd pa]) blast
  have f': "fmm s' = fmm s1" "pml4_mem s' = pml4_mem s1" "pdpt_mem s' = pdpt_mem s1" by (subst pp(1), simp)+
  have "s' = s\<lparr>fmm := fmm s', pml4_mem := pml4_mem s', pdpt_mem := pdpt_mem s', ram := ram s'\<rparr>"
    unfolding f' by (subst pp(1), subst ms(2)) simp
  then have "loaded s s' sp fs f4 f3 f2 F" unfolding loaded_def f' using ms pp(2,3) um(2) by auto
  with run pm ms(5,12) that show ?thesis by (simp add: f')
qed

end
