(* ===== verification/Execthms.thy ===== *)
theory Execthms
  imports Load Sysprops
begin

text \<open>
  \<^verbatim>\<open>exectve\<close> as a whole: the program it starts finds its image, its arguments and an empty stack behind its own page
  tables, in frames that nobody used, and its thread is in the queue.
\<close>

section \<open>Starting a program\<close>

lemma loaded_thread_inv:
  assumes "loaded s s1 sp fs f4 f3 f2 F" and "thread_inv qs s"
  shows "thread_inv qs s1" and "next_pid s1 = next_pid s" and "umem s1 = umem s"
proof -
  have e: "s1 = s\<lparr>fmm := fmm s1, pml4_mem := pml4_mem s1, pdpt_mem := pdpt_mem s1, ram := ram s1\<rparr>" "live_blocks (fmm s) \<subseteq> live_blocks (fmm s1)"
    using assms(1) by (auto simp: loaded_def)
  have f: "threads s1 = threads s" "thread_ready_queue s1 = thread_ready_queue s" "current_thread s1 = current_thread s" "current_thread2 s1 = current_thread2 s"
    "ctx s1 = ctx s" "ctx2 s1 = ctx2 s" by (subst e(1), simp)+
  show "next_pid s1 = next_pid s" "umem s1 = umem s" by (subst e(1), simp)+
  then show "thread_inv qs s1" using assms(2) e(2) by (auto simp: thread_inv_def thr_def f)
qed

lemma exec_rest:
  fixes s s' :: "'a exec_state_scheme"
  assumes "thread_state.more s' = thread_state.more s"
  shows "pml4_mem s' = pml4_mem s" "pdpt_mem s' = pdpt_mem s" "ram s' = ram s" "umem s' = umem s"
  using assms by (cases s'; cases s; simp)+

lemma prog_tables_keeps:
  assumes "prog_tables s f4 f3 f2 F fs" and "keeps_maps (fmm s) (fmm s')" and "heap_tables (fmm s)" and "pml4_mem s' = pml4_mem s" "pdpt_mem s' = pdpt_mem s"
  shows "prog_tables s' f4 f3 f2 F fs"
proof -
  have "pte_mem (fmm s') (pt_slot F l) = pte_mem (fmm s) (pt_slot F l)" if "l < length fs" for l
  proof -
    have "512 * (l div 512) < length fs" using that by (metis div_times_less_eq_dividend le_less_trans mult.commute)
    then have "32768 \<le> F (l div 512)" using assms(1) by (simp add: prog_tables_def)
    then have "alloc_pte (fmm s) + 8 * HEAP_PAGES \<le> pt_slot F l" using heap_table_below [OF assms(3)] by (simp add: pt_slot_def)
    then show ?thesis using assms(2) by (simp add: keeps_maps_def)
  qed
  moreover have "pde_mem (fmm s') = pde_mem (fmm s)" using assms(2) by (simp add: keeps_maps_def)
  ultimately show ?thesis using assms(1,4,5) by (simp add: prog_tables_def)
qed

lemma physize_program:
  assumes "program_file m bf len ph"
  shows "physize_of ph = int (unat (ph_end ph) - unat USER_START + 0x30000)"
proof -
  have st: "ph_start ph = USER_START" using assms by (auto simp: program_file_def load_elf64_header_def Let_def bind_eq_Some_conv split: if_splits)
  have E: "unat USER_START \<le> unat (ph_end ph)" "unat (ph_end ph) < unat USER_START + 2 ^ 30" using assms by (simp_all add: program_file_def)
  define k where "k = unat (ph_end ph) - unat USER_START + 0x30000"
  have "unat (ph_end ph - USER_START) = unat (ph_end ph) - unat USER_START" using E(1) by (simp add: unat_sub_small)
  moreover have "ph_end ph - USER_START = of_nat (unat (ph_end ph - USER_START))" by simp
  ultimately have "ph_end ph - USER_START = of_nat (unat (ph_end ph) - unat USER_START)" by (simp only:)
  then have e: "ph_end ph = of_nat (unat (ph_end ph) - unat USER_START) + USER_START" by (simp only: diff_eq_eq)
  have a: "ph_end ph + 0x30000 - USER_START = of_nat k" by (subst e) (simp add: k_def)
  have b: "(ucast (of_nat k :: u64) :: u32) = of_nat k" using E by (intro ucast_of_nat_small) (simp add: k_def)
  have "k < 2 ^ 31" using E by (simp add: k_def)
  then have "unat (of_nat k :: u32) = k" "k < 2 ^ 31" by (simp_all add: unat_of_nat_small)
  then have c: "sint (of_nat k :: u32) = int k" by (simp add: sint_small)
  show ?thesis unfolding physize_of_def st a b c by (simp only: k_def)
qed


text \<open>The kernel after boot, with the file \<open>tiny_elf\<close>, a directory name and one argument in its memory.\<close>

definition exec_memory :: mem where
  "exec_memory = tiny_elf(0x3000 := 104, 0x4001 := 0x30)"

definition exec_zero :: exec_state where
  "exec_zero = sys_state.extend (sys_zero\<lparr>umem := exec_memory\<rparr>) (exec_state.fields (\<lambda>_. pml4_zero) (\<lambda>_. pdpte_zero) (\<lambda>_. 0))"

lemma exec_zero_fields: "fmm exec_zero = fmm thread_zero" "threads exec_zero = Map.empty" "ctx exec_zero = context_zero" "ctx2 exec_zero = context_zero"
    "umem exec_zero = exec_memory" "kernel_pml4e exec_zero = 0" "pipe_launcher exec_zero = 0"
  by (simp_all add: exec_zero_def sys_zero_def thread_zero_def win_zero_def thread_state.defs sys_state.defs win_state.defs)

lemma exec_boot:
  obtains s q where "thread_setup no_disk (replicate 512 0) exec_zero = Some (0, s)" "thread_inv [q] s" "heap_room 20000 (fmm s)" "next_pid s = 1"
    "heap_tables (fmm s)" "umem s = exec_memory" "kernel_pml4e s = 0" "pipe_launcher s = 0"
proof -
  have r: "heap_room (17 + 20000) (fmm exec_zero)" unfolding exec_zero_fields by (rule boot_zero(2))
  have f: "length (c_fxsave (ctx exec_zero)) = 512" "length (c_fxsave (ctx2 exec_zero)) = 512" unfolding exec_zero_fields by (rule boot_zero(3))+
  have "length (replicate 512 (0::u8)) = 512" by simp
  then obtain s q t where s: "thread_setup no_disk (replicate 512 0) exec_zero = Some (0, s)" "thread_inv [q] s" "threads s = [q \<mapsto> t]" "heap_room 20000 (fmm s)"
    "next_pid s = 1" "pipe_launcher s = pipe_launcher exec_zero"
    by (rule thread_setup_ok [OF r _ exec_zero_fields(2) f])
  have m: "thread_state.more s = thread_state.more exec_zero" "kernel_pml4e s = kernel_pml4e exec_zero" using thread_setup_more [OF s(1)] by (simp_all add: thread_rest_def)
  have "umem s = umem exec_zero" by (rule exec_rest(4) [OF m(1)])
  moreover have "fmm exec_zero = mm_boot mm_zero" unfolding exec_zero_fields by (simp add: thread_zero_def win_zero_def win_state.defs)
  then have "heap_tables (fmm exec_zero)" by (simp add: mm_boot_heap_tables)
  then have "heap_tables (fmm s)" using thread_setup_grows [OF s(1)] r keeps_heap_tables unfolding grows_def by blast
  ultimately show ?thesis using that s m(2) by (simp add: exec_zero_fields)
qed

lemma exec_memory_file:
  "program_file exec_memory 0x1000 132 \<lparr>ph_start = 0x8000000000, ph_entry = 0x8000000000, ph_end = 0x8000000004\<rparr>"
proof -
  have so: "same_on 0x1000 132 tiny_elf exec_memory" by (auto simp: same_on_def exec_memory_def inside_def)
  note e = elf_same [OF tiny_elf_image so]
  have s: "sections tiny_elf 0x1000 = [shdr tiny_elf 0x1040]" by (simp add: sections_def tiny_elf_headers Let_def)
  have h: "ehdr exec_memory 0x1000 = ehdr tiny_elf 0x1000" using same_headers(1) [OF so, of 0] by simp
  have b: "exec_memory 0x1004 = 2" by (simp add: exec_memory_def tiny_elf_def)
  have "load_elf64_header 0x1000 exec_memory = Some (0, Some \<lparr>ph_start = 0x8000000000, ph_entry = 0x8000000000, ph_end = 0x8000000004\<rparr>)"
    using elf_load_correct [OF e(1)] by (simp add: b h e(2) s tiny_elf_headers is_loaded_def)
  then show ?thesis using e(1) by (simp add: program_file_def e(2) s tiny_elf_headers)
qed


end
