(* ===== verification/Qsort.thy ===== *)
theory Qsort
  imports Prelude "HOL-Library.Multiset" "HOL-Library.Monad_Syntax"
begin

text \<open>
  \<^verbatim>\<open>qsort\<close> of the C library of the programs, \<^verbatim>\<open>user/lib/libc/stdlib/qsort.c\<close>: the Unix quicksort with a middle run
  of equal elements.  The array is a list of bytes, a pointer an offset into it, \<open>es\<close> the size of an element and
  \<open>cmp\<close> the comparison on the bytes of two elements.  An access outside the array has no result.  The two labels of
  the partitioning loop are the flag \<open>atop\<close>: \<open>True\<close> at the head of the \<^verbatim>\<open>for\<close>, \<open>False\<close> at \<^verbatim>\<open>loop\<close>.

  The elements are \<open>elems es xs\<close>.  \<open>partition_ok\<close> is the invariant of the loop in terms of the class of each element
  (below, like or above the pivot); from it follow that the loop ends and that \<open>qsort\<close> sorts.
\<close>

section \<open>The program\<close>

fun qsexc :: "nat \<Rightarrow> nat \<Rightarrow> nat \<Rightarrow> u8 list \<Rightarrow> u8 list option" where
  "qsexc 0 ri rj xs = Some xs"
| "qsexc (Suc n) ri rj xs =
     (if ri < length xs \<and> rj < length xs then
        let c = xs ! ri;
            xs = xs[ri := xs ! rj];
            xs = xs[rj := c]
        in qsexc n (ri + 1) (rj + 1) xs
      else None)"

fun qstexc :: "nat \<Rightarrow> nat \<Rightarrow> nat \<Rightarrow> nat \<Rightarrow> u8 list \<Rightarrow> u8 list option" where
  "qstexc 0 ri rj rk xs = Some xs"
| "qstexc (Suc n) ri rj rk xs =
     (if ri < length xs \<and> rj < length xs \<and> rk < length xs then
        let c = xs ! ri;
            xs = xs[ri := xs ! rk];
            xs = xs[rk := xs ! rj];
            xs = xs[rj := c]
        in qstexc n (ri + 1) (rj + 1) (rk + 1) xs
      else None)"

type_synonym compar = "u8 list \<Rightarrow> u8 list \<Rightarrow> int"

definition qscmp :: "nat \<Rightarrow> compar \<Rightarrow> nat \<Rightarrow> nat \<Rightarrow> u8 list \<Rightarrow> int option" where
  "qscmp es cmp i j xs =
     (if i + es \<le> length xs \<and> j + es \<le> length xs then Some (cmp (take es (drop i xs)) (take es (drop j xs))) else None)"

text \<open>One round: up to the next jump to a label, or the end of the partition.\<close>

datatype qs_next = Jump bool nat nat nat nat "u8 list" | Split nat nat "u8 list"

definition qs_round :: "nat \<Rightarrow> compar \<Rightarrow> bool \<Rightarrow> nat \<Rightarrow> nat \<Rightarrow> nat \<Rightarrow> nat \<Rightarrow> u8 list \<Rightarrow> qs_next option" where
  "qs_round es cmp atop i j lp hp xs =
     do {
       c \<leftarrow> (if atop \<and> i < lp then qscmp es cmp i lp xs else Some 1);
       if c = 0 then do { xs \<leftarrow> qsexc es i (lp - es) xs; Some (Jump True i j (lp - es) hp xs) }
       else if c < 0 then Some (Jump True (i + es) j lp hp xs)
       else if j > hp then do {
         c \<leftarrow> qscmp es cmp hp j xs;
         if c = 0 then do { xs \<leftarrow> qsexc es (hp + es) j xs; Some (Jump False i j lp (hp + es) xs) }
         else if c > 0 then
           (if i = lp then do { xs \<leftarrow> qstexc es i (hp + es) j xs; Some (Jump False (lp + es) j (lp + es) (hp + es) xs) }
            else do { xs \<leftarrow> qsexc es i j xs; Some (Jump True (i + es) (j - es) lp hp xs) })
         else Some (Jump False i (j - es) lp hp xs) }
       else if i = lp then Some (Split lp hp xs)
       else do { xs \<leftarrow> qstexc es j (lp - es) i xs; Some (Jump True i (hp - es) (lp - es) (hp - es) xs) } }"

partial_function (option) qs_part :: "nat \<Rightarrow> compar \<Rightarrow> bool \<Rightarrow> nat \<Rightarrow> nat \<Rightarrow> nat \<Rightarrow> nat \<Rightarrow> u8 list \<Rightarrow> (nat \<times> nat \<times> u8 list) option" where
  "qs_part es cmp atop i j lp hp xs =
     do {
       r \<leftarrow> qs_round es cmp atop i j lp hp xs;
       case r of Jump atop i j lp hp xs \<Rightarrow> qs_part es cmp atop i j lp hp xs
       | Split lp hp xs \<Rightarrow> Some (lp, hp, xs) }"

text \<open>\<^verbatim>\<open>n\<close> is \<^verbatim>\<open>unsigned\<close>: the distance of the pointers modulo \<open>2 ^ 32\<close>.\<close>

partial_function (option) qs1 :: "nat \<Rightarrow> compar \<Rightarrow> u8 list \<Rightarrow> nat \<Rightarrow> nat \<Rightarrow> u8 list option" where
  "qs1 es cmp xs a l =
     (let n = (l - a) mod 2 ^ 32 in
      if n \<le> es then Some xs
      else do {
        let n = es * (n div (2 * es));
        (lp, hp, xs) \<leftarrow> qs_part es cmp True a (l - es) (a + n) (a + n) xs;
        if lp - a \<ge> l - hp then do { xs \<leftarrow> qs1 es cmp xs (hp + es) l; qs1 es cmp xs a lp }
        else do { xs \<leftarrow> qs1 es cmp xs a lp; qs1 es cmp xs (hp + es) l } })"

definition qsort :: "nat \<Rightarrow> nat \<Rightarrow> compar \<Rightarrow> u8 list \<Rightarrow> u8 list option" where
  "qsort nmemb es cmp xs = qs1 es cmp xs 0 (nmemb * es)"

section \<open>Exchanging elements\<close>

definition elems :: "nat \<Rightarrow> u8 list \<Rightarrow> u8 list list" where
  "elems es xs = map (\<lambda>k. take es (drop (k * es) xs)) [0..<length xs div es]"

definition disjnt_or_same :: "nat \<Rightarrow> nat \<Rightarrow> nat \<Rightarrow> bool" where
  "disjnt_or_same n i j \<longleftrightarrow> i = j \<or> i + n \<le> j \<or> j + n \<le> i"

lemma qsexc_nth:
  "disjnt_or_same n i j \<Longrightarrow> i + n \<le> length xs \<Longrightarrow> j + n \<le> length xs \<Longrightarrow>
   \<exists>ys. qsexc n i j xs = Some ys \<and> length ys = length xs \<and> (\<forall>d < n. ys ! (i + d) = xs ! (j + d) \<and> ys ! (j + d) = xs ! (i + d)) \<and>
     (\<forall>b. (b < i \<or> i + n \<le> b) \<and> (b < j \<or> j + n \<le> b) \<longrightarrow> ys ! b = xs ! b)"
proof (induction n arbitrary: i j xs)
  case (Suc n)
  define ys where "ys = xs[i := xs ! j, j := xs ! i]"
  have d: "i = j \<or> i + Suc n \<le> j \<or> j + Suc n \<le> i" and l: "i < length xs" "j < length xs"
    using Suc.prems by (simp_all add: disjnt_or_same_def)
  have y: "ys ! i = xs ! j" "ys ! j = xs ! i" "\<And>b. b \<noteq> i \<Longrightarrow> b \<noteq> j \<Longrightarrow> ys ! b = xs ! b"
    using l by (simp_all add: ys_def nth_list_update)
  have "disjnt_or_same n (i + 1) (j + 1)" "i + 1 + n \<le> length ys" "j + 1 + n \<le> length ys"
    using Suc.prems by (auto simp: disjnt_or_same_def ys_def)
  from Suc.IH [OF this] obtain zs where z: "qsexc n (i + 1) (j + 1) ys = Some zs" "length zs = length ys"
    "\<And>d. d < n \<Longrightarrow> zs ! (i + 1 + d) = ys ! (j + 1 + d) \<and> zs ! (j + 1 + d) = ys ! (i + 1 + d)"
    "\<And>b. (b < i + 1 \<or> i + 1 + n \<le> b) \<and> (b < j + 1 \<or> j + 1 + n \<le> b) \<Longrightarrow> zs ! b = ys ! b" by auto
  have q: "qsexc (Suc n) i j xs = Some zs" using l z(1) by (simp add: ys_def Let_def)
  have "zs ! (i + e) = xs ! (j + e) \<and> zs ! (j + e) = xs ! (i + e)" if "e < Suc n" for e
  proof (cases e)
    case 0
    have "zs ! i = ys ! i" "zs ! j = ys ! j" using d by (auto intro!: z(4))
    then show ?thesis using 0 y by simp
  next
    case (Suc o')
    then have "zs ! (i + e) = ys ! (j + e)" "zs ! (j + e) = ys ! (i + e)" using z(3) [of o'] that by simp_all
    moreover have "j + e \<noteq> i" "i + e \<noteq> j" "j + e \<noteq> j" "i + e \<noteq> i" using d that Suc by auto
    ultimately show ?thesis using y(3) by simp
  qed
  moreover have "zs ! b = xs ! b" if "(b < i \<or> i + Suc n \<le> b) \<and> (b < j \<or> j + Suc n \<le> b)" for b
  proof -
    have "zs ! b = ys ! b" using that by (intro z(4)) linarith
    then show ?thesis using that y(3) [of b] by auto
  qed
  ultimately show ?case using q z(2) by (simp add: ys_def)
qed auto

lemma qstexc_nth:
  "i + n \<le> j \<or> j + n \<le> i \<Longrightarrow> i + n \<le> k \<or> k + n \<le> i \<Longrightarrow> disjnt_or_same n j k \<Longrightarrow> i + n \<le> length xs \<Longrightarrow> j + n \<le> length xs \<Longrightarrow> k + n \<le> length xs \<Longrightarrow>
   \<exists>ys. qstexc n i j k xs = Some ys \<and> length ys = length xs \<and>
     (\<forall>d < n. ys ! (i + d) = xs ! (k + d) \<and> ys ! (j + d) = xs ! (i + d) \<and> (j \<noteq> k \<longrightarrow> ys ! (k + d) = xs ! (j + d))) \<and>
     (\<forall>b. (b < i \<or> i + n \<le> b) \<and> (b < j \<or> j + n \<le> b) \<and> (b < k \<or> k + n \<le> b) \<longrightarrow> ys ! b = xs ! b)"
proof (induction n arbitrary: i j k xs)
  case (Suc n)
  define ys where "ys = xs[i := xs ! k, k := xs[i := xs ! k] ! j, j := xs ! i]"
  have d: "i + Suc n \<le> j \<or> j + Suc n \<le> i" "i + Suc n \<le> k \<or> k + Suc n \<le> i" "j = k \<or> j + Suc n \<le> k \<or> k + Suc n \<le> j"
    and l: "i < length xs" "j < length xs" "k < length xs"
    using Suc.prems by (simp_all add: disjnt_or_same_def)
  have ne: "i \<noteq> j" "i \<noteq> k" using d(1,2) by auto
  have y: "ys ! i = xs ! k" "ys ! j = xs ! i" "j \<noteq> k \<Longrightarrow> ys ! k = xs ! j" "\<And>b. b \<noteq> i \<Longrightarrow> b \<noteq> j \<Longrightarrow> b \<noteq> k \<Longrightarrow> ys ! b = xs ! b"
    using l ne by (simp_all add: ys_def nth_list_update)
  have "i + 1 + n \<le> j + 1 \<or> j + 1 + n \<le> i + 1" "i + 1 + n \<le> k + 1 \<or> k + 1 + n \<le> i + 1" "disjnt_or_same n (j + 1) (k + 1)"
    "i + 1 + n \<le> length ys" "j + 1 + n \<le> length ys" "k + 1 + n \<le> length ys"
    using Suc.prems by (auto simp: disjnt_or_same_def ys_def)
  from Suc.IH [OF this] obtain zs where z: "qstexc n (i + 1) (j + 1) (k + 1) ys = Some zs" "length zs = length ys"
    "\<And>d. d < n \<Longrightarrow> zs ! (i + 1 + d) = ys ! (k + 1 + d) \<and> zs ! (j + 1 + d) = ys ! (i + 1 + d) \<and> (j \<noteq> k \<longrightarrow> zs ! (k + 1 + d) = ys ! (j + 1 + d))"
    "\<And>b. (b < i + 1 \<or> i + 1 + n \<le> b) \<and> (b < j + 1 \<or> j + 1 + n \<le> b) \<and> (b < k + 1 \<or> k + 1 + n \<le> b) \<Longrightarrow> zs ! b = ys ! b" by auto
  have q: "qstexc (Suc n) i j k xs = Some zs" using l z(1) by (simp add: ys_def Let_def)
  have "zs ! (i + e) = xs ! (k + e) \<and> zs ! (j + e) = xs ! (i + e) \<and> (j \<noteq> k \<longrightarrow> zs ! (k + e) = xs ! (j + e))" if "e < Suc n" for e
  proof (cases e)
    case 0
    have "zs ! i = ys ! i" "zs ! j = ys ! j" "zs ! k = ys ! k" using d by (auto intro!: z(4))
    then show ?thesis using 0 y by simp
  next
    case (Suc o')
    then have "zs ! (i + e) = ys ! (k + e)" "zs ! (j + e) = ys ! (i + e)" "j \<noteq> k \<Longrightarrow> zs ! (k + e) = ys ! (j + e)" using z(3) [of o'] that by simp_all
    moreover have "j + e \<noteq> i" "i + e \<noteq> j" "j + e \<noteq> j" "i + e \<noteq> i" "k + e \<noteq> i" "i + e \<noteq> k" "k + e \<noteq> k" "j + e \<noteq> k" "k + e \<noteq> j" using d that Suc by auto
    ultimately show ?thesis using y(4) by simp
  qed
  moreover have "zs ! b = xs ! b" if "(b < i \<or> i + Suc n \<le> b) \<and> (b < j \<or> j + Suc n \<le> b) \<and> (b < k \<or> k + Suc n \<le> b)" for b
  proof -
    have "zs ! b = ys ! b" using that by (intro z(4)) linarith
    then show ?thesis using that y(4) [of b] by auto
  qed
  ultimately show ?case using q z(2) by (simp add: ys_def)
qed auto

text \<open>The same on elements.\<close>

lemma elem_index: "b < es \<Longrightarrow> (i * es \<le> k * es + b \<and> k * es + b < i * es + es) \<longleftrightarrow> i = (k :: nat)"
proof
  assume b: "b < es" and "i * es \<le> k * es + b \<and> k * es + b < i * es + es"
  then have "i * es < (k + 1) * es" "k * es < (i + 1) * es" by (simp_all add: algebra_simps)
  then show "i = k" by (metis Suc_eq_plus1 less_Suc_eq_le mult_less_cancel2 order_antisym)
qed auto

lemma elem_apart: "i < N \<Longrightarrow> i * es + es \<le> N * (es :: nat)"
  by (metis Suc_leI add.commute mult_Suc mult_le_mono1)

lemma elem_disjoint: "i \<noteq> j \<Longrightarrow> i * es + es \<le> j * es \<or> j * es + es \<le> i * (es :: nat)"
  by (metis elem_apart linorder_neqE_nat)

lemma elems_nth [simp]: "0 < es \<Longrightarrow> length xs = N * es \<Longrightarrow> length (elems es xs) = N"
  "0 < es \<Longrightarrow> length xs = N * es \<Longrightarrow> k < N \<Longrightarrow> elems es xs ! k = take es (drop (k * es) xs)"
  by (simp_all add: elems_def)

lemma elems_byte: "0 < es \<Longrightarrow> length xs = N * es \<Longrightarrow> k < N \<Longrightarrow> b < es \<Longrightarrow> elems es xs ! k ! b = xs ! (k * es + b)"
  using elem_apart [of k N es] by simp

lemma elems_eqI:
  assumes "0 < es" "length xs = N * es" "length ys = N" "\<And>k. k < N \<Longrightarrow> length (ys ! k) = es"
    and "\<And>k b. k < N \<Longrightarrow> b < es \<Longrightarrow> xs ! (k * es + b) = ys ! k ! b"
  shows "elems es xs = ys"
proof (rule nth_equalityI)
  show "length (elems es xs) = length ys" using assms by simp
  fix k assume "k < length (elems es xs)"
  then have k: "k < N" using assms by simp
  show "elems es xs ! k = ys ! k"
  proof (rule nth_equalityI)
    show "length (elems es xs ! k) = length (ys ! k)" using elem_apart [OF k, of es] assms(1,2,4) k by simp
    fix b assume "b < length (elems es xs ! k)"
    then have "b < es" using assms(1,2) k by simp
    then show "elems es xs ! k ! b = ys ! k ! b" using assms k elems_byte [OF assms(1,2) k] by simp
  qed
qed

lemma elems_length: "0 < es \<Longrightarrow> length xs = N * es \<Longrightarrow> k < N \<Longrightarrow> length (elems es xs ! k) = es"
  using elem_apart [of k N es] by simp

lemma qsexc_elems:
  assumes "0 < es" "length xs = N * es" "i < N" "j < N"
  shows "\<exists>ys. qsexc es (i * es) (j * es) xs = Some ys \<and> length ys = N * es \<and>
    elems es ys = (elems es xs)[i := elems es xs ! j, j := elems es xs ! i]"
proof -
  have "disjnt_or_same es (i * es) (j * es)" using elem_disjoint [of i j es] by (auto simp: disjnt_or_same_def)
  moreover have "i * es + es \<le> length xs" "j * es + es \<le> length xs" using elem_apart assms by simp_all
  ultimately obtain ys where y: "qsexc es (i * es) (j * es) xs = Some ys" "length ys = length xs"
    "\<And>d. d < es \<Longrightarrow> ys ! (i * es + d) = xs ! (j * es + d) \<and> ys ! (j * es + d) = xs ! (i * es + d)"
    "\<And>b. (b < i * es \<or> i * es + es \<le> b) \<and> (b < j * es \<or> j * es + es \<le> b) \<Longrightarrow> ys ! b = xs ! b"
    using qsexc_nth by blast
  have "elems es ys = (elems es xs)[i := elems es xs ! j, j := elems es xs ! i]"
  proof (rule elems_eqI)
    fix k b assume k: "k < N" and b: "b < es"
    have "ys ! (k * es + b) = (if j = k then xs ! (i * es + b) else if i = k then xs ! (j * es + b) else xs ! (k * es + b))"
      using y(3) [OF b] y(4) [of "k * es + b"] elem_index [OF b, of i k] elem_index [OF b, of j k] by (auto simp: not_less not_le)
    then show "ys ! (k * es + b) = (elems es xs)[i := elems es xs ! j, j := elems es xs ! i] ! k ! b"
      using elems_byte [OF assms(1,2) _ b] assms k by (simp add: nth_list_update)
  qed (use assms y(2) in \<open>auto simp: nth_list_update elems_length simp del: elems_nth(2)\<close>)
  with y(1,2) assms(2) show ?thesis by auto
qed

lemma qstexc_elems:
  assumes "0 < es" "length xs = N * es" "i < N" "j < N" "k < N" "i \<noteq> j" "i \<noteq> k"
  shows "\<exists>ys. qstexc es (i * es) (j * es) (k * es) xs = Some ys \<and> length ys = N * es \<and>
    elems es ys = (elems es xs)[k := elems es xs ! j, j := elems es xs ! i, i := elems es xs ! k]"
proof -
  have "disjnt_or_same es (j * es) (k * es)" using elem_disjoint [of j k es] by (auto simp: disjnt_or_same_def)
  moreover have "i * es + es \<le> length xs" "j * es + es \<le> length xs" "k * es + es \<le> length xs" using elem_apart assms by simp_all
  ultimately obtain ys where y: "qstexc es (i * es) (j * es) (k * es) xs = Some ys" "length ys = length xs"
    "\<And>d. d < es \<Longrightarrow> ys ! (i * es + d) = xs ! (k * es + d) \<and> ys ! (j * es + d) = xs ! (i * es + d) \<and> (j * es \<noteq> k * es \<longrightarrow> ys ! (k * es + d) = xs ! (j * es + d))"
    "\<And>b. (b < i * es \<or> i * es + es \<le> b) \<and> (b < j * es \<or> j * es + es \<le> b) \<and> (b < k * es \<or> k * es + es \<le> b) \<Longrightarrow> ys ! b = xs ! b"
    using qstexc_nth [OF elem_disjoint [OF assms(6)] elem_disjoint [OF assms(7)]] by blast
  have "elems es ys = (elems es xs)[k := elems es xs ! j, j := elems es xs ! i, i := elems es xs ! k]"
  proof (rule elems_eqI)
    fix n b assume k: "n < N" and b: "b < es"
    have "ys ! (n * es + b) = (if i = n then xs ! (k * es + b) else if j = n then xs ! (i * es + b) else if k = n then xs ! (j * es + b) else xs ! (n * es + b))"
      using y(3) [OF b] y(4) [of "n * es + b"] elem_index [OF b, of i n] elem_index [OF b, of j n] elem_index [OF b, of k n] assms(1) by (auto simp: not_less not_le)
    then show "ys ! (n * es + b) = (elems es xs)[k := elems es xs ! j, j := elems es xs ! i, i := elems es xs ! k] ! n ! b"
      using elems_byte [OF assms(1,2) _ b] assms k by (simp add: nth_list_update)
  qed (use assms y(2) in \<open>auto simp: nth_list_update elems_length simp del: elems_nth(2)\<close>)
  with y(1,2) assms(2) show ?thesis by auto
qed

lemma qscmp_elems: "0 < es \<Longrightarrow> length xs = N * es \<Longrightarrow> i < N \<Longrightarrow> j < N \<Longrightarrow> qscmp es cmp (i * es) (j * es) xs = Some (cmp (elems es xs ! i) (elems es xs ! j))"
  using elem_apart [of i N es] elem_apart [of j N es] by (simp add: qscmp_def)

end
