(* ===== verification/Qsortthms.thy ===== *)
theory Qsortthms
  imports Qsort
begin

text \<open>
  \<^verbatim>\<open>qsort\<close> sorts: the partitioning loop ends with the elements below, like and above the pivot in three runs, by an
  invariant that shrinks in every round, and the two recursive calls then have less to sort.
\<close>

section \<open>The partition\<close>

definition comparison :: "compar \<Rightarrow> bool" where
  "comparison cmp \<longleftrightarrow> (\<forall>x y. sgn (cmp y x) = - sgn (cmp x y)) \<and> (\<forall>x y z. cmp x y \<le> 0 \<longrightarrow> cmp y z \<le> 0 \<longrightarrow> cmp x z \<le> 0)"

lemma comparison_class:
  assumes "comparison cmp" and "sgn (cmp q p) = 0"
  shows "sgn (cmp x q) = sgn (cmp x p)" and "sgn (cmp q x) = - sgn (cmp x p)"
proof -
  have s: "\<And>x y. sgn (cmp y x) = - sgn (cmp x y)" and t: "\<And>x y z. cmp x y \<le> 0 \<Longrightarrow> cmp y z \<le> 0 \<Longrightarrow> cmp x z \<le> 0"
    using assms(1) unfolding comparison_def by blast+
  have a: "cmp q p = 0" "cmp p q = 0" using assms(2) s [of p q] by (auto simp: sgn_if split: if_splits)
  have "cmp x q \<le> 0 \<longleftrightarrow> cmp x p \<le> 0" "cmp q x \<le> 0 \<longleftrightarrow> cmp p x \<le> 0" using t [of x q p] t [of x p q] t [of q p x] t [of p q x] a by auto
  then show 1: "sgn (cmp x q) = sgn (cmp x p)" using s [of x q] s [of x p] by (auto simp: sgn_if split: if_splits)
  then show "sgn (cmp q x) = - sgn (cmp x p)" using s [of q x] by simp
qed

definition perm_in :: "nat \<Rightarrow> nat \<Rightarrow> 'a list \<Rightarrow> 'a list \<Rightarrow> bool" where
  "perm_in a l ys ys' \<longleftrightarrow> mset ys' = mset ys \<and> (\<forall>k. k < a \<or> l \<le> k \<longrightarrow> ys' ! k = ys ! k)"

lemma perm_in_refl [simp]: "perm_in a l ys ys"
  by (simp add: perm_in_def)

lemma perm_in_trans: "perm_in a l ys ys' \<Longrightarrow> perm_in a l ys' zs \<Longrightarrow> perm_in a l ys zs"
  by (simp add: perm_in_def)

lemma perm_in_length: "perm_in a l ys ys' \<Longrightarrow> length ys' = length ys"
  unfolding perm_in_def using mset_eq_length by blast

lemma perm_in_swap: "a \<le> i \<Longrightarrow> i < l \<Longrightarrow> a \<le> j \<Longrightarrow> j < l \<Longrightarrow> l \<le> length ys \<Longrightarrow> perm_in a l ys (ys[i := ys ! j, j := ys ! i])"
  by (simp add: perm_in_def mset_swap nth_list_update)

lemma perm_in_cycle:
  assumes "a \<le> i" "i < l" "a \<le> j" "j < l" "a \<le> k" "k < l" "l \<le> length ys" "i \<noteq> j" "i \<noteq> k"
  shows "perm_in a l ys (ys[k := ys ! j, j := ys ! i, i := ys ! k])"
proof -
  define zs where "zs = ys[j := ys ! k, k := ys ! j]"
  have "ys[k := ys ! j, j := ys ! i, i := ys ! k] = zs[i := zs ! j, j := zs ! i]"
    using assms by (intro nth_equalityI) (auto simp: zs_def nth_list_update)
  moreover have "perm_in a l ys zs" unfolding zs_def using assms by (intro perm_in_swap) auto
  moreover have "perm_in a l zs (zs[i := zs ! j, j := zs ! i])" using assms by (intro perm_in_swap) (auto simp: zs_def)
  ultimately show ?thesis using perm_in_trans by metis
qed

definition partition_ok :: "compar \<Rightarrow> u8 list \<Rightarrow> nat \<Rightarrow> nat \<Rightarrow> bool \<Rightarrow> nat \<Rightarrow> nat \<Rightarrow> nat \<Rightarrow> nat \<Rightarrow> u8 list list \<Rightarrow> bool" where
  "partition_ok cmp p a l atop i j lp hp ys \<longleftrightarrow> a \<le> i \<and> i \<le> lp \<and> lp \<le> hp \<and> hp \<le> j \<and> j < l \<and> l \<le> length ys \<and>
     (\<forall>k. a \<le> k \<and> k < i \<longrightarrow> sgn (cmp (ys ! k) p) = - 1) \<and> (\<forall>k. lp \<le> k \<and> k \<le> hp \<longrightarrow> sgn (cmp (ys ! k) p) = 0) \<and>
     (\<forall>k. j < k \<and> k < l \<longrightarrow> sgn (cmp (ys ! k) p) = 1) \<and> (\<not> atop \<longrightarrow> i = lp \<or> sgn (cmp (ys ! i) p) = 1)"

text \<open>What a round leads to: a state closer to the end, or the end.\<close>

definition round_result :: "nat \<Rightarrow> compar \<Rightarrow> u8 list \<Rightarrow> nat \<Rightarrow> nat \<Rightarrow> nat \<Rightarrow> u8 list list \<Rightarrow> nat \<Rightarrow> qs_next option \<Rightarrow> bool" where
  "round_result es cmp p a l N ys m r \<longleftrightarrow>
     (\<exists>atop i j lp hp xs. r = Some (Jump atop (i * es) (j * es) (lp * es) (hp * es) xs) \<and> length xs = N * es \<and>
        partition_ok cmp p a l atop i j lp hp (elems es xs) \<and> perm_in a l ys (elems es xs) \<and> (j - hp) + (lp - i) < m) \<or>
     (\<exists>lp hp xs. r = Some (Split (lp * es) (hp * es) xs) \<and> length xs = N * es \<and> partition_ok cmp p a l True lp hp lp hp (elems es xs) \<and> perm_in a l ys (elems es xs))"

lemma round_Jump:
  "length xs = N * es \<Longrightarrow> partition_ok cmp p a l atop i j lp hp (elems es xs) \<Longrightarrow> perm_in a l ys (elems es xs) \<Longrightarrow> (j - hp) + (lp - i) < m \<Longrightarrow>
   i' = i * es \<Longrightarrow> j' = j * es \<Longrightarrow> lp' = lp * es \<Longrightarrow> hp' = hp * es \<Longrightarrow> round_result es cmp p a l N ys m (Some (Jump atop i' j' lp' hp' xs))"
  unfolding round_result_def by blast

lemma qs_round_ok:
  assumes c: "comparison cmp" and es: "0 < es" and N: "length xs = N * es" and ok: "partition_ok cmp p a l atop i j lp hp (elems es xs)"
  shows "round_result es cmp p a l N (elems es xs) ((j - hp) + (lp - i)) (qs_round es cmp atop (i * es) (j * es) (lp * es) (hp * es) xs)"
proof -
  define ys where "ys = elems es xs"
  have r: "a \<le> i" "i \<le> lp" "lp \<le> hp" "hp \<le> j" "j < l" "l \<le> N" and len: "length ys = N"
    using ok es N by (auto simp: partition_ok_def ys_def)
  have lN: "i < N" "lp < N" "hp < N" "j < N" using r by linarith+
  have lo: "\<And>k. a \<le> k \<Longrightarrow> k < i \<Longrightarrow> sgn (cmp (ys ! k) p) = - 1" and mid: "\<And>k. lp \<le> k \<Longrightarrow> k \<le> hp \<Longrightarrow> sgn (cmp (ys ! k) p) = 0"
    and hi: "\<And>k. j < k \<Longrightarrow> k < l \<Longrightarrow> sgn (cmp (ys ! k) p) = 1" and nt: "\<not> atop \<Longrightarrow> i = lp \<or> sgn (cmp (ys ! i) p) = 1"
    using ok by (auto simp: partition_ok_def ys_def)
  have ci: "sgn (cmp x (ys ! lp)) = sgn (cmp x p)" for x using comparison_class(1) [OF c mid [of lp]] r by simp
  have cj: "sgn (cmp (ys ! hp) x) = - sgn (cmp x p)" for x using comparison_class(2) [OF c mid [of hp]] r by simp
  have qi: "qscmp es cmp (i * es) (lp * es) xs = Some (cmp (ys ! i) (ys ! lp))" unfolding ys_def using es N lN by (intro qscmp_elems) simp_all
  have qj: "qscmp es cmp (hp * es) (j * es) xs = Some (cmp (ys ! hp) (ys ! j))" unfolding ys_def using es N lN by (intro qscmp_elems) simp_all
  have lt: "i * es < lp * es \<longleftrightarrow> i < lp" "hp * es < j * es \<longleftrightarrow> hp < j" "i * es = lp * es \<longleftrightarrow> i = lp" using es by auto
  have m: "k * es - es = (k - 1) * es" "k * es + es = (k + 1) * es" for k by (simp_all add: diff_mult_distrib)
  let ?R = "round_result es cmp p a l N (elems es xs) ((j - hp) + (lp - i))"
  have J: "?R (qs_round es cmp atop (i * es) (j * es) (lp * es) (hp * es) xs)"
    if "qs_round es cmp atop (i * es) (j * es) (lp * es) (hp * es) xs = Some (Jump t' (i' * es) (j' * es) (lp' * es) (hp' * es) zs)" "length zs = N * es"
      "partition_ok cmp p a l t' i' j' lp' hp' (elems es zs)" "perm_in a l ys (elems es zs)" "(j' - hp') + (lp' - i') < (j - hp) + (lp - i)"
    for t' i' j' lp' hp' zs
    using that unfolding round_result_def ys_def by blast
  note exc = qsexc_elems [OF es N, folded ys_def] and texc = qstexc_elems [OF es N, folded ys_def]
  consider (eq) "atop" "i < lp" "cmp (ys ! i) (ys ! lp) = 0" | (less) "atop" "i < lp" "cmp (ys ! i) (ys ! lp) < 0"
    | (right) "i = lp \<or> sgn (cmp (ys ! i) p) = 1" "atop \<and> i < lp \<longrightarrow> cmp (ys ! i) (ys ! lp) > 0"
  proof (cases "atop \<and> i < lp")
    case True then show ?thesis using that ci [of "ys ! i"] by (cases "cmp (ys ! i) (ys ! lp)" "0 :: int" rule: linorder_cases) auto
  next
    case False then show ?thesis using that(3) nt r by auto
  qed
  then show ?thesis
  proof cases
    case eq
    then obtain zs where z: "qsexc es (i * es) ((lp - 1) * es) xs = Some zs" "length zs = N * es" "elems es zs = ys[i := ys ! (lp - 1), lp - 1 := ys ! i]"
      using exc [OF lN(1), of "lp - 1"] lN by (meson less_imp_diff_less)
    have "sgn (cmp (ys ! i) p) = 0" using eq ci [of "ys ! i"] by simp
    then have "partition_ok cmp p a l True i j (lp - 1) hp (elems es zs)"
      unfolding z(3) partition_ok_def using r eq lo mid hi lN by (auto simp: len nth_list_update)
    moreover have "perm_in a l ys (elems es zs)" unfolding z(3) using r eq len by (intro perm_in_swap) auto
    ultimately show ?thesis
          using eq r z(1,2) es by (intro J [of True i j "lp - 1" hp zs]) (simp_all add: qs_round_def qi qj lt m ys_def)
  next
    case less
    then have "sgn (cmp (ys ! i) p) = - 1" using ci [of "ys ! i"] by simp
    then have "partition_ok cmp p a l True (i + 1) j lp hp ys"
      unfolding partition_ok_def using r less lo mid hi lN by (auto simp: len nth_list_update less_Suc_eq)
    then show ?thesis
          using less r N es by (intro J [of True "i + 1" j lp hp xs]) (simp_all add: qs_round_def qi qj lt m ys_def)
  next
    case right
    have top: "(\<not> (atop \<and> i < lp)) \<or> 0 < cmp (ys ! i) (ys ! lp)" using right(2) by blast
    have rr: "qs_round es cmp atop (i * es) (j * es) (lp * es) (hp * es) xs =
      (if hp < j then do {
         c \<leftarrow> Some (cmp (ys ! hp) (ys ! j));
         if c = 0 then do { xs \<leftarrow> qsexc es ((hp + 1) * es) (j * es) xs; Some (Jump False (i * es) (j * es) (lp * es) ((hp + 1) * es) xs) }
         else if c > 0 then
           (if i = lp then do { xs \<leftarrow> qstexc es (i * es) ((hp + 1) * es) (j * es) xs; Some (Jump False ((lp + 1) * es) (j * es) ((lp + 1) * es) ((hp + 1) * es) xs) }
            else do { xs \<leftarrow> qsexc es (i * es) (j * es) xs; Some (Jump True ((i + 1) * es) ((j - 1) * es) (lp * es) (hp * es) xs) })
         else Some (Jump False (i * es) ((j - 1) * es) (lp * es) (hp * es) xs) }
       else if i = lp then Some (Split (lp * es) (hp * es) xs)
       else do { xs \<leftarrow> qstexc es (j * es) ((lp - 1) * es) (i * es) xs; Some (Jump True (i * es) ((hp - 1) * es) ((lp - 1) * es) ((hp - 1) * es) xs) })"
    proof (cases "atop \<and> i < lp")
      case True
      then have c: "cmp (ys ! i) (ys ! lp) > 0" using top by blast
      show ?thesis unfolding qs_round_def lt m qi qj using True c by (simp only: if_True if_False bind.bind_lunit simp_thms) simp
    next
      case False
      show ?thesis unfolding qs_round_def lt m qi qj using False by (simp only: if_True if_False bind.bind_lunit simp_thms) simp
    qed
    show ?thesis
    proof (cases "hp < j")
      case j: True
      then have lN': "hp + 1 < N" using lN by linarith
      consider (e) "cmp (ys ! hp) (ys ! j) = 0" | (x) "cmp (ys ! hp) (ys ! j) > 0" "i = lp" | (s) "cmp (ys ! hp) (ys ! j) > 0" "i < lp" | (g) "cmp (ys ! hp) (ys ! j) < 0"
        using r(2) by linarith
      then show ?thesis
      proof cases
        case e
        then have sj: "sgn (cmp (ys ! j) p) = 0" using cj [of "ys ! j"] by simp
        obtain zs where z: "qsexc es ((hp + 1) * es) (j * es) xs = Some zs" "length zs = N * es" "elems es zs = ys[hp + 1 := ys ! j, j := ys ! (hp + 1)]"
          using exc [OF lN' lN(4)] by blast
        have "partition_ok cmp p a l False i j lp (hp + 1) (elems es zs)"
          unfolding z(3) partition_ok_def using r j lo mid hi sj right(1) lN by (auto simp: len nth_list_update le_Suc_eq)
        moreover have "perm_in a l ys (elems es zs)" unfolding z(3) using r j len by (intro perm_in_swap) auto
        ultimately show ?thesis
          using e j r z(1,2) es by (intro J [of False i j lp "hp + 1" zs]) (unfold rr, simp_all add: ys_def)
      next
        case x
        then have sj: "sgn (cmp (ys ! j) p) = - 1" using cj [of "ys ! j"] by simp
        obtain zs where z: "qstexc es (i * es) ((hp + 1) * es) (j * es) xs = Some zs" "length zs = N * es"
          "elems es zs = ys[j := ys ! (hp + 1), hp + 1 := ys ! i, i := ys ! j]"
          using texc [OF lN(1) lN' lN(4)] r j x by fastforce
        have "partition_ok cmp p a l False (lp + 1) j (lp + 1) (hp + 1) (elems es zs)"
          unfolding z(3) partition_ok_def using r j lo mid hi sj x lN by (auto simp: len nth_list_update less_Suc_eq le_Suc_eq)
        moreover have "perm_in a l ys (elems es zs)" unfolding z(3) using r j len x by (intro perm_in_cycle) auto
        ultimately show ?thesis
          using x j r z(1,2) es by (intro J [of False "lp + 1" j "lp + 1" "hp + 1" zs]) (unfold rr, simp_all add: ys_def)
      next
        case s
        then have sj: "sgn (cmp (ys ! j) p) = - 1" "sgn (cmp (ys ! i) p) = 1" using cj [of "ys ! j"] right(1) by auto
        obtain zs where z: "qsexc es (i * es) (j * es) xs = Some zs" "length zs = N * es" "elems es zs = ys[i := ys ! j, j := ys ! i]"
          using exc [OF lN(1,4)] by blast
        have "partition_ok cmp p a l True (i + 1) (j - 1) lp hp (elems es zs)"
          unfolding z(3) partition_ok_def using r j lo mid hi sj s lN by (auto simp: len nth_list_update less_Suc_eq)
        moreover have "perm_in a l ys (elems es zs)" unfolding z(3) using r j len by (intro perm_in_swap) auto
        ultimately show ?thesis
          using s j r z(1,2) es by (intro J [of True "i + 1" "j - 1" lp hp zs]) (unfold rr, simp_all add: ys_def)
      next
        case g
        then have sj: "sgn (cmp (ys ! j) p) = 1" using cj [of "ys ! j"] by auto
        have hj: "sgn (cmp (ys ! k) p) = 1" if "j - 1 < k" "k < l" for k using sj hi [of k] that by (cases "k = j") auto
        have "partition_ok cmp p a l False i (j - 1) lp hp ys"
          unfolding partition_ok_def using r j lo mid hj right(1) lN by (auto simp: len)
        then show ?thesis
          using g j r N es by (intro J [of False i "j - 1" lp hp xs]) (unfold rr, simp_all add: ys_def)
      qed
    next
      case False
      then have j: "j = hp" using r by simp
      show ?thesis
      proof (cases "i = lp")
        case True
        then have "partition_ok cmp p a l True lp hp lp hp ys" unfolding partition_ok_def using r lo mid hi j lN len by auto
        moreover have "qs_round es cmp atop (i * es) (j * es) (lp * es) (hp * es) xs = Some (Split (lp * es) (hp * es) xs)" unfolding rr using True j by simp
        ultimately show ?thesis using N unfolding round_result_def ys_def by (metis perm_in_refl)
      next
        case i: False
        then have si: "sgn (cmp (ys ! i) p) = 1" "i < lp" using right(1) r by auto
        have hq: "k = hp \<or> hp < k" if "hp - 1 < k" for k using that by linarith
        obtain zs where z: "qstexc es (j * es) ((lp - 1) * es) (i * es) xs = Some zs" "length zs = N * es"
          "elems es zs = ys[i := ys ! (lp - 1), lp - 1 := ys ! j, j := ys ! i]"
          using texc [OF lN(4) _ lN(1), of "lp - 1"] r j si lN by fastforce
        have "partition_ok cmp p a l True i (hp - 1) (lp - 1) (hp - 1) (elems es zs)"
          unfolding z(3) partition_ok_def using r j lo mid hi si lN hq by (auto simp: len nth_list_update)
        moreover have "perm_in a l ys (elems es zs)" unfolding z(3) using r j len si by (intro perm_in_cycle) auto
        ultimately show ?thesis
          using i si j r z(1,2) es by (intro J [of True i "hp - 1" "lp - 1" "hp - 1" zs]) (unfold rr, simp_all add: ys_def)
      qed
    qed
  qed
qed


lemma qs_part_ok:
  assumes "comparison cmp" and "0 < es" and "length xs = N * es" and "partition_ok cmp p a l atop i j lp hp (elems es xs)"
  shows "\<exists>lp' hp' xs'. qs_part es cmp atop (i * es) (j * es) (lp * es) (hp * es) xs = Some (lp' * es, hp' * es, xs') \<and> length xs' = N * es \<and>
    partition_ok cmp p a l True lp' hp' lp' hp' (elems es xs') \<and> perm_in a l (elems es xs) (elems es xs')"
  using assms(3,4)
proof (induction "(j - hp) + (lp - i)" arbitrary: atop i j lp hp xs rule: less_induct)
  case less
  note r = qs_round_ok [OF assms(1,2) less.prems, unfolded round_result_def]
  from r show ?case
  proof (elim disjE exE conjE)
    fix atop' i' j' lp' hp' xs'
    assume q: "qs_round es cmp atop (i * es) (j * es) (lp * es) (hp * es) xs = Some (Jump atop' (i' * es) (j' * es) (lp' * es) (hp' * es) xs')"
      and n: "length xs' = N * es" "partition_ok cmp p a l atop' i' j' lp' hp' (elems es xs')" "perm_in a l (elems es xs) (elems es xs')"
      and m: "j' - hp' + (lp' - i') < j - hp + (lp - i)"
    from less.hyps [OF m n(1,2)] obtain lp2 hp2 xs2 where
      h: "qs_part es cmp atop' (i' * es) (j' * es) (lp' * es) (hp' * es) xs' = Some (lp2 * es, hp2 * es, xs2)" "length xs2 = N * es"
        "partition_ok cmp p a l True lp2 hp2 lp2 hp2 (elems es xs2)" "perm_in a l (elems es xs') (elems es xs2)" by blast
    have "qs_part es cmp atop (i * es) (j * es) (lp * es) (hp * es) xs = Some (lp2 * es, hp2 * es, xs2)"
      by (subst qs_part.simps) (simp add: q h(1))
    then show ?thesis using h perm_in_trans [OF n(3) h(4)] by blast
  next
    fix lp' hp' xs'
    assume q: "qs_round es cmp atop (i * es) (j * es) (lp * es) (hp * es) xs = Some (Split (lp' * es) (hp' * es) xs')"
      and n: "length xs' = N * es" "partition_ok cmp p a l True lp' hp' lp' hp' (elems es xs')" "perm_in a l (elems es xs) (elems es xs')"
    have "qs_part es cmp atop (i * es) (j * es) (lp * es) (hp * es) xs = Some (lp' * es, hp' * es, xs')"
      by (subst qs_part.simps) (simp add: q)
    then show ?thesis using n by blast
  qed
qed

section \<open>Sorting\<close>

definition sorted_in :: "compar \<Rightarrow> nat \<Rightarrow> nat \<Rightarrow> u8 list list \<Rightarrow> bool" where
  "sorted_in cmp a l ys \<longleftrightarrow> (\<forall>i j. a \<le> i \<and> i < j \<and> j < l \<longrightarrow> cmp (ys ! i) (ys ! j) \<le> 0)"

lemma perm_in_set:
  assumes "perm_in a l ys ys'" and "l \<le> length ys" and "a \<le> k" "k < l"
  shows "\<exists>k'. a \<le> k' \<and> k' < l \<and> ys' ! k = ys ! k'"
proof -
  have len: "length ys' = length ys" using perm_in_length [OF assms(1)] .
  have t: "take a ys' = take a ys" using assms len by (intro nth_equalityI) (auto simp: perm_in_def)
  have d: "drop l ys' = drop l ys" using assms len by (intro nth_equalityI) (auto simp: perm_in_def)
  have split: "mset zs = mset (take a zs) + mset (take (l - a) (drop a zs)) + mset (drop l zs)" for zs :: "'a list"
  proof -
    have "drop (l - a) (drop a zs) = drop l zs" using assms(3,4) by simp
    then show ?thesis by (metis append_take_drop_id mset_append add.assoc)
  qed
  have "mset (take (l - a) (drop a ys')) = mset (take (l - a) (drop a ys))"
    using assms(1) split [of ys] split [of ys'] by (simp add: perm_in_def t d)
  then have "set (take (l - a) (drop a ys')) = set (take (l - a) (drop a ys))" by (rule mset_eq_setD)
  moreover have "ys' ! k \<in> set (take (l - a) (drop a ys'))"
    using assms(2-4) len by (auto simp: in_set_conv_nth intro!: exI [of _ "k - a"])
  ultimately obtain n where "n < length (take (l - a) (drop a ys))" "take (l - a) (drop a ys) ! n = ys' ! k" by (metis in_set_conv_nth)
  then show ?thesis using assms(2-4) by (intro exI [of _ "a + n"]) auto
qed

lemma perm_in_mono: "perm_in a l ys ys' \<Longrightarrow> a' \<le> a \<Longrightarrow> l \<le> l' \<Longrightarrow> perm_in a' l' ys ys'"
  by (simp add: perm_in_def)

definition apart :: "nat \<Rightarrow> nat \<Rightarrow> nat \<Rightarrow> nat \<Rightarrow> bool" where
  "apart a l a' l' \<longleftrightarrow> l \<le> a' \<or> l' \<le> a"

lemma sorted_in_keep: "perm_in a l ys zs \<Longrightarrow> apart a l a' l' \<Longrightarrow> sorted_in cmp a' l' ys \<Longrightarrow> sorted_in cmp a' l' zs"
  unfolding sorted_in_def perm_in_def apart_def by (metis le_trans less_imp_le_nat less_trans not_le)

text \<open>Two ranges are permuted one after the other.\<close>

lemma perm_in_both:
  assumes p: "perm_in a l ys zs" "perm_in a' l' zs us" and d: "apart a l a' l'" and len: "l \<le> length ys" "l' \<le> length ys"
  shows "a \<le> k \<Longrightarrow> k < l \<Longrightarrow> \<exists>k'. a \<le> k' \<and> k' < l \<and> us ! k = ys ! k'"
    and "a' \<le> k \<Longrightarrow> k < l' \<Longrightarrow> \<exists>k'. a' \<le> k' \<and> k' < l' \<and> us ! k = ys ! k'"
    and "k < a \<or> l \<le> k \<Longrightarrow> k < a' \<or> l' \<le> k \<Longrightarrow> us ! k = ys ! k"
proof -
  show "\<exists>k'. a \<le> k' \<and> k' < l \<and> us ! k = ys ! k'" if k: "a \<le> k" "k < l"
  proof -
    have "us ! k = zs ! k" using p(2) d k unfolding perm_in_def apart_def by (metis le_trans not_le)
    then show ?thesis using perm_in_set [OF p(1) len(1) k] by simp
  qed
  show "\<exists>k'. a' \<le> k' \<and> k' < l' \<and> us ! k = ys ! k'" if k: "a' \<le> k" "k < l'"
  proof -
    obtain k' where k': "a' \<le> k'" "k' < l'" "us ! k = zs ! k'" using perm_in_set [OF p(2) _ k] perm_in_length [OF p(1)] len(2) by auto
    moreover have "zs ! k' = ys ! k'" using p(1) d k' unfolding perm_in_def apart_def by (metis le_trans not_le)
    ultimately show ?thesis by auto
  qed
  show "k < a \<or> l \<le> k \<Longrightarrow> k < a' \<or> l' \<le> k \<Longrightarrow> us ! k = ys ! k" using p unfolding perm_in_def by metis
qed

text \<open>A split whose two outer parts are sorted is sorted.\<close>

lemma sorted_split:
  assumes c: "comparison cmp" and ok: "partition_ok cmp p a l True lp hp lp hp ys"
    and lo: "\<And>k. a \<le> k \<Longrightarrow> k < lp \<Longrightarrow> \<exists>k'. a \<le> k' \<and> k' < lp \<and> us ! k = ys ! k'"
    and hi: "\<And>k. hp + 1 \<le> k \<Longrightarrow> k < l \<Longrightarrow> \<exists>k'. hp + 1 \<le> k' \<and> k' < l \<and> us ! k = ys ! k'"
    and mid: "\<And>k. lp \<le> k \<Longrightarrow> k \<le> hp \<Longrightarrow> us ! k = ys ! k"
    and s1: "sorted_in cmp a lp us" and s2: "sorted_in cmp (hp + 1) l us"
  shows "sorted_in cmp a l us"
proof -
  have s: "\<And>x y. sgn (cmp y x) = - sgn (cmp x y)" and t: "\<And>x y z. cmp x y \<le> 0 \<Longrightarrow> cmp y z \<le> 0 \<Longrightarrow> cmp x z \<le> 0"
    using c unfolding comparison_def by blast+
  have o: "\<And>k. a \<le> k \<Longrightarrow> k < lp \<Longrightarrow> sgn (cmp (ys ! k) p) = - 1" "\<And>k. lp \<le> k \<Longrightarrow> k \<le> hp \<Longrightarrow> sgn (cmp (ys ! k) p) = 0"
    "\<And>k. hp + 1 \<le> k \<Longrightarrow> k < l \<Longrightarrow> sgn (cmp (ys ! k) p) = 1" using ok by (simp_all add: partition_ok_def)
  have below: "cmp (us ! i) p \<le> 0" if i: "a \<le> i" "i \<le> hp" for i
  proof (cases "i < lp")
    case True
    then obtain k where "a \<le> k" "k < lp" "us ! i = ys ! k" using lo i by blast
    then show ?thesis using o(1) [of k] by (simp add: sgn_if split: if_splits)
  next
    case False
    then show ?thesis using o(2) [of i] mid [of i] i by (simp add: sgn_if split: if_splits)
  qed
  have above: "cmp p (us ! j) \<le> 0" if j: "lp \<le> j" "j < l" for j
  proof (cases "hp < j")
    case True
    then obtain k where "hp + 1 \<le> k" "k < l" "us ! j = ys ! k" using hi [of j] j by auto
    then show ?thesis using o(3) [of k] s [of p "ys ! k"] by (simp add: sgn_if split: if_splits)
  next
    case False
    then show ?thesis using o(2) [of j] mid [of j] s [of p "ys ! j"] j by (simp add: sgn_if split: if_splits)
  qed
  show ?thesis unfolding sorted_in_def
  proof (intro allI impI)
    fix i j assume ij: "a \<le> i \<and> i < j \<and> j < l"
    consider "j < lp" | "hp < i" | "i \<le> hp" "lp \<le> j" by linarith
    then show "cmp (us ! i) (us ! j) \<le> 0"
    proof cases
      case 1 then show ?thesis using s1 ij by (simp add: sorted_in_def)
    next
      case 2 then show ?thesis using s2 ij by (simp add: sorted_in_def)
    next
      case 3 then show ?thesis using t [OF below above] ij by blast
    qed
  qed
qed

lemma qs1_ok:
  assumes c: "comparison cmp" and es: "0 < es" and small: "N * es < 2 ^ 32"
  shows "length xs = N * es \<Longrightarrow> l \<le> N \<Longrightarrow> \<exists>ys. qs1 es cmp xs (a * es) (l * es) = Some ys \<and> length ys = N * es \<and>
    perm_in a l (elems es xs) (elems es ys) \<and> sorted_in cmp a l (elems es ys)"
proof (induction "l - a" arbitrary: a l xs rule: less_induct)
  case less
  have "(l * es - a * es) < 2 ^ 32" using less.prems(2) small by (meson diff_le_self le_less_trans mult_le_mono1)
  then have n: "(l * es - a * es) mod 2 ^ 32 = (l - a) * es" by (simp add: diff_mult_distrib)
  show ?case
  proof (cases "l - a \<le> 1")
    case True
    then have "(l - a) * es \<le> es" by (cases "l - a") auto
    then have "qs1 es cmp xs (a * es) (l * es) = Some xs" by (subst qs1.simps) (simp only: n Let_def if_True)
    moreover have "sorted_in cmp a l (elems es xs)" using True by (auto simp: sorted_in_def)
    ultimately show ?thesis using less.prems by auto
  next
    case False
    define h where "h = a + (l - a) div 2"
    have h: "a \<le> h" "h \<le> l - 1" "a < l" using False by (auto simp: h_def)
    have "sgn (cmp x x) = 0" for x using c unfolding comparison_def by (metis equal_neg_zero)
    then have ok: "partition_ok cmp (elems es xs ! h) a l True a (l - 1) h h (elems es xs)"
      using h less.prems es by (auto simp: partition_ok_def)
    obtain lp hp zs where z: "qs_part es cmp True (a * es) ((l - 1) * es) (h * es) (h * es) xs = Some (lp * es, hp * es, zs)" "length zs = N * es"
      "partition_ok cmp (elems es xs ! h) a l True lp hp lp hp (elems es zs)" "perm_in a l (elems es xs) (elems es zs)"
      using qs_part_ok [OF c es less.prems(1) ok] by blast
    have r: "a \<le> lp" "lp \<le> hp" "hp < l" using z(3) by (auto simp: partition_ok_def)
    have big: "\<not> (l - a) * es \<le> es" using False es by simp
    have "(l - a) * es div (2 * es) = (l - a) div 2" using es by (simp add: mult.commute [of _ es] flip: div_mult2_eq)
    then have m: "l * es - es = (l - 1) * es" "a * es + es * ((l - a) * es div (2 * es)) = h * es" "hp * es + es = (hp + 1) * es"
      by (simp_all add: diff_mult_distrib h_def algebra_simps)
    have q: "qs1 es cmp xs (a * es) (l * es) = (if lp * es - a * es \<ge> l * es - hp * es then do { xs \<leftarrow> qs1 es cmp zs ((hp + 1) * es) (l * es); qs1 es cmp xs (a * es) (lp * es) }
      else do { xs \<leftarrow> qs1 es cmp zs (a * es) (lp * es); qs1 es cmp xs ((hp + 1) * es) (l * es) })"
      by (subst qs1.simps) (simp only: n Let_def big if_False m z(1) bind.bind_lunit case_prod_conv)
    have low: "\<exists>ys. qs1 es cmp us (a * es) (lp * es) = Some ys \<and> length ys = N * es \<and> perm_in a lp (elems es us) (elems es ys) \<and> sorted_in cmp a lp (elems es ys)"
      if "length us = N * es" for us using less.hyps [of lp a us] r that less.prems by auto
    have high: "\<exists>ys. qs1 es cmp us ((hp + 1) * es) (l * es) = Some ys \<and> length ys = N * es \<and> perm_in (hp + 1) l (elems es us) (elems es ys) \<and> sorted_in cmp (hp + 1) l (elems es ys)"
      if "length us = N * es" for us using less.hyps [of l "hp + 1" us] r that less.prems by auto
    have d: "apart a lp (hp + 1) l" "apart (hp + 1) l a lp" using r by (auto simp: apart_def)
    have len: "lp \<le> length (elems es zs)" "l \<le> length (elems es zs)" using r z(2) es less.prems by auto
    show ?thesis
    proof (cases "lp * es - a * es \<ge> l * es - hp * es")
      case True
      obtain us where u: "qs1 es cmp zs ((hp + 1) * es) (l * es) = Some us" "length us = N * es" "perm_in (hp + 1) l (elems es zs) (elems es us)" "sorted_in cmp (hp + 1) l (elems es us)"
        using high [OF z(2)] by blast
      obtain ws where w: "qs1 es cmp us (a * es) (lp * es) = Some ws" "length ws = N * es" "perm_in a lp (elems es us) (elems es ws)" "sorted_in cmp a lp (elems es ws)"
        using low [OF u(2)] by blast
      have "sorted_in cmp a l (elems es ws)"
        using perm_in_both [OF u(3) w(3) d(2) len(2,1)] by (intro sorted_split [OF c z(3) _ _ _ w(4) sorted_in_keep [OF w(3) d(1) u(4)]]) auto
      moreover have "perm_in a l (elems es zs) (elems es ws)"
        using perm_in_trans [OF perm_in_mono [OF u(3)] perm_in_mono [OF w(3)]] r by simp
      ultimately show ?thesis using q True u(1) w(1,2) perm_in_trans [OF z(4)] by auto
    next
      case False
      obtain us where u: "qs1 es cmp zs (a * es) (lp * es) = Some us" "length us = N * es" "perm_in a lp (elems es zs) (elems es us)" "sorted_in cmp a lp (elems es us)"
        using low [OF z(2)] by blast
      obtain ws where w: "qs1 es cmp us ((hp + 1) * es) (l * es) = Some ws" "length ws = N * es" "perm_in (hp + 1) l (elems es us) (elems es ws)" "sorted_in cmp (hp + 1) l (elems es ws)"
        using high [OF u(2)] by blast
      have "sorted_in cmp a l (elems es ws)"
        using perm_in_both [OF u(3) w(3) d(1) len] by (intro sorted_split [OF c z(3) _ _ _ sorted_in_keep [OF w(3) d(2) u(4)] w(4)]) auto
      moreover have "perm_in a l (elems es zs) (elems es ws)"
        using perm_in_trans [OF perm_in_mono [OF u(3)] perm_in_mono [OF w(3)]] r by simp
      ultimately show ?thesis using q False u(1) w(1,2) perm_in_trans [OF z(4)] by auto
    qed
  qed
qed

text \<open>C22: With a comparison that is a total preorder, \<^verbatim>\<open>qsort\<close> of an array of less than 4 GiB returns and leaves the same
  elements in ascending order.\<close>

theorem qsort_sorts:
  assumes "comparison cmp" and "0 < es" and "length xs = nmemb * es" and "nmemb * es < 2 ^ 32"
  shows "\<exists>ys. qsort nmemb es cmp xs = Some ys \<and> length ys = length xs \<and> mset (elems es ys) = mset (elems es xs) \<and>
    sorted_wrt (\<lambda>x y. cmp x y \<le> 0) (elems es ys)"
proof -
  obtain ys where "qs1 es cmp xs 0 (nmemb * es) = Some ys" "length ys = nmemb * es"
    "perm_in 0 nmemb (elems es xs) (elems es ys)" "sorted_in cmp 0 nmemb (elems es ys)"
    using qs1_ok [OF assms(1,2,4,3) order_refl, of 0] by auto
  then show ?thesis using assms by (auto simp: qsort_def perm_in_def sorted_in_def sorted_wrt_iff_nth_less)
qed

definition cmp_first :: compar where
  "cmp_first x y = int (unat (hd x)) - int (unat (hd y))"

theorem qsort_sorts_witness:
  "\<exists>ys. qsort 3 2 cmp_first [7, 1, 3, 2, 5, 3] = Some ys \<and> length ys = length [7 :: u8, 1, 3, 2, 5, 3] \<and>
    mset (elems 2 ys) = mset (elems 2 [7, 1, 3, 2, 5, 3]) \<and> sorted_wrt (\<lambda>x y. cmp_first x y \<le> 0) (elems 2 ys)"
proof (rule qsort_sorts)
  show "comparison cmp_first" by (auto simp: comparison_def cmp_first_def sgn_if)
qed simp_all

end
