(* ===== verification/Ufs.thy ===== *)
theory Ufs
  imports File
begin

text \<open>
  The file system of the programs, \<^verbatim>\<open>user/lib/sys/cfs.c\<close> with \<^verbatim>\<open>file.c\<close> and \<^verbatim>\<open>path.c\<close>: it reads and writes the sectors
  of the disk by system calls and keeps the allocation table and the directories itself.

  A C string is the list of its bytes without the final zero.  A buffer from \<^verbatim>\<open>malloc\<close> that the function frees again is
  a value, and so is the \<^verbatim>\<open>FILE\<close> that an open file is (\<open>UFILE\<close>, without the fields nothing here uses): nobody else holds
  a pointer to it.  \<open>u_blocks\<close> are the entries of the rows \<^verbatim>\<open>fp->blocks[0], fp->blocks[1], \<dots>\<close> in order.  What \<^verbatim>\<open>malloc\<close>
  leaves in the buffer of a new file is the argument \<open>mem0\<close>.  The state is the disk, the global \<^verbatim>\<open>_BLK_\<close>, the standard
  output and the directory the program works in.  A transfer that touches a broken sector fails and moves nothing.
  \<^verbatim>\<open>filename_cmp\<close> is the function of the same name of the kernel's reader, which has the same text.  An access
  outside a buffer, a division by zero and a loop that does not end have no result.
\<close>

section \<open>State\<close>

record UFILE =
  u_level :: u16
  u_flags :: u32
  u_bsize :: u32
  u_buffer :: "u8 list"
  u_mode :: u8
  u_off :: u32
  u_off2 :: u32
  u_fname :: "u8 list"
  u_fsize :: u32
  u_byte_per_sector :: u32
  u_count :: u32
  u_num_of_blocks :: u32
  u_dir_cluster :: u32
  u_dir_entry :: u32
  u_dv_num :: u32
  u_blocks :: "u32 list"

definition UFILE_zero :: UFILE where
  "UFILE_zero = \<lparr>u_level = 0, u_flags = 0, u_bsize = 0, u_buffer = [], u_mode = 0, u_off = 0, u_off2 = 0, u_fname = replicate 256 0,
     u_fsize = 0, u_byte_per_sector = 0, u_count = 0, u_num_of_blocks = 0, u_dir_cluster = 0, u_dir_entry = 0, u_dv_num = 0, u_blocks = []\<rparr>"

record user_state =
  sects :: "nat \<Rightarrow> u8 list"
  broken :: "nat \<Rightarrow> bool"
  blk_tab :: "u8 list"
  u_stdout :: UFILE
  term_fg_color :: u32
  term_bg_color :: u32
  u_pwd :: "u8 list"

section \<open>The disk\<close>

definition any_broken :: "u32 \<Rightarrow> u64 \<Rightarrow> user_state \<Rightarrow> bool" where
  "any_broken count addr s \<longleftrightarrow> list_ex (broken s) [unat addr..<unat addr + unat count]"

definition read_sector_u :: "u32 \<Rightarrow> u64 \<Rightarrow> u8 list \<Rightarrow> user_state \<Rightarrow> (int \<times> u8 list) option" where
  "read_sector_u count addr buffer s =
     (if unat count * 512 > length buffer then None
      else if any_broken count addr s then Some (- 1, buffer)
      else Some (0, concat (map (sects s) [unat addr..<unat addr + unat count]) @ drop (unat count * 512) buffer))"

definition write_sector_u :: "u32 \<Rightarrow> u64 \<Rightarrow> u8 list \<Rightarrow> user_state \<Rightarrow> (int \<times> user_state) option" where
  "write_sector_u count addr buffer s =
     (if unat count * 512 > length buffer then None
      else if any_broken count addr s then Some (- 1, s)
      else Some (0, s\<lparr>sects := \<lambda>k. if unat addr \<le> k \<and> k < unat addr + unat count
                                  then take 512 (drop ((k - unat addr) * 512) buffer) else sects s k\<rparr>))"

record super_block =
  sb_sig :: "u8 list"
  sb_name :: "u8 list"
  sb_hidden :: u32
  sb_rsv :: u32
  sb_byte_per_sector :: u32
  sb_sector_per_blk :: u32
  sb_num_of_blk :: u32
  sb_size_of_fat :: u32
  sb_root_blk :: u32
  sb_num_of_sectors :: u32

definition super_block_of :: "u8 list \<Rightarrow> super_block" where
  "super_block_of b = (let w = \<lambda>i. get32 (\<lambda>i. b ! i) i in
     \<lparr>sb_sig = take 8 b, sb_name = take 12 (drop 8 b), sb_hidden = w 20, sb_rsv = w 24, sb_byte_per_sector = w 28, sb_sector_per_blk = w 32,
      sb_num_of_blk = w 36, sb_size_of_fat = w 40, sb_root_blk = w 44, sb_num_of_sectors = w 48\<rparr>)"

record directory_entry =
  de_file_name :: "u8 list"
  de_rsv :: u8
  de_busy :: u8
  de_attr :: u8
  de_time :: u16
  de_time2 :: u16
  de_date :: u16
  de_date2 :: u16
  de_first_blk :: u32
  de_file_size :: u32
  de_dir_entry :: u32
  de_rsv2 :: "u8 list"

definition dirent_of :: "u8 list \<Rightarrow> directory_entry" where
  "dirent_of b = (let h = \<lambda>i. get16 (\<lambda>i. b ! i) i; w = \<lambda>i. get32 (\<lambda>i. b ! i) i in
     \<lparr>de_file_name = take 96 b, de_rsv = b ! 96, de_busy = b ! 97, de_attr = b ! 98, de_time = h 99, de_time2 = h 101, de_date = h 103,
      de_date2 = h 105, de_first_blk = w 107, de_file_size = w 111, de_dir_entry = w 115, de_rsv2 = take 9 (drop 119 b)\<rparr>)"

definition dirent_bytes :: "directory_entry \<Rightarrow> u8 list" where
  "dirent_bytes d = de_file_name d @ [de_rsv d, de_busy d, de_attr d] @ le16 (de_time d) @ le16 (de_time2 d) @ le16 (de_date d) @ le16 (de_date2 d) @
     le32 (de_first_blk d) @ le32 (de_file_size d) @ le32 (de_dir_entry d) @ de_rsv2 d"

text \<open>Bytes stored into a buffer, and entry \<open>i\<close> of the block of a directory.\<close>

definition patch :: "nat \<Rightarrow> u8 list \<Rightarrow> u8 list \<Rightarrow> u8 list option" where
  "patch i bs b = (if i + length bs \<le> length b then Some (take i b @ bs @ drop (i + length bs) b) else None)"

definition dirent :: "nat \<Rightarrow> u8 list \<Rightarrow> directory_entry" where
  "dirent i root = dirent_of (take 128 (drop (i * 128) root))"

definition data_sector :: "super_block \<Rightarrow> u32" where
  "data_sector f = sb_rsv f + sb_hidden f"

definition first_sector :: "super_block \<Rightarrow> u32 \<Rightarrow> u64" where
  "first_sector f blk = ucast (blk * sb_sector_per_blk f + data_sector f)"

section \<open>Names\<close>

text \<open>\<^verbatim>\<open>assert_fn\<close> works on the 96 bytes of a name, from the end.\<close>

fun assert_fn_loop :: "nat \<Rightarrow> u8 list \<Rightarrow> u8 list" where
  "assert_fn_loop 0 fn = fn"
| "assert_fn_loop (Suc i) fn = (if fn ! i = 32 then assert_fn_loop i (fn[i := 0]) else fn)"

definition assert_fn :: "u8 list \<Rightarrow> u8 list" where
  "assert_fn fn = assert_fn_loop 96 fn"

fun get_file_name_loop :: "u8 list \<Rightarrow> u8 list \<Rightarrow> u8 list" where
  "get_file_name_loop [] r = r"
| "get_file_name_loop (c # s) r = get_file_name_loop s (if c = 47 then s else r)"

definition get_file_name :: "u8 list \<Rightarrow> u8 list" where
  "get_file_name path = get_file_name_loop path path"

definition c_string_u :: "u8 list \<Rightarrow> u8 list" where
  "c_string_u b = takeWhile (\<lambda>c. c \<noteq> 0) b"

section \<open>The allocation table\<close>

definition blk_get :: "u8 list \<Rightarrow> nat \<Rightarrow> u32" where
  "blk_get b k = get32 (\<lambda>i. b ! i) (4 * k)"

definition blk_put :: "nat \<Rightarrow> u32 \<Rightarrow> u8 list \<Rightarrow> u8 list" where
  "blk_put k v b = take (4 * k) b @ le32 v @ drop (4 * k + 4) b"

function search_blk_loop :: "nat \<Rightarrow> u32 \<Rightarrow> nat \<Rightarrow> user_state \<Rightarrow> (u32 \<times> user_state) option" where
  "search_blk_loop n start i s =
     (if i < n then
        if blk_get (blk_tab s) (i mod 512) = 0 then do {
          let s = s\<lparr>blk_tab := blk_put (i mod 512) (- 1) (blk_tab s)\<rparr>;
          (r, s) \<leftarrow> write_sector_u 4 (ucast start) (blk_tab s) s;
          Some (if r \<noteq> 0 then - 1 else of_nat i, s) }
        else if i mod 512 = 511 then do {
          let start = start + 4;
          (r, b) \<leftarrow> read_sector_u 4 (ucast start) (blk_tab s) s;
          let s = s\<lparr>blk_tab := b\<rparr>;
          if r \<noteq> 0 then Some (- 1, s) else search_blk_loop n start (i + 1) s }
        else search_blk_loop n start (i + 1) s
      else Some (- 1, s))"
  by pat_completeness auto
termination by (relation "measure (\<lambda>(n, start, i, s). n - i)") auto

declare search_blk_loop.simps [simp del]

definition search_blk_null :: "super_block \<Rightarrow> user_state \<Rightarrow> (u32 \<times> user_state) option" where
  "search_blk_null f s =
     do {
       let start = data_sector f;
       (r, b) \<leftarrow> read_sector_u 4 (ucast start) (blk_tab s) s;
       let s = s\<lparr>blk_tab := b\<rparr>;
       if r \<noteq> 0 then Some (- 1, s) else search_blk_loop (unat (sb_num_of_blk f)) start 0 s }"

fun clean_blk_loop :: "nat \<Rightarrow> u32 \<Rightarrow> user_state \<Rightarrow> user_state option" where
  "clean_blk_loop 0 sector s = Some s"
| "clean_blk_loop (Suc n) sector s = do { (r, s) \<leftarrow> write_sector_u 1 (ucast sector) (blk_tab s) s; if r \<noteq> 0 then Some s else clean_blk_loop n (sector + 1) s }"

definition clean_blk_enter :: "u32 \<Rightarrow> super_block \<Rightarrow> user_state \<Rightarrow> user_state option" where
  "clean_blk_enter blk f s =
     (let s = s\<lparr>blk_tab := replicate 2048 0\<rparr> in clean_blk_loop (unat (sb_sector_per_blk f)) (blk * sb_sector_per_blk f + data_sector f) s)"

text \<open>\<^verbatim>\<open>BLK\<close> is the sector of the table that was read last, \<open>flg\<close> its number; before the first read there is none.\<close>

definition fat_sector :: "super_block \<Rightarrow> u32 \<Rightarrow> u32 option" where
  "fat_sector f index = (if sb_byte_per_sector f = 0 then None else Some ((index * 4) div sb_byte_per_sector f + data_sector f))"

definition fat_slot :: "super_block \<Rightarrow> u32 \<Rightarrow> nat option" where
  "fat_slot f index = (let n = sb_byte_per_sector f div 4 in if n = 0 then None
     else if unat (index mod n) < 128 then Some (unat (index mod n)) else None)"

text \<open>The loop writes the sector it leaves, reads the next one, follows the entry and clears it.\<close>

partial_function (option) remove_blk_loop :: "super_block \<Rightarrow> u32 \<Rightarrow> u32 \<Rightarrow> u32 \<Rightarrow> bool \<Rightarrow> u8 list \<Rightarrow> user_state \<Rightarrow> (int \<times> user_state) option" where
  "remove_blk_loop f index flg_start wstart w BLK s =
     do {
       start \<leftarrow> fat_sector f index;
       x \<leftarrow> (if start \<noteq> flg_start then do {
              (r, s) \<leftarrow> (if w then write_sector_u 1 (ucast wstart) BLK s else Some (0, s));
              if r \<noteq> 0 then Some (Inl s)
              else do { (r, BLK) \<leftarrow> read_sector_u 1 (ucast start) BLK s; if r \<noteq> 0 then Some (Inl s) else Some (Inr (BLK, start, s)) } }
            else Some (Inr (BLK, wstart, s)));
       case x of Inl s \<Rightarrow> Some (- 1, s)
       | Inr (BLK, wstart, s) \<Rightarrow> do {
           k \<leftarrow> fat_slot f index;
           let index = blk_get BLK k;
           let BLK = blk_put k 0 BLK;
           if index = - 1 then do { (r, s) \<leftarrow> write_sector_u 1 (ucast wstart) BLK s; Some (r, s) }
           else remove_blk_loop f index start wstart (w \<or> start \<noteq> flg_start) BLK s } }"

definition remove_blk :: "u32 \<Rightarrow> super_block \<Rightarrow> u8 list \<Rightarrow> user_state \<Rightarrow> (int \<times> user_state) option" where
  "remove_blk first_blk f mem0 s = do { start \<leftarrow> fat_sector f first_blk; remove_blk_loop f first_blk (- 1) start False mem0 s }"

section \<open>Directories\<close>

definition read_super_block_u :: "part \<Rightarrow> user_state \<Rightarrow> (int \<times> super_block) option" where
  "read_super_block_u p s = do { (r, b) \<leftarrow> read_sector_u 1 (ucast (p_start p)) (replicate 1024 0) s; Some (r, super_block_of b) }"

definition path_count :: "u8 list \<Rightarrow> nat" where
  "path_count path = length (filter (\<lambda>c. c = 47) path)"

text \<open>The search of the 64 entries from \<open>i\<close> on; \<open>only\<close> are the entries it compares.  The result is the last comparison
  and the index.\<close>

function find_dirent :: "(directory_entry \<Rightarrow> bool) \<Rightarrow> u8 list \<Rightarrow> u8 list \<Rightarrow> nat \<Rightarrow> int \<Rightarrow> int \<times> nat" where
  "find_dirent only root filename i r =
     (if i < 64 then
        let d = dirent i root;
            r = (if only d then filename_cmp (de_file_name d) filename else - 1)
        in if r = 0 then (r, i) else find_dirent only root filename (i + 1) r
      else (r, i))"
  by pat_completeness auto
termination by (relation "measure (\<lambda>(only, root, filename, i, r). 64 - i)") auto

declare find_dirent.simps [simp del]

definition read_root :: "super_block \<Rightarrow> u32 \<Rightarrow> u8 list \<Rightarrow> user_state \<Rightarrow> (int \<times> u8 list) option" where
  "read_root f blk root s = read_sector_u (sb_sector_per_blk f) (first_sector f blk) root s"

text \<open>\<open>r\<close> is the block of the directory reached so far.  The part of the path before a slash names the next one.\<close>

fun read_directory_loop :: "nat \<Rightarrow> super_block \<Rightarrow> u8 list \<Rightarrow> u8 list \<Rightarrow> u32 \<Rightarrow> user_state \<Rightarrow> u32 option" where
  "read_directory_loop 0 f tpath root r s = Some r"
| "read_directory_loop (Suc count) f tpath root r s =
     do {
       let filename = takeWhile (\<lambda>c. c \<noteq> 47) tpath;
       let tpath = drop (length filename + 1) tpath;
       (e, root) \<leftarrow> read_root f r root s;
       if e \<noteq> 0 then Some 0
       else let (e, i) = find_dirent (\<lambda>d. de_busy d \<noteq> 0 \<and> de_attr d AND 0x40 \<noteq> 0) root filename 0 e
            in if e = 0 \<and> i < 64 then read_directory_loop count f tpath root (de_first_blk (dirent i root)) s else Some 0 }"

definition read_directory_blk :: "u8 list \<Rightarrow> super_block \<Rightarrow> u8 list \<Rightarrow> user_state \<Rightarrow> u32 option" where
  "read_directory_blk path f mem0 s = read_directory_loop (path_count path) f path mem0 (sb_root_blk f) s"

definition read_directory_entry_u :: "super_block \<Rightarrow> u8 list \<Rightarrow> user_state \<Rightarrow> (int \<times> directory_entry option) option" where
  "read_directory_entry_u f filename s =
     do {
       (r, root) \<leftarrow> read_root f (sb_root_blk f) (replicate 8192 0) s;
       if r \<noteq> 0 then Some (- 1, None)
       else let (r, i) = find_dirent (\<lambda>d. de_busy d \<noteq> 0) root filename 0 r
            in Some (if r = 0 \<and> i < 64 then (r, Some (dirent i root)) else (- 1, None)) }"

text \<open>Zeros among the 96 bytes of a name become spaces.\<close>

definition pad_zeros :: "u8 list \<Rightarrow> u8 list" where
  "pad_zeros b = map (\<lambda>c. if c = 0 then 32 else c) (take 96 b) @ drop 96 b"

definition update_directory_entry :: "super_block \<Rightarrow> UFILE \<Rightarrow> user_state \<Rightarrow> (int \<times> user_state) option" where
  "update_directory_entry f fp s =
     (if u_dir_entry fp < 1 then Some (- 1, s)
      else if u_dir_entry fp > 64 then Some (- 1, s)
      else do {
        (r, root) \<leftarrow> read_root f (u_dir_cluster fp) (replicate 8192 0) s;
        if r \<noteq> 0 then Some (r, s)
        else do {
          let o1 = unat (u_dir_entry fp) * 128;
          root \<leftarrow> patch o1 (replicate 96 0) root;
          root \<leftarrow> patch o1 (get_file_name (c_string_u (u_fname fp)) @ [0]) root;
          root \<leftarrow> patch o1 (take 96 (pad_zeros (take 128 (drop o1 root)))) root;
          root \<leftarrow> patch (o1 + 96) [0] root;
          root \<leftarrow> patch (o1 + 111) (le32 (u_fsize fp)) root;
          (r, s) \<leftarrow> write_sector_u (sb_sector_per_blk f) (first_sector f (u_dir_cluster fp)) root s;
          Some (r, s) } })"

text \<open>The search of a free entry; \<open>64\<close> when there is none.\<close>

function free_dirent :: "u8 list \<Rightarrow> nat \<Rightarrow> nat" where
  "free_dirent root i = (if i < 64 then if de_busy (dirent i root) = 0 then i else free_dirent root (i + 1) else i)"
  by pat_completeness auto
termination by (relation "measure (\<lambda>(root, i). 64 - i)") auto

declare free_dirent.simps [simp del]

definition create_file :: "super_block \<Rightarrow> u8 list \<Rightarrow> u8 \<Rightarrow> user_state \<Rightarrow> (int \<times> user_state) option" where
  "create_file f path attr s =
     do {
       d \<leftarrow> patch 0 (get_file_name path @ [0]) (replicate 128 0);
       let d = pad_zeros d;
       (r, root) \<leftarrow> read_root f (sb_root_blk f) (replicate 8192 0) s;
       if r \<noteq> 0 then Some (r, s)
       else do {
         let i = free_dirent root 0;
         if i < 64 then do {
           let dir = (dirent_of d)\<lparr>de_dir_entry := of_nat i, de_busy := - 1, de_attr := attr\<rparr>;
           (b, s) \<leftarrow> search_blk_null f s;
           let dir = dir\<lparr>de_first_blk := b\<rparr>;
           if b = - 1 then Some (1, s)
           else do {
             s \<leftarrow> (if attr AND 0x40 \<noteq> 0 then clean_blk_enter b f s else Some s);
             root \<leftarrow> patch (i * 128) (dirent_bytes dir) root;
             (r, s) \<leftarrow> write_sector_u (sb_sector_per_blk f) (first_sector f (sb_root_blk f)) root s;
             Some (0, s) } }
         else Some (- 1, s) } }"

section \<open>Paths\<close>

text \<open>\<^verbatim>\<open>getpathname\<close> cuts a final slash off the name it is given, and returns the name with the path.  The path goes to
  an area of 4096 bytes, the name of the file to one of 256.\<close>

definition getpathname :: "u8 list \<Rightarrow> u8 list \<Rightarrow> (u8 list \<times> u8 list) option" where
  "getpathname pwd src =
     (if src = [] then None
      else let usrc = (if last src = 47 then butlast src else src);
               dst = (if length usrc > 1 \<and> usrc ! 1 = 58 then usrc
                      else if usrc \<noteq> [] \<and> hd usrc = 47 then pwd @ usrc else pwd @ [47] @ usrc)
           in if length dst < 0x1000 then Some (dst, usrc) else None)"

text \<open>The part behind the last slash, and the path up to it.\<close>

definition getfilename :: "u8 list \<Rightarrow> (u8 list \<times> u8 list) option" where
  "getfilename path =
     (let name = rev (takeWhile (\<lambda>c. c \<noteq> 47) (rev path))
      in if length name < 256 then Some (name, take (length path - length name) path) else None)"

text \<open>The path behind the drive, three bytes on in the buffer that \<^verbatim>\<open>getfilename\<close> has cut: when the cut comes before them,
  what is there is the rest of the whole path.\<close>

definition after_drive :: "u8 list \<Rightarrow> u8 list \<Rightarrow> u8 list option" where
  "after_drive path tpath = (if 3 \<le> length tpath then Some (drop 3 tpath) else if 3 \<le> length path then Some (drop 3 path) else None)"

lemma after_drive_dir [simp]: "3 \<le> length tpath \<Longrightarrow> after_drive path tpath = Some (drop 3 tpath)"
  by (simp add: after_drive_def)

text \<open>The directory of a program has an area of 4096 bytes too.\<close>

definition setpath :: "u8 list \<Rightarrow> u8 list \<Rightarrow> (int \<times> u8 list) option" where
  "setpath name pwd =
     (if length pwd + length name > 0x1000 then Some (- 1, pwd)
      else if pwd = [] then None
      else let dst = (if name \<noteq> [] \<and> hd name = 47 then tl name else name);
               p = (if last pwd = 47 then pwd else pwd @ [47]) @ dst
           in if length p < 0x1000 then Some (0, if last p = 47 then butlast p else p) else None)"

definition upath :: "u8 list \<Rightarrow> (int \<times> u8 list) option" where
  "upath pwd =
     (if length pwd < 3 then Some (0, pwd)
      else if 47 \<notin> set pwd then None
      else let p = take (length pwd - length (takeWhile (\<lambda>c. c \<noteq> 47) (rev pwd))) pwd
           in Some (0, if length p > 2 then butlast p else p))"

section \<open>Opening, removing and closing\<close>

text \<open>The blocks of a file: at most 1024 rows of 1024.  The result is \<open>None\<close> inside when the disk fails.\<close>

function fat_chain :: "super_block \<Rightarrow> nat \<Rightarrow> u32 \<Rightarrow> u32 \<Rightarrow> u8 list \<Rightarrow> u32 list \<Rightarrow> user_state \<Rightarrow> u32 list option option" where
  "fat_chain f n index flg_start BLK blocks s =
     (if n < 1024 * 1024 then do {
        let blocks = blocks @ [index * sb_sector_per_blk f + data_sector f];
        start \<leftarrow> fat_sector f index;
        (r, BLK) \<leftarrow> (if flg_start \<noteq> start then read_sector_u 1 (ucast start) BLK s else Some (0, BLK));
        if r \<noteq> 0 then Some None
        else do {
          k \<leftarrow> fat_slot f index;
          let index = blk_get BLK k;
          if index = - 1 then Some (Some blocks) else fat_chain f (n + 1) index start BLK blocks s } }
      else Some (Some blocks))"
  by pat_completeness auto
termination by (relation "measure (\<lambda>(f, n, index, flg, b, blocks, s). 1024 * 1024 - n)") auto

declare fat_chain.simps [simp del]

definition open_file_r_u :: "u8 list \<Rightarrow> u8 list \<Rightarrow> directory_entry \<Rightarrow> super_block \<Rightarrow> part \<Rightarrow> user_state \<Rightarrow> UFILE option option" where
  "open_file_r_u mem0 mem1 d f p s =
     do {
       let fp = UFILE_zero\<lparr>u_bsize := sb_byte_per_sector f * sb_sector_per_blk f, u_buffer := mem0, u_fsize := de_file_size d,
                  u_byte_per_sector := sb_byte_per_sector f, u_count := sb_sector_per_blk f, u_dv_num := p_dv_num p\<rparr>;
       bl \<leftarrow> fat_chain f 0 (de_first_blk d) (- 1) mem1 [] s;
       Some (map_option (\<lambda>blocks. fp\<lparr>u_blocks := blocks, u_num_of_blocks := of_nat (length blocks)\<rparr>) bl) }"

definition mode_at :: "nat \<Rightarrow> u8 list \<Rightarrow> u8" where
  "mode_at i mode = (if i < length mode then mode ! i else 0)"

definition open_file_u :: "u8 list \<Rightarrow> u8 list \<Rightarrow> u8 list \<Rightarrow> u8 list \<Rightarrow> user_state \<Rightarrow> (UFILE option \<times> user_state) option" where
  "open_file_u mem0 mem1 filename mode s =
     do {
       (path, filename) \<leftarrow> getpathname (u_pwd s) filename;
       (name, tpath) \<leftarrow> getfilename path;
       let p = \<lparr>p_dv_num = 0, p_start = 1\<rparr>;
       let flg = (mode_at 0 mode = 119 \<or> mode_at 0 mode = 97);
       (r, f) \<leftarrow> read_super_block_u p s;
       if r \<noteq> 0 then Some (None, s)
       else do {
         dir \<leftarrow> after_drive path tpath;
         blk \<leftarrow> read_directory_blk dir f mem1 s;
         if blk = 0 then Some (None, s)
         else do {
           let f = f\<lparr>sb_root_blk := blk\<rparr>;
           (r, d) \<leftarrow> read_directory_entry_u f name s;
           (d, s) \<leftarrow> (if r = - 1 \<and> flg then do {
                         (_, s) \<leftarrow> create_file f filename 0x20 s;
                         (r, d) \<leftarrow> read_directory_entry_u f filename s;
                         Some (d, s) }
                       else Some (d, s));
           case d of None \<Rightarrow> Some (None, s)
           | Some d \<Rightarrow> do {
               fp \<leftarrow> open_file_r_u mem0 mem1 d f p s;
               Some (map_option (\<lambda>fp.
                 let fp = fp\<lparr>u_fname := assert_fn (de_file_name d @ drop 96 (u_fname fp)), u_mode := if mode_at 0 mode = 119 \<or> mode_at 1 mode = 43 \<or> mode_at 0 mode = 97 then 2 else 1,
                              u_flags := 6, u_dir_cluster := sb_root_blk f, u_dir_entry := de_dir_entry d\<rparr>
                 in if mode_at 0 mode = 97 then fp\<lparr>u_off := de_file_size d\<rparr> else fp) fp, s) } } } }"

definition remove_file :: "u8 list \<Rightarrow> u8 list \<Rightarrow> user_state \<Rightarrow> (int \<times> user_state) option" where
  "remove_file mem1 path s =
     do {
       (path, _) \<leftarrow> getpathname (u_pwd s) path;
       (filename, tpath) \<leftarrow> getfilename path;
       let p = \<lparr>p_dv_num = 0, p_start = 1\<rparr>;
       (r, f) \<leftarrow> read_super_block_u p s;
       if r \<noteq> 0 then Some (0, s)
       else do {
         dir \<leftarrow> after_drive path tpath;
         blk \<leftarrow> read_directory_blk dir f mem1 s;
         if blk = 0 then Some (- 1, s)
         else do {
           let f = f\<lparr>sb_root_blk := blk\<rparr>;
           (r, root) \<leftarrow> read_root f (sb_root_blk f) (replicate 8192 0) s;
           if r \<noteq> 0 then Some (r, s)
           else let (r, i) = find_dirent (\<lambda>d. de_busy d \<noteq> 0) root filename 0 r
                in if r \<noteq> 0 then Some (r, s)
                   else do {
                     root \<leftarrow> patch (i * 128 + 97) [0] root;
                     (r, s) \<leftarrow> write_sector_u (sb_sector_per_blk f) (first_sector f (sb_root_blk f)) root s;
                     if r \<noteq> 0 then Some (r, s) else remove_blk (de_first_blk (dirent i root)) f mem1 s } } } }"

definition open_dir :: "u8 list \<Rightarrow> u8 list \<Rightarrow> nat \<Rightarrow> user_state \<Rightarrow> (int \<times> u8 list list) option" where
  "open_dir mem1 pathname count s =
     do {
       (path, _) \<leftarrow> getpathname (u_pwd s) pathname;
       (_, tpath) \<leftarrow> getfilename path;
       let p = \<lparr>p_dv_num = 0, p_start = 1\<rparr>;
       (r, f) \<leftarrow> read_super_block_u p s;
       if r \<noteq> 0 then Some (- 1, [])
       else do {
         dir \<leftarrow> after_drive path tpath;
         blk \<leftarrow> read_directory_blk dir f mem1 s;
         if blk = 0 then Some (- 1, [])
         else do {
           let f = f\<lparr>sb_root_blk := blk\<rparr>;
           (_, root) \<leftarrow> read_root f (sb_root_blk f) (replicate 8192 0) s;
           let es = map (\<lambda>i. assert_fn (take 128 (drop (i * 128) root))) (filter (\<lambda>i. de_busy (dirent i root) \<noteq> 0) [0..<min 64 count]);
           Some (int (length es), es) } } }"

definition file_update :: "UFILE \<Rightarrow> user_state \<Rightarrow> (int \<times> user_state) option" where
  "file_update fp s =
     do {
       (r, f) \<leftarrow> read_super_block_u \<lparr>p_dv_num = 0, p_start = 1\<rparr> s;
       if r \<noteq> 0 then Some (- 1, s) else update_directory_entry f fp s }"

text \<open>\<^verbatim>\<open>addr\<close> is an \<^verbatim>\<open>int\<close> compared with an \<^verbatim>\<open>unsigned\<close>.\<close>

definition file_read_block_u :: "u32 \<Rightarrow> UFILE \<Rightarrow> user_state \<Rightarrow> (int \<times> UFILE) option" where
  "file_read_block_u addr fp s =
     (if addr \<ge> u_num_of_blocks fp then Some (- 1, fp)
      else if unat addr < length (u_blocks fp)
      then do { (r, b) \<leftarrow> read_sector_u (u_count fp) (ucast (u_blocks fp ! unat addr)) (u_buffer fp) s; Some (r, fp\<lparr>u_buffer := b\<rparr>) }
      else None)"

definition file_write_block :: "u32 \<Rightarrow> UFILE \<Rightarrow> user_state \<Rightarrow> (int \<times> user_state) option" where
  "file_write_block addr fp s =
     (if addr \<ge> u_num_of_blocks fp then Some (- 1, s)
      else if unat addr < length (u_blocks fp)
      then write_sector_u (u_count fp) (ucast (u_blocks fp ! unat addr)) (u_buffer fp) s
      else None)"

end
