(* ===== verification/Ustdio.thy ===== *)
theory Ustdio
  imports Ufs
begin

text \<open>
  The streams of the programs, \<^verbatim>\<open>user/lib/sys/file.c\<close> and \<^verbatim>\<open>pipe.c\<close>, on the files of \<^verbatim>\<open>Ufs\<close>.  \<open>None\<close> as a file is the null
  pointer.  A standard stream or a pipe is a \<^verbatim>\<open>FILE\<close> the kernel shares with the program; what the kernel does to it while
  a reader waits is the parameter \<open>env\<close>.
\<close>

type_synonym user_env = "nat \<Rightarrow> UFILE \<Rightarrow> UFILE"

section \<open>Standard streams\<close>

definition u_wrap :: "UFILE \<Rightarrow> UFILE" where
  "u_wrap fp = (if (scast (u_level fp) :: u32) \<ge> u_bsize fp \<or> u_off fp \<ge> u_bsize fp then fp\<lparr>u_off := 0, u_level := 0\<rparr> else fp)"

definition u_wrap2 :: "UFILE \<Rightarrow> UFILE" where
  "u_wrap2 fp = (if u_off2 fp \<ge> u_bsize fp then fp\<lparr>u_off2 := 0\<rparr> else fp)"

definition u_byte :: "u32 \<Rightarrow> UFILE \<Rightarrow> u8 option" where
  "u_byte i fp = (if unat i < length (u_buffer fp) then Some (u_buffer fp ! unat i) else None)"

text \<open>Colours outside 0 to 15 count as 0, and white on white as white on black.\<close>

definition colour :: "u32 \<Rightarrow> u32 \<Rightarrow> u8" where
  "colour fg bg =
     (let bg = (if 15 <s bg \<or> bg <s 0 then 0 else bg);
          fg = (if 15 <s fg \<or> fg <s 0 then 0 else fg);
          bg = (if fg = 15 \<and> bg = 15 then 0 else bg)
      in ucast ((push_bit 4 bg AND 0xf0) OR (fg AND 0xf)))"

definition put_stream :: "u32 \<Rightarrow> u8 \<Rightarrow> UFILE \<Rightarrow> UFILE option" where
  "put_stream c col fp =
     (if u_flags fp = 3 then do {
        b \<leftarrow> patch (unat (u_off fp)) [ucast c, col] (u_buffer fp);
        let fp = fp\<lparr>u_buffer := b, u_off := u_off fp + 2\<rparr>;
        Some (if u_off fp > u_fsize fp then fp\<lparr>u_fsize := u_fsize fp + 2\<rparr> else fp) }
      else do {
        b \<leftarrow> patch (unat (u_off fp)) [ucast c] (u_buffer fp);
        let fp = fp\<lparr>u_buffer := b, u_off := u_off fp + 1\<rparr>;
        Some (if u_off fp > u_fsize fp then fp\<lparr>u_fsize := u_fsize fp + 1\<rparr> else fp) })"

text \<open>What goes to the standard error goes to the standard output as well, which is another stream.\<close>

definition stdputc_r :: "u32 \<Rightarrow> UFILE \<Rightarrow> user_state \<Rightarrow> (u32 \<times> UFILE \<times> user_state) option" where
  "stdputc_r c fp s =
     do {
       let fp = u_wrap fp;
       let col = colour (term_fg_color s) (term_bg_color s);
       s \<leftarrow> (if u_flags fp = 4 then
              (if u_flags (u_stdout s) = 4 then None
               else do { out \<leftarrow> put_stream c col (u_wrap (u_stdout s)); Some (s\<lparr>u_stdout := out\<rparr>) })
            else Some s);
       fp \<leftarrow> put_stream c col fp;
       Some (c, fp, s) }"

partial_function (option) u_wait :: "user_env \<Rightarrow> nat \<Rightarrow> UFILE \<Rightarrow> UFILE option" where
  "u_wait env k fp = (if u_off fp \<le> u_off2 fp \<and> u_off fp \<ge> u_off2 fp then u_wait env (k + 1) (env k fp) else Some fp)"

definition stdgetc_r :: "user_env \<Rightarrow> UFILE \<Rightarrow> (int \<times> UFILE) option" where
  "stdgetc_r env fp =
     (let fp = u_wrap2 fp in
      if u_flags fp = 2 then do { fp \<leftarrow> u_wait env 0 fp; r \<leftarrow> u_byte (u_off2 fp) fp; Some (int (unat r), fp\<lparr>u_off2 := u_off2 fp + 1\<rparr>) }
      else if u_flags fp = 4 then
        (if u_off fp = 0 \<or> u_off2 fp \<ge> u_off fp then Some (EOF, fp)
         else do { r \<leftarrow> u_byte (u_off2 fp) fp; Some (int (unat r), fp\<lparr>u_off2 := u_off2 fp + 1\<rparr>) })
      else if u_flags fp = 3 then
        (if u_off2 fp = u_off fp then Some (EOF, fp)
         else do { r \<leftarrow> u_byte (u_off2 fp) fp; Some (int (unat r), fp\<lparr>u_off2 := u_off2 fp + 2\<rparr>) })
      else Some (0, fp))"

definition getkey :: "UFILE \<Rightarrow> (int \<times> UFILE) option" where
  "getkey fp =
     (let fp = u_wrap2 fp in
      if u_flags fp = 2 then
        (if u_off fp \<le> u_off2 fp \<and> u_off fp \<ge> u_off2 fp then Some (0, fp)
         else do { r \<leftarrow> u_byte (u_off2 fp) fp; Some (int (unat r), fp\<lparr>u_off2 := u_off2 fp + 1\<rparr>) })
      else Some (0, fp))"

definition getkeyw :: "user_env \<Rightarrow> UFILE \<Rightarrow> (int \<times> UFILE) option" where
  "getkeyw env fp =
     (let fp = u_wrap2 fp in
      if u_flags fp = 2 then do { fp \<leftarrow> u_wait env 0 fp; r \<leftarrow> u_byte (u_off2 fp) fp; Some (int (unat r), fp\<lparr>u_off2 := u_off2 fp + 1\<rparr>) }
      else Some (0, fp))"

section \<open>Pipes\<close>

definition pipe_write_u :: "u8 list \<Rightarrow> UFILE \<Rightarrow> (int \<times> UFILE) option" where
  "pipe_write_u buf fp =
     do {
       let fp = u_wrap fp;
       b \<leftarrow> (if length buf < 16 then None else patch (unat (u_off fp)) (take 16 buf) (u_buffer fp));
       Some (16, fp\<lparr>u_buffer := b, u_off := u_off fp + 16, u_fsize := u_fsize fp + 16\<rparr>) }"

definition u_message :: "UFILE \<Rightarrow> (int \<times> u8 list \<times> UFILE) option" where
  "u_message fp = (if unat (u_off2 fp) + 16 \<le> length (u_buffer fp)
     then Some (16, take 16 (drop (unat (u_off2 fp)) (u_buffer fp)), fp\<lparr>u_off2 := u_off2 fp + 16\<rparr>) else None)"

definition pipe_read_u :: "user_env \<Rightarrow> UFILE \<Rightarrow> (int \<times> u8 list \<times> UFILE) option" where
  "pipe_read_u env fp = do { fp \<leftarrow> u_wait env 0 (u_wrap2 fp); u_message fp }"

definition pipe_read_2x :: "UFILE \<Rightarrow> (int \<times> u8 list \<times> UFILE) option" where
  "pipe_read_2x fp = (let fp = u_wrap2 fp in if u_off fp \<le> u_off2 fp \<and> u_off fp \<ge> u_off2 fp then Some (0, [], fp) else u_message fp)"

section \<open>Files\<close>

definition open_r :: "u8 list \<Rightarrow> u8 list \<Rightarrow> u8 list \<Rightarrow> u8 list \<Rightarrow> user_state \<Rightarrow> (UFILE option \<times> user_state) option" where
  "open_r mem0 mem1 path mode s = (if mode_at 0 mode = 0 then Some (None, s) else open_file_u mem0 mem1 path mode s)"

text \<open>A new file for writing takes the place of the old one.  \<^verbatim>\<open>remove\<close> cuts a final slash off the path.\<close>

definition fopen_u :: "u8 list \<Rightarrow> u8 list \<Rightarrow> u8 list \<Rightarrow> u8 list \<Rightarrow> user_state \<Rightarrow> (UFILE option \<times> user_state) option" where
  "fopen_u mem0 mem1 path mode s =
     (if mode_at 0 mode = 0 then Some (None, s)
      else do {
        (path, s) \<leftarrow> (if mode_at 0 mode = 119 then do {
                        (_, s) \<leftarrow> remove_file mem1 path s;
                        (_, path) \<leftarrow> getpathname (u_pwd s) path;
                        Some (path, s) }
                      else Some (path, s));
        open_r mem0 mem1 path mode s })"

definition flush_r :: "UFILE \<Rightarrow> user_state \<Rightarrow> (int \<times> user_state) option" where
  "flush_r fp s =
     (if u_flags fp AND 0x6 = 0 \<or> u_mode fp \<noteq> 2 then Some (- 1, s)
      else if u_flags fp AND 0x80 = 0 then Some (0, s)
      else if u_bsize fp = 0 then None
      else do {
        s \<leftarrow> (if u_flags fp AND 0x40 = 0 then do { (_, s) \<leftarrow> file_write_block (u_off fp div u_bsize fp) fp s; Some s } else Some s);
        file_update fp s })"

definition close_r :: "UFILE option \<Rightarrow> user_state \<Rightarrow> (int \<times> user_state) option" where
  "close_r fp s = (case fp of None \<Rightarrow> Some (- 1, s) | Some fp \<Rightarrow> do { (_, s) \<leftarrow> flush_r fp s; Some (0, s) })"

text \<open>The block at the offset is read when none is in the buffer and there is one.  \<^verbatim>\<open>level\<close> is a \<^verbatim>\<open>short\<close>.\<close>

definition fill_buffer :: "UFILE \<Rightarrow> user_state \<Rightarrow> UFILE option" where
  "fill_buffer fp s =
     (if u_flags fp AND 0x10 = 0 \<and> u_off fp \<le> u_fsize fp \<and> u_fsize fp \<noteq> 0
      then do { let fp = fp\<lparr>u_flags := u_flags fp OR 0x10\<rparr>; (_, fp) \<leftarrow> (if u_bsize fp = 0 then None else file_read_block_u (u_off fp div u_bsize fp) fp s); Some fp }
      else Some fp)"

definition set_level :: "UFILE \<Rightarrow> UFILE option" where
  "set_level fp = (if u_bsize fp = 0 then None else Some (fp\<lparr>u_level := ucast (u_off fp mod u_bsize fp)\<rparr>))"

definition at_end :: "UFILE \<Rightarrow> bool" where
  "at_end fp \<longleftrightarrow> (scast (u_level fp) :: u32) \<ge> u_bsize fp - 1"

definition putc_r :: "u32 \<Rightarrow> UFILE \<Rightarrow> user_state \<Rightarrow> (u32 \<times> UFILE \<times> user_state) option" where
  "putc_r ch fp s =
     (if u_flags fp = 5 then Some (0, fp, s)
      else if u_flags fp = 2 \<or> u_flags fp = 3 \<or> u_flags fp = 4 then stdputc_r ch fp s
      else do {
        fp \<leftarrow> fill_buffer fp s;
        let fp = fp\<lparr>u_flags := u_flags fp OR 0x10\<rparr>;
        fp \<leftarrow> set_level fp;
        b \<leftarrow> (if sint (u_level fp) < 0 then None else patch (unat (u_level fp)) [ucast ch] (u_buffer fp));
        let fp = fp\<lparr>u_buffer := b\<rparr>;
        (fp, s) \<leftarrow> (if at_end fp then do {
                       let fp = fp\<lparr>u_flags := u_flags fp AND NOT 0x10, u_level := 0\<rparr>;
                       (_, s) \<leftarrow> flush_r fp s;
                       Some (fp, s) }
                     else Some (fp, s));
        let fp = fp\<lparr>u_off := u_off fp + 1\<rparr>;
        let fp = (if u_off fp > u_fsize fp then fp\<lparr>u_fsize := u_fsize fp + 1\<rparr> else fp);
        Some (0, fp\<lparr>u_flags := u_flags fp OR 0x80\<rparr>, s) })"

definition getc_r :: "user_env \<Rightarrow> UFILE \<Rightarrow> user_state \<Rightarrow> (int \<times> UFILE) option" where
  "getc_r env fp s =
     (if u_flags fp = 5 then Some (0, fp)
      else if u_flags fp = 2 \<or> u_flags fp = 3 \<or> u_flags fp = 4 then stdgetc_r env fp
      else if u_off fp \<ge> u_fsize fp then Some (EOF, fp)
      else do {
        fp \<leftarrow> fill_buffer fp s;
        fp \<leftarrow> set_level fp;
        r \<leftarrow> (if sint (u_level fp) < 0 then None else u_byte (ucast (u_level fp)) fp);
        let fp = (if at_end fp then fp\<lparr>u_flags := u_flags fp AND NOT 0x10, u_level := 0\<rparr> else fp);
        Some (int (unat r), fp\<lparr>u_off := u_off fp + 1\<rparr>) })"

fun read_loop :: "user_env \<Rightarrow> nat \<Rightarrow> u8 list \<Rightarrow> UFILE \<Rightarrow> user_state \<Rightarrow> (u8 list \<times> UFILE) option" where
  "read_loop env 0 buf fp s = Some (buf, fp)"
| "read_loop env (Suc n) buf fp s =
     do { (c, fp) \<leftarrow> getc_r env fp s; if c = EOF then Some (buf, fp) else read_loop env n (buf @ [word_of_int c]) fp s }"

text \<open>\<^verbatim>\<open>size\<close> and \<^verbatim>\<open>count\<close> are 64 bits wide and the loop counter is an \<^verbatim>\<open>int\<close>; \<open>read_r\<close> has no result for
  products of \<open>2 ^ 31\<close> or more, nor for an empty \<^verbatim>\<open>size\<close>, by which it divides.\<close>

definition read_r :: "user_env \<Rightarrow> nat \<Rightarrow> nat \<Rightarrow> UFILE option \<Rightarrow> user_state \<Rightarrow> (nat \<times> u8 list \<times> UFILE option) option" where
  "read_r env sz count fp s =
     (case fp of None \<Rightarrow> Some (0, [], None)
      | Some fp \<Rightarrow> if sz = 0 \<or> sz * count \<ge> 2 ^ 31 then None
          else do { (buf, fp) \<leftarrow> read_loop env (sz * count) [] fp s; Some (length buf div sz, buf, Some fp) })"

fun write_loop :: "u8 list \<Rightarrow> UFILE \<Rightarrow> user_state \<Rightarrow> (UFILE \<times> user_state) option" where
  "write_loop [] fp s = Some (fp, s)"
| "write_loop (c # cs) fp s = do { (_, fp, s) \<leftarrow> putc_r (ucast c) fp s; write_loop cs fp s }"

definition write_r :: "u8 list \<Rightarrow> nat \<Rightarrow> nat \<Rightarrow> UFILE option \<Rightarrow> user_state \<Rightarrow> (nat \<times> UFILE option \<times> user_state) option" where
  "write_r buffer sz count fp s =
     (case fp of None \<Rightarrow> Some (0, None, s)
      | Some fp \<Rightarrow> if sz = 0 \<or> sz * count \<ge> 2 ^ 31 \<or> length buffer < sz * count then None
          else do { (fp, s) \<leftarrow> write_loop (take (sz * count) buffer) fp s; Some (count, Some fp, s) })"

text \<open>\<^verbatim>\<open>num_bytes\<close> is a \<^verbatim>\<open>long\<close>; the offsets keep its low 32 bits.\<close>

definition seek_r :: "UFILE \<Rightarrow> u64 \<Rightarrow> int \<Rightarrow> (int \<times> UFILE) option" where
  "seek_r fp num_bytes origin =
     do {
       let n = ucast num_bytes;
       let fp = (if origin = 0 then fp\<lparr>u_off := n, u_off2 := n\<rparr>
                 else if origin = 1 then fp\<lparr>u_off := u_off fp + n, u_off2 := u_off2 fp + n\<rparr>
                 else if origin = 2 then fp\<lparr>u_off := u_fsize fp - n, u_off2 := u_fsize fp - n\<rparr>
                 else fp);
       fp \<leftarrow> set_level fp;
       Some (0, fp) }"

definition tell_r :: "UFILE option \<Rightarrow> u32" where
  "tell_r fp = (case fp of None \<Rightarrow> 0 | Some fp \<Rightarrow> u_off fp)"

definition rewind_r :: "UFILE \<Rightarrow> UFILE" where
  "rewind_r fp = fp\<lparr>u_off := 0, u_off2 := 0, u_level := 0, u_flags := u_flags fp AND NOT 0x10\<rparr>"

definition ungetc :: "int \<Rightarrow> UFILE \<Rightarrow> (int \<times> UFILE) option" where
  "ungetc c fp =
     (if c = EOF then Some (- 1, fp)
      else do {
        fp \<leftarrow> set_level (if u_off fp > 0 then fp\<lparr>u_off := u_off fp - 1\<rparr> else fp);
        b \<leftarrow> (if sint (u_level fp) < 0 then None else patch (unat (u_level fp)) [word_of_int c] (u_buffer fp));
        Some (c, fp\<lparr>u_buffer := b\<rparr>) })"

text \<open>The name is only copied when it has at most 96 bytes; the close writes the entry of the directory and no block.\<close>

definition rename_u :: "u8 list \<Rightarrow> u8 list \<Rightarrow> u8 list \<Rightarrow> u8 list \<Rightarrow> user_state \<Rightarrow> (int \<times> user_state) option" where
  "rename_u mem0 mem1 old new s =
     do {
       (f, s) \<leftarrow> fopen_u mem0 mem1 old [114, 43] s;
       case f of None \<Rightarrow> Some (EOF, s)
       | Some f \<Rightarrow> do {
           let r = (if length new > 96 then - EOF else 0);
           let f = (if length new > 96 then f else f\<lparr>u_fname := new @ [0] @ drop (length new + 1) (u_fname f)\<rparr>);
           let f = f\<lparr>u_flags := u_flags f OR 0x80 OR 0x40\<rparr>;
           (_, s) \<leftarrow> close_r (Some f) s;
           Some (r, s) } }"

end
