(* ===== verification/Ufat.thy ===== *)
theory Ufat
  imports Ustdio
begin

text \<open>
  The disk under the file system of the programs: \<open>fat\<close> and \<open>set_fat\<close> read and write an entry of the allocation table,
  \<open>block_bytes\<close> and \<open>put_block\<close> a block, and the collection \<open>disk_simps\<close> holds their laws.  A file is a \<open>fchain\<close> of blocks.
  The search of a free block, the release of a chain and the walk that opens a file are stated in these terms.
\<close>

named_theorems disk_simps \<open>laws of the allocation table and the blocks\<close>

section \<open>Sectors\<close>

definition disk_ok :: "user_state \<Rightarrow> bool" where
  "disk_ok s \<longleftrightarrow> (\<forall>k. length (sects s k) = 512) \<and> (\<forall>k. \<not> broken s k) \<and> length (blk_tab s) = 2048"

lemma concat_length: "\<forall>x \<in> set xs. length x = n \<Longrightarrow> length (concat xs) = n * length xs"
  by (induction xs) auto

lemma concat_nth: "\<forall>x \<in> set xs. length x = n \<Longrightarrow> j < length xs \<Longrightarrow> e < n \<Longrightarrow> concat xs ! (n * j + e) = xs ! j ! e"
proof (induction xs arbitrary: j)
  case (Cons x xs)
  show ?case
  proof (cases j)
    case 0 then show ?thesis using Cons.prems by (simp add: nth_append)
  next
    case (Suc i)
    then have "concat xs ! (n * i + e) = xs ! i ! e" using Cons.IH [of i] Cons.prems by simp
    moreover have "n * j + e - length x = n * i + e" "\<not> n * j + e < length x" using Suc Cons.prems by simp_all
    ultimately show ?thesis using Suc Cons.prems by (simp add: nth_append)
  qed
qed simp

lemma concat_take_drop: "\<forall>x \<in> set xs. length x = n \<Longrightarrow> j < length xs \<Longrightarrow> take n (drop (n * j) (concat xs)) = xs ! j"
proof (induction xs arbitrary: j)
  case (Cons x xs)
  then show ?case by (cases j) (auto simp: drop_append)
qed simp

lemma blk_get_put:
  assumes "4 * k + 4 \<le> length b" "4 * j + 4 \<le> length b"
  shows "blk_get (blk_put k v b) j = (if j = k then v else blk_get b j)"
proof -
  have n: "blk_put k v b ! i = (if 4 * k \<le> i \<and> i < 4 * k + 4 then le32 v ! (i - 4 * k) else b ! i)" if "i < length b" for i
    using that assms(1) by (auto simp: blk_put_def nth_append)
  show ?thesis
  proof (cases "j = k")
    case True
    then have "blk_get (blk_put k v b) j = v"
      unfolding blk_get_def using n assms by (intro le_get32) auto
    then show ?thesis using True by simp
  next
    case False
    then have "4 * j + 4 \<le> 4 * k \<or> 4 * k + 4 \<le> 4 * j" by linarith
    then have e: "blk_put k v b ! (4 * j + e) = b ! (4 * j + e)" if "e < 4" for e using n [of "4 * j + e"] that assms by auto
    show ?thesis using False e [of 0] e [of 1] e [of 2] e [of 3] by (simp add: blk_get_def get32_def)
  qed
qed

lemma blk_put_length [simp]: "4 * k + 4 \<le> length b \<Longrightarrow> length (blk_put k v b) = length b"
  by (simp add: blk_put_def)

lemma slot_bound: "4 * (k mod 128) + 4 \<le> (512 :: nat)"
  using mod_less_divisor [of 128 k] by linarith

lemma blk_get_concat:
  assumes "\<forall>x \<in> set xs. length x = 512" and "k < 128 * length xs"
  shows "blk_get (concat xs) k = blk_get (xs ! (k div 128)) (k mod 128)"
proof -
  have k: "k div 128 < length xs" using assms(2) by (simp add: less_mult_imp_div_less mult.commute)
  have "concat xs ! (4 * k + e) = xs ! (k div 128) ! (4 * (k mod 128) + e)" if "e < 4" for e
  proof -
    have "4 * k + e = 512 * (k div 128) + (4 * (k mod 128) + e)" using div_mult_mod_eq [of k 128] by linarith
    then show ?thesis using concat_nth [OF assms(1) k, of "4 * (k mod 128) + e"] that slot_bound [of k] by (simp add: add.assoc)
  qed
  from this [of 0] this [of 1] this [of 2] this [of 3] show ?thesis by (simp add: blk_get_def get32_def)
qed

lemma blk_get_take: "4 * k + 4 \<le> n \<Longrightarrow> n \<le> length b \<Longrightarrow> blk_get (take n b) k = blk_get b k"
  by (simp add: blk_get_def get32_def)

section \<open>Blocks and entries\<close>

definition base :: "super_block \<Rightarrow> nat" where
  "base f = unat (data_sector f)"

definition nblk :: "super_block \<Rightarrow> nat" where
  "nblk f = unat (sb_num_of_blk f)"

text \<open>The table fills the first blocks.\<close>

definition table_blks :: "super_block \<Rightarrow> nat" where
  "table_blks f = (nblk f + 2047) div 2048"

definition cfs_geom :: "super_block \<Rightarrow> bool" where
  "cfs_geom f \<longleftrightarrow> sb_byte_per_sector f = 512 \<and> sb_sector_per_blk f = 16 \<and> 2 \<le> base f \<and> base f + 16 * nblk f + 16 < 2 ^ 32"

definition fat :: "super_block \<Rightarrow> user_state \<Rightarrow> nat \<Rightarrow> u32" where
  "fat f s b = blk_get (sects s (base f + b div 128)) (b mod 128)"

definition set_fat :: "super_block \<Rightarrow> nat \<Rightarrow> u32 \<Rightarrow> user_state \<Rightarrow> user_state" where
  "set_fat f b v s = s\<lparr>sects := (sects s)(base f + b div 128 := blk_put (b mod 128) v (sects s (base f + b div 128)))\<rparr>"

definition block_bytes :: "super_block \<Rightarrow> user_state \<Rightarrow> nat \<Rightarrow> u8 list" where
  "block_bytes f s b = concat (map (sects s) [base f + 16 * b..<base f + 16 * b + 16])"

definition put_block :: "super_block \<Rightarrow> nat \<Rightarrow> u8 list \<Rightarrow> user_state \<Rightarrow> user_state" where
  "put_block f b bs s = s\<lparr>sects := \<lambda>k. if base f + 16 * b \<le> k \<and> k < base f + 16 * b + 16
     then take 512 (drop ((k - (base f + 16 * b)) * 512) bs) else sects s k\<rparr>"

definition super_at :: "user_state \<Rightarrow> super_block" where
  "super_at s = super_block_of (sects s 1 @ replicate 512 0)"

lemma table_below: "b < nblk f \<Longrightarrow> table_blks f \<le> d \<Longrightarrow> base f + b div 128 < base f + 16 * d"
  by (simp add: table_blks_def div_less_iff_less_mult)

lemma block_length [simp]: "disk_ok s \<Longrightarrow> length (block_bytes f s b) = 8192"
  by (simp add: block_bytes_def disk_ok_def concat_length [where n = 512])

lemma disk_ok_set_fat [disk_simps]: "disk_ok s \<Longrightarrow> disk_ok (set_fat f b v s)"
  by (simp add: disk_ok_def set_fat_def)

lemma disk_ok_put_block [disk_simps]: "disk_ok s \<Longrightarrow> length bs = 8192 \<Longrightarrow> disk_ok (put_block f b bs s)"
  by (auto simp: disk_ok_def put_block_def)

lemma disk_ok_tab [disk_simps]: "disk_ok s \<Longrightarrow> length t = 2048 \<Longrightarrow> disk_ok (s\<lparr>blk_tab := t\<rparr>)"
  by (simp add: disk_ok_def)

lemma tab_laws [disk_simps]: "fat f (s\<lparr>blk_tab := t\<rparr>) = fat f s" "block_bytes f (s\<lparr>blk_tab := t\<rparr>) = block_bytes f s"
  "super_at (s\<lparr>blk_tab := t\<rparr>) = super_at s"
  by (auto simp: fat_def block_bytes_def super_at_def)

lemma fat_set_fat [disk_simps]:
  assumes "disk_ok s"
  shows "fat f (set_fat f b v s) c = (if c = b then v else fat f s c)"
proof -
  have l: "length (sects s k) = 512" for k using assms by (simp add: disk_ok_def)
  note m = slot_bound
  show ?thesis
  proof (cases "c div 128 = b div 128")
    case True
    have "c = b \<longleftrightarrow> c mod 128 = b mod 128" using True by (metis div_mult_mod_eq)
    then show ?thesis using True m l by (simp add: fat_def set_fat_def blk_get_put)
  next
    case False then show ?thesis by (auto simp: fat_def set_fat_def)
  qed
qed

lemma fat_put_block [disk_simps]: "table_blks f \<le> d \<Longrightarrow> c < nblk f \<Longrightarrow> fat f (put_block f d bs s) c = fat f s c"
  using table_below [of c f d] by (simp add: fat_def put_block_def)

lemma block_set_fat [disk_simps]: "table_blks f \<le> d \<Longrightarrow> b < nblk f \<Longrightarrow> block_bytes f (set_fat f b v s) d = block_bytes f s d"
  using table_below [of b f d] by (auto simp: block_bytes_def set_fat_def intro!: arg_cong [of _ _ concat])

lemma block_put_block [disk_simps]:
  assumes "length bs = 8192"
  shows "block_bytes f (put_block f d bs s) e = (if e = d then bs else block_bytes f s e)"
proof (cases "e = d")
  case True
  define xs where "xs = map (\<lambda>i. take 512 (drop (i * 512) bs)) [0..<16]"
  have l16: "length xs = 16" by (simp add: xs_def)
  have "map (sects (put_block f d bs s)) [base f + 16 * d..<base f + 16 * d + 16] = xs"
    by (rule nth_equalityI) (auto simp: xs_def put_block_def)
  moreover have "concat xs = bs"
  proof (rule nth_equalityI)
    have x: "\<forall>x \<in> set xs. length x = 512" using assms by (auto simp: xs_def)
    then show "length (concat xs) = length bs" using assms l16 concat_length [of xs 512] by simp
    fix i assume "i < length (concat xs)"
    then have i: "i < 8192" using concat_length [OF x] l16 by simp
    have "concat xs ! (512 * (i div 512) + i mod 512) = xs ! (i div 512) ! (i mod 512)" using i by (intro concat_nth [OF x]) (auto simp: xs_def)
    also have "\<dots> = bs ! (i div 512 * 512 + i mod 512)" using i assms less_mult_imp_div_less [of i 16 512] by (simp add: xs_def)
    finally show "concat xs ! i = bs ! i" by simp
  qed
  ultimately show ?thesis using True by (simp add: block_bytes_def)
next
  case False
  then have "base f + 16 * e + 16 \<le> base f + 16 * d \<or> base f + 16 * d + 16 \<le> base f + 16 * e" by linarith
  then have "map (sects (put_block f d bs s)) [base f + 16 * e..<base f + 16 * e + 16] = map (sects s) [base f + 16 * e..<base f + 16 * e + 16]"
    by (auto simp: put_block_def)
  then show ?thesis using False by (simp only: block_bytes_def if_False)
qed

lemma super_laws [disk_simps]: "2 \<le> base f \<Longrightarrow> super_at (set_fat f b v s) = super_at s" "2 \<le> base f \<Longrightarrow> super_at (put_block f d bs s) = super_at s"
  by (auto simp: super_at_def set_fat_def put_block_def)


section \<open>Transfers\<close>

lemma sector_word: "n < 2 ^ 32 \<Longrightarrow> unat (ucast (of_nat n :: u32) :: u64) = n"
  by (simp add: ucast_of_nat_small unat_of_nat_small)

lemma data_sector_words:
  assumes "cfs_geom f" and "b < nblk f"
  shows "unat (first_sector f (of_nat b)) = base f + 16 * b" and "unat (ucast (of_nat b * sb_sector_per_blk f + data_sector f) :: u64) = base f + 16 * b"
proof -
  have g: "base f + 16 * b < 2 ^ 32" "sb_sector_per_blk f = 16" using assms by (auto simp: cfs_geom_def)
  have "data_sector f = of_nat (base f)" by (simp add: base_def)
  then have e: "of_nat b * sb_sector_per_blk f + data_sector f = (of_nat (base f + 16 * b) :: u32)" by (simp add: g(2) mult.commute)
  then show "unat (ucast (of_nat b * sb_sector_per_blk f + data_sector f) :: u64) = base f + 16 * b"
    unfolding e by (intro sector_word g(1))
  then show "unat (first_sector f (of_nat b)) = base f + 16 * b" by (simp only: first_sector_def)
qed

lemma read_ok: "disk_ok s \<Longrightarrow> unat count * 512 \<le> length buf \<Longrightarrow>
  read_sector_u count a buf s = Some (0, concat (map (sects s) [unat a..<unat a + unat count]) @ drop (unat count * 512) buf)"
  by (auto simp: read_sector_u_def any_broken_def disk_ok_def list_ex_iff)

lemma write_ok: "disk_ok s \<Longrightarrow> unat count * 512 \<le> length buf \<Longrightarrow>
  write_sector_u count a buf s = Some (0, s\<lparr>sects := \<lambda>k. if unat a \<le> k \<and> k < unat a + unat count then take 512 (drop ((k - unat a) * 512) buf) else sects s k\<rparr>)"
  by (auto simp: write_sector_u_def any_broken_def disk_ok_def list_ex_iff)

lemma read_one: "disk_ok s \<Longrightarrow> 512 \<le> length buf \<Longrightarrow> read_sector_u 1 a buf s = Some (0, sects s (unat a) @ drop 512 buf)"
  by (subst read_ok) auto

lemma write_one: "disk_ok s \<Longrightarrow> 512 \<le> length buf \<Longrightarrow> write_sector_u 1 a buf s = Some (0, s\<lparr>sects := (sects s)(unat a := take 512 buf)\<rparr>)"
  by (subst write_ok) (auto simp: fun_eq_iff intro!: arg_cong2 [of _ _ _ _ sects_update])

lemma read_root_ok:
  assumes "cfs_geom f" "disk_ok s" "b < nblk f" "length buf = 8192"
  shows "read_root f (of_nat b) buf s = Some (0, block_bytes f s b)"
proof -
  have "unat (sb_sector_per_blk f) = 16" using assms(1) by (simp add: cfs_geom_def)
  then show ?thesis using assms by (simp add: read_root_def read_ok data_sector_words(1) block_bytes_def)
qed

lemma write_block_ok:
  assumes "cfs_geom f" "disk_ok s" "b < nblk f" "length buf = 8192"
  shows "write_sector_u (sb_sector_per_blk f) (first_sector f (of_nat b)) buf s = Some (0, put_block f b buf s)"
proof -
  have "unat (sb_sector_per_blk f) = 16" using assms(1) by (simp add: cfs_geom_def)
  then show ?thesis using assms by (simp add: write_ok data_sector_words(1) put_block_def cong: if_cong)
qed

lemma super_ok:
  assumes "disk_ok s"
  shows "read_super_block_u \<lparr>p_dv_num = d, p_start = 1\<rparr> s = Some (0, super_at s)"
  using assms by (simp add: read_super_block_u_def read_one super_at_def)

section \<open>The search of a free block\<close>

lemma entry_sector: "(i :: nat) div 128 = 4 * (i div 512) + i mod 512 div 128" "i mod 512 mod 128 = i mod 128"
proof -
  have d: "i div 512 = i div 128 div 4" using div_mult2_eq [of i 128 4] by simp
  have m: "i mod 512 = 128 * (i div 128 mod 4) + i mod 128" using mod_mult2_eq [of i 128 4] by simp
  then have "i mod 512 div 128 = i div 128 mod 4" by simp
  then show "i div 128 = 4 * (i div 512) + i mod 512 div 128" using d mult_div_mod_eq [of 4 "i div 128"] by simp
  show "i mod 512 mod 128 = i mod 128" using m by simp
qed

lemma fat_sectors:
  assumes "disk_ok s" and "q < 512"
  shows "blk_get (concat (map (sects s) [base f + 4 * n..<base f + 4 * n + 4])) q = fat f s (512 * n + q)"
proof -
  have "q div 128 < 4" using assms(2) by linarith
  moreover have "base f + 4 * n + q div 128 = base f + (512 * n + q) div 128" using entry_sector(1) [of "512 * n + q"] assms(2) by simp
  ultimately have "map (sects s) [base f + 4 * n..<base f + 4 * n + 4] ! (q div 128) = sects s (base f + (512 * n + q) div 128)"
    by (simp add: add.assoc)
  moreover have "(512 * n + q) mod 128 = q mod 128" using entry_sector(2) [of "512 * n + q"] assms(2) by simp
  ultimately show ?thesis using assms by (subst blk_get_concat) (auto simp: disk_ok_def fat_def)
qed


text \<open>\<open>_BLK_\<close> holds the four sectors of the table that entry \<open>i\<close> lies in.\<close>

definition tab_holds :: "super_block \<Rightarrow> user_state \<Rightarrow> nat \<Rightarrow> bool" where
  "tab_holds f s i \<longleftrightarrow> blk_tab s = concat (map (sects s) [base f + 4 * (i div 512)..<base f + 4 * (i div 512) + 4])"

lemma tab_get: "disk_ok s \<Longrightarrow> tab_holds f s i \<Longrightarrow> blk_get (blk_tab s) (i mod 512) = fat f s i"
  using fat_sectors [of s "i mod 512" f "i div 512"] by (simp add: tab_holds_def)

lemma table_bound:
  assumes "cfs_geom f" and "i < nblk f"
  shows "base f + 4 * (i div 512) + 4 < 2 ^ 32"
proof -
  define a where "a = i div 512"
  have "a \<le> i" by (simp add: a_def)
  moreover have "base f + 16 * nblk f + 16 < 2 ^ 32" using assms(1) by (simp add: cfs_geom_def)
  ultimately show ?thesis using assms(2) unfolding a_def [symmetric] by linarith
qed

lemma table_start: "cfs_geom f \<Longrightarrow> i < nblk f \<Longrightarrow> unat (ucast (of_nat (base f + 4 * (i div 512)) :: u32) :: u64) = base f + 4 * (i div 512)"
  by (intro sector_word) (use table_bound [of f i] in simp)

lemma blk_put_concat:
  "\<forall>x \<in> set xs. length x = 512 \<Longrightarrow> q < 128 * length xs \<Longrightarrow>
   blk_put q v (concat xs) = concat (xs[q div 128 := blk_put (q mod 128) v (xs ! (q div 128))])"
proof (induction xs arbitrary: q)
  case (Cons x xs)
  show ?case
  proof (cases "q < 128")
    case True
    then show ?thesis using Cons.prems by (simp add: blk_put_def)
  next
    case False
    then obtain r where r: "q = r + 128" by (metis add.commute le_add_diff_inverse not_less)
    then have "blk_put r v (concat xs) = concat (xs[r div 128 := blk_put (r mod 128) v (xs ! (r div 128))])"
      using Cons by simp
    moreover have "blk_put q v (x @ concat xs) = x @ blk_put r v (concat xs)" using r Cons.prems by (simp add: blk_put_def add.commute)
    moreover have "q div 128 = Suc (r div 128)" "q mod 128 = r mod 128" using r by simp_all
    ultimately show ?thesis by simp
  qed
qed simp

lemma table_write:
  assumes ok: "disk_ok s" and hold: "tab_holds f s i"
  shows "(\<lambda>k. if base f + 4 * (i div 512) \<le> k \<and> k < base f + 4 * (i div 512) + 4
     then take 512 (drop ((k - (base f + 4 * (i div 512))) * 512) (blk_put (i mod 512) v (blk_tab s))) else sects s k) = sects (set_fat f i v s)"
    and "length (blk_put (i mod 512) v (blk_tab s)) = 2048"
proof -
  define b0 where "b0 = base f + 4 * (i div 512)"
  define S where "S = map (sects s) [b0..<b0 + 4]"
  define q where "q = i mod 512"
  have q: "q < 512" by (simp add: q_def)
  have l: "\<forall>x \<in> set S. length x = 512" "length S = 4" using ok by (simp_all add: disk_ok_def S_def)
  have tab: "blk_tab s = concat S" using hold by (simp add: tab_holds_def S_def b0_def)
  show "length (blk_put (i mod 512) v (blk_tab s)) = 2048" using ok q by (simp add: disk_ok_def q_def [symmetric])
  have S: "S ! m = sects s (b0 + m)" if "m < 4" for m using that by (simp add: S_def)
  define S' where "S' = S[q div 128 := blk_put (q mod 128) v (S ! (q div 128))]"
  have l': "\<forall>x \<in> set S'. length x = 512" "length S' = 4"
    using l slot_bound [of q] q by (auto simp: S'_def dest!: set_update_subset_insert [THEN subsetD])
  have p: "blk_put q v (concat S) = concat S'" unfolding S'_def using l q by (intro blk_put_concat) auto
  have i: "base f + i div 128 = b0 + q div 128" "i mod 128 = q mod 128" unfolding b0_def q_def using entry_sector [of i] by simp_all
  show "(\<lambda>k. if base f + 4 * (i div 512) \<le> k \<and> k < base f + 4 * (i div 512) + 4
     then take 512 (drop ((k - (base f + 4 * (i div 512))) * 512) (blk_put (i mod 512) v (blk_tab s))) else sects s k) = sects (set_fat f i v s)"
    unfolding tab q_def [symmetric] p b0_def [symmetric]
  proof
    fix k
    show "(if b0 \<le> k \<and> k < b0 + 4 then take 512 (drop ((k - b0) * 512) (concat S')) else sects s k) = sects (set_fat f i v s) k"
    proof (cases "b0 \<le> k \<and> k < b0 + 4")
      case True
      define m where "m = k - b0"
      have m: "m < 4" "k = b0 + m" using True by (auto simp: m_def)
      have "take 512 (drop (m * 512) (concat S')) = S' ! m" using concat_take_drop [OF l'(1), of m] m l'(2) by (simp add: mult.commute)
      also have "\<dots> = (if m = q div 128 then blk_put (q mod 128) v (sects s k) else sects s k)"
        using m S l(2) q by (simp add: S'_def nth_list_update)
      also have "\<dots> = sects (set_fat f i v s) k" by (simp add: set_fat_def i m)
      finally show ?thesis using True by (simp add: m_def)
    next
      case False
      then have "k \<noteq> b0 + q div 128" using q by auto
      then show ?thesis unfolding if_not_P [OF False] by (simp add: set_fat_def i)
    qed
  qed
qed

text \<open>The first free entry is taken, and with no free entry nothing changes but \<open>_BLK_\<close>.\<close>

lemma set_fat_tab: "(set_fat f b v (s\<lparr>blk_tab := t\<rparr>))\<lparr>blk_tab := t'\<rparr> = (set_fat f b v s)\<lparr>blk_tab := t'\<rparr>" "s\<lparr>blk_tab := t, blk_tab := t'\<rparr> = s\<lparr>blk_tab := t'\<rparr>"
  by (simp_all add: set_fat_def)

lemma search_loop_ok:
  assumes g: "cfs_geom f"
  shows "disk_ok s \<Longrightarrow> tab_holds f s i \<Longrightarrow> start = of_nat (base f + 4 * (i div 512)) \<Longrightarrow> i \<le> b \<Longrightarrow> b \<le> nblk f \<Longrightarrow>
    (\<forall>j. i \<le> j \<and> j < b \<longrightarrow> fat f s j \<noteq> 0) \<Longrightarrow> (b < nblk f \<Longrightarrow> fat f s b = 0) \<Longrightarrow>
    \<exists>t. length t = 2048 \<and> search_blk_loop (nblk f) start i s =
      (if b < nblk f then Some (of_nat b, (set_fat f b (- 1) s)\<lparr>blk_tab := t\<rparr>) else Some (- 1, s\<lparr>blk_tab := t\<rparr>))"
proof (induction "b - i" arbitrary: i start s)
  case 0
  then have i: "i = b" by simp
  show ?case
  proof (cases "b < nblk f")
    case True
    have z: "blk_get (blk_tab s) (b mod 512) = 0" using tab_get [OF 0(2,3)] 0(8) True i by simp
    have w: "(\<lambda>k. if base f + 4 * (b div 512) \<le> k \<and> k < base f + 4 * (b div 512) + 4
      then take 512 (drop ((k - (base f + 4 * (b div 512))) * 512) (blk_put (b mod 512) (- 1) (blk_tab s))) else sects s k) = sects (set_fat f b (- 1) s)"
      and t: "length (blk_put (b mod 512) (- 1) (blk_tab s)) = 2048"
      using table_write [OF 0(2) 0(3) [unfolded i]] by auto
    have st: "unat (ucast start :: u64) = base f + 4 * (b div 512)" using table_start [OF g True] 0(4) i by simp
    have "disk_ok (s\<lparr>blk_tab := blk_put (b mod 512) (- 1) (blk_tab s)\<rparr>)" using 0(2) t by (simp add: disk_ok_tab)
    then have "write_sector_u 4 (ucast start) (blk_put (b mod 512) (- 1) (blk_tab s)) (s\<lparr>blk_tab := blk_put (b mod 512) (- 1) (blk_tab s)\<rparr>) =
      Some (0, (set_fat f b (- 1) s)\<lparr>blk_tab := blk_put (b mod 512) (- 1) (blk_tab s)\<rparr>)"
      using t w by (subst write_ok) (simp_all add: st set_fat_def cong: if_cong)
    then show ?thesis using t z True i by (subst search_blk_loop.simps) (auto simp: Let_def)
  next
    case False
    then show ?thesis using i 0 by (subst search_blk_loop.simps) (auto simp: disk_ok_def intro!: exI [of _ "blk_tab s"])
  qed
next
  case (Suc d)
  then have ib: "i < b" "i < nblk f" by simp_all
  have nz: "blk_get (blk_tab s) (i mod 512) \<noteq> 0" using tab_get [OF Suc.prems(1,2)] Suc.prems(6) ib by simp
  show ?case
  proof (cases "i mod 512 = 511")
    case True
    then have d: "(i + 1) div 512 = i div 512 + 1" by (simp add: div_Suc mod_Suc dvd_eq_mod_eq_0)
    have start: "start + 4 = of_nat (base f + 4 * ((i + 1) div 512))" unfolding d Suc.prems(3) by simp
    have "base f + 4 * ((i + 1) div 512) < 2 ^ 32" using table_bound [OF g ib(2)] unfolding d by simp
    then have st: "unat (ucast (start + 4) :: u64) = base f + 4 * ((i + 1) div 512)" unfolding start by (rule sector_word)
    define t where "t = concat (map (sects s) [base f + 4 * ((i + 1) div 512)..<base f + 4 * ((i + 1) div 512) + 4])"
    have l: "length t = 2048" using Suc.prems(1) unfolding t_def by (subst concat_length [where n = 512]) (auto simp: disk_ok_def)
    have rd: "read_sector_u 4 (ucast (start + 4)) (blk_tab s) s = Some (0, t)"
      using Suc.prems(1) l by (subst read_ok) (auto simp: st t_def disk_ok_def)
    have "\<exists>t'. length t' = 2048 \<and> search_blk_loop (nblk f) (start + 4) (i + 1) (s\<lparr>blk_tab := t\<rparr>) =
      (if b < nblk f then Some (of_nat b, (set_fat f b (- 1) (s\<lparr>blk_tab := t\<rparr>))\<lparr>blk_tab := t'\<rparr>) else Some (- 1, (s\<lparr>blk_tab := t\<rparr>)\<lparr>blk_tab := t'\<rparr>))"
    proof (rule Suc.hyps(1) [OF _ _ _ start])
      show "tab_holds f (s\<lparr>blk_tab := t\<rparr>) (i + 1)" by (simp add: tab_holds_def t_def)
    qed (use Suc.prems Suc.hyps(2) ib l in \<open>auto simp: disk_simps\<close>)
    moreover have "search_blk_loop (nblk f) start i s = search_blk_loop (nblk f) (start + 4) (i + 1) (s\<lparr>blk_tab := t\<rparr>)"
      using nz True ib rd by (subst search_blk_loop.simps) (simp add: Let_def)
    ultimately show ?thesis by (simp only: set_fat_tab)
  next
    case False
    then have d: "(i + 1) div 512 = i div 512" by (simp add: div_Suc mod_Suc dvd_eq_mod_eq_0)
    have "\<exists>t'. length t' = 2048 \<and> search_blk_loop (nblk f) start (i + 1) s =
      (if b < nblk f then Some (of_nat b, (set_fat f b (- 1) s)\<lparr>blk_tab := t'\<rparr>) else Some (- 1, s\<lparr>blk_tab := t'\<rparr>))"
      using Suc.prems Suc.hyps(2) ib by (intro Suc.hyps(1)) (auto simp: tab_holds_def d [simplified])
    then show ?thesis using nz False ib by (subst search_blk_loop.simps) (simp add: Let_def)
  qed
qed

lemma search_blk_ok:
  assumes g: "cfs_geom f" and ok: "disk_ok s" and b: "b \<le> nblk f" "\<forall>j < b. fat f s j \<noteq> 0" "b < nblk f \<Longrightarrow> fat f s b = 0"
  shows "\<exists>t. length t = 2048 \<and> search_blk_null f s =
    (if b < nblk f then Some (of_nat b, (set_fat f b (- 1) s)\<lparr>blk_tab := t\<rparr>) else Some (- 1, s\<lparr>blk_tab := t\<rparr>))"
proof -
  define t where "t = concat (map (sects s) [base f..<base f + 4])"
  have l: "length t = 2048" using ok unfolding t_def by (subst concat_length [where n = 512]) (auto simp: disk_ok_def)
  have d: "data_sector f = of_nat (base f)" "base f < 2 ^ 32" using g by (simp_all add: base_def cfs_geom_def)
  then have rd: "read_sector_u 4 (ucast (data_sector f)) (blk_tab s) s = Some (0, t)"
    using ok l by (subst read_ok) (auto simp: sector_word t_def disk_ok_def)
  obtain t' where t': "length t' = 2048" "search_blk_loop (nblk f) (data_sector f) 0 (s\<lparr>blk_tab := t\<rparr>) =
    (if b < nblk f then Some (of_nat b, (set_fat f b (- 1) (s\<lparr>blk_tab := t\<rparr>))\<lparr>blk_tab := t'\<rparr>) else Some (- 1, (s\<lparr>blk_tab := t\<rparr>)\<lparr>blk_tab := t'\<rparr>))"
    using search_loop_ok [OF g, of "s\<lparr>blk_tab := t\<rparr>" 0 "data_sector f" b] b ok l d by (auto simp: disk_simps tab_holds_def t_def)
  have "search_blk_null f s = search_blk_loop (nblk f) (data_sector f) 0 (s\<lparr>blk_tab := t\<rparr>)" using rd by (simp add: search_blk_null_def nblk_def)
  then show ?thesis using t' by (intro exI [of _ t']) (simp add: set_fat_def)
qed

end
