(* ===== verification/Uchain.thy ===== *)
theory Uchain
  imports Ufat
begin

text \<open>
  Chains of blocks: releasing one clears exactly its entries, and opening a file finds exactly its blocks.
\<close>

fun fchain :: "(nat \<Rightarrow> u32) \<Rightarrow> nat list \<Rightarrow> bool" where
  "fchain ft [] \<longleftrightarrow> False"
| "fchain ft [b] \<longleftrightarrow> ft b = - 1"
| "fchain ft (b # c # cs) \<longleftrightarrow> ft b = of_nat c \<and> fchain ft (c # cs)"

lemma fchain_cong: "(\<And>b. b \<in> set C \<Longrightarrow> ft b = ft' b) \<Longrightarrow> fchain ft C \<longleftrightarrow> fchain ft' C"
  by (induction ft C rule: fchain.induct) auto

lemma fchain_ne: "fchain ft C \<Longrightarrow> C \<noteq> []"
  by (cases C) auto

lemma u32_nat: "n < 2 ^ 32 \<Longrightarrow> unat (of_nat n :: u32) = n"
  by (simp add: unat_of_nat_small)

lemma fat_sector_ok:
  assumes "cfs_geom f" and "b < nblk f"
  shows "fat_sector f (of_nat b) = Some (of_nat (base f + b div 128))" and "fat_slot f (of_nat b) = Some (b mod 128)"
    and "(of_nat b :: u32) \<noteq> - 1" and "(of_nat (base f + b div 128) :: u32) \<noteq> - 1" and "base f + b div 128 < 2 ^ 32"
    and "of_nat b * sb_sector_per_blk f + data_sector f = of_nat (base f + 16 * b)"
proof -
  have n: "base f + 16 * nblk f + 16 < 2 ^ 32" "sb_byte_per_sector f = 512" "sb_sector_per_blk f = 16" using assms(1) by (simp_all add: cfs_geom_def)
  have bd: "b div 128 \<le> b" by simp
  have s: "base f + b div 128 < 2 ^ 32 - 1" "b < 2 ^ 32 - 1" "4 * b < 2 ^ 32" using n(1) assms(2) bd by linarith+
  have d: "data_sector f = of_nat (base f)" by (simp add: base_def)
  have m: "(of_nat b * 4 :: u32) = of_nat (4 * b)" by simp
  have "unat ((of_nat (4 * b) :: u32) div 512) = unat (of_nat (4 * b) :: u32) div 512" by (simp add: unat_div_distrib del: of_nat_mult)
  also have "\<dots> = b div 128" using div_mult2_eq [of "4 * b" 4 128] by (simp only: u32_nat [OF s(3)]) simp?
  finally have "of_nat (unat ((of_nat (4 * b) :: u32) div 512)) = (of_nat (b div 128) :: u32)" by (simp only:)
  then have q: "(of_nat (4 * b) :: u32) div 512 = of_nat (b div 128)" by (simp only: of_nat_unat ucast_id)
  show "fat_sector f (of_nat b) = Some (of_nat (base f + b div 128))" by (simp add: fat_sector_def n(2) m q d del: of_nat_mult)
  have "unat ((of_nat b :: u32) mod 128) = unat (of_nat b :: u32) mod 128" by (simp add: unat_mod_distrib)
  then have "unat ((of_nat b :: u32) mod 128) = b mod 128" using s(2) by (simp add: unat_of_nat_small)
  then show "fat_slot f (of_nat b) = Some (b mod 128)" by (simp add: fat_slot_def n(2) Let_def)
  have M: "x < 2 ^ 32 - 1 \<Longrightarrow> (of_nat x :: u32) \<noteq> - 1" for x
  proof
    assume x: "x < 2 ^ 32 - 1" and "(of_nat x :: u32) = - 1"
    then have "unat (of_nat x :: u32) = unat (- 1 :: u32)" by simp
    moreover have "unat (- 1 :: u32) = 4294967295" by (simp add: unsigned_minus_1_eq_mask mask_eq_exp_minus_1)
    ultimately show False using x by (simp add: unat_of_nat_small)
  qed
  show "(of_nat b :: u32) \<noteq> - 1" "(of_nat (base f + b div 128) :: u32) \<noteq> - 1" "base f + b div 128 < 2 ^ 32" using M [OF s(2)] M [OF s(1)] s(1) by auto
  show "of_nat b * sb_sector_per_blk f + data_sector f = of_nat (base f + 16 * b)" by (simp add: n(3) d mult.commute)
qed

section \<open>Releasing a fchain\<close>

text \<open>The disk once the sector in the buffer is written back.\<close>

definition flushed :: "bool \<Rightarrow> u32 \<Rightarrow> u8 list \<Rightarrow> user_state \<Rightarrow> user_state" where
  "flushed w wstart buf s = (if w then s\<lparr>sects := (sects s)(unat wstart := take 512 buf)\<rparr> else s)"

lemma take_blk_put: "4 * k + 4 \<le> 512 \<Longrightarrow> 512 \<le> length b \<Longrightarrow> take 512 (blk_put k v b) = blk_put k v (take 512 b)"
  by (simp add: blk_put_def min_def drop_take)

lemma flushed_put:
  assumes "wstart = of_nat (base f + c div 128)" "base f + c div 128 < 2 ^ 32" "512 \<le> length buf"
  shows "flushed True wstart (blk_put (c mod 128) v buf) s = set_fat f c v (flushed True wstart buf s)"
    and "blk_get buf (c mod 128) = fat f (flushed True wstart buf s) c"
  using assms(3) slot_bound [of c] unfolding flushed_def set_fat_def fat_def assms(1) by (simp_all only: u32_nat [OF assms(2)] if_True) (simp_all add: take_blk_put blk_get_take)

lemma word_addr: "unat (ucast (w :: u32) :: u64) = unat w"
  by (rule unat_ucast_small) (use unat_u32 [of w] in simp)

lemma remove_loop_ok:
  assumes g: "cfs_geom f"
  shows "disk_ok s \<Longrightarrow> length buf = 8192 \<Longrightarrow> fchain (fat f (flushed w wst buf s)) C \<Longrightarrow> distinct C \<Longrightarrow> \<forall>c \<in> set C. c < nblk f \<Longrightarrow>
    (w \<Longrightarrow> flg = wst) \<Longrightarrow> (\<not> w \<Longrightarrow> flg = - 1) \<Longrightarrow>
    remove_blk_loop f (of_nat (hd C)) flg wst w buf s = Some (0, fold (\<lambda>b. set_fat f b 0) C (flushed w wst buf s))"
proof (induction C arbitrary: s buf w wst flg)
  case (Cons c C)
  let ?vs = "flushed w wst buf s"
  define start where "start = (of_nat (base f + c div 128) :: u32)"
  have c: "c < nblk f" using Cons.prems(5) by simp
  note fs = fat_sector_ok [OF g c, folded start_def]
  have us: "unat start = base f + c div 128" unfolding start_def using u32_nat [OF fs(5)] .
  have ok: "disk_ok ?vs" using Cons.prems(1,2) by (auto simp: flushed_def disk_ok_def)
  have "\<exists>buf1 s1. (if start \<noteq> flg then do {
        (r, s) \<leftarrow> (if w then write_sector_u 1 (ucast wst) buf s else Some (0, s));
        if r \<noteq> 0 then Some (Inl s)
        else do { (r, BLK) \<leftarrow> read_sector_u 1 (ucast start) buf s; if r \<noteq> 0 then Some (Inl s) else Some (Inr (BLK, start, s)) } }
      else Some (Inr (buf, wst, s))) = Some (Inr (buf1, start, s1)) \<and> flushed True start buf1 s1 = ?vs \<and> disk_ok s1 \<and> length buf1 = 8192"
  proof (cases "start = flg")
    case True
    then have "w" "flg = wst" using Cons.prems(6,7) fs(4) by (auto simp: start_def)
    then show ?thesis using True Cons.prems(1,2) by (auto simp: flushed_def)
  next
    case False
    have w: "(if w then write_sector_u 1 (ucast wst) buf s else Some (0, s)) = Some (0, ?vs)"
      using Cons.prems(1,2) by (simp add: write_one flushed_def word_addr)
    have r: "read_sector_u 1 (ucast start) buf ?vs = Some (0, sects ?vs (unat start) @ drop 512 buf)"
      using ok Cons.prems(2) by (simp add: read_one word_addr)
    have l: "length (sects ?vs (unat start)) = 512" using ok by (simp add: disk_ok_def)
    have "flushed True start (sects ?vs (unat start) @ drop 512 buf) ?vs = ?vs" using l by (simp add: flushed_def [of True])
    then show ?thesis using False w r l ok Cons.prems(2) by auto
  qed
  then obtain buf1 s1 where x: "(if start \<noteq> flg then do {
        (r, s) \<leftarrow> (if w then write_sector_u 1 (ucast wst) buf s else Some (0, s));
        if r \<noteq> 0 then Some (Inl s)
        else do { (r, BLK) \<leftarrow> read_sector_u 1 (ucast start) buf s; if r \<noteq> 0 then Some (Inl s) else Some (Inr (BLK, start, s)) } }
      else Some (Inr (buf, wst, s))) = Some (Inr (buf1, start, s1))" and v: "flushed True start buf1 s1 = ?vs" and ok1: "disk_ok s1" and l1: "length buf1 = 8192" by blast
  define buf2 where "buf2 = blk_put (c mod 128) 0 buf1"
  have l2: "length buf2 = 8192" using l1 slot_bound [of c] by (simp add: buf2_def)
  have get: "blk_get buf1 (c mod 128) = fat f ?vs c" using flushed_put(2) [OF start_def fs(5), of buf1 s1] l1 v by simp
  have put: "flushed True start buf2 s1 = set_fat f c 0 ?vs" unfolding buf2_def using flushed_put(1) [OF start_def fs(5), of buf1 0 s1] l1 v by simp
  have wt: "(w \<or> start \<noteq> flg) = True" using Cons.prems(6,7) fs(4) by (auto simp: start_def)
  have step: "remove_blk_loop f (of_nat c) flg wst w buf s =
    (if fat f ?vs c = - 1 then write_sector_u 1 (ucast start) buf2 s1 else remove_blk_loop f (fat f ?vs c) start start True buf2 s1)"
    unfolding remove_blk_loop.simps [of f "of_nat c"] fs(1) bind.bind_lunit x sum.case prod.case fs(2) Let_def get buf2_def [symmetric] wt
    by (simp add: bind_def split: option.split)
  show ?case
  proof (cases C)
    case Nil
    then have "fat f ?vs c = - 1" using Cons.prems(3) by simp
    moreover have "write_sector_u 1 (ucast start) buf2 s1 = Some (0, flushed True start buf2 s1)"
      using ok1 l2 by (simp add: write_one flushed_def word_addr)
    ultimately show ?thesis using Nil step put by simp
  next
    case (Cons c2 C2)
    have ch: "fat f ?vs c = of_nat c2" "fchain (fat f ?vs) C" using Cons.prems(3) Cons by simp_all
    have c2: "c2 < nblk f" using Cons.prems(5) Cons by simp
    have "fchain (fat f (flushed True start buf2 s1)) C"
      unfolding put using ch(2) Cons.prems(4) by (subst fchain_cong [where ft' = "fat f ?vs"]) (auto simp: fat_set_fat [OF ok])
    then have "remove_blk_loop f (of_nat (hd C)) start start True buf2 s1 = Some (0, fold (\<lambda>b. set_fat f b 0) C (flushed True start buf2 s1))"
      using Cons.prems(4,5) ok1 l2 by (intro Cons.IH) auto
    then show ?thesis using step ch(1) fat_sector_ok(3) [OF g c2] Cons put by simp
  qed
qed simp

lemma remove_blk_ok:
  "cfs_geom f \<Longrightarrow> disk_ok s \<Longrightarrow> length mem0 = 8192 \<Longrightarrow> fchain (fat f s) C \<Longrightarrow> distinct C \<Longrightarrow> \<forall>c \<in> set C. c < nblk f \<Longrightarrow>
   remove_blk (of_nat (hd C)) f mem0 s = Some (0, fold (\<lambda>b. set_fat f b 0) C s)"
  using remove_loop_ok [of f s mem0 False "of_nat (base f + hd C div 128)" C "- 1"] fat_sector_ok(1) [of f "hd C"]
  by (cases C) (simp_all add: remove_blk_def flushed_def)

section \<open>The blocks of a file\<close>

lemma fat_chain_ok:
  assumes g: "cfs_geom f" and ok: "disk_ok s"
  shows "fchain (fat f s) C \<Longrightarrow> \<forall>c \<in> set C. c < nblk f \<Longrightarrow> n + length C \<le> 1024 * 1024 \<Longrightarrow> length buf = 8192 \<Longrightarrow>
    (flg \<noteq> - 1 \<Longrightarrow> take 512 buf = sects s (unat flg)) \<Longrightarrow>
    fat_chain f n (of_nat (hd C)) flg buf acc s = Some (Some (acc @ map (\<lambda>b. of_nat (base f + 16 * b)) C))"
proof (induction C arbitrary: n flg buf acc)
  case (Cons c C)
  define start where "start = (of_nat (base f + c div 128) :: u32)"
  have c: "c < nblk f" using Cons.prems(2) by simp
  note fs = fat_sector_ok [OF g c, folded start_def]
  have us: "unat start = base f + c div 128" unfolding start_def using u32_nat [OF fs(5)] .
  have sl: "length (sects s k) = 512" for k using ok by (simp add: disk_ok_def)
  obtain buf1 where b: "(if flg \<noteq> start then read_sector_u 1 (ucast start) buf s else Some (0, buf)) = Some (0, buf1)" "length buf1 = 8192" "take 512 buf1 = sects s (unat start)"
  proof (cases "flg = start")
    case True then show ?thesis using that Cons.prems(4,5) fs(4) by (auto simp: start_def)
  next
    case False
    then show ?thesis using that Cons.prems(4) ok sl by (simp add: read_one word_addr)
  qed
  have "blk_get buf1 (c mod 128) = blk_get (take 512 buf1) (c mod 128)" using b(2) slot_bound [of c] by (simp add: blk_get_take)
  then have get: "blk_get buf1 (c mod 128) = fat f s c" using b(3) by (simp add: fat_def us)
  have n: "n < 1024 * 1024" using Cons.prems(3) by simp
  have step: "fat_chain f n (of_nat c) flg buf acc s = (if fat f s c = - 1 then Some (Some (acc @ [of_nat (base f + 16 * c)]))
    else fat_chain f (n + 1) (fat f s c) start buf1 (acc @ [of_nat (base f + 16 * c)]) s)"
    unfolding fat_chain.simps [of f n] fs(1) fs(6) bind.bind_lunit b(1) prod.case fs(2) Let_def get if_P [OF n] by simp
  show ?case
  proof (cases C)
    case Nil then show ?thesis using step Cons.prems(1) by simp
  next
    case (Cons c2 C2)
    have c2: "c2 < nblk f" using Cons.prems(2) Cons by simp
    have "fat_chain f (n + 1) (of_nat (hd C)) start buf1 (acc @ [of_nat (base f + 16 * c)]) s = Some (Some ((acc @ [of_nat (base f + 16 * c)]) @ map (\<lambda>b. of_nat (base f + 16 * b)) C))"
      using Cons.prems Cons b by (intro Cons.IH) auto
    then show ?thesis using step Cons.prems(1) Cons fat_sector_ok(3) [OF g c2] by simp
  qed
qed simp

end
