(* ===== verification/Udir.thy ===== *)
theory Udir
  imports Uchain
begin

text \<open>
  Directories and the whole file system: \<open>fs_inv f s Cs\<close> says that the chains \<open>Cs\<close> share no block and use exactly the
  blocks that the allocation table has in use.  Creating a file adds a chain of one free block, removing one gives
  its chain back, and both change one entry of one directory.
\<close>

section \<open>Names and entries\<close>

lemma same_bytes_0: "same_bytes n a b = 0 \<or> same_bytes n a b = 1"
  by (induction n a b rule: same_bytes.induct) auto

lemma same_bytes_eq: "length a \<ge> n \<Longrightarrow> length b \<ge> n \<Longrightarrow> same_bytes n a b = 0 \<longleftrightarrow> take n a = take n b"
proof (induction n a b rule: same_bytes.induct)
  case (2 n a b)
  then obtain x a' y b' where "a = x # a'" "b = y # b'" by (cases a; cases b) auto
  then show ?case using 2 by simp
qed simp

lemma pad_name_length [simp]: "length (pad_name n us) = n"
  by (induction n us rule: pad_name.induct) auto

lemma pad_name_short: "length us \<le> n \<Longrightarrow> pad_name n us = us @ replicate (n - length us) 32"
  by (induction n us rule: pad_name.induct) auto

lemma filename_cmp_eq: "length a = 96 \<Longrightarrow> filename_cmp a b = 0 \<longleftrightarrow> a = pad_name 96 b"
  by (simp add: filename_cmp_def same_bytes_eq)

lemma le_bytes: "get16 (\<lambda>i. (a @ le16 w @ b) ! i) (length a) = w" "get32 (\<lambda>i. (a @ le32 v @ b) ! i) (length a) = v"
  by (rule le_get16; simp add: nth_append) (rule le_get32; simp add: nth_append)

definition dirent_ok :: "directory_entry \<Rightarrow> bool" where
  "dirent_ok d \<longleftrightarrow> length (de_file_name d) = 96 \<and> length (de_rsv2 d) = 9"

lemma dirent_bytes_length [simp]: "dirent_ok d \<Longrightarrow> length (dirent_bytes d) = 128"
  by (simp add: dirent_bytes_def dirent_ok_def)

lemma dirent_of_bytes:
  assumes "dirent_ok d"
  shows "dirent_of (dirent_bytes d) = d"
proof -
  define n where "n = de_file_name d"
  have n: "length n = 96" and r2: "length (de_rsv2 d) = 9" using assms by (simp_all add: dirent_ok_def n_def)
  define b where "b = dirent_bytes d"
  have b: "b = n @ [de_rsv d, de_busy d, de_attr d] @ le16 (de_time d) @ le16 (de_time2 d) @ le16 (de_date d) @ le16 (de_date2 d) @
     le32 (de_first_blk d) @ le32 (de_file_size d) @ le32 (de_dir_entry d) @ de_rsv2 d"
    by (simp add: b_def dirent_bytes_def n_def)
  have h: "get16 (\<lambda>i. b ! i) k = w" if "b = x @ le16 w @ y" "length x = k" for k w x y using le_bytes(1) [of x w y] that by simp
  have w: "get32 (\<lambda>i. b ! i) k = v" if "b = x @ le32 v @ y" "length x = k" for k v x y using le_bytes(2) [of x v y] that by simp
  let ?p = "n @ [de_rsv d, de_busy d, de_attr d]"
  have 1: "get16 (\<lambda>i. b ! i) 99 = de_time d" by (rule h [of ?p]) (simp_all add: b n)
  have 2: "get16 (\<lambda>i. b ! i) 101 = de_time2 d" by (rule h [of "?p @ le16 (de_time d)"]) (simp_all add: b n)
  have 3: "get16 (\<lambda>i. b ! i) 103 = de_date d" by (rule h [of "?p @ le16 (de_time d) @ le16 (de_time2 d)"]) (simp_all add: b n)
  have 4: "get16 (\<lambda>i. b ! i) 105 = de_date2 d" by (rule h [of "?p @ le16 (de_time d) @ le16 (de_time2 d) @ le16 (de_date d)"]) (simp_all add: b n)
  let ?q = "?p @ le16 (de_time d) @ le16 (de_time2 d) @ le16 (de_date d) @ le16 (de_date2 d)"
  have 5: "get32 (\<lambda>i. b ! i) 107 = de_first_blk d" by (rule w [of ?q]) (simp_all add: b n)
  have 6: "get32 (\<lambda>i. b ! i) 111 = de_file_size d" by (rule w [of "?q @ le32 (de_first_blk d)"]) (simp_all add: b n)
  have 7: "get32 (\<lambda>i. b ! i) 115 = de_dir_entry d" by (rule w [of "?q @ le32 (de_first_blk d) @ le32 (de_file_size d)"]) (simp_all add: b n)
  have 8: "take 96 b = n" "b ! 96 = de_rsv d" "b ! 97 = de_busy d" "b ! 98 = de_attr d" "take 9 (drop 119 b) = de_rsv2 d"
    using n r2 by (simp_all add: b nth_append)
  show ?thesis unfolding b_def [symmetric] dirent_of_def Let_def 1 2 3 4 5 6 7 8 by (simp add: n_def)
qed

definition set_dirent :: "nat \<Rightarrow> directory_entry \<Rightarrow> u8 list \<Rightarrow> u8 list" where
  "set_dirent i d root = take (i * 128) root @ dirent_bytes d @ drop (i * 128 + 128) root"

lemma patch_dirent: "dirent_ok d \<Longrightarrow> i < 64 \<Longrightarrow> length root = 8192 \<Longrightarrow> patch (i * 128) (dirent_bytes d) root = Some (set_dirent i d root)"
  by (simp add: patch_def set_dirent_def)

lemma set_dirent_length [simp]: "dirent_ok d \<Longrightarrow> i < 64 \<Longrightarrow> length root = 8192 \<Longrightarrow> length (set_dirent i d root) = 8192"
  by (simp add: set_dirent_def)

lemma dirent_set_dirent:
  assumes "dirent_ok d" "i < 64" "j < 64" "length root = 8192"
  shows "dirent j (set_dirent i d root) = (if j = i then d else dirent j root)"
proof -
  have "take 128 (drop (j * 128) (set_dirent i d root)) = (if j = i then dirent_bytes d else take 128 (drop (j * 128) root))"
  proof (cases "j < i")
    case True
    then have "128 \<le> i * 128 - j * 128" by linarith
    then show ?thesis using True assms by (simp add: set_dirent_def drop_take min_def)
  next
    case False
    show ?thesis
    proof (cases "j = i")
      case True then show ?thesis using assms by (simp add: set_dirent_def)
    next
      case ne: False
      then have "(i + 1) * 128 \<le> j * 128" using False by simp
      moreover have "length (take (i * 128) root @ dirent_bytes d) = (i + 1) * 128" using assms by simp
      ultimately show ?thesis using ne assms by (simp add: set_dirent_def)
    qed
  qed
  then show ?thesis by (simp add: dirent_def dirent_of_bytes [OF assms(1)])
qed

lemma dirent_name_length: "length root = 8192 \<Longrightarrow> i < 64 \<Longrightarrow> length (de_file_name (dirent i root)) = 96"
  by (simp add: dirent_def dirent_of_def Let_def)

section \<open>Searching a directory\<close>

definition matches :: "(directory_entry \<Rightarrow> bool) \<Rightarrow> u8 list \<Rightarrow> u8 list \<Rightarrow> nat \<Rightarrow> bool" where
  "matches only root name i \<longleftrightarrow> only (dirent i root) \<and> de_file_name (dirent i root) = pad_name 96 name"

lemma find_dirent_found:
  assumes "length root = 8192" "i < 64" "matches only root name i" "\<forall>j. k \<le> j \<and> j < i \<longrightarrow> \<not> matches only root name j" "k \<le> i"
  shows "find_dirent only root name k r = (0, i)"
  using assms(5,4)
proof (induction "i - k" arbitrary: k r)
  case 0
  then have "k = i" by simp
  then show ?case using assms(1-3) by (subst find_dirent.simps) (simp add: matches_def filename_cmp_eq dirent_name_length Let_def)
next
  case (Suc n)
  then have k: "k < 64" "\<not> matches only root name k" "k < i" using assms(2) by auto
  then have "(if only (dirent k root) then filename_cmp (de_file_name (dirent k root)) name else - 1) \<noteq> 0"
    using assms(1) by (simp add: matches_def filename_cmp_eq dirent_name_length)
  then show ?case using k Suc.hyps(1) [of "k + 1"] Suc.hyps(2) Suc.prems by (subst find_dirent.simps) (simp add: Let_def)
qed

lemma find_dirent_none:
  assumes "length root = 8192" "\<forall>j. k \<le> j \<and> j < 64 \<longrightarrow> \<not> matches only root name j" "k \<le> 64" "k = 64 \<Longrightarrow> r \<noteq> 0"
  shows "fst (find_dirent only root name k r) \<noteq> 0"
  using assms(2-4)
proof (induction "64 - k" arbitrary: k r)
  case 0
  then show ?case by (subst find_dirent.simps) simp
next
  case (Suc n)
  then have k: "k < 64" "\<not> matches only root name k" by auto
  define r' where "r' = (if only (dirent k root) then filename_cmp (de_file_name (dirent k root)) name else - 1)"
  have r': "r' \<noteq> 0" using assms(1) k by (simp add: r'_def matches_def filename_cmp_eq dirent_name_length)
  have "fst (find_dirent only root name (k + 1) r') \<noteq> 0" using Suc.hyps(1) [of "k + 1" r'] Suc.hyps(2) Suc.prems(1) r' k(1) by simp
  moreover have "find_dirent only root name k r = find_dirent only root name (k + 1) r'"
    using k(1) r' by (subst find_dirent.simps) (simp only: Let_def r'_def [symmetric] if_True if_False)
  ultimately show ?case by simp
qed

lemma free_dirent_le: "k \<le> 64 \<Longrightarrow> free_dirent root k \<le> 64"
  by (induction root k rule: free_dirent.induct) (subst free_dirent.simps, simp)

lemma free_dirent_free: "free_dirent root k < 64 \<Longrightarrow> de_busy (dirent (free_dirent root k) root) = 0"
proof (induction root k rule: free_dirent.induct)
  case (1 root i)
  then show ?case by (subst (asm) (2) free_dirent.simps, subst free_dirent.simps) (auto split: if_splits)
qed

section \<open>The invariant\<close>

definition fs_inv :: "super_block \<Rightarrow> user_state \<Rightarrow> nat list list \<Rightarrow> bool" where
  "fs_inv f s Cs \<longleftrightarrow> disk_ok s \<and> (\<forall>C \<in> set Cs. fchain (fat f s) C) \<and> distinct (concat Cs) \<and>
     (\<forall>b < nblk f. fat f s b \<noteq> 0 \<longleftrightarrow> b < table_blks f \<or> b \<in> set (concat Cs)) \<and>
     (\<forall>b \<in> set (concat Cs). table_blks f \<le> b \<and> b < nblk f)"

lemma fs_inv_tab: "fs_inv f s Cs \<Longrightarrow> length t = 2048 \<Longrightarrow> fs_inv f (s\<lparr>blk_tab := t\<rparr>) Cs"
  by (simp add: fs_inv_def disk_simps)

lemma fs_inv_put: "fs_inv f s Cs \<Longrightarrow> table_blks f \<le> d \<Longrightarrow> length bs = 8192 \<Longrightarrow> fs_inv f (put_block f d bs s) Cs"
proof -
  assume i: "fs_inv f s Cs" and d: "table_blks f \<le> d" and l: "length bs = 8192"
  have "fchain (fat f (put_block f d bs s)) C" if C: "C \<in> set Cs" for C
  proof -
    have "\<forall>b \<in> set C. b < nblk f" using i C unfolding fs_inv_def by auto
    then show ?thesis using i C d by (subst fchain_cong [where ft' = "fat f s"]) (auto simp: fs_inv_def disk_simps)
  qed
  then show ?thesis using i d l by (simp add: fs_inv_def disk_simps)
qed

lemma fs_inv_alloc:
  assumes i: "fs_inv f s Cs" and b: "b < nblk f" "fat f s b = 0"
  shows "fs_inv f (set_fat f b (- 1) s) ([b] # Cs)"
proof -
  have ok: "disk_ok s" and n: "b \<notin> set (concat Cs)" "table_blks f \<le> b" using i b unfolding fs_inv_def by (simp, metis, metis not_le)
  have "fchain (fat f (set_fat f b (- 1) s)) C" if C: "C \<in> set Cs" for C
  proof -
    have "b \<notin> set C" using n(1) C by auto
    then show ?thesis using i C ok by (subst fchain_cong [where ft' = "fat f s"]) (auto simp: fs_inv_def disk_simps)
  qed
  then show ?thesis using i b n ok by (auto simp: fs_inv_def disk_simps)
qed

lemma fold_set_fat:
  "disk_ok s \<Longrightarrow> disk_ok (fold (\<lambda>b. set_fat f b v) C s) \<and> fat f (fold (\<lambda>b. set_fat f b v) C s) = (\<lambda>c. if c \<in> set C then v else fat f s c)"
  by (induction C arbitrary: s) (auto simp: disk_simps fun_eq_iff)

lemma fold_set_fat_other:
  "\<forall>b \<in> set C. b < nblk f \<Longrightarrow> table_blks f \<le> d \<Longrightarrow> block_bytes f (fold (\<lambda>b. set_fat f b v) C s) d = block_bytes f s d"
  "2 \<le> base f \<Longrightarrow> super_at (fold (\<lambda>b. set_fat f b v) C s) = super_at s"
  by (induction C arbitrary: s) (auto simp: disk_simps)

lemma fs_inv_free:
  assumes i: "fs_inv f s (C # Cs)"
  shows "fs_inv f (fold (\<lambda>b. set_fat f b 0) C s) Cs"
proof -
  have ok: "disk_ok s" using i by (simp add: fs_inv_def)
  note fold = fold_set_fat [OF ok, of f 0 C]
  have "fchain (fat f (fold (\<lambda>b. set_fat f b 0) C s)) D" if D: "D \<in> set Cs" for D
  proof -
    have "set C \<inter> set D = {}" using i D unfolding fs_inv_def by auto
    then show ?thesis using i D fold by (subst fchain_cong [where ft' = "fat f s"]) (auto simp: fs_inv_def)
  qed
  moreover have "set C \<inter> set (concat Cs) = {}" "\<forall>b \<in> set C. table_blks f \<le> b" using i unfolding fs_inv_def by auto
  ultimately show ?thesis using i fold unfolding fs_inv_def by (auto dest: leD)
qed

lemma fs_inv_move: "fs_inv f s (xs @ C # ys) \<longleftrightarrow> fs_inv f s (C # xs @ ys)"
  by (auto simp: fs_inv_def)

end
