(* ===== verification/Udisk.thy ===== *)
theory Udisk
  imports Udir
begin

text \<open>
  A small disk for the instances: four blocks behind two sectors, the table in block 0, the root directory in block 1, which
  is empty, and two free blocks.
\<close>

definition small_super :: "u8 list" where
  "small_super = replicate 8 0 @ replicate 12 0 @ le32 0 @ le32 2 @ le32 512 @ le32 16 @ le32 4 @ le32 1 @ le32 1 @ le32 66 @ replicate 460 0"

definition small_sects :: "nat \<Rightarrow> u8 list" where
  "small_sects k = (if k = 1 then small_super else if k = 2 then le32 (- 1) @ le32 (- 1) @ replicate 504 0 else replicate 512 0)"

definition small_disk :: user_state where
  "small_disk = \<lparr>sects = small_sects, broken = (\<lambda>_. False), blk_tab = replicate 2048 0, u_stdout = UFILE_zero, term_fg_color = 15, term_bg_color = 0,
     u_pwd = [67, 58]\<rparr>"

definition small_fs :: super_block where
  "small_fs = \<lparr>sb_sig = replicate 8 0, sb_name = replicate 12 0, sb_hidden = 0, sb_rsv = 2, sb_byte_per_sector = 512, sb_sector_per_blk = 16,
     sb_num_of_blk = 4, sb_size_of_fat = 1, sb_root_blk = 1, sb_num_of_sectors = 66\<rparr>"

lemma get_append: "k + 2 \<le> length a \<Longrightarrow> get16 (\<lambda>i. (a @ b) ! i) k = get16 (\<lambda>i. a ! i) k" "k + 4 \<le> length a \<Longrightarrow> get32 (\<lambda>i. (a @ b) ! i) k = get32 (\<lambda>i. a ! i) k"
  "length a \<le> k \<Longrightarrow> get16 (\<lambda>i. (a @ b) ! i) k = get16 (\<lambda>i. b ! i) (k - length a)" "length a \<le> k \<Longrightarrow> get32 (\<lambda>i. (a @ b) ! i) k = get32 (\<lambda>i. b ! i) (k - length a)"
  by (simp_all add: get16_def get32_def nth_append Suc_diff_le)

lemma get32_le32 [simp]: "get32 (\<lambda>i. (le32 v @ b) ! i) 0 = v"
  using le_bytes(2) [of "[]" v b] by simp

lemma small_super_at [simp]: "super_at small_disk = small_fs"
  by (simp add: super_at_def small_disk_def small_sects_def small_super_def super_block_of_def small_fs_def get_append Let_def)

lemma small_base [simp]: "base small_fs = 2" "nblk small_fs = 4" "table_blks small_fs = 1" "cfs_geom small_fs"
  by (simp_all add: base_def data_sector_def nblk_def table_blks_def cfs_geom_def small_fs_def)

lemma small_ok [simp]: "disk_ok small_disk"
  by (simp add: disk_ok_def small_disk_def small_sects_def small_super_def)

lemma small_fat: "b < 4 \<Longrightarrow> fat small_fs small_disk b = (if b < 2 then - 1 else 0)"
proof -
  have 1: "fat small_fs small_disk 0 = - 1" "fat small_fs small_disk 1 = - 1"
    by (simp_all add: fat_def small_disk_def small_sects_def blk_get_def get_append)
  have 2: "fat small_fs small_disk 2 = 0" "fat small_fs small_disk 3 = 0"
    by (simp_all add: fat_def small_disk_def small_sects_def blk_get_def get_append) (simp_all add: get32_def)
  assume "b < 4"
  then have "b = 0 \<or> b = 1 \<or> b = 2 \<or> b = 3" by linarith
  then show ?thesis using 1 2 by auto
qed

lemma concat_zeros: "concat (replicate n (replicate m x)) = replicate (n * m) x"
  by (induction n) (simp_all add: replicate_add)

lemma small_block [simp]: "1 \<le> d \<Longrightarrow> block_bytes small_fs small_disk d = replicate 8192 0"
proof -
  assume "1 \<le> d"
  then have "map (sects small_disk) [base small_fs + 16 * d..<base small_fs + 16 * d + 16] = replicate 16 (replicate 512 0)"
    by (intro nth_equalityI) (auto simp: small_disk_def small_sects_def)
  then show ?thesis unfolding block_bytes_def by (simp only: concat_zeros) simp
qed

lemma small_inv [simp]: "fs_inv small_fs small_disk [[1]]"
  by (auto simp: fs_inv_def small_fat)

lemma small_free [simp]: "free_dirent (replicate 8192 0) 0 = 0"
  by (subst free_dirent.simps) (simp add: dirent_def dirent_of_def Let_def)

end
