(* ===== verification/Ucreate.thy ===== *)
theory Ucreate
  imports Udisk
begin

text \<open>
  Creating and removing files, in terms of the disk, the entries of the directory and the chains in use.
\<close>

section \<open>Parts of an entry\<close>

definition entry_bytes :: "nat \<Rightarrow> u8 list \<Rightarrow> u8 list" where
  "entry_bytes i root = take 128 (drop (i * 128) root)"

lemma dirent_entry: "dirent i root = dirent_of (entry_bytes i root)"
  by (simp add: dirent_def entry_bytes_def)

lemma entry_length [simp]: "length root = 8192 \<Longrightarrow> i < 64 \<Longrightarrow> length (entry_bytes i root) = 128"
  by (simp add: entry_bytes_def)

lemma patch_entry:
  assumes "length root = 8192" "i < 64" "k + length bs \<le> 128"
  shows "\<exists>root'. patch (i * 128 + k) bs root = Some root' \<and> length root' = 8192 \<and>
    (\<forall>j < 64. entry_bytes j root' = (if j = i then take k (entry_bytes i root) @ bs @ drop (k + length bs) (entry_bytes i root) else entry_bytes j root))"
proof -
  define root' where "root' = take (i * 128 + k) root @ bs @ drop (i * 128 + k + length bs) root"
  have fit: "i * 128 + k + length bs \<le> 8192" using assms(2,3) by linarith
  have l: "length root' = 8192" using fit assms(1) by (simp add: root'_def)
  have n: "root' ! x = (if x < i * 128 + k then root ! x else if x < i * 128 + k + length bs then bs ! (x - (i * 128 + k)) else root ! x)" if "x < 8192" for x
    using that fit assms(1) by (auto simp: root'_def nth_append)
  have "entry_bytes j root' = (if j = i then take k (entry_bytes i root) @ bs @ drop (k + length bs) (entry_bytes i root) else entry_bytes j root)" if j: "j < 64" for j
  proof (cases "j = i")
    case True
    have "entry_bytes i root' = take k (entry_bytes i root) @ bs @ drop (k + length bs) (entry_bytes i root)"
    proof (rule nth_equalityI)
      show "length (entry_bytes i root') = length (take k (entry_bytes i root) @ bs @ drop (k + length bs) (entry_bytes i root))"
        using l assms by simp
      fix x assume "x < length (entry_bytes i root')"
      then have x: "x < 128" using l assms by simp
      have "entry_bytes i root' ! x = root' ! (i * 128 + x)" using x assms l by (simp add: entry_bytes_def)
      also have "\<dots> = (if x < k then root ! (i * 128 + x) else if x < k + length bs then bs ! (x - k) else root ! (i * 128 + x))"
        using x assms(2) by (subst n) auto
      also have "\<dots> = (take k (entry_bytes i root) @ bs @ drop (k + length bs) (entry_bytes i root)) ! x"
        using x assms by (auto simp: nth_append entry_bytes_def)
      finally show "entry_bytes i root' ! x = (take k (entry_bytes i root) @ bs @ drop (k + length bs) (entry_bytes i root)) ! x" .
    qed
    then show ?thesis using True by simp
  next
    case False
    then have "j + 1 \<le> i \<or> i + 1 \<le> j" by linarith
    then have d: "(j + 1) * 128 \<le> i * 128 \<or> (i + 1) * 128 \<le> j * 128" by (metis mult_le_mono1)
    have "entry_bytes j root' = entry_bytes j root"
    proof (rule nth_equalityI)
      show "length (entry_bytes j root') = length (entry_bytes j root)" using l assms j by simp
      fix x assume "x < length (entry_bytes j root')"
      then have x: "x < 128" using l j by simp
      then have "entry_bytes j root' ! x = root' ! (j * 128 + x)" using assms l j by (simp add: entry_bytes_def)
      also have "\<dots> = root ! (j * 128 + x)" using x j d assms(3) by (subst n) auto
      also have "\<dots> = entry_bytes j root ! x" using x assms j by (simp add: entry_bytes_def)
      finally show "entry_bytes j root' ! x = entry_bytes j root ! x" .
    qed
    then show ?thesis using False by simp
  qed
  then show ?thesis using fit assms(1) l by (auto simp: patch_def root'_def)
qed

lemma get_drop: "k + n \<le> length a \<Longrightarrow> get16 (\<lambda>i. (drop n a) ! i) k = get16 (\<lambda>i. a ! i) (n + k)" "n + k \<le> length a \<Longrightarrow> get32 (\<lambda>i. (drop n a) ! i) k = get32 (\<lambda>i. a ! i) (n + k)"
  by (simp_all add: get16_def get32_def nth_drop add.assoc)

lemma dirent_of_busy: "length e = 128 \<Longrightarrow> dirent_of (take 97 e @ [v] @ drop 98 e) = (dirent_of e)\<lparr>de_busy := v\<rparr>"
  by (simp add: dirent_of_def Let_def get16_def get32_def nth_append)

lemma dirent_of_update:
  assumes "length e = 128" "length n = 96" "e' = n @ [0] @ take 14 (drop 97 e) @ le32 v @ drop 115 e"
  shows "dirent_of e' = (dirent_of e)\<lparr>de_file_name := n, de_rsv := 0, de_file_size := v\<rparr>"
proof -
  have "get32 (\<lambda>i. e' ! i) 111 = v" using le_bytes(2) [of "n @ [0] @ take 14 (drop 97 e)" v "drop 115 e"] assms by simp
  moreover have "e' ! k = e ! k" if "97 \<le> k" "k < 111 \<or> 115 \<le> k" "k < 128" for k
    using that assms by (auto simp: nth_append)
  moreover have "take 96 e' = n" "e' ! 96 = 0" "take 9 (drop 119 e') = take 9 (drop 119 e)" using assms by (simp_all add: nth_append)
  ultimately show ?thesis by (simp add: dirent_of_def Let_def get16_def get32_def)
qed

section \<open>Creating\<close>

definition new_dirent :: "u8 list \<Rightarrow> u8 \<Rightarrow> nat \<Rightarrow> nat \<Rightarrow> directory_entry" where
  "new_dirent name attr i b = \<lparr>de_file_name = pad_name 96 name, de_rsv = 0, de_busy = - 1, de_attr = attr, de_time = 0, de_time2 = 0, de_date = 0, de_date2 = 0,
     de_first_blk = of_nat b, de_file_size = 0, de_dir_entry = of_nat i, de_rsv2 = replicate 9 0\<rparr>"

lemma new_dirent_ok [simp]: "dirent_ok (new_dirent name attr i b)"
  by (simp add: dirent_ok_def new_dirent_def)

definition file_name_ok :: "u8 list \<Rightarrow> bool" where
  "file_name_ok name \<longleftrightarrow> name \<noteq> [] \<and> length name \<le> 95 \<and> 0 \<notin> set name \<and> 47 \<notin> set name \<and> last name \<noteq> 32 \<and> (length name > 1 \<longrightarrow> name ! 1 \<noteq> 58)"

lemma pad_zeros_name: "0 \<notin> set name \<Longrightarrow> length name \<le> 96 \<Longrightarrow> pad_zeros (name @ replicate (96 - length name) 0 @ rest) = pad_name 96 name @ rest"
  by (auto simp: pad_zeros_def pad_name_short intro!: map_idI)

lemma new_name:
  assumes "0 \<notin> set name" "length name \<le> 95"
  shows "\<exists>d. patch 0 (name @ [0]) (replicate 128 0) = Some d \<and>
    dirent_of (pad_zeros d) = (new_dirent name 0 0 0)\<lparr>de_busy := 0\<rparr>"
proof -
  have "name @ [0] @ replicate (127 - length name) 0 = name @ replicate (96 - length name) 0 @ replicate 32 (0 :: u8)"
    using assms(2) by (simp flip: replicate_Suc replicate_add add: replicate_append_same)
  then have p: "patch 0 (name @ [0]) (replicate 128 0) = Some (name @ replicate (96 - length name) 0 @ replicate 32 0)"
    using assms(2) by (simp add: patch_def)
  have "dirent_of (pad_name 96 name @ replicate 32 0) = (new_dirent name 0 0 0)\<lparr>de_busy := 0\<rparr>"
    by (simp add: dirent_of_def Let_def new_dirent_def get_append nth_append) (simp add: get16_def get32_def)
  then show ?thesis using p pad_zeros_name [of name "replicate 32 0"] assms by auto
qed

lemma clean_loop: "disk_ok s \<Longrightarrow> unat a + n < 2 ^ 32 \<Longrightarrow> clean_blk_loop n a s =
  Some (s\<lparr>sects := \<lambda>k. if unat a \<le> k \<and> k < unat a + n then take 512 (blk_tab s) else sects s k\<rparr>)"
proof (induction n arbitrary: a s)
  case (Suc n)
  have l: "512 \<le> length (blk_tab s)" "length (take 512 (blk_tab s)) = 512" using Suc.prems by (simp_all add: disk_ok_def)
  have a: "unat (a + 1) = unat a + 1" using Suc.prems(2) by (subst unat_word_ariths(1)) simp
  have ua: "unat (ucast a :: u64) = unat a" using Suc.prems(2) by (simp add: unat_ucast_small)
  define s1 where "s1 = s\<lparr>sects := (sects s)(unat a := take 512 (blk_tab s))\<rparr>"
  have w: "write_sector_u 1 (ucast a) (blk_tab s) s = Some (0, s1)" using Suc.prems(1) l(1) ua by (simp add: write_one s1_def)
  have "disk_ok s1" using Suc.prems(1) l by (simp add: disk_ok_def s1_def)
  then have "clean_blk_loop n (a + 1) s1 = Some (s1\<lparr>sects := \<lambda>k. if unat (a + 1) \<le> k \<and> k < unat (a + 1) + n then take 512 (blk_tab s1) else sects s1 k\<rparr>)"
    using Suc.prems(2) a by (intro Suc.IH) simp_all
  moreover have "(\<lambda>k. if unat (a + 1) \<le> k \<and> k < unat (a + 1) + n then take 512 (blk_tab s1) else sects s1 k) =
    (\<lambda>k. if unat a \<le> k \<and> k < unat a + Suc n then take 512 (blk_tab s) else sects s k)"
    by (auto simp: a s1_def)
  ultimately show ?case using w by (simp add: s1_def)
next
  case 0
  have "(\<lambda>k. if unat a \<le> k \<and> k < unat a + 0 then take 512 (blk_tab s) else sects s k) = sects s" by (rule ext) auto
  then show ?case by simp
qed

lemma clean_blk_ok:
  assumes g: "cfs_geom f" and ok: "disk_ok s" and b: "b < nblk f"
  shows "clean_blk_enter (of_nat b) f s = Some ((put_block f b (replicate 8192 0) s)\<lparr>blk_tab := replicate 2048 0\<rparr>)"
proof -
  let ?a = "of_nat b * sb_sector_per_blk f + data_sector f"
  have "unat ?a < 2 ^ 32" using unat_u32 [of ?a] by simp
  then have u: "unat ?a = base f + 16 * b" using data_sector_words(2) [OF g b] by (simp add: unat_ucast_small)
  have n: "unat (sb_sector_per_blk f) = 16" "base f + 16 * b + 16 < 2 ^ 32" using g b by (simp_all add: cfs_geom_def)
  have "disk_ok (s\<lparr>blk_tab := replicate 2048 0\<rparr>)" using ok by (simp add: disk_ok_def)
  from clean_loop [OF this, of ?a 16] n(2) u
  have "clean_blk_enter (of_nat b) f s = Some ((s\<lparr>blk_tab := replicate 2048 0\<rparr>)\<lparr>sects := \<lambda>k. if base f + 16 * b \<le> k \<and> k < base f + 16 * b + 16
      then replicate 512 0 else sects s k\<rparr>)" by (simp add: clean_blk_enter_def n(1) Let_def min_def cong: if_cong)
  moreover have "(\<lambda>k. if base f + 16 * b \<le> k \<and> k < base f + 16 * b + 16 then replicate 512 (0 :: u8) else sects s k) =
    (\<lambda>k. if base f + 16 * b \<le> k \<and> k < base f + 16 * b + 16 then take 512 (drop ((k - (base f + 16 * b)) * 512) (replicate 8192 0)) else sects s k)"
    by (auto simp: fun_eq_iff min_def)
  ultimately show ?thesis by (simp add: put_block_def)
qed

lemma first_free: "\<exists>b < n. P b \<Longrightarrow> \<exists>b < n. P b \<and> (\<forall>j < b. \<not> P (j :: nat))"
  using exists_least_iff [of P] by (metis dual_order.strict_trans linorder_neqE_nat)

lemma create_file_ok:
  assumes g: "cfs_geom f" and inv: "fs_inv f s Cs" and D: "sb_root_blk f = of_nat D" "table_blks f \<le> D" "D < nblk f" "fat f s D \<noteq> 0"
    and name: "0 \<notin> set (get_file_name path)" "length (get_file_name path) \<le> 95"
    and i: "free_dirent (block_bytes f s D) 0 = i" "i < 64" and free: "\<exists>b < nblk f. fat f s b = 0"
  shows "\<exists>b s1. b < nblk f \<and> fat f s b = 0 \<and> fs_inv f s1 ([b] # Cs) \<and> super_at s1 = super_at s \<and>
    (\<forall>d. table_blks f \<le> d \<longrightarrow> block_bytes f s1 d = (if d = b \<and> attr AND 0x40 \<noteq> 0 then replicate 8192 0 else block_bytes f s d)) \<and>
    (\<forall>c < nblk f. fat f s1 c = (if c = b then - 1 else fat f s c)) \<and> u_pwd s1 = u_pwd s \<and>
    create_file f path attr s = Some (0, put_block f D (set_dirent i (new_dirent (get_file_name path) attr i b) (block_bytes f s D)) s1)"
proof -
  have ok: "disk_ok s" using inv by (simp add: fs_inv_def)
  obtain b where b: "b < nblk f" "fat f s b = 0" "\<forall>j < b. fat f s j \<noteq> 0" using first_free [OF free] by auto
  have tb: "table_blks f \<le> b" using inv b(1,2) unfolding fs_inv_def by (metis not_le)
  obtain t where t: "length t = 2048" "search_blk_null f s = Some (of_nat b, (set_fat f b (- 1) s)\<lparr>blk_tab := t\<rparr>)"
    using search_blk_ok [OF g ok, of b] b by auto
  define s0 where "s0 = (set_fat f b (- 1) s)\<lparr>blk_tab := t\<rparr>"
  have s0: "fs_inv f s0 ([b] # Cs)" unfolding s0_def by (intro fs_inv_tab fs_inv_alloc inv b(1,2) t(1))
  then have ok0: "disk_ok s0" by (simp add: fs_inv_def)
  define s1 where "s1 = (if attr AND 0x40 \<noteq> 0 then (put_block f b (replicate 8192 0) s0)\<lparr>blk_tab := replicate 2048 0\<rparr> else s0)"
  have cl: "(if attr AND 0x40 \<noteq> 0 then clean_blk_enter (of_nat b) f s0 else Some s0) = Some s1"
    using clean_blk_ok [OF g ok0 b(1)] by (simp add: s1_def)
  have s1: "fs_inv f s1 ([b] # Cs)" using s0 fs_inv_put [OF s0 tb, of "replicate 8192 0"] by (simp add: s1_def fs_inv_tab)
  then have ok1: "disk_ok s1" by (simp add: fs_inv_def)
  have bb: "block_bytes f s1 d = (if d = b \<and> attr AND 0x40 \<noteq> 0 then replicate 8192 0 else block_bytes f s d)" if "table_blks f \<le> d" for d
    using that b(1) by (simp add: s1_def s0_def disk_simps)
  have ff: "fat f s1 c = (if c = b then - 1 else fat f s c)" if "c < nblk f" for c using that ok tb by (simp add: s1_def s0_def disk_simps)
  have sup: "super_at s1 = super_at s" using g by (simp add: s1_def s0_def disk_simps cfs_geom_def)
  have pw: "u_pwd s1 = u_pwd s" by (simp add: s1_def s0_def put_block_def set_fat_def)
  obtain d where d: "patch 0 (get_file_name path @ [0]) (replicate 128 0) = Some d" "dirent_of (pad_zeros d) = (new_dirent (get_file_name path) 0 0 0)\<lparr>de_busy := 0\<rparr>"
    using new_name [OF name] by blast
  have dir: "(dirent_of (pad_zeros d))\<lparr>de_dir_entry := of_nat i, de_busy := - 1, de_attr := attr, de_first_blk := of_nat b\<rparr> = new_dirent (get_file_name path) attr i b"
    by (simp add: d(2) new_dirent_def)
  have rd: "read_root f (sb_root_blk f) (replicate 8192 0) s = Some (0, block_bytes f s D)" unfolding D(1) by (rule read_root_ok [OF g ok D(3)]) simp
  have "length (set_dirent i (new_dirent (get_file_name path) attr i b) (block_bytes f s D)) = 8192" using i(2) ok by simp
  then have wr: "write_sector_u (sb_sector_per_blk f) (first_sector f (sb_root_blk f)) (set_dirent i (new_dirent (get_file_name path) attr i b) (block_bytes f s D)) s1 =
    Some (0, put_block f D (set_dirent i (new_dirent (get_file_name path) attr i b) (block_bytes f s D)) s1)"
    unfolding D(1) by (rule write_block_ok [OF g ok1 D(3)])
  have "create_file f path attr s = Some (0, put_block f D (set_dirent i (new_dirent (get_file_name path) attr i b) (block_bytes f s D)) s1)"
    unfolding create_file_def
    by (simp add: d(1) rd i t(2) s0_def [symmetric] fat_sector_ok(3) [OF g b(1)] cl dir patch_dirent [OF new_dirent_ok i(2)] ok wr Let_def)
  then show ?thesis using b(1,2) s1 sup bb ff pw by blast
qed

text \<open>Every entry of the directory but \<open>i\<close> is the same, and so is every other block.\<close>

definition one_dirent :: "super_block \<Rightarrow> user_state \<Rightarrow> user_state \<Rightarrow> nat \<Rightarrow> nat \<Rightarrow> bool" where
  "one_dirent f s s' D i \<longleftrightarrow> (\<forall>j < 64. j \<noteq> i \<longrightarrow> entry_bytes j (block_bytes f s' D) = entry_bytes j (block_bytes f s D)) \<and> super_at s' = super_at s"

lemma entry_set_dirent: "dirent_ok d \<Longrightarrow> i < 64 \<Longrightarrow> j < 64 \<Longrightarrow> j \<noteq> i \<Longrightarrow> length root = 8192 \<Longrightarrow> entry_bytes j (set_dirent i d root) = entry_bytes j root"
  using patch_entry [of root i 0 "dirent_bytes d"] patch_dirent [of d i root] by auto



section \<open>Removing\<close>

text \<open>The path leads to the name in the directory at block \<open>D\<close>.\<close>

definition resolves :: "u8 list \<Rightarrow> user_state \<Rightarrow> u8 list \<Rightarrow> u8 list \<Rightarrow> nat \<Rightarrow> bool" where
  "resolves mem1 s path name D \<longleftrightarrow> 0 < D \<and> D < 2 ^ 32 \<and>
     (case getpathname (u_pwd s) path of None \<Rightarrow> False
      | Some (tp, us) \<Rightarrow> us = path \<and> (case getfilename tp of None \<Rightarrow> False
         | Some (nm, tp') \<Rightarrow> nm = name \<and> 3 \<le> length tp' \<and> read_directory_blk (drop 3 tp') (super_at s) mem1 s = Some (of_nat D)))"

text \<open>A plain name in the root directory.\<close>

lemma resolves_root:
  assumes "file_name_ok name" and "u_pwd s = [c, 58]" "c \<noteq> 47" and "sb_root_blk (super_at s) = of_nat D" "0 < D" "D < 2 ^ 32"
  shows "resolves mem1 s name name D"
proof -
  have n: "name \<noteq> []" "hd name \<noteq> 47" "last name \<noteq> 47" "\<not> (length name > 1 \<and> name ! 1 = 58)" "length name \<le> 95" "47 \<notin> set name"
    using assms(1) unfolding file_name_ok_def by (simp, metis hd_in_set, metis last_in_set, auto)
  have "getpathname [c, 58] name = Some ([c, 58, 47] @ name, name)" unfolding getpathname_def Let_def using n by simp
  moreover have "takeWhile (\<lambda>x. x \<noteq> 47) (rev ([c, 58, 47] @ name)) = rev name"
    using n(6) by (simp add: takeWhile_append takeWhile_eq_all_conv [THEN iffD2])
  then have "getfilename ([c, 58, 47] @ name) = Some (name, [c, 58, 47])" using n(5) by (simp add: getfilename_def)
  ultimately show ?thesis using assms(2,4-6) by (simp add: resolves_def read_directory_blk_def path_count_def)
qed

lemma get_file_name_plain: "47 \<notin> set name \<Longrightarrow> get_file_name name = name"
proof -
  have "47 \<notin> set xs \<Longrightarrow> get_file_name_loop xs r = r" for xs r by (induction xs arbitrary: r) auto
  then show "47 \<notin> set name \<Longrightarrow> get_file_name name = name" by (simp add: get_file_name_def)
qed

text \<open>The entry of the directory with a given name is the first busy one.\<close>

definition entry_of :: "super_block \<Rightarrow> user_state \<Rightarrow> nat \<Rightarrow> u8 list \<Rightarrow> nat \<Rightarrow> bool" where
  "entry_of f s D name i \<longleftrightarrow> i < 64 \<and> matches (\<lambda>d. de_busy d \<noteq> 0) (block_bytes f s D) name i \<and>
     (\<forall>j < i. \<not> matches (\<lambda>d. de_busy d \<noteq> 0) (block_bytes f s D) name j)"

lemma fat_root [simp]: "fat (f\<lparr>sb_root_blk := r\<rparr>) = fat f" "block_bytes (f\<lparr>sb_root_blk := r\<rparr>) = block_bytes f" "put_block (f\<lparr>sb_root_blk := r\<rparr>) = put_block f"
  "set_fat (f\<lparr>sb_root_blk := r\<rparr>) = set_fat f" "table_blks (f\<lparr>sb_root_blk := r\<rparr>) = table_blks f" "nblk (f\<lparr>sb_root_blk := r\<rparr>) = nblk f"
  "cfs_geom (f\<lparr>sb_root_blk := r\<rparr>) = cfs_geom f" "fs_inv (f\<lparr>sb_root_blk := r\<rparr>) = fs_inv f"
proof -
  have b: "base (f\<lparr>sb_root_blk := r\<rparr>) = base f" and n: "nblk (f\<lparr>sb_root_blk := r\<rparr>) = nblk f" by (simp_all add: base_def data_sector_def nblk_def)
  then have t: "table_blks (f\<lparr>sb_root_blk := r\<rparr>) = table_blks f" by (simp add: table_blks_def)
  show 1: "fat (f\<lparr>sb_root_blk := r\<rparr>) = fat f" by (intro ext) (simp add: fat_def b)
  show "block_bytes (f\<lparr>sb_root_blk := r\<rparr>) = block_bytes f" "put_block (f\<lparr>sb_root_blk := r\<rparr>) = put_block f" "set_fat (f\<lparr>sb_root_blk := r\<rparr>) = set_fat f"
    by (intro ext; simp add: block_bytes_def put_block_def set_fat_def b cong: if_cong)+
  show "table_blks (f\<lparr>sb_root_blk := r\<rparr>) = table_blks f" "nblk (f\<lparr>sb_root_blk := r\<rparr>) = nblk f" by (rule t, rule n)
  show "cfs_geom (f\<lparr>sb_root_blk := r\<rparr>) = cfs_geom f" by (simp add: cfs_geom_def b n)
  show "fs_inv (f\<lparr>sb_root_blk := r\<rparr>) = fs_inv f" by (intro ext) (simp add: fs_inv_def 1 n t)
qed

text \<open>C21: \<^verbatim>\<open>remove_file\<close> of an existing file marks its entry free and gives back exactly the blocks of its chain; the other
  entries, the contents of all other blocks and the chains of all other files stay as they are.\<close>

theorem remove_file_correct:
  assumes "cfs_geom (super_at s)" and "fs_inv (super_at s) s (Cs @ C # Ds)" and "resolves mem1 s path name D" and "length mem1 = 8192"
    and "table_blks (super_at s) \<le> D" "D < nblk (super_at s)" and "entry_of (super_at s) s D name i"
    and "de_first_blk (dirent i (block_bytes (super_at s) s D)) = of_nat (hd C)"
  shows "\<exists>s'. remove_file mem1 path s = Some (0, s') \<and> fs_inv (super_at s) s' (Cs @ Ds) \<and>
    dirent i (block_bytes (super_at s) s' D) = (dirent i (block_bytes (super_at s) s D))\<lparr>de_busy := 0\<rparr> \<and> one_dirent (super_at s) s s' D i \<and>
    (\<forall>c < nblk (super_at s). fat (super_at s) s' c = (if c \<in> set C then 0 else fat (super_at s) s c)) \<and>
    (\<forall>d. table_blks (super_at s) \<le> d \<and> d \<noteq> D \<longrightarrow> block_bytes (super_at s) s' d = block_bytes (super_at s) s d)"
proof -
  define f where "f = (super_at s)\<lparr>sb_root_blk := of_nat D\<rparr>"
  have fe [simp]: "fat (super_at s) = fat f" "block_bytes (super_at s) = block_bytes f" "table_blks (super_at s) = table_blks f" "nblk (super_at s) = nblk f"
    "fs_inv (super_at s) = fs_inv f" "cfs_geom (super_at s) = cfs_geom f" by (simp_all add: f_def)
  have g: "cfs_geom f" and inv: "fs_inv f s (Cs @ C # Ds)" and D: "table_blks f \<le> D" "D < nblk f" using assms by simp_all
  have ok: "disk_ok s" and C: "fchain (fat f s) C" "distinct C" "\<forall>c \<in> set C. c < nblk f" using inv by (auto simp: fs_inv_def)
  obtain tp tp' where p: "getpathname (u_pwd s) path = Some (tp, path)" "getfilename tp = Some (name, tp')" "3 \<le> length tp'"
    "read_directory_blk (drop 3 tp') (super_at s) mem1 s = Some (of_nat D)" "0 < D" "D < 2 ^ 32"
    using assms(3) by (auto simp: resolves_def split: option.splits prod.splits)
  have Dnz: "(of_nat D :: u32) \<noteq> 0" using p(5,6) u32_nat [OF p(6)] by (metis neq0_conv unat_0)
  have root: "sb_root_blk f = of_nat D" by (simp add: f_def)
  have l: "length (block_bytes f s D) = 8192" using ok by simp
  have rd: "read_root f (of_nat D) (replicate 8192 0) s = Some (0, block_bytes f s D)" by (rule read_root_ok [OF g ok D(2)]) simp
  have en: "i < 64" "find_dirent (\<lambda>d. de_busy d \<noteq> 0) (block_bytes f s D) name 0 0 = (0, i)"
    using assms(7) find_dirent_found [OF l] by (auto simp: entry_of_def)
  obtain r where r: "patch (i * 128 + 97) [0] (block_bytes f s D) = Some r" "length r = 8192"
    "\<forall>j < 64. entry_bytes j r = (if j = i then take 97 (entry_bytes i (block_bytes f s D)) @ [0] @ drop 98 (entry_bytes i (block_bytes f s D)) else entry_bytes j (block_bytes f s D))"
    using patch_entry [OF l en(1), of 97 "[0]"] by auto
  have de: "dirent i r = (dirent i (block_bytes f s D))\<lparr>de_busy := 0\<rparr>"
    using r(3) en(1) dirent_of_busy [of "entry_bytes i (block_bytes f s D)" 0] l by (simp add: dirent_entry)
  define s1 where "s1 = put_block f D r s"
  have wr: "write_sector_u (sb_sector_per_blk f) (first_sector f (of_nat D)) r s = Some (0, s1)" unfolding s1_def by (rule write_block_ok [OF g ok D(2) r(2)])
  have inv1: "fs_inv f s1 (C # Cs @ Ds)" unfolding s1_def using fs_inv_put [OF inv D(1) r(2)] by (simp add: fs_inv_move)
  then have ok1: "disk_ok s1" and C1: "fchain (fat f s1) C" by (simp_all add: fs_inv_def)
  define s2 where "s2 = fold (\<lambda>b. set_fat f b 0) C s1"
  have rm: "remove_blk (of_nat (hd C)) f mem1 s1 = Some (0, s2)" unfolding s2_def by (rule remove_blk_ok [OF g ok1 assms(4) C1 C(2,3)])
  have fb: "de_first_blk (dirent i r) = of_nat (hd C)" using de assms(8) by simp
  have su: "read_super_block_u \<lparr>p_dv_num = 0, p_start = 1\<rparr> s = Some (0, super_at s)" by (rule super_ok [OF ok])
  have "remove_file mem1 path s = Some (0, s2)"
    unfolding remove_file_def using p(3) Dnz
    by (simp add: p(1,2,4) su f_def [symmetric] root rd en(2) r(1) wr fb rm Let_def)
  moreover have "fs_inv f s2 (Cs @ Ds)" unfolding s2_def by (rule fs_inv_free [OF inv1])
  moreover have bb: "block_bytes f s2 d = (if d = D then r else block_bytes f s d)" if "table_blks f \<le> d" for d
    unfolding s2_def s1_def using C(3) that r(2) by (simp add: fold_set_fat_other disk_simps)
  moreover have "super_at s2 = super_at s" unfolding s2_def s1_def using g by (simp add: fold_set_fat_other disk_simps cfs_geom_def)
  moreover have "fat f s2 c = (if c \<in> set C then 0 else fat f s c)" if "c < nblk f" for c
    unfolding s2_def using fold_set_fat [OF ok1, of f 0 C] that D by (simp add: s1_def disk_simps)
  ultimately show ?thesis using de r(3) D(1) by (intro exI [of _ s2]) (auto simp: one_dirent_def bb)
qed

text \<open>The small disk with the entry 0 of the root for the file \<^verbatim>\<open>a\<close> in block 2.\<close>

definition small_disk_a :: user_state where
  "small_disk_a = put_block small_fs 1 (set_dirent 0 (new_dirent [97] 0x20 0 2) (replicate 8192 0)) (set_fat small_fs 2 (- 1) small_disk)"

lemma small_disk_a:
  shows "super_at small_disk_a = small_fs" and "fs_inv small_fs small_disk_a [[2], [1]]" and "u_pwd small_disk_a = [67, 58]"
    and "dirent 0 (block_bytes small_fs small_disk_a 1) = new_dirent [97] 0x20 0 2"
proof -
  have l: "length (set_dirent 0 (new_dirent [97] 0x20 0 2) (replicate 8192 0)) = 8192" by simp
  show "super_at small_disk_a = small_fs" "u_pwd small_disk_a = [67, 58]" by (simp_all add: small_disk_a_def disk_simps) (simp add: put_block_def set_fat_def small_disk_def)
  show "fs_inv small_fs small_disk_a [[2], [1]]" unfolding small_disk_a_def
    by (intro fs_inv_put fs_inv_alloc [OF small_inv]) (simp_all add: l small_fat)
  show "dirent 0 (block_bytes small_fs small_disk_a 1) = new_dirent [97] 0x20 0 2"
    by (simp add: small_disk_a_def disk_simps l dirent_set_dirent)
qed

theorem remove_file_correct_witness: "\<exists>s'. remove_file (replicate 8192 0) [97] small_disk_a = Some (0, s') \<and> fs_inv small_fs s' [[1]] \<and>
  de_busy (dirent 0 (block_bytes small_fs s' 1)) = 0 \<and> fat small_fs s' 2 = 0"
proof -
  have n: "file_name_ok [97]" by (simp add: file_name_ok_def)
  have r: "resolves (replicate 8192 0) small_disk_a [97] [97] 1"
    by (rule resolves_root [OF n small_disk_a(3)]) (simp_all add: small_disk_a(1) small_fs_def)
  have e: "entry_of small_fs small_disk_a 1 [97] 0"
    unfolding entry_of_def matches_def small_disk_a(4) by (simp add: new_dirent_def)
  have b: "de_first_blk (dirent 0 (block_bytes small_fs small_disk_a 1)) = of_nat (hd [2])" unfolding small_disk_a(4) by (simp add: new_dirent_def)
  obtain s' where s: "remove_file (replicate 8192 0) [97] small_disk_a = Some (0, s')" "fs_inv small_fs s' [[1]]"
    "dirent 0 (block_bytes small_fs s' 1) = (dirent 0 (block_bytes small_fs small_disk_a 1))\<lparr>de_busy := 0\<rparr>"
    "\<forall>c < 4. fat small_fs s' c = (if c \<in> {2} then 0 else fat small_fs small_disk_a c)"
    using remove_file_correct [of small_disk_a "[]" "[2]" "[[1]]" "replicate 8192 0" "[97]" "[97]" 1 0, unfolded small_disk_a(1)]
      small_disk_a(2) r e b by auto
  then show ?thesis by simp
qed

end
