(* ===== verification/Uio.thy ===== *)
theory Uio
  imports Ucreate
begin

text \<open>
  Reading and writing an open file: \<open>writing\<close> is the state of a file and the disk after some bytes have been written
  from the start of the file on, \<open>content\<close> the bytes of its blocks.
\<close>

section \<open>The entry of an open file\<close>

lemma entries_eq:
  assumes "length r = 8192" "length r' = 8192" "\<And>j. j < 64 \<Longrightarrow> entry_bytes j r = entry_bytes j r'"
  shows "r = r'"
proof (rule nth_equalityI)
  fix x assume "x < length r"
  then have x: "x < 8192" using assms(1) by simp
  then have j: "x div 128 < 64" by (simp add: less_mult_imp_div_less)
  have m: "x mod 128 < 128" by simp
  have "(x div 128) * 128 + x mod 128 = x" by (rule div_mult_mod_eq)
  then have e: "entry_bytes (x div 128) q ! (x mod 128) = q ! x" if "length q = 8192" for q using that m x by (simp add: entry_bytes_def)
  show "r ! x = r' ! x" using assms(3) [OF j] e assms(1,2) by metis
qed (simp add: assms)

definition new_entry :: "u8 list \<Rightarrow> u32 \<Rightarrow> u8 list \<Rightarrow> u8 list" where
  "new_entry nm sz E = pad_name 96 nm @ [0] @ take 14 (drop 97 E) @ le32 sz @ drop 115 E"

definition upd_root :: "nat \<Rightarrow> u8 list \<Rightarrow> u32 \<Rightarrow> u8 list \<Rightarrow> u8 list" where
  "upd_root i nm sz root = take (i * 128) root @ new_entry nm sz (entry_bytes i root) @ drop (i * 128 + 128) root"

lemma new_entry_length [simp]: "length E = 128 \<Longrightarrow> length (new_entry nm sz E) = 128"
  by (simp add: new_entry_def)

lemma upd_root_patch: "length root = 8192 \<Longrightarrow> i < 64 \<Longrightarrow> patch (i * 128) (new_entry nm sz (entry_bytes i root)) root = Some (upd_root i nm sz root)"
  by (simp add: patch_def upd_root_def)

lemma upd_root_length [simp]: "length root = 8192 \<Longrightarrow> i < 64 \<Longrightarrow> length (upd_root i nm sz root) = 8192"
  by (simp add: upd_root_def)

lemma entry_upd_root: "length root = 8192 \<Longrightarrow> i < 64 \<Longrightarrow> j < 64 \<Longrightarrow>
  entry_bytes j (upd_root i nm sz root) = (if j = i then new_entry nm sz (entry_bytes i root) else entry_bytes j root)"
  using patch_entry [of root i 0 "new_entry nm sz (entry_bytes i root)"] upd_root_patch [of root i nm sz] by auto

lemma upd_root_twice: "length root = 8192 \<Longrightarrow> i < 64 \<Longrightarrow> upd_root i nm sz (upd_root i nm sz' root) = upd_root i nm sz root"
  by (rule entries_eq) (simp_all add: entry_upd_root new_entry_def)

lemma dirent_upd_root: "length root = 8192 \<Longrightarrow> i < 64 \<Longrightarrow> j < 64 \<Longrightarrow>
  dirent j (upd_root i nm sz root) = (if j = i then (dirent i root)\<lparr>de_file_name := pad_name 96 nm, de_rsv := 0, de_file_size := sz\<rparr> else dirent j root)"
  by (simp add: dirent_entry entry_upd_root dirent_of_update [OF _ _ new_entry_def])

lemma c_string_no0: "0 \<notin> set (c_string_u b)"
  by (auto simp: c_string_u_def dest: set_takeWhileD)

text \<open>The five stores of \<^verbatim>\<open>update_directory_entry\<close>.\<close>

lemma update_patches:
  assumes l: "length root = 8192" and e: "e < 64" and nm: "length nm \<le> 95" "0 \<notin> set nm"
  shows "do { root \<leftarrow> patch (e * 128) (replicate 96 0) root; root \<leftarrow> patch (e * 128) (nm @ [0]) root;
      root \<leftarrow> patch (e * 128) (take 96 (pad_zeros (take 128 (drop (e * 128) root)))) root; root \<leftarrow> patch (e * 128 + 96) [0] root;
      patch (e * 128 + 111) (le32 sz) root } = Some (upd_root e nm sz root)"
proof -
  let ?E = "entry_bytes e root"
  have lE: "length ?E = 128" using l e by simp
  obtain r1 where r1: "patch (e * 128) (replicate 96 0) root = Some r1" "length r1 = 8192"
    "\<forall>j < 64. entry_bytes j r1 = (if j = e then replicate 96 0 @ drop 96 ?E else entry_bytes j root)"
    using patch_entry [OF l e, of 0 "replicate 96 0"] by auto
  obtain r2 where r2: "patch (e * 128) (nm @ [0]) r1 = Some r2" "length r2 = 8192"
    "\<forall>j < 64. entry_bytes j r2 = (if j = e then (nm @ [0]) @ drop (length nm + 1) (entry_bytes e r1) else entry_bytes j r1)"
    using patch_entry [OF r1(2) e, of 0 "nm @ [0]"] nm by auto
  have "entry_bytes e r2 = nm @ replicate (96 - length nm) 0 @ drop 96 ?E"
    using r1(3) r2(3) e nm(1) by (simp flip: replicate_Suc add: Suc_diff_le [symmetric] del: replicate.simps)
  then have "take 96 (pad_zeros (entry_bytes e r2)) = pad_name 96 nm" using nm by (simp add: pad_zeros_name)
  then obtain r3 where r3: "patch (e * 128) (take 96 (pad_zeros (take 128 (drop (e * 128) r2)))) r2 = Some r3" "length r3 = 8192"
    "\<forall>j < 64. entry_bytes j r3 = (if j = e then pad_name 96 nm @ drop 96 (entry_bytes e r2) else entry_bytes j r2)"
    using patch_entry [OF r2(2) e, of 0 "pad_name 96 nm"] by (auto simp: entry_bytes_def)
  obtain r4 where r4: "patch (e * 128 + 96) [0] r3 = Some r4" "length r4 = 8192"
    "\<forall>j < 64. entry_bytes j r4 = (if j = e then take 96 (entry_bytes e r3) @ [0] @ drop 97 (entry_bytes e r3) else entry_bytes j r3)"
    using patch_entry [OF r3(2) e, of 96 "[0]"] by auto
  obtain r5 where r5: "patch (e * 128 + 111) (le32 sz) r4 = Some r5" "length r5 = 8192"
    "\<forall>j < 64. entry_bytes j r5 = (if j = e then take 111 (entry_bytes e r4) @ le32 sz @ drop 115 (entry_bytes e r4) else entry_bytes j r4)"
    using patch_entry [OF r4(2) e, of 111 "le32 sz"] by auto
  have "r5 = upd_root e nm sz root"
  proof (rule entries_eq)
    fix j assume j: "j < (64 :: nat)"
    show "entry_bytes j r5 = entry_bytes j (upd_root e nm sz root)"
    proof (cases "j = e")
      case True
      have "entry_bytes e r4 = pad_name 96 nm @ [0] @ drop 97 ?E"
        using r4(3) r3(3) \<open>entry_bytes e r2 = _\<close> e nm by simp
      then show ?thesis using True r5(3) l e lE by (simp add: entry_upd_root new_entry_def)
    next
      case False then show ?thesis using j r1(3) r2(3) r3(3) r4(3) r5(3) l e by (simp add: entry_upd_root)
    qed
  qed (use r5(2) l e in simp_all)
  then show ?thesis using r1(1) r2(1) r3(1) r4(1) r5(1) by simp
qed

section \<open>Open files\<close>

definition opened :: "super_block \<Rightarrow> UFILE \<Rightarrow> nat list \<Rightarrow> nat \<Rightarrow> nat \<Rightarrow> u8 list \<Rightarrow> bool" where
  "opened f fp C D e nm \<longleftrightarrow> u_bsize fp = 8192 \<and> u_count fp = 16 \<and> u_num_of_blocks fp = of_nat (length C) \<and>
     u_blocks fp = map (\<lambda>b. of_nat (base f + 16 * b)) C \<and> length (u_buffer fp) = 8192 \<and> u_dir_cluster fp = of_nat D \<and> u_dir_entry fp = of_nat e \<and>
     get_file_name (c_string_u (u_fname fp)) = nm"

text \<open>The file system the file lies in.\<close>

definition file_at :: "user_state \<Rightarrow> nat list \<Rightarrow> nat \<Rightarrow> bool" where
  "file_at s C D \<longleftrightarrow> cfs_geom (super_at s) \<and> disk_ok s \<and> distinct C \<and> D \<notin> set C \<and> length C < 2 ^ 18 \<and>
     (\<forall>c \<in> set (D # C). table_blks (super_at s) \<le> c \<and> c < nblk (super_at s))"

definition only_blocks :: "nat set \<Rightarrow> user_state \<Rightarrow> user_state \<Rightarrow> bool" where
  "only_blocks X s s' \<longleftrightarrow> disk_ok s' \<and> super_at s' = super_at s \<and> u_pwd s' = u_pwd s \<and> (\<forall>c < nblk (super_at s). fat (super_at s) s' c = fat (super_at s) s c) \<and>
     (\<forall>d. table_blks (super_at s) \<le> d \<and> d \<notin> X \<longrightarrow> block_bytes (super_at s) s' d = block_bytes (super_at s) s d)"

lemma only_blocks_refl: "disk_ok s \<Longrightarrow> only_blocks X s s"
  by (simp add: only_blocks_def)

lemma only_blocks_put:
  assumes "only_blocks X s s'" "cfs_geom (super_at s)" "table_blks (super_at s) \<le> d" "d \<in> X" "length bs = 8192"
  shows "only_blocks X s (put_block (super_at s) d bs s')"
proof -
  have "u_pwd (put_block (super_at s) d bs s') = u_pwd s'" by (simp add: put_block_def)
  then show ?thesis using assms by (auto simp: only_blocks_def disk_simps cfs_geom_def)
qed

lemma only_blocks_file_at: "only_blocks X s s' \<Longrightarrow> file_at s C D \<Longrightarrow> file_at s' C D"
  by (simp add: only_blocks_def file_at_def)

lemma file_addr:
  assumes "file_at s C D" "k < length C"
  shows "unat (ucast (of_nat (base (super_at s) + 16 * (C ! k)) :: u32) :: u64) = base (super_at s) + 16 * (C ! k)"
proof -
  have "C ! k < nblk (super_at s)" using assms by (simp add: file_at_def)
  then show ?thesis using assms(1) by (intro sector_word) (simp add: file_at_def cfs_geom_def)
qed

lemma addr_words: "file_at s C D \<Longrightarrow> k \<le> length C \<Longrightarrow> unat (of_nat k :: u32) = k \<and> ((of_nat k :: u32) \<ge> of_nat (length C) \<longleftrightarrow> k \<ge> length C)"
  by (auto simp: file_at_def word_le_nat_alt unat_of_nat_small)

lemma file_read_ok:
  assumes "file_at s C D" "opened (super_at s) fp C D e nm" "k < length C"
  shows "file_read_block_u (of_nat k) fp s = Some (0, fp\<lparr>u_buffer := block_bytes (super_at s) s (C ! k)\<rparr>)"
  using assms addr_words [OF assms(1), of k] file_addr [OF assms(1,3)]
  by (simp add: file_read_block_u_def opened_def read_ok file_at_def block_bytes_def)

lemma file_write_ok:
  assumes "file_at s C D" "opened (super_at s) fp C D e nm" "k < length C"
  shows "file_write_block (of_nat k) fp s = Some (0, put_block (super_at s) (C ! k) (u_buffer fp) s)"
  using assms addr_words [OF assms(1), of k] file_addr [OF assms(1,3)]
  by (simp add: file_write_block_def opened_def write_ok file_at_def put_block_def cong: if_cong)

lemma file_write_past:
  assumes "file_at s C D" "opened (super_at s) fp C D e nm"
  shows "file_write_block (of_nat (length C)) fp s = Some (- 1, s)"
  using assms by (simp add: file_write_block_def opened_def)

lemma file_update_ok:
  assumes at: "file_at s C D" and op: "opened (super_at s) fp C D e nm" and e: "0 < e" "e < 64" and nm: "length nm \<le> 95" "0 \<notin> set nm"
  shows "file_update fp s = Some (0, put_block (super_at s) D (upd_root e nm (u_fsize fp) (block_bytes (super_at s) s D)) s)"
proof -
  have g: "cfs_geom (super_at s)" and ok: "disk_ok s" and D: "D < nblk (super_at s)" using at by (simp_all add: file_at_def)
  have l: "length (block_bytes (super_at s) s D) = 8192" using ok by simp
  have ew: "unat (of_nat e :: u32) = e" using e by (simp add: unat_of_nat_small)
  then have c: "\<not> (of_nat e :: u32) < 1" "\<not> (of_nat e :: u32) > 64" using e by (simp_all add: word_less_nat_alt)
  have rd: "read_root (super_at s) (of_nat D) (replicate 8192 0) s = Some (0, block_bytes (super_at s) s D)" by (rule read_root_ok [OF g ok D]) simp
  have wr: "write_sector_u (sb_sector_per_blk (super_at s)) (first_sector (super_at s) (of_nat D)) (upd_root e nm (u_fsize fp) (block_bytes (super_at s) s D)) s =
    Some (0, put_block (super_at s) D (upd_root e nm (u_fsize fp) (block_bytes (super_at s) s D)) s)" by (rule write_block_ok [OF g ok D]) (use l e in simp)
  have o: "u_dir_cluster fp = of_nat D" "u_dir_entry fp = of_nat e" "get_file_name (c_string_u (u_fname fp)) = nm" using op by (simp_all add: opened_def)
  have "update_directory_entry (super_at s) fp s = do {
      r \<leftarrow> do { root \<leftarrow> patch (e * 128) (replicate 96 0) (block_bytes (super_at s) s D); root \<leftarrow> patch (e * 128) (nm @ [0]) root;
        root \<leftarrow> patch (e * 128) (take 96 (pad_zeros (take 128 (drop (e * 128) root)))) root; root \<leftarrow> patch (e * 128 + 96) [0] root;
        patch (e * 128 + 111) (le32 (u_fsize fp)) root };
      (r, s) \<leftarrow> write_sector_u (sb_sector_per_blk (super_at s)) (first_sector (super_at s) (of_nat D)) r s; Some (r, s) }"
    unfolding update_directory_entry_def o using c by (simp add: rd ew Let_def)
  also have "\<dots> = Some (0, put_block (super_at s) D (upd_root e nm (u_fsize fp) (block_bytes (super_at s) s D)) s)"
    unfolding update_patches [OF l e(2) nm] by (simp add: wr)
  finally show ?thesis by (simp add: file_update_def super_ok [OF ok])
qed


end
