(* ===== verification/Uwrite.thy ===== *)
theory Uwrite
  imports Uio
begin

text \<open>
  Writing a file from its start: \<open>writing\<close> relates the file and the disk to the bytes given to \<^verbatim>\<open>putc_r\<close> so far, and every
  further byte keeps it.  A full buffer is written when its last byte arrives; the last, partial one by the close.
\<close>

section \<open>Writing\<close>

lemma off_words:
  assumes "i < 2 ^ 32"
  shows "(of_nat i :: u32) div 8192 = of_nat (i div 8192)" "(ucast ((of_nat i :: u32) mod 8192) :: u16) = of_nat (i mod 8192)"
proof -
  have m: "i mod 8192 < 8192" by simp
  show "(of_nat i :: u32) div 8192 = of_nat (i div 8192)"
    using assms by (intro word_unat_eq_iff [THEN iffD2]) (simp add: unat_div u32_nat)
  have "(of_nat i :: u32) mod 8192 = of_nat (i mod 8192)"
    using assms m by (intro word_unat_eq_iff [THEN iffD2]) (simp add: unat_mod_distrib u32_nat)
  then show "(ucast ((of_nat i :: u32) mod 8192) :: u16) = of_nat (i mod 8192)"
    using m by (simp only: ucast_of_nat_small)  (rule ucast_of_nat_small, simp)
qed

lemma level_words:
  assumes "m < 8192"
  shows "unat (of_nat m :: u16) = m" "sint (of_nat m :: u16) = int m" "(scast (of_nat m :: u16) :: u32) = of_nat m" "(ucast (of_nat m :: u16) :: u32) = of_nat m"
proof -
  show u: "unat (of_nat m :: u16) = m" using assms by (simp add: unat_of_nat_small)
  have "uint (of_nat m :: u16) = int m" using u by (metis uint_nat)
  then show s: "sint (of_nat m :: u16) = int m" using assms by (simp add: sint_uint signed_take_bit_int_eq_self)
  show "(scast (of_nat m :: u16) :: u32) = of_nat m" unfolding scast_eq s by simp
  show "(ucast (of_nat m :: u16) :: u32) = of_nat m" using assms by (intro ucast_of_nat_small) simp
qed

definition chunk :: "u8 list \<Rightarrow> nat \<Rightarrow> u8 list" where
  "chunk data j = take 8192 (drop (8192 * j) data)"

text \<open>\<open>s0\<close> is the disk before the first byte, \<open>fs0\<close> the size of the file then, and \<open>i\<close> the number of bytes written.\<close>

definition writing :: "user_state \<Rightarrow> nat \<Rightarrow> nat list \<Rightarrow> nat \<Rightarrow> nat \<Rightarrow> u8 list \<Rightarrow> u8 list \<Rightarrow> nat \<Rightarrow> UFILE \<Rightarrow> user_state \<Rightarrow> bool" where
  "writing s0 fs0 C D e nm data i fp s \<longleftrightarrow>
     file_at s C D \<and> only_blocks (insert D (set C)) s0 s \<and> opened (super_at s0) fp C D e nm \<and> u_mode fp = 2 \<and>
     u_off fp = of_nat i \<and> u_fsize fp = of_nat (max fs0 i) \<and> u_flags fp = (if i = 0 then 6 else if i mod 8192 = 0 then 0x86 else 0x96) \<and>
     (\<forall>x. upd_root e nm x (block_bytes (super_at s0) s D) = upd_root e nm x (block_bytes (super_at s0) s0 D)) \<and>
     (\<forall>j < length C. block_bytes (super_at s0) s (C ! j) = (if j < i div 8192 then chunk data j else block_bytes (super_at s0) s0 (C ! j))) \<and>
     take (i mod 8192) (u_buffer fp) = take (i mod 8192) (drop (8192 * (i div 8192)) data) \<and>
     (i mod 8192 \<noteq> 0 \<longrightarrow> fs0 \<noteq> 0 \<or> 0 < i div 8192 \<longrightarrow> drop (i mod 8192) (u_buffer fp) = drop (i mod 8192) (block_bytes (super_at s0) s0 (C ! (i div 8192)))) \<and>
     (i \<noteq> 0 \<longrightarrow> i mod 8192 = 0 \<longrightarrow> u_buffer fp = chunk data (i div 8192 - 1))"

lemma block_index: "i < 8192 * n \<Longrightarrow> i div 8192 < (n :: nat)"
  by (simp add: less_mult_imp_div_less mult.commute)

lemma small_size: "file_at s C D \<Longrightarrow> i \<le> 8192 * length C \<Longrightarrow> i < 2 ^ 32"
  by (simp add: file_at_def)

lemma fill_writing:
  assumes w: "writing s0 fs0 C D e nm data i fp s" and i: "i < 8192 * length C" and fs0: "fs0 \<le> 8192 * length C"
  shows "\<exists>fp1 b. fill_buffer fp s = Some fp1 \<and> fp1\<lparr>u_flags := u_flags fp1 OR 0x10\<rparr> = fp\<lparr>u_flags := u_flags fp OR 0x10, u_buffer := b\<rparr> \<and> length b = 8192 \<and>
    take (i mod 8192) b = take (i mod 8192) (drop (8192 * (i div 8192)) data) \<and>
    (fs0 \<noteq> 0 \<or> 0 < i div 8192 \<longrightarrow> drop (i mod 8192) b = drop (i mod 8192) (block_bytes (super_at s0) s0 (C ! (i div 8192))))"
proof -
  have at: "file_at s C D" and op: "opened (super_at s) fp C D e nm" and su: "super_at s = super_at s0" using w by (simp_all add: writing_def only_blocks_def)
  have sm: "i < 2 ^ 32" "max fs0 i < 2 ^ 32" using small_size [OF at, of i] small_size [OF at fs0] i by simp_all
  show ?thesis
  proof (cases "i mod 8192 = 0 \<and> (fs0 \<noteq> 0 \<or> 0 < i div 8192)")
    case True
    have F: "u_flags fp AND 0x10 = 0" using w True by (simp add: writing_def)
    have le: "u_off fp \<le> u_fsize fp" using w sm by (simp add: writing_def word_le_nat_alt u32_nat)
    have "max fs0 i \<noteq> 0" using True by auto
    then have nz: "u_fsize fp \<noteq> 0" using w sm u32_nat [OF sm(2)] by (auto simp: writing_def)
    have bs: "u_bsize fp = 8192" using op by (simp add: opened_def)
    have off: "u_off fp div 8192 = of_nat (i div 8192)" using w off_words(1) [OF sm(1)] by (simp add: writing_def)
    define fp1 where "fp1 = fp\<lparr>u_flags := u_flags fp OR 0x10\<rparr>"
    have op1: "opened (super_at s) fp1 C D e nm" using op by (simp add: opened_def fp1_def)
    have "file_read_block_u (of_nat (i div 8192)) fp1 s = Some (0, fp1\<lparr>u_buffer := block_bytes (super_at s) s (C ! (i div 8192))\<rparr>)"
      by (rule file_read_ok [OF at op1 block_index [OF i]])
    moreover have "block_bytes (super_at s) s (C ! (i div 8192)) = block_bytes (super_at s0) s0 (C ! (i div 8192))"
      using w block_index [OF i] su by (simp add: writing_def)
    ultimately have "fill_buffer fp s = Some (fp1\<lparr>u_buffer := block_bytes (super_at s0) s0 (C ! (i div 8192))\<rparr>)"
      using F le nz bs off by (simp add: fill_buffer_def fp1_def Let_def)
    moreover have "length (block_bytes (super_at s0) s0 (C ! (i div 8192))) = 8192"
      using \<open>block_bytes (super_at s) s _ = _\<close> at by (metis block_length file_at_def)
    ultimately show ?thesis using True by (intro exI [of _ "fp1\<lparr>u_buffer := block_bytes (super_at s0) s0 (C ! (i div 8192))\<rparr>"] exI) (auto simp: fp1_def)
  next
    case False
    have "fill_buffer fp s = Some fp"
    proof (cases "i = 0")
      case True then show ?thesis using w False by (simp add: writing_def fill_buffer_def)
    next
      case nz: False
      then have "i mod 8192 \<noteq> 0" using False by auto
      then have "u_flags fp = 0x96" using w nz by (auto simp: writing_def)
      then show ?thesis by (simp add: fill_buffer_def)
    qed
    moreover have "length (u_buffer fp) = 8192" using op by (simp add: opened_def)
    ultimately show ?thesis using w False by (intro exI [of _ fp] exI [of _ "u_buffer fp"]) (auto simp: writing_def)
  qed
qed

text \<open>The flush of a file that was written to: the block at the offset, when the file has one, and the entry of the directory.\<close>

definition flushed_to :: "super_block \<Rightarrow> UFILE \<Rightarrow> nat list \<Rightarrow> nat \<Rightarrow> nat \<Rightarrow> u8 list \<Rightarrow> nat \<Rightarrow> user_state \<Rightarrow> user_state" where
  "flushed_to f fp C D e nm q s =
     (let s1 = (if q < length C then put_block f (C ! q) (u_buffer fp) s else s)
      in put_block f D (upd_root e nm (u_fsize fp) (block_bytes f s D)) s1)"

lemma flush_ok:
  assumes at: "file_at s C D" and op: "opened (super_at s) fp C D e nm" and e: "0 < e" "e < 64" and nm: "length nm \<le> 95" "0 \<notin> set nm"
    and fp: "u_mode fp = 2" "u_flags fp = 0x86 \<or> u_flags fp = 0x96" "u_off fp = of_nat i" and i: "i \<le> 8192 * length C"
  shows "flush_r fp s = Some (0, flushed_to (super_at s) fp C D e nm (i div 8192) s)"
proof -
  let ?f = "super_at s"
  have off: "u_off fp div u_bsize fp = of_nat (i div 8192)" using op fp(3) off_words(1) [OF small_size [OF at i]] by (simp add: opened_def)
  have bs: "u_bsize fp \<noteq> 0" "length (u_buffer fp) = 8192" using op by (simp_all add: opened_def)
  define s1 where "s1 = (if i div 8192 < length C then put_block ?f (C ! (i div 8192)) (u_buffer fp) s else s)"
  have w: "\<exists>r. file_write_block (of_nat (i div 8192)) fp s = Some (r, s1)"
  proof (cases "i div 8192 < length C")
    case True then show ?thesis using file_write_ok [OF at op True] by (simp add: s1_def)
  next
    case False
    then have "i div 8192 = length C" using i div_le_mono [of i "8192 * length C" 8192] by simp
    then show ?thesis using file_write_past [OF at op] by (simp add: s1_def)
  qed
  have g: "cfs_geom ?f" and ok: "disk_ok s" using at by (simp_all add: file_at_def)
  have cq: "i div 8192 < length C \<Longrightarrow> table_blks ?f \<le> C ! (i div 8192) \<and> C ! (i div 8192) \<noteq> D" using at by (auto simp: file_at_def)
  have o1: "only_blocks (set C) s s1" using cq bs(2) g ok by (auto simp: s1_def intro!: only_blocks_put only_blocks_refl)
  have at1: "file_at s1 C D" and op1: "opened (super_at s1) fp C D e nm" and su: "super_at s1 = ?f"
    using only_blocks_file_at [OF o1 at] op o1 by (simp_all add: only_blocks_def)
  have "block_bytes ?f s1 D = block_bytes ?f s D" using o1 at by (simp add: only_blocks_def file_at_def)
  then have u: "file_update fp s1 = Some (0, flushed_to ?f fp C D e nm (i div 8192) s)"
    using file_update_ok [OF at1 op1 e nm] su by (simp add: flushed_to_def s1_def Let_def)
  obtain r where "file_write_block (of_nat (i div 8192)) fp s = Some (r, s1)" using w by blast
  then show ?thesis using fp(1,2) bs(1) off u by (auto simp: flush_r_def)
qed

lemma flushed_to_blocks:
  assumes "file_at s C D" "length (u_buffer fp) = 8192" "e < 64" "f = super_at s"
  shows "block_bytes f (flushed_to f fp C D e nm q s) D = upd_root e nm (u_fsize fp) (block_bytes f s D)"
    and "j < length C \<Longrightarrow> block_bytes f (flushed_to f fp C D e nm q s) (C ! j) = (if j = q then u_buffer fp else block_bytes f s (C ! j))"
    and "only_blocks (insert D (set C)) s (flushed_to f fp C D e nm q s)"
proof -
  have ok: "disk_ok s" and g: "cfs_geom f" and C: "distinct C" "D \<notin> set C" "\<forall>c \<in> set (D # C). table_blks f \<le> c" using assms(1,4) by (auto simp: file_at_def)
  have l: "length (upd_root e nm (u_fsize fp) (block_bytes f s D)) = 8192" using ok assms(3) by simp
  note laws = flushed_to_def Let_def disk_simps l assms(2)
  show "block_bytes f (flushed_to f fp C D e nm q s) D = upd_root e nm (u_fsize fp) (block_bytes f s D)" by (simp add: laws)
  show "j < length C \<Longrightarrow> block_bytes f (flushed_to f fp C D e nm q s) (C ! j) = (if j = q then u_buffer fp else block_bytes f s (C ! j))"
    using C by (auto simp: laws nth_eq_iff_index_eq)
  have "only_blocks (insert D (set C)) s (if q < length C then put_block f (C ! q) (u_buffer fp) s else s)"
    using C g ok assms(2,4) by (auto intro!: only_blocks_put only_blocks_refl)
  then show "only_blocks (insert D (set C)) s (flushed_to f fp C D e nm q s)"
    using C g l assms(4) unfolding flushed_to_def Let_def by (auto intro: only_blocks_put)
qed

lemma only_blocks_trans: "only_blocks X s0 s \<Longrightarrow> only_blocks X s s' \<Longrightarrow> only_blocks X s0 s'"
  by (simp add: only_blocks_def)

lemma at_end_level: "m < 8192 \<Longrightarrow> u_level fp = of_nat m \<Longrightarrow> u_bsize fp = 8192 \<Longrightarrow> at_end fp \<longleftrightarrow> m = 8191"
  by (auto simp: at_end_def level_words word_le_nat_alt unat_of_nat_small)

lemma u32_Suc: "(of_nat i :: u32) + 1 = of_nat (Suc i)"
  by simp

lemma size_step:
  assumes "Suc i < 2 ^ 32" "fs0 < 2 ^ 32"
  shows "(if (of_nat (Suc i) :: u32) > of_nat (max fs0 i) then (of_nat (max fs0 i) + 1 :: u32) else of_nat (max fs0 i)) = of_nat (max fs0 (Suc i))"
proof -
  have "(of_nat (Suc i) :: u32) > of_nat (max fs0 i) \<longleftrightarrow> Suc i > max fs0 i"
    using assms unfolding word_less_nat_alt by (subst u32_nat, simp)+ simp
  moreover have "fs0 \<le> i \<or> fs0 = Suc i \<or> Suc i < fs0" by linarith
  ultimately show ?thesis by (auto simp: max_def simp del: of_nat_Suc simp add: u32_Suc)
qed

text \<open>One byte: the file afterwards, before its offset moves on.\<close>

definition stored :: "UFILE \<Rightarrow> nat \<Rightarrow> u8 \<Rightarrow> u8 list \<Rightarrow> UFILE" where
  "stored fp m c b = fp\<lparr>u_flags := u_flags fp OR 0x10, u_level := of_nat m, u_buffer := take m b @ c # drop (Suc m) b\<rparr>"

lemma putc_stored:
  assumes fill: "fill_buffer fp s = Some fp1" "fp1\<lparr>u_flags := u_flags fp1 OR 0x10\<rparr> = fp\<lparr>u_flags := u_flags fp OR 0x10, u_buffer := b\<rparr>" "length b = 8192"
    and fp: "u_bsize fp = 8192" "u_off fp = of_nat i" "i < 2 ^ 32" "u_flags fp \<notin> {2, 3, 4, 5}"
  shows "putc_r (ucast c) fp s = do {
    (fp, s) \<leftarrow> (if i mod 8192 = 8191 then do {
                   let fp = (stored fp (i mod 8192) c b)\<lparr>u_flags := (u_flags fp OR 0x10) AND NOT 0x10, u_level := 0\<rparr>;
                   (_, s) \<leftarrow> flush_r fp s;
                   Some (fp, s) }
                 else Some (stored fp (i mod 8192) c b, s));
    let fp = fp\<lparr>u_off := u_off fp + 1\<rparr>;
    let fp = (if u_off fp > u_fsize fp then fp\<lparr>u_fsize := u_fsize fp + 1\<rparr> else fp);
    Some (0, fp\<lparr>u_flags := u_flags fp OR 0x80\<rparr>, s) }"
proof -
  have m: "i mod 8192 < 8192" by simp
  define fp2 where "fp2 = fp\<lparr>u_flags := u_flags fp OR 0x10, u_buffer := b\<rparr>"
  have sl: "set_level fp2 = Some (fp2\<lparr>u_level := of_nat (i mod 8192)\<rparr>)" using fp off_words(2) [OF fp(3)] by (simp add: set_level_def fp2_def)
  have p: "patch (i mod 8192) [c] b = Some (take (i mod 8192) b @ c # drop (Suc (i mod 8192)) b)" using assms(3) m by (simp add: patch_def)
  have ae: "at_end (stored fp (i mod 8192) c b) \<longleftrightarrow> i mod 8192 = 8191" by (rule at_end_level [OF m]) (simp_all add: stored_def fp)
  have st: "stored fp (i mod 8192) c b = fp2\<lparr>u_level := of_nat (i mod 8192), u_buffer := take (i mod 8192) b @ c # drop (Suc (i mod 8192)) b\<rparr>"
    by (simp add: fp2_def stored_def)
  have fl: "u_flags fp2 = u_flags fp OR 0x10" by (simp add: fp2_def)
  have cc: "(ucast (ucast c :: u32) :: u8) = c" by (simp add: ucast_up_ucast_id is_up.rep_eq)
  have "u_flags fp \<noteq> 5" "\<not> (u_flags fp = 2 \<or> u_flags fp = 3 \<or> u_flags fp = 4)" using fp(4) by auto
  moreover have "u_buffer (fp2\<lparr>u_level := of_nat (i mod 8192)\<rparr>) = b" by (simp add: fp2_def)
  ultimately show ?thesis unfolding putc_r_def fill(1)
    using level_words [OF m] by (simp add: fill(2) fp2_def [symmetric] sl p cc st [symmetric] ae Let_def split del: if_split)
      (cases "i mod 8192 = 8191"; simp add: stored_def fp2_def Let_def split del: if_split)
qed

lemma stored_prefix:
  assumes "length b = 8192" "m < 8192" "take m b = take m (drop k data)" "k + m < length data"
  shows "take (Suc m) (take m b @ data ! (k + m) # drop (Suc m) b) = take (Suc m) (drop k data)"
proof -
  have "take (Suc m) (drop k data) = take m (drop k data) @ [data ! (k + m)]" using assms(4) by (simp add: take_Suc_conv_app_nth)
  moreover have "length (take m b) = m" using assms(1,2) by simp
  ultimately show ?thesis using assms(3) by (metis append_eq_conv_conj append_Cons append_Nil append_assoc length_append_singleton)
qed

lemma stored_rest:
  assumes "length b = 8192" "m < 8192" "drop m b = drop m b'"
  shows "drop (Suc m) (take m b @ c # drop (Suc m) b) = drop (Suc m) b'"
proof -
  have "drop (Suc m) b = drop (Suc m) b'" using assms(3) drop_drop [of 1 m] by (metis plus_1_eq_Suc)
  moreover have "length (take m b) = m" using assms(1,2) by simp
  ultimately show ?thesis by (metis append_eq_conv_conj append_Cons append_Nil append_assoc length_append_singleton)
qed

lemma writing_step:
  assumes w: "writing s0 fs0 C D e nm data i fp s" and i: "i < 8192 * length C" "i < length data" and fs0: "fs0 \<le> 8192 * length C"
    and e: "0 < e" "e < 64" and nm: "length nm \<le> 95" "0 \<notin> set nm"
  shows "\<exists>fp' s'. putc_r (ucast (data ! i)) fp s = Some (0, fp', s') \<and> writing s0 fs0 C D e nm data (Suc i) fp' s'"
proof -
  let ?f = "super_at s0" and ?m = "i mod 8192" and ?q = "i div 8192"
  have at: "file_at s C D" and ob: "only_blocks (insert D (set C)) s0 s" and op: "opened ?f fp C D e nm" and su: "super_at s = ?f" and md: "u_mode fp = 2"
    and off: "u_off fp = of_nat i" and sz: "u_fsize fp = of_nat (max fs0 i)" and fl: "u_flags fp = (if i = 0 then 6 else if ?m = 0 then 0x86 else 0x96)"
    and root: "\<forall>x. upd_root e nm x (block_bytes ?f s D) = upd_root e nm x (block_bytes ?f s0 D)"
    and blocks: "\<forall>j < length C. block_bytes ?f s (C ! j) = (if j < ?q then chunk data j else block_bytes ?f s0 (C ! j))"
    using w by (simp_all add: writing_def only_blocks_def)
  have sm: "i < 2 ^ 32" "Suc i < 2 ^ 32" "fs0 < 2 ^ 32" using small_size [OF at, of "Suc i"] small_size [OF at fs0] i(1) by simp_all
  have m: "?m < 8192" and im: "8192 * ?q + ?m = i" by simp_all
  obtain fp1 b where fill: "fill_buffer fp s = Some fp1" "fp1\<lparr>u_flags := u_flags fp1 OR 0x10\<rparr> = fp\<lparr>u_flags := u_flags fp OR 0x10, u_buffer := b\<rparr>" "length b = 8192"
    and pre: "take ?m b = take ?m (drop (8192 * ?q) data)"
    and rest: "fs0 \<noteq> 0 \<or> 0 < ?q \<longrightarrow> drop ?m b = drop ?m (block_bytes ?f s0 (C ! ?q))"
    using fill_writing [OF w i(1) fs0] by (elim exE conjE) (rule that)
  define st where "st = stored fp ?m (data ! i) b"
  have opst: "opened ?f st C D e nm" "u_mode st = 2" "u_off st = of_nat i" "u_fsize st = of_nat (max fs0 i)" "u_flags st = u_flags fp OR 0x10"
    using op md off sz m fill(3) by (auto simp: st_def stored_def opened_def)
  have bu: "u_buffer st = take ?m b @ data ! i # drop (Suc ?m) b" by (simp add: st_def stored_def)
  have pre': "take (Suc ?m) (u_buffer st) = take (Suc ?m) (drop (8192 * ?q) data)"
    unfolding bu using stored_prefix [OF fill(3) m pre] i(2) im by simp
  have put: "putc_r (ucast (data ! i)) fp s = do {
    (fp, s) \<leftarrow> (if ?m = 8191 then do {
                   let fp = st\<lparr>u_flags := (u_flags fp OR 0x10) AND NOT 0x10, u_level := 0\<rparr>;
                   (_, s) \<leftarrow> flush_r fp s;
                   Some (fp, s) }
                 else Some (st, s));
    let fp = fp\<lparr>u_off := u_off fp + 1\<rparr>;
    let fp = (if u_off fp > u_fsize fp then fp\<lparr>u_fsize := u_fsize fp + 1\<rparr> else fp);
    Some (0, fp\<lparr>u_flags := u_flags fp OR 0x80\<rparr>, s) }"
    unfolding st_def by (rule putc_stored [OF fill _ off sm(1)]) (use op fl in \<open>auto simp: opened_def\<close>)
  define fin where "fin x = (let fp = x\<lparr>u_off := u_off x + 1\<rparr>; fp = (if u_off fp > u_fsize fp then fp\<lparr>u_fsize := u_fsize fp + 1\<rparr> else fp)
    in fp\<lparr>u_flags := u_flags fp OR 0x80\<rparr>)" for x :: UFILE
  have fin: "opened ?f (fin x) C D e nm \<and> u_mode (fin x) = 2 \<and> u_off (fin x) = of_nat (Suc i) \<and> u_fsize (fin x) = of_nat (max fs0 (Suc i)) \<and>
    u_flags (fin x) = u_flags x OR 0x80 \<and> u_buffer (fin x) = u_buffer x"
    if "opened ?f x C D e nm" "u_mode x = 2" "u_off x = of_nat i" "u_fsize x = of_nat (max fs0 i)" for x
    using that size_step [OF sm(2,3)] unfolding fin_def Let_def by (auto simp: opened_def u32_Suc simp del: of_nat_Suc split: if_splits)
  show ?thesis
  proof (cases "?m = 8191")
    case False
    then have d: "Suc i div 8192 = ?q" "Suc i mod 8192 = Suc ?m" by (simp_all add: div_Suc mod_Suc)
    have "fs0 \<noteq> 0 \<or> 0 < ?q \<longrightarrow> drop (Suc ?m) (u_buffer st) = drop (Suc ?m) (block_bytes ?f s0 (C ! ?q))"
      unfolding bu using rest by (intro impI stored_rest [OF fill(3) m]) blast
    moreover have "u_flags st OR 0x80 = 0x96" using fl opst(5) by (auto split: if_splits)
    ultimately have "writing s0 fs0 C D e nm data (Suc i) (fin st) s"
      using fin [OF opst(1-4)] at ob root blocks pre' unfolding writing_def d by simp
    moreover have "putc_r (ucast (data ! i)) fp s = Some (0, fin st, s)" using False by (simp add: put fin_def Let_def)
    ultimately show ?thesis by blast
  next
    case True
    then have d: "Suc i div 8192 = Suc ?q" "Suc i mod 8192 = 0" by (simp_all add: div_Suc mod_Suc)
    define st1 where "st1 = st\<lparr>u_flags := (u_flags fp OR 0x10) AND NOT 0x10, u_level := 0\<rparr>"
    have "u_flags fp = 0x96" using fl True by auto
    then have op1: "opened ?f st1 C D e nm" "u_mode st1 = 2" "u_off st1 = of_nat i" "u_fsize st1 = of_nat (max fs0 i)" "u_flags st1 = 0x86" "u_buffer st1 = u_buffer st"
      using opst by (simp_all add: st1_def opened_def)
    define s' where "s' = flushed_to ?f st1 C D e nm ?q s"
    have "opened (super_at s) st1 C D e nm" using op1(1) su by simp
    then have fls: "flush_r st1 s = Some (0, s')" unfolding s'_def su [symmetric]
      by (rule flush_ok [OF at _ e nm op1(2) _ op1(3)]) (use op1(5) i(1) in simp_all)
    have lb: "length (u_buffer st1) = 8192" using op1(1) by (simp add: opened_def)
    note fb = flushed_to_blocks [OF at lb e(2) su [symmetric], where nm = nm and q = ?q, folded s'_def]
    have "only_blocks (insert D (set C)) s0 s'" "file_at s' C D" using fb(3) ob at only_blocks_trans only_blocks_file_at by blast+
    moreover have ch: "u_buffer st1 = chunk data ?q" using pre' True lb op1(6) by (simp add: chunk_def)
    moreover have "length (block_bytes ?f s D) = 8192" using at by (simp add: file_at_def)
    then have "upd_root e nm x (block_bytes ?f s' D) = upd_root e nm x (block_bytes ?f s0 D)" for x
      using fb(1) root upd_root_twice [of "block_bytes ?f s D" e] e(2) by metis
    moreover have "block_bytes ?f s' (C ! j) = (if j < Suc ?q then chunk data j else block_bytes ?f s0 (C ! j))" if "j < length C" for j
      using fb(2) [OF that] ch blocks that by (simp add: less_Suc_eq)
    ultimately have "writing s0 fs0 C D e nm data (Suc i) (fin st1) s'"
      using fin [OF op1(1-4)] op1(5) unfolding writing_def d by simp
    moreover have "putc_r (ucast (data ! i)) fp s = Some (0, fin st1, s')" unfolding put st1_def [symmetric] using True fls by (simp add: fin_def Let_def)
    ultimately show ?thesis by blast
  qed
qed

lemma writing_start:
  assumes "file_at s C D" "opened (super_at s) fp C D e nm" "u_mode fp = 2" "u_off fp = 0" "u_flags fp = 6" "u_fsize fp = of_nat fs0"
  shows "writing s fs0 C D e nm data 0 fp s"
  using assms by (simp add: writing_def only_blocks_refl file_at_def)

lemma write_loop_ok:
  assumes "length data \<le> 8192 * length C" "fs0 \<le> 8192 * length C" and e: "0 < e" "e < 64" and nm: "length nm \<le> 95" "0 \<notin> set nm"
  shows "writing s0 fs0 C D e nm data i fp s \<Longrightarrow> i \<le> length data \<Longrightarrow>
    \<exists>fp' s'. write_loop (drop i data) fp s = Some (fp', s') \<and> writing s0 fs0 C D e nm data (length data) fp' s'"
proof (induction "length data - i" arbitrary: i fp s)
  case (Suc k)
  then have i: "i < length data" "i < 8192 * length C" using assms(1) by linarith+
  obtain fp' s' where st: "putc_r (ucast (data ! i)) fp s = Some (0, fp', s')" "writing s0 fs0 C D e nm data (Suc i) fp' s'"
    using writing_step [OF Suc.prems(1) i(2,1) assms(2) e nm] by blast
  have "\<exists>fp2 s2. write_loop (drop (Suc i) data) fp' s' = Some (fp2, s2) \<and> writing s0 fs0 C D e nm data (length data) fp2 s2"
    using Suc.hyps(2) i(1) by (intro Suc.hyps(1) st(2)) linarith+
  then show ?case using st(1) by (simp add: Cons_nth_drop_Suc [OF i(1), symmetric])
qed auto

end
