(* ===== verification/Uround.thy ===== *)
theory Uround
  imports Uwrite
begin

text \<open>
  What a file holds after it was written and closed, and what a program reads that opens it again.
\<close>

section \<open>The contents of a file\<close>

definition content :: "super_block \<Rightarrow> user_state \<Rightarrow> nat list \<Rightarrow> u8 list" where
  "content f s C = concat (map (block_bytes f s) C)"

lemma content_length [simp]: "disk_ok s \<Longrightarrow> length (content f s C) = 8192 * length C"
  by (simp add: content_def concat_length [where n = 8192])

lemma content_nth: "disk_ok s \<Longrightarrow> x < 8192 * length C \<Longrightarrow> content f s C ! x = block_bytes f s (C ! (x div 8192)) ! (x mod 8192)"
  using concat_nth [of "map (block_bytes f s) C" 8192 "x div 8192" "x mod 8192"] block_index [of x "length C"] by (simp add: content_def)

lemma chunk_nth: "x < length data \<Longrightarrow> chunk data (x div 8192) ! (x mod 8192) = data ! x"
  by (simp add: chunk_def)

lemma same_content:
  assumes ok: "disk_ok s" "disk_ok s'" and n: "length data \<le> 8192 * length C"
    and whole: "\<And>j. j < length C \<Longrightarrow> j < length data div 8192 \<Longrightarrow> block_bytes f s' (C ! j) = chunk data j"
    and last: "take (length data mod 8192) (block_bytes f s' (C ! (length data div 8192))) = take (length data mod 8192) (drop (8192 * (length data div 8192)) data)"
  shows "take (length data) (content f s' C) = data"
proof (rule nth_equalityI)
  show "length (take (length data) (content f s' C)) = length data" using n ok by simp
  fix x assume "x < length (take (length data) (content f s' C))"
  then have x: "x < length data" by simp
  then have xC: "x < 8192 * length C" using n by linarith
  have le: "x div 8192 \<le> length data div 8192" using x by (simp add: div_le_mono)
  have c: "take (length data) (content f s' C) ! x = block_bytes f s' (C ! (x div 8192)) ! (x mod 8192)" using x content_nth [OF ok(2) xC] by simp
  show "take (length data) (content f s' C) ! x = data ! x"
  proof (cases "x div 8192 = length data div 8192")
    case True
    then have m: "x mod 8192 < length data mod 8192" using x div_mult_mod_eq [of x 8192] div_mult_mod_eq [of "length data" 8192] by linarith
    have "block_bytes f s' (C ! (x div 8192)) ! (x mod 8192) = take (length data mod 8192) (block_bytes f s' (C ! (x div 8192))) ! (x mod 8192)" using m by simp
    also have "\<dots> = drop (8192 * (x div 8192)) data ! (x mod 8192)" unfolding True last using m by simp
    also have "\<dots> = data ! x" using x by simp
    finally show ?thesis using c by simp
  next
    case False
    then show ?thesis using c le whole [OF block_index [OF xC]] chunk_nth [OF x] by simp
  qed
qed

lemma same_rest:
  assumes ok: "disk_ok s" "disk_ok s'" and n: "n \<le> 8192 * length C"
    and other: "\<And>j. j < length C \<Longrightarrow> n div 8192 < j \<Longrightarrow> block_bytes f s' (C ! j) = block_bytes f s (C ! j)"
    and last: "n div 8192 < length C \<Longrightarrow> drop (n mod 8192) (block_bytes f s' (C ! (n div 8192))) = drop (n mod 8192) (block_bytes f s (C ! (n div 8192)))"
  shows "drop n (content f s' C) = drop n (content f s C)"
proof (rule nth_equalityI)
  show "length (drop n (content f s' C)) = length (drop n (content f s C))" using ok by simp
  fix y assume "y < length (drop n (content f s' C))"
  then have x: "n + y < 8192 * length C" using ok by simp
  define x where "x = n + y"
  have xC: "x < 8192 * length C" and nx: "n \<le> x" using x by (simp_all add: x_def)
  have "block_bytes f s' (C ! (x div 8192)) ! (x mod 8192) = block_bytes f s (C ! (x div 8192)) ! (x mod 8192)"
  proof (cases "x div 8192 = n div 8192")
    case True
    then have m: "n mod 8192 \<le> x mod 8192" using nx div_mult_mod_eq [of x 8192] div_mult_mod_eq [of n 8192] by linarith
    have "drop (n mod 8192) b ! (x mod 8192 - n mod 8192) = b ! (x mod 8192)" if "length b = 8192" for b :: "u8 list" using that m by simp
    from this [of "block_bytes f s' (C ! (x div 8192))"] this [of "block_bytes f s (C ! (x div 8192))"]
    show ?thesis using last block_index [OF xC] ok True by simp
  next
    case False
    then show ?thesis using other [OF block_index [OF xC]] div_le_mono [OF nx, of 8192] by simp
  qed
  then show "drop n (content f s' C) ! y = drop n (content f s C) ! y"
    using x ok content_nth [OF ok(1) xC] content_nth [OF ok(2) xC] by (simp add: x_def)
qed

section \<open>Writing and closing\<close>

lemma write_close:
  assumes at: "file_at s C D" and op: "opened (super_at s) fp C D e nm" and fp: "u_mode fp = 2" "u_off fp = 0" "u_flags fp = 6" "u_fsize fp = of_nat fs0"
    and n: "data \<noteq> []" "length data \<le> 8192 * length C" "fs0 \<le> 8192 * length C" and e: "0 < e" "e < 64" and nm: "length nm \<le> 95" "0 \<notin> set nm"
  shows "\<exists>fp1 s1 s'. write_r data 1 (length data) (Some fp) s = Some (length data, Some fp1, s1) \<and> close_r (Some fp1) s1 = Some (0, s') \<and>
    writing s fs0 C D e nm data (length data) fp1 s1 \<and> s' = flushed_to (super_at s) fp1 C D e nm (length data div 8192) s1"
proof -
  have w0: "writing s fs0 C D e nm data 0 fp s" by (rule writing_start [OF at op fp])
  obtain fp1 s1 where l: "write_loop data fp s = Some (fp1, s1)" and w: "writing s fs0 C D e nm data (length data) fp1 s1"
    using write_loop_ok [OF n(2,3) e nm w0] by auto
  have at1: "file_at s1 C D" and op1: "opened (super_at s) fp1 C D e nm" and su: "super_at s1 = super_at s" and md: "u_mode fp1 = 2"
    and off: "u_off fp1 = of_nat (length data)" and fl: "u_flags fp1 = 0x86 \<or> u_flags fp1 = 0x96"
    using w n(1) by (auto simp: writing_def only_blocks_def)
  have "length data < 2 ^ 31" using n(2) at by (simp add: file_at_def)
  then have "write_r data 1 (length data) (Some fp) s = Some (length data, Some fp1, s1)" by (simp add: write_r_def l)
  moreover have "opened (super_at s1) fp1 C D e nm" using op1 su by simp
  then have "flush_r fp1 s1 = Some (0, flushed_to (super_at s) fp1 C D e nm (length data div 8192) s1)"
    using flush_ok [OF at1 _ e nm md fl off n(2)] su by simp
  ultimately show ?thesis using w by (simp add: close_r_def)
qed

lemma write_close_content:
  assumes at: "file_at s C D" and op: "opened (super_at s) fp C D e nm" and fp: "u_mode fp = 2" "u_off fp = 0" "u_flags fp = 6" "u_fsize fp = of_nat fs0"
    and n: "data \<noteq> []" "length data \<le> 8192 * length C" "fs0 \<le> 8192 * length C" and m: "length data mod 8192 \<noteq> 0 \<or> length data = 8192 * length C"
    and e: "0 < e" "e < 64" and nm: "length nm \<le> 95" "0 \<notin> set nm"
  shows "\<exists>fp1 s1 s'. write_r data 1 (length data) (Some fp) s = Some (length data, Some fp1, s1) \<and> close_r (Some fp1) s1 = Some (0, s') \<and>
    take (length data) (content (super_at s) s' C) = data \<and> (fs0 \<noteq> 0 \<longrightarrow> drop (length data) (content (super_at s) s' C) = drop (length data) (content (super_at s) s C)) \<and>
    block_bytes (super_at s) s' D = upd_root e nm (of_nat (max fs0 (length data))) (block_bytes (super_at s) s D) \<and> only_blocks (insert D (set C)) s s'"
proof -
  let ?f = "super_at s" and ?n = "length data"
  obtain fp1 s1 s' where c: "write_r data 1 ?n (Some fp) s = Some (?n, Some fp1, s1)" "close_r (Some fp1) s1 = Some (0, s')"
    and w: "writing s fs0 C D e nm data ?n fp1 s1" and s': "s' = flushed_to ?f fp1 C D e nm (?n div 8192) s1"
    using write_close [OF at op fp n e nm] by blast
  have at1: "file_at s1 C D" and ob: "only_blocks (insert D (set C)) s s1" and op1: "opened ?f fp1 C D e nm" and su: "?f = super_at s1"
    and sz: "u_fsize fp1 = of_nat (max fs0 ?n)"
    and root: "\<forall>x. upd_root e nm x (block_bytes ?f s1 D) = upd_root e nm x (block_bytes ?f s D)"
    and blocks: "\<forall>j < length C. block_bytes ?f s1 (C ! j) = (if j < ?n div 8192 then chunk data j else block_bytes ?f s (C ! j))"
    and pre: "take (?n mod 8192) (u_buffer fp1) = take (?n mod 8192) (drop (8192 * (?n div 8192)) data)"
    and rest: "?n mod 8192 \<noteq> 0 \<Longrightarrow> fs0 \<noteq> 0 \<Longrightarrow> drop (?n mod 8192) (u_buffer fp1) = drop (?n mod 8192) (block_bytes ?f s (C ! (?n div 8192)))"
    using w by (simp_all add: writing_def only_blocks_def)
  have lb: "length (u_buffer fp1) = 8192" using op1 by (simp add: opened_def)
  note fb = flushed_to_blocks [OF at1 lb e(2) su, where nm = nm and q = "?n div 8192", folded s']
  have ob': "only_blocks (insert D (set C)) s s'" by (rule only_blocks_trans [OF ob fb(3)])
  have ok: "disk_ok s" "disk_ok s'" using at ob' by (simp_all add: file_at_def only_blocks_def)
  have mq: "?n mod 8192 \<noteq> 0" if "?n div 8192 < length C" using m that by auto
  have "take ?n (content ?f s' C) = data"
  proof (rule same_content [OF ok n(2)])
    show "block_bytes ?f s' (C ! j) = chunk data j" if "j < length C" "j < ?n div 8192" for j using fb(2) [OF that(1)] blocks that by simp
    show "take (?n mod 8192) (block_bytes ?f s' (C ! (?n div 8192))) = take (?n mod 8192) (drop (8192 * (?n div 8192)) data)"
    proof (cases "?n div 8192 < length C")
      case True then show ?thesis using fb(2) pre by simp
    next
      case False then show ?thesis using m n(2) by (metis block_index mod_mult_self1_is_0 order_le_less take0)
    qed
  qed
  moreover have "drop ?n (content ?f s' C) = drop ?n (content ?f s C)" if "fs0 \<noteq> 0"
  proof (rule same_rest [OF ok n(2)])
    show "block_bytes ?f s' (C ! j) = block_bytes ?f s (C ! j)" if "j < length C" "?n div 8192 < j" for j using fb(2) [OF that(1)] blocks that by simp
    show "drop (?n mod 8192) (block_bytes ?f s' (C ! (?n div 8192))) = drop (?n mod 8192) (block_bytes ?f s (C ! (?n div 8192)))" if "?n div 8192 < length C"
      using fb(2) [OF that] rest mq [OF that] \<open>fs0 \<noteq> 0\<close> by simp
  qed
  moreover have "block_bytes ?f s' D = upd_root e nm (of_nat (max fs0 ?n)) (block_bytes ?f s D)" using fb(1) root sz by simp
  ultimately show ?thesis using c ob' by blast
qed

section \<open>Reading\<close>

text \<open>\<open>i\<close> bytes were read from a file with the blocks \<open>C\<close>.\<close>

definition reading_u :: "user_state \<Rightarrow> nat \<Rightarrow> nat list \<Rightarrow> nat \<Rightarrow> nat \<Rightarrow> u8 list \<Rightarrow> nat \<Rightarrow> UFILE \<Rightarrow> bool" where
  "reading_u s sz C D e nm i fp \<longleftrightarrow> opened (super_at s) fp C D e nm \<and> u_off fp = of_nat i \<and> u_fsize fp = of_nat sz \<and>
     u_flags fp = (if i mod 8192 = 0 then 6 else 0x16) \<and> (i mod 8192 \<noteq> 0 \<longrightarrow> u_buffer fp = block_bytes (super_at s) s (C ! (i div 8192)))"

lemma fill_reading:
  assumes at: "file_at s C D" and r: "reading_u s sz C D e nm i fp" and i: "i < sz" and sz: "sz \<le> 8192 * length C"
  shows "fill_buffer fp s = Some (fp\<lparr>u_flags := 0x16, u_buffer := block_bytes (super_at s) s (C ! (i div 8192))\<rparr>)"
proof (cases "i mod 8192 = 0")
  case True
  have op: "opened (super_at s) fp C D e nm" using r by (simp add: reading_u_def)
  have sm: "i < 2 ^ 32" "sz < 2 ^ 32" using small_size [OF at sz] i by simp_all
  have q: "i div 8192 < length C" using i sz by (intro block_index) simp
  have le: "u_off fp \<le> u_fsize fp" using r sm i by (simp add: reading_u_def word_le_nat_alt u32_nat)
  have nz: "u_fsize fp \<noteq> 0" using r i u32_nat [OF sm(2)] by (auto simp: reading_u_def)
  have off: "u_off fp div u_bsize fp = of_nat (i div 8192)" "u_bsize fp \<noteq> 0" using r op off_words(1) [OF sm(1)] by (simp_all add: reading_u_def opened_def)
  have fl: "u_flags fp = 6" using r True by (simp add: reading_u_def)
  have "opened (super_at s) (fp\<lparr>u_flags := 0x16\<rparr>) C D e nm" using op by (simp add: opened_def)
  from file_read_ok [OF at this q] show ?thesis using le nz off fl by (simp add: fill_buffer_def Let_def)
next
  case False
  then have "fp\<lparr>u_flags := 0x16, u_buffer := block_bytes (super_at s) s (C ! (i div 8192))\<rparr> = fp" using r by (simp add: reading_u_def)
  then show ?thesis using r False by (simp add: fill_buffer_def reading_u_def)
qed

lemma reading_step:
  assumes at: "file_at s C D" and r: "reading_u s sz C D e nm i fp" and i: "i < sz" and sz: "sz \<le> 8192 * length C"
  shows "\<exists>fp'. getc_r env fp s = Some (int (unat (content (super_at s) s C ! i)), fp') \<and> reading_u s sz C D e nm (Suc i) fp'"
proof -
  let ?m = "i mod 8192" and ?b = "block_bytes (super_at s) s (C ! (i div 8192))"
  have m: "?m < 8192" by simp
  have ok: "disk_ok s" using at by (simp add: file_at_def)
  have lb: "length ?b = 8192" using ok by simp
  have op: "opened (super_at s) fp C D e nm" using r by (simp add: reading_u_def)
  have sm: "i < 2 ^ 32" "sz < 2 ^ 32" using small_size [OF at sz] i by simp_all
  define fp1 where "fp1 = fp\<lparr>u_flags := 0x16, u_buffer := ?b, u_level := of_nat ?m\<rparr>"
  have sl: "set_level (fp\<lparr>u_flags := 0x16, u_buffer := ?b\<rparr>) = Some fp1" using r op off_words(2) [OF sm(1)] by (simp add: set_level_def fp1_def reading_u_def opened_def)
  have lv: "u_level fp1 = of_nat ?m" "u_bsize fp1 = 8192" using op by (simp_all add: fp1_def opened_def)
  have bt: "u_byte (ucast (u_level fp1)) fp1 = Some (content (super_at s) s C ! i)"
    unfolding lv(1) level_words(4) [OF m] using m lb content_nth [OF ok, of i C "super_at s"] i sz by (simp add: u_byte_def u32_nat fp1_def)
  have lt: "\<not> u_off fp \<ge> u_fsize fp" using r sm i by (simp add: reading_u_def word_le_nat_alt u32_nat)
  have fl: "u_flags fp \<noteq> 5" "\<not> (u_flags fp = 2 \<or> u_flags fp = 3 \<or> u_flags fp = 4)" using r by (auto simp: reading_u_def)
  define fp2 where "fp2 = (if ?m = 8191 then fp1\<lparr>u_flags := u_flags fp1 AND NOT 0x10, u_level := 0\<rparr> else fp1)"
  have sg: "\<not> sint (u_level fp1) < 0" using lv(1) level_words(2) [OF m] by simp
  have "getc_r env fp s = Some (int (unat (content (super_at s) s C ! i)), fp2\<lparr>u_off := u_off fp2 + 1\<rparr>)"
    unfolding getc_r_def fill_reading [OF at r i sz] using fl lt sg by (simp add: sl bt at_end_level [OF m lv] fp2_def Let_def)
  moreover have "reading_u s sz C D e nm (Suc i) (fp2\<lparr>u_off := u_off fp2 + 1\<rparr>)"
  proof (cases "?m = 8191")
    case True
    then have "Suc i mod 8192 = 0" by (simp add: mod_Suc)
    then show ?thesis using True r lb by (simp add: reading_u_def opened_def fp2_def fp1_def u32_Suc)
  next
    case False
    then have "Suc i div 8192 = i div 8192" "Suc i mod 8192 = Suc ?m" by (simp_all add: div_Suc mod_Suc)
    then show ?thesis using False r lb by (simp add: reading_u_def opened_def fp2_def fp1_def u32_Suc)
  qed
  ultimately show ?thesis by blast
qed

lemma reading_end:
  assumes "file_at s C D" "reading_u s sz C D e nm sz fp"
  shows "getc_r env fp s = Some (EOF, fp)"
  using assms by (auto simp: getc_r_def reading_u_def)

lemma read_loop_ok:
  assumes at: "file_at s C D" and sz: "sz \<le> 8192 * length C"
  shows "reading_u s sz C D e nm i fp \<Longrightarrow> i \<le> sz \<Longrightarrow>
    \<exists>fp'. read_loop env k buf fp s = Some (buf @ take k (take (sz - i) (drop i (content (super_at s) s C))), fp')"
proof (induction k arbitrary: i buf fp)
  case (Suc k)
  have ok: "disk_ok s" using at by (simp add: file_at_def)
  show ?case
  proof (cases "i = sz")
    case True then show ?thesis using reading_end [OF at] Suc.prems(1) by simp
  next
    case False
    then have i: "i < sz" using Suc.prems(2) by simp
    let ?c = "content (super_at s) s C ! i"
    obtain fp' where st: "getc_r env fp s = Some (int (unat ?c), fp')" "reading_u s sz C D e nm (Suc i) fp'" using reading_step [OF at Suc.prems(1) i sz] by blast
    have "Suc i \<le> sz" using i by simp
    from Suc.IH [OF st(2) this, of "buf @ [?c]"] obtain fp2 where
      "read_loop env k (buf @ [?c]) fp' s = Some ((buf @ [?c]) @ take k (take (sz - Suc i) (drop (Suc i) (content (super_at s) s C))), fp2)" by blast
    moreover have "drop i (content (super_at s) s C) = ?c # drop (Suc i) (content (super_at s) s C)"
      using i sz ok by (intro Cons_nth_drop_Suc [symmetric]) simp
    moreover have "sz - i = Suc (sz - Suc i)" using i by simp
    ultimately show ?thesis using st(1) by simp (use uint_ge_0 [of ?c] in linarith)
  qed
qed simp

lemma read_all:
  assumes at: "file_at s C D" and sz: "sz \<le> 8192 * length C" and r: "reading_u s sz C D e nm 0 fp" and k: "k < 2 ^ 31"
  shows "\<exists>fp'. read_r env 1 k (Some fp) s = Some (min k sz, take k (take sz (content (super_at s) s C)), Some fp')"
proof -
  obtain fp' where "read_loop env k [] fp s = Some (take k (take sz (content (super_at s) s C)), fp')"
    using read_loop_ok [OF at sz r, of env k "[]"] by auto
  moreover have "length (take k (take sz (content (super_at s) s C))) = min k sz" using sz at by (simp add: file_at_def)
  ultimately show ?thesis using k by (simp add: read_r_def)
qed

end
