(* ===== verification/Uopen.thy ===== *)
theory Uopen
  imports Uround
begin

text \<open>
  Opening a file by its name: its blocks are its chain, its size is in its entry.
\<close>

section \<open>Opening\<close>

lemma assert_fn_blanks: "length xs + k = n \<Longrightarrow> assert_fn_loop n (xs @ replicate k 32 @ ys) = assert_fn_loop (length xs) (xs @ replicate k 0 @ ys)"
proof (induction k arbitrary: n ys)
  case (Suc k)
  then obtain n' where n: "n = Suc n'" "length xs + k = n'" by (cases n) auto
  have e: "xs @ replicate (Suc k) 32 @ ys = (xs @ replicate k 32) @ 32 # ys" by (simp add: replicate_append_same)
  have l: "length (xs @ replicate k 32) = n'" using n by simp
  have "assert_fn_loop n (xs @ replicate (Suc k) 32 @ ys) = assert_fn_loop n' ((xs @ replicate k 32) @ 0 # ys)"
    unfolding e n(1) using nth_append_length [of "xs @ replicate k 32" 32 ys] list_update_length [of "xs @ replicate k 32" 32 ys 0] l
    by (simp only: assert_fn_loop.simps if_True refl)
  also have "\<dots> = assert_fn_loop (length xs) (xs @ replicate k 0 @ 0 # ys)" using Suc.IH [OF n(2)] by simp
  also have "xs @ replicate k 0 @ 0 # ys = xs @ replicate (Suc k) 0 @ ys" by (simp add: replicate_append_same)
  finally show ?case .
qed simp

lemma assert_fn_name:
  assumes "xs \<noteq> []" "length xs \<le> 96" "last xs \<noteq> 32"
  shows "assert_fn (pad_name 96 xs @ ys) = xs @ replicate (96 - length xs) 0 @ ys"
proof -
  obtain k where k: "length xs = Suc k" using assms(1) by (cases xs) auto
  have "(xs @ zs) ! k = last xs" for zs using k assms(1) by (simp add: last_conv_nth nth_append)
  then have "assert_fn_loop (length xs) (xs @ zs) = xs @ zs" for zs using k assms(3) by simp
  then show ?thesis using assms(2) assert_fn_blanks [of xs "96 - length xs" 96 ys] by (simp add: assert_fn_def pad_name_short)
qed

lemma c_string_name: "0 \<notin> set xs \<Longrightarrow> length xs < 96 \<Longrightarrow> c_string_u (xs @ replicate (96 - length xs) 0 @ ys) = xs"
  by (cases "96 - length xs") (auto simp: c_string_u_def takeWhile_append takeWhile_eq_all_conv [THEN iffD2])

definition writable :: "u8 list \<Rightarrow> bool" where
  "writable mode \<longleftrightarrow> mode_at 0 mode = 119 \<or> mode_at 1 mode = 43 \<or> mode_at 0 mode = 97"

text \<open>The file \<open>name\<close> has the entry \<open>i\<close> of the directory at block \<open>D\<close> and the blocks \<open>C\<close>.\<close>

definition has_file :: "user_state \<Rightarrow> nat list list \<Rightarrow> nat list \<Rightarrow> nat \<Rightarrow> nat \<Rightarrow> u8 list \<Rightarrow> bool" where
  "has_file s Cs C D i name \<longleftrightarrow> cfs_geom (super_at s) \<and> fs_inv (super_at s) s (C # Cs) \<and> length C < 2 ^ 18 \<and> D \<in> set (concat Cs) \<and>
     entry_of (super_at s) s D name i \<and> 0 < i \<and> file_name_ok name \<and>
     de_first_blk (dirent i (block_bytes (super_at s) s D)) = of_nat (hd C) \<and> de_dir_entry (dirent i (block_bytes (super_at s) s D)) = of_nat i"

lemma has_file_at: "has_file s Cs C D i name \<Longrightarrow> file_at s C D"
  by (auto simp: has_file_def file_at_def fs_inv_def)

lemma open_existing:
  assumes f: "has_file s Cs C D i name" and res: "resolves mem1 s path name D" and mem: "length mem0 = 8192" "length mem1 = 8192"
  shows "\<exists>fp. open_file_u mem0 mem1 path mode s = Some (Some fp, s) \<and> opened (super_at s) fp C D i name \<and> u_mode fp = (if writable mode then 2 else 1) \<and>
    u_flags fp = 6 \<and> u_fsize fp = de_file_size (dirent i (block_bytes (super_at s) s D)) \<and> u_off fp = (if mode_at 0 mode = 97 then u_fsize fp else 0)"
proof -
  define f where "f = (super_at s)\<lparr>sb_root_blk := of_nat D\<rparr>"
  have fe [simp]: "fat (super_at s) = fat f" "block_bytes (super_at s) = block_bytes f" "nblk (super_at s) = nblk f" "cfs_geom (super_at s) = cfs_geom f"
    by (simp_all add: f_def)
  have be: "base (super_at s) = base f" by (simp add: f_def base_def data_sector_def)
  have at: "file_at s C D" by (rule has_file_at [OF f])
  have g: "cfs_geom f" and ok: "disk_ok s" and D: "D < nblk f" and Cb: "\<forall>c \<in> set C. c < nblk f" using at by (auto simp: file_at_def)
  have ch: "fchain (fat f s) C" and lC: "length C < 2 ^ 18" and en: "entry_of (super_at s) s D name i" and i: "0 < i" and nm: "file_name_ok name"
    and fb: "de_first_blk (dirent i (block_bytes f s D)) = of_nat (hd C)" and di: "de_dir_entry (dirent i (block_bytes f s D)) = of_nat i"
    using f by (auto simp: has_file_def fs_inv_def)
  have n: "name \<noteq> []" "length name < 96" "0 \<notin> set name" "47 \<notin> set name" "last name \<noteq> 32" using nm by (auto simp: file_name_ok_def)
  obtain tp tp' where p: "getpathname (u_pwd s) path = Some (tp, path)" "getfilename tp = Some (name, tp')" "3 \<le> length tp'"
    "read_directory_blk (drop 3 tp') (super_at s) mem1 s = Some (of_nat D)" "0 < D" "D < 2 ^ 32"
    using res by (auto simp: resolves_def split: option.splits prod.splits)
  have Dnz: "(of_nat D :: u32) \<noteq> 0" using p(5,6) u32_nat [OF p(6)] by (metis neq0_conv unat_0)
  have root: "sb_root_blk f = of_nat D" by (simp add: f_def)
  let ?d = "dirent i (block_bytes f s D)"
  have l: "length (block_bytes f s D) = 8192" using ok by simp
  have rd: "read_root f (of_nat D) (replicate 8192 0) s = Some (0, block_bytes f s D)" by (rule read_root_ok [OF g ok D]) simp
  have fd: "i < 64" "find_dirent (\<lambda>d. de_busy d \<noteq> 0) (block_bytes f s D) name 0 0 = (0, i)"
    using en find_dirent_found [OF l] by (auto simp: entry_of_def)
  have re: "read_directory_entry_u f name s = Some (0, Some ?d)" using fd by (simp add: read_directory_entry_u_def root rd)
  have su: "read_super_block_u \<lparr>p_dv_num = 0, p_start = 1\<rparr> s = Some (0, super_at s)" by (rule super_ok [OF ok])
  define bl :: "u32 list" where "bl = map (\<lambda>b. of_nat (base f + 16 * b)) C"
  have fc: "fat_chain f 0 (de_first_blk ?d) (- 1) mem1 [] s = Some (Some bl)"
    unfolding fb bl_def using fat_chain_ok [OF g ok ch Cb, of 0 mem1 "- 1" "[]"] lC mem(2) by simp
  have dn: "de_file_name ?d = pad_name 96 name" using en by (simp add: entry_of_def matches_def)
  define fn where "fn = name @ replicate (96 - length name) 0 @ replicate 160 (0 :: u8)"
  have fn: "assert_fn (de_file_name ?d @ replicate 160 0) = fn" unfolding dn fn_def using n by (simp add: assert_fn_name)
  have cn: "get_file_name (c_string_u fn) = name" unfolding fn_def using n by (simp add: c_string_name get_file_name_plain)
  have gg: "sb_byte_per_sector f = 512" "sb_sector_per_blk f = 16" using g by (simp_all add: cfs_geom_def)
  define fp where "fp = UFILE_zero\<lparr>u_bsize := 8192, u_buffer := mem0, u_fsize := de_file_size ?d, u_byte_per_sector := 512, u_count := 16, u_dv_num := 0,
    u_blocks := bl, u_num_of_blocks := of_nat (length bl), u_fname := fn, u_mode := if writable mode then 2 else 1, u_flags := 6, u_dir_cluster := of_nat D, u_dir_entry := of_nat i,
    u_off := if mode_at 0 mode = 97 then de_file_size ?d else 0\<rparr>"
  have "open_file_u mem0 mem1 path mode s = Some (Some fp, s)"
    unfolding open_file_u_def using p(3) Dnz
    by (simp add: p(1,2,4) su f_def [symmetric] re open_file_r_u_def fc gg UFILE_zero_def fn di root fp_def writable_def Let_def)
  moreover have "opened (super_at s) fp C D i name" using mem(1) cn be by (simp add: opened_def fp_def bl_def)
  ultimately show ?thesis by (intro exI [of _ fp]) (simp add: fp_def)
qed

end
