(* ===== verification/Ufiles.thy ===== *)
theory Ufiles
  imports Uopen
begin

text \<open>
  Programs that write a file, close it, open it again and read it, in the root directory of the disk.
\<close>

section \<open>The file system after a file was written\<close>

lemma fs_inv_cong: "fs_inv f s Cs \<Longrightarrow> disk_ok s' \<Longrightarrow> \<forall>c < nblk f. fat f s' c = fat f s c \<Longrightarrow> fs_inv f s' Cs"
proof -
  assume i: "fs_inv f s Cs" and ok: "disk_ok s'" and e: "\<forall>c < nblk f. fat f s' c = fat f s c"
  have "fchain (fat f s') C" if C: "C \<in> set Cs" for C
  proof -
    have "\<forall>b \<in> set C. b < nblk f" using i C unfolding fs_inv_def by auto
    then show ?thesis using i C e by (subst fchain_cong [where ft' = "fat f s"]) (auto simp: fs_inv_def)
  qed
  then show ?thesis using i ok e by (simp add: fs_inv_def)
qed

lemma has_file_written:
  assumes f: "has_file s Cs C D i name" and o: "only_blocks (insert D (set C)) s s'" and r: "block_bytes (super_at s) s' D = upd_root i name sz (block_bytes (super_at s) s D)"
  shows "has_file s' Cs C D i name" and "de_file_size (dirent i (block_bytes (super_at s') s' D)) = sz"
proof -
  have su: "super_at s' = super_at s" using o by (simp add: only_blocks_def)
  have "disk_ok s'" "\<forall>c < nblk (super_at s). fat (super_at s) s' c = fat (super_at s) s c" using o unfolding only_blocks_def by blast+
  moreover have "fs_inv (super_at s) s (C # Cs)" using f unfolding has_file_def by blast
  ultimately have inv: "fs_inv (super_at s) s' (C # Cs)" by (blast intro: fs_inv_cong)
  have en: "entry_of (super_at s) s D name i" and "disk_ok s" using f unfolding has_file_def fs_inv_def by blast+
  then have l: "length (block_bytes (super_at s) s D) = 8192" by simp
  have i: "i < 64" using en by (simp add: entry_of_def)
  note d = dirent_upd_root [OF l i, of _ name sz]
  have m: "matches (\<lambda>d. de_busy d \<noteq> 0) (upd_root i name sz (block_bytes (super_at s) s D)) name j = matches (\<lambda>d. de_busy d \<noteq> 0) (block_bytes (super_at s) s D) name j" if "j \<le> i" for j
    using that i en by (auto simp: matches_def d entry_of_def)
  have "entry_of (super_at s) s' D name i" using en m by (simp add: entry_of_def r)
  then show "has_file s' Cs C D i name" using f inv i by (simp add: has_file_def su r d)
  show "de_file_size (dirent i (block_bytes (super_at s') s' D)) = sz" using i by (simp add: su r d)
qed

text \<open>A plain name, in a root directory at block \<open>D\<close>, while the program works there.\<close>

definition in_root :: "user_state \<Rightarrow> nat \<Rightarrow> bool" where
  "in_root s D \<longleftrightarrow> sb_root_blk (super_at s) = of_nat D \<and> (\<exists>c. c \<noteq> 47 \<and> u_pwd s = [c, 58])"

lemma has_file_D: "has_file s Cs C D i name \<Longrightarrow> 0 < D \<and> D < 2 ^ 32"
  using has_file_at [of s Cs C D i name] by (auto simp: file_at_def cfs_geom_def table_blks_def)

lemma open_in_root:
  assumes f: "has_file s Cs C D i name" and r: "in_root s D" and mem: "length mem0 = 8192" "length mem1 = 8192" and mode: "mode_at 0 mode \<noteq> 0" "mode_at 0 mode \<noteq> 97"
  shows "\<exists>fp. open_r mem0 mem1 name mode s = Some (Some fp, s) \<and> opened (super_at s) fp C D i name \<and> u_mode fp = (if writable mode then 2 else 1) \<and>
    u_flags fp = 6 \<and> u_fsize fp = de_file_size (dirent i (block_bytes (super_at s) s D)) \<and> u_off fp = 0"
proof -
  have "resolves mem1 s name name D" using r has_file_D [OF f] f by (auto simp: in_root_def has_file_def intro: resolves_root)
  then show ?thesis using open_existing [OF f _ mem, of name mode] mode by (auto simp: open_r_def)
qed

lemma in_root_written: "in_root s D \<Longrightarrow> only_blocks X s s' \<Longrightarrow> in_root s' D"
  by (simp add: in_root_def only_blocks_def)

lemma take_both: "take n b = a \<Longrightarrow> length a = n \<Longrightarrow> drop n b = r \<Longrightarrow> b = a @ r"
  by (metis append_take_drop_id)

lemma write_then_read:
  assumes f: "has_file s Cs C D i name" and r: "in_root s D" and mem: "length mem0 = 8192" "length mem1 = 8192"
    and op: "opened (super_at s) fp C D i name" and fp: "u_mode fp = 2" "u_off fp = 0" "u_flags fp = 6" "u_fsize fp = of_nat fs0"
    and n: "data \<noteq> []" "length data \<le> 8192 * length C" "fs0 \<le> 8192 * length C" and m: "length data mod 8192 \<noteq> 0 \<or> length data = 8192 * length C"
  shows "\<exists>f1 s1 s2 f2 f3. write_r data 1 (length data) (Some fp) s = Some (length data, Some f1, s1) \<and> close_r (Some f1) s1 = Some (0, s2) \<and>
    fopen_u mem0 mem1 name [114] s2 = Some (Some f2, s2) \<and>
    read_r env 1 (max fs0 (length data)) (Some f2) s2 = Some (max fs0 (length data), data @ drop (length data) (take fs0 (content (super_at s) s C)), Some f3)"
proof -
  let ?f = "super_at s" and ?n = "length data"
  have at: "file_at s C D" by (rule has_file_at [OF f])
  have e: "0 < i" "i < 64" and nm: "length name \<le> 95" "0 \<notin> set name" using f by (auto simp: has_file_def entry_of_def file_name_ok_def)
  obtain f1 s1 s2 where w: "write_r data 1 ?n (Some fp) s = Some (?n, Some f1, s1)" "close_r (Some f1) s1 = Some (0, s2)"
    and c: "take ?n (content ?f s2 C) = data" "fs0 \<noteq> 0 \<longrightarrow> drop ?n (content ?f s2 C) = drop ?n (content ?f s C)"
    and d: "block_bytes ?f s2 D = upd_root i name (of_nat (max fs0 ?n)) (block_bytes ?f s D)" and o: "only_blocks (insert D (set C)) s s2"
    using write_close_content [OF at op fp n m e nm] by blast
  have su: "super_at s2 = ?f" using o by (simp add: only_blocks_def)
  note f2 = has_file_written [OF f o d]
  have at2: "file_at s2 C D" by (rule has_file_at [OF f2(1)])
  obtain fp2 where o2: "open_r mem0 mem1 name [114] s2 = Some (Some fp2, s2)" "opened (super_at s2) fp2 C D i name" "u_flags fp2 = 6"
    "u_fsize fp2 = of_nat (max fs0 ?n)" "u_off fp2 = 0"
    using open_in_root [OF f2(1) in_root_written [OF r o] mem, of "[114]"] f2(2) by (auto simp: mode_at_def)
  have sz: "max fs0 ?n \<le> 8192 * length C" using n by simp
  have k: "max fs0 ?n < 2 ^ 31" using sz at by (simp add: file_at_def)
  have "reading_u s2 (max fs0 ?n) C D i name 0 fp2" using o2 by (simp add: reading_u_def)
  then obtain fp3 where rd: "read_r env 1 (max fs0 ?n) (Some fp2) s2 = Some (max fs0 ?n, take (max fs0 ?n) (content ?f s2 C), Some fp3)"
    using read_all [OF at2 sz _ k, of i name fp2 env] su by auto
  have "take (max fs0 ?n) (content ?f s2 C) = data @ drop ?n (take fs0 (content ?f s C))"
  proof (cases "?n < fs0")
    case True
    have "content ?f s2 C = data @ drop ?n (content ?f s C)" by (rule take_both [OF c(1) refl]) (use c(2) True in auto)
    then show ?thesis using True by (simp add: max_def drop_take)
  next
    case False then show ?thesis using c(1) by (simp add: max_def)
  qed
  moreover have "fopen_u mem0 mem1 name [114] s2 = Some (Some fp2, s2)" using o2(1) by (simp add: fopen_u_def mode_at_def)
  ultimately show ?thesis using w rd by metis
qed


text \<open>The small disk with the entry 1 of the root for the file \<^verbatim>\<open>a\<close> in block 2.\<close>

definition small_disk_b :: user_state where
  "small_disk_b = put_block small_fs 1 (set_dirent 1 (new_dirent [97] 0x20 1 2) (replicate 8192 0)) (set_fat small_fs 2 (- 1) small_disk)"

lemma small_disk_b:
  shows "super_at small_disk_b = small_fs" and "in_root small_disk_b 1" and "has_file small_disk_b [[1]] [2] 1 1 [97]"
    and "de_file_size (dirent 1 (block_bytes small_fs small_disk_b 1)) = 0"
proof -
  have l: "length (set_dirent 1 (new_dirent [97] 0x20 1 2) (replicate 8192 0)) = 8192" by (rule set_dirent_length) simp_all
  have pw: "u_pwd small_disk_b = [67, 58]" by (simp add: small_disk_b_def put_block_def set_fat_def small_disk_def)
  show su: "super_at small_disk_b = small_fs" by (simp add: small_disk_b_def disk_simps)
  show "in_root small_disk_b 1" using pw by (simp add: in_root_def su) (simp add: small_fs_def)
  have inv: "fs_inv small_fs small_disk_b [[2], [1]]" unfolding small_disk_b_def
    by (intro fs_inv_put fs_inv_alloc [OF small_inv] l) (simp_all add: small_fat)
  have b: "block_bytes small_fs small_disk_b 1 = set_dirent 1 (new_dirent [97] 0x20 1 2) (replicate 8192 0)" by (simp only: small_disk_b_def block_put_block [OF l] if_True refl)
  have d1: "dirent 1 (block_bytes small_fs small_disk_b 1) = new_dirent [97] 0x20 1 2" unfolding b by (subst dirent_set_dirent) simp_all
  have d0: "de_busy (dirent 0 (block_bytes small_fs small_disk_b 1)) = 0" unfolding b by (subst dirent_set_dirent) (simp_all, simp add: dirent_def dirent_of_def Let_def)
  have "entry_of small_fs small_disk_b 1 [97] 1" unfolding entry_of_def matches_def using d0 d1 by (simp add: new_dirent_def)
  then show "has_file small_disk_b [[1]] [2] 1 1 [97]" unfolding has_file_def su d1 using inv by (simp add: new_dirent_def file_name_ok_def)
  show "de_file_size (dirent 1 (block_bytes small_fs small_disk_b 1)) = 0" unfolding d1 by (simp add: new_dirent_def)
qed


text \<open>When what is written fills whole blocks and the file has another one, the close writes the last buffer a second time, over
  the next block of the file: its old contents are lost.\<close>

lemma close_overwrites_next_block:
  assumes "has_file s Cs C D i name" and "in_root s D" and "length mem0 = 8192" "length mem1 = 8192"
    and "unat (de_file_size (dirent i (block_bytes (super_at s) s D))) \<le> 8192 * length C"
    and "data \<noteq> []" "length data mod 8192 = 0" "length data < 8192 * length C"
  shows "\<exists>s'. do { (f, s) \<leftarrow> fopen_u mem0 mem1 name [114, 43] s; (_, f, s) \<leftarrow> write_r data 1 (length data) f s; (_, s) \<leftarrow> close_r f s; Some s } = Some s' \<and>
    take (length data) (content (super_at s) s' C) = data \<and> take 8192 (drop (length data) (content (super_at s) s' C)) = drop (length data - 8192) data"
proof -
  let ?f = "super_at s" and ?n = "length data"
  define fs0 where "fs0 = unat (de_file_size (dirent i (block_bytes ?f s D)))"
  define q where "q = ?n div 8192"
  have n: "?n = 8192 * q" using assms(7) by (auto simp: q_def)
  then have q: "?n = 8192 * q" "0 < q" "q < length C" using assms(6,8) by (simp_all add: gr0_conv_Suc) (cases q; simp)
  have qd: "?n div 8192 = q" by (simp add: q_def)
  have at: "file_at s C D" by (rule has_file_at [OF assms(1)])
  have e: "0 < i" "i < 64" and nm: "length name \<le> 95" "0 \<notin> set name" using assms(1) by (auto simp: has_file_def entry_of_def file_name_ok_def)
  obtain fp where fp: "open_r mem0 mem1 name [114, 43] s = Some (Some fp, s)" "opened ?f fp C D i name" "u_mode fp = 2" "u_flags fp = 6"
    "u_fsize fp = of_nat fs0" "u_off fp = 0"
    using open_in_root [OF assms(1-4), of "[114, 43]"] by (auto simp: mode_at_def writable_def fs0_def)
  have o: "fopen_u mem0 mem1 name [114, 43] s = Some (Some fp, s)" using fp(1) by (simp add: fopen_u_def mode_at_def)
  obtain f1 s1 s' where w: "write_r data 1 ?n (Some fp) s = Some (?n, Some f1, s1)" "close_r (Some f1) s1 = Some (0, s')"
    and wr: "writing s fs0 C D i name data ?n f1 s1" and s': "s' = flushed_to ?f f1 C D i name q s1"
    using write_close [OF at fp(2,3,6,4,5) assms(6) _ _ e nm, folded q_def] assms(5,8) by (auto simp: fs0_def)
  have at1: "file_at s1 C D" and op1: "opened ?f f1 C D i name" and su: "?f = super_at s1"
    and blocks: "\<forall>j < length C. block_bytes ?f s1 (C ! j) = (if j < q then chunk data j else block_bytes ?f s (C ! j))"
    and buf: "u_buffer f1 = chunk data (q - 1)"
    using wr qd assms(6,7) by (simp_all add: writing_def only_blocks_def)
  have lb: "length (u_buffer f1) = 8192" using op1 by (simp add: opened_def)
  note fb = flushed_to_blocks [OF at1 lb e(2) su, where nm = name and q = q, folded s']
  have ok: "disk_ok s" "disk_ok s'" using at fb(3) by (simp_all add: file_at_def only_blocks_def)
  have "take ?n (content ?f s' C) = data"
    by (rule same_content [OF ok]) (use fb(2) blocks assms(7,8) qd in simp_all)
  moreover have "take 8192 (drop ?n (content ?f s' C)) = block_bytes ?f s' (C ! q)"
    unfolding q(1) content_def using concat_take_drop [of "map (block_bytes ?f s') C" 8192 q] ok(2) q(3) by simp
  then have "take 8192 (drop ?n (content ?f s' C)) = chunk data (q - 1)" using fb(2) [OF q(3)] buf by simp
  then have "take 8192 (drop ?n (content ?f s' C)) = drop (?n - 8192) data" using q by (simp add: chunk_def diff_mult_distrib2)
  ultimately show ?thesis using o w by (intro exI [of _ s']) simp
qed

text \<open>The small disk with the file \<^verbatim>\<open>a\<close> in the blocks 2 and 3.\<close>

definition small_disk_c :: user_state where
  "small_disk_c = put_block small_fs 1 (set_dirent 1 (new_dirent [97] 0x20 1 2) (replicate 8192 0)) (set_fat small_fs 3 (- 1) (set_fat small_fs 2 3 small_disk))"

lemma small_disk_c:
  shows "super_at small_disk_c = small_fs" and "in_root small_disk_c 1" and "has_file small_disk_c [[1]] [2, 3] 1 1 [97]"
    and "de_file_size (dirent 1 (block_bytes small_fs small_disk_c 1)) = 0"
proof -
  have l: "length (set_dirent 1 (new_dirent [97] 0x20 1 2) (replicate 8192 0)) = 8192" by (rule set_dirent_length) simp_all
  have pw: "u_pwd small_disk_c = [67, 58]" by (simp add: small_disk_c_def put_block_def set_fat_def small_disk_def)
  show su: "super_at small_disk_c = small_fs" by (simp add: small_disk_c_def disk_simps)
  show "in_root small_disk_c 1" using pw by (simp add: in_root_def su) (simp add: small_fs_def)
  have ft: "fat small_fs (set_fat small_fs 3 (- 1) (set_fat small_fs 2 3 small_disk)) c = (if c = 3 then - 1 else if c = 2 then 3 else if c < 2 then - 1 else 0)" if "c < 4" for c
    using small_fat [OF that] by (simp add: fat_set_fat disk_ok_set_fat)
  have "fs_inv small_fs (set_fat small_fs 3 (- 1) (set_fat small_fs 2 3 small_disk)) [[2, 3], [1]]"
    by (auto simp: fs_inv_def ft disk_ok_set_fat)
  then have inv: "fs_inv small_fs small_disk_c [[2, 3], [1]]" unfolding small_disk_c_def by (intro fs_inv_put l) simp_all
  have b: "block_bytes small_fs small_disk_c 1 = set_dirent 1 (new_dirent [97] 0x20 1 2) (replicate 8192 0)" by (simp only: small_disk_c_def block_put_block [OF l] if_True refl)
  have d1: "dirent 1 (block_bytes small_fs small_disk_c 1) = new_dirent [97] 0x20 1 2" unfolding b by (subst dirent_set_dirent) simp_all
  have d0: "de_busy (dirent 0 (block_bytes small_fs small_disk_c 1)) = 0" unfolding b by (subst dirent_set_dirent) (simp_all, simp add: dirent_def dirent_of_def Let_def)
  have "entry_of small_fs small_disk_c 1 [97] 1" unfolding entry_of_def matches_def using d0 d1 by (simp add: new_dirent_def)
  then show "has_file small_disk_c [[1]] [2, 3] 1 1 [97]" unfolding has_file_def su d1 using inv by (simp add: new_dirent_def file_name_ok_def)
  show "de_file_size (dirent 1 (block_bytes small_fs small_disk_c 1)) = 0" unfolding d1 by (simp add: new_dirent_def)
qed

lemma close_overwrites_next_block_witness: "\<exists>s'. do { (f, s) \<leftarrow> fopen_u (replicate 8192 0) (replicate 8192 0) [97] [114, 43] small_disk_c;
      (_, f, s) \<leftarrow> write_r (replicate 8192 1) 1 8192 f s; (_, s) \<leftarrow> close_r f s; Some s } = Some s' \<and>
    take 8192 (drop 8192 (content small_fs s' [2, 3])) = replicate 8192 1"
proof -
  have l: "length (replicate 8192 (1 :: u8)) = 8192" by simp
  have ne: "replicate 8192 (1 :: u8) \<noteq> []" by simp
  have z: "unat (de_file_size (dirent 1 (block_bytes (super_at small_disk_c) small_disk_c 1))) \<le> 8192 * length [2, 3 :: nat]"
    unfolding small_disk_c(1) small_disk_c(4) by simp
  show ?thesis
    using close_overwrites_next_block [OF small_disk_c(3,2) _ _ z ne, of "replicate 8192 0" "replicate 8192 0", unfolded l small_disk_c(1)] by fastforce
qed

end
