(* ===== verification/Unew.thy ===== *)
theory Unew
  imports Ufiles
begin

text \<open>
  A new file: what a program writes under a name that the root directory does not have yet.
\<close>

section \<open>A name that is not there\<close>

definition new_in_root :: "user_state \<Rightarrow> nat list list \<Rightarrow> nat \<Rightarrow> nat \<Rightarrow> u8 list \<Rightarrow> bool" where
  "new_in_root s Cs D i name \<longleftrightarrow> cfs_geom (super_at s) \<and> fs_inv (super_at s) s Cs \<and> in_root s D \<and> D < 2 ^ 32 \<and> D \<in> set (concat Cs) \<and> file_name_ok name \<and>
     (\<forall>j < 64. \<not> matches (\<lambda>d. de_busy d \<noteq> 0) (block_bytes (super_at s) s D) name j) \<and>
     i = free_dirent (block_bytes (super_at s) s D) 0 \<and> 0 < i \<and> i < 64 \<and> (\<exists>b < nblk (super_at s). fat (super_at s) s b = 0)"

lemma new_in_root_at:
  assumes "new_in_root s Cs D i name"
  shows "disk_ok s" "0 < D" "D < 2 ^ 32" "table_blks (super_at s) \<le> D" "D < nblk (super_at s)" "fat (super_at s) s D \<noteq> 0"
    and "sb_root_blk (super_at s) = of_nat D" "(super_at s)\<lparr>sb_root_blk := of_nat D\<rparr> = super_at s" "resolves mem1 s name name D"
proof -
  have a: "cfs_geom (super_at s)" "fs_inv (super_at s) s Cs" "in_root s D" "D \<in> set (concat Cs)" "file_name_ok name" "D < 2 ^ 32"
    using assms unfolding new_in_root_def by blast+
  show "disk_ok s" using a(2) by (simp add: fs_inv_def)
  show b: "D < 2 ^ 32" by (rule a(6))
  show t: "table_blks (super_at s) \<le> D" and n: "D < nblk (super_at s)" and "fat (super_at s) s D \<noteq> 0" using a(2,4) unfolding fs_inv_def by blast+
  show z: "0 < D" using t n by (simp add: table_blks_def)
  show r: "sb_root_blk (super_at s) = of_nat D" using a(3) by (simp add: in_root_def)
  then show "(super_at s)\<lparr>sb_root_blk := of_nat D\<rparr> = super_at s" by (cases "super_at s") simp
  obtain c where "c \<noteq> 47" "u_pwd s = [c, 58]" using a(3) by (auto simp: in_root_def)
  then show "resolves mem1 s name name D" using resolves_root [OF a(5) _ _ r z b] by blast
qed

lemma absent:
  assumes "new_in_root s Cs D i name"
  shows "\<exists>r k. read_root (super_at s) (sb_root_blk (super_at s)) (replicate 8192 0) s = Some (0, block_bytes (super_at s) s D) \<and>
    find_dirent (\<lambda>d. de_busy d \<noteq> 0) (block_bytes (super_at s) s D) name 0 0 = (r, k) \<and> r \<noteq> 0"
proof -
  note at = new_in_root_at [OF assms]
  have g: "cfs_geom (super_at s)" using assms by (simp add: new_in_root_def)
  have l: "length (block_bytes (super_at s) s D) = 8192" using at(1) by simp
  have "fst (find_dirent (\<lambda>d. de_busy d \<noteq> 0) (block_bytes (super_at s) s D) name 0 0) \<noteq> 0"
    by (rule find_dirent_none [OF l]) (use assms in \<open>simp_all add: new_in_root_def\<close>)
  moreover have "read_root (super_at s) (of_nat D) (replicate 8192 0) s = Some (0, block_bytes (super_at s) s D)" by (rule read_root_ok [OF g at(1,5)]) simp
  ultimately show ?thesis using at(7) by (metis prod.collapse)
qed

text \<open>The parts of opening and removing that depend on the path.\<close>

lemma resolved:
  assumes "resolves mem1 s path name D"
  obtains tp tp' where "getpathname (u_pwd s) path = Some (tp, path)" "getfilename tp = Some (name, tp')" "\<not> length tp' < 3"
    "read_directory_blk (drop 3 tp') (super_at s) mem1 s = Some (of_nat D)" "(of_nat D :: u32) \<noteq> 0"
proof -
  obtain tp tp' where p: "getpathname (u_pwd s) path = Some (tp, path)" "getfilename tp = Some (name, tp')" "3 \<le> length tp'"
    "read_directory_blk (drop 3 tp') (super_at s) mem1 s = Some (of_nat D)" "0 < D" "D < 2 ^ 32"
    using assms by (auto simp: resolves_def split: option.splits prod.splits)
  have "(of_nat D :: u32) \<noteq> 0" using p(5,6) u32_nat [OF p(6)] by (metis neq0_conv unat_0)
  then show ?thesis using that p by simp
qed

lemma remove_absent:
  assumes "new_in_root s Cs D i name"
  shows "\<exists>r. remove_file mem1 name s = Some (r, s)"
proof -
  note at = new_in_root_at [OF assms]
  obtain tp tp' where p: "getpathname (u_pwd s) name = Some (tp, name)" "getfilename tp = Some (name, tp')" "\<not> length tp' < 3"
    "read_directory_blk (drop 3 tp') (super_at s) mem1 s = Some (of_nat D)" "(of_nat D :: u32) \<noteq> 0" by (rule resolved [OF at(9) [of mem1]])
  obtain r k where f: "read_root (super_at s) (sb_root_blk (super_at s)) (replicate 8192 0) s = Some (0, block_bytes (super_at s) s D)"
    "find_dirent (\<lambda>d. de_busy d \<noteq> 0) (block_bytes (super_at s) s D) name 0 0 = (r, k)" "r \<noteq> 0" using absent [OF assms] by blast
  have "read_super_block_u \<lparr>p_dv_num = 0, p_start = 1\<rparr> s = Some (0, super_at s)" by (rule super_ok [OF at(1)])
  then show ?thesis unfolding remove_file_def using p(3,5) f(3) by (simp add: p(1,2,4) at(8) f(1,2) Let_def)
qed

text \<open>What \<^verbatim>\<open>fopen\<close> finds after it has created the file.\<close>

lemma open_new:
  assumes n: "new_in_root s Cs D i name" and flg: "mode_at 0 mode = 119 \<or> mode_at 0 mode = 97"
    and c: "create_file (super_at s) name 0x20 s = Some (0, s')" and su: "super_at s' = super_at s" "u_pwd s' = u_pwd s"
    and ok: "disk_ok s'" and res: "resolves mem1 s' name name D"
    and e: "entry_of (super_at s) s' D name i"
  shows "open_file_u mem0 mem1 name mode s = open_file_u mem0 mem1 name mode s'"
proof -
  note at = new_in_root_at [OF n]
  have g: "cfs_geom (super_at s)" using n by (simp add: new_in_root_def)
  obtain tp tp' where p: "getpathname (u_pwd s) name = Some (tp, name)" "getfilename tp = Some (name, tp')" "\<not> length tp' < 3"
    "read_directory_blk (drop 3 tp') (super_at s) mem1 s = Some (of_nat D)" "(of_nat D :: u32) \<noteq> 0" by (rule resolved [OF at(9) [of mem1]])
  obtain tq tq' where q: "getpathname (u_pwd s') name = Some (tq, name)" "getfilename tq = Some (name, tq')" "\<not> length tq' < 3"
    "read_directory_blk (drop 3 tq') (super_at s') mem1 s' = Some (of_nat D)" by (rule resolved [OF res])
  obtain r k where f: "read_root (super_at s) (sb_root_blk (super_at s)) (replicate 8192 0) s = Some (0, block_bytes (super_at s) s D)"
    "find_dirent (\<lambda>d. de_busy d \<noteq> 0) (block_bytes (super_at s) s D) name 0 0 = (r, k)" "r \<noteq> 0" using absent [OF n] by blast
  have sup: "read_super_block_u \<lparr>p_dv_num = 0, p_start = 1\<rparr> s = Some (0, super_at s)" "read_super_block_u \<lparr>p_dv_num = 0, p_start = 1\<rparr> s' = Some (0, super_at s)"
    using super_ok [OF at(1)] super_ok [OF ok] su by simp_all
  have l: "length (block_bytes (super_at s) s' D) = 8192" using ok by simp
  have rd: "read_root (super_at s) (sb_root_blk (super_at s)) (replicate 8192 0) s' = Some (0, block_bytes (super_at s) s' D)"
    unfolding at(7) by (rule read_root_ok [OF g ok at(5)]) simp
  have fd: "i < 64" "find_dirent (\<lambda>d. de_busy d \<noteq> 0) (block_bytes (super_at s) s' D) name 0 0 = (0, i)"
    using e find_dirent_found [OF l] by (auto simp: entry_of_def)
  have no: "read_directory_entry_u (super_at s) name s = Some (- 1, None)" using f by (simp add: read_directory_entry_u_def)
  have yes: "read_directory_entry_u (super_at s) name s' = Some (0, Some (dirent i (block_bytes (super_at s) s' D)))" using fd by (simp add: read_directory_entry_u_def rd)
  have "u_pwd s' = u_pwd s" by (rule su(2))
  then have same: "tq = tp" "tq' = tp'" using p(1,2) q(1,2) by simp_all
  show ?thesis unfolding open_file_u_def using p(3,5) flg q(4)
    by (simp add: p(1,2,4) su same sup at(8) no yes c Let_def)
qed

text \<open>Creating leads to a disk with an empty file.\<close>

lemma create_new:
  assumes n: "new_in_root s Cs D i name"
  shows "\<exists>b s'. create_file (super_at s) name 0x20 s = Some (0, s') \<and> super_at s' = super_at s \<and> u_pwd s' = u_pwd s \<and> in_root s' D \<and>
    has_file s' Cs [b] D i name \<and> de_file_size (dirent i (block_bytes (super_at s') s' D)) = 0"
proof -
  let ?f = "super_at s"
  note at = new_in_root_at [OF n]
  have g: "cfs_geom ?f" and inv: "fs_inv ?f s Cs" and ir: "in_root s D" and nm: "file_name_ok name" and D: "D \<in> set (concat Cs)"
    and i: "free_dirent (block_bytes ?f s D) 0 = i" "0 < i" "i < 64" and fr: "\<exists>b < nblk ?f. fat ?f s b = 0"
    and no: "\<forall>j < 64. \<not> matches (\<lambda>d. de_busy d \<noteq> 0) (block_bytes ?f s D) name j"
    using n unfolding new_in_root_def by blast+
  have gn: "get_file_name name = name" "0 \<notin> set name" "length name \<le> 95" using nm by (auto simp: file_name_ok_def get_file_name_plain)
  obtain b s1 where b: "b < nblk ?f" "fat ?f s b = 0" "fs_inv ?f s1 ([b] # Cs)" "super_at s1 = ?f" "u_pwd s1 = u_pwd s"
    and c: "create_file ?f name 0x20 s = Some (0, put_block ?f D (set_dirent i (new_dirent name 0x20 i b) (block_bytes ?f s D)) s1)"
    using create_file_ok [OF g inv at(7,4,5,6) _ _ i(1,3) fr, where path = name and attr = "0x20"] gn by auto
  let ?r = "set_dirent i (new_dirent name 0x20 i b) (block_bytes ?f s D)"
  define s' where "s' = put_block ?f D ?r s1"
  have l: "length (block_bytes ?f s D) = 8192" using at(1) by simp
  have lr: "length ?r = 8192" using l i(3) by simp
  have su: "super_at s' = ?f" using g b(4) by (simp add: s'_def disk_simps cfs_geom_def)
  have pw: "u_pwd s' = u_pwd s" using b(5) by (simp add: s'_def put_block_def)
  have inv': "fs_inv ?f s' ([b] # Cs)" unfolding s'_def by (rule fs_inv_put [OF b(3) at(4) lr])
  have bb: "block_bytes ?f s' D = ?r" by (simp add: s'_def disk_simps lr)
  have d: "dirent j ?r = (if j = i then new_dirent name 0x20 i b else dirent j (block_bytes ?f s D))" if "j < 64" for j
    using that i(3) l by (simp add: dirent_set_dirent)
  have "\<not> matches (\<lambda>d. de_busy d \<noteq> 0) ?r name j" if "j < i" for j using that i(3) no d [of j] by (simp add: matches_def)
  moreover have "matches (\<lambda>d. de_busy d \<noteq> 0) ?r name i" using d [OF i(3)] by (simp add: matches_def new_dirent_def)
  ultimately have "entry_of ?f s' D name i" using i(3) by (simp add: entry_of_def bb)
  then have "has_file s' Cs [b] D i name" using g inv' D i(2) nm d [OF i(3)] by (simp add: has_file_def su bb new_dirent_def)
  moreover have "de_file_size (dirent i (block_bytes (super_at s') s' D)) = 0" using d [OF i(3)] by (simp add: su bb new_dirent_def)
  moreover have "in_root s' D" using ir by (simp add: in_root_def su pw)
  ultimately show ?thesis using c su pw unfolding s'_def by blast
qed



end
