(* ===== verification/Spec2Isabelle.thy ===== *)
theory Spec2Isabelle
  imports Prelude Mm Pages Kheap Device Kmalloc Kroom Links Inet Net Netprops Socket Sockprops Sockthms
    Kstring Kprint Kprintprops File Fileprops Window Windowprops Thread Sched Spawn Leave Threadthms Syscall Sysprops Waiting Reach Elf
    Grow Exec Tables Fill Load Execthms Qsort Qsortthms Ufs Ustdio Ufat Uchain Udir Udisk Ucreate Uio Uwrite Uround Uopen Ufiles Unew
begin

text \<open>
  The kernel of Sirius, a 64-bit multitasking operating system (\<^verbatim>\<open>src/kernel\<close>), and the file system in the C library of
  its programs (\<^verbatim>\<open>src/user/lib\<close>), modelled function by function, with the theorems that make their parts correct.

  \<^bold>\<open>The program.\<close>  At the bottom is the memory manager (\<^verbatim>\<open>mm.c\<close>): bitmaps of physical frames and of virtual
  pages, page tables, \<^verbatim>\<open>alloc_pages\<close> and \<^verbatim>\<open>free_pages\<close>, and a window for the registers of devices.  \<^verbatim>\<open>malloc\<close> and \<^verbatim>\<open>free\<close>
  (\<^verbatim>\<open>lib/stdlib.c\<close>) are thin layers over it, and everything else gets its objects from there: sockets and their
  buffers, files, pipes, windows and threads.  Threads form one queue; two schedulers, one per processor, walk
  it at timer interrupts.  Programs enter the kernel by system calls, which reach the other parts.  The
  network stack goes from frames through ARP, IPv4, UDP, TCP and DHCP to sockets, which the loopback device
  joins on the same machine.  The kernel reads the file system sector by sector below a small \<^verbatim>\<open>stdio\<close>; programs, which
  get at sectors by system calls, read and write it with a second, larger implementation in their C library.

  \<^bold>\<open>How it is modelled.\<close>  Machine integers are words of their width and wrap as in C.  State that C keeps in
  globals is a record; a structure in memory is a record in a map from addresses, so that a dangling or null
  pointer has no entry and an operation that follows it has no result.  Records extend one another the way
  the parts share state: \<open>mm_state\<close>, \<open>net_state\<close> below \<open>sock_state\<close>, and \<open>file_state\<close> below \<open>win_state\<close> below
  \<open>thread_state\<close> below \<open>sys_state\<close> below \<open>exec_state\<close>;
  the programs' \<open>user_state\<close> (the disk and the globals of the library) is apart from them.  Operations are functions in the option monad: \<open>None\<close> is an access that C leaves
  undefined or a loop that does not end (a spinning lock, a wait nobody answers).  Copies that the code does not check are among these
  accesses: a packet longer than the 8192 bytes of the buffer it is copied to gives \<open>None\<close>, and so does the wait of
  DHCP for a frame when a descriptor has no buffer.  Loops are structural
  recursion, \<open>function\<close> with a measure, or \<open>partial_function (option)\<close> when they may run forever; no fuel is used,
  and the theorems that say an operation works say that it returns.

  \<^bold>\<open>Theories, sources and results.\<close>
  \<^item> \<^verbatim>\<open>Prelude\<close>: words, masks, searches and list facts; collections of simplification rules.
  \<^item> \<^verbatim>\<open>Mm\<close> (\<^verbatim>\<open>mm.c\<close>, \<^verbatim>\<open>include/paging.h\<close>): frames, pages, the page walk and \<^verbatim>\<open>mm_mp\<close>.  \<^verbatim>\<open>Pages\<close>, \<^verbatim>\<open>Kheap\<close>: the bitmap of
    pages as a list of page states, the invariant \<open>mm_inv\<close>, \<^verbatim>\<open>alloc_pages\<close> and \<^verbatim>\<open>free_pages\<close> as refinements of an
    abstract first-fit allocator, their round trip, and the walk to the new frames.  \<^verbatim>\<open>Device\<close>: the device window.
  \<^item> \<^verbatim>\<open>Kmalloc\<close> (\<^verbatim>\<open>lib/stdlib.c\<close>): \<^verbatim>\<open>malloc\<close>, \<^verbatim>\<open>free\<close> and the contract \<open>heap\<close> of an allocator, interpreted on them.  \<^verbatim>\<open>Kroom\<close>:
    \<open>heap_room n\<close>, enough room for \<open>n\<close> more pages in any order of operations, which is what the other parts assume.
  \<^item> \<^verbatim>\<open>Links\<close>: linked lists in a map from addresses (locale \<open>linked\<close>), used for sockets, windows and threads.
  \<^item> \<^verbatim>\<open>Inet\<close> (\<^verbatim>\<open>include/inet.h\<close>, \<^verbatim>\<open>driver/net/checksum.c\<close>): byte order and the Internet checksum.
  \<^item> \<^verbatim>\<open>Net\<close> (\<^verbatim>\<open>driver/net\<close>: \<^verbatim>\<open>ethernet.c\<close>, \<^verbatim>\<open>port.c\<close>, \<^verbatim>\<open>arp.c\<close>, \<^verbatim>\<open>ipv4.c\<close>, \<^verbatim>\<open>udp.c\<close>, \<^verbatim>\<open>tcp.c\<close>, \<^verbatim>\<open>dhcp.c\<close>); \<^verbatim>\<open>Netprops\<close>: checksums of what is
    sent, the TCP connection table, the port allocator, the ARP cache, the option parser.
  \<^item> \<^verbatim>\<open>Socket\<close> (\<^verbatim>\<open>file/socket.c\<close>, \<^verbatim>\<open>bind.c\<close>, \<^verbatim>\<open>sendto.c\<close>, \<^verbatim>\<open>recvfrom.c\<close>, \<^verbatim>\<open>driver/net/vmnet.c\<close>, the receive handler); \<^verbatim>\<open>Sockprops\<close>,
    \<^verbatim>\<open>Sockthms\<close>: the socket queue, delivery from the wire and over the loopback device to \<^verbatim>\<open>recvfrom\<close>, exclusive ports.
  \<^item> \<^verbatim>\<open>Kstring\<close> (\<^verbatim>\<open>lib/string.c\<close>), \<^verbatim>\<open>Kprint\<close> (\<^verbatim>\<open>lib/stdlib.c\<close>, \<^verbatim>\<open>lib/vsprintf.c\<close>, \<^verbatim>\<open>argv.c\<close>), \<^verbatim>\<open>Kprintprops\<close>: C strings in a
    byte memory, numerals that read back, \<^verbatim>\<open>vsprintf\<close> against a specification of its format, command lines.
  \<^item> \<^verbatim>\<open>File\<close> (\<^verbatim>\<open>file/std.c\<close>, \<^verbatim>\<open>pipe.c\<close>, \<^verbatim>\<open>cfs.c\<close>, \<^verbatim>\<open>lib/stdio.c\<close>), \<^verbatim>\<open>Fileprops\<close>: pipes as queues of messages, files as the
    bytes of their blocks, streams that are opened and closed without a loss.
  \<^item> \<^verbatim>\<open>Window\<close> (\<^verbatim>\<open>gui/compositor.c\<close>), \<^verbatim>\<open>Windowprops\<close>: the list of windows and its lock.
  \<^item> \<^verbatim>\<open>Thread\<close> (\<^verbatim>\<open>thread.c\<close>, \<^verbatim>\<open>exit.c\<close>, \<^verbatim>\<open>server.c\<close>); \<^verbatim>\<open>Sched\<close>: the invariant \<open>thread_inv\<close> and the schedulers; \<^verbatim>\<open>Spawn\<close>: creation;
    \<^verbatim>\<open>Leave\<close>: exit; \<^verbatim>\<open>Threadthms\<close>: what each switch does to the registers, and a round of interrupts serves every runnable thread and is
    transparent to it.
  \<^item> \<^verbatim>\<open>Syscall\<close> (\<^verbatim>\<open>syscall.c\<close>): every system call and the dispatcher; \<^verbatim>\<open>Sysprops\<close>: of what a process gets by
    the four system calls for memory, its end gives back all but the blocks it holds outside its table; \<^verbatim>\<open>Waiting\<close>: a father
    sleeps until its child has ended and then gets the processor; \<^verbatim>\<open>Reach\<close>: the kernel as a transition relation \<open>kernel_step\<close>
    whose reachable states are all well-formed.  Its steps are listed there, with what is asked of an \<^verbatim>\<open>exit\<close>.
  \<^item> \<^verbatim>\<open>Elf\<close> (\<^verbatim>\<open>file/elf.c\<close>): the loader of programs.  \<^verbatim>\<open>Exec\<close> (\<^verbatim>\<open>exectve.c\<close>): the page tables, the memory and the thread of a
    new program.  \<^verbatim>\<open>Grow\<close>: what stays when the heap grows; \<^verbatim>\<open>Tables\<close>: the walk of the processor (\<open>hw_walk\<close>, written
    from its documentation) through the tables; \<^verbatim>\<open>Fill\<close>, \<^verbatim>\<open>Load\<close>: the memory of the program, byte by byte;
    \<^verbatim>\<open>Execthms\<close>: a program that is started finds its image, its arguments and its stack.
  \<^item> \<^verbatim>\<open>Qsort\<close> (\<^verbatim>\<open>user/lib/libc/stdlib/qsort.c\<close>), \<^verbatim>\<open>Qsortthms\<close>: the Unix quicksort on an array of bytes ends and sorts.
  \<^item> \<^verbatim>\<open>Ufs\<close> (\<^verbatim>\<open>user/lib/sys/cfs.c\<close>, \<^verbatim>\<open>path.c\<close>), \<^verbatim>\<open>Ustdio\<close> (\<^verbatim>\<open>file.c\<close>, \<^verbatim>\<open>pipe.c\<close>, \<^verbatim>\<open>fopen.c\<close>, \<^verbatim>\<open>ungetc.c\<close>, \<^verbatim>\<open>rename.c\<close>): the file system and the
    streams of the programs.  \<^verbatim>\<open>Ufat\<close>, \<^verbatim>\<open>Uchain\<close>, \<^verbatim>\<open>Udir\<close>: the disk as an allocation table, blocks and directory entries, and the
    invariant \<open>fs_inv\<close> that the chains of the files share no block and are all that is in use.  \<^verbatim>\<open>Ucreate\<close>: creating and removing
    a file.  \<^verbatim>\<open>Uio\<close>, \<^verbatim>\<open>Uwrite\<close>, \<^verbatim>\<open>Uround\<close>, \<^verbatim>\<open>Uopen\<close>, \<^verbatim>\<open>Ufiles\<close>, \<^verbatim>\<open>Unew\<close>: what is written to an old or a new file, closed and opened again is
    what is read.  \<^verbatim>\<open>Udisk\<close>: a small disk for the instances.

  \<^bold>\<open>Parameters.\<close>  What is not code of the kernel is an argument of the definitions: the sectors a drive returns
  (\<open>disk\<close>), what other threads and interrupts do while an operation waits (\<open>env\<close>), the registers at an interrupt,
  the floating point image \<^verbatim>\<open>SaveSSE\<close> stores, the input ports, and memory that C leaves uninitialised.

  \<^bold>\<open>Bounds.\<close>  The heap has 98304 pages, the frames below 512 MiB are initialised, a thread has 512 table entries
  and a pipe 512 messages; these are the numbers of the code.  Theorems that need room say how much: 17 pages for
  a thread (2 for itself, 3 for each of four streams, 1 for the mouse, 2 for its table) and 1536 more for a window.

  \<^bold>\<open>Not modelled.\<close>  Drivers of hardware (disks, network cards, graphics, sound, timers, interrupt controllers), the
  assembly entry points, the boot loader and everything that draws: they consist of register accesses or
  pixels.  Of the kernel's own logic, the dispatcher \<^verbatim>\<open>communication.c\<close> is left out; of the C library of the programs
  (\<^verbatim>\<open>src/user/lib\<close>) everything but its file system, streams and \<^verbatim>\<open>qsort\<close>.  Lua and nanojpeg are third-party programs.
\<close>

end
